(* ===== verification/Prelude.thy ===== *)
theory Prelude
  imports Main "HOL-Library.Multiset"
begin

text \<open>
  What the components share: the result type of fallible Rust code, the loops and the
  checked operations of the standard library that panic, and the generic lemmas on
  lists that the component theories use.

  A Rust function that may panic or return \<^verbatim>\<open>Err\<close> is a HOL function into \<open>'a res\<close>.
  The two ways to fail are kept apart: \<open>Panic\<close> is a panic (\<^verbatim>\<open>unwrap\<close>, \<^verbatim>\<open>assert!\<close>, an
  index out of bounds, an arithmetic underflow of \<^verbatim>\<open>usize\<close>, which panics in a build
  with overflow checks), \<open>Bail\<close> is an \<^verbatim>\<open>Err\<close> value the caller can handle.
  Values of type \<^verbatim>\<open>usize\<close> are \<open>nat\<close>; the subtractions that can underflow are \<open>usub\<close>.
\<close>

section \<open>Results\<close>

datatype err = Panic string | Bail string

type_synonym 'a res = "err + 'a"

abbreviation Ok :: "'a \<Rightarrow> 'a res" where "Ok \<equiv> Inr"
abbreviation Err :: "err \<Rightarrow> 'a res" where "Err \<equiv> Inl"

text \<open>\<open>returns r x\<close>: the code returned \<open>x\<close>; \<open>panics r\<close>: it panicked.\<close>

definition panics :: "'a res \<Rightarrow> bool" where
  "panics r = (case r of Inl (Panic _) \<Rightarrow> True | _ \<Rightarrow> False)"

definition is_ok :: "'a res \<Rightarrow> bool" where
  "is_ok r = (case r of Inl _ \<Rightarrow> False | Inr _ \<Rightarrow> True)"

text \<open>The \<^verbatim>\<open>?\<close> operator and the sequencing of two statements.\<close>

definition rbind :: "'a res \<Rightarrow> ('a \<Rightarrow> 'b res) \<Rightarrow> 'b res" where
  "rbind m f = (case m of Inl e \<Rightarrow> Inl e | Inr x \<Rightarrow> f x)"

text \<open>A \<^verbatim>\<open>for\<close> loop over the items of a list that updates a state and may fail.\<close>

fun rfold :: "('a \<Rightarrow> 's \<Rightarrow> 's res) \<Rightarrow> 'a list \<Rightarrow> 's \<Rightarrow> 's res" where
  "rfold f [] s = Inr s"
| "rfold f (x # xs) s = rbind (f x s) (rfold f xs)"

text \<open>\<^verbatim>\<open>iter().map(f).collect::<Result<Vec<_>>>()\<close>.\<close>

fun rmap :: "('a \<Rightarrow> 'b res) \<Rightarrow> 'a list \<Rightarrow> 'b list res" where
  "rmap f [] = Inr []"
| "rmap f (x # xs) = rbind (f x) (\<lambda>y. rbind (rmap f xs) (\<lambda>ys. Inr (y # ys)))"

definition rassert :: "bool \<Rightarrow> string \<Rightarrow> unit res" where
  "rassert b msg = (if b then Inr () else Inl (Panic msg))"

definition unwrap :: "'a option \<Rightarrow> 'a res" where
  "unwrap x = (case x of None \<Rightarrow> Inl (Panic ''unwrap on None'') | Some y \<Rightarrow> Inr y)"

text \<open>\<^verbatim>\<open>v[i]\<close>, \<^verbatim>\<open>v[i] = x\<close>, \<^verbatim>\<open>a - b\<close> on \<^verbatim>\<open>usize\<close>, \<^verbatim>\<open>v.pop()\<close>, \<^verbatim>\<open>v[a..]\<close>.\<close>

definition vget :: "'a list \<Rightarrow> nat \<Rightarrow> 'a res" where
  "vget xs i = (if i < length xs then Inr (xs ! i) else Inl (Panic ''index out of bounds''))"

definition vset :: "'a list \<Rightarrow> nat \<Rightarrow> 'a \<Rightarrow> 'a list res" where
  "vset xs i x = (if i < length xs then Inr (xs[i := x]) else Inl (Panic ''index out of bounds''))"

definition usub :: "nat \<Rightarrow> nat \<Rightarrow> nat res" where
  "usub a b = (if b \<le> a then Inr (a - b) else Inl (Panic ''attempt to subtract with overflow''))"

definition udiv :: "nat \<Rightarrow> nat \<Rightarrow> nat res" where
  "udiv a b = (if b = 0 then Err (Panic ''attempt to divide by zero'') else Ok (a div b))"

definition slice_from :: "'a list \<Rightarrow> nat \<Rightarrow> 'a list res" where
  "slice_from xs a = (if a \<le> length xs then Inr (drop a xs) else Inl (Panic ''range start index out of range''))"

definition div_ceil :: "nat \<Rightarrow> nat \<Rightarrow> nat" where
  "div_ceil a b = (if a mod b = 0 then a div b else a div b + 1)"

section \<open>Automation for results\<close>

named_theorems res_simps \<open>rewriting of computations with results\<close>

lemma rbind_Inl [simp]: "rbind (Inl e) f = Inl e"
  by (simp add: rbind_def)

lemma rbind_Inr [simp]: "rbind (Inr x) f = f x"
  by (simp add: rbind_def)

lemma rbind_assoc: "rbind (rbind m f) g = rbind m (\<lambda>x. rbind (f x) g)"
  by (cases m) simp_all

lemma rbind_eq_Inr [res_simps]: "rbind m f = Inr y \<longleftrightarrow> (\<exists>x. m = Inr x \<and> f x = Inr y)"
  by (cases m) simp_all

lemma rbind_eq_Inl [res_simps]:
  "rbind m f = Inl e \<longleftrightarrow> m = Inl e \<or> (\<exists>x. m = Inr x \<and> f x = Inl e)"
  by (cases m) simp_all

lemma rbindE:
  assumes "rbind m f = Inr y"
  obtains x where "m = Inr x" and "f x = Inr y"
  using assms by (auto simp: res_simps)

lemma rassert_eq_Inr [res_simps]: "rassert b msg = Inr u \<longleftrightarrow> b"
  by (simp add: rassert_def)

lemma rassert_True [simp]: "b \<Longrightarrow> rassert b msg = Inr ()"
  by (simp add: rassert_def)

lemma unwrap_Some [simp]: "unwrap (Some x) = Inr x"
  by (simp add: unwrap_def)

lemma unwrap_None [simp]: "unwrap None = Inl (Panic ''unwrap on None'')"
  by (simp add: unwrap_def)

lemma unwrap_eq_Inr [res_simps]: "unwrap o1 = Inr x \<longleftrightarrow> o1 = Some x"
  by (simp add: unwrap_def split: option.splits)

lemma vget_eq_Inr [res_simps]: "vget xs i = Inr x \<longleftrightarrow> i < length xs \<and> xs ! i = x"
  by (auto simp: vget_def)

lemma vget_in [simp]: "i < length xs \<Longrightarrow> vget xs i = Inr (xs ! i)"
  by (simp add: vget_def)

lemma vset_eq_Inr [res_simps]: "vset xs i x = Inr ys \<longleftrightarrow> i < length xs \<and> ys = xs[i := x]"
  by (auto simp: vset_def)

lemma usub_le [simp]: "b \<le> a \<Longrightarrow> usub a b = Inr (a - b)"
  by (simp add: usub_def)

lemma usub_eq_Inr [res_simps]: "usub a b = Inr c \<longleftrightarrow> b \<le> a \<and> c = a - b"
  by (auto simp: usub_def)

lemma slice_from_le [simp]: "a \<le> length xs \<Longrightarrow> slice_from xs a = Inr (drop a xs)"
  by (simp add: slice_from_def)

lemma slice_from_eq_Inr [res_simps]:
  "slice_from xs a = Inr ys \<longleftrightarrow> a \<le> length xs \<and> ys = drop a xs"
  by (auto simp: slice_from_def)

lemma is_ok_simps [simp]: "is_ok (Inr x)" "\<not> is_ok (Inl e)"
  by (simp_all add: is_ok_def)

lemma is_ok_iff: "is_ok r \<longleftrightarrow> (\<exists>x. r = Inr x)"
  by (cases r) simp_all

lemma panics_simps [simp]: "panics (Inl (Panic m))" "\<not> panics (Inl (Bail m))" "\<not> panics (Inr x)"
  by (simp_all add: panics_def)

lemma panics_rbind [intro]: "panics m \<Longrightarrow> panics (rbind m f)"
  by (cases m) (auto simp: panics_def split: err.splits)

lemma panics_rbind_iff [res_simps]:
  "panics (rbind m f) \<longleftrightarrow> panics m \<or> (\<exists>x. m = Inr x \<and> panics (f x))"
  by (cases m) (auto simp: panics_def split: err.splits)

lemma rfold_append: "rfold f (xs @ ys) s = rbind (rfold f xs s) (rfold f ys)"
proof (induction xs arbitrary: s)
  case Nil
  then show ?case by simp
next
  case (Cons x xs)
  then show ?case by (cases "f x s") simp_all
qed

lemma rfold_invariant:
  assumes "rfold f xs s = Inr t" and "P s"
    and "\<And>x s s'. x \<in> set xs \<Longrightarrow> P s \<Longrightarrow> f x s = Inr s' \<Longrightarrow> P s'"
  shows "P t"
  using assms
proof (induction xs arbitrary: s)
  case Nil
  then show ?case by simp
next
  case (Cons x xs)
  from Cons.prems(1) obtain s' where s': "f x s = Inr s'" "rfold f xs s' = Inr t"
    by (auto simp: res_simps)
  have "P s'" by (rule Cons.prems(3) [OF _ Cons.prems(2) s'(1)]) simp
  show ?case
  proof (rule Cons.IH [OF s'(2) \<open>P s'\<close>])
    fix y u u' assume "y \<in> set xs" "P u" "f y u = Inr u'"
    then show "P u'" by (intro Cons.prems(3) [of y u u']) simp_all
  qed
qed

lemma length_rmap: "rmap f xs = Inr ys \<Longrightarrow> length ys = length xs"
  by (induction xs arbitrary: ys) (auto simp: res_simps)

lemma rmap_Inr: "(\<And>x. x \<in> set xs \<Longrightarrow> f x = Inr (g x)) \<Longrightarrow> rmap f xs = Inr (map g xs)"
  by (induction xs) simp_all

lemma rmap_map: "rmap f (map g xs) = rmap (\<lambda>x. f (g x)) xs"
  by (induction xs) simp_all

section \<open>Lists\<close>

lemma count_list_filter: "count_list xs x = length (filter (\<lambda>y. y = x) xs)"
  by (induction xs) auto

lemma count_list_snoc [simp]: "count_list (xs @ [y]) x = count_list xs x + (if y = x then 1 else 0)"
  by (induction xs) auto

lemma count_list_butlast:
  assumes "xs \<noteq> []"
  shows "count_list (butlast xs) x + (if last xs = x then 1 else 0) = count_list xs x"
proof -
  have "count_list xs x = count_list (butlast xs @ [last xs]) x" using assms by simp
  then show ?thesis by (simp only: count_list_snoc)
qed

lemma count_list_1_distinct: "(\<And>x. count_list xs x \<le> 1) \<Longrightarrow> distinct xs"
proof (induction xs)
  case Nil
  then show ?case by simp
next
  case (Cons y xs)
  have "count_list xs y = 0" using Cons.prems [of y] by simp
  moreover have "count_list xs x \<le> 1" for x
    using Cons.prems [of x] by (auto split: if_splits)
  ultimately show ?case using Cons.IH by (simp add: count_list_0_iff)
qed

lemma div_ceil_mult:
  "div_ceil a b * b = (if a mod b = 0 then a else a - a mod b + b)"
  by (simp add: div_ceil_def minus_mod_eq_div_mult [symmetric] minus_mod_eq_mult_div)

lemma div_ceil_ge:
  assumes "0 < b"
  shows "a \<le> div_ceil a b * b"
proof -
  have "a mod b < b" using assms by simp
  then have "a \<le> a - a mod b + b" by linarith
  then show ?thesis by (simp only: div_ceil_mult split: if_split) blast
qed

lemma div_ceil_less: "0 < b \<Longrightarrow> 0 < a \<Longrightarrow> div_ceil a b * b < a + b"
  using mod_less_eq_dividend [of a b] by (simp add: div_ceil_mult)

end
