(* ===== verification/Block_Engine.thy ===== *)
theory Block_Engine
  imports Prelude
begin

text \<open>
  The block engine of PagedAttention (\<^verbatim>\<open>mistralrs-core/src/paged_attention/block_engine.rs\<close>,
  from \<^verbatim>\<open>_PhysicalTokenBlock\<close> on): the physical blocks of the KV cache, the two free lists
  and the block table of every sequence.

  The Rust code shares blocks through \<^verbatim>\<open>Arc<PhysicalTokenBlock>\<close> and mutates them behind a
  mutex, so the model has an explicit store: a block reference names the cell that one of
  the two \<^verbatim>\<open>Allocator::new\<close> calls created (the arena and the index in its loop), and the
  store maps references to the contents of the cells. The lemmas show that the operations
  the scheduler uses keep every GPU block in exactly one place, free list or block table,
  with the matching reference count, and so never double-free, leak or run dry; and what
  goes wrong in the swapping operations, which nothing calls today.
\<close>

section \<open>Physical blocks and allocators\<close>

record phys_block =
  block_id :: nat
  pb_block_size :: nat
  refcount :: nat
  is_gpu :: bool

datatype arena = GpuArena | CpuArena

type_synonym block_ref = "arena \<times> nat"
type_synonym block_store = "block_ref \<Rightarrow> phys_block"
type_synonym block_table = "block_ref list"

text \<open>An allocator together with the store its references point into.\<close>

type_synonym allocator = "block_table \<times> block_store"

definition allocator_allocate :: "allocator \<Rightarrow> (block_ref \<times> allocator) res" where
  "allocator_allocate a =
     (let (free_blocks, st) = a in
      if free_blocks = [] then Err (Panic ''unwrap on None'')
      else let b = last free_blocks
           in Ok (b, (butlast free_blocks, st(b := (st b)\<lparr>refcount := 1\<rparr>))))"

definition allocator_free_block :: "block_ref \<Rightarrow> allocator \<Rightarrow> allocator res" where
  "allocator_free_block b a =
     (let (free_blocks, st) = a in
      if refcount (st b) = 0 then Err (Panic ''experienced a double free!'')
      else let st' = st(b := (st b)\<lparr>refcount := refcount (st b) - 1\<rparr>)
           in Ok (if refcount (st' b) = 0 then free_blocks @ [b] else free_blocks, st'))"

text \<open>
  Both constructors build the same blocks: the one of the CPU allocator sets \<^verbatim>\<open>is_gpu\<close> to
  true as well.
\<close>

definition gpu_allocator_new :: "nat \<Rightarrow> block_table" where
  "gpu_allocator_new num_blocks = map (\<lambda>i. (GpuArena, i)) [0..<num_blocks]"

definition cpu_allocator_new :: "nat \<Rightarrow> block_table" where
  "cpu_allocator_new num_blocks = map (\<lambda>i. (CpuArena, i)) [0..<num_blocks]"

definition initial_store :: "nat \<Rightarrow> block_store" where
  "initial_store block_size =
     (\<lambda>b. \<lparr>block_id = snd b, pb_block_size = block_size, refcount = 0, is_gpu = True\<rparr>)"

datatype alloc_status = AllocOk | AllocLater | AllocImpossible

section \<open>The engine\<close>

record block_engine =
  num_gpu_blocks :: nat
  gpu_free :: block_table
  cpu_free :: block_table
  blocks :: block_store
  block_tables :: "nat \<rightharpoonup> block_table"

text \<open>What the engine sees of a sequence: the trait \<^verbatim>\<open>BlockEngineSequence\<close>.\<close>

record block_engine_sequence =
  bes_id :: nat
  bes_logical_token_blocks :: nat
  bes_blocks_to_add_new_tok :: nat

definition block_engine_new :: "nat \<Rightarrow> nat \<Rightarrow> nat \<Rightarrow> block_engine" where
  "block_engine_new block_size num_gpu num_cpu =
     \<lparr>num_gpu_blocks = num_gpu,
      gpu_free = gpu_allocator_new num_gpu,
      cpu_free = cpu_allocator_new num_cpu,
      blocks = initial_store block_size,
      block_tables = Map.empty\<rparr>"

definition can_allocate :: "block_engine \<Rightarrow> block_engine_sequence \<Rightarrow> alloc_status" where
  "can_allocate e seq =
     (let num_required_blocks = bes_logical_token_blocks seq;
          num_free_gpu_blocks = length (gpu_free e)
      in if num_free_gpu_blocks < num_required_blocks then AllocLater
         else if num_gpu_blocks e < num_required_blocks then AllocImpossible
         else AllocOk)"

definition gpu_allocate :: "block_engine \<Rightarrow> (block_ref \<times> block_engine) res" where
  "gpu_allocate e =
     rbind (allocator_allocate (gpu_free e, blocks e)) (\<lambda>(b, (fr, st)).
     Ok (b, e\<lparr>gpu_free := fr, blocks := st\<rparr>))"

definition cpu_allocate :: "block_engine \<Rightarrow> (block_ref \<times> block_engine) res" where
  "cpu_allocate e =
     rbind (allocator_allocate (cpu_free e, blocks e)) (\<lambda>(b, (fr, st)).
     Ok (b, e\<lparr>cpu_free := fr, blocks := st\<rparr>))"

definition gpu_free_block :: "block_ref \<Rightarrow> block_engine \<Rightarrow> block_engine res" where
  "gpu_free_block b e =
     rbind (allocator_free_block b (gpu_free e, blocks e)) (\<lambda>(fr, st).
     Ok (e\<lparr>gpu_free := fr, blocks := st\<rparr>))"

definition cpu_free_block :: "block_ref \<Rightarrow> block_engine \<Rightarrow> block_engine res" where
  "cpu_free_block b e =
     rbind (allocator_free_block b (cpu_free e, blocks e)) (\<lambda>(fr, st).
     Ok (e\<lparr>cpu_free := fr, blocks := st\<rparr>))"

text \<open>The loop that collects \<open>n\<close> freshly allocated blocks in a vector.\<close>

fun alloc_loop :: "('s \<Rightarrow> ('b \<times> 's) res) \<Rightarrow> nat \<Rightarrow> 'b list \<Rightarrow> 's \<Rightarrow> ('b list \<times> 's) res" where
  "alloc_loop alloc 0 table s = Ok (table, s)"
| "alloc_loop alloc (Suc n) table s =
     rbind (alloc s) (\<lambda>(b, s'). alloc_loop alloc n (table @ [b]) s')"

definition allocate :: "block_engine \<Rightarrow> block_engine_sequence \<Rightarrow> block_engine res" where
  "allocate e seq =
     rbind (alloc_loop gpu_allocate (bes_logical_token_blocks seq) [] e) (\<lambda>(table, e').
     Ok (e'\<lparr>block_tables := (block_tables e')(bes_id seq \<mapsto> table)\<rparr>))"

definition can_append_token_to_seq :: "block_engine \<Rightarrow> block_engine_sequence \<Rightarrow> bool" where
  "can_append_token_to_seq e seq = (bes_blocks_to_add_new_tok seq \<le> length (gpu_free e))"

definition free_one :: "block_ref \<Rightarrow> block_engine \<Rightarrow> block_engine res" where
  "free_one b e = (if is_gpu (blocks e b) then gpu_free_block b e else cpu_free_block b e)"

definition free_sequence :: "block_engine \<Rightarrow> nat \<Rightarrow> block_engine res" where
  "free_sequence e sid =
     (case block_tables e sid of
        None \<Rightarrow> Ok e
      | Some table \<Rightarrow>
          rbind (rfold free_one table e) (\<lambda>e'.
          Ok (e'\<lparr>block_tables := (block_tables e')(sid := None)\<rparr>)))"

definition blocks_of_seq :: "block_engine \<Rightarrow> block_engine_sequence \<Rightarrow> nat" where
  "blocks_of_seq e seq = (case block_tables e (bes_id seq) of None \<Rightarrow> 0 | Some t \<Rightarrow> length t)"

definition can_swap_out_seq :: "block_engine \<Rightarrow> block_engine_sequence \<Rightarrow> bool" where
  "can_swap_out_seq e seq = (blocks_of_seq e seq \<le> length (cpu_free e))"

definition can_swap_in_seq :: "block_engine \<Rightarrow> block_engine_sequence \<Rightarrow> bool" where
  "can_swap_in_seq e seq = (blocks_of_seq e seq \<le> length (gpu_free e))"

text \<open>
  The body of the two swapping loops, which are the same but for their names: a fresh
  block from the CPU allocator for every new block number (also in \<^verbatim>\<open>swap_in\<close>), a shared one
  for a number seen before, and the old block back to the GPU allocator.
\<close>

fun swap_loop :: "block_table \<Rightarrow> (nat \<rightharpoonup> block_ref) \<Rightarrow> block_table \<Rightarrow> block_engine
    \<Rightarrow> ((nat \<rightharpoonup> block_ref) \<times> block_table \<times> block_engine) res" where
  "swap_loop [] new_mapping new_table e = Ok (new_mapping, new_table, e)"
| "swap_loop (b # bs) new_mapping new_table e =
     rbind (case new_mapping (block_id (blocks e b)) of
              None \<Rightarrow> rbind (cpu_allocate e) (\<lambda>(c, e'). Ok (c, new_mapping(block_id (blocks e b) \<mapsto> c), e'))
            | Some c \<Rightarrow> Ok (c, new_mapping,
                e\<lparr>blocks := (blocks e)(c := (blocks e c)\<lparr>refcount := refcount (blocks e c) + 1\<rparr>)\<rparr>))
     (\<lambda>(c, new_mapping', e').
     rbind (gpu_free_block b e') (\<lambda>e''.
     swap_loop bs new_mapping' (new_table @ [c]) e''))"

definition swap_out :: "block_engine \<Rightarrow> block_engine_sequence \<Rightarrow> ((nat \<rightharpoonup> nat) \<times> block_engine) res" where
  "swap_out e seq =
     rbind (unwrap (block_tables e (bes_id seq))) (\<lambda>table.
     rbind (swap_loop table Map.empty [] e) (\<lambda>(new_mapping, new_table, e').
     let e'' = e'\<lparr>block_tables := (block_tables e')(bes_id seq \<mapsto> new_table)\<rparr>
     in Ok (\<lambda>k. map_option (\<lambda>v. block_id (blocks e'' v)) (new_mapping k), e'')))"

definition swap_in :: "block_engine \<Rightarrow> block_engine_sequence \<Rightarrow> ((nat \<rightharpoonup> nat) \<times> block_engine) res" where
  "swap_in e seq =
     rbind (unwrap (block_tables e (bes_id seq))) (\<lambda>table.
     rbind (swap_loop table Map.empty [] e) (\<lambda>(new_mapping, new_table, e').
     let e'' = e'\<lparr>block_tables := (block_tables e')(bes_id seq \<mapsto> new_table)\<rparr>
     in Ok (\<lambda>k. map_option (\<lambda>v. block_id (blocks e'' v)) (new_mapping k), e'')))"

text \<open>
  \<^verbatim>\<open>append_token_slot_to_seq\<close>: \<^verbatim>\<open>None\<close> when there is nothing to copy, the pair of block
  numbers when the last block was shared and had to be copied.
\<close>

definition append_token_slot_to_seq ::
    "block_engine \<Rightarrow> block_engine_sequence \<Rightarrow> ((nat \<times> nat) option \<times> block_engine) res" where
  "append_token_slot_to_seq e seq =
     (case block_tables e (bes_id seq) of
        None \<Rightarrow> Ok (None, e)
      | Some table \<Rightarrow>
          if bes_blocks_to_add_new_tok seq = 1 then
            rbind (gpu_allocate e) (\<lambda>(b, e').
            Ok (None, e'\<lparr>block_tables := (block_tables e')(bes_id seq \<mapsto> table @ [b])\<rparr>))
          else if bes_blocks_to_add_new_tok seq = 0 then
            (if table = [] then Err (Panic ''unwrap on None'')
             else rbind (rassert (is_gpu (blocks e (last table))) ''assertion failed: is_gpu'') (\<lambda>_.
                  if refcount (blocks e (last table)) = 1 then Ok (None, e)
                  else rbind (gpu_allocate e) (\<lambda>(new_block, e').
                       rbind (gpu_free_block (last table) e') (\<lambda>e''.
                       Ok (Some (block_id (blocks e'' (last table)), block_id (blocks e'' new_block)),
                           e''\<lparr>block_tables := (block_tables e'')
                                 (bes_id seq \<mapsto> butlast table @ [new_block])\<rparr>)))))
          else Err (Panic ''internal error: entered unreachable code''))"

section \<open>The interface of an allocator\<close>

text \<open>
  What a client may rely on: a state with a list of available blocks and reference counts,
  an allocation that takes one available block, a release that gives a block back when its
  count reaches zero and panics when it is zero already.
\<close>

locale block_allocator =
  fixes alloc :: "'s \<Rightarrow> ('b \<times> 's) res"
    and release :: "'b \<Rightarrow> 's \<Rightarrow> 's res"
    and avail :: "'s \<Rightarrow> 'b list"
    and refs :: "'s \<Rightarrow> 'b \<Rightarrow> nat"
    and frame :: "'s \<Rightarrow> 'f"
  assumes alloc_avail: "avail s \<noteq> [] \<Longrightarrow> \<exists>b s'. alloc s = Ok (b, s')
      \<and> avail s = avail s' @ [b] \<and> refs s' = (refs s)(b := 1) \<and> frame s' = frame s"
    and alloc_empty: "avail s = [] \<Longrightarrow> panics (alloc s)"
    and release_held: "0 < refs s b \<Longrightarrow> \<exists>s'. release b s = Ok s'
      \<and> avail s' = (if refs s b = 1 then avail s @ [b] else avail s)
      \<and> refs s' = (refs s)(b := refs s b - 1) \<and> frame s' = frame s"
    and release_free: "refs s b = 0 \<Longrightarrow> panics (release b s)"
begin

lemma alloc_loop_ok:
  assumes "n \<le> length (avail s)" and "distinct (avail s)"
  shows "\<exists>bs s'. alloc_loop alloc n table s = Ok (table @ bs, s') \<and> length bs = n
      \<and> avail s = avail s' @ rev bs
      \<and> refs s' = (\<lambda>b. if b \<in> set bs then 1 else refs s b) \<and> frame s' = frame s"
  using assms
proof (induction n arbitrary: s table)
  case 0
  then show ?case by auto
next
  case (Suc n)
  then have "avail s \<noteq> []" by auto
  then obtain b s1 where 1: "alloc s = Ok (b, s1)" "avail s = avail s1 @ [b]"
    "refs s1 = (refs s)(b := 1)" "frame s1 = frame s"
    using alloc_avail by blast
  from Suc.prems 1(2) have "n \<le> length (avail s1)" "distinct (avail s1)" by auto
  from Suc.IH [OF this, of "table @ [b]"] obtain bs s2 where
    2: "alloc_loop alloc n (table @ [b]) s1 = Ok ((table @ [b]) @ bs, s2)" "length bs = n"
    "avail s1 = avail s2 @ rev bs" "refs s2 = (\<lambda>c. if c \<in> set bs then 1 else refs s1 c)"
    "frame s2 = frame s1"
    by blast
  show ?case
    by (rule exI [of _ "b # bs"], rule exI [of _ s2]) (use 1 2 in \<open>auto simp: fun_eq_iff\<close>)
qed

lemma alloc_loop_exhausted:
  "length (avail s) < n \<Longrightarrow> panics (alloc_loop alloc n table s)"
proof (induction n arbitrary: s table)
  case 0
  then show ?case by simp
next
  case (Suc n)
  show ?case
  proof (cases "avail s = []")
    case True
    then show ?thesis using alloc_empty [of s] by (simp add: panics_rbind)
  next
    case False
    then obtain b s1 where 1: "alloc s = Ok (b, s1)" "avail s = avail s1 @ [b]"
      using alloc_avail by blast
    with Suc.prems have "length (avail s1) < n" by simp
    then show ?thesis using Suc.IH 1(1) by simp
  qed
qed

lemma release_all:
  assumes "distinct bs" and "\<forall>b \<in> set bs. refs s b = 1"
  shows "\<exists>s'. rfold release bs s = Ok s' \<and> avail s' = avail s @ bs
      \<and> refs s' = (\<lambda>b. if b \<in> set bs then 0 else refs s b) \<and> frame s' = frame s"
  using assms
proof (induction bs arbitrary: s)
  case Nil
  then show ?case by auto
next
  case (Cons b bs)
  then obtain s1 where 1: "release b s = Ok s1" "avail s1 = avail s @ [b]"
    "refs s1 = (refs s)(b := 0)" "frame s1 = frame s"
    using release_held [of s b] by auto
  with Cons.prems have "\<forall>c \<in> set bs. refs s1 c = 1" "distinct bs" by auto
  from Cons.IH [OF this(2,1)] obtain s2 where
    2: "rfold release bs s1 = Ok s2" "avail s2 = avail s1 @ bs"
    "refs s2 = (\<lambda>c. if c \<in> set bs then 0 else refs s1 c)" "frame s2 = frame s1"
    by blast
  show ?case
    by (rule exI [of _ s2]) (use 1 2 in \<open>auto simp: fun_eq_iff\<close>)
qed

end

section \<open>The allocators of the code implement it\<close>

lemma allocator_allocate_simps [simp]:
  "fr \<noteq> [] \<Longrightarrow> allocator_allocate (fr, st)
     = Ok (last fr, (butlast fr, st(last fr := (st (last fr))\<lparr>refcount := 1\<rparr>)))"
  "allocator_allocate ([], st) = Err (Panic ''unwrap on None'')"
  by (simp_all add: allocator_allocate_def Let_def)

lemma allocator_free_block_simps [simp]:
  "0 < refcount (st b) \<Longrightarrow> allocator_free_block b (fr, st)
     = Ok (if refcount (st b) = 1 then fr @ [b] else fr,
           st(b := (st b)\<lparr>refcount := refcount (st b) - 1\<rparr>))"
  "refcount (st b) = 0 \<Longrightarrow> allocator_free_block b (fr, st) = Err (Panic ''experienced a double free!'')"
  by (auto simp: allocator_free_block_def Let_def)

lemma gpu_allocate_simps [simp]:
  "gpu_free e \<noteq> [] \<Longrightarrow> gpu_allocate e = Ok (last (gpu_free e), e\<lparr>gpu_free := butlast (gpu_free e),
     blocks := (blocks e)(last (gpu_free e) := (blocks e (last (gpu_free e)))\<lparr>refcount := 1\<rparr>)\<rparr>)"
  "gpu_free e = [] \<Longrightarrow> gpu_allocate e = Err (Panic ''unwrap on None'')"
  by (simp_all add: gpu_allocate_def)

lemma gpu_free_block_simps [simp]:
  "0 < refcount (blocks e b) \<Longrightarrow> gpu_free_block b e
     = Ok (e\<lparr>gpu_free := (if refcount (blocks e b) = 1 then gpu_free e @ [b] else gpu_free e),
        blocks := (blocks e)(b := (blocks e b)\<lparr>refcount := refcount (blocks e b) - 1\<rparr>)\<rparr>)"
  "refcount (blocks e b) = 0 \<Longrightarrow> gpu_free_block b e = Err (Panic ''experienced a double free!'')"
  by (simp_all add: gpu_free_block_def)

lemma cpu_allocate_simps [simp]:
  "cpu_free e \<noteq> [] \<Longrightarrow> cpu_allocate e = Ok (last (cpu_free e), e\<lparr>cpu_free := butlast (cpu_free e),
     blocks := (blocks e)(last (cpu_free e) := (blocks e (last (cpu_free e)))\<lparr>refcount := 1\<rparr>)\<rparr>)"
  "cpu_free e = [] \<Longrightarrow> cpu_allocate e = Err (Panic ''unwrap on None'')"
  by (simp_all add: cpu_allocate_def)

lemma cpu_free_block_simps [simp]:
  "0 < refcount (blocks e b) \<Longrightarrow> cpu_free_block b e
     = Ok (e\<lparr>cpu_free := (if refcount (blocks e b) = 1 then cpu_free e @ [b] else cpu_free e),
        blocks := (blocks e)(b := (blocks e b)\<lparr>refcount := refcount (blocks e b) - 1\<rparr>)\<rparr>)"
  "refcount (blocks e b) = 0 \<Longrightarrow> cpu_free_block b e = Err (Panic ''experienced a double free!'')"
  by (simp_all add: cpu_free_block_def)

text \<open>The contents of a cell that no allocator changes.\<close>

definition cell_consts :: "phys_block \<Rightarrow> nat \<times> nat \<times> bool" where
  "cell_consts p = (block_id p, pb_block_size p, is_gpu p)"

lemma cell_consts_refcount [simp]: "cell_consts (p\<lparr>refcount := n\<rparr>) = cell_consts p"
  by (simp add: cell_consts_def)

definition gpu_frame :: "block_engine \<Rightarrow> nat \<times> block_table \<times> (nat \<rightharpoonup> block_table) \<times> (block_ref \<Rightarrow> nat \<times> nat \<times> bool)" where
  "gpu_frame e = (num_gpu_blocks e, cpu_free e, block_tables e, cell_consts \<circ> blocks e)"

definition cpu_frame :: "block_engine \<Rightarrow> nat \<times> block_table \<times> (nat \<rightharpoonup> block_table) \<times> (block_ref \<Rightarrow> nat \<times> nat \<times> bool)" where
  "cpu_frame e = (num_gpu_blocks e, gpu_free e, block_tables e, cell_consts \<circ> blocks e)"

interpretation raw_ops: block_allocator allocator_allocate allocator_free_block fst
    "\<lambda>a b. refcount (snd a b)" "\<lambda>a. cell_consts \<circ> snd a"
proof (unfold_locales, goal_cases)
  case (1 s)
  then show ?case by (cases s) (auto simp: fun_eq_iff)
next
  case (2 s)
  then show ?case by (cases s) auto
next
  case (3 s b)
  then show ?case by (cases s) (auto simp: fun_eq_iff simp del: split_paired_Ex)
next
  case (4 s b)
  then show ?case by (cases s) auto
qed

interpretation gpu_ops: block_allocator gpu_allocate gpu_free_block gpu_free
    "\<lambda>e b. refcount (blocks e b)" gpu_frame
  by unfold_locales (auto simp: fun_eq_iff gpu_frame_def simp del: split_paired_Ex)

interpretation cpu_ops: block_allocator cpu_allocate cpu_free_block cpu_free
    "\<lambda>e b. refcount (blocks e b)" cpu_frame
  by unfold_locales (auto simp: fun_eq_iff cpu_frame_def simp del: split_paired_Ex)

lemma gpu_frameD:
  assumes "gpu_frame e' = gpu_frame e"
  shows "num_gpu_blocks e' = num_gpu_blocks e" "cpu_free e' = cpu_free e"
    "block_tables e' = block_tables e" "block_id (blocks e' b) = block_id (blocks e b)"
    "is_gpu (blocks e' b) = is_gpu (blocks e b)"
proof -
  show "num_gpu_blocks e' = num_gpu_blocks e" "cpu_free e' = cpu_free e"
    "block_tables e' = block_tables e"
    using assms by (simp_all add: gpu_frame_def)
  have "(cell_consts \<circ> blocks e') b = (cell_consts \<circ> blocks e) b"
    using assms by (simp add: gpu_frame_def)
  then show "block_id (blocks e' b) = block_id (blocks e b)"
    "is_gpu (blocks e' b) = is_gpu (blocks e b)"
    by (simp_all add: cell_consts_def)
qed

section \<open>The invariant: every GPU block has one owner\<close>

text \<open>
  The abstract view: a free list, the blocks each sequence owns, the blocks there are and
  their reference counts. Every block is free or has one owner, and the counts say which.
\<close>

definition one_owner :: "'b list \<Rightarrow> (nat \<Rightarrow> 'b set) \<Rightarrow> 'b set \<Rightarrow> ('b \<Rightarrow> nat) \<Rightarrow> bool" where
  "one_owner fr own all r \<longleftrightarrow>
     distinct fr \<and>
     (\<forall>i. own i \<inter> set fr = {}) \<and>
     (\<forall>i j. i \<noteq> j \<longrightarrow> own i \<inter> own j = {}) \<and>
     set fr \<union> (\<Union>i. own i) = all \<and>
     (\<forall>b \<in> all. r b = (if b \<in> set fr then 0 else 1))"

lemma one_owner_give:
  assumes "one_owner (fr @ rev t) own all r" and "own i = {}"
  shows "one_owner fr (own(i := set t)) all (\<lambda>b. if b \<in> set t then 1 else r b)"
  using assms unfolding one_owner_def by (auto 0 3 simp: disjoint_iff)

lemma one_owner_extend:
  assumes "one_owner (fr @ [b]) own all r"
  shows "one_owner fr (own(i := insert b (own i))) all (r(b := 1))"
  using assms unfolding one_owner_def by (auto 0 3 simp: disjoint_iff)

lemma one_owner_take_back:
  assumes "one_owner fr own all r" and "own i = set t" and "distinct t"
  shows "one_owner (fr @ t) (own(i := {})) all (\<lambda>b. if b \<in> set t then 0 else r b)"
proof -
  have U: "all = set fr \<union> (\<Union>i. own i)" and disj: "\<And>i. own i \<inter> set fr = {}"
    "\<And>i j. i \<noteq> j \<Longrightarrow> own i \<inter> own j = {}" and d: "distinct fr"
    and r: "\<And>b. b \<in> all \<Longrightarrow> r b = (if b \<in> set fr then 0 else 1)"
    using assms(1) by (auto simp: one_owner_def)
  have "set (fr @ t) \<union> (\<Union>j. (own(i := {})) j) = all"
    unfolding U using assms(2) by (auto split: if_splits)
  moreover have "(own(i := {})) j \<inter> set (fr @ t) = {}" for j
    using disj(1) [of j] disj(2) [of j i] assms(2) by (cases "j = i") auto
  moreover have "distinct (fr @ t)" using d assms(2,3) disj(1) [of i] by auto
  moreover have "j \<noteq> k \<Longrightarrow> (own(i := {})) j \<inter> (own(i := {})) k = {}" for j k
    using disj(2) [of j k] by auto
  ultimately show ?thesis using r by (simp add: one_owner_def)
qed

lemma one_owner_refs:
  assumes "one_owner fr own all r" and "b \<in> own i"
  shows "r b = 1 \<and> b \<in> all \<and> b \<notin> set fr"
proof -
  have "b \<notin> set fr" "b \<in> all" using assms by (auto simp: one_owner_def disjoint_iff)
  moreover from this have "r b = 1" using assms(1) by (simp add: one_owner_def)
  ultimately show ?thesis by simp
qed

definition gpu_universe :: "block_engine \<Rightarrow> block_ref set" where
  "gpu_universe e = {(GpuArena, i) | i. i < num_gpu_blocks e}"

definition owned_by :: "block_engine \<Rightarrow> nat \<Rightarrow> block_ref set" where
  "owned_by e sid = (case block_tables e sid of None \<Rightarrow> {} | Some t \<Rightarrow> set t)"

definition be_inv :: "block_engine \<Rightarrow> bool" where
  "be_inv e \<longleftrightarrow>
     one_owner (gpu_free e) (owned_by e) (gpu_universe e) (\<lambda>b. refcount (blocks e b)) \<and>
     (\<forall>b. is_gpu (blocks e b) \<and> block_id (blocks e b) = snd b) \<and>
     (\<forall>sid t. block_tables e sid = Some t \<longrightarrow> distinct t)"

lemma owned_by_update [simp]:
  "owned_by (e\<lparr>block_tables := (block_tables e0)(sid \<mapsto> t)\<rparr>)
     = (owned_by (e\<lparr>block_tables := block_tables e0\<rparr>))(sid := set t)"
  "owned_by (e\<lparr>block_tables := (block_tables e0)(sid := None)\<rparr>)
     = (owned_by (e\<lparr>block_tables := block_tables e0\<rparr>))(sid := {})"
  by (auto simp: owned_by_def fun_eq_iff)

lemma gpu_universe_tables [simp]: "gpu_universe (e\<lparr>block_tables := x\<rparr>) = gpu_universe e"
  by (simp add: gpu_universe_def)

lemma gpu_frame_universe:
  assumes "gpu_frame e' = gpu_frame e"
  shows "gpu_universe e' = gpu_universe e"
  using gpu_frameD(1) [OF assms] by (simp add: gpu_universe_def)

lemma gpu_frame_owned:
  assumes "gpu_frame e' = gpu_frame e"
  shows "owned_by e' = owned_by e"
  using gpu_frameD(3) [OF assms] by (simp add: owned_by_def fun_eq_iff)

text \<open>A change of the tables after operations that kept the frame keeps the invariant when the
  abstract view allows it.\<close>

lemma be_inv_frameI:
  assumes "be_inv e" and fr: "gpu_frame e1 = gpu_frame e"
    and "block_tables e2 = ts" and "gpu_free e2 = gpu_free e1" and "blocks e2 = blocks e1"
    and "num_gpu_blocks e2 = num_gpu_blocks e1"
    and "one_owner (gpu_free e1) (owned_by e2) (gpu_universe e) (\<lambda>b. refcount (blocks e1 b))"
    and "\<And>sid t. ts sid = Some t \<Longrightarrow> block_tables e sid = Some t \<or> distinct t"
  shows "be_inv e2"
proof -
  have "gpu_universe e2 = gpu_universe e"
    using assms(6) gpu_frameD(1) [OF fr] by (simp add: gpu_universe_def)
  moreover have "is_gpu (blocks e2 b) \<and> block_id (blocks e2 b) = snd b" for b
    using assms(1,5) gpu_frameD(4,5) [OF fr, of b] by (cases b) (simp add: be_inv_def)
  moreover have "distinct t" if "block_tables e2 sid = Some t" for sid t
    using that assms(1,3,8) unfolding be_inv_def by blast
  ultimately show ?thesis
    using assms(4,5,7) by (simp add: be_inv_def)
qed

lemma be_inv_owned:
  assumes "be_inv e" and "block_tables e sid = Some t" and "b \<in> set t"
  shows "refcount (blocks e b) = 1" and "b \<in> gpu_universe e" and "b \<notin> set (gpu_free e)"
proof -
  have "b \<in> owned_by e sid" using assms(2,3) by (simp add: owned_by_def)
  with assms(1) show "refcount (blocks e b) = 1" "b \<in> gpu_universe e" "b \<notin> set (gpu_free e)"
    by (auto simp: be_inv_def dest: one_owner_refs)
qed

lemma be_inv_cells:
  assumes "be_inv e"
  shows "is_gpu (blocks e b)" and "block_id (blocks e b) = snd b"
  using assms by (cases b; simp add: be_inv_def)+

lemma be_inv_new: "be_inv (block_engine_new bs ngpu ncpu)"
  by (auto simp: be_inv_def one_owner_def block_engine_new_def gpu_allocator_new_def
      initial_store_def owned_by_def gpu_universe_def distinct_map inj_on_def)

lemma be_inv_allocate:
  assumes inv: "be_inv e" and none: "block_tables e (bes_id seq) = None"
    and room: "bes_logical_token_blocks seq \<le> length (gpu_free e)"
  shows "\<exists>e' t. allocate e seq = Ok e' \<and> be_inv e' \<and> block_tables e' = (block_tables e)(bes_id seq \<mapsto> t)
     \<and> length t = bes_logical_token_blocks seq \<and> gpu_free e = gpu_free e' @ rev t
     \<and> num_gpu_blocks e' = num_gpu_blocks e \<and> cpu_free e' = cpu_free e"
proof -
  have one: "one_owner (gpu_free e) (owned_by e) (gpu_universe e) (\<lambda>b. refcount (blocks e b))"
    using inv by (simp add: be_inv_def)
  then have dist: "distinct (gpu_free e)" by (simp add: one_owner_def)
  obtain t e1 where 1: "alloc_loop gpu_allocate (bes_logical_token_blocks seq) [] e = Ok ([] @ t, e1)"
    "length t = bes_logical_token_blocks seq" "gpu_free e = gpu_free e1 @ rev t"
    "(\<lambda>b. refcount (blocks e1 b)) = (\<lambda>b. if b \<in> set t then 1 else refcount (blocks e b))"
    "gpu_frame e1 = gpu_frame e"
    using gpu_ops.alloc_loop_ok [OF room dist, of "[]"] by blast
  let ?e = "e1\<lparr>block_tables := (block_tables e1)(bes_id seq \<mapsto> t)\<rparr>"
  have own: "owned_by ?e = (owned_by e)(bes_id seq := set t)"
    by (simp add: gpu_frame_owned [OF 1(5)])
  have "be_inv ?e"
  proof (rule be_inv_frameI [OF inv 1(5), where ts = "(block_tables e)(bes_id seq \<mapsto> t)"])
    show "one_owner (gpu_free e1) (owned_by ?e) (gpu_universe e) (\<lambda>b. refcount (blocks e1 b))"
      unfolding own 1(4) using one none unfolding 1(3)
      by (intro one_owner_give) (simp_all add: owned_by_def)
    show "((block_tables e)(bes_id seq \<mapsto> t)) sid = Some u \<Longrightarrow>
      block_tables e sid = Some u \<or> distinct u" for sid u
      using dist 1(3) by (auto split: if_splits)
  qed (simp_all add: gpu_frameD(3) [OF 1(5)])
  then show ?thesis
    using 1 gpu_frameD [OF 1(5)] by (intro exI [of _ ?e] exI [of _ t]) (simp add: allocate_def)
qed

lemma rfold_free_one_gpu:
  "(\<And>b. is_gpu (blocks e b)) \<Longrightarrow> rfold free_one bs e = rfold gpu_free_block bs e"
proof (induction bs arbitrary: e)
  case Nil
  then show ?case by simp
next
  case (Cons b bs)
  show ?case
  proof (cases "refcount (blocks e b) = 0")
    case True
    then show ?thesis using Cons.prems by (simp add: free_one_def)
  next
    case False
    then obtain e1 where e1: "gpu_free_block b e = Ok e1" "gpu_frame e1 = gpu_frame e"
      using gpu_ops.release_held [of e b] by blast
    have "is_gpu (blocks e1 c)" for c using gpu_frameD(5) [OF e1(2)] Cons.prems by simp
    from Cons.IH [OF this] show ?thesis using Cons.prems e1(1) by (simp add: free_one_def)
  qed
qed

lemma be_inv_free:
  assumes inv: "be_inv e" and t: "block_tables e sid = Some t"
  shows "\<exists>e'. free_sequence e sid = Ok e' \<and> be_inv e' \<and> block_tables e' = (block_tables e)(sid := None)
     \<and> gpu_free e' = gpu_free e @ t \<and> num_gpu_blocks e' = num_gpu_blocks e \<and> cpu_free e' = cpu_free e"
proof -
  have one: "one_owner (gpu_free e) (owned_by e) (gpu_universe e) (\<lambda>b. refcount (blocks e b))"
    and dist: "distinct t"
    using inv t unfolding be_inv_def by blast+
  note gpu = be_inv_cells(1) [OF inv]
  obtain e1 where 1: "rfold gpu_free_block t e = Ok e1" "gpu_free e1 = gpu_free e @ t"
    "(\<lambda>b. refcount (blocks e1 b)) = (\<lambda>b. if b \<in> set t then 0 else refcount (blocks e b))"
    "gpu_frame e1 = gpu_frame e"
    using gpu_ops.release_all [OF dist, of e] be_inv_owned(1) [OF inv t] by blast
  let ?e = "e1\<lparr>block_tables := (block_tables e1)(sid := None)\<rparr>"
  have own: "owned_by ?e = (owned_by e)(sid := {})"
    by (simp add: gpu_frame_owned [OF 1(4)])
  have "be_inv ?e"
  proof (rule be_inv_frameI [OF inv 1(4), where ts = "(block_tables e)(sid := None)"])
    show "one_owner (gpu_free e1) (owned_by ?e) (gpu_universe e) (\<lambda>b. refcount (blocks e1 b))"
      unfolding own 1(2,3) by (rule one_owner_take_back [OF one]) (use t dist in \<open>simp_all add: owned_by_def\<close>)
  qed (simp_all add: gpu_frameD(3) [OF 1(4)] split: if_splits)
  moreover have "free_sequence e sid = Ok ?e"
    using t 1(1) by (simp add: free_sequence_def rfold_free_one_gpu [OF gpu])
  ultimately show ?thesis
    using 1(2) gpu_frameD [OF 1(4)] by (intro exI [of _ ?e]) simp
qed

lemma be_inv_append_slot:
  assumes inv: "be_inv e" and t: "block_tables e (bes_id seq) = Some t"
    and add: "bes_blocks_to_add_new_tok seq \<le> 1" "t = [] \<Longrightarrow> bes_blocks_to_add_new_tok seq = 1"
    and room: "can_append_token_to_seq e seq"
  shows "\<exists>e' t'. append_token_slot_to_seq e seq = Ok (None, e') \<and> be_inv e'
     \<and> block_tables e' = (block_tables e)(bes_id seq \<mapsto> t @ t')
     \<and> length t' = bes_blocks_to_add_new_tok seq \<and> gpu_free e = gpu_free e' @ t'
     \<and> num_gpu_blocks e' = num_gpu_blocks e \<and> cpu_free e' = cpu_free e"
proof (cases "bes_blocks_to_add_new_tok seq = 0")
  case True
  with add have "t \<noteq> []" by auto
  then have "refcount (blocks e (last t)) = 1" "is_gpu (blocks e (last t))"
    using be_inv_owned(1) [OF inv t, of "last t"] be_inv_cells(1) [OF inv] by auto
  with True t \<open>t \<noteq> []\<close> have "append_token_slot_to_seq e seq = Ok (None, e)"
    by (simp add: append_token_slot_to_seq_def)
  with inv t True show ?thesis
    by (intro exI [of _ e] exI [of _ "[]"]) (auto simp: fun_eq_iff)
next
  case False
  with add have one_more: "bes_blocks_to_add_new_tok seq = 1" by simp
  with room have ne: "gpu_free e \<noteq> []" by (auto simp: can_append_token_to_seq_def)
  have one: "one_owner (gpu_free e) (owned_by e) (gpu_universe e) (\<lambda>b. refcount (blocks e b))"
    and dist: "distinct t"
    using inv t unfolding be_inv_def by blast+
  obtain b e1 where 1: "gpu_allocate e = Ok (b, e1)" "gpu_free e = gpu_free e1 @ [b]"
    "(\<lambda>c. refcount (blocks e1 c)) = (\<lambda>c. refcount (blocks e c))(b := 1)" "gpu_frame e1 = gpu_frame e"
    using gpu_ops.alloc_avail [OF ne] by blast
  let ?e = "e1\<lparr>block_tables := (block_tables e1)(bes_id seq \<mapsto> t @ [b])\<rparr>"
  have "set (t @ [b]) = insert b (owned_by e (bes_id seq))" using t by (simp add: owned_by_def)
  then have own: "owned_by ?e = (owned_by e)(bes_id seq := insert b (owned_by e (bes_id seq)))"
    by (simp add: gpu_frame_owned [OF 1(4)])
  have "b \<notin> set t" using be_inv_owned(3) [OF inv t, of b] 1(2) by auto
  have "be_inv ?e"
  proof (rule be_inv_frameI [OF inv 1(4), where ts = "(block_tables e)(bes_id seq \<mapsto> t @ [b])"])
    show "one_owner (gpu_free e1) (owned_by ?e) (gpu_universe e) (\<lambda>b. refcount (blocks e1 b))"
      unfolding own 1(3) using one unfolding 1(2) by (rule one_owner_extend)
    show "((block_tables e)(bes_id seq \<mapsto> t @ [b])) sid = Some u \<Longrightarrow>
      block_tables e sid = Some u \<or> distinct u" for sid u
      using dist \<open>b \<notin> set t\<close> by (auto split: if_splits)
  qed (simp_all add: gpu_frameD(3) [OF 1(4)])
  moreover have "append_token_slot_to_seq e seq = Ok (None, ?e)"
    using t 1(1) one_more by (simp add: append_token_slot_to_seq_def)
  ultimately show ?thesis
    using 1(2) one_more gpu_frameD [OF 1(4)]
    by (intro exI [of _ ?e] exI [of _ "[b]"]) simp
qed

lemma be_inv_counts:
  assumes inv: "be_inv e" and fin: "finite (dom (block_tables e))"
  shows "length (gpu_free e) + (\<Sum>sid \<in> dom (block_tables e). length (the (block_tables e sid)))
     = num_gpu_blocks e"
proof -
  let ?D = "dom (block_tables e)"
  have one: "one_owner (gpu_free e) (owned_by e) (gpu_universe e) (\<lambda>b. refcount (blocks e b))"
    and dist: "\<And>sid t. block_tables e sid = Some t \<Longrightarrow> distinct t"
    using inv unfolding be_inv_def by blast+
  have "owned_by e i = {}" if "i \<notin> ?D" for i
    using that by (simp add: owned_by_def domIff)
  then have union: "(\<Union>i. owned_by e i) = (\<Union>i \<in> ?D. owned_by e i)" by blast
  have "card (\<Union>i \<in> ?D. owned_by e i) = (\<Sum>i \<in> ?D. card (owned_by e i))"
    using one by (intro card_UN_disjoint fin) (auto simp: one_owner_def owned_by_def split: option.splits)
  also have "\<dots> = (\<Sum>i \<in> ?D. length (the (block_tables e i)))"
    by (rule sum.cong) (auto simp: owned_by_def distinct_card dist)
  finally have "card (\<Union>i. owned_by e i) = (\<Sum>i \<in> ?D. length (the (block_tables e i)))"
    using union by simp
  moreover have "card (gpu_universe e) = card (set (gpu_free e)) + card (\<Union>i. owned_by e i)"
  proof -
    have "finite (\<Union>i. owned_by e i)" unfolding union
      by (intro finite_UN_I fin) (auto simp: owned_by_def split: option.splits)
    moreover have "gpu_universe e = set (gpu_free e) \<union> (\<Union>i. owned_by e i)"
      "set (gpu_free e) \<inter> (\<Union>i. owned_by e i) = {}"
      using one unfolding one_owner_def by blast+
    ultimately show ?thesis by (simp add: card_Un_disjoint)
  qed
  moreover have "card (gpu_universe e) = num_gpu_blocks e"
  proof -
    have "gpu_universe e = Pair GpuArena ` {..<num_gpu_blocks e}"
      by (auto simp: gpu_universe_def)
    then show ?thesis by (simp add: card_image inj_on_def)
  qed
  moreover have "card (set (gpu_free e)) = length (gpu_free e)"
    using one by (simp add: one_owner_def distinct_card)
  ultimately show ?thesis by simp
qed

section \<open>Reachable states\<close>

text \<open>
  The calls the scheduler makes, each behind its guard: a prompt is allocated when
  \<^verbatim>\<open>can_allocate\<close> says so, a token slot is appended when \<^verbatim>\<open>can_append_token_to_seq\<close> does, a
  sequence may be freed at any time, also twice.
\<close>

inductive be_step :: "block_engine \<Rightarrow> block_engine \<Rightarrow> bool" where
  step_allocate: "can_allocate e seq = AllocOk \<Longrightarrow> block_tables e (bes_id seq) = None \<Longrightarrow>
     0 < bes_logical_token_blocks seq \<Longrightarrow> allocate e seq = Ok e' \<Longrightarrow> be_step e e'"
| step_append: "can_append_token_to_seq e seq \<Longrightarrow> bes_blocks_to_add_new_tok seq \<le> 1 \<Longrightarrow>
     append_token_slot_to_seq e seq = Ok (cow, e') \<Longrightarrow> be_step e e'"
| step_free: "free_sequence e sid = Ok e' \<Longrightarrow> be_step e e'"

inductive be_reachable :: "nat \<Rightarrow> nat \<Rightarrow> nat \<Rightarrow> block_engine \<Rightarrow> bool" for bs ngpu ncpu where
  reach_new: "be_reachable bs ngpu ncpu (block_engine_new bs ngpu ncpu)"
| reach_step: "be_reachable bs ngpu ncpu e \<Longrightarrow> be_step e e' \<Longrightarrow> be_reachable bs ngpu ncpu e'"

inductive_cases be_stepE: "be_step e e'"

lemma can_allocate_Ok:
  "can_allocate e seq = AllocOk \<Longrightarrow> bes_logical_token_blocks seq \<le> length (gpu_free e)"
  by (auto simp: can_allocate_def Let_def split: if_splits)

lemma append_slot_untabled [simp]:
  "block_tables e (bes_id seq) = None \<Longrightarrow> append_token_slot_to_seq e seq = Ok (None, e)"
  by (simp add: append_token_slot_to_seq_def)

lemma free_untabled [simp]: "block_tables e sid = None \<Longrightarrow> free_sequence e sid = Ok e"
  by (simp add: free_sequence_def)

definition be_good :: "nat \<Rightarrow> nat \<Rightarrow> block_engine \<Rightarrow> bool" where
  "be_good ngpu ncpu e \<longleftrightarrow> be_inv e \<and> finite (dom (block_tables e)) \<and> num_gpu_blocks e = ngpu
     \<and> (\<forall>sid. block_tables e sid \<noteq> Some []) \<and> cpu_free e = cpu_allocator_new ncpu"

lemma be_step_good:
  assumes "be_step e e'" and good: "be_good ngpu ncpu e"
  shows "be_good ngpu ncpu e'"
  using assms(1)
proof (cases rule: be_step.cases)
  case (step_allocate seq)
  have "be_inv e" using good by (simp add: be_good_def)
  from be_inv_allocate [OF this step_allocate(2) can_allocate_Ok [OF step_allocate(1)]]
  obtain t where "be_inv e'" "block_tables e' = (block_tables e)(bes_id seq \<mapsto> t)"
    "length t = bes_logical_token_blocks seq" "num_gpu_blocks e' = num_gpu_blocks e"
    "cpu_free e' = cpu_free e"
    using step_allocate(4) by auto
  with step_allocate(3) good show ?thesis by (auto simp: be_good_def)
next
  case (step_append seq cow)
  have inv: "be_inv e" using good by (simp add: be_good_def)
  show ?thesis
  proof (cases "block_tables e (bes_id seq)")
    case None
    with step_append(3) good show ?thesis by simp
  next
    case (Some t)
    have "t \<noteq> []" using Some good by (auto simp: be_good_def)
    then obtain t' where "be_inv e'" "block_tables e' = (block_tables e)(bes_id seq \<mapsto> t @ t')"
      "num_gpu_blocks e' = num_gpu_blocks e" "cpu_free e' = cpu_free e"
      using be_inv_append_slot [OF inv Some step_append(2) _ step_append(1)] step_append(3) by auto
    with good \<open>t \<noteq> []\<close> show ?thesis by (auto simp: be_good_def)
  qed
next
  case (step_free sid)
  show ?thesis
  proof (cases "block_tables e sid")
    case None
    with step_free good show ?thesis by simp
  next
    case (Some t)
    have "be_inv e" using good by (simp add: be_good_def)
    from be_inv_free [OF this Some] step_free have "be_inv e'"
      "block_tables e' = (block_tables e)(sid := None)" "num_gpu_blocks e' = num_gpu_blocks e"
      "cpu_free e' = cpu_free e"
      by auto
    with good show ?thesis by (auto simp: be_good_def)
  qed
qed

lemma be_reachable_good: "be_reachable bs ngpu ncpu e \<Longrightarrow> be_good ngpu ncpu e"
proof (induction rule: be_reachable.induct)
  case reach_new
  then show ?case using be_inv_new by (simp add: be_good_def) (simp add: block_engine_new_def)
next
  case (reach_step e e')
  then show ?case using be_step_good by blast
qed

lemma gpu_blocks_bound:
  assumes "be_reachable bs ngpu ncpu e"
  shows "length (gpu_free e) \<le> ngpu"
  using be_reachable_good [OF assms] be_inv_counts [of e] by (auto simp: be_good_def)

section \<open>Swapping\<close>

text \<open>What the swapping loop does to a table of GPU blocks that are held once.\<close>

lemma swap_loop_gpu:
  assumes "distinct t" and "\<forall>b \<in> set t. refcount (blocks e b) = 1 \<and> new_mapping (snd b) = None"
    and "set t \<subseteq> Pair GpuArena ` UNIV" and "\<And>b. block_id (blocks e b) = snd b"
    and "length t \<le> length (cpu_free e)" and "set (cpu_free e) \<subseteq> Pair CpuArena ` UNIV"
  shows "\<exists>m cs e'. swap_loop t new_mapping new_table e = Ok (m, new_table @ cs, e')
     \<and> length cs = length t \<and> cpu_free e = cpu_free e' @ rev cs \<and> gpu_free e' = gpu_free e @ t
     \<and> block_tables e' = block_tables e \<and> cell_consts \<circ> blocks e' = cell_consts \<circ> blocks e
     \<and> (distinct (cpu_free e) \<longrightarrow> (\<forall>b \<in> set cs. refcount (blocks e' b) = 1))
     \<and> (\<forall>b. b \<notin> set cs \<and> b \<notin> set t \<longrightarrow> blocks e' b = blocks e b)"
  using assms
proof (induction t arbitrary: e new_mapping new_table)
  case Nil
  then show ?case by (auto simp del: split_paired_Ex split_paired_All)
next
  case (Cons b t)
  have ne: "cpu_free e \<noteq> []" using Cons.prems(5) by auto
  define c where "c = last (cpu_free e)"
  have c_arena: "c \<in> Pair CpuArena ` UNIV"
    using Cons.prems(6) last_in_set [OF ne] unfolding c_def by blast
  then have c_new: "c \<noteq> b" "c \<notin> set t" using Cons.prems(3) by auto
  define e1 where "e1 = e\<lparr>cpu_free := butlast (cpu_free e),
    blocks := (blocks e)(c := (blocks e c)\<lparr>refcount := 1\<rparr>)\<rparr>"
  define e2 where "e2 = e1\<lparr>gpu_free := gpu_free e @ [b],
    blocks := (blocks e1)(b := (blocks e b)\<lparr>refcount := 0\<rparr>)\<rparr>"
  have e1: "cpu_allocate e = Ok (c, e1)" using ne by (simp add: c_def e1_def)
  have e2: "gpu_free_block b e1 = Ok e2"
    using Cons.prems(2) c_new by (simp add: e1_def e2_def)
  let ?m = "new_mapping(snd b \<mapsto> c)"
  have "snd b \<notin> snd ` set t" using Cons.prems(1,3) by force
  then have pre: "\<forall>d \<in> set t. refcount (blocks e2 d) = 1 \<and> ?m (snd d) = None"
    using Cons.prems(1,2) c_new by (auto simp: e2_def e1_def image_iff simp del: split_paired_All)
  have id: "block_id (blocks e2 d) = snd d" for d
    using Cons.prems(4) by (simp add: e2_def e1_def)
  have cf: "cpu_free e = cpu_free e2 @ [c]" using ne by (simp add: e2_def e1_def c_def)
  have "length t \<le> length (cpu_free e2)" "set (cpu_free e2) \<subseteq> Pair CpuArena ` UNIV"
    using Cons.prems(5,6) cf by auto
  have "distinct t" "set t \<subseteq> Pair GpuArena ` UNIV" using Cons.prems(1,3) by auto
  from Cons.IH [OF this(1) pre this(2) id \<open>length t \<le> _\<close> \<open>set (cpu_free e2) \<subseteq> _\<close>, of "new_table @ [c]"]
  obtain m cs e' where IH: "swap_loop t ?m (new_table @ [c]) e2 = Ok (m, (new_table @ [c]) @ cs, e')"
    "length cs = length t" "cpu_free e2 = cpu_free e' @ rev cs" "gpu_free e' = gpu_free e2 @ t"
    "block_tables e' = block_tables e2" "cell_consts \<circ> blocks e' = cell_consts \<circ> blocks e2"
    "distinct (cpu_free e2) \<longrightarrow> (\<forall>b \<in> set cs. refcount (blocks e' b) = 1)"
    "\<forall>d. d \<notin> set cs \<and> d \<notin> set t \<longrightarrow> blocks e' d = blocks e2 d" by blast
  have c1: "refcount (blocks e' c) = 1" if "distinct (cpu_free e)"
  proof -
    have "c \<notin> set cs" using that cf IH(3) by auto
    then have "blocks e' c = blocks e2 c" using IH(8) c_new(2) by blast
    then show ?thesis using c_new(1) by (simp add: e2_def e1_def)
  qed
  have same_consts: "cell_consts \<circ> blocks e2 = cell_consts \<circ> blocks e"
    by (auto simp: fun_eq_iff e2_def e1_def)
  have step: "swap_loop (b # t) new_mapping new_table e = Ok (m, new_table @ c # cs, e')"
    using Cons.prems(2,4) e1 e2 IH(1) by simp
  show ?case
  proof (intro exI conjI)
    show "swap_loop (b # t) new_mapping new_table e = Ok (m, new_table @ c # cs, e')" by (rule step)
    show "distinct (cpu_free e) \<longrightarrow> (\<forall>b \<in> set (c # cs). refcount (blocks e' b) = 1)"
      using c1 IH(7) cf by auto
    show "\<forall>d. d \<notin> set (c # cs) \<and> d \<notin> set (b # t) \<longrightarrow> blocks e' d = blocks e d"
      using IH(8) by (simp add: e2_def e1_def del: split_paired_All)
    show "gpu_free e' = gpu_free e @ b # t" using IH(4) by (simp add: e2_def)
    show "block_tables e' = block_tables e" using IH(5) by (simp add: e2_def e1_def)
  qed (use IH cf same_consts in simp_all)
qed

section \<open>Properties of the block engine\<close>

text \<open>
  C3. In every reachable state the GPU blocks are split between the free list and the block
  tables: no block is in two tables, twice in one, or both free and in use; its reference
  count is 1 exactly when a table holds it; and no block is lost.
\<close>

theorem gpu_blocks_have_one_owner:
  assumes "be_reachable bs ngpu ncpu e"
  shows "be_inv e \<and> length (gpu_free e)
     + (\<Sum>sid \<in> dom (block_tables e). length (the (block_tables e sid))) = ngpu"
  using be_reachable_good [OF assms] be_inv_counts by (auto simp: be_good_def)

text \<open>
  C9. In a reachable state no guarded call panics: \<^verbatim>\<open>allocate\<close> after a positive
  \<^verbatim>\<open>can_allocate\<close>, \<^verbatim>\<open>append_token_slot_to_seq\<close> after a positive
  \<^verbatim>\<open>can_append_token_to_seq\<close>, and \<^verbatim>\<open>free_sequence\<close> always return; and appending never
  takes the copy-on-write branch.
\<close>

theorem guarded_calls_never_panic:
  assumes "be_reachable bs ngpu ncpu e"
  shows "(\<forall>seq. can_allocate e seq = AllocOk \<and> block_tables e (bes_id seq) = None
            \<longrightarrow> is_ok (allocate e seq))
     \<and> (\<forall>seq. can_append_token_to_seq e seq \<and> bes_blocks_to_add_new_tok seq \<le> 1
            \<longrightarrow> (\<exists>e'. append_token_slot_to_seq e seq = Ok (None, e')))
     \<and> (\<forall>sid. is_ok (free_sequence e sid))"
proof -
  have good: "be_inv e" "\<And>sid. block_tables e sid \<noteq> Some []"
    using be_reachable_good [OF assms] by (auto simp: be_good_def)
  have "is_ok (allocate e seq)" if "can_allocate e seq = AllocOk" "block_tables e (bes_id seq) = None" for seq
    using be_inv_allocate [OF good(1) that(2) can_allocate_Ok [OF that(1)]] by auto
  moreover have "\<exists>e'. append_token_slot_to_seq e seq = Ok (None, e')"
    if "can_append_token_to_seq e seq" "bes_blocks_to_add_new_tok seq \<le> 1" for seq
    using be_inv_append_slot [OF good(1) _ that(2) _ that(1)] good(2) [of "bes_id seq"]
    by (cases "block_tables e (bes_id seq)") auto
  moreover have "is_ok (free_sequence e sid)" for sid
    using be_inv_free [OF good(1), of sid] by (cases "block_tables e sid") auto
  ultimately show ?thesis by blast
qed

text \<open>
  Freeing a sequence undoes its allocation: the block tables are as before and the free
  list holds the same blocks again (in another order); freeing it a second time does nothing.
\<close>

theorem free_undoes_allocate:
  assumes "be_inv e" and "block_tables e (bes_id seq) = None"
    and "bes_logical_token_blocks seq \<le> length (gpu_free e)"
  shows "\<exists>e1 e2. allocate e seq = Ok e1 \<and> free_sequence e1 (bes_id seq) = Ok e2
     \<and> block_tables e2 = block_tables e \<and> mset (gpu_free e2) = mset (gpu_free e)
     \<and> free_sequence e2 (bes_id seq) = Ok e2"
proof -
  obtain e1 t where 1: "allocate e seq = Ok e1" "be_inv e1"
    "block_tables e1 = (block_tables e)(bes_id seq \<mapsto> t)" "gpu_free e = gpu_free e1 @ rev t"
    using be_inv_allocate [OF assms] by blast
  have "block_tables e1 (bes_id seq) = Some t" by (simp add: 1(3))
  from be_inv_free [OF 1(2) this] obtain e2 where
    2: "free_sequence e1 (bes_id seq) = Ok e2" "block_tables e2 = (block_tables e1)(bes_id seq := None)"
    "gpu_free e2 = gpu_free e1 @ t" by blast
  have "block_tables e2 = block_tables e" using 1(3) 2(2) assms(2) by (simp add: fun_eq_iff)
  then show ?thesis using 1(1,4) 2(1,3) assms(2) by auto
qed

text \<open>
  \<^verbatim>\<open>can_allocate\<close> never answers \<^verbatim>\<open>Impossible\<close> in a reachable state: a prompt that
  needs more blocks than the GPU has is told to come back later, for ever.
\<close>

theorem oversized_prompt_is_told_later:
  assumes "be_reachable bs ngpu ncpu e"
  shows "can_allocate e seq \<noteq> AllocImpossible
     \<and> (ngpu < bes_logical_token_blocks seq \<longrightarrow> can_allocate e seq = AllocLater)"
  using gpu_blocks_bound [OF assms] be_reachable_good [OF assms]
  by (auto simp: can_allocate_def Let_def be_good_def)

text \<open>
  Swapping a sequence out and freeing it loses CPU blocks: every CPU block is marked as
  a GPU block when it is created, so \<^verbatim>\<open>free_sequence\<close> hands the blocks the sequence got
  from the CPU allocator to the GPU allocator, which would then give them out as GPU blocks.
\<close>

theorem swapped_out_blocks_end_up_on_the_gpu:
  assumes "be_reachable bs ngpu ncpu e" and "block_tables e (bes_id seq) = Some t"
    and "can_swap_out_seq e seq"
  shows "\<exists>m e1 e2 cs. swap_out e seq = Ok (m, e1) \<and> free_sequence e1 (bes_id seq) = Ok e2
     \<and> length cs = length t \<and> set cs \<subseteq> Pair CpuArena ` UNIV
     \<and> gpu_free e2 = gpu_free e @ t @ cs \<and> cpu_free e = cpu_free e2 @ rev cs"
proof -
  have inv: "be_inv e" and cpu: "cpu_free e = cpu_allocator_new ncpu"
    using be_reachable_good [OF assms(1)] by (auto simp: be_good_def)
  have cpu_facts: "distinct (cpu_free e)" "set (cpu_free e) \<subseteq> Pair CpuArena ` UNIV"
    by (auto simp: cpu cpu_allocator_new_def distinct_map inj_on_def)
  have t: "distinct t" "\<forall>b \<in> set t. refcount (blocks e b) = 1 \<and> Map.empty (snd b) = None"
    "set t \<subseteq> Pair GpuArena ` UNIV"
    using inv assms(2) be_inv_owned(1,2) [OF inv assms(2)] by (auto simp: be_inv_def gpu_universe_def)
  have room: "length t \<le> length (cpu_free e)"
    using assms(2,3) by (simp add: can_swap_out_seq_def blocks_of_seq_def)
  obtain m cs e1 where 1: "swap_loop t Map.empty [] e = Ok (m, [] @ cs, e1)"
    "length cs = length t" "cpu_free e = cpu_free e1 @ rev cs" "gpu_free e1 = gpu_free e @ t"
    "cell_consts \<circ> blocks e1 = cell_consts \<circ> blocks e"
    "distinct (cpu_free e) \<longrightarrow> (\<forall>b \<in> set cs. refcount (blocks e1 b) = 1)"
    using swap_loop_gpu [OF t be_inv_cells(2) [OF inv] room cpu_facts(2), of "[]"] by blast
  let ?e = "e1\<lparr>block_tables := (block_tables e1)(bes_id seq \<mapsto> cs)\<rparr>"
  have gpu: "is_gpu (blocks ?e b)" for b
    using be_inv_cells(1) [OF inv, of b] fun_cong [OF 1(5), of b] by (simp add: cell_consts_def)
  have "distinct cs" using cpu_facts(1) unfolding 1(3) by simp
  from gpu_ops.release_all [OF this, of ?e] 1(6) cpu_facts(1)
  obtain e2 where 2: "rfold gpu_free_block cs ?e = Ok e2" "gpu_free e2 = gpu_free e1 @ cs"
    "gpu_frame e2 = gpu_frame ?e" by auto
  let ?e2 = "e2\<lparr>block_tables := (block_tables e2)(bes_id seq := None)\<rparr>"
  have "free_sequence ?e (bes_id seq) = Ok ?e2"
    using 2(1) rfold_free_one_gpu [OF gpu] by (simp add: free_sequence_def)
  moreover have "swap_out e seq
      = Ok (\<lambda>k. map_option (\<lambda>v. block_id (blocks ?e v)) (m k), ?e)"
    using assms(2) 1(1) by (simp add: swap_out_def)
  moreover have "set cs \<subseteq> Pair CpuArena ` UNIV" using cpu_facts(2) unfolding 1(3) by simp
  moreover have "cpu_free ?e2 = cpu_free e1" using gpu_frameD(2) [OF 2(3)] by simp
  ultimately show ?thesis using 1(2-4) 2(2) by (intro exI conjI) (assumption | simp)+
qed

text \<open>
  \<^verbatim>\<open>swap_in\<close> allocates its new blocks from the CPU allocator: with an empty CPU pool it
  panics, however many GPU blocks are free and although \<^verbatim>\<open>can_swap_in_seq\<close> allows it.
\<close>

theorem swap_in_needs_cpu_blocks:
  assumes "block_tables e (bes_id seq) = Some t" and "t \<noteq> []" and "cpu_free e = []"
    and "length t \<le> length (gpu_free e)"
  shows "can_swap_in_seq e seq \<and> panics (swap_in e seq)"
  using assms by (cases t) (simp_all add: can_swap_in_seq_def blocks_of_seq_def swap_in_def)

section \<open>Witnesses\<close>

definition prompt_of :: "nat \<Rightarrow> nat \<Rightarrow> block_engine_sequence" where
  "prompt_of sid n = \<lparr>bes_id = sid, bes_logical_token_blocks = n, bes_blocks_to_add_new_tok = 1\<rparr>"

lemma three_of_four:
  "\<exists>e. be_reachable 32 4 n e \<and> (\<exists>t. block_tables e 7 = Some t \<and> length t = 3)
     \<and> cpu_free e = cpu_allocator_new n"
proof -
  let ?e = "block_engine_new 32 4 n"
  have "bes_logical_token_blocks (prompt_of 7 3) \<le> length (gpu_free ?e)"
    "block_tables ?e (bes_id (prompt_of 7 3)) = None"
    by (simp_all add: prompt_of_def block_engine_new_def gpu_allocator_new_def)
  from be_inv_allocate [OF be_inv_new this(2,1)] obtain e t where
    e: "allocate ?e (prompt_of 7 3) = Ok e" "block_tables e = (block_tables ?e)(7 \<mapsto> t)"
    "length t = 3" "cpu_free e = cpu_free ?e"
    by (auto simp: prompt_of_def)
  have "be_step ?e e"
    by (rule step_allocate [OF _ _ _ e(1)])
      (simp_all add: prompt_of_def block_engine_new_def gpu_allocator_new_def can_allocate_def)
  then have "be_reachable 32 4 n e" by (rule reach_step [OF reach_new])
  with e(2-4) show ?thesis by (auto simp: block_engine_new_def)
qed

theorem gpu_blocks_have_one_owner_witness:
  "\<exists>e. (\<exists>t. block_tables e 7 = Some t \<and> length t = 3) \<and> be_inv e \<and> length (gpu_free e)
     + (\<Sum>sid \<in> dom (block_tables e). length (the (block_tables e sid))) = 4"
  using three_of_four [of 0] gpu_blocks_have_one_owner by blast

theorem guarded_calls_never_panic_witness:
  "\<exists>e. (\<exists>t. block_tables e 7 = Some t \<and> length t = 3) \<and> is_ok (free_sequence e 7)"
  using three_of_four [of 0] guarded_calls_never_panic by blast

theorem free_undoes_allocate_witness:
  "\<exists>e1 e2. allocate (block_engine_new 32 4 0) (prompt_of 7 3) = Ok e1 \<and> free_sequence e1 7 = Ok e2
     \<and> mset (gpu_free e2) = mset (gpu_allocator_new 4)"
  using free_undoes_allocate [OF be_inv_new, of 32 4 0 "prompt_of 7 3"]
  by (auto simp: prompt_of_def block_engine_new_def gpu_allocator_new_def)

theorem oversized_prompt_is_told_later_witness:
  "\<exists>e. (\<exists>t. block_tables e 7 = Some t \<and> length t = 3) \<and> can_allocate e (prompt_of 8 5) = AllocLater"
proof -
  obtain e where e: "be_reachable 32 4 0 e" "\<exists>t. block_tables e 7 = Some t \<and> length t = 3"
    using three_of_four by blast
  then show ?thesis
    using oversized_prompt_is_told_later [OF e(1), of "prompt_of 8 5"] by (auto simp: prompt_of_def)
qed

theorem swapped_out_blocks_end_up_on_the_gpu_witness:
  "\<exists>e m e1 e2 cs. swap_out e (prompt_of 7 3) = Ok (m, e1) \<and> free_sequence e1 7 = Ok e2
     \<and> length cs = 3 \<and> set cs \<subseteq> Pair CpuArena ` UNIV \<and> set cs \<subseteq> set (gpu_free e2)"
proof -
  obtain e t where e: "be_reachable 32 4 5 e" "block_tables e 7 = Some t" "length t = 3"
    "cpu_free e = cpu_allocator_new 5"
    using three_of_four by blast
  then have "block_tables e (bes_id (prompt_of 7 3)) = Some t" "can_swap_out_seq e (prompt_of 7 3)"
    by (simp_all add: prompt_of_def can_swap_out_seq_def blocks_of_seq_def cpu_allocator_new_def)
  from swapped_out_blocks_end_up_on_the_gpu [OF e(1) this] obtain m e1 e2 cs where
    "swap_out e (prompt_of 7 3) = Ok (m, e1)" "free_sequence e1 7 = Ok e2"
    "length cs = length t" "set cs \<subseteq> Pair CpuArena ` UNIV" "gpu_free e2 = gpu_free e @ t @ cs"
    by (auto simp: prompt_of_def)
  with e(3) show ?thesis by (metis Un_upper2 set_append sup.coboundedI2)
qed

theorem swap_in_needs_cpu_blocks_witness:
  "let e = (block_engine_new 32 4 0)\<lparr>block_tables := [7 \<mapsto> [(GpuArena, 3)]]\<rparr>
   in can_swap_in_seq e (prompt_of 7 1) \<and> panics (swap_in e (prompt_of 7 1))"
  unfolding Let_def by (rule swap_in_needs_cpu_blocks [where t = "[(GpuArena, 3)]"])
    (simp_all add: prompt_of_def block_engine_new_def cpu_allocator_new_def gpu_allocator_new_def)

end
