(* ===== verification/Block_Pool.thy ===== *)
theory Block_Pool
  imports Block_Engine
begin

text \<open>
  What the block engine promises, without blocks: a pool is a number of free blocks and the
  number of blocks each sequence holds. The scheduler only sees the answers of the guards
  (\<^verbatim>\<open>can_allocate\<close>, \<^verbatim>\<open>can_append_token_to_seq\<close>), and these are the ones of the pool: the
  engine with its store, its free list and its reference counts is a refinement of it, call
  by call and over every run of calls.
\<close>

section \<open>Refinement of an interface with answers\<close>

text \<open>
  A concrete machine that may fail answers the calls of a client and changes its state, an
  abstract one does the same without failing. When the two agree on every call that the
  abstract machine admits in a state that corresponds to a good concrete one, then they
  agree on every run, and the concrete machine does not fail.
\<close>

fun answers :: "('c \<Rightarrow> 's \<Rightarrow> ('a \<times> 's) res) \<Rightarrow> 'c list \<Rightarrow> 's \<Rightarrow> ('a list \<times> 's) res" where
  "answers call [] s = Ok ([], s)"
| "answers call (c # cs) s =
     rbind (call c s) (\<lambda>(a, s'). rbind (answers call cs s') (\<lambda>(as, s''). Ok (a # as, s'')))"

fun spec_answers :: "('c \<Rightarrow> 'p \<Rightarrow> 'a \<times> 'p) \<Rightarrow> 'c list \<Rightarrow> 'p \<Rightarrow> 'a list \<times> 'p" where
  "spec_answers spec [] p = ([], p)"
| "spec_answers spec (c # cs) p =
     (let (a, p') = spec c p; (as, p'') = spec_answers spec cs p' in (a # as, p''))"

fun admitted :: "('c \<Rightarrow> 'p \<Rightarrow> bool) \<Rightarrow> ('c \<Rightarrow> 'p \<Rightarrow> 'a \<times> 'p) \<Rightarrow> 'c list \<Rightarrow> 'p \<Rightarrow> bool" where
  "admitted adm spec [] p = True"
| "admitted adm spec (c # cs) p = (adm c p \<and> admitted adm spec cs (snd (spec c p)))"

locale refinement =
  fixes call :: "'c \<Rightarrow> 's \<Rightarrow> ('a \<times> 's) res"
    and spec :: "'c \<Rightarrow> 'p \<Rightarrow> 'a \<times> 'p"
    and adm :: "'c \<Rightarrow> 'p \<Rightarrow> bool"
    and inv :: "'s \<Rightarrow> bool"
    and abs :: "'s \<Rightarrow> 'p"
  assumes refines: "inv s \<Longrightarrow> adm c (abs s) \<Longrightarrow>
      \<exists>s'. call c s = Ok (fst (spec c (abs s)), s') \<and> inv s' \<and> abs s' = snd (spec c (abs s))"
begin

lemma run_refines:
  assumes "inv s" and "admitted adm spec cs (abs s)"
  shows "\<exists>s'. answers call cs s = Ok (fst (spec_answers spec cs (abs s)), s')
     \<and> inv s' \<and> abs s' = snd (spec_answers spec cs (abs s))"
  using assms
proof (induction cs arbitrary: s)
  case Nil
  then show ?case by simp
next
  case (Cons c cs)
  then obtain s1 where 1: "call c s = Ok (fst (spec c (abs s)), s1)" "inv s1"
    "abs s1 = snd (spec c (abs s))"
    using refines by fastforce
  from Cons.prems(2) 1(3) have "admitted adm spec cs (abs s1)" by simp
  from Cons.IH [OF 1(2) this] 1 show ?case
    by (auto simp: Let_def split_beta)
qed

end

section \<open>The pool\<close>

type_synonym pool = "nat \<times> (nat \<rightharpoonup> nat)"

datatype engine_call =
    CallAllocate nat nat   \<comment> \<open>sequence and number of its logical blocks\<close>
  | CallAppend nat bool    \<comment> \<open>sequence and whether its next token needs a new block\<close>
  | CallFree nat

definition pool_held :: "pool \<Rightarrow> nat \<Rightarrow> nat" where
  "pool_held p sid = (case snd p sid of None \<Rightarrow> 0 | Some k \<Rightarrow> k)"

fun pool_call :: "engine_call \<Rightarrow> pool \<Rightarrow> bool \<times> pool" where
  "pool_call (CallAllocate sid n) (free, sizes) =
     (if n \<le> free then (True, free - n, sizes(sid \<mapsto> n)) else (False, free, sizes))"
| "pool_call (CallAppend sid new) (free, sizes) =
     (if of_bool new \<le> free
      then (True, case sizes sid of None \<Rightarrow> (free, sizes)
              | Some k \<Rightarrow> (free - of_bool new, sizes(sid \<mapsto> k + of_bool new)))
      else (False, free, sizes))"
| "pool_call (CallFree sid) (free, sizes) = (True, free + pool_held (free, sizes) sid, sizes(sid := None))"

text \<open>The duty of the scheduler: a sequence gets its first blocks once, and at least one.\<close>

fun pool_admits :: "engine_call \<Rightarrow> pool \<Rightarrow> bool" where
  "pool_admits (CallAllocate sid n) p = (0 < n \<and> snd p sid = None)"
| "pool_admits (CallAppend sid new) p = True"
| "pool_admits (CallFree sid) p = True"

section \<open>The engine behind its guards\<close>

text \<open>
  The calls as \<^verbatim>\<open>schedule\<close>, \<^verbatim>\<open>append_token_slot_to_seq\<close> and \<^verbatim>\<open>free_finished_sequence_groups\<close>
  of the PagedAttention scheduler make them: the guard first, then the operation.
\<close>

definition prompt_view :: "nat \<Rightarrow> nat \<Rightarrow> block_engine_sequence" where
  "prompt_view sid n =
     \<lparr>bes_id = sid, bes_logical_token_blocks = n, bes_blocks_to_add_new_tok = 0\<rparr>"

definition token_view :: "nat \<Rightarrow> bool \<Rightarrow> block_engine_sequence" where
  "token_view sid new =
     \<lparr>bes_id = sid, bes_logical_token_blocks = 0, bes_blocks_to_add_new_tok = of_bool new\<rparr>"

lemma view_simps [simp]:
  "bes_id (prompt_view sid n) = sid" "bes_logical_token_blocks (prompt_view sid n) = n"
  "bes_id (token_view sid new) = sid" "bes_blocks_to_add_new_tok (token_view sid new) = of_bool new"
  by (simp_all add: prompt_view_def token_view_def)

fun guarded_call :: "engine_call \<Rightarrow> block_engine \<Rightarrow> (bool \<times> block_engine) res" where
  "guarded_call (CallAllocate sid n) e =
     (if can_allocate e (prompt_view sid n) = AllocOk
      then rbind (allocate e (prompt_view sid n)) (\<lambda>e'. Ok (True, e'))
      else Ok (False, e))"
| "guarded_call (CallAppend sid new) e =
     (if can_append_token_to_seq e (token_view sid new)
      then rbind (append_token_slot_to_seq e (token_view sid new)) (\<lambda>(_, e'). Ok (True, e'))
      else Ok (False, e))"
| "guarded_call (CallFree sid) e = rbind (free_sequence e sid) (\<lambda>e'. Ok (True, e'))"

definition pool_of :: "block_engine \<Rightarrow> pool" where
  "pool_of e = (length (gpu_free e), \<lambda>sid. map_option length (block_tables e sid))"

lemma pool_of_update:
  "length (gpu_free e') = k \<Longrightarrow> block_tables e' = (block_tables e)(sid \<mapsto> t)
     \<Longrightarrow> pool_of e' = (k, (snd (pool_of e))(sid \<mapsto> length t))"
  "length (gpu_free e') = k \<Longrightarrow> block_tables e' = (block_tables e)(sid := None)
     \<Longrightarrow> pool_of e' = (k, (snd (pool_of e))(sid := None))"
  by (auto simp: pool_of_def fun_eq_iff)

lemma free_at_most_all:
  assumes "be_good ngpu ncpu e"
  shows "length (gpu_free e) \<le> num_gpu_blocks e"
  using be_inv_counts [of e] assms by (auto simp: be_good_def)

lemma can_allocate_iff:
  assumes "be_good ngpu ncpu e"
  shows "can_allocate e (prompt_view sid n) = AllocOk \<longleftrightarrow> n \<le> length (gpu_free e)"
  using free_at_most_all [OF assms] by (auto simp: can_allocate_def Let_def)

lemma guarded_allocate_refines:
  assumes good: "be_good ngpu ncpu e" and adm: "pool_admits (CallAllocate sid n) (pool_of e)"
  shows "\<exists>e'. guarded_call (CallAllocate sid n) e
       = Ok (fst (pool_call (CallAllocate sid n) (pool_of e)), e')
     \<and> be_good ngpu ncpu e' \<and> pool_of e' = snd (pool_call (CallAllocate sid n) (pool_of e))"
proof (cases "n \<le> length (gpu_free e)")
  case True
  have none: "block_tables e (bes_id (prompt_view sid n)) = None" and pos: "0 < n"
    using adm by (auto simp: pool_of_def)
  have inv: "be_inv e" using good by (simp add: be_good_def)
  have ok: "can_allocate e (prompt_view sid n) = AllocOk"
    using True can_allocate_iff [OF good] by simp
  obtain e' t where e': "allocate e (prompt_view sid n) = Ok e'"
    "block_tables e' = (block_tables e)(sid \<mapsto> t)" "length t = n" "gpu_free e = gpu_free e' @ rev t"
    using be_inv_allocate [OF inv none] True by auto
  have "be_step e e'" by (rule step_allocate [OF ok none _ e'(1)]) (simp add: pos)
  moreover have "length (gpu_free e') = length (gpu_free e) - n" using e'(3,4) by simp
  ultimately show ?thesis
    using True ok e'(1,3) be_step_good [OF _ good] pool_of_update(1) [OF _ e'(2)]
    by (simp add: pool_of_def [of e])
next
  case False
  then show ?thesis using good can_allocate_iff [OF good] by (simp add: pool_of_def)
qed

lemma guarded_append_refines:
  assumes good: "be_good ngpu ncpu e"
  shows "\<exists>e'. guarded_call (CallAppend sid new) e
       = Ok (fst (pool_call (CallAppend sid new) (pool_of e)), e')
     \<and> be_good ngpu ncpu e' \<and> pool_of e' = snd (pool_call (CallAppend sid new) (pool_of e))"
proof (cases "of_bool new \<le> length (gpu_free e)")
  case True
  have inv: "be_inv e" and ne: "block_tables e sid \<noteq> Some []" using good by (auto simp: be_good_def)
  have ok: "can_append_token_to_seq e (token_view sid new)"
    using True by (simp add: can_append_token_to_seq_def)
  show ?thesis
  proof (cases "block_tables e sid")
    case None
    then show ?thesis using True ok good by (auto simp: pool_of_def)
  next
    case (Some t)
    have t: "block_tables e (bes_id (token_view sid new)) = Some t" "t \<noteq> []" using Some ne by auto
    have le: "bes_blocks_to_add_new_tok (token_view sid new) \<le> 1" by simp
    obtain e' t' where e': "append_token_slot_to_seq e (token_view sid new) = Ok (None, e')"
      "block_tables e' = (block_tables e)(sid \<mapsto> t @ t')" "length t' = of_bool new"
      "gpu_free e = gpu_free e' @ t'"
      using be_inv_append_slot [OF inv t(1) le _ ok] t(2) by auto
    have "be_step e e'" by (rule step_append [OF ok _ e'(1)]) simp
    moreover have "length (gpu_free e') = length (gpu_free e) - of_bool new" using e'(3,4) by simp
    ultimately show ?thesis
      using True ok e'(1,3) be_step_good [OF _ good] pool_of_update(1) [OF _ e'(2)] Some
      by (simp add: pool_of_def [of e])
  qed
next
  case False
  then show ?thesis using good by (auto simp: pool_of_def can_append_token_to_seq_def)
qed

lemma guarded_free_refines:
  assumes good: "be_good ngpu ncpu e"
  shows "\<exists>e'. guarded_call (CallFree sid) e = Ok (fst (pool_call (CallFree sid) (pool_of e)), e')
     \<and> be_good ngpu ncpu e' \<and> pool_of e' = snd (pool_call (CallFree sid) (pool_of e))"
proof (cases "block_tables e sid")
  case None
  then show ?thesis using good by (simp add: pool_of_def pool_held_def fun_upd_idem)
next
  case (Some t)
  have inv: "be_inv e" using good by (simp add: be_good_def)
  obtain e' where e': "free_sequence e sid = Ok e'"
    "block_tables e' = (block_tables e)(sid := None)" "gpu_free e' = gpu_free e @ t"
    using be_inv_free [OF inv Some] by blast
  have "be_good ngpu ncpu e'" by (rule be_step_good [OF step_free [OF e'(1)] good])
  then show ?thesis
    using e'(1,3) pool_of_update(2) [OF _ e'(2)] Some by (simp add: pool_of_def [of e] pool_held_def)
qed

interpretation engine_pool: refinement guarded_call pool_call pool_admits "be_good ngpu ncpu" pool_of
  for ngpu ncpu
proof
  fix e c
  assume good: "be_good ngpu ncpu e" and adm: "pool_admits c (pool_of e)"
  show "\<exists>e'. guarded_call c e = Ok (fst (pool_call c (pool_of e)), e') \<and> be_good ngpu ncpu e'
      \<and> pool_of e' = snd (pool_call c (pool_of e))"
    using guarded_allocate_refines [OF good] guarded_append_refines [OF good]
      guarded_free_refines [OF good] adm by (cases c) blast+
qed

section \<open>Every run is a run of the pool\<close>

text \<open>
  C4. The block engine refines the pool: from a new engine, any sequence of guarded calls
  that gives each sequence its first blocks once never panics, and the answers of the guards
  and the final numbers of free and held blocks are those of the pool, which only counts.
\<close>

theorem engine_refines_pool:
  assumes "admitted pool_admits pool_call cs (ngpu, Map.empty)"
  shows "\<exists>e. answers guarded_call cs (block_engine_new bs ngpu ncpu)
       = Ok (fst (spec_answers pool_call cs (ngpu, Map.empty)), e)
     \<and> pool_of e = snd (spec_answers pool_call cs (ngpu, Map.empty))"
proof -
  have good: "be_good ngpu ncpu (block_engine_new bs ngpu ncpu)"
    by (rule be_reachable_good [OF reach_new])
  have pool: "pool_of (block_engine_new bs ngpu ncpu) = (ngpu, Map.empty)"
    by (simp add: pool_of_def block_engine_new_def gpu_allocator_new_def)
  show ?thesis
    using engine_pool.run_refines [OF good, of cs] assms unfolding pool by blast
qed

text \<open>Two sequences compete for three blocks: the second append is refused until the first
  sequence is freed.\<close>

theorem engine_refines_pool_witness:
  "let cs = [CallAllocate 7 1, CallAllocate 8 2, CallAppend 7 False, CallAppend 7 True, CallFree 8,
             CallAppend 7 True]
   in \<exists>e. answers guarded_call cs (block_engine_new 32 3 0)
        = Ok ([True, True, True, False, True, True], e)
      \<and> pool_of e = (1, [7 \<mapsto> 2])"
  using engine_refines_pool [of "[CallAllocate 7 1, CallAllocate 8 2, CallAppend 7 False,
      CallAppend 7 True, CallFree 8, CallAppend 7 True]" 3 32 0]
  by (simp add: pool_held_def fun_upd_twist numeral_2_eq_2 del: guarded_call.simps answers.simps)

end
