(* ===== verification/Logical_Blocks.thy ===== *)
theory Logical_Blocks
  imports Prelude
begin

text \<open>
  The logical token blocks of a sequence: \<^verbatim>\<open>LogicalTokenBlock\<close> of
  \<^verbatim>\<open>mistralrs-core/src/paged_attention/block_engine.rs\<close> and
  \<^verbatim>\<open>SequenceCustomMetadata\<close> of \<^verbatim>\<open>mistralrs-core/src/sequence.rs\<close>. A sequence that runs
  under PagedAttention stores its tokens a second time, cut into blocks of
  \<^verbatim>\<open>block_size\<close> tokens; the scheduler only looks at the number of blocks and at whether
  the last one has room. The lemmas show that appending keeps the blocks a partition of
  the tokens with exactly one block that has room at the end, and what the removal of
  tokens does.
\<close>

section \<open>One block\<close>

record logical_token_block =
  ltb_tokens :: "nat list"
  ltb_block_size :: nat
  ltb_num_tokens :: nat

definition ltb_new :: "nat \<Rightarrow> logical_token_block" where
  "ltb_new block_size =
     \<lparr>ltb_tokens = replicate block_size 0, ltb_block_size = block_size, ltb_num_tokens = 0\<rparr>"

definition ltb_is_full :: "logical_token_block \<Rightarrow> bool" where
  "ltb_is_full b = (ltb_num_tokens b = ltb_block_size b)"

definition ltb_is_empty :: "logical_token_block \<Rightarrow> bool" where
  "ltb_is_empty b = (ltb_num_tokens b = 0)"

definition append_token_id :: "logical_token_block \<Rightarrow> nat \<Rightarrow> logical_token_block res" where
  "append_token_id b tok =
     rbind (rassert (\<not> ltb_is_full b) ''assertion failed: !self.is_full()'') (\<lambda>_.
     rbind (vset (ltb_tokens b) (ltb_num_tokens b) tok) (\<lambda>ts.
     Ok (b\<lparr>ltb_tokens := ts, ltb_num_tokens := ltb_num_tokens b + 1\<rparr>)))"

text \<open>\<^verbatim>\<open>Vec::pop\<close> removes the last element and does nothing on an empty vector.\<close>

definition pop_token :: "logical_token_block \<Rightarrow> logical_token_block res" where
  "pop_token b =
     rbind (rassert (ltb_num_tokens b \<noteq> 0) ''assertion failed: left != right'') (\<lambda>_.
     Ok (b\<lparr>ltb_tokens := butlast (ltb_tokens b), ltb_num_tokens := ltb_num_tokens b - 1\<rparr>))"

section \<open>The blocks of a sequence\<close>

datatype custom_metadata =
    PagedAttention (logical_token_blocks: "logical_token_block list") (meta_block_size: nat)
  | NoMetadata

definition blocks_to_add_new_tok :: "logical_token_block list \<Rightarrow> nat" where
  "blocks_to_add_new_tok blocks =
     (if \<not> (blocks \<noteq> [] \<and> (ltb_is_full (last blocks) \<or> ltb_is_empty (last blocks))) then 0 else 1)"

fun append_token_to_blocks :: "custom_metadata \<Rightarrow> nat \<Rightarrow> custom_metadata res" where
  "append_token_to_blocks (PagedAttention blocks bs) tok =
     rbind (if blocks \<noteq> []
            then rbind (append_token_id (last blocks) tok) (\<lambda>b. Ok (butlast blocks @ [b]))
            else rbind (append_token_id (ltb_new bs) tok) (\<lambda>b. Ok [b])) (\<lambda>blocks'.
     Ok (PagedAttention
          (if ltb_is_full (last blocks') then blocks' @ [ltb_new bs] else blocks') bs))"
| "append_token_to_blocks NoMetadata tok = Ok NoMetadata"

fun pop_token_from_blocks :: "custom_metadata \<Rightarrow> custom_metadata res" where
  "pop_token_from_blocks (PagedAttention blocks bs) =
     (if blocks = [] then Err (Panic ''unwrap on None'')
      else rbind (pop_token (last blocks)) (\<lambda>b. Ok (PagedAttention (butlast blocks @ [b]) bs)))"
| "pop_token_from_blocks NoMetadata = Ok NoMetadata"

definition append_tokens_to_blocks :: "custom_metadata \<Rightarrow> nat list \<Rightarrow> custom_metadata res" where
  "append_tokens_to_blocks m toks = rfold (\<lambda>tok m. append_token_to_blocks m tok) toks m"

definition remove_tokens_from_blocks :: "custom_metadata \<Rightarrow> nat \<Rightarrow> custom_metadata res" where
  "remove_tokens_from_blocks m n = rfold (\<lambda>_ m. pop_token_from_blocks m) [0..<n] m"

section \<open>What the blocks represent\<close>

definition ltb_content :: "logical_token_block \<Rightarrow> nat list" where
  "ltb_content b = take (ltb_num_tokens b) (ltb_tokens b)"

definition blocks_content :: "logical_token_block list \<Rightarrow> nat list" where
  "blocks_content blocks = concat (map ltb_content blocks)"

definition ltb_wf :: "nat \<Rightarrow> logical_token_block \<Rightarrow> bool" where
  "ltb_wf bs b \<longleftrightarrow> ltb_block_size b = bs \<and> length (ltb_tokens b) = bs \<and> ltb_num_tokens b \<le> bs"

text \<open>
  The shape the code keeps while it only appends: every block but the last is full, the
  last is not. A sequence without tokens has no block.
\<close>

definition blocks_wf :: "nat \<Rightarrow> logical_token_block list \<Rightarrow> bool" where
  "blocks_wf bs blocks \<longleftrightarrow> (\<forall>b \<in> set blocks. ltb_wf bs b) \<and>
     (blocks \<noteq> [] \<longrightarrow> (\<forall>b \<in> set (butlast blocks). ltb_is_full b) \<and> \<not> ltb_is_full (last blocks))"

lemma ltb_wf_new [simp]: "ltb_wf bs (ltb_new bs)"
  by (simp add: ltb_wf_def ltb_new_def)

lemma ltb_new_simps [simp]:
  "ltb_is_empty (ltb_new bs)" "ltb_is_full (ltb_new bs) \<longleftrightarrow> bs = 0" "ltb_content (ltb_new bs) = []"
  by (auto simp: ltb_is_empty_def ltb_is_full_def ltb_content_def ltb_new_def)

lemma append_token_id_wf:
  assumes "ltb_wf bs b" and "\<not> ltb_is_full b"
  obtains b' where "append_token_id b tok = Ok b'" "ltb_wf bs b'"
    "ltb_content b' = ltb_content b @ [tok]" "ltb_num_tokens b' = ltb_num_tokens b + 1"
proof
  let ?b' = "b\<lparr>ltb_tokens := (ltb_tokens b)[ltb_num_tokens b := tok],
               ltb_num_tokens := ltb_num_tokens b + 1\<rparr>"
  have less: "ltb_num_tokens b < length (ltb_tokens b)"
    using assms by (auto simp: ltb_wf_def ltb_is_full_def)
  then show "append_token_id b tok = Ok ?b'"
    using assms(2) by (simp add: append_token_id_def vset_def)
  show "ltb_wf bs ?b'" "ltb_num_tokens ?b' = ltb_num_tokens b + 1"
    using assms less by (auto simp: ltb_wf_def)
  show "ltb_content ?b' = ltb_content b @ [tok]"
    using less by (simp add: ltb_content_def take_Suc_conv_app_nth)
qed

lemma ltb_content_length: "ltb_wf bs b \<Longrightarrow> length (ltb_content b) = ltb_num_tokens b"
  by (simp add: ltb_wf_def ltb_content_def)

lemma blocks_content_snoc [simp]: "blocks_content (bl @ [b]) = blocks_content bl @ ltb_content b"
  by (simp add: blocks_content_def)

lemma blocks_content_butlast:
  "blocks \<noteq> [] \<Longrightarrow> blocks_content (butlast blocks) @ ltb_content (last blocks) = blocks_content blocks"
  by (metis append_butlast_last_id blocks_content_snoc)

lemma blocks_wf_Nil [simp]: "blocks_wf bs []"
  by (simp add: blocks_wf_def)

lemma blocks_wf_snoc:
  "blocks_wf bs (bl @ [b]) \<longleftrightarrow> (\<forall>c \<in> set bl. ltb_wf bs c \<and> ltb_is_full c) \<and> ltb_wf bs b \<and> \<not> ltb_is_full b"
  by (auto simp: blocks_wf_def)

lemma full_content_length:
  "\<forall>c \<in> set bl. ltb_wf bs c \<and> ltb_is_full c \<Longrightarrow> length (blocks_content bl) = bs * length bl"
  by (induction bl) (auto simp: blocks_content_def ltb_content_length ltb_wf_def ltb_is_full_def
      ltb_content_def)

lemma blocks_wf_length:
  assumes "blocks_wf bs blocks" and "blocks \<noteq> []" and "0 < bs"
  shows "length blocks = length (blocks_content blocks) div bs + 1"
    and "ltb_num_tokens (last blocks) = length (blocks_content blocks) mod bs"
proof -
  obtain bl b where bl: "blocks = bl @ [b]"
    using assms(2) by (metis append_butlast_last_id)
  with assms have wf: "\<forall>c \<in> set bl. ltb_wf bs c \<and> ltb_is_full c" "ltb_wf bs b" "\<not> ltb_is_full b"
    by (auto simp: blocks_wf_snoc)
  have len: "length (blocks_content blocks) = bs * length bl + ltb_num_tokens b"
    using full_content_length [OF wf(1)] ltb_content_length [OF wf(2)] by (simp add: bl)
  have lt: "ltb_num_tokens b < bs"
    using wf(2,3) by (auto simp: ltb_wf_def ltb_is_full_def)
  show "length blocks = length (blocks_content blocks) div bs + 1"
    using len lt assms(3) by (simp add: bl)
  show "ltb_num_tokens (last blocks) = length (blocks_content blocks) mod bs"
    using len lt by (simp add: bl)
qed

section \<open>Appending\<close>

lemma append_token_to_blocks_wf:
  assumes wf: "blocks_wf bs blocks" and pos: "0 < bs"
  obtains blocks' where "append_token_to_blocks (PagedAttention blocks bs) tok
      = Ok (PagedAttention blocks' bs)"
    and "blocks_wf bs blocks'" and "blocks_content blocks' = blocks_content blocks @ [tok]"
    and "blocks' \<noteq> []"
proof -
  define bl where "bl = butlast blocks"
  define b where "b = (if blocks = [] then ltb_new bs else last blocks)"
  have wf_b: "ltb_wf bs b" "\<not> ltb_is_full b" and wf_bl: "\<forall>c \<in> set bl. ltb_wf bs c \<and> ltb_is_full c"
    and content: "blocks_content blocks = blocks_content bl @ ltb_content b"
    using wf pos
    by (auto simp: b_def bl_def blocks_wf_def blocks_content_butlast in_set_butlastD)
  obtain b' where b': "append_token_id b tok = Ok b'" "ltb_wf bs b'"
    "ltb_content b' = ltb_content b @ [tok]"
    using append_token_id_wf [OF wf_b] by metis
  let ?blocks' = "if ltb_is_full b' then bl @ [b', ltb_new bs] else bl @ [b']"
  show thesis
  proof (rule that [of ?blocks'])
    show "append_token_to_blocks (PagedAttention blocks bs) tok = Ok (PagedAttention ?blocks' bs)"
      using b'(1) by (auto simp: b_def bl_def)
    show "blocks_wf bs ?blocks'"
      using wf_bl b'(2) pos blocks_wf_snoc [of bs "bl @ [b']" "ltb_new bs"]
      by (auto simp: blocks_wf_snoc)
    show "blocks_content ?blocks' = blocks_content blocks @ [tok]"
      using b'(3) content by (simp add: blocks_content_def)
    show "?blocks' \<noteq> []" by simp
  qed
qed

lemma append_tokens_to_blocks_wf:
  assumes "blocks_wf bs blocks" and "0 < bs"
  shows "\<exists>blocks'. append_tokens_to_blocks (PagedAttention blocks bs) toks
      = Ok (PagedAttention blocks' bs) \<and> blocks_wf bs blocks'
      \<and> blocks_content blocks' = blocks_content blocks @ toks
      \<and> (blocks \<noteq> [] \<or> toks \<noteq> [] \<longrightarrow> blocks' \<noteq> [])"
  using assms
proof (induction toks arbitrary: blocks)
  case Nil
  then show ?case by (simp add: append_tokens_to_blocks_def)
next
  case (Cons tok toks)
  obtain blocks1 where 1: "append_token_to_blocks (PagedAttention blocks bs) tok
      = Ok (PagedAttention blocks1 bs)" "blocks_wf bs blocks1"
    "blocks_content blocks1 = blocks_content blocks @ [tok]" "blocks1 \<noteq> []"
    using append_token_to_blocks_wf [OF Cons.prems] by metis
  from Cons.IH [OF 1(2) Cons.prems(2)] 1 show ?case
    by (auto simp: append_tokens_to_blocks_def)
qed

text \<open>
  Cutting a prompt into logical blocks never panics for a positive block size, stores
  the tokens in order, and needs \<open>n div bs + 1\<close> blocks for \<open>n > 0\<close> tokens: there is always
  one block with room for the next token, an empty one when the tokens fill the others.
\<close>

theorem logical_blocks_of_prompt:
  assumes "0 < bs" and "toks \<noteq> []"
  shows "\<exists>blocks. append_tokens_to_blocks (PagedAttention [] bs) toks = Ok (PagedAttention blocks bs)
     \<and> blocks_content blocks = toks
     \<and> length blocks = length toks div bs + 1
     \<and> blocks_to_add_new_tok blocks = (if length toks mod bs = 0 then 1 else 0)"
proof -
  obtain blocks where b: "append_tokens_to_blocks (PagedAttention [] bs) toks
      = Ok (PagedAttention blocks bs)" "blocks_wf bs blocks" "blocks_content blocks = toks"
    "blocks \<noteq> []"
    using append_tokens_to_blocks_wf [of bs "[]" toks] assms by (auto simp: blocks_content_def)
  moreover have "\<not> ltb_is_full (last blocks)" using b(2,4) by (auto simp: blocks_wf_def)
  ultimately show ?thesis
    using blocks_wf_length [OF b(2,4) assms(1)]
    by (auto simp: blocks_to_add_new_tok_def ltb_is_empty_def)
qed

theorem logical_blocks_of_prompt_witness:
  "\<exists>blocks. append_tokens_to_blocks (PagedAttention [] 2) [7, 8, 9, 10] = Ok (PagedAttention blocks 2)
     \<and> length blocks = 3 \<and> blocks_to_add_new_tok blocks = 1"
  using logical_blocks_of_prompt [of 2 "[7, 8, 9, 10]"] by auto

section \<open>Removing\<close>

text \<open>
  A block that was filled and from which a token was popped cannot take a token
  again: \<^verbatim>\<open>pop_token\<close> shortens the vector, so the next \<^verbatim>\<open>append_token_id\<close> indexes one past
  its end, although the block reports room.
\<close>

theorem pop_then_append_panics:
  assumes "ltb_wf bs b" and "ltb_is_full b" and "0 < bs"
  shows "\<exists>b'. pop_token b = Ok b' \<and> \<not> ltb_is_full b' \<and> panics (append_token_id b' tok)"
  using assms by (auto simp: pop_token_def ltb_is_full_def ltb_wf_def append_token_id_def vset_def)

theorem pop_then_append_panics_witness:
  "\<exists>b'. pop_token \<lparr>ltb_tokens = [5, 6], ltb_block_size = 2, ltb_num_tokens = 2\<rparr> = Ok b'
     \<and> \<not> ltb_is_full b' \<and> panics (append_token_id b' 9)"
  by (rule pop_then_append_panics [of 2]) (simp_all add: ltb_wf_def ltb_is_full_def)

text \<open>
  Undoing one appended token panics whenever that token filled its block: appending
  then pushes a fresh empty block, and \<^verbatim>\<open>pop_token_from_blocks\<close> pops from that one.
\<close>

theorem undo_append_panics_at_block_boundary:
  assumes wf: "blocks_wf bs blocks" and "0 < bs"
    and "(length (blocks_content blocks) + 1) mod bs = 0"
  shows "\<exists>m. append_token_to_blocks (PagedAttention blocks bs) tok = Ok m
     \<and> panics (remove_tokens_from_blocks m 1)"
proof -
  obtain blocks' where b: "append_token_to_blocks (PagedAttention blocks bs) tok
      = Ok (PagedAttention blocks' bs)" "blocks_wf bs blocks'"
    "blocks_content blocks' = blocks_content blocks @ [tok]" "blocks' \<noteq> []"
    using append_token_to_blocks_wf [OF wf assms(2)] by metis
  have "ltb_num_tokens (last blocks') = 0"
    using blocks_wf_length(2) [OF b(2,4) assms(2)] b(3) assms(3) by simp
  with b(1,4) show ?thesis
    by (auto simp: remove_tokens_from_blocks_def pop_token_def rassert_def)
qed

theorem undo_append_panics_at_block_boundary_witness:
  "\<exists>m. append_token_to_blocks (PagedAttention [] 1) 4 = Ok m
     \<and> panics (remove_tokens_from_blocks m 1)"
  by (rule undo_append_panics_at_block_boundary) (simp_all add: blocks_content_def)

end
