(* ===== verification/Utf8.thy ===== *)
theory Utf8
  imports Prelude
begin

text \<open>
  What the source uses of Rust's strings: \<^verbatim>\<open>String::from_utf8_lossy\<close>, \<^verbatim>\<open>trim_start\<close> and
  slicing by a byte position. Bytes (\<^verbatim>\<open>u8\<close>) and characters (Unicode scalar values) are natural
  numbers, a string is the list of its characters. The lemmas show that lossy decoding can
  be cut wherever the decoded text does not end in the replacement character, and that it
  inverts encoding.
\<close>

type_synonym byte = nat
type_synonym rchar = nat
type_synonym rstring = "rchar list"

definition replacement_char :: rchar where
  "replacement_char = 65533"

definition is_cont :: "byte \<Rightarrow> bool" where
  "is_cont b = (128 \<le> b \<and> b \<le> 191)"

text \<open>The second bytes a three or four byte sequence may have after its first byte.\<close>

definition second_ok :: "byte \<Rightarrow> byte \<Rightarrow> bool" where
  "second_ok b0 b1 =
     (if b0 = 224 then 160 \<le> b1 \<and> b1 \<le> 191
      else if b0 = 237 then 128 \<le> b1 \<and> b1 \<le> 159
      else if b0 = 240 then 144 \<le> b1 \<and> b1 \<le> 191
      else if b0 = 244 then 128 \<le> b1 \<and> b1 \<le> 143
      else is_cont b1)"

text \<open>
  The first character of a byte string and the bytes after it. An ill-formed sequence
  is replaced, up to the first byte that makes it ill-formed.
\<close>

fun utf8_tail2 :: "nat \<Rightarrow> byte list \<Rightarrow> rchar \<times> byte list" where
  "utf8_tail2 acc (b # r) = (if is_cont b then (acc * 64 + (b - 128), r) else (replacement_char, b # r))"
| "utf8_tail2 acc [] = (replacement_char, [])"

fun utf8_tail3 :: "nat \<Rightarrow> byte list \<Rightarrow> rchar \<times> byte list" where
  "utf8_tail3 acc (b # r) = (if is_cont b then utf8_tail2 (acc * 64 + (b - 128)) r else (replacement_char, b # r))"
| "utf8_tail3 acc [] = (replacement_char, [])"

fun utf8_next :: "byte \<Rightarrow> byte list \<Rightarrow> rchar \<times> byte list" where
  "utf8_next b0 r =
     (if b0 < 128 then (b0, r)
      else if 194 \<le> b0 \<and> b0 \<le> 223 then utf8_tail2 (b0 - 192) r
      else if 224 \<le> b0 \<and> b0 \<le> 239 then
        (case r of [] \<Rightarrow> (replacement_char, [])
         | b1 # r' \<Rightarrow> if second_ok b0 b1 then utf8_tail2 ((b0 - 224) * 64 + (b1 - 128)) r'
                      else (replacement_char, r))
      else if 240 \<le> b0 \<and> b0 \<le> 244 then
        (case r of [] \<Rightarrow> (replacement_char, [])
         | b1 # r' \<Rightarrow> if second_ok b0 b1 then utf8_tail3 ((b0 - 240) * 64 + (b1 - 128)) r'
                      else (replacement_char, r))
      else (replacement_char, r))"

lemma utf8_tail2_length: "length (snd (utf8_tail2 acc r)) \<le> length r"
  by (cases r) auto

lemma utf8_tail3_length: "length (snd (utf8_tail3 acc r)) \<le> length r"
proof (cases r)
  case (Cons b bs)
  then show ?thesis using utf8_tail2_length [of "acc * 64 + (b - 128)" bs] by simp
qed simp

lemma utf8_next_length: "length (snd (utf8_next b0 r)) \<le> length r"
proof (cases r)
  case (Cons b bs)
  then show ?thesis
    using utf8_tail2_length [of "(b0 - 224) * 64 + (b - 128)" bs] utf8_tail2_length [of "b0 - 192" r]
      utf8_tail3_length [of "(b0 - 240) * 64 + (b - 128)" bs] by simp
qed simp

text \<open>\<^verbatim>\<open>String::from_utf8_lossy\<close>.\<close>

function utf8_lossy :: "byte list \<Rightarrow> rchar list" where
  "utf8_lossy [] = []"
| "utf8_lossy (b # r) = fst (utf8_next b r) # utf8_lossy (snd (utf8_next b r))"
  by pat_completeness auto
termination
  by (relation "measure length") (use utf8_next_length in \<open>auto simp: less_Suc_eq_le simp del: utf8_next.simps\<close>)

section \<open>Encoding, trimming, slicing\<close>

definition utf8_char :: "rchar \<Rightarrow> byte list" where
  "utf8_char c =
     (if c < 128 then [c]
      else if c < 2048 then [192 + c div 64, 128 + c mod 64]
      else if c < 65536 then [224 + c div 4096, 128 + c div 64 mod 64, 128 + c mod 64]
      else [240 + c div 262144, 128 + c div 4096 mod 64, 128 + c div 64 mod 64, 128 + c mod 64])"

definition utf8_encode :: "rchar list \<Rightarrow> byte list" where
  "utf8_encode s = concat (map utf8_char s)"

definition is_scalar :: "rchar \<Rightarrow> bool" where
  "is_scalar c = (c < 55296 \<or> 57344 \<le> c \<and> c < 1114112)"

text \<open>\<^verbatim>\<open>char::is_whitespace\<close> and \<^verbatim>\<open>str::trim_start\<close>.\<close>

definition is_whitespace :: "rchar \<Rightarrow> bool" where
  "is_whitespace c = (9 \<le> c \<and> c \<le> 13 \<or> c = 32 \<or> c = 133 \<or> c = 160 \<or> c = 5760
     \<or> 8192 \<le> c \<and> c \<le> 8202 \<or> c = 8232 \<or> c = 8233 \<or> c = 8239 \<or> c = 8287 \<or> c = 12288)"

definition trim_start :: "rchar list \<Rightarrow> rchar list" where
  "trim_start s = dropWhile is_whitespace s"

text \<open>\<^verbatim>\<open>&s[..n]\<close>, which panics when \<open>n\<close> is out of range or inside a character.\<close>

fun str_slice_to :: "rchar list \<Rightarrow> nat \<Rightarrow> rchar list res" where
  "str_slice_to s 0 = Ok []"
| "str_slice_to [] (Suc n) = Err (Panic ''byte index is out of bounds'')"
| "str_slice_to (c # s) (Suc n) =
     (if length (utf8_char c) \<le> Suc n
      then rbind (str_slice_to s (Suc n - length (utf8_char c))) (\<lambda>t. Ok (c # t))
      else Err (Panic ''byte index is not a char boundary''))"

section \<open>Cutting a byte string\<close>

lemma utf8_tail2_append:
  "utf8_tail2 acc r = (c, r') \<Longrightarrow> c \<noteq> replacement_char \<or> r' \<noteq> [] \<Longrightarrow> utf8_tail2 acc (r @ s) = (c, r' @ s)"
  by (cases r) (auto split: if_splits)

lemma utf8_tail3_append:
  "utf8_tail3 acc r = (c, r') \<Longrightarrow> c \<noteq> replacement_char \<or> r' \<noteq> [] \<Longrightarrow> utf8_tail3 acc (r @ s) = (c, r' @ s)"
  by (cases r) (auto simp: utf8_tail2_append split: if_splits)

lemma utf8_next_append:
  assumes "utf8_next b r = (c, r')" and "c \<noteq> replacement_char \<or> r' \<noteq> []"
  shows "utf8_next b (r @ s) = (c, r' @ s)"
  using assms by (cases r) (auto simp: utf8_tail2_append utf8_tail3_append split: if_splits)

lemma utf8_lossy_eq_Nil [simp]: "utf8_lossy r = [] \<longleftrightarrow> r = []"
  by (cases r) auto

lemma utf8_lossy_append:
  "r \<noteq> [] \<longrightarrow> last (utf8_lossy r) \<noteq> replacement_char \<Longrightarrow> utf8_lossy (r @ s) = utf8_lossy r @ utf8_lossy s"
proof (induction r rule: utf8_lossy.induct)
  case 1
  then show ?case by simp
next
  case (2 b r)
  obtain c r' where n: "utf8_next b r = (c, r')" by (cases "utf8_next b r")
  have ne: "c \<noteq> replacement_char \<or> r' \<noteq> []" using 2(2) n by (auto simp del: utf8_next.simps)
  have "r' \<noteq> [] \<longrightarrow> last (utf8_lossy r') \<noteq> replacement_char"
    using 2(2) n by (auto simp del: utf8_next.simps split: if_splits)
  with 2(1) n have "utf8_lossy (r' @ s) = utf8_lossy r' @ utf8_lossy s"
    by (simp del: utf8_next.simps)
  with utf8_next_append [OF n ne, of s] n show ?case by (simp del: utf8_next.simps)
qed

section \<open>Decoding what was encoded\<close>

lemma second_ok_3:
  assumes "c = (a * 64 + m) * 64 + l" "m < 64" "l < 64" "2048 \<le> c" "c < 65536" "is_scalar c"
  shows "second_ok (224 + a) (128 + m)" "a \<le> 15"
  using assms by (auto simp: second_ok_def is_cont_def is_scalar_def)

lemma second_ok_4:
  assumes "c = (a * 64 + m) * 64 * 64 + l" "m < 64" "l < 64 * 64" "65536 \<le> c" "c < 1114112"
  shows "second_ok (240 + a) (128 + m)" "a \<le> 4"
  using assms by (auto simp: second_ok_def is_cont_def)

lemma is_cont_mod [simp]: "is_cont (128 + n mod 64)"
proof -
  have "n mod 64 < 64" by simp
  then show ?thesis unfolding is_cont_def by linarith
qed

lemma utf8_next_char:
  assumes "is_scalar c"
  shows "\<exists>b r'. utf8_char c = b # r' \<and> utf8_next b (r' @ r) = (c, r)"
proof -
  have "c < 1114112" using assms by (auto simp: is_scalar_def)
  then consider "c < 128" | "128 \<le> c" "c < 2048" | "2048 \<le> c" "c < 65536" | "65536 \<le> c" "c < 1114112"
    by linarith
  then show ?thesis
  proof cases
    case 1
    then show ?thesis by (simp add: utf8_char_def)
  next
    case 2
    then show ?thesis by (simp add: utf8_char_def) linarith
  next
    case 3
    have q: "c div 64 div 64 = c div 4096" by (simp add: div_mult2_eq [symmetric])
    have "c div 4096 * 64 + c div 64 mod 64 = c div 64"
      unfolding q [symmetric] by (rule div_mult_mod_eq)
    moreover have "second_ok (224 + c div 4096) (128 + c div 64 mod 64)"
      "c div 4096 \<le> 15"
      using second_ok_3 [of c "c div 4096" "c div 64 mod 64" "c mod 64"] 3 assms
        calculation by simp_all
    ultimately show ?thesis using 3 by (simp add: utf8_char_def)
  next
    case 4
    have q: "c div 64 div 64 = c div 4096" "c div 4096 div 64 = c div 262144"
      by (simp_all add: div_mult2_eq [symmetric])
    have "c div 262144 * 64 + c div 4096 mod 64 = c div 4096"
      unfolding q(2) [symmetric] by (rule div_mult_mod_eq)
    moreover have "c div 4096 * 64 + c div 64 mod 64 = c div 64"
      unfolding q(1) [symmetric] by (rule div_mult_mod_eq)
    moreover have "second_ok (240 + c div 262144) (128 + c div 4096 mod 64)"
      "c div 262144 \<le> 4"
      using second_ok_4 [of c "c div 262144" "c div 4096 mod 64" "c mod 4096"] 4
        calculation by simp_all
    ultimately show ?thesis using 4 by (simp add: utf8_char_def)
  qed
qed

lemma utf8_lossy_encode: "\<forall>c \<in> set s. is_scalar c \<Longrightarrow> utf8_lossy (utf8_encode s) = s"
proof (induction s)
  case Nil
  then show ?case by (simp add: utf8_encode_def)
next
  case (Cons c s)
  then obtain b r' where "utf8_char c = b # r'" "utf8_next b (r' @ utf8_encode s) = (c, utf8_encode s)"
    using utf8_next_char [of c "utf8_encode s"] by auto
  with Cons show ?case by (simp add: utf8_encode_def del: utf8_next.simps)
qed

lemma str_slice_to_prefix: "str_slice_to (s @ t) (length (utf8_encode s)) = Ok s"
proof (induction s)
  case Nil
  then show ?case by (simp add: utf8_encode_def)
next
  case (Cons c s)
  have "0 < length (utf8_char c)" by (simp add: utf8_char_def)
  then obtain n where n: "length (utf8_char c) + length (utf8_encode s) = Suc n"
    by (cases "length (utf8_char c) + length (utf8_encode s)") auto
  then have "Suc n - length (utf8_char c) = length (utf8_encode s)" by simp
  with Cons n show ?case by (simp add: utf8_encode_def)
qed

end
