(* ===== verification/Tools.thy ===== *)
theory Tools
  imports Utf8
begin

text \<open>
  Tool calls (\<^verbatim>\<open>mistralrs-core/src/tools/mod.rs\<close>, \<^verbatim>\<open>request.rs\<close>, \<^verbatim>\<open>response.rs\<close>): when a
  message, or the start of one that is still being generated, is a tool call. The JSON
  library is a parameter: what it answers for each of the four types the source asks it
  to read, and how it prints the arguments of a call. The lemmas relate the streaming
  test on a prefix to the call that is read from the complete message.
\<close>

section \<open>Types\<close>

datatype tool_type = ToolFunction

record rfunction =
  fn_description :: "rstring option"
  fn_name :: rstring

record tool =
  tool_tp :: tool_type
  tool_function :: rfunction

datatype tool_choice = ChoiceNone | ChoiceAuto | ChoiceTool tool

datatype tool_call_type = CallFunction

record called_function =
  cf_name :: rstring
  cf_arguments :: rstring

record tool_call_response =
  tcr_id :: rstring
  tcr_tp :: tool_call_type
  tcr_function :: called_function

text \<open>\<^verbatim>\<open>CalledFunctionParameters\<close> and \<^verbatim>\<open>CalledFunctionArguments\<close> differ in the name of a field;
  \<open>'v\<close> stands for the JSON object in it.\<close>

record 'v called_function_parameters =
  cfp_name :: rstring
  parameters :: 'v

record 'v called_function_arguments =
  cfa_name :: rstring
  arguments :: 'v

record tool_calling_matcher =
  choice :: tool_choice

text \<open>What \<^verbatim>\<open>serde_json::from_str\<close> answers: a value, an error at the end of the input, another error.\<close>

datatype 'a json_result = JOk 'a | JEof | JErr

record 'v serde_json =
  from_str_parameters :: "rstring \<Rightarrow> 'v called_function_parameters json_result"
  from_str_arguments :: "rstring \<Rightarrow> 'v called_function_arguments json_result"
  from_str_parameters_vec :: "rstring \<Rightarrow> 'v called_function_parameters list json_result"
  from_str_arguments_vec :: "rstring \<Rightarrow> 'v called_function_arguments list json_result"
  json_to_string :: "'v \<Rightarrow> rstring res"

section \<open>The operations\<close>

definition matcher_new :: "tool_choice \<Rightarrow> tool_calling_matcher" where
  "matcher_new c = \<lparr>choice = c\<rparr>"

definition could_be_json :: "(rstring \<Rightarrow> 'a json_result) \<Rightarrow> rstring \<Rightarrow> bool \<times> bool" where
  "could_be_json from_str s =
     (case from_str s of JOk _ \<Rightarrow> (False, True) | JEof \<Rightarrow> (True, False) | JErr \<Rightarrow> (False, False))"

text \<open>\<^verbatim>\<open>iter().find_map(..).unwrap_or_default()\<close> over the four checks.\<close>

fun first_check :: "(rstring \<Rightarrow> bool \<times> bool) list \<Rightarrow> rstring \<Rightarrow> bool \<times> bool" where
  "first_check [] s = (False, False)"
| "first_check (check # checks) s =
     (let (could_be_tool, is_complete_tool) = check s
      in if could_be_tool \<or> is_complete_tool then (could_be_tool, is_complete_tool)
         else first_check checks s)"

definition prefix_could_be_tool :: "'v serde_json \<Rightarrow> tool_calling_matcher \<Rightarrow> rstring \<Rightarrow> bool \<times> bool" where
  "prefix_could_be_tool js m s =
     (if choice m = ChoiceNone then (False, False)
      else first_check
        [could_be_json (from_str_parameters js), could_be_json (from_str_arguments js),
         could_be_json (from_str_parameters_vec js), could_be_json (from_str_arguments_vec js)] s)"

text \<open>\<^verbatim>\<open>uuid i\<close> is the text of the \<open>i\<close>-th fresh UUID of the call.\<close>

definition response_of :: "'v serde_json \<Rightarrow> (nat \<Rightarrow> rstring) \<Rightarrow> nat \<Rightarrow> rstring \<Rightarrow> 'v \<Rightarrow> tool_call_response res" where
  "response_of js uuid i name args =
     rbind (json_to_string js args) (\<lambda>txt.
     Ok \<lparr>tcr_id = [99, 97, 108, 108, 45] @ uuid i, tcr_tp = CallFunction,
         tcr_function = \<lparr>cf_name = name, cf_arguments = txt\<rparr>\<rparr>)"

definition get_call :: "'v serde_json \<Rightarrow> (nat \<Rightarrow> rstring) \<Rightarrow> tool_calling_matcher \<Rightarrow> rstring
    \<Rightarrow> tool_call_response list res" where
  "get_call js uuid m s =
     (if choice m = ChoiceNone then Ok []
      else case from_str_parameters js s of
        JOk d \<Rightarrow> rbind (response_of js uuid 0 (cfp_name d) (parameters d)) (\<lambda>r. Ok [r])
      | _ \<Rightarrow> (case from_str_parameters_vec js s of
        JOk ds \<Rightarrow> rmap (\<lambda>(i, d). response_of js uuid i (cfp_name d) (parameters d)) (List.enumerate 0 ds)
      | _ \<Rightarrow> (case from_str_arguments js s of
        JOk d \<Rightarrow> rbind (response_of js uuid 0 (cfa_name d) (arguments d)) (\<lambda>r. Ok [r])
      | _ \<Rightarrow> (case from_str_arguments_vec js s of
        JOk ds \<Rightarrow> rmap (\<lambda>(i, d). response_of js uuid i (cfa_name d) (arguments d)) (List.enumerate 0 ds)
      | _ \<Rightarrow> (case choice m of
          ChoiceTool _ \<Rightarrow> Err (Bail ''Tool choice was required but no tools were called.'')
        | _ \<Rightarrow> Ok [])))))"

definition parse_text_tools :: "'v serde_json \<Rightarrow> (nat \<Rightarrow> rstring) \<Rightarrow> rstring \<Rightarrow> tool_calling_matcher option
    \<Rightarrow> (rstring option \<times> tool_call_response list) res" where
  "parse_text_tools js uuid raw_text matcher =
     (case matcher of
        None \<Rightarrow> Ok (Some raw_text, [])
      | Some m \<Rightarrow>
          rbind (get_call js uuid m raw_text) (\<lambda>calls.
          Ok (if calls \<noteq> [] then (None, calls) else (Some raw_text, []))))"

section \<open>Lemmas\<close>

lemma rmap_response_ok:
  assumes "\<And>v. is_ok (json_to_string js v)"
  shows "is_ok (rmap (\<lambda>(i, d). response_of js uuid i (f d) (g d)) ds)"
proof (induction ds)
  case (Cons d ds)
  obtain i e where "d = (i, e)" by (cases d)
  moreover obtain t where "json_to_string js (g e) = Ok t" using assms by (auto simp: is_ok_iff)
  ultimately show ?case using Cons by (auto simp: is_ok_iff response_of_def)
qed simp

lemma first_check_complete:
  "snd (first_check checks s) \<Longrightarrow> \<exists>check \<in> set checks. snd (check s)"
  by (induction checks) (auto simp: Let_def split: prod.splits if_splits)

lemma could_be_json_complete: "snd (could_be_json f s) \<longleftrightarrow> (\<exists>d. f s = JOk d)"
  by (auto simp: could_be_json_def split: json_result.splits)

text \<open>
  When the streaming test calls a message a complete tool call, reading the calls from
  that message returns them: it neither fails nor, with a tool required, reports that no
  tool was called. A message that is not complete leaves the text alone, or fails only when
  a tool was required.
\<close>

theorem complete_prefix_is_a_call:
  assumes "\<And>v. is_ok (json_to_string js v)"
  shows "(snd (prefix_could_be_tool js m s) \<longrightarrow> is_ok (parse_text_tools js uuid s (Some m)))
     \<and> (\<not> snd (prefix_could_be_tool js m s) \<and> \<not> fst (prefix_could_be_tool js m s) \<longrightarrow>
          (case choice m of
             ChoiceTool _ \<Rightarrow> \<exists>e. parse_text_tools js uuid s (Some m) = Err (Bail e)
           | _ \<Rightarrow> parse_text_tools js uuid s (Some m) = Ok (Some s, [])))"
proof -
  have one: "is_ok (rbind (response_of js uuid i n v) (\<lambda>r. Ok [r]))" for i n v
    using assms [of v] by (auto simp: is_ok_iff response_of_def)
  have "is_ok (get_call js uuid m s)" if "snd (prefix_could_be_tool js m s)"
    using that one
    by (auto simp: prefix_could_be_tool_def could_be_json_complete get_call_def
        rmap_response_ok [OF assms] simp del: first_check.simps
        dest!: first_check_complete split: if_splits json_result.splits)
  then have 1: "is_ok (parse_text_tools js uuid s (Some m))" if "snd (prefix_could_be_tool js m s)"
    using that by (auto simp: parse_text_tools_def is_ok_iff split: if_splits)
  moreover have "case choice m of
        ChoiceTool _ \<Rightarrow> \<exists>e. parse_text_tools js uuid s (Some m) = Err (Bail e)
      | _ \<Rightarrow> parse_text_tools js uuid s (Some m) = Ok (Some s, [])"
    if "\<not> snd (prefix_could_be_tool js m s)" "\<not> fst (prefix_could_be_tool js m s)"
    using that by (auto simp: prefix_could_be_tool_def could_be_json_def parse_text_tools_def get_call_def
        Let_def split: tool_choice.splits json_result.splits if_splits)
  ultimately show ?thesis by blast
qed

definition toy_json :: "unit serde_json" where
  "toy_json = \<lparr>from_str_parameters = (\<lambda>s. if s = [1] then JOk \<lparr>cfp_name = [2], parameters = ()\<rparr> else JErr),
     from_str_arguments = (\<lambda>_. JErr), from_str_parameters_vec = (\<lambda>_. JErr),
     from_str_arguments_vec = (\<lambda>_. JErr), json_to_string = (\<lambda>_. Ok [])\<rparr>"

theorem complete_prefix_is_a_call_witness:
  "is_ok (parse_text_tools toy_json (\<lambda>_. []) [1] (Some (matcher_new ChoiceAuto)))
   \<and> parse_text_tools toy_json (\<lambda>_. []) [3] (Some (matcher_new ChoiceAuto)) = Ok (Some [3], [])"
  using complete_prefix_is_a_call [of toy_json "matcher_new ChoiceAuto" "[1]" "\<lambda>_. []"]
    complete_prefix_is_a_call [of toy_json "matcher_new ChoiceAuto" "[3]" "\<lambda>_. []"]
  by (simp add: toy_json_def matcher_new_def prefix_could_be_tool_def could_be_json_def)

end
