(* ===== verification/Seq.thy ===== *)
theory Seq
  imports Logical_Blocks Tools
begin

text \<open>
  A sequence, the unit the engine schedules (\<^verbatim>\<open>mistralrs-core/src/sequence.rs\<close>): one prompt
  and the tokens generated for it, why generation stops, the text that is streamed, and the
  group of sequences that answer one request.

  The record has the fields the modelled operations read or write. A cached tensor appears as
  the size of its third dimension, the only thing this file asks of one. Floating point
  numbers are a type \<open>'f\<close> with addition and an order of which no law of arithmetic is used;
  what is excluded are NaNs, on which \<^verbatim>\<open>partial_cmp\<close> has no answer.
  The search for a stop string is a third-party function and a parameter. Sequences of one
  request share their group through a mutex; an operation that touches the group takes it
  as an argument and returns it.
\<close>

section \<open>States\<close>

datatype stop_reason =
    Eos
  | StopTok nat
  | StopLength nat
  | ModelLength nat
  | StopString (stop_string_idx: nat) (completion_bytes_pos: nat)
  | Canceled
  | GeneratedImage

fun stop_reason_fmt :: "stop_reason \<Rightarrow> string" where
  "stop_reason_fmt Eos = ''stop''"
| "stop_reason_fmt (StopLength _) = ''length''"
| "stop_reason_fmt (ModelLength _) = ''length''"
| "stop_reason_fmt (StopTok _) = ''stop''"
| "stop_reason_fmt (StopString _ _) = ''stop''"
| "stop_reason_fmt Canceled = ''canceled''"
| "stop_reason_fmt GeneratedImage = ''generated-image''"

datatype sequence_state =
    Done stop_reason
  | RunningPrompt
  | RunningCompletion
  | Waiting
  | SeqError
  | RunningPrefillPrompt
  | FinishedAborted
  | FinishedIgnored
  | Swapped

section \<open>Sequences\<close>

record 'f top_logprob =
  tl_token :: nat
  tl_logprob :: 'f
  tl_bytes :: "rstring option"

record 'f logprobs =
  lp_token :: nat
  lp_logprob :: 'f
  lp_bytes :: "rstring option"
  top_logprobs :: "'f top_logprob list option"

text \<open>\<^verbatim>\<open>LayerCaches\<close>: per layer, the sequence length of the cached keys when there are any.\<close>

type_synonym layer_caches = "nat option list"

record 'f sequence =
  seq_id :: nat
  prompt_len :: nat
  max_len :: "nat option"
  timestamp :: nat
  stop_tokens :: "nat list"
  stop_strings :: "byte list list"
  return_logprobs :: bool
  response_index :: nat
  token_offset :: nat
  suffix_text :: "rstring option"
  prefix_text :: "rstring option"
  is_tmp :: bool
  prefill_prompt_toks :: "nat list option"
  adapters :: "string list option"
  cache :: layer_caches
  xlora_cache :: "layer_caches option"
  tokens :: "nat list"
  seq_logprobs :: "'f logprobs list"
  cumulative_logprob :: 'f
  last_logprob :: 'f
  last_completion_bytes_len :: nat
  last_is_done :: "stop_reason option"
  completion_bytes :: "byte list"
  stream_idx :: nat
  scheduling_urgency :: nat
  has_input_images :: bool
  prompt_timestamp :: "nat option"
  state :: sequence_state
  seq_metadata :: custom_metadata
  tools :: "tool_calling_matcher option"

text \<open>What \<^verbatim>\<open>new_waiting\<close> gets from the request.\<close>

record new_sequence =
  ns_tokens :: "nat list"
  ns_id :: nat
  ns_timestamp :: nat
  ns_layers :: nat
  ns_stop_tokens :: "nat list"
  ns_stop_strings :: "byte list list"
  ns_max_len :: "nat option"
  ns_return_logprobs :: bool
  ns_is_xlora :: bool
  ns_response_index :: nat
  ns_suffix :: "rstring option"
  ns_prefix :: "rstring option"
  ns_adapters :: "string list option"
  ns_has_images :: bool
  ns_block_size :: "nat option"
  ns_tools :: "tool_calling_matcher option"

definition new_waiting :: "new_sequence \<Rightarrow> 'f::zero sequence res" where
  "new_waiting r =
     (let metadata = (case ns_block_size r of Some bs \<Rightarrow> PagedAttention [] bs | None \<Rightarrow> NoMetadata)
      in rbind (append_tokens_to_blocks metadata (ns_tokens r)) (\<lambda>metadata.
      Ok \<lparr>seq_id = ns_id r, prompt_len = length (ns_tokens r), max_len = ns_max_len r,
          timestamp = ns_timestamp r, stop_tokens = ns_stop_tokens r,
          stop_strings = ns_stop_strings r, return_logprobs = ns_return_logprobs r,
          response_index = ns_response_index r, token_offset = 0,
          suffix_text = ns_suffix r, prefix_text = ns_prefix r, is_tmp = False,
          prefill_prompt_toks = None, adapters = ns_adapters r,
          cache = replicate (ns_layers r) None,
          xlora_cache = (if ns_is_xlora r then Some (replicate (ns_layers r) None) else None),
          tokens = ns_tokens r, seq_logprobs = [], cumulative_logprob = 0, last_logprob = 0,
          last_completion_bytes_len = 0, last_is_done = None, completion_bytes = [],
          stream_idx = 0, scheduling_urgency = 0, has_input_images = ns_has_images r,
          prompt_timestamp = None, state = Waiting, seq_metadata = metadata, tools = ns_tools r\<rparr>))"

definition add_urgency :: "'f sequence \<Rightarrow> 'f sequence" where
  "add_urgency s = s\<lparr>scheduling_urgency := scheduling_urgency s + 1\<rparr>"

definition reset_urgency :: "'f sequence \<Rightarrow> 'f sequence" where
  "reset_urgency s = s\<lparr>scheduling_urgency := 0\<rparr>"

definition prefill :: "layer_caches \<Rightarrow> layer_caches option \<Rightarrow> nat list \<Rightarrow> 'f sequence \<Rightarrow> 'f sequence" where
  "prefill c xc toks s = s\<lparr>cache := c, xlora_cache := xc, prefill_prompt_toks := Some toks,
     state := RunningPrefillPrompt\<rparr>"

text \<open>\<^verbatim>\<open>len\<close>: the tokens, or one more than what is cached; \<^verbatim>\<open>cache[0]\<close> panics without layers.\<close>

definition seq_len :: "'f sequence \<Rightarrow> nat res" where
  "seq_len s =
     (case prefill_prompt_toks s of Some toks \<Rightarrow> Ok (length toks)
      | None \<Rightarrow>
          if is_tmp s then Ok (length (tokens s))
          else rbind (case xlora_cache s of None \<Rightarrow> Ok None | Some c \<Rightarrow> vget c 0) (\<lambda>x.
               case x of Some n \<Rightarrow> Ok (n + 1)
               | None \<Rightarrow> rbind (vget (cache s) 0) (\<lambda>y.
                   case y of Some n \<Rightarrow> Ok (n + 1) | None \<Rightarrow> Ok (length (tokens s)))))"

definition is_running :: "'f sequence \<Rightarrow> bool" where
  "is_running s = (state s = RunningCompletion \<or> state s = RunningPrompt)"

definition is_completion :: "'f sequence \<Rightarrow> bool" where
  "is_completion s = (state s = RunningCompletion)"

definition is_prompt :: "'f sequence \<Rightarrow> bool" where
  "is_prompt s = (state s = RunningPrompt \<or> state s = RunningPrefillPrompt)"

definition is_waiting :: "'f sequence \<Rightarrow> bool" where
  "is_waiting s = (state s = Waiting)"

definition is_finished_paged_attn :: "'f sequence \<Rightarrow> bool" where
  "is_finished_paged_attn s =
     (case state s of FinishedAborted \<Rightarrow> True | FinishedIgnored \<Rightarrow> True | Done _ \<Rightarrow> True | _ \<Rightarrow> False)"

definition get_toks :: "'f sequence \<Rightarrow> nat list" where
  "get_toks s = (case prefill_prompt_toks s of Some toks \<Rightarrow> toks | None \<Rightarrow> tokens s)"

definition clear_blocks :: "custom_metadata \<Rightarrow> custom_metadata" where
  "clear_blocks m = (case m of PagedAttention _ bs \<Rightarrow> PagedAttention [] bs | NoMetadata \<Rightarrow> NoMetadata)"

definition set_toks :: "nat list \<Rightarrow> 'f sequence \<Rightarrow> 'f sequence res" where
  "set_toks toks s =
     rbind (append_tokens_to_blocks (clear_blocks (seq_metadata s)) toks) (\<lambda>m.
     Ok (s\<lparr>tokens := toks, prompt_len := length toks, seq_metadata := m\<rparr>))"

definition set_prefill_toks :: "nat list \<Rightarrow> 'f sequence \<Rightarrow> 'f sequence" where
  "set_prefill_toks toks s = s\<lparr>prefill_prompt_toks := Some toks\<rparr>"

definition reset_prefill_toks :: "'f sequence \<Rightarrow> 'f sequence" where
  "reset_prefill_toks s = s\<lparr>prefill_prompt_toks := None\<rparr>"

definition add_tmp_tok :: "nat \<Rightarrow> 'f sequence \<Rightarrow> 'f sequence res" where
  "add_tmp_tok tok s =
     rbind (append_token_to_blocks (seq_metadata s) tok) (\<lambda>m.
     Ok (s\<lparr>is_tmp := True, tokens := tokens s @ [tok], seq_metadata := m\<rparr>))"

text \<open>\<^verbatim>\<open>Vec::truncate\<close> to \<open>len - n\<close>, a subtraction that may underflow.\<close>

definition remove_tmp_tok :: "nat \<Rightarrow> 'f sequence \<Rightarrow> 'f sequence res" where
  "remove_tmp_tok n s =
     rbind (usub (length (tokens s)) n) (\<lambda>k.
     rbind (remove_tokens_from_blocks (seq_metadata s) n) (\<lambda>m.
     Ok (s\<lparr>is_tmp := False, tokens := take k (tokens s), seq_metadata := m\<rparr>)))"

definition stopped_by_token :: "stop_reason option \<Rightarrow> bool" where
  "stopped_by_token d = (case d of Some Eos \<Rightarrow> True | Some (StopTok _) \<Rightarrow> True | _ \<Rightarrow> False)"

definition add_token :: "'f::plus logprobs \<Rightarrow> byte list \<Rightarrow> stop_reason option \<Rightarrow> 'f sequence \<Rightarrow> 'f sequence res" where
  "add_token tok bytes is_done s =
     rbind (append_token_to_blocks (seq_metadata s) (lp_token tok)) (\<lambda>m.
     Ok (reset_prefill_toks (s\<lparr>
       completion_bytes := (if stopped_by_token is_done then completion_bytes s else completion_bytes s @ bytes),
       last_completion_bytes_len :=
         (if stopped_by_token is_done then last_completion_bytes_len s else length bytes),
       last_logprob := lp_logprob tok,
       last_is_done := is_done,
       seq_metadata := m,
       cumulative_logprob := cumulative_logprob s + lp_logprob tok,
       tokens := tokens s @ [lp_token tok],
       seq_logprobs := seq_logprobs s @ [tok]\<rparr>)))"

section \<open>When a sequence is done\<close>

text \<open>The first stop string, in the order of the request, that occurs in the generated bytes.\<close>

fun find_stop_string :: "(byte list \<Rightarrow> byte list \<Rightarrow> nat option) \<Rightarrow> byte list \<Rightarrow> nat \<Rightarrow> byte list list
    \<Rightarrow> stop_reason option" where
  "find_stop_string gs_find bytes idx [] = None"
| "find_stop_string gs_find bytes idx (s # ss) =
     (case gs_find bytes s of
        Some pos \<Rightarrow> Some (StopString idx pos)
      | None \<Rightarrow> find_stop_string gs_find bytes (idx + 1) ss)"

text \<open>The subtraction in this function is \<^verbatim>\<open>saturating_sub\<close>, the one of \<open>nat\<close>.\<close>

definition is_done :: "(byte list \<Rightarrow> byte list \<Rightarrow> nat option) \<Rightarrow> nat \<Rightarrow> nat list option \<Rightarrow> nat \<Rightarrow> 'f sequence
    \<Rightarrow> stop_reason option" where
  "is_done gs_find tok eos_tok max_model_len s =
     (if (case eos_tok of Some toks \<Rightarrow> tok \<in> set toks | None \<Rightarrow> False) then Some Eos
      else if state s = Done Canceled then Some Canceled
      else if tok \<in> set (stop_tokens s) then Some (StopTok tok)
      else if max_len s = Some (length (tokens s) - prompt_len s)
        then Some (StopLength (length (tokens s) - prompt_len s))
      else if length (tokens s) - prompt_len s = max_model_len then Some (ModelLength max_model_len)
      else find_stop_string gs_find (completion_bytes s) 0 (stop_strings s))"

section \<open>Streaming\<close>

definition peek_delta :: "'f sequence \<Rightarrow> rstring option res" where
  "peek_delta s =
     rbind (slice_from (completion_bytes s) (stream_idx s)) (\<lambda>bytes.
     let new_decoded = utf8_lossy bytes
     in if new_decoded \<noteq> [] \<and> last new_decoded = replacement_char then Ok None
        else if stream_idx s = 0 then Ok (Some (trim_start new_decoded))
        else Ok (Some new_decoded))"

definition get_delta :: "'f sequence \<Rightarrow> (rstring option \<times> 'f sequence) res" where
  "get_delta s =
     rbind (peek_delta s) (\<lambda>d.
     Ok (d, if d = None then s else s\<lparr>stream_idx := length (completion_bytes s)\<rparr>))"

section \<open>Groups\<close>

record choice =
  ch_finish_reason :: string
  ch_index :: nat
  ch_content :: "rstring option"
  ch_tool_calls :: "tool_call_response list"

record completion_choice =
  cc_finish_reason :: string
  cc_index :: nat
  cc_text :: rstring

record chunk_choice =
  ck_finish_reason :: "string option"
  ck_index :: nat
  ck_content :: "rstring option"
  ck_tool_calls :: "tool_call_response list"

record completion_chunk_choice =
  cck_finish_reason :: "string option"
  cck_index :: nat
  cck_text :: rstring

record 'f sequence_group =
  n_choices :: nat
  best_of :: "nat option"
  total_prompt_toks :: nat
  total_toks :: nat
  total_prompt_time :: nat
  total_time :: nat
  total_completion_time :: nat
  choices :: "choice list"
  completion_choices :: "('f \<times> completion_choice) list"
  chat_streaming_chunks :: "chunk_choice list"
  completion_streaming_chunks :: "completion_chunk_choice list"
  is_streaming :: bool
  is_chat :: bool

text \<open>The responses a client can receive, but for images and raw logits; the messages are left out.\<close>

datatype response =
    ChatDone "choice list"
  | CompletionDone "completion_choice list"
  | Chunk "chunk_choice list"
  | CompletionChunk "completion_chunk_choice list"
  | InternalError
  | ValidationError
  | ModelError "choice list"
  | CompletionModelError "completion_choice list"

definition group_new :: "nat \<Rightarrow> bool \<Rightarrow> bool \<Rightarrow> nat option \<Rightarrow> 'f sequence_group" where
  "group_new n streaming chat bo =
     \<lparr>n_choices = n, best_of = bo, total_prompt_toks = 0, total_toks = 0, total_prompt_time = 0,
      total_time = 0, total_completion_time = 0, choices = [], completion_choices = [],
      chat_streaming_chunks = [], completion_streaming_chunks = [],
      is_streaming = streaming, is_chat = chat\<rparr>"

definition set_state :: "sequence_state \<Rightarrow> 'f sequence \<Rightarrow> 'f sequence_group
    \<Rightarrow> ('f sequence \<times> 'f sequence_group) res" where
  "set_state st s g =
     rbind (if st = SeqError then rbind (usub (n_choices g) 1) (\<lambda>n. Ok (g\<lparr>n_choices := n\<rparr>)) else Ok g) (\<lambda>g.
     Ok (s\<lparr>state := st\<rparr>, g))"

definition update_time_info :: "nat \<Rightarrow> 'f sequence \<Rightarrow> 'f sequence_group \<Rightarrow> 'f sequence_group res" where
  "update_time_info now s g =
     rbind (case prompt_timestamp s of None \<Rightarrow> Ok g
            | Some ts \<Rightarrow>
                rbind (usub now ts) (\<lambda>dc. rbind (usub ts (timestamp s)) (\<lambda>dp.
                Ok (g\<lparr>total_completion_time := total_completion_time g + dc,
                      total_prompt_time := total_prompt_time g + dp\<rparr>)))) (\<lambda>g.
     rbind (usub now (timestamp s)) (\<lambda>dt.
     rbind (seq_len s) (\<lambda>len.
     Ok (g\<lparr>total_time := total_time g + dt, total_prompt_toks := prompt_len s, total_toks := len\<rparr>))))"

definition add_choice_to_group :: "nat \<Rightarrow> choice \<Rightarrow> 'f sequence \<Rightarrow> 'f sequence_group \<Rightarrow> 'f sequence_group res" where
  "add_choice_to_group now c s g = update_time_info now s (g\<lparr>choices := choices g @ [c]\<rparr>)"

definition add_completion_choice_to_group :: "nat \<Rightarrow> completion_choice \<Rightarrow> 'f sequence \<Rightarrow> 'f sequence_group
    \<Rightarrow> 'f sequence_group res" where
  "add_completion_choice_to_group now c s g =
     (let text = (case prefix_text s of None \<Rightarrow> [] | Some t \<Rightarrow> t) @ cc_text c
                 @ (case suffix_text s of None \<Rightarrow> [] | Some t \<Rightarrow> t)
      in update_time_info now s
           (g\<lparr>completion_choices := completion_choices g @ [(cumulative_logprob s, c\<lparr>cc_text := text\<rparr>)]\<rparr>))"

definition add_streaming_chunk_choice_to_group :: "nat \<Rightarrow> chunk_choice \<Rightarrow> 'f sequence \<Rightarrow> 'f sequence_group
    \<Rightarrow> 'f sequence_group res" where
  "add_streaming_chunk_choice_to_group now c s g =
     update_time_info now s (g\<lparr>chat_streaming_chunks := chat_streaming_chunks g @ [c]\<rparr>)"

definition add_streaming_completion_chunk_choice_to_group :: "completion_chunk_choice \<Rightarrow> 'f sequence_group
    \<Rightarrow> 'f sequence_group" where
  "add_streaming_completion_chunk_choice_to_group c g =
     g\<lparr>completion_streaming_chunks := completion_streaming_chunks g @ [c]\<rparr>"

text \<open>\<^verbatim>\<open>sort_by\<close> with the comparison turned round, which is stable.\<close>

fun insert_desc :: "'f::linorder \<times> 'a \<Rightarrow> ('f \<times> 'a) list \<Rightarrow> ('f \<times> 'a) list" where
  "insert_desc x [] = [x]"
| "insert_desc x (y # ys) = (if fst y \<le> fst x then x # y # ys else y # insert_desc x ys)"

definition sort_desc :: "('f::linorder \<times> 'a) list \<Rightarrow> ('f \<times> 'a) list" where
  "sort_desc xs = foldr insert_desc xs []"

definition get_completion_choices :: "'f::linorder sequence_group \<Rightarrow> completion_choice list" where
  "get_completion_choices g =
     (case best_of g of
        Some n \<Rightarrow> map snd (take n (sort_desc (completion_choices g)))
      | None \<Rightarrow> map snd (completion_choices g))"

record usage =
  completion_tokens :: nat
  prompt_tokens :: nat
  total_tokens :: nat

text \<open>The counts of \<^verbatim>\<open>get_usage\<close>; the rates are floating point quotients of the same numbers.\<close>

definition get_usage :: "'f sequence_group \<Rightarrow> usage res" where
  "get_usage g = rbind (usub (total_toks g) (total_prompt_toks g)) (\<lambda>c.
     Ok \<lparr>completion_tokens = c, prompt_tokens = total_prompt_toks g, total_tokens = total_toks g\<rparr>)"

definition maybe_send_chat_done_response :: "'f sequence_group \<Rightarrow> response list" where
  "maybe_send_chat_done_response g =
     (if length (choices g) = n_choices g then [ChatDone (choices g)] else [])"

definition maybe_send_completion_done_response :: "'f::linorder sequence_group \<Rightarrow> response list" where
  "maybe_send_completion_done_response g =
     (if length (completion_choices g) = n_choices g then [CompletionDone (get_completion_choices g)] else [])"

definition maybe_send_streaming_response :: "'f sequence_group \<Rightarrow> response list \<times> 'f sequence_group" where
  "maybe_send_streaming_response g =
     (if length (chat_streaming_chunks g) = n_choices g \<and> is_streaming g
      then ([Chunk (chat_streaming_chunks g)], g\<lparr>chat_streaming_chunks := []\<rparr>)
      else if length (completion_streaming_chunks g) = n_choices g \<and> is_streaming g
      then ([CompletionChunk (completion_streaming_chunks g)], g\<lparr>completion_streaming_chunks := []\<rparr>)
      else ([], g))"

section \<open>The tokens and their blocks agree\<close>

fun blocks_agree :: "custom_metadata \<Rightarrow> nat list \<Rightarrow> bool" where
  "blocks_agree NoMetadata toks = True"
| "blocks_agree (PagedAttention bl bs) toks = (0 < bs \<and> blocks_wf bs bl \<and> blocks_content bl = toks
     \<and> (toks \<noteq> [] \<longrightarrow> bl \<noteq> []))"

definition seq_wf :: "'f sequence \<Rightarrow> bool" where
  "seq_wf s = blocks_agree (seq_metadata s) (tokens s)"

text \<open>What the block engine asks of a sequence, \<^verbatim>\<open>None\<close> where the code is \<^verbatim>\<open>unreachable!()\<close>.\<close>

fun get_logical_token_blocks :: "custom_metadata \<Rightarrow> nat res" where
  "get_logical_token_blocks (PagedAttention bl _) = Ok (length bl)"
| "get_logical_token_blocks NoMetadata = Err (Panic ''internal error: entered unreachable code'')"

fun get_blocks_to_add_new_tok :: "custom_metadata \<Rightarrow> nat res" where
  "get_blocks_to_add_new_tok (PagedAttention bl _) = Ok (blocks_to_add_new_tok bl)"
| "get_blocks_to_add_new_tok NoMetadata = Err (Panic ''internal error: entered unreachable code'')"

lemma append_tokens_NoMetadata [simp]: "append_tokens_to_blocks NoMetadata toks = Ok NoMetadata"
  by (induction toks) (simp_all add: append_tokens_to_blocks_def)

lemma append_tokens_single: "append_tokens_to_blocks m [tok] = append_token_to_blocks m tok"
  by (cases "append_token_to_blocks m tok") (simp_all add: append_tokens_to_blocks_def)

lemma append_to_metadata:
  assumes "blocks_agree m toks0"
  shows "\<exists>m'. append_tokens_to_blocks m toks = Ok m' \<and> blocks_agree m' (toks0 @ toks)"
proof (cases m)
  case NoMetadata
  then show ?thesis by simp
next
  case (PagedAttention bl bs)
  with assms have "blocks_wf bs bl" "0 < bs" "blocks_content bl = toks0" "toks0 \<noteq> [] \<longrightarrow> bl \<noteq> []"
    by simp_all
  with append_tokens_to_blocks_wf [of bs bl toks] PagedAttention show ?thesis by auto
qed

lemma blocks_agree_clear: "seq_wf s \<Longrightarrow> blocks_agree (clear_blocks (seq_metadata s)) []"
  by (auto simp: seq_wf_def clear_blocks_def blocks_content_def split: custom_metadata.splits)

lemma append_one_to_metadata:
  "blocks_agree m toks0 \<Longrightarrow> \<exists>m'. append_token_to_blocks m tok = Ok m' \<and> blocks_agree m' (toks0 @ [tok])"
  using append_to_metadata [of m toks0 "[tok]"] by (simp add: append_tokens_single)

lemma add_token_wf:
  assumes "seq_wf s"
  obtains s' where "add_token tok bytes d s = Ok s'" "seq_wf s'" "tokens s' = tokens s @ [lp_token tok]"
    "prompt_len s' = prompt_len s" "max_len s' = max_len s" "stop_tokens s' = stop_tokens s"
    "stop_strings s' = stop_strings s" "state s' = state s" "stream_idx s' = stream_idx s"
    "completion_bytes s' = (if stopped_by_token d then completion_bytes s else completion_bytes s @ bytes)"
proof -
  obtain m where m: "append_token_to_blocks (seq_metadata s) (lp_token tok) = Ok m"
    "blocks_agree m (tokens s @ [lp_token tok])"
    using append_one_to_metadata assms unfolding seq_wf_def by blast
  obtain s' where s': "add_token tok bytes d s = Ok s'" using m(1) by (simp add: add_token_def)
  show thesis
    by (rule that [OF s']) (use s' m in \<open>auto simp: add_token_def reset_prefill_toks_def seq_wf_def\<close>)
qed

text \<open>
  C39. The operations that add tokens keep the logical blocks a copy of the tokens: a new
  sequence, one whose prompt was replaced and one that got a token have blocks whose
  contents are the tokens, all full but the last one.
\<close>

theorem tokens_and_blocks_agree:
  assumes "ns_block_size r \<noteq> Some 0" and "seq_wf (s :: 'f::{plus,zero} sequence)"
  shows "(\<exists>s0. new_waiting r = Ok (s0 :: 'f sequence) \<and> seq_wf s0 \<and> tokens s0 = ns_tokens r)
     \<and> (\<exists>s1. set_toks toks s = Ok s1 \<and> seq_wf s1 \<and> tokens s1 = toks)
     \<and> (\<exists>s2. add_token tok bytes d s = Ok s2 \<and> seq_wf s2 \<and> tokens s2 = tokens s @ [lp_token tok])
     \<and> (\<exists>s3. add_tmp_tok t s = Ok s3 \<and> seq_wf s3 \<and> tokens s3 = tokens s @ [t])"
proof (intro conjI)
  show "\<exists>s0. new_waiting r = Ok (s0 :: 'f sequence) \<and> seq_wf s0 \<and> tokens s0 = ns_tokens r"
  proof (cases "ns_block_size r")
    case None
    then show ?thesis by (simp add: new_waiting_def seq_wf_def)
  next
    case (Some bs)
    with assms(1) have "0 < bs" by simp
    with append_tokens_to_blocks_wf [of bs "[]" "ns_tokens r"] Some show ?thesis
      by (auto simp: new_waiting_def seq_wf_def blocks_content_def)
  qed
  show "\<exists>s1. set_toks toks s = Ok s1 \<and> seq_wf s1 \<and> tokens s1 = toks"
    using append_to_metadata [OF blocks_agree_clear, of s toks] assms(2) by (auto simp: set_toks_def seq_wf_def)
  show "\<exists>s2. add_token tok bytes d s = Ok s2 \<and> seq_wf s2 \<and> tokens s2 = tokens s @ [lp_token tok]"
    by (rule add_token_wf [OF assms(2), of tok bytes d]) blast
  show "\<exists>s3. add_tmp_tok t s = Ok s3 \<and> seq_wf s3 \<and> tokens s3 = tokens s @ [t]"
    using append_one_to_metadata [of "seq_metadata s" "tokens s" t] assms(2)
    by (auto simp: add_tmp_tok_def seq_wf_def)
qed

section \<open>The streamed text\<close>

text \<open>
  Streaming: for every token, its bytes are appended to the completion bytes and
  \<^verbatim>\<open>get_delta\<close> is called; the client shows the concatenation of the deltas.
\<close>

fun stream :: "byte list list \<Rightarrow> 'f sequence \<Rightarrow> (rstring \<times> 'f sequence) res" where
  "stream [] s = Ok ([], s)"
| "stream (bytes # rest) s =
     rbind (get_delta (s\<lparr>completion_bytes := completion_bytes s @ bytes\<rparr>)) (\<lambda>(d, s).
     rbind (stream rest s) (\<lambda>(text, s).
     Ok ((case d of None \<Rightarrow> [] | Some t \<Rightarrow> t) @ text, s)))"

definition streamed :: "'f sequence \<Rightarrow> rstring" where
  "streamed s = utf8_lossy (take (stream_idx s) (completion_bytes s))"

definition stream_wf :: "'f sequence \<Rightarrow> bool" where
  "stream_wf s \<longleftrightarrow> stream_idx s \<le> length (completion_bytes s)
     \<and> (streamed s \<noteq> [] \<longrightarrow> last (streamed s) \<noteq> replacement_char)"

lemma trim_start_split: "\<exists>ws. t = ws @ trim_start t \<and> (\<forall>c \<in> set ws. is_whitespace c)"
  by (rule exI [of _ "takeWhile is_whitespace t"]) (auto simp: trim_start_def dest: set_takeWhileD)

lemma get_delta_streamed:
  assumes "stream_wf s"
  shows "\<exists>d s'. get_delta (s\<lparr>completion_bytes := completion_bytes s @ bytes\<rparr>) = Ok (d, s')
     \<and> stream_wf s' \<and> completion_bytes s' = completion_bytes s @ bytes
     \<and> (\<exists>ws. streamed s' = streamed s @ ws @ (case d of None \<Rightarrow> [] | Some t \<Rightarrow> t)
          \<and> (\<forall>c \<in> set ws. is_whitespace c) \<and> (stream_idx s \<noteq> 0 \<longrightarrow> ws = []))
     \<and> (stream_idx s \<noteq> 0 \<longrightarrow> stream_idx s' \<noteq> 0)"
proof -
  let ?b = "completion_bytes s @ bytes"
  let ?t = "utf8_lossy (drop (stream_idx s) ?b)"
  have idx: "stream_idx s \<le> length (completion_bytes s)" using assms by (simp add: stream_wf_def)
  have "?b = take (stream_idx s) (completion_bytes s) @ drop (stream_idx s) ?b"
    using idx by (simp add: append_take_drop_id)
  moreover have "take (stream_idx s) (completion_bytes s) \<noteq> [] \<longrightarrow>
      last (utf8_lossy (take (stream_idx s) (completion_bytes s))) \<noteq> replacement_char"
    using assms by (simp add: stream_wf_def streamed_def)
  ultimately have dec: "utf8_lossy ?b = streamed s @ ?t"
    unfolding streamed_def by (metis utf8_lossy_append)
  have last: "last (utf8_lossy ?b) \<noteq> replacement_char"
    if "utf8_lossy ?b \<noteq> []" "?t \<noteq> [] \<longrightarrow> last ?t \<noteq> replacement_char"
    using that assms unfolding dec by (auto simp: stream_wf_def last_append)
  obtain ws where ws: "?t = ws @ trim_start ?t" "\<forall>c \<in> set ws. is_whitespace c"
    using trim_start_split by blast
  show ?thesis
  proof (cases "?t \<noteq> [] \<and> last ?t = replacement_char")
    case True
    then have "get_delta (s\<lparr>completion_bytes := ?b\<rparr>) = Ok (None, s\<lparr>completion_bytes := ?b\<rparr>)"
      using idx by (simp add: get_delta_def peek_delta_def Let_def)
    moreover have "stream_wf (s\<lparr>completion_bytes := ?b\<rparr>)" "streamed (s\<lparr>completion_bytes := ?b\<rparr>) = streamed s"
      using assms by (auto simp: stream_wf_def streamed_def)
    ultimately show ?thesis by (intro exI [of _ None] exI [of _ "s\<lparr>completion_bytes := ?b\<rparr>"]) simp
  next
    case False
    let ?s' = "s\<lparr>completion_bytes := ?b, stream_idx := length ?b\<rparr>"
    let ?d = "if stream_idx s = 0 then trim_start ?t else ?t"
    have "get_delta (s\<lparr>completion_bytes := ?b\<rparr>) = Ok (Some ?d, ?s')"
      using False idx by (auto simp: get_delta_def peek_delta_def Let_def)
    moreover have st: "streamed ?s' = streamed s @ ?t" using dec by (simp add: streamed_def)
    moreover have "stream_wf ?s'"
      using last False by (auto simp: stream_wf_def streamed_def)
    ultimately show ?thesis
      using ws idx by (intro exI [of _ "Some ?d"] exI [of _ ?s'] conjI exI [of _ "if stream_idx s = 0 then ws else []"]) auto
  qed
qed

lemma stream_started:
  assumes "stream_wf s" and "stream_idx s \<noteq> 0"
  shows "\<exists>text s'. stream chunks s = Ok (text, s') \<and> stream_wf s'
     \<and> completion_bytes s' = completion_bytes s @ concat chunks \<and> streamed s' = streamed s @ text"
  using assms
proof (induction chunks arbitrary: s)
  case (Cons bytes rest)
  obtain d s1 where 1: "get_delta (s\<lparr>completion_bytes := completion_bytes s @ bytes\<rparr>) = Ok (d, s1)"
    "stream_wf s1" "completion_bytes s1 = completion_bytes s @ bytes" "stream_idx s1 \<noteq> 0"
    "streamed s1 = streamed s @ (case d of None \<Rightarrow> [] | Some t \<Rightarrow> t)"
    using get_delta_streamed [OF Cons.prems(1), of bytes] Cons.prems(2) by auto
  from Cons.IH [OF 1(2,4)] 1 show ?case by auto
qed simp


section \<open>The choices of a group\<close>

lemma mset_insert_desc [simp]: "mset (insert_desc x xs) = add_mset x (mset xs)"
  by (induction xs) auto

lemma mset_sort_desc [simp]: "mset (sort_desc xs) = mset xs"
  by (induction xs) (simp_all add: sort_desc_def)

lemma insert_desc_sorted:
  "sorted_wrt (\<lambda>a b. fst b \<le> fst a) xs \<Longrightarrow> sorted_wrt (\<lambda>a b. fst b \<le> fst a) (insert_desc x xs)"
proof (induction xs)
  case (Cons y ys)
  have "set (insert_desc x ys) = insert x (set ys)"
    by (metis mset_insert_desc set_mset_add_mset_insert set_mset_mset)
  with Cons show ?case by (auto intro: order_trans)
qed simp

lemma sort_desc_sorted: "sorted_wrt (\<lambda>a b. fst b \<le> fst a) (sort_desc xs)"
  by (induction xs) (simp_all add: sort_desc_def insert_desc_sorted)

text \<open>
  With \<^verbatim>\<open>best_of\<close> set to \<open>n\<close>, the response holds \<open>n\<close> of the completions that were made (all
  of them if there are fewer), in falling order of their log-probability, and none that was left
  out has a higher one.
\<close>

theorem best_of_takes_the_best:
  assumes "best_of g = Some n"
  shows "\<exists>kept dropped. get_completion_choices g = map snd kept
     \<and> mset (kept @ dropped) = mset (completion_choices g)
     \<and> length kept = min n (length (completion_choices g))
     \<and> sorted_wrt (\<lambda>a b. b \<le> a) (map fst kept)
     \<and> (\<forall>x \<in> set kept. \<forall>y \<in> set dropped. fst y \<le> fst x)"
proof (intro exI conjI)
  let ?s = "sort_desc (completion_choices g)"
  show "get_completion_choices g = map snd (take n ?s)"
    using assms by (simp add: get_completion_choices_def)
  have sorted: "sorted_wrt (\<lambda>a b. fst b \<le> fst a) (take n ?s @ drop n ?s)"
    by (simp only: append_take_drop_id sort_desc_sorted)
  then show "sorted_wrt (\<lambda>a b. b \<le> a) (map fst (take n ?s))"
    by (simp add: sorted_wrt_append sorted_wrt_map)
  show "\<forall>x \<in> set (take n ?s). \<forall>y \<in> set (drop n ?s). fst y \<le> fst x"
    using sorted unfolding sorted_wrt_append by blast
  show "mset (take n ?s @ drop n ?s) = mset (completion_choices g)" by simp
  show "length (take n ?s) = min n (length (completion_choices g))"
    by (metis length_take min.commute mset_eq_length mset_sort_desc)
qed

text \<open>One completion chunk after another, each followed by \<^verbatim>\<open>maybe_send_streaming_response\<close>.\<close>

fun push_chunks :: "completion_chunk_choice list \<Rightarrow> 'f sequence_group \<Rightarrow> response list \<times> 'f sequence_group" where
  "push_chunks [] g = ([], g)"
| "push_chunks (c # cs) g =
     (let (sent, g) = maybe_send_streaming_response (add_streaming_completion_chunk_choice_to_group c g);
          (sent', g) = push_chunks cs g
      in (sent @ sent', g))"

fun chunks_in :: "response \<Rightarrow> completion_chunk_choice list" where
  "chunks_in (CompletionChunk cs) = cs"
| "chunks_in _ = []"

lemma push_chunks_batches:
  assumes "is_streaming g" and "chat_streaming_chunks g = []"
    and "length (completion_streaming_chunks g) < n_choices g"
  shows "\<exists>sent g'. push_chunks cs g = (sent, g')
     \<and> concat (map chunks_in sent) @ completion_streaming_chunks g' = completion_streaming_chunks g @ cs
     \<and> (\<forall>r \<in> set sent. length (chunks_in r) = n_choices g)
     \<and> length (completion_streaming_chunks g') < n_choices g"
  using assms
proof (induction cs arbitrary: g)
  case (Cons c cs)
  let ?g = "add_streaming_completion_chunk_choice_to_group c g"
  have n: "n_choices g \<noteq> 0" using Cons.prems(3) by simp
  show ?case
  proof (cases "length (completion_streaming_chunks g) + 1 = n_choices g")
    case True
    let ?g1 = "?g\<lparr>completion_streaming_chunks := []\<rparr>"
    have send: "maybe_send_streaming_response ?g
        = ([CompletionChunk (completion_streaming_chunks g @ [c])], ?g1)"
      using Cons.prems(1,2) True
      by (simp add: maybe_send_streaming_response_def add_streaming_completion_chunk_choice_to_group_def)
    have "\<exists>sent g'. push_chunks cs ?g1 = (sent, g')
     \<and> concat (map chunks_in sent) @ completion_streaming_chunks g' = completion_streaming_chunks ?g1 @ cs
     \<and> (\<forall>r \<in> set sent. length (chunks_in r) = n_choices ?g1)
     \<and> length (completion_streaming_chunks g') < n_choices ?g1"
      by (rule Cons.IH) (use Cons.prems n in \<open>simp_all add: add_streaming_completion_chunk_choice_to_group_def\<close>)
    with send True show ?thesis
      by (auto simp: add_streaming_completion_chunk_choice_to_group_def)
  next
    case False
    then have send: "maybe_send_streaming_response ?g = ([], ?g)"
      using Cons.prems n
      by (simp add: maybe_send_streaming_response_def add_streaming_completion_chunk_choice_to_group_def)
    have "\<exists>sent g'. push_chunks cs ?g = (sent, g')
     \<and> concat (map chunks_in sent) @ completion_streaming_chunks g' = completion_streaming_chunks ?g @ cs
     \<and> (\<forall>r \<in> set sent. length (chunks_in r) = n_choices ?g)
     \<and> length (completion_streaming_chunks g') < n_choices ?g"
      by (rule Cons.IH) (use Cons.prems False in \<open>simp_all add: add_streaming_completion_chunk_choice_to_group_def\<close>)
    with send show ?thesis by (auto simp: add_streaming_completion_chunk_choice_to_group_def)
  qed
qed simp

text \<open>
  Streamed chunks leave in batches of \<^verbatim>\<open>n_choices\<close>, whichever sequence they come from: none
  is lost or reordered, but at every moment the last \<open>k mod n\<close> of the \<open>k\<close> chunks made so far are
  held back. Sequences of one request that stop at different lengths therefore leave the
  last chunks, finish reason included, unsent.
\<close>

theorem chunks_leave_in_batches:
  assumes "0 < n"
  shows "\<exists>sent g. push_chunks cs (group_new n True False b :: 'f sequence_group) = (sent, g)
     \<and> concat (map chunks_in sent) = take (length cs - length cs mod n) cs
     \<and> completion_streaming_chunks g = drop (length cs - length cs mod n) cs"
proof -
  obtain sent g where p: "push_chunks cs (group_new n True False b :: 'f sequence_group) = (sent, g)"
    "concat (map chunks_in sent) @ completion_streaming_chunks g = cs"
    "\<forall>r \<in> set sent. length (chunks_in r) = n" "length (completion_streaming_chunks g) < n"
    using push_chunks_batches [of "group_new n True False b :: 'f sequence_group" cs] assms by (auto simp: group_new_def)
  have "length (concat (map chunks_in sent)) = n * length sent"
    using p(3) by (induction sent) auto
  then have len: "length cs = n * length sent + length (completion_streaming_chunks g)"
    by (metis p(2) length_append)
  then have "length cs mod n = length (completion_streaming_chunks g)" using p(4) by simp
  with len \<open>length (concat (map chunks_in sent)) = n * length sent\<close> p(2)
  have "length cs - length cs mod n = length (concat (map chunks_in sent))" by simp
  moreover have "concat (map chunks_in sent) = take (length (concat (map chunks_in sent))) cs"
    "completion_streaming_chunks g = drop (length (concat (map chunks_in sent))) cs"
    unfolding p(2) [symmetric] by simp_all
  ultimately show ?thesis using p(1) by (intro exI [of _ sent] exI [of _ g]) simp
qed

section \<open>Witnesses\<close>

definition a_request :: "nat option \<Rightarrow> new_sequence" where
  "a_request bs = \<lparr>ns_tokens = [5, 6, 7], ns_id = 1, ns_timestamp = 10, ns_layers = 2, ns_stop_tokens = [],
     ns_stop_strings = [], ns_max_len = Some 4, ns_return_logprobs = False, ns_is_xlora = False,
     ns_response_index = 0, ns_suffix = None, ns_prefix = None, ns_adapters = None,
     ns_has_images = False, ns_block_size = bs, ns_tools = None\<rparr>"

definition plain_sequence :: "nat sequence" where
  "plain_sequence = (case new_waiting (a_request None) of Inr s \<Rightarrow> s)"

lemma plain_sequence_eqs [simp]:
  "tokens plain_sequence = [5, 6, 7]" "seq_metadata plain_sequence = NoMetadata"
  "stream_idx plain_sequence = 0" "completion_bytes plain_sequence = []"
  "prompt_len plain_sequence = 3" "max_len plain_sequence = Some 4" "stop_tokens plain_sequence = []"
  "stop_strings plain_sequence = []" "state plain_sequence = Waiting"
  by (simp_all add: plain_sequence_def new_waiting_def a_request_def)

theorem tokens_and_blocks_agree_witness:
  "\<exists>s0. new_waiting (a_request (Some 2)) = Ok (s0 :: nat sequence) \<and> seq_wf s0 \<and> tokens s0 = [5, 6, 7]"
  using tokens_and_blocks_agree [of "a_request (Some 2)" plain_sequence]
  by (auto simp: a_request_def seq_wf_def)


definition two_choices :: "nat sequence_group" where
  "two_choices = (group_new 2 False False (Some 1))\<lparr>completion_choices :=
     [(3, \<lparr>cc_finish_reason = ''stop'', cc_index = 0, cc_text = [97]\<rparr>),
      (5, \<lparr>cc_finish_reason = ''stop'', cc_index = 1, cc_text = [98]\<rparr>)]\<rparr>"

theorem best_of_takes_the_best_witness:
  "\<exists>kept dropped. get_completion_choices two_choices = map snd kept
     \<and> mset (kept @ dropped) = mset (completion_choices two_choices) \<and> length kept = 1"
proof -
  have "best_of two_choices = Some 1" "min 1 (length (completion_choices two_choices)) = 1"
    by (simp_all add: two_choices_def group_new_def)
  then show ?thesis using best_of_takes_the_best [of two_choices 1] by fastforce
qed

theorem chunks_leave_in_batches_witness:
  "\<exists>sent g. push_chunks
       [\<lparr>cck_finish_reason = None, cck_index = 0, cck_text = [97]\<rparr>,
        \<lparr>cck_finish_reason = None, cck_index = 1, cck_text = [98]\<rparr>,
        \<lparr>cck_finish_reason = Some ''stop'', cck_index = 1, cck_text = [99]\<rparr>]
       (group_new 2 True False None :: nat sequence_group) = (sent, g)
     \<and> completion_streaming_chunks g = [\<lparr>cck_finish_reason = Some ''stop'', cck_index = 1, cck_text = [99]\<rparr>]"
  using chunks_leave_in_batches [of 2
       "[\<lparr>cck_finish_reason = None, cck_index = 0, cck_text = [97]\<rparr>,
        \<lparr>cck_finish_reason = None, cck_index = 1, cck_text = [98]\<rparr>,
        \<lparr>cck_finish_reason = Some ''stop'', cck_index = 1, cck_text = [99]\<rparr>]" None]
  by fastforce

end
