(* ===== verification/Scheduler_Trait.thy ===== *)
theory Scheduler_Trait
  imports Prelude
begin

text \<open>
  The interface of a scheduler (the trait of \<^verbatim>\<open>mistralrs-core/src/scheduler/mod.rs\<close>) as the
  engine uses it: add a sequence, ask for the next batch, run that batch, free what is
  finished. Sequences appear by their identifiers. The two schedulers interpret the
  locale; its lemmas say that the engine loop over either of them never panics, never runs a
  sequence twice in one batch and never makes one up.
\<close>

locale scheduler =
  fixes add :: "'q \<Rightarrow> 's \<Rightarrow> 's"
    and schedule :: "'s \<Rightarrow> ('o \<times> 's) res"
    and run :: "'i \<Rightarrow> 'o \<Rightarrow> 's \<Rightarrow> 's res"
    and free_finished :: "'s \<Rightarrow> 's res"
    and qid :: "'q \<Rightarrow> nat"
    and held :: "'s \<Rightarrow> nat multiset"
    and batch :: "'o \<Rightarrow> nat list"
    and ready :: "'s \<Rightarrow> bool"
    and busy :: "'o \<Rightarrow> 's \<Rightarrow> bool"
    and ran :: "'s \<Rightarrow> bool"
    and admissible :: "'q \<Rightarrow> 's \<Rightarrow> bool"
    and good_run :: "'i \<Rightarrow> bool"
  assumes add_law: "ready s \<Longrightarrow> admissible q s \<Longrightarrow> ready (add q s) \<and> held (add q s) = add_mset (qid q) (held s)"
    and schedule_law: "ready s \<Longrightarrow> \<exists>out s'. schedule s = Ok (out, s') \<and> busy out s'
      \<and> held s' \<subseteq># held s \<and> mset (batch out) \<subseteq># held s'"
    and run_law: "busy out s \<Longrightarrow> good_run i \<Longrightarrow> \<exists>s'. run i out s = Ok s' \<and> ran s' \<and> held s' = held s"
    and free_law: "ran s \<Longrightarrow> \<exists>s'. free_finished s = Ok s' \<and> ready s' \<and> held s' \<subseteq># held s"
begin

text \<open>One turn of the engine loop, and many.\<close>

definition turn :: "'i \<Rightarrow> 's \<Rightarrow> 's res" where
  "turn i s = rbind (schedule s) (\<lambda>(out, s). rbind (run i out s) free_finished)"

lemma turn_ok:
  assumes "ready s" and "good_run i"
  shows "\<exists>s'. turn i s = Ok s' \<and> ready s' \<and> held s' \<subseteq># held s"
proof -
  obtain out s1 where 1: "schedule s = Ok (out, s1)" "busy out s1" "held s1 \<subseteq># held s"
    using schedule_law [OF assms(1)] by blast
  obtain s2 where 2: "run i out s1 = Ok s2" "ran s2" "held s2 = held s1"
    using run_law [OF 1(2) assms(2)] by blast
  obtain s3 where 3: "free_finished s2 = Ok s3" "ready s3" "held s3 \<subseteq># held s2"
    using free_law [OF 2(2)] by blast
  then show ?thesis
    using 1 2 subset_mset.order_trans [OF 3(3)] by (auto simp: turn_def)
qed

lemma turns_ok:
  assumes "ready s" and "\<forall>i \<in> set is. good_run i"
  shows "\<exists>s'. rfold turn is s = Ok s' \<and> ready s' \<and> held s' \<subseteq># held s"
  using assms
proof (induction "is" arbitrary: s)
  case (Cons i "is")
  obtain s1 where 1: "turn i s = Ok s1" "ready s1" "held s1 \<subseteq># held s"
    using turn_ok [OF Cons.prems(1), of i] Cons.prems(2) by auto
  from Cons.IH [OF 1(2)] Cons.prems(2) obtain s' where
    "rfold turn is s1 = Ok s'" "ready s'" "held s' \<subseteq># held s1" by auto
  with 1 show ?case by (auto intro: subset_mset.order_trans)
qed auto

lemma batch_distinct:
  assumes "ready s" and "\<And>x. count (held s) x \<le> 1" and "schedule s = Ok (out, s')"
  shows "distinct (batch out) \<and> set (batch out) \<subseteq> set_mset (held s)"
proof -
  have "held s' \<subseteq># held s" "mset (batch out) \<subseteq># held s'"
    using schedule_law [OF assms(1)] assms(3) by auto
  then have sub: "mset (batch out) \<subseteq># held s" by (rule subset_mset.order_trans [rotated])
  then have "count_list (batch out) x \<le> 1" for x
    using mset_subset_eq_count [OF sub, of x] assms(2) [of x] by (simp add: count_mset)
  then show ?thesis
    using count_list_1_distinct [of "batch out"] set_mset_mono [OF sub] by simp
qed

end

end
