(* ===== verification/Paged_Scheduler.thy ===== *)
theory Paged_Scheduler
  imports Block_Engine Seq Scheduler_Trait
begin

text \<open>
  The scheduler of PagedAttention (\<^verbatim>\<open>mistralrs-core/src/paged_attention/scheduler.rs\<close>): which
  sequences run next, and the blocks they get for it.

  The queues hold \<^verbatim>\<open>Arc<Mutex<Sequence>>\<close> and share the sequences with the engine, so the
  model has a store: a queue is a list of handles and \<open>seqs\<close> maps a handle to the sequence
  behind it. \<^verbatim>\<open>TERMINATE_ALL_NEXT_STEP\<close>, a global flag, is a field of the state. The lemmas show
  that the scheduler never panics, never loses or duplicates a sequence, gives every
  scheduled sequence a block for each of its tokens, and whom it preempts.
\<close>

section \<open>State\<close>

record 'f paged_scheduler =
  waiting :: "nat list"
  running :: "nat list"
  swapped_out :: "nat list"
  max_num_seqs :: nat
  engine :: block_engine
  block_size :: nat
  seqs :: "nat \<Rightarrow> 'f sequence"
  terminate_all :: bool

record paged_output =
  scheduled :: "nat list"
  blocks_to_swap_in :: "nat \<rightharpoonup> nat"
  blocks_to_swap_out :: "nat \<rightharpoonup> nat"
  blocks_to_copy :: "nat \<rightharpoonup> nat list"

definition paged_scheduler_new :: "nat \<Rightarrow> nat \<Rightarrow> nat \<Rightarrow> nat \<Rightarrow> (nat \<Rightarrow> 'f sequence) \<Rightarrow> 'f paged_scheduler" where
  "paged_scheduler_new mx bs ngpu ncpu st =
     \<lparr>waiting = [], running = [], swapped_out = [], max_num_seqs = mx,
      engine = block_engine_new bs ngpu ncpu, block_size = bs, seqs = st, terminate_all = False\<rparr>"

text \<open>\<^verbatim>\<open>impl BlockEngineSequence for Sequence\<close>.\<close>

definition bes_view :: "'f sequence \<Rightarrow> block_engine_sequence res" where
  "bes_view s =
     rbind (get_logical_token_blocks (seq_metadata s)) (\<lambda>n.
     rbind (get_blocks_to_add_new_tok (seq_metadata s)) (\<lambda>k.
     Ok \<lparr>bes_id = seq_id s, bes_logical_token_blocks = n, bes_blocks_to_add_new_tok = k\<rparr>))"

text \<open>\<^verbatim>\<open>set_state\<close> behind a handle, for the states other than \<^verbatim>\<open>Error\<close>, which leave the group alone.\<close>

definition put_state :: "nat \<Rightarrow> sequence_state \<Rightarrow> 'f paged_scheduler \<Rightarrow> 'f paged_scheduler" where
  "put_state h st sch = sch\<lparr>seqs := (seqs sch)(h := (seqs sch h)\<lparr>state := st\<rparr>)\<rparr>"

definition add_seq :: "nat \<Rightarrow> 'f sequence \<Rightarrow> 'f paged_scheduler \<Rightarrow> 'f paged_scheduler" where
  "add_seq h s sch = sch\<lparr>waiting := waiting sch @ [h], seqs := (seqs sch)(h := s)\<rparr>"

definition waiting_len :: "'f paged_scheduler \<Rightarrow> nat" where
  "waiting_len sch = length (waiting sch) + length (swapped_out sch)"

section \<open>Admitting waiting sequences\<close>

definition sched_allocate :: "nat \<Rightarrow> 'f paged_scheduler \<Rightarrow> 'f paged_scheduler res" where
  "sched_allocate h sch =
     rbind (bes_view (seqs sch h)) (\<lambda>v.
     rbind (allocate (engine sch) v) (\<lambda>e. Ok (sch\<lparr>engine := e\<rparr>)))"

definition sched_free :: "nat \<Rightarrow> 'f paged_scheduler \<Rightarrow> 'f paged_scheduler res" where
  "sched_free sid sch = rbind (free_sequence (engine sch) sid) (\<lambda>e. Ok (sch\<lparr>engine := e\<rparr>))"

text \<open>
  The loop over the waiting queue; its first argument is what the queue still holds. Once
  \<open>did_ignore\<close> is set it stays set.
\<close>

fun admit_loop :: "nat list \<Rightarrow> nat list \<Rightarrow> bool \<Rightarrow> 'f paged_scheduler
    \<Rightarrow> (nat list \<times> bool \<times> 'f paged_scheduler) res" where
  "admit_loop [] admitted did_ignore sch = Ok (admitted, did_ignore, sch)"
| "admit_loop (h # ws) admitted did_ignore sch =
     (if max_num_seqs sch = length (running sch) + 1 then Ok (admitted, did_ignore, sch)
      else rbind (bes_view (seqs sch h)) (\<lambda>v.
        case can_allocate (engine sch) v of
          AllocLater \<Rightarrow> Ok (admitted, did_ignore, sch)
        | status \<Rightarrow>
            (let ignore = did_ignore \<or> status = AllocImpossible;
                 sch1 = (if status = AllocImpossible then put_state h FinishedIgnored sch else sch)
             in rbind (if ignore then Ok sch1 else sched_allocate h (put_state h RunningPrompt sch1)) (\<lambda>sch2.
                admit_loop ws (if ignore then admitted else admitted @ [h]) ignore
                  (sch2\<lparr>waiting := ws, running := running sch2 @ [h]\<rparr>)))))"

section \<open>Preempting and appending slots\<close>

definition preempt_by_recompute :: "nat \<Rightarrow> 'f paged_scheduler \<Rightarrow> 'f paged_scheduler res" where
  "preempt_by_recompute h sch =
     rbind (sched_free (seq_id (seqs sch h)) (put_state h Waiting sch)) (\<lambda>sch.
     Ok (sch\<lparr>waiting := h # waiting sch\<rparr>))"

definition preempt :: "nat \<Rightarrow> 'f paged_scheduler \<Rightarrow> 'f paged_scheduler res" where
  "preempt h sch = preempt_by_recompute h sch"

definition copy_entry :: "(nat \<times> nat) option \<Rightarrow> (nat \<rightharpoonup> nat list) \<Rightarrow> (nat \<rightharpoonup> nat list)" where
  "copy_entry cow m =
     (case cow of None \<Rightarrow> m
      | Some (src, dst) \<Rightarrow> m(src \<mapsto> (case m src of None \<Rightarrow> [dst] | Some ds \<Rightarrow> ds @ [dst])))"

definition append_slot :: "nat \<Rightarrow> (nat \<rightharpoonup> nat list) \<Rightarrow> 'f paged_scheduler
    \<Rightarrow> ((nat \<rightharpoonup> nat list) \<times> 'f paged_scheduler) res" where
  "append_slot h copies sch =
     rbind (bes_view (seqs sch h)) (\<lambda>v.
     rbind (append_token_slot_to_seq (engine sch) v) (\<lambda>(cow, e).
     Ok (copy_entry cow copies, sch\<lparr>engine := e\<rparr>)))"

text \<open>
  The inner loop: preempt from the back of the running queue, here read from its back, until
  there is room for a token of \<open>h\<close>; with nothing left to preempt, preempt \<open>h\<close>. The result says
  whether \<open>h\<close> still runs, what is left of the queue, and whether something was preempted.
\<close>

fun make_room :: "nat \<Rightarrow> nat list \<Rightarrow> bool \<Rightarrow> 'f paged_scheduler
    \<Rightarrow> (bool \<times> nat list \<times> bool \<times> 'f paged_scheduler) res" where
  "make_room h [] did_preempt sch =
     rbind (bes_view (seqs sch h)) (\<lambda>v.
     if can_append_token_to_seq (engine sch) v then Ok (True, [], did_preempt, sch)
     else rbind (preempt h sch) (\<lambda>sch. Ok (False, [], True, sch)))"
| "make_room h (p # ps) did_preempt sch =
     rbind (bes_view (seqs sch h)) (\<lambda>v.
     if can_append_token_to_seq (engine sch) v then Ok (True, p # ps, did_preempt, sch)
     else rbind (preempt p sch) (\<lambda>sch. make_room h ps True sch))"

lemma make_room_shorter:
  "make_room h ps dp sch = Inr (kept, ps', dp', sch') \<Longrightarrow> length ps' \<le> length ps"
proof (induction ps arbitrary: dp sch)
  case (Cons p ps)
  then show ?case by (fastforce simp: res_simps split: if_splits)
qed (auto simp: res_simps split: if_splits)

lemma rbind_cong [fundef_cong]:
  "m = m' \<Longrightarrow> (\<And>x. m' = Inr x \<Longrightarrow> f x = g x) \<Longrightarrow> rbind m f = rbind m' g"
  by (cases m') simp_all

text \<open>The outer loop: \<open>rest\<close> is what the old running queue still holds, \<open>kept\<close> the new one.\<close>

function run_loop :: "nat list \<Rightarrow> nat list \<Rightarrow> bool \<Rightarrow> (nat \<rightharpoonup> nat list) \<Rightarrow> 'f paged_scheduler
    \<Rightarrow> (nat list \<times> bool \<times> (nat \<rightharpoonup> nat list) \<times> 'f paged_scheduler) res" where
  "run_loop [] kept did_preempt copies sch = Ok (kept, did_preempt, copies, sch)"
| "run_loop (h # rest) kept did_preempt copies sch =
     rbind (make_room h (rev rest) did_preempt sch) (\<lambda>(runs, rest', did_preempt', sch').
     if runs then
       rbind (append_slot h copies sch') (\<lambda>(copies', sch'').
       run_loop (rev rest') (kept @ [h]) did_preempt' copies' sch'')
     else run_loop (rev rest') kept did_preempt' copies sch')"
  by pat_completeness auto
termination
  by (relation "measure (\<lambda>(rest, _). length rest)") (auto dest!: make_room_shorter)

section \<open>Swapped out sequences\<close>

fun swap_in_loop :: "nat list \<Rightarrow> (nat \<rightharpoonup> nat) \<Rightarrow> (nat \<rightharpoonup> nat list) \<Rightarrow> 'f paged_scheduler
    \<Rightarrow> ((nat \<rightharpoonup> nat) \<times> (nat \<rightharpoonup> nat list) \<times> 'f paged_scheduler) res" where
  "swap_in_loop [] swaps copies sch = Ok (swaps, copies, sch)"
| "swap_in_loop (h # hs) swaps copies sch =
     rbind (bes_view (seqs sch h)) (\<lambda>v.
     if \<not> can_swap_in_seq (engine sch) v then Ok (swaps, copies, sch)
     else rbind (swap_in (engine sch) v) (\<lambda>(to_swap_in, e).
          rbind (append_slot h copies (sch\<lparr>engine := e, swapped_out := hs\<rparr>)) (\<lambda>(copies', sch').
          swap_in_loop hs (swaps ++ to_swap_in) copies' (sch'\<lparr>running := running sch' @ [h]\<rparr>))))"

definition sort_by_priority_fcfs :: "(nat \<Rightarrow> 'f sequence) \<Rightarrow> nat list \<Rightarrow> nat list" where
  "sort_by_priority_fcfs st hs = rev (sort_key (\<lambda>h. timestamp (st h)) hs)"

section \<open>One scheduling step\<close>

definition put_states :: "nat list \<Rightarrow> sequence_state \<Rightarrow> 'f paged_scheduler \<Rightarrow> 'f paged_scheduler" where
  "put_states hs st sch = fold (\<lambda>h. put_state h st) hs sch"

definition schedule_running :: "'f paged_scheduler \<Rightarrow> (paged_output \<times> 'f paged_scheduler) res" where
  "schedule_running sch =
     rbind (run_loop (sort_by_priority_fcfs (seqs sch) (running sch)) [] False Map.empty sch)
       (\<lambda>(kept, did_preempt, copies, sch).
     let sch = sch\<lparr>running := kept,
                   swapped_out := sort_by_priority_fcfs (seqs sch) (swapped_out sch)\<rparr>
     in rbind (if did_preempt then Ok (Map.empty, copies, sch)
               else swap_in_loop (swapped_out sch) Map.empty copies sch) (\<lambda>(swaps, copies, sch).
     let sch = put_states (running sch) RunningCompletion sch;
         sch = (if terminate_all sch
                then (put_states (running sch) (Done Canceled) sch)\<lparr>terminate_all := False\<rparr> else sch)
     in Ok (\<lparr>scheduled = running sch, blocks_to_swap_in = swaps, blocks_to_swap_out = Map.empty,
             blocks_to_copy = copies\<rparr>, sch)))"

definition schedule :: "'f paged_scheduler \<Rightarrow> (paged_output \<times> 'f paged_scheduler) res" where
  "schedule sch =
     (if swapped_out sch = [] then
        rbind (admit_loop (waiting sch) [] False sch) (\<lambda>(admitted, did_ignore, sch).
        if admitted \<noteq> [] \<or> did_ignore
        then Ok (\<lparr>scheduled = admitted, blocks_to_swap_in = Map.empty, blocks_to_swap_out = Map.empty,
                  blocks_to_copy = Map.empty\<rparr>, sch)
        else schedule_running sch)
      else schedule_running sch)"

definition free_finished_sequence_groups :: "'f paged_scheduler \<Rightarrow> 'f paged_scheduler res" where
  "free_finished_sequence_groups sch =
     (let done_ids = map (\<lambda>h. seq_id (seqs sch h)) (filter (\<lambda>h. is_finished_paged_attn (seqs sch h)) (running sch))
      in rfold sched_free done_ids
           (sch\<lparr>running := filter (\<lambda>h. \<not> is_finished_paged_attn (seqs sch h)) (running sch)\<rparr>))"

section \<open>Removing, aborting and swapping out, which nothing calls today\<close>

fun position :: "('a \<Rightarrow> bool) \<Rightarrow> 'a list \<Rightarrow> nat option" where
  "position p [] = None"
| "position p (x # xs) = (if p x then Some 0 else map_option Suc (position p xs))"

definition remove_at :: "nat \<Rightarrow> 'a list \<Rightarrow> 'a list" where
  "remove_at i xs = take i xs @ drop (Suc i) xs"

definition remove_seq :: "nat \<Rightarrow> 'f paged_scheduler \<Rightarrow> (nat \<times> 'f paged_scheduler) res" where
  "remove_seq sid sch =
     (let is_it = (\<lambda>h. seq_id (seqs sch h) = sid)
      in case position is_it (waiting sch) of
           Some i \<Rightarrow> Ok (waiting sch ! i, sch\<lparr>waiting := remove_at i (waiting sch)\<rparr>)
         | None \<Rightarrow> (case position is_it (running sch) of
           Some i \<Rightarrow> Ok (running sch ! i, sch\<lparr>running := remove_at i (running sch)\<rparr>)
         | None \<Rightarrow> (case position is_it (swapped_out sch) of
           Some i \<Rightarrow> Ok (swapped_out sch ! i, sch\<lparr>swapped_out := remove_at i (swapped_out sch)\<rparr>)
         | None \<Rightarrow> Err (Panic ''Attempted to remove sequence id but it is not running, waiting, or swapped out.''))))"

definition abort_seq :: "nat \<Rightarrow> 'f paged_scheduler \<Rightarrow> 'f paged_scheduler res" where
  "abort_seq sid sch =
     rbind (remove_seq sid sch) (\<lambda>(h, sch). sched_free sid (put_state h FinishedAborted sch))"

definition preempt_by_swap :: "nat \<Rightarrow> (nat \<rightharpoonup> nat) \<Rightarrow> 'f paged_scheduler
    \<Rightarrow> ((nat \<rightharpoonup> nat) \<times> 'f paged_scheduler) res" where
  "preempt_by_swap h swaps sch =
     rbind (bes_view (seqs sch h)) (\<lambda>v.
     if \<not> can_swap_out_seq (engine sch) v
     then rbind (abort_seq (seq_id (seqs sch h)) sch) (\<lambda>sch. Ok (swaps, sch))
     else rbind (swap_out (engine sch) v) (\<lambda>(new_to_swap, e).
          let sch = put_state h Swapped (sch\<lparr>engine := e\<rparr>)
          in Ok (swaps ++ new_to_swap, sch\<lparr>swapped_out := swapped_out sch @ [h]\<rparr>)))"

section \<open>The invariant of the loops\<close>

definition good_seq :: "nat \<Rightarrow> nat \<Rightarrow> 'f sequence \<Rightarrow> bool" where
  "good_seq bs h s \<longleftrightarrow> seq_id s = h \<and> seq_wf s \<and> tokens s \<noteq> [] \<and> (\<exists>bl. seq_metadata s = PagedAttention bl bs)"

lemma bes_view_good:
  assumes "good_seq bs h s"
  obtains v where "bes_view s = Ok v" "bes_id v = h"
    "bes_logical_token_blocks v = length (tokens s) div bs + 1"
    "bes_blocks_to_add_new_tok v = (if length (tokens s) mod bs = 0 then 1 else 0)"
proof -
  obtain bl where bl: "seq_metadata s = PagedAttention bl bs" "blocks_wf bs bl" "0 < bs" "bl \<noteq> []"
    "blocks_content bl = tokens s" "seq_id s = h"
    using assms by (auto simp: good_seq_def seq_wf_def)
  have "\<not> ltb_is_full (last bl)" using bl(2,4) by (auto simp: blocks_wf_def)
  then have "blocks_to_add_new_tok bl = (if length (tokens s) mod bs = 0 then 1 else 0)"
    using blocks_wf_length(2) [OF bl(2,4,3)] bl(4,5) by (simp add: blocks_to_add_new_tok_def ltb_is_empty_def)
  then show thesis
    by (intro that [of "\<lparr>bes_id = h, bes_logical_token_blocks = length bl,
        bes_blocks_to_add_new_tok = blocks_to_add_new_tok bl\<rparr>"]) (use bl blocks_wf_length(1) [OF bl(2,4,3)] in \<open>simp_all add: bes_view_def\<close>)
qed

definition table_len :: "'f paged_scheduler \<Rightarrow> nat \<Rightarrow> nat" where
  "table_len sch h = length (the (block_tables (engine sch) h))"

text \<open>
  \<open>core\<close>: the waiting handles \<open>W\<close>, the running ones whose table covers all tokens but the last
  (\<open>A\<close>), and those whose table covers the next token as well (\<open>B\<close>).
\<close>

definition core :: "nat \<Rightarrow> nat \<Rightarrow> nat \<Rightarrow> 'f paged_scheduler \<Rightarrow> nat list \<Rightarrow> nat list \<Rightarrow> nat list \<Rightarrow> bool" where
  "core bs ngpu ncpu sch W A B \<longleftrightarrow>
     be_good ngpu ncpu (engine sch) \<and>
     (\<forall>h \<in> set (W @ A @ B). good_seq bs h (seqs sch h)) \<and>
     distinct (W @ A @ B) \<and>
     dom (block_tables (engine sch)) = set (A @ B) \<and>
     (\<forall>h \<in> set A. table_len sch h = (length (tokens (seqs sch h)) - 1) div bs + 1) \<and>
     (\<forall>h \<in> set B. table_len sch h = length (tokens (seqs sch h)) div bs + 1)"

lemma good_seq_state [simp]: "good_seq bs h (s\<lparr>state := st\<rparr>) = good_seq bs h s"
  by (simp add: good_seq_def seq_wf_def)

lemma put_state_simps [simp]:
  "engine (put_state h st sch) = engine sch" "waiting (put_state h st sch) = waiting sch"
  "running (put_state h st sch) = running sch" "swapped_out (put_state h st sch) = swapped_out sch"
  "max_num_seqs (put_state h st sch) = max_num_seqs sch" "block_size (put_state h st sch) = block_size sch"
  "terminate_all (put_state h st sch) = terminate_all sch"
  "table_len (put_state h st sch) = table_len sch"
  "tokens (seqs (put_state h st sch) g) = tokens (seqs sch g)"
  "timestamp (seqs (put_state h st sch) g) = timestamp (seqs sch g)"
  "bes_view (seqs (put_state h st sch) g) = bes_view (seqs sch g)"
  "seq_id (seqs (put_state h st sch) g) = seq_id (seqs sch g)"
  "good_seq bs g (seqs (put_state h st sch) g) = good_seq bs g (seqs sch g)"
  by (simp_all add: put_state_def table_len_def fun_eq_iff bes_view_def)

lemma core_put_state [simp]: "core bs ngpu ncpu (put_state h st sch) W A B = core bs ngpu ncpu sch W A B"
  by (simp add: core_def)

lemma table_len_queues [simp]:
  "table_len (sch\<lparr>waiting := x\<rparr>) = table_len sch" "table_len (sch\<lparr>running := x\<rparr>) = table_len sch"
  "table_len (sch\<lparr>swapped_out := x\<rparr>) = table_len sch" "table_len (sch\<lparr>terminate_all := b\<rparr>) = table_len sch"
  by (simp_all add: table_len_def fun_eq_iff)

lemma core_queues [simp]:
  "core bs ngpu ncpu (sch\<lparr>waiting := x\<rparr>) W A B = core bs ngpu ncpu sch W A B"
  "core bs ngpu ncpu (sch\<lparr>running := x\<rparr>) W A B = core bs ngpu ncpu sch W A B"
  "core bs ngpu ncpu (sch\<lparr>swapped_out := x\<rparr>) W A B = core bs ngpu ncpu sch W A B"
  "core bs ngpu ncpu (sch\<lparr>terminate_all := b\<rparr>) W A B = core bs ngpu ncpu sch W A B"
  by (simp_all add: core_def)

lemma core_perm:
  assumes "core bs ngpu ncpu sch W A B" and "mset A' = mset A"
  shows "core bs ngpu ncpu sch W A' B"
proof -
  have "set A' = set A" "distinct A' = distinct A"
    using assms(2) by (metis set_mset_mset, metis mset_eq_imp_distinct_iff)
  with assms(1) show ?thesis by (simp add: core_def)
qed

lemma core_seq:
  "core bs ngpu ncpu sch W A B \<Longrightarrow> h \<in> set W \<or> h \<in> set A \<or> h \<in> set B \<Longrightarrow> good_seq bs h (seqs sch h)"
  by (auto simp: core_def)

text \<open>What the engine operations do to the invariant.\<close>

lemma core_allocate:
  assumes c: "core bs ngpu ncpu sch (h # W) A B" and v: "bes_view (seqs sch h) = Ok v"
    and ok: "can_allocate (engine sch) v = AllocOk"
  shows "\<exists>e. sched_allocate h sch = Ok (sch\<lparr>engine := e\<rparr>) \<and> core bs ngpu ncpu (sch\<lparr>engine := e\<rparr>) W A (B @ [h])"
proof -
  have good: "be_good ngpu ncpu (engine sch)" and gs: "good_seq bs h (seqs sch h)"
    and none: "block_tables (engine sch) h = None"
    using c by (auto simp: core_def)
  have vs: "bes_id v = h" "bes_logical_token_blocks v = length (tokens (seqs sch h)) div bs + 1"
    using bes_view_good [OF gs] v by (metis Inr_inject)+
  have inv: "be_inv (engine sch)" using good by (simp add: be_good_def)
  obtain e t where e: "allocate (engine sch) v = Ok e"
    "block_tables e = (block_tables (engine sch))(h \<mapsto> t)" "length t = bes_logical_token_blocks v"
    using be_inv_allocate [OF inv _ can_allocate_Ok [OF ok]] none vs(1) by auto
  have "be_good ngpu ncpu e"
    using be_step_good [OF step_allocate [OF ok _ _ e(1)] good] none vs by simp
  moreover have "\<forall>g \<in> set A. table_len (sch\<lparr>engine := e\<rparr>) g = table_len sch g"
    "\<forall>g \<in> set B. table_len (sch\<lparr>engine := e\<rparr>) g = table_len sch g"
    using e(2) c by (auto simp: table_len_def core_def)
  moreover have "table_len (sch\<lparr>engine := e\<rparr>) h = length (tokens (seqs sch h)) div bs + 1"
    using e(2,3) vs(2) by (simp add: table_len_def)
  ultimately have "core bs ngpu ncpu (sch\<lparr>engine := e\<rparr>) W A (B @ [h])"
    using c e(2) unfolding core_def by auto
  then show ?thesis using v e(1) by (auto simp: sched_allocate_def)
qed

lemma core_free:
  assumes c: "core bs ngpu ncpu sch W A B" and h: "h \<in> set A"
  shows "\<exists>e. sched_free h sch = Ok (sch\<lparr>engine := e\<rparr>) \<and> core bs ngpu ncpu (sch\<lparr>engine := e\<rparr>) W (remove1 h A) B"
proof -
  have good: "be_good ngpu ncpu (engine sch)" and dist: "distinct A" "h \<notin> set B"
    using c h by (auto simp: core_def)
  then have inv: "be_inv (engine sch)" by (simp add: be_good_def)
  have "h \<in> dom (block_tables (engine sch))" using c h by (simp add: core_def)
  then obtain t where t: "block_tables (engine sch) h = Some t" by auto
  obtain e where e: "free_sequence (engine sch) h = Ok e"
    "block_tables e = (block_tables (engine sch))(h := None)"
    using be_inv_free [OF inv t] by blast
  have "be_good ngpu ncpu e" by (rule be_step_good [OF step_free [OF e(1)] good])
  moreover have "\<forall>g \<in> set (remove1 h A). table_len (sch\<lparr>engine := e\<rparr>) g = table_len sch g"
    "\<forall>g \<in> set B. table_len (sch\<lparr>engine := e\<rparr>) g = table_len sch g"
    using e(2) dist by (auto simp: table_len_def set_remove1_eq)
  ultimately have "core bs ngpu ncpu (sch\<lparr>engine := e\<rparr>) W (remove1 h A) B"
    using c e(2) dist unfolding core_def by (auto simp: set_remove1_eq)
  then show ?thesis using e(1) by (auto simp: sched_free_def)
qed

lemma core_add_waiting:
  "core bs ngpu ncpu sch W A B \<Longrightarrow> good_seq bs h (seqs sch h) \<Longrightarrow> h \<notin> set (W @ A @ B)
   \<Longrightarrow> core bs ngpu ncpu sch (h # W) A B"
  by (auto simp: core_def)

lemma div_grow:
  assumes "0 < bs" and "0 < (t :: nat)"
  shows "(t - 1) div bs + 1 + (if t mod bs = 0 then 1 else 0) = t div bs + 1"
  using assms by (cases t) (auto simp: div_Suc)

lemma core_append:
  assumes c: "core bs ngpu ncpu sch W (h # A) B" and v: "bes_view (seqs sch h) = Ok v"
    and ok: "can_append_token_to_seq (engine sch) v"
  shows "\<exists>e. append_slot h copies sch = Ok (copies, sch\<lparr>engine := e\<rparr>)
    \<and> core bs ngpu ncpu (sch\<lparr>engine := e\<rparr>) W A (B @ [h])"
proof -
  let ?n = "length (tokens (seqs sch h))"
  have good: "be_good ngpu ncpu (engine sch)" and gs: "good_seq bs h (seqs sch h)"
    and len: "table_len sch h = (?n - 1) div bs + 1" and dom: "h \<in> dom (block_tables (engine sch))"
    using c by (auto simp: core_def)
  have vs: "bes_id v = h" "bes_blocks_to_add_new_tok v = (if ?n mod bs = 0 then 1 else 0)"
    using bes_view_good [OF gs] v by (metis Inr_inject)+
  have inv: "be_inv (engine sch)" using good by (simp add: be_good_def)
  obtain t where t: "block_tables (engine sch) (bes_id v) = Some t" using dom vs(1) by auto
  have "t \<noteq> []" using good t by (auto simp: be_good_def)
  moreover have le: "bes_blocks_to_add_new_tok v \<le> 1" using vs(2) by simp
  ultimately obtain e t' where e: "append_token_slot_to_seq (engine sch) v = Ok (None, e)"
    "block_tables e = (block_tables (engine sch))(h \<mapsto> t @ t')" "length t' = bes_blocks_to_add_new_tok v"
    using be_inv_append_slot [OF inv t le _ ok] vs(1) by auto
  have "be_good ngpu ncpu e"
    using be_step_good [OF step_append [OF ok _ e(1)] good] vs(2) by simp
  moreover have "\<forall>g \<in> set A. table_len (sch\<lparr>engine := e\<rparr>) g = table_len sch g"
    "\<forall>g \<in> set B. table_len (sch\<lparr>engine := e\<rparr>) g = table_len sch g"
    using e(2) c by (auto simp: table_len_def core_def)
  moreover have "table_len (sch\<lparr>engine := e\<rparr>) h = ?n div bs + 1"
  proof -
    have "0 < bs" "0 < ?n" using gs by (auto simp: good_seq_def seq_wf_def)
    have "table_len (sch\<lparr>engine := e\<rparr>) h = table_len sch h + (if ?n mod bs = 0 then 1 else 0)"
      using e(2,3) t vs by (simp add: table_len_def)
    then show ?thesis using div_grow [OF \<open>0 < bs\<close> \<open>0 < ?n\<close>] len by simp
  qed
  ultimately have "core bs ngpu ncpu (sch\<lparr>engine := e\<rparr>) W A (B @ [h])"
    using c e(2) unfolding core_def by auto
  then show ?thesis using v e(1) by (auto simp: append_slot_def copy_entry_def)
qed

text \<open>What no loop changes: the settings and everything of a sequence but its state.\<close>

definition frame :: "'f paged_scheduler \<Rightarrow> nat list \<times> nat \<times> nat \<times> bool \<times> (nat \<Rightarrow> 'f sequence)" where
  "frame sch = (swapped_out sch, max_num_seqs sch, block_size sch, terminate_all sch,
     \<lambda>h. (seqs sch h)\<lparr>state := Waiting\<rparr>)"

lemma frame_simps [simp]:
  "frame (put_state h st sch) = frame sch" "frame (sch\<lparr>engine := e\<rparr>) = frame sch"
  "frame (sch\<lparr>waiting := x\<rparr>) = frame sch" "frame (sch\<lparr>running := x\<rparr>) = frame sch"
  by (auto simp: frame_def put_state_def fun_eq_iff)

lemma frameD:
  assumes "frame sch' = frame sch"
  shows "swapped_out sch' = swapped_out sch" "max_num_seqs sch' = max_num_seqs sch"
    "block_size sch' = block_size sch" "terminate_all sch' = terminate_all sch"
    "tokens (seqs sch' h) = tokens (seqs sch h)" "timestamp (seqs sch' h) = timestamp (seqs sch h)"
    "bes_view (seqs sch' h) = bes_view (seqs sch h)"
proof -
  show "swapped_out sch' = swapped_out sch" "max_num_seqs sch' = max_num_seqs sch"
    "block_size sch' = block_size sch" "terminate_all sch' = terminate_all sch"
    using assms by (simp_all add: frame_def)
  have "(seqs sch' h)\<lparr>state := Waiting\<rparr> = (seqs sch h)\<lparr>state := Waiting\<rparr>"
    using assms by (auto simp: frame_def fun_eq_iff)
  note eq = arg_cong [OF this, of tokens] arg_cong [OF this, of timestamp] arg_cong [OF this, of seq_id]
    arg_cong [OF this, of seq_metadata]
  show "tokens (seqs sch' h) = tokens (seqs sch h)" "timestamp (seqs sch' h) = timestamp (seqs sch h)"
    "bes_view (seqs sch' h) = bes_view (seqs sch h)"
    using eq by (simp_all add: bes_view_def)
qed

lemma core_preempt:
  assumes c: "core bs ngpu ncpu sch (waiting sch) A B" and h: "h \<in> set A"
  shows "\<exists>sch'. preempt h sch = Ok sch' \<and> core bs ngpu ncpu sch' (waiting sch') (remove1 h A) B
    \<and> waiting sch' = h # waiting sch \<and> running sch' = running sch \<and> frame sch' = frame sch"
proof -
  have c': "core bs ngpu ncpu (put_state h Waiting sch) (waiting sch) A B" using c by simp
  from core_free [OF this h] obtain e where
    e: "sched_free h (put_state h Waiting sch) = Ok ((put_state h Waiting sch)\<lparr>engine := e\<rparr>)"
    "core bs ngpu ncpu ((put_state h Waiting sch)\<lparr>engine := e\<rparr>) (waiting sch) (remove1 h A) B" by blast
  let ?s = "(put_state h Waiting sch)\<lparr>engine := e\<rparr>"
  have gs: "good_seq bs h (seqs sch h)" using core_seq [OF c] h by blast
  have "good_seq bs h (seqs ?s h)" using gs by simp
  moreover have "h \<notin> set (waiting sch @ remove1 h A @ B)" using c h by (auto simp: core_def)
  ultimately have "core bs ngpu ncpu ?s (h # waiting sch) (remove1 h A) B"
    by (rule core_add_waiting [OF e(2)])
  moreover have "seq_id (seqs sch h) = h" using gs by (simp add: good_seq_def)
  ultimately show ?thesis
    using e(1) by (auto simp: preempt_def preempt_by_recompute_def)
qed

lemma make_room_core:
  assumes "core bs ngpu ncpu sch (waiting sch) (h # rev ps) B"
  shows "\<exists>kept ps' dp' sch'. make_room h ps dp sch = Ok (kept, ps', dp', sch')
     \<and> running sch' = running sch \<and> frame sch' = frame sch
     \<and> ((kept \<and> core bs ngpu ncpu sch' (waiting sch') (h # rev ps') B
          \<and> (\<exists>v. bes_view (seqs sch' h) = Ok v \<and> can_append_token_to_seq (engine sch') v)
          \<and> (\<exists>j. ps' = drop j ps \<and> waiting sch' = rev (take j ps) @ waiting sch))
       \<or> (\<not> kept \<and> ps' = [] \<and> core bs ngpu ncpu sch' (waiting sch') [] B
          \<and> waiting sch' = h # rev ps @ waiting sch))"
  using assms
proof (induction ps arbitrary: dp sch)
  case Nil
  obtain v where v: "bes_view (seqs sch h) = Ok v"
    using bes_view_good core_seq [OF Nil.prems] by (metis list.set_intros(1))
  show ?case
  proof (cases "can_append_token_to_seq (engine sch) v")
    case True
    then show ?thesis using v Nil.prems by (auto intro!: exI [of _ 0])
  next
    case False
    from core_preempt [OF Nil.prems, of h] obtain sch' where
      "preempt h sch = Ok sch'" "core bs ngpu ncpu sch' (waiting sch') [] B"
      "waiting sch' = h # waiting sch" "running sch' = running sch" "frame sch' = frame sch" by auto
    then show ?thesis using v False by auto
  qed
next
  case (Cons p ps)
  obtain v where v: "bes_view (seqs sch h) = Ok v"
    using bes_view_good core_seq [OF Cons.prems] by (metis list.set_intros(1))
  show ?case
  proof (cases "can_append_token_to_seq (engine sch) v")
    case True
    then show ?thesis using v Cons.prems by (auto intro!: exI [of _ 0])
  next
    case False
    from core_preempt [OF Cons.prems, of p] obtain sch1 where
      1: "preempt p sch = Ok sch1"
      "core bs ngpu ncpu sch1 (waiting sch1) (remove1 p (h # rev (p # ps))) B"
      "waiting sch1 = p # waiting sch" "running sch1 = running sch" "frame sch1 = frame sch" by auto
    have "distinct (h # rev (p # ps))" using Cons.prems by (simp add: core_def)
    then have "remove1 p (h # rev (p # ps)) = h # rev ps" by (auto simp: remove1_append)
    with 1(2) have "core bs ngpu ncpu sch1 (waiting sch1) (h # rev ps) B" by simp
    from Cons.IH [OF this, of True] obtain kept ps' dp' sch' where
      2: "make_room h ps True sch1 = Ok (kept, ps', dp', sch')" "running sch' = running sch1"
      "frame sch' = frame sch1"
      "(kept \<and> core bs ngpu ncpu sch' (waiting sch') (h # rev ps') B
          \<and> (\<exists>v. bes_view (seqs sch' h) = Ok v \<and> can_append_token_to_seq (engine sch') v)
          \<and> (\<exists>j. ps' = drop j ps \<and> waiting sch' = rev (take j ps) @ waiting sch1))
       \<or> (\<not> kept \<and> ps' = [] \<and> core bs ngpu ncpu sch' (waiting sch') [] B
          \<and> waiting sch' = h # rev ps @ waiting sch1)" by blast
    have step: "make_room h (p # ps) dp sch = Ok (kept, ps', dp', sch')"
      using v False 1(1) 2(1) by simp
    have "ps' = drop j ps \<and> waiting sch' = rev (take j ps) @ waiting sch1 \<Longrightarrow>
        ps' = drop (Suc j) (p # ps) \<and> waiting sch' = rev (take (Suc j) (p # ps)) @ waiting sch" for j
      using 1(3) by simp
    moreover have "h # rev ps @ waiting sch1 = h # rev (p # ps) @ waiting sch" using 1(3) by simp
    ultimately show ?thesis using step 1(4,5) 2(2-4) by metis
  qed
qed

lemma drop_take_split: "drop k (take m xs) @ drop m xs = drop (min k m) xs"
proof (cases "k \<le> m")
  case True
  then have "drop m xs = drop (m - k) (drop k xs)" by simp
  with True show ?thesis by (simp add: drop_take min_def del: drop_drop)
next
  case False
  then show ?thesis by simp
qed

lemma run_loop_core:
  assumes "core bs ngpu ncpu sch (waiting sch) rest kept"
  shows "\<exists>k dp' sch'. run_loop rest kept dp copies sch = Ok (kept @ take k rest, dp', copies, sch')
     \<and> core bs ngpu ncpu sch' (waiting sch') [] (kept @ take k rest)
     \<and> waiting sch' = drop k rest @ waiting sch \<and> running sch' = running sch \<and> frame sch' = frame sch"
  using assms
proof (induction "length rest" arbitrary: rest kept dp sch rule: less_induct)
  case less
  show ?case
  proof (cases rest)
    case Nil
    with less.prems show ?thesis by auto
  next
    case (Cons h hs)
    then have "core bs ngpu ncpu sch (waiting sch) (h # rev (rev hs)) kept" using less.prems by simp
    from make_room_core [OF this, of dp] obtain runs ps' dp1 sch1 where
      1: "make_room h (rev hs) dp sch = Ok (runs, ps', dp1, sch1)" "running sch1 = running sch"
      "frame sch1 = frame sch"
      "(runs \<and> core bs ngpu ncpu sch1 (waiting sch1) (h # rev ps') kept
          \<and> (\<exists>v. bes_view (seqs sch1 h) = Ok v \<and> can_append_token_to_seq (engine sch1) v)
          \<and> (\<exists>j. ps' = drop j (rev hs) \<and> waiting sch1 = rev (take j (rev hs)) @ waiting sch))
       \<or> (\<not> runs \<and> ps' = [] \<and> core bs ngpu ncpu sch1 (waiting sch1) [] kept
          \<and> waiting sch1 = h # rev (rev hs) @ waiting sch)" by blast
    from 1(4) show ?thesis
    proof (elim disjE conjE exE)
      assume f: "\<not> runs" and w: "ps' = []" "core bs ngpu ncpu sch1 (waiting sch1) [] kept"
        "waiting sch1 = h # rev (rev hs) @ waiting sch"
      have "run_loop rest kept dp copies sch = Ok (kept @ take 0 rest, dp1, copies, sch1)"
        using 1(1) f w(1) Cons by simp
      moreover have "waiting sch1 = drop 0 rest @ waiting sch" using w(3) Cons by simp
      ultimately show ?thesis using w(2) 1(2,3) by (metis append_Nil2 take_0)
    next
      fix v j
      assume runs and 2: "core bs ngpu ncpu sch1 (waiting sch1) (h # rev ps') kept"
        "bes_view (seqs sch1 h) = Ok v" "can_append_token_to_seq (engine sch1) v"
        "ps' = drop j (rev hs)" "waiting sch1 = rev (take j (rev hs)) @ waiting sch"
      let ?m = "length hs - j"
      have ps': "rev ps' = take ?m hs" "waiting sch1 = drop ?m hs @ waiting sch"
        using 2(4,5) by (simp_all add: rev_drop rev_take)
      from core_append [OF 2(1-3), of copies] obtain e where
        e: "append_slot h copies sch1 = Ok (copies, sch1\<lparr>engine := e\<rparr>)"
        "core bs ngpu ncpu (sch1\<lparr>engine := e\<rparr>) (waiting sch1) (rev ps') (kept @ [h])" by blast
      let ?s = "sch1\<lparr>engine := e\<rparr>"
      have "length (rev ps') < length rest" using make_room_shorter [OF 1(1)] Cons by simp
      moreover have "core bs ngpu ncpu ?s (waiting ?s) (rev ps') (kept @ [h])" using e(2) by simp
      ultimately obtain k dp' sch' where
        3: "run_loop (rev ps') (kept @ [h]) dp1 copies ?s = Ok ((kept @ [h]) @ take k (rev ps'), dp', copies, sch')"
        "core bs ngpu ncpu sch' (waiting sch') [] ((kept @ [h]) @ take k (rev ps'))"
        "waiting sch' = drop k (rev ps') @ waiting ?s" "running sch' = running ?s" "frame sch' = frame ?s"
        using less.hyps by blast
      have step: "run_loop rest kept dp copies sch = Ok ((kept @ [h]) @ take k (rev ps'), dp', copies, sch')"
        using 1(1) e(1) 3(1) \<open>runs\<close> Cons by simp
      let ?k = "Suc (min k ?m)"
      have take: "(kept @ [h]) @ take k (rev ps') = kept @ take ?k rest" using Cons ps'(1) by simp
      have "waiting sch' = drop ?k rest @ waiting sch"
        using 3(3) ps' drop_take_split [of k ?m hs] Cons by (simp flip: append_assoc)
      then show ?thesis
        using step 3(2,4,5) 1(2,3) unfolding take
        by (intro exI [of _ ?k] exI [of _ dp'] exI [of _ sch']) simp
    qed
  qed
qed

lemma good_not_impossible: "be_good ngpu ncpu e \<Longrightarrow> can_allocate e v \<noteq> AllocImpossible"
  using be_inv_counts [of e] by (auto simp: be_good_def can_allocate_def Let_def)

lemma admit_loop_core:
  assumes "core bs ngpu ncpu sch ws A adm" and "waiting sch = ws" and "running sch = A @ adm"
  shows "\<exists>k sch'. admit_loop ws adm False sch = Ok (adm @ take k ws, False, sch')
     \<and> core bs ngpu ncpu sch' (drop k ws) A (adm @ take k ws) \<and> waiting sch' = drop k ws
     \<and> running sch' = A @ adm @ take k ws \<and> frame sch' = frame sch
     \<and> (length (running sch) < max_num_seqs sch \<longrightarrow> length (running sch') < max_num_seqs sch)"
  using assms
proof (induction ws arbitrary: adm sch)
  case Nil
  then show ?case by (intro exI [of _ 0] exI [of _ sch]) simp
next
  case (Cons h ws)
  have stop: ?case if "admit_loop (h # ws) adm False sch = Ok (adm, False, sch)"
    using that Cons.prems by (intro exI [of _ 0] exI [of _ sch]) simp
  have gs: "good_seq bs h (seqs sch h)" by (rule core_seq [OF Cons.prems(1)]) simp
  obtain v where v: "bes_view (seqs sch h) = Ok v" using bes_view_good [OF gs] by blast
  show ?case
  proof (cases "max_num_seqs sch = length (running sch) + 1 \<or> can_allocate (engine sch) v = AllocLater")
    case True
    then show ?thesis by (intro stop) (use v in auto)
  next
    case False
    then have full: "max_num_seqs sch \<noteq> length (running sch) + 1" by simp
    have ok: "can_allocate (engine sch) v = AllocOk"
      using False good_not_impossible Cons.prems(1) by (cases "can_allocate (engine sch) v") (auto simp: core_def)
    let ?p = "put_state h RunningPrompt sch"
    have "core bs ngpu ncpu ?p (h # ws) A adm" using Cons.prems(1) by simp
    from core_allocate [OF this, of v] v ok obtain e where
      e: "sched_allocate h ?p = Ok (?p\<lparr>engine := e\<rparr>)"
      "core bs ngpu ncpu (?p\<lparr>engine := e\<rparr>) ws A (adm @ [h])" by auto
    let ?s = "(?p\<lparr>engine := e\<rparr>)\<lparr>waiting := ws, running := running sch @ [h]\<rparr>"
    have "core bs ngpu ncpu ?s ws A (adm @ [h])" using e(2) by simp
    moreover have "waiting ?s = ws" "running ?s = A @ (adm @ [h])" using Cons.prems(3) by simp_all
    ultimately obtain k sch' where
      1: "admit_loop ws (adm @ [h]) False ?s = Ok ((adm @ [h]) @ take k ws, False, sch')"
      "core bs ngpu ncpu sch' (drop k ws) A ((adm @ [h]) @ take k ws)" "waiting sch' = drop k ws"
      "running sch' = A @ (adm @ [h]) @ take k ws" "frame sch' = frame ?s"
      "length (running ?s) < max_num_seqs ?s \<longrightarrow> length (running sch') < max_num_seqs ?s"
      using Cons.IH [of ?s "adm @ [h]"] by blast
    have "admit_loop (h # ws) adm False sch = Ok (adm @ take (Suc k) (h # ws), False, sch')"
      using full v ok e(1) 1(1) by (simp add: Let_def)
    then show ?thesis
      using 1(2-6) full by (intro exI [of _ "Suc k"] exI [of _ sch']) auto
  qed
qed

section \<open>The invariant of the scheduler\<close>

definition sched_inv :: "nat \<Rightarrow> nat \<Rightarrow> nat \<Rightarrow> 'f paged_scheduler \<Rightarrow> bool" where
  "sched_inv bs ngpu ncpu sch \<longleftrightarrow>
     core bs ngpu ncpu sch (waiting sch) (running sch) [] \<and> swapped_out sch = []"

text \<open>What a step promises: whose turn it is, and that their tables cover their tokens.\<close>

definition covered :: "nat \<Rightarrow> 'f paged_scheduler \<Rightarrow> nat \<Rightarrow> bool" where
  "covered bs sch h \<longleftrightarrow> (\<exists>t. block_tables (engine sch) h = Some t
     \<and> length t = length (tokens (seqs sch h)) div bs + 1)"

lemma put_states_simps [simp]:
  "engine (put_states hs st sch) = engine sch" "waiting (put_states hs st sch) = waiting sch"
  "running (put_states hs st sch) = running sch" "swapped_out (put_states hs st sch) = swapped_out sch"
  "max_num_seqs (put_states hs st sch) = max_num_seqs sch"
  "terminate_all (put_states hs st sch) = terminate_all sch"
  "tokens (seqs (put_states hs st sch) g) = tokens (seqs sch g)"
  "timestamp (seqs (put_states hs st sch) g) = timestamp (seqs sch g)"
  "core bs ngpu ncpu (put_states hs st sch) W A B = core bs ngpu ncpu sch W A B"
  unfolding put_states_def by (induction hs arbitrary: sch) simp_all

lemma sort_by_priority_fcfs_Nil [simp]: "sort_by_priority_fcfs st [] = []"
  by (simp add: sort_by_priority_fcfs_def)

lemma schedule_running_core:
  assumes c: "core bs ngpu ncpu sch (waiting sch) (running sch) []" and sw: "swapped_out sch = []"
  shows "\<exists>k sch' out. schedule_running sch = Ok (out, sch')
     \<and> (let q = sort_by_priority_fcfs (seqs sch) (running sch)
        in scheduled out = take k q \<and> running sch' = take k q \<and> waiting sch' = drop k q @ waiting sch)
     \<and> blocks_to_swap_in out = Map.empty \<and> blocks_to_swap_out out = Map.empty \<and> blocks_to_copy out = Map.empty
     \<and> core bs ngpu ncpu sch' (waiting sch') [] (running sch') \<and> swapped_out sch' = []
     \<and> max_num_seqs sch' = max_num_seqs sch
     \<and> (\<forall>g. tokens (seqs sch' g) = tokens (seqs sch g) \<and> timestamp (seqs sch' g) = timestamp (seqs sch g))"
proof -
  let ?q = "sort_by_priority_fcfs (seqs sch) (running sch)"
  have "mset ?q = mset (running sch)" by (simp add: sort_by_priority_fcfs_def)
  then have "core bs ngpu ncpu sch (waiting sch) ?q []" by (rule core_perm [OF c])
  from run_loop_core [OF this, of False Map.empty] obtain k dp sch1 where
    1: "run_loop ?q [] False Map.empty sch = Ok (take k ?q, dp, Map.empty, sch1)"
    "core bs ngpu ncpu sch1 (waiting sch1) [] (take k ?q)" "waiting sch1 = drop k ?q @ waiting sch"
    "frame sch1 = frame sch" by auto
  note fr = frameD [OF 1(4)]
  have sw1: "swapped_out sch1 = []" using fr(1) sw by simp
  let ?s2 = "sch1\<lparr>running := take k ?q, swapped_out := []\<rparr>"
  let ?s3 = "put_states (take k ?q) RunningCompletion ?s2"
  let ?s4 = "if terminate_all ?s3 then (put_states (take k ?q) (Done Canceled) ?s3)\<lparr>terminate_all := False\<rparr> else ?s3"
  have "schedule_running sch = Ok (\<lparr>scheduled = take k ?q, blocks_to_swap_in = Map.empty,
      blocks_to_swap_out = Map.empty, blocks_to_copy = Map.empty\<rparr>, ?s4)"
    by (simp add: schedule_running_def 1(1) sw1 Let_def)
  moreover have "core bs ngpu ncpu ?s4 (waiting sch1) [] (take k ?q)" using 1(2) by simp
  moreover have "waiting ?s4 = waiting sch1" "running ?s4 = take k ?q" "swapped_out ?s4 = []"
    "max_num_seqs ?s4 = max_num_seqs sch" using fr(2) by simp_all
  moreover have "tokens (seqs ?s4 g) = tokens (seqs sch g)" "timestamp (seqs ?s4 g) = timestamp (seqs sch g)" for g
    using fr(5,6) by simp_all
  ultimately show ?thesis
    unfolding Let_def using 1(3) by (intro exI conjI) (assumption | simp only: paged_output.simps | simp)+
qed

lemma mset_drop_take: "mset (drop k xs) + mset (take k xs) = mset xs"
  by (metis append_take_drop_id mset_append union_commute)

lemma schedule_core:
  assumes "sched_inv bs ngpu ncpu sch"
  obtains out sch' A where "schedule sch = Ok (out, sch')"
    "core bs ngpu ncpu sch' (waiting sch') A (scheduled out)" "swapped_out sch' = []"
    "mset (running sch') = mset (A @ scheduled out)"
    "mset (waiting sch' @ running sch') = mset (waiting sch @ running sch)"
    "blocks_to_swap_in out = Map.empty" "blocks_to_swap_out out = Map.empty" "blocks_to_copy out = Map.empty"
    "max_num_seqs sch' = max_num_seqs sch"
    "length (running sch) < max_num_seqs sch \<longrightarrow> length (running sch') < max_num_seqs sch"
    "\<And>g. tokens (seqs sch' g) = tokens (seqs sch g)"
proof -
  have c: "core bs ngpu ncpu sch (waiting sch) (running sch) []" and sw: "swapped_out sch = []"
    using assms by (simp_all add: sched_inv_def)
  obtain k sch1 where 1: "admit_loop (waiting sch) [] False sch = Ok (take k (waiting sch), False, sch1)"
    "core bs ngpu ncpu sch1 (drop k (waiting sch)) (running sch) (take k (waiting sch))"
    "waiting sch1 = drop k (waiting sch)" "running sch1 = running sch @ take k (waiting sch)"
    "frame sch1 = frame sch"
    "length (running sch) < max_num_seqs sch \<longrightarrow> length (running sch1) < max_num_seqs sch"
    using admit_loop_core [OF c] by auto
  note fr = frameD [OF 1(5)]
  show thesis
  proof (cases "take k (waiting sch) = []")
    case False
    show thesis
    proof (rule that)
      show "schedule sch = Ok (\<lparr>scheduled = take k (waiting sch), blocks_to_swap_in = Map.empty,
          blocks_to_swap_out = Map.empty, blocks_to_copy = Map.empty\<rparr>, sch1)"
        using 1(1) sw False by (simp add: schedule_def)
      show "mset (waiting sch1 @ running sch1) = mset (waiting sch @ running sch)"
        using mset_drop_take [of k "waiting sch"] 1(3,4) by (simp add: ac_simps)
    qed (use 1 sw fr in simp_all)
  next
    case True
    have c1: "core bs ngpu ncpu sch1 (waiting sch1) (running sch1) []" "waiting sch1 = waiting sch"
      "running sch1 = running sch" "swapped_out sch1 = []"
      using 1(2-4) True fr(1) sw by (auto simp: take_eq_Nil)
    from schedule_running_core [OF c1(1,4)] obtain j sch' out where
      2: "schedule_running sch1 = Ok (out, sch')"
      "scheduled out = take j (sort_by_priority_fcfs (seqs sch1) (running sch1))"
      "running sch' = scheduled out"
      "waiting sch' = drop j (sort_by_priority_fcfs (seqs sch1) (running sch1)) @ waiting sch1"
      "blocks_to_swap_in out = Map.empty" "blocks_to_swap_out out = Map.empty" "blocks_to_copy out = Map.empty"
      "core bs ngpu ncpu sch' (waiting sch') [] (running sch')" "swapped_out sch' = []"
      "max_num_seqs sch' = max_num_seqs sch1" "\<And>g. tokens (seqs sch' g) = tokens (seqs sch1 g)"
      by (auto simp: Let_def)
    let ?q = "sort_by_priority_fcfs (seqs sch1) (running sch1)"
    have q: "mset ?q = mset (running sch)" "length ?q = length (running sch)"
      using c1(3) by (simp_all add: sort_by_priority_fcfs_def)
    show thesis
    proof (rule that)
      show "schedule sch = Ok (out, sch')" using 1(1) sw True 2(1) by (simp add: schedule_def)
      show "core bs ngpu ncpu sch' (waiting sch') [] (scheduled out)" using 2(3,8) by simp
      show "mset (waiting sch' @ running sch') = mset (waiting sch @ running sch)"
        using 2(2-4) c1(2) q(1) mset_drop_take [of j ?q] by (simp add: ac_simps)
      show "length (running sch) < max_num_seqs sch \<longrightarrow> length (running sch') < max_num_seqs sch"
        using 2(2,3) q(2) by auto
    qed (use 2 fr in simp_all)
  qed
qed

section \<open>Scheduling, running, freeing\<close>

text \<open>
  Between two scheduling steps the engine runs the scheduled sequences: each gets the token
  that was sampled for it and may be done; then the finished ones are freed.
\<close>

type_synonym 'f run_result = "'f logprobs \<times> byte list \<times> stop_reason option"

definition run_one :: "(nat \<Rightarrow> 'f::plus run_result) \<Rightarrow> nat \<Rightarrow> 'f paged_scheduler \<Rightarrow> 'f paged_scheduler res" where
  "run_one f h sch =
     (case f h of (tok, bytes, d) \<Rightarrow>
        rbind (add_token tok bytes d (seqs sch h)) (\<lambda>s.
        Ok (sch\<lparr>seqs := (seqs sch)(h := (case d of None \<Rightarrow> s | Some r \<Rightarrow> s\<lparr>state := Done r\<rparr>))\<rparr>)))"

inductive paged_reachable :: "nat \<Rightarrow> nat \<Rightarrow> nat \<Rightarrow> nat \<Rightarrow> 'f::plus paged_scheduler \<Rightarrow> bool"
    for mx bs ngpu ncpu where
  pr_new: "paged_reachable mx bs ngpu ncpu (paged_scheduler_new mx bs ngpu ncpu st)"
| pr_add: "paged_reachable mx bs ngpu ncpu sch \<Longrightarrow> h \<notin> set (waiting sch @ running sch) \<Longrightarrow>
     good_seq bs h s \<Longrightarrow> paged_reachable mx bs ngpu ncpu (add_seq h s sch)"
| pr_terminate: "paged_reachable mx bs ngpu ncpu sch \<Longrightarrow>
     paged_reachable mx bs ngpu ncpu (sch\<lparr>terminate_all := True\<rparr>)"
| pr_step: "paged_reachable mx bs ngpu ncpu sch \<Longrightarrow> schedule sch = Ok (out, sch1) \<Longrightarrow>
     rfold (run_one f) (scheduled out) sch1 = Ok sch2 \<Longrightarrow>
     free_finished_sequence_groups sch2 = Ok sch3 \<Longrightarrow> paged_reachable mx bs ngpu ncpu sch3"

lemma run_one_core:
  assumes c: "core bs ngpu ncpu sch W A (h # B)"
  shows "\<exists>st. run_one f h sch = Ok (sch\<lparr>seqs := st\<rparr>) \<and> core bs ngpu ncpu (sch\<lparr>seqs := st\<rparr>) W (A @ [h]) B"
proof -
  obtain tok bytes d where f: "f h = (tok, bytes, d)" by (cases "f h")
  have gs: "good_seq bs h (seqs sch h)" by (rule core_seq [OF c]) simp
  then have "seq_wf (seqs sch h)" by (simp add: good_seq_def)
  from append_one_to_metadata [OF this [unfolded seq_wf_def], of "lp_token tok"] obtain m where
    m: "append_token_to_blocks (seq_metadata (seqs sch h)) (lp_token tok) = Ok m"
    "blocks_agree m (tokens (seqs sch h) @ [lp_token tok])" by blast
  from gs obtain bl where "seq_metadata (seqs sch h) = PagedAttention bl bs" by (auto simp: good_seq_def)
  with m(1) have m_bs: "\<exists>bl. m = PagedAttention bl bs" by (auto simp: res_simps)
  obtain s where s: "add_token tok bytes d (seqs sch h) = Ok s"
    using m(1) by (simp add: add_token_def)
  have s_eqs: "seq_id s = h" "tokens s = tokens (seqs sch h) @ [lp_token tok]" "seq_metadata s = m"
    using s m(1) gs by (auto simp: add_token_def reset_prefill_toks_def good_seq_def)
  let ?s = "case d of None \<Rightarrow> s | Some r \<Rightarrow> s\<lparr>state := Done r\<rparr>"
  let ?st = "(seqs sch)(h := ?s)"
  have good: "good_seq bs h ?s" "tokens ?s = tokens (seqs sch h) @ [lp_token tok]"
    using s_eqs m(2) m_bs by (auto simp: good_seq_def seq_wf_def split: option.splits)
  have "core bs ngpu ncpu (sch\<lparr>seqs := ?st\<rparr>) W (A @ [h]) B"
    using c good unfolding core_def table_len_def by (auto simp del: fun_upd_apply simp: fun_upd_def)
  then show ?thesis using s f by (auto simp: run_one_def)
qed

lemma run_all_core:
  assumes "core bs ngpu ncpu sch W A B"
  shows "\<exists>st. rfold (run_one f) B sch = Ok (sch\<lparr>seqs := st\<rparr>) \<and> core bs ngpu ncpu (sch\<lparr>seqs := st\<rparr>) W (A @ B) []"
  using assms
proof (induction B arbitrary: sch A)
  case Nil
  then show ?case by (auto intro!: exI [of _ "seqs sch"])
next
  case (Cons h B)
  obtain st where st: "run_one f h sch = Ok (sch\<lparr>seqs := st\<rparr>)"
    "core bs ngpu ncpu (sch\<lparr>seqs := st\<rparr>) W (A @ [h]) B"
    using run_one_core [OF Cons.prems] by blast
  from Cons.IH [OF st(2)] st(1) show ?case by auto
qed

lemma free_all_core:
  assumes "core bs ngpu ncpu sch W A []" and "distinct hs" and "set hs \<subseteq> set A"
  shows "\<exists>e. rfold sched_free hs sch = Ok (sch\<lparr>engine := e\<rparr>)
    \<and> core bs ngpu ncpu (sch\<lparr>engine := e\<rparr>) W (filter (\<lambda>h. h \<notin> set hs) A) []"
  using assms
proof (induction hs arbitrary: sch A)
  case Nil
  then show ?case by (auto intro!: exI [of _ "engine sch"])
next
  case (Cons h hs)
  from core_free [OF Cons.prems(1), of h] Cons.prems(3) obtain e where
    e: "sched_free h sch = Ok (sch\<lparr>engine := e\<rparr>)"
    "core bs ngpu ncpu (sch\<lparr>engine := e\<rparr>) W (remove1 h A) []" by auto
  have "distinct A" using Cons.prems(1) by (simp add: core_def)
  then have rem: "remove1 h A = filter (\<lambda>x. x \<noteq> h) A" 
    by (simp add: distinct_remove1_removeAll removeAll_filter_not_eq eq_commute)
  have "set hs \<subseteq> set (remove1 h A)" using Cons.prems(2,3) unfolding rem by auto
  from Cons.IH [OF e(2) _ this] Cons.prems(2) e(1) show ?case by (auto simp: rem conj_commute)
qed

lemma free_finished_core:
  assumes c: "core bs ngpu ncpu sch W A []" and m: "mset (running sch) = mset A"
  shows "\<exists>sch'. free_finished_sequence_groups sch = Ok sch'
    \<and> core bs ngpu ncpu sch' W (running sch') [] \<and> waiting sch' = waiting sch
    \<and> running sch' = filter (\<lambda>h. \<not> is_finished_paged_attn (seqs sch h)) (running sch)
    \<and> swapped_out sch' = swapped_out sch \<and> max_num_seqs sch' = max_num_seqs sch \<and> seqs sch' = seqs sch"
proof -
  let ?fin = "\<lambda>h. is_finished_paged_attn (seqs sch h)"
  let ?r = "filter (\<lambda>h. \<not> ?fin h) (running sch)"
  let ?s = "sch\<lparr>running := ?r\<rparr>"
  have c': "core bs ngpu ncpu ?s W (running sch) []" using core_perm [OF c m] by simp
  then have d: "distinct (running sch)" by (simp add: core_def)
  have ids: "map (\<lambda>h. seq_id (seqs sch h)) (filter ?fin (running sch)) = filter ?fin (running sch)"
    using c' by (intro map_idI) (auto simp: core_def good_seq_def)
  have "distinct (filter ?fin (running sch))" "set (filter ?fin (running sch)) \<subseteq> set (running sch)"
    using d by auto
  from free_all_core [OF c' this] obtain e where
    e: "rfold sched_free (filter ?fin (running sch)) ?s = Ok (?s\<lparr>engine := e\<rparr>)"
    "core bs ngpu ncpu (?s\<lparr>engine := e\<rparr>) W (filter (\<lambda>h. h \<notin> set (filter ?fin (running sch))) (running sch)) []"
    by blast
  have "filter (\<lambda>h. h \<notin> set (filter ?fin (running sch))) (running sch) = ?r"
    by (rule filter_cong) auto
  with e show ?thesis by (auto simp: free_finished_sequence_groups_def Let_def ids)
qed

lemma paged_reachable_inv:
  assumes "paged_reachable mx bs ngpu ncpu sch"
  shows "sched_inv bs ngpu ncpu sch \<and> max_num_seqs sch = mx
     \<and> (0 < mx \<longrightarrow> length (running sch) < mx)"
  using assms
proof (induction rule: paged_reachable.induct)
  case (pr_new st)
  show ?case
    using be_reachable_good [OF reach_new [of bs ngpu ncpu]]
    by (simp add: sched_inv_def core_def paged_scheduler_new_def block_engine_new_def)
next
  case (pr_add sch h s)
  have c: "core bs ngpu ncpu sch (waiting sch) (running sch) []" using pr_add.IH by (simp add: sched_inv_def)
  have "core bs ngpu ncpu (add_seq h s sch) (waiting sch @ [h]) (running sch) []"
    using c pr_add.hyps(2,3) unfolding core_def by (auto simp: add_seq_def table_len_def)
  then show ?case using pr_add.IH by (simp add: sched_inv_def add_seq_def)
next
  case (pr_terminate sch)
  then show ?case by (simp add: sched_inv_def)
next
  case (pr_step sch out sch1 f sch2 sch3)
  have inv: "sched_inv bs ngpu ncpu sch" using pr_step.IH by simp
  obtain A where 1: "core bs ngpu ncpu sch1 (waiting sch1) A (scheduled out)" "swapped_out sch1 = []"
    "mset (running sch1) = mset (A @ scheduled out)" "max_num_seqs sch1 = max_num_seqs sch"
    "length (running sch) < max_num_seqs sch \<longrightarrow> length (running sch1) < max_num_seqs sch"
    using schedule_core [OF inv] pr_step.hyps(2) by (metis Inr_inject Pair_inject)
  obtain st where st: "sch2 = sch1\<lparr>seqs := st\<rparr>" "core bs ngpu ncpu sch2 (waiting sch1) (A @ scheduled out) []"
    using run_all_core [OF 1(1), of f] pr_step.hyps(3) by auto
  have "mset (running sch2) = mset (A @ scheduled out)" using st(1) 1(3) by simp
  from free_finished_core [OF st(2) this] pr_step.hyps(4)
  have 3: "core bs ngpu ncpu sch3 (waiting sch1) (running sch3) []" "waiting sch3 = waiting sch2"
    "running sch3 = filter (\<lambda>h. \<not> is_finished_paged_attn (seqs sch2 h)) (running sch2)"
    "swapped_out sch3 = swapped_out sch2" "max_num_seqs sch3 = max_num_seqs sch2" by auto
  have len: "length (running sch3) \<le> length (running sch1)" using 3(3) st(1) by simp
  have "sched_inv bs ngpu ncpu sch3 \<and> max_num_seqs sch3 = mx"
    using 3(1,2,4,5) st(1) 1(2,4) pr_step.IH by (simp add: sched_inv_def)
  moreover have "0 < mx \<longrightarrow> length (running sch3) < mx"
    using len 1(5) pr_step.IH by auto
  ultimately show ?case by blast
qed

section \<open>The paged scheduler is a scheduler\<close>

definition held_paged :: "'f paged_scheduler \<Rightarrow> nat multiset" where
  "held_paged sch = mset (waiting sch @ running sch)"

definition ready_paged :: "nat \<Rightarrow> nat \<Rightarrow> nat \<Rightarrow> 'f paged_scheduler \<Rightarrow> bool" where
  "ready_paged bs ngpu ncpu sch = sched_inv bs ngpu ncpu sch"

definition busy_paged :: "nat \<Rightarrow> nat \<Rightarrow> nat \<Rightarrow> paged_output \<Rightarrow> 'f paged_scheduler \<Rightarrow> bool" where
  "busy_paged bs ngpu ncpu out sch \<longleftrightarrow> swapped_out sch = [] \<and> (\<exists>A. core bs ngpu ncpu sch (waiting sch) A (scheduled out)
     \<and> mset (running sch) = mset (A @ scheduled out))"

definition ran_paged :: "nat \<Rightarrow> nat \<Rightarrow> nat \<Rightarrow> 'f paged_scheduler \<Rightarrow> bool" where
  "ran_paged bs ngpu ncpu sch \<longleftrightarrow> swapped_out sch = [] \<and> core bs ngpu ncpu sch (waiting sch) (running sch) []"

interpretation paged: scheduler "\<lambda>(h, s). add_seq h s" schedule
    "\<lambda>f out. rfold (run_one f) (scheduled out)" free_finished_sequence_groups fst held_paged scheduled
    "ready_paged bs ngpu ncpu" "busy_paged bs ngpu ncpu" "ran_paged bs ngpu ncpu"
    "\<lambda>(h, s) sch. h \<notin> set (waiting sch @ running sch) \<and> good_seq bs h s" "\<lambda>_. True"
  for bs ngpu ncpu :: nat
proof (unfold_locales, goal_cases)
  case (1 sch q)
  obtain h s where q: "q = (h, s)" by (cases q)
  have "core bs ngpu ncpu sch (waiting sch) (running sch) []" using 1(1) by (simp add: ready_paged_def sched_inv_def)
  then have "core bs ngpu ncpu (add_seq h s sch) (waiting sch @ [h]) (running sch) []"
    using 1(2) q unfolding core_def by (auto simp: add_seq_def table_len_def)
  then show ?case using 1(1) q by (simp add: ready_paged_def sched_inv_def held_paged_def add_seq_def)
next
  case (2 sch)
  then have "sched_inv bs ngpu ncpu sch" by (simp add: ready_paged_def)
  then obtain out sch' A where s: "schedule sch = Ok (out, sch')"
    "core bs ngpu ncpu sch' (waiting sch') A (scheduled out)" "swapped_out sch' = []"
    "mset (running sch') = mset (A @ scheduled out)"
    "mset (waiting sch' @ running sch') = mset (waiting sch @ running sch)"
    using schedule_core by metis
  then have "busy_paged bs ngpu ncpu out sch'" by (auto simp: busy_paged_def)
  moreover have "mset (scheduled out) \<subseteq># held_paged sch'"
    using s(4) by (simp add: held_paged_def subset_mset.add_increasing)
  ultimately show ?case using s(1,5) by (auto simp: held_paged_def)
next
  case (3 out sch f)
  then obtain A where c: "core bs ngpu ncpu sch (waiting sch) A (scheduled out)" "swapped_out sch = []"
    "mset (running sch) = mset (A @ scheduled out)" by (auto simp: busy_paged_def)
  obtain st where st: "rfold (run_one f) (scheduled out) sch = Ok (sch\<lparr>seqs := st\<rparr>)"
    "core bs ngpu ncpu (sch\<lparr>seqs := st\<rparr>) (waiting sch) (A @ scheduled out) []"
    using run_all_core [OF c(1), of f] by blast
  have "core bs ngpu ncpu (sch\<lparr>seqs := st\<rparr>) (waiting sch) (running sch) []" by (rule core_perm [OF st(2) c(3)])
  with st(1) c(2) show ?case by (simp add: ran_paged_def held_paged_def)
next
  case (4 sch)
  then have c: "core bs ngpu ncpu sch (waiting sch) (running sch) []" "swapped_out sch = []"
    by (simp_all add: ran_paged_def)
  from free_finished_core [OF c(1) refl] obtain sch' where
    "free_finished_sequence_groups sch = Ok sch'" "core bs ngpu ncpu sch' (waiting sch) (running sch') []"
    "waiting sch' = waiting sch" "running sch' = filter (\<lambda>h. \<not> is_finished_paged_attn (seqs sch h)) (running sch)"
    "swapped_out sch' = swapped_out sch" by blast
  with c(2) show ?case
    by (auto simp: ready_paged_def sched_inv_def held_paged_def multiset_filter_subset)
qed

section \<open>Properties\<close>

text \<open>
  C1. In every reachable state a scheduling step returns, and every sequence it schedules has
  a block table with a block for each of its tokens and for the next one, so the slot of
  every position can be looked up. No block is swapped and none is copied, nothing is
  left in \<^verbatim>\<open>swapped_out\<close>, and no sequence is lost or duplicated.
\<close>

theorem scheduled_sequences_are_covered:
  assumes "paged_reachable mx bs ngpu ncpu sch"
  shows "\<exists>out sch'. schedule sch = Ok (out, sch')
     \<and> (\<forall>h \<in> set (scheduled out). \<exists>t. block_tables (engine sch') h = Some t
          \<and> (\<forall>pos \<le> length (tokens (seqs sch' h)). pos div bs < length t))
     \<and> blocks_to_swap_in out = Map.empty \<and> blocks_to_swap_out out = Map.empty
     \<and> blocks_to_copy out = Map.empty \<and> swapped_out sch' = []
     \<and> mset (waiting sch' @ running sch') = mset (waiting sch @ running sch)
     \<and> distinct (waiting sch' @ running sch')"
proof -
  have inv: "sched_inv bs ngpu ncpu sch" using paged_reachable_inv [OF assms] by blast
  obtain out sch' A where s: "schedule sch = Ok (out, sch')"
    "core bs ngpu ncpu sch' (waiting sch') A (scheduled out)" "swapped_out sch' = []"
    "mset (waiting sch' @ running sch') = mset (waiting sch @ running sch)"
    "blocks_to_swap_in out = Map.empty" "blocks_to_swap_out out = Map.empty" "blocks_to_copy out = Map.empty"
    using schedule_core [OF inv] by metis
  have cov: "\<exists>t. block_tables (engine sch') h = Some t
      \<and> (\<forall>pos \<le> length (tokens (seqs sch' h)). pos div bs < length t)" if "h \<in> set (scheduled out)" for h
  proof -
    have "h \<in> dom (block_tables (engine sch'))"
      "table_len sch' h = length (tokens (seqs sch' h)) div bs + 1"
      using s(2) that by (auto simp: core_def)
    then show ?thesis by (auto simp: table_len_def div_le_mono less_Suc_eq_le)
  qed
  have "distinct (waiting sch @ running sch)" using inv by (auto simp: sched_inv_def core_def)
  then have dist: "distinct (waiting sch' @ running sch')" by (metis mset_eq_imp_distinct_iff s(4))
  show ?thesis
    by (intro exI [of _ out] exI [of _ sch'] conjI ballI) (rule s cov dist | assumption)+
qed

text \<open>
  When running sequences compete for blocks, those that lose their blocks are the ones
  with the earliest timestamps: the step keeps a prefix of the queue sorted by falling
  timestamp and sends the rest back to the front of the waiting queue, newest first. (The comments
  call this first come, first served.)
\<close>

theorem preemption_hits_the_oldest:
  assumes "sched_inv bs ngpu ncpu sch"
  shows "\<exists>out sch' kept lost. schedule_running sch = Ok (out, sch')
     \<and> mset (kept @ lost) = mset (running sch)
     \<and> scheduled out = kept \<and> running sch' = kept \<and> waiting sch' = lost @ waiting sch
     \<and> (\<forall>a \<in> set kept. \<forall>b \<in> set lost. timestamp (seqs sch b) \<le> timestamp (seqs sch a))"
proof -
  have c: "core bs ngpu ncpu sch (waiting sch) (running sch) []" and sw: "swapped_out sch = []"
    using assms by (simp_all add: sched_inv_def)
  let ?q = "sort_by_priority_fcfs (seqs sch) (running sch)"
  obtain k sch' out where s: "schedule_running sch = Ok (out, sch')" "scheduled out = take k ?q"
    "running sch' = take k ?q" "waiting sch' = drop k ?q @ waiting sch"
    using schedule_running_core [OF c sw] by (auto simp: Let_def)
  have "sorted (map (\<lambda>h. timestamp (seqs sch h)) (rev ?q))"
    by (simp add: sort_by_priority_fcfs_def)
  then have "sorted_wrt (\<lambda>a b. timestamp (seqs sch b) \<le> timestamp (seqs sch a)) (take k ?q @ drop k ?q)"
    by (simp add: sorted_wrt_map sorted_wrt_rev flip: rev_map)
  then have "\<forall>a \<in> set (take k ?q). \<forall>b \<in> set (drop k ?q). timestamp (seqs sch b) \<le> timestamp (seqs sch a)"
    unfolding sorted_wrt_append by blast
  moreover have "mset (take k ?q @ drop k ?q) = mset (running sch)"
    by (simp add: sort_by_priority_fcfs_def)
  ultimately show ?thesis using s by (intro exI conjI) (assumption | simp)+
qed

text \<open>
  With \<^verbatim>\<open>max_num_seqs\<close> set to \<open>n > 0\<close> at most \<open>n - 1\<close> sequences ever run; with \<open>n = 1\<close> no
  scheduling step ever schedules anything.
\<close>

theorem one_sequence_less_than_configured:
  assumes "paged_reachable mx bs ngpu ncpu sch" and "0 < mx"
  shows "length (running sch) \<le> mx - 1
     \<and> (mx = 1 \<longrightarrow> (\<exists>out sch'. schedule sch = Ok (out, sch') \<and> scheduled out = []))"
proof -
  have inv: "sched_inv bs ngpu ncpu sch" "max_num_seqs sch = mx" "length (running sch) < mx"
    using paged_reachable_inv [OF assms(1)] assms(2) by auto
  have "\<exists>out sch'. schedule sch = Ok (out, sch') \<and> scheduled out = []" if "mx = 1"
  proof -
    obtain out sch' A where s: "schedule sch = Ok (out, sch')" "mset (running sch') = mset (A @ scheduled out)"
      "length (running sch) < max_num_seqs sch \<longrightarrow> length (running sch') < max_num_seqs sch"
      using schedule_core [OF inv(1)] by metis
    then have "running sch' = []" using inv that by simp
    with s show ?thesis by simp
  qed
  then show ?thesis using inv(3) by auto
qed

text \<open>
  C5. The engine loop over the paged scheduler never panics and never leaves its invariant: schedule, run
  the batch, free what is finished, for any number of turns and any results of running.
\<close>

theorem paged_loop_never_panics:
  assumes "sched_inv bs ngpu ncpu sch"
  shows "\<exists>sch'. rfold (\<lambda>f s. rbind (schedule s) (\<lambda>(out, s).
         rbind (rfold (run_one f) (scheduled out) s) free_finished_sequence_groups)) fs sch = Ok sch'
     \<and> sched_inv bs ngpu ncpu sch' \<and> mset (waiting sch' @ running sch') \<subseteq># mset (waiting sch @ running sch)"
  using paged.turns_ok [of bs ngpu ncpu sch fs] assms
  unfolding paged.turn_def ready_paged_def held_paged_def by blast

lemma put_states_state:
  "h \<in> set hs \<or> state (seqs sch h) = st \<Longrightarrow> state (seqs (put_states hs st sch) h) = st"
proof (induction hs arbitrary: sch)
  case (Cons g hs)
  have "h \<in> set hs \<or> state (seqs (put_state g st sch) h) = st"
    using Cons.prems by (auto simp: put_state_def)
  from Cons.IH [OF this] show ?case by (simp add: put_states_def)
qed (simp add: put_states_def)

text \<open>
  A sequence whose sampling failed stays: freeing the finished sequences does not remove
  it, and the next step that runs it makes it a completion again. (The default scheduler
  drops such a sequence.)
\<close>

theorem errored_sequence_runs_again:
  assumes "sched_inv bs ngpu ncpu sch" and "h \<in> set (running sch)" and "state (seqs sch h) = SeqError"
    and "\<not> terminate_all sch"
  shows "(\<exists>sch'. free_finished_sequence_groups sch = Ok sch' \<and> h \<in> set (running sch'))
     \<and> (\<exists>out sch'. schedule_running sch = Ok (out, sch')
          \<and> (h \<in> set (scheduled out) \<longrightarrow> state (seqs sch' h) = RunningCompletion))"
proof
  have c: "core bs ngpu ncpu sch (waiting sch) (running sch) []" and sw: "swapped_out sch = []"
    using assms(1) by (simp_all add: sched_inv_def)
  show "\<exists>sch'. free_finished_sequence_groups sch = Ok sch' \<and> h \<in> set (running sch')"
    using free_finished_core [OF c refl] assms(2,3) by (auto simp: is_finished_paged_attn_def)
  let ?q = "sort_by_priority_fcfs (seqs sch) (running sch)"
  have "mset ?q = mset (running sch)" by (simp add: sort_by_priority_fcfs_def)
  then have "core bs ngpu ncpu sch (waiting sch) ?q []" by (rule core_perm [OF c])
  from run_loop_core [OF this, of False Map.empty] obtain k dp sch1 where
    1: "run_loop ?q [] False Map.empty sch = Ok (take k ?q, dp, Map.empty, sch1)" "frame sch1 = frame sch"
    by auto
  let ?s = "put_states (take k ?q) RunningCompletion (sch1\<lparr>running := take k ?q, swapped_out := []\<rparr>)"
  have "schedule_running sch = Ok (\<lparr>scheduled = take k ?q, blocks_to_swap_in = Map.empty,
      blocks_to_swap_out = Map.empty, blocks_to_copy = Map.empty\<rparr>, ?s)"
    using frameD(1,4) [OF 1(2)] sw assms(4) by (simp add: schedule_running_def 1(1) Let_def)
  then show "\<exists>out sch'. schedule_running sch = Ok (out, sch')
      \<and> (h \<in> set (scheduled out) \<longrightarrow> state (seqs sch' h) = RunningCompletion)"
    by (auto simp: put_states_state)
qed

section \<open>Witnesses\<close>

definition paged_sequence :: "nat \<Rightarrow> nat sequence" where
  "paged_sequence h = plain_sequence\<lparr>seq_id := h, timestamp := h, seq_metadata := PagedAttention
     [\<lparr>ltb_tokens = [5, 6], ltb_block_size = 2, ltb_num_tokens = 2\<rparr>,
      \<lparr>ltb_tokens = [7, 0], ltb_block_size = 2, ltb_num_tokens = 1\<rparr>] 2\<rparr>"

lemma paged_sequence_good: "good_seq 2 h (paged_sequence h)"
  by (simp add: paged_sequence_def good_seq_def seq_wf_def blocks_wf_def ltb_wf_def ltb_is_full_def
      blocks_content_def ltb_content_def)

definition two_waiting :: "nat \<Rightarrow> nat paged_scheduler" where
  "two_waiting mx = add_seq 9 (paged_sequence 9) (add_seq 8 (paged_sequence 8)
     (paged_scheduler_new mx 2 3 0 (\<lambda>_. plain_sequence)))"

lemma two_waiting_reachable: "paged_reachable mx 2 3 0 (two_waiting mx)"
  unfolding two_waiting_def
  by (intro pr_add pr_new paged_sequence_good) (simp_all add: paged_scheduler_new_def add_seq_def)

lemma two_waiting_eqs [simp]:
  "waiting (two_waiting mx) = [8, 9]" "running (two_waiting mx) = []"
  by (simp_all add: two_waiting_def add_seq_def paged_scheduler_new_def)

theorem scheduled_sequences_are_covered_witness:
  "\<exists>out sch'. schedule (two_waiting 5) = Ok (out, sch')
     \<and> mset (waiting sch' @ running sch') = {#8, 9#}"
  using scheduled_sequences_are_covered [OF two_waiting_reachable [of 5]] by auto

theorem preemption_hits_the_oldest_witness:
  "\<exists>out sch'. schedule_running (two_waiting 5) = Ok (out, sch') \<and> waiting sch' = [8, 9]"
proof -
  have "sched_inv 2 3 0 (two_waiting 5)" using paged_reachable_inv [OF two_waiting_reachable] by blast
  from preemption_hits_the_oldest [OF this] show ?thesis by auto
qed

theorem one_sequence_less_than_configured_witness:
  "\<exists>out sch'. schedule (two_waiting 1) = Ok (out, sch') \<and> scheduled out = []"
  using one_sequence_less_than_configured [OF two_waiting_reachable [of 1]] by simp

lemma two_waiting_scheduled:
  "\<exists>out sch'. schedule (two_waiting 5) = Ok (out, sch') \<and> scheduled out = [8]"
proof -
  have "map_sum id (\<lambda>(out, sch). scheduled out) (schedule (two_waiting 5)) = Inr [8]" by code_simp
  then show ?thesis by (cases "schedule (two_waiting 5)") auto
qed

theorem errored_sequence_runs_again_witness:
  "\<exists>sch sch' :: nat paged_scheduler. state (seqs sch 8) = SeqError
     \<and> free_finished_sequence_groups sch = Ok sch' \<and> 8 \<in> set (running sch')"
proof -
  have "sched_inv 2 3 0 (two_waiting 5)" using paged_reachable_inv [OF two_waiting_reachable] by blast
  then obtain out sch1 A where 1: "schedule (two_waiting 5) = Ok (out, sch1)"
    "core 2 3 0 sch1 (waiting sch1) A (scheduled out)" "swapped_out sch1 = []"
    "mset (running sch1) = mset (A @ scheduled out)"
    by (rule schedule_core)
  define f :: "nat \<Rightarrow> nat run_result" where
    "f = (\<lambda>_. (\<lparr>lp_token = 4, lp_logprob = 0, lp_bytes = None, top_logprobs = None\<rparr>, [], None))"
  obtain st where "core 2 3 0 (sch1\<lparr>seqs := st\<rparr>) (waiting sch1) (A @ scheduled out) []"
    using run_all_core [OF 1(2), of f] by blast
  then have c: "core 2 3 0 (sch1\<lparr>seqs := st\<rparr>) (waiting sch1) (running sch1) []"
    using 1(4) by (rule core_perm)
  let ?s = "(put_state 8 SeqError (sch1\<lparr>seqs := st\<rparr>))\<lparr>terminate_all := False\<rparr>"
  have "sched_inv 2 3 0 ?s" using c 1(3) by (simp add: sched_inv_def)
  moreover have "8 \<in> set (running ?s)"
  proof -
    have "scheduled out = [8]" using 1(1) two_waiting_scheduled by auto
    then show ?thesis using mset_eq_setD [OF 1(4)] by simp
  qed
  moreover have "state (seqs ?s 8) = SeqError" "\<not> terminate_all ?s" by (simp_all add: put_state_def)
  ultimately show ?thesis using errored_sequence_runs_again [of 2 3 0 ?s 8] by blast
qed

theorem paged_loop_never_panics_witness:
  "\<exists>sch'. rfold (\<lambda>f s. rbind (schedule s) (\<lambda>(out, s).
         rbind (rfold (run_one f) (scheduled out) s) free_finished_sequence_groups))
       [\<lambda>_. (\<lparr>lp_token = 4, lp_logprob = 0, lp_bytes = None, top_logprobs = None\<rparr>, [97], None),
        \<lambda>_. (\<lparr>lp_token = 2, lp_logprob = 0, lp_bytes = None, top_logprobs = None\<rparr>, [], Some Eos)] (two_waiting 5) = Ok sch'
     \<and> sched_inv 2 3 0 sch'"
proof -
  have "sched_inv 2 3 0 (two_waiting 5)" using paged_reachable_inv [OF two_waiting_reachable] by blast
  from paged_loop_never_panics [OF this] show ?thesis by blast
qed

end
