(* ===== verification/Inputs.thy ===== *)
theory Inputs
  imports Paged_Scheduler
begin

text \<open>
  The inputs of a model call (\<^verbatim>\<open>mistralrs-core/src/pipeline/inputs_processor.rs\<close>): the tokens of
  the sequences of a step as rows of one matrix, their positions, and for PagedAttention the slot
  of the key-value cache each token is written to and the block tables it is read with.

  A tensor is the list of its rows or elements; copying one to a device succeeds, and a map from
  devices to copies is the list of the devices with the copy. The running sum over 32 bit
  floating point numbers is the parameter \<open>cumsum\<close>. The lemmas show that no two tokens of a
  step share a slot, and that cutting prompts into chunks loses nothing but the offset.
\<close>

section \<open>Tensors\<close>

text \<open>\<^verbatim>\<open>as u32\<close>, \<^verbatim>\<open>i64::try_from\<close>, \<^verbatim>\<open>max()\<close> of an iterator and \<^verbatim>\<open>chunks\<close> of a slice.\<close>

definition as_u32 :: "nat \<Rightarrow> nat" where
  "as_u32 n = n mod 2 ^ 32"

definition i64_of :: "nat \<Rightarrow> int res" where
  "i64_of n = (if n < 2 ^ 63 then Ok (int n) else Err (Panic ''out of range integral type conversion attempted''))"

definition max_of :: "nat list \<Rightarrow> nat option" where
  "max_of xs = (if xs = [] then None else Some (foldr max xs 0))"

function chunks :: "nat \<Rightarrow> 'a list \<Rightarrow> 'a list list" where
  "chunks k [] = []"
| "chunks k (x # xs) = (x # take (k - 1) xs) # chunks k (drop (k - 1) xs)"
  by pat_completeness auto
termination
  by (relation "measure (\<lambda>(k, xs). length xs)") auto

text \<open>\<^verbatim>\<open>Tensor::cat\<close> along the first dimension, and \<^verbatim>\<open>reshape\<close> to rows of a given length.\<close>

definition cat_rows :: "'a list list \<Rightarrow> 'a list list res" where
  "cat_rows rows =
     (if rows = [] \<or> \<not> list_all (\<lambda>r. length r = length (hd rows)) rows then Err (Panic ''unwrap on Err'') else Ok rows)"

definition reshape_rows :: "nat \<Rightarrow> 'a list \<Rightarrow> 'a list list res" where
  "reshape_rows n xs = (if n = 0 \<or> length xs mod n \<noteq> 0 then Err (Bail ''cannot reshape tensor'') else Ok (chunks n xs))"

definition make_tensor_with_pad :: "'a list list \<Rightarrow> nat \<Rightarrow> 'a \<Rightarrow> 'a list res" where
  "make_tensor_with_pad x width pad =
     rbind (rmap (\<lambda>x_i. rbind (rassert (length x_i \<le> width) ''assertion failed: x_i.len() <= max_len'') (\<lambda>_.
              Ok (x_i @ replicate (width - length x_i) pad))) x) (\<lambda>padded.
     if padded = [] then Err (Bail ''cat requires at least one tensor'') else Ok (concat padded))"

section \<open>What a model call gets\<close>

record paged_meta =
  pm_sliding_window :: "nat option"
  pm_block_size :: nat
  pm_block_engine :: block_engine

type_synonym 'a on_devices = "(nat \<times> 'a) list"

record paged_input =
  pi_block_tables :: "nat list list on_devices option"
  pi_context_lens :: "nat list on_devices option"
  pi_slot_mappings :: "int list on_devices"
  pi_max_context_len :: "nat option"
  pi_first_prompt_chunk :: bool

record flash_params =
  fp_max_q :: nat
  fp_max_k :: nat
  fp_cumulative_q :: "nat list on_devices"
  fp_cumulative_k :: "nat list on_devices"

text \<open>\<open>im_via_f16\<close> is the flag that the call sets with \<^verbatim>\<open>set_use_matmul_via_f16\<close>.\<close>

record 'a input_metadata =
  im_input :: "'a list list"
  im_positions :: "nat list"
  im_context_lens :: "(nat \<times> nat) list"
  im_position_ids :: "nat list"
  im_paged :: "paged_input option"
  im_flash :: flash_params
  im_via_f16 :: bool

type_synonym 'a inner_output = "'a input_metadata \<times> nat list"

definition pad_slot_id :: int where
  "pad_slot_id = -1"

definition via_f16_tok_threshold :: nat where
  "via_f16_tok_threshold = 512"

definition copy_to :: "nat list \<Rightarrow> 'a \<Rightarrow> 'a on_devices" where
  "copy_to devices x = map (\<lambda>d. (d, x)) devices"

definition flash_params_of :: "(nat list \<Rightarrow> nat list res) \<Rightarrow> nat list option \<Rightarrow> nat list \<Rightarrow> nat list \<Rightarrow> flash_params res" where
  "flash_params_of cumsum mapper seqlens_q seqlens_k =
     rbind (unwrap (max_of seqlens_q)) (\<lambda>max_q. rbind (unwrap (max_of seqlens_k)) (\<lambda>max_k.
     rbind (cumsum seqlens_q) (\<lambda>cum_q. rbind (cumsum seqlens_k) (\<lambda>cum_k.
     rbind (unwrap mapper) (\<lambda>devices.
     Ok \<lparr>fp_max_q = max_q, fp_max_k = max_k, fp_cumulative_q = copy_to devices cum_q,
         fp_cumulative_k = copy_to devices cum_k\<rparr>)))))"

section \<open>Slots\<close>

text \<open>The numbers of the blocks in the table of a sequence, and the slot of a position.\<close>

definition table_ids :: "block_engine \<Rightarrow> nat \<Rightarrow> nat list option" where
  "table_ids e sid = map_option (map (\<lambda>b. block_id (blocks e b))) (block_tables e sid)"

definition slot_of :: "nat \<Rightarrow> nat list \<Rightarrow> nat \<Rightarrow> int res" where
  "slot_of bs table i =
     (if bs = 0 then Err (Panic ''attempt to divide by zero'')
      else if length table \<le> i div bs then Err (Panic ''Block table is too small'')
      else i64_of (table ! (i div bs) * bs + i mod bs))"

definition start_idx :: "nat option \<Rightarrow> nat \<Rightarrow> nat \<Rightarrow> nat" where
  "start_idx sliding_window chunk_offset n_toks =
     (case sliding_window of
        Some w \<Rightarrow> if w < n_toks then min chunk_offset (n_toks - w) else chunk_offset
      | None \<Rightarrow> chunk_offset)"

text \<open>Per sequence: its slots, the rows of the block tables, and its row of context lengths.\<close>

definition prompt_slots :: "paged_meta \<Rightarrow> nat \<Rightarrow> nat \<Rightarrow> nat \<Rightarrow> (int list \<times> nat list list \<times> nat list option) res" where
  "prompt_slots pm chunk_offset sid n_toks =
     (case table_ids (pm_block_engine pm) sid of
        None \<Rightarrow> Ok (replicate n_toks pad_slot_id, [], None)
      | Some table \<Rightarrow>
          (let start = start_idx (pm_sliding_window pm) chunk_offset n_toks;
               range = [chunk_offset..<n_toks + chunk_offset]
           in rbind (rmap (\<lambda>i. rbind (slot_of (pm_block_size pm) table i) (\<lambda>slot.
                      Ok ((if i < start then [pad_slot_id] else []) @ [slot]))) range) (\<lambda>slots.
              Ok (concat slots, map (\<lambda>_. table) range, Some range))))"

section \<open>Prompts\<close>

text \<open>What the loop pushes for one sequence.\<close>

record 'a prompt_row =
  pr_offset :: nat
  pr_position :: nat
  pr_context :: "nat \<times> nat"
  pr_ctxt :: "'a list"
  pr_slots :: "int list"
  pr_tables :: "nat list list"
  pr_context_lens :: "nat list option"

definition prompt_row :: "nat \<Rightarrow> nat \<Rightarrow> (nat \<times> nat) option \<Rightarrow> bool \<Rightarrow> paged_meta option \<Rightarrow> nat \<times> 'a::zero list
    \<Rightarrow> 'a prompt_row res" where
  "prompt_row chunk_offset width last_n raw meta = (\<lambda>(sid, ctxt).
     let n_toks = length ctxt;
         offset = (case last_n of None \<Rightarrow> 0 | Some (_, b) \<Rightarrow> b);
         padded = ctxt @ replicate (width - n_toks) 0;
         keep = (case last_n of None \<Rightarrow> 1 | Some (a, _) \<Rightarrow> a)
     in rbind (if raw then
                 (if last_n \<noteq> None then Err (Bail ''`return_raw_logits` is incompatible with `last_n_context_len`'')
                  else Ok (0, length padded))
               else rbind (usub (length padded) keep) (\<lambda>start. Ok (start, keep))) (\<lambda>ctx.
        rbind (case meta of None \<Rightarrow> Ok ([], [], None) | Some pm \<Rightarrow> prompt_slots pm chunk_offset sid n_toks)
          (\<lambda>(slots, tables, lens).
        Ok \<lparr>pr_offset = offset + chunk_offset, pr_position = n_toks + chunk_offset, pr_context = ctx,
            pr_ctxt = padded, pr_slots = slots, pr_tables = tables, pr_context_lens = lens\<rparr>)))"

definition option_list :: "'a option list \<Rightarrow> 'a list" where
  "option_list xs = concat (map (\<lambda>x. case x of None \<Rightarrow> [] | Some y \<Rightarrow> [y]) xs)"

definition paged_prompt :: "nat list option \<Rightarrow> nat \<Rightarrow> 'a prompt_row list \<Rightarrow> paged_input res" where
  "paged_prompt mapper chunk_offset rows =
     (let slot_mappings = map pr_slots rows;
          block_tables = concat (map pr_tables rows);
          context_lens = option_list (map pr_context_lens rows)
      in rbind (unwrap (max_of (map length slot_mappings))) (\<lambda>max_slots.
         rbind (make_tensor_with_pad slot_mappings max_slots pad_slot_id) (\<lambda>slots.
         rbind (unwrap (max_of (map length block_tables))) (\<lambda>max_table.
         rbind (make_tensor_with_pad (map (map as_u32) block_tables) max_table 0) (\<lambda>tables.
         rbind (reshape_rows max_table tables) (\<lambda>tables.
         rbind (unwrap (max_of (map length context_lens))) (\<lambda>max_context.
         rbind (make_tensor_with_pad (map (map as_u32) context_lens) max_context 0) (\<lambda>lens.
         rbind (unwrap mapper) (\<lambda>devices.
         Ok \<lparr>pi_block_tables = Some (copy_to devices tables), pi_context_lens = Some (copy_to devices lens),
             pi_slot_mappings = copy_to devices slots, pi_max_context_len = Some max_context,
             pi_first_prompt_chunk = (chunk_offset = 0)\<rparr>)))))))))"

definition make_prompt_chunk :: "(nat list \<Rightarrow> nat list res) \<Rightarrow> nat list option \<Rightarrow> nat \<Rightarrow> 'a::zero list list \<Rightarrow> nat list
    \<Rightarrow> (nat \<times> nat) option \<Rightarrow> bool \<Rightarrow> paged_meta option \<Rightarrow> 'a input_metadata res" where
  "make_prompt_chunk cumsum mapper chunk_offset toks seq_ids last_n raw meta =
     rbind (case max_of (map length toks) of None \<Rightarrow> Err (Panic ''No sequences'') | Some m \<Rightarrow> Ok m) (\<lambda>width.
     rbind (rmap (prompt_row chunk_offset width last_n raw meta) (zip seq_ids toks)) (\<lambda>rows.
     let lens_q = map (\<lambda>r. as_u32 (length (pr_ctxt r))) rows;
         lens_k = map (\<lambda>r. as_u32 (length (pr_ctxt r) + chunk_offset)) rows
     in rbind (flash_params_of cumsum mapper (0 # lens_q) (0 # lens_k)) (\<lambda>flash.
        rbind (cat_rows (map pr_ctxt rows)) (\<lambda>input.
        rbind (case meta of None \<Rightarrow> Ok None
               | Some _ \<Rightarrow> rbind (paged_prompt mapper chunk_offset rows) (\<lambda>p. Ok (Some p))) (\<lambda>paged.
        Ok \<lparr>im_input = input, im_positions = map pr_offset rows, im_context_lens = map pr_context rows,
            im_position_ids = map pr_position rows, im_paged = paged, im_flash = flash,
            im_via_f16 = (via_f16_tok_threshold < length (hd input))\<rparr>)))))"

section \<open>Completions\<close>

record 'a completion_row =
  cr_start :: nat
  cr_position :: nat
  cr_ctxt :: "'a list"
  cr_slot :: int
  cr_table :: "nat list"
  cr_context_len :: nat

definition window_table :: "nat option \<Rightarrow> nat \<Rightarrow> nat list \<Rightarrow> nat list" where
  "window_table sliding_window bs table =
     (case sliding_window of None \<Rightarrow> table
      | Some w \<Rightarrow> (let n = w div bs in drop (if n < length table then length table - n else 0) table))"

definition completion_row :: "paged_meta option \<Rightarrow> 'f sequence \<times> 'a list \<Rightarrow> 'a completion_row res" where
  "completion_row meta = (\<lambda>(s, ctxt).
     let start_pos = length ctxt - 1
     in rbind (seq_len s) (\<lambda>len.
        rbind (case meta of None \<Rightarrow> Ok (0, [], 0)
               | Some pm \<Rightarrow>
                   rbind (unwrap (table_ids (pm_block_engine pm) (seq_id s))) (\<lambda>table.
                   rbind (slot_of (pm_block_size pm) table start_pos) (\<lambda>slot.
                   Ok (slot, window_table (pm_sliding_window pm) (pm_block_size pm) table,
                       case pm_sliding_window pm of None \<Rightarrow> len | Some w \<Rightarrow> min len w))))
          (\<lambda>(slot, table, context_len).
        Ok \<lparr>cr_start = start_pos, cr_position = len, cr_ctxt = drop start_pos ctxt, cr_slot = slot,
            cr_table = table, cr_context_len = context_len\<rparr>)))"

definition paged_completion :: "nat list option \<Rightarrow> 'a completion_row list \<Rightarrow> paged_input res" where
  "paged_completion mapper rows =
     rbind (make_tensor_with_pad (map (\<lambda>r. [cr_slot r]) rows) 1 pad_slot_id) (\<lambda>slots.
     rbind (unwrap (max_of (map (length \<circ> cr_table) rows))) (\<lambda>max_table.
     rbind (make_tensor_with_pad (map (map as_u32 \<circ> cr_table) rows) max_table 0) (\<lambda>tables.
     rbind (reshape_rows max_table tables) (\<lambda>tables.
     rbind (unwrap (max_of (map cr_context_len rows))) (\<lambda>max_context.
     rbind (unwrap mapper) (\<lambda>devices.
     Ok \<lparr>pi_block_tables = Some (copy_to devices tables),
         pi_context_lens = Some (copy_to devices (map (as_u32 \<circ> cr_context_len) rows)),
         pi_slot_mappings = copy_to devices slots, pi_max_context_len = Some max_context,
         pi_first_prompt_chunk = False\<rparr>))))))"

definition make_completion_chunk :: "(nat list \<Rightarrow> nat list res) \<Rightarrow> nat list option \<Rightarrow> 'a list list \<Rightarrow> 'f sequence list
    \<Rightarrow> paged_meta option \<Rightarrow> 'a input_metadata res" where
  "make_completion_chunk cumsum mapper toks input_seqs meta =
     rbind (rmap (completion_row meta) (zip input_seqs toks)) (\<lambda>rows.
     let lens_q = map (\<lambda>r. as_u32 (length (cr_ctxt r))) rows;
         lens_k = map (\<lambda>r. as_u32 (length (cr_ctxt r) + cr_start r)) rows
     in rbind (flash_params_of cumsum mapper (0 # lens_q) (0 # lens_k)) (\<lambda>flash.
        rbind (case meta of None \<Rightarrow> Ok None
               | Some _ \<Rightarrow> rbind (paged_completion mapper rows) (\<lambda>p. Ok (Some p))) (\<lambda>paged.
        rbind (cat_rows (map cr_ctxt rows)) (\<lambda>input.
        Ok \<lparr>im_input = input, im_positions = map cr_start rows, im_context_lens = map (\<lambda>_. (0, 1)) rows,
            im_position_ids = map cr_position rows, im_paged = paged, im_flash = flash, im_via_f16 = False\<rparr>))))"

section \<open>Chunks of prompts\<close>

text \<open>
  \<^verbatim>\<open>chunks_transposed\<close>: for every chunk number the chunks of the sequences that are long enough,
  with the number of the sequence.
\<close>

definition put_chunk :: "nat \<Rightarrow> 'a list \<times> nat \<Rightarrow> ('a list \<times> nat) list list \<Rightarrow> ('a list \<times> nat) list list" where
  "put_chunk i c parts = (if i < length parts then parts[i := parts ! i @ [c]] else parts @ [[c]])"

definition put_chunks :: "nat \<times> 'a list list \<Rightarrow> ('a list \<times> nat) list list \<Rightarrow> ('a list \<times> nat) list list" where
  "put_chunks = (\<lambda>(seq_n, cs) parts. fold (\<lambda>(i, c). put_chunk i (c, seq_n)) (List.enumerate 0 cs) parts)"

definition chunks_transposed :: "nat \<Rightarrow> 'a list list \<Rightarrow> ('a list \<times> nat) list list" where
  "chunks_transposed k toks = fold put_chunks (List.enumerate 0 (map (chunks k) toks)) []"

text \<open>The results are those of an iterator; a panic in one of them is a panic of the call.\<close>

definition get_prompt_input :: "(nat list \<Rightarrow> nat list res) \<Rightarrow> nat list option \<Rightarrow> 'a::zero list list \<Rightarrow> 'f sequence list
    \<Rightarrow> (nat \<times> nat) option \<Rightarrow> bool \<Rightarrow> paged_meta option \<Rightarrow> nat option \<Rightarrow> 'a inner_output res list" where
  "get_prompt_input cumsum mapper toks input_seqs last_n raw meta prompt_chunksize =
     (case (prompt_chunksize, meta) of
        (Some k, None) \<Rightarrow>
          map (\<lambda>(i, part).
             rbind (rmap (\<lambda>n. rbind (vget input_seqs n) (\<lambda>s. Ok (seq_id s))) (map snd part)) (\<lambda>ids.
             rbind (make_prompt_chunk cumsum mapper (i * k) (map fst part) ids last_n raw meta) (\<lambda>inputs.
             Ok (inputs, map snd part)))) (List.enumerate 0 (chunks_transposed k toks))
      | _ \<Rightarrow>
          [rbind (vget input_seqs 0) (\<lambda>s0.
           if token_offset s0 \<noteq> 0 \<and> meta \<noteq> None
           then Err (Bail ''PagedAttention does not yet support sequences with an offset != 0.'')
           else rbind (make_prompt_chunk cumsum mapper (token_offset s0) toks (map seq_id input_seqs) last_n raw meta) (\<lambda>inputs.
                Ok (inputs, [0..<length input_seqs])))])"

definition get_completion_input :: "(nat list \<Rightarrow> nat list res) \<Rightarrow> nat list option \<Rightarrow> 'a::zero list list \<Rightarrow> 'f sequence list
    \<Rightarrow> bool \<Rightarrow> (nat \<times> nat) option \<Rightarrow> bool \<Rightarrow> paged_meta option \<Rightarrow> nat option \<Rightarrow> 'a inner_output res list" where
  "get_completion_input cumsum mapper toks input_seqs no_kv_cache last_n raw meta prompt_chunksize =
     (if no_kv_cache then get_prompt_input cumsum mapper toks input_seqs last_n raw meta prompt_chunksize
      else [rbind (make_completion_chunk cumsum mapper toks input_seqs meta) (\<lambda>inputs.
            Ok (inputs, [0..<length input_seqs]))])"

record model_inputs =
  mi_input_ids :: "nat list list"
  mi_input_ids_full :: "nat list list option"
  mi_offsets :: "nat list"
  mi_offsets_full :: "nat list option"
  mi_context_lens :: "(nat \<times> nat) list"
  mi_position_ids :: "nat list"
  mi_paged :: "paged_input option"
  mi_flash :: flash_params
  mi_flash_full :: "flash_params option"

definition inputs_of :: "nat input_metadata \<Rightarrow> nat input_metadata option \<Rightarrow> nat list \<Rightarrow> model_inputs" where
  "inputs_of im full position_ids =
     \<lparr>mi_input_ids = im_input im, mi_input_ids_full = map_option im_input full, mi_offsets = im_positions im,
      mi_offsets_full = map_option im_positions full, mi_context_lens = im_context_lens im,
      mi_position_ids = position_ids, mi_paged = im_paged im, mi_flash = im_flash im,
      mi_flash_full = map_option im_flash full\<rparr>"

definition process_inputs :: "(nat list \<Rightarrow> nat list res) \<Rightarrow> nat list option \<Rightarrow> 'f sequence list \<Rightarrow> bool \<Rightarrow> bool \<Rightarrow> bool
    \<Rightarrow> (nat \<times> nat) option \<Rightarrow> bool \<Rightarrow> paged_meta option \<Rightarrow> nat option \<Rightarrow> (model_inputs \<times> nat list) res list" where
  "process_inputs cumsum mapper input_seqs prompting xlora no_kv_cache last_n raw meta prompt_chunksize =
     (let toks = map get_toks input_seqs;
          prompt = get_prompt_input cumsum mapper toks input_seqs last_n raw meta prompt_chunksize;
          completion = get_completion_input cumsum mapper toks input_seqs no_kv_cache last_n raw meta prompt_chunksize
      in if xlora \<and> \<not> prompting then
           map (\<lambda>(p, c). rbind p (\<lambda>(full, ixs). rbind c (\<lambda>(im, _).
             Ok (inputs_of im (Some full) (im_position_ids full), ixs)))) (zip prompt completion)
         else if xlora \<and> prompting then
           map (\<lambda>p. rbind p (\<lambda>(im, ixs). Ok (inputs_of im (Some im) (im_position_ids im), ixs))) prompt
         else if prompting then
           map (\<lambda>p. rbind p (\<lambda>(im, ixs). Ok (inputs_of im None (im_position_ids im), ixs))) prompt
         else
           map (\<lambda>p. rbind p (\<lambda>(im, ixs). Ok (inputs_of im None (im_position_ids im), ixs))) completion)"

section \<open>Chunks\<close>

lemma concat_chunks: "0 < k \<Longrightarrow> concat (chunks k xs) = xs"
  by (induction k xs rule: chunks.induct) auto

lemma nth_chunks:
  assumes "0 < k"
  shows "i < length (chunks k xs) \<longleftrightarrow> i * k < length xs"
    and "i * k < length xs \<Longrightarrow> chunks k xs ! i = take k (drop (i * k) xs)"
proof -
  have "(i < length (chunks k xs) \<longleftrightarrow> i * k < length xs)
      \<and> (i * k < length xs \<longrightarrow> chunks k xs ! i = take k (drop (i * k) xs))"
    using assms
  proof (induction k xs arbitrary: i rule: chunks.induct)
    case (2 k x xs)
    obtain m where m: "k = Suc m" using 2(2) by (cases k) simp_all
    show ?case
    proof (cases i)
      case (Suc j)
      have "(j < length (chunks k (drop m xs))) = (j * k < length xs - m)"
        "j * k < length xs - m \<longrightarrow> chunks k (drop m xs) ! j = take k (drop (j * k) (drop m xs))"
        using "2.IH" [OF 2(2), of j] m by simp_all
      then show ?thesis using Suc m by (auto simp: less_diff_conv ac_simps)
    qed (use m in simp)
  qed simp
  then show "i < length (chunks k xs) \<longleftrightarrow> i * k < length xs"
    and "i * k < length xs \<Longrightarrow> chunks k xs ! i = take k (drop (i * k) xs)" by blast+
qed

definition part :: "'a list list \<Rightarrow> nat \<Rightarrow> 'a list" where
  "part parts i = (if i < length parts then parts ! i else [])"

lemma put_chunk_part:
  assumes "i \<le> length parts"
  shows "part (put_chunk i c parts) j = (if j = i then part parts i @ [c] else part parts j)"
    and "i < length (put_chunk i c parts)"
  using assms by (auto simp: part_def put_chunk_def nth_append)

lemma put_chunks_from:
  assumes "m \<le> length parts"
  shows "part (fold (\<lambda>(i, c). put_chunk i (c, n)) (List.enumerate m cs) parts) j
    = part parts j @ (if m \<le> j \<and> j < m + length cs then [(cs ! (j - m), n)] else [])"
  using assms
proof (induction cs arbitrary: m parts)
  case (Cons c cs)
  have "Suc m \<le> length (put_chunk m (c, n) parts)"
    using put_chunk_part(2) [OF Cons.prems] by (simp add: Suc_le_eq)
  from Cons.IH [OF this] put_chunk_part(1) [OF Cons.prems, of "(c, n)" j] show ?case
    by (auto simp: nth_Cons' Suc_le_eq)
qed simp

lemma put_chunks_part:
  "part (put_chunks (n, cs) parts) j = part parts j @ (if j < length cs then [(cs ! j, n)] else [])"
  using put_chunks_from [of 0 parts n cs j] by (simp add: put_chunks_def)

lemma put_all_chunks_part:
  "part (fold put_chunks ncs parts) j
    = part parts j @ concat (map (\<lambda>(n, cs). if j < length cs then [(cs ! j, n)] else []) ncs)"
  by (induction ncs arbitrary: parts) (auto simp: put_chunks_part)

lemma enumerate_filter_nth:
  assumes "m \<le> n" and "n < m + length xs"
  shows "filter (\<lambda>(i, x). i = n) (List.enumerate m xs) = [(n, xs ! (n - m))]"
  using assms
proof (induction xs arbitrary: m)
  case (Cons x xs)
  have none: "filter (\<lambda>(i, x). i = m) (List.enumerate (Suc m) xs) = []"
    by (auto simp: filter_empty_conv in_set_enumerate_eq)
  show ?case
  proof (cases "n = m")
    case False
    then show ?thesis using Cons by (auto simp: nth_Cons')
  qed (use none in simp)
qed simp

lemma chunks_of_one:
  fixes toks :: "'a list list"
  assumes "0 < k" and "n < length toks"
  shows "filter (\<lambda>(c, i). i = n) (part (chunks_transposed k toks) j)
    = (if j * k < length (toks ! n) then [(take k (drop (j * k) (toks ! n)), n)] else [])"
proof -
  let ?pick = "\<lambda>(i :: nat, cs :: 'a list list). if j < length cs then [(cs ! j, i)] else []"
  let ?ncs = "List.enumerate 0 (map (chunks k) toks)"
  have "filter (\<lambda>(c, i). i = n) (concat (map ?pick ncs)) = concat (map ?pick (filter (\<lambda>(i, cs). i = n) ncs))"
    for ncs :: "(nat \<times> 'a list list) list"
    by (induction ncs) auto
  then have "filter (\<lambda>(c, i). i = n) (concat (map ?pick ?ncs)) = ?pick (n, map (chunks k) toks ! n)"
    using assms(2) enumerate_filter_nth [of 0 n "map (chunks k) toks"] by simp
  moreover have "part (chunks_transposed k toks) j = concat (map ?pick ?ncs)"
    by (simp add: chunks_transposed_def put_all_chunks_part) (simp add: part_def)
  ultimately have "filter (\<lambda>(c, i). i = n) (part (chunks_transposed k toks) j) = ?pick (n, map (chunks k) toks ! n)"
    by simp
  then show ?thesis using assms nth_chunks [OF assms(1), of j "toks ! n"] by auto
qed

lemma map_nth_map: "map (\<lambda>j. f (xs ! j)) [0..<length xs] = map f xs"
  by (rule nth_equalityI) simp_all

lemma take_in_chunks: "concat (map (\<lambda>j. take k (drop (j * k) xs)) [0..<L]) = take (L * k) xs"
  by (induction L) (simp_all add: take_add [symmetric] add.commute)

lemma prompt_row_position:
  assumes "prompt_row c w None raw meta p = Ok r"
  shows "pr_offset r = c"
  using assms by (auto simp: prompt_row_def Let_def res_simps split: prod.splits)

lemma rmap_rows:
  assumes "rmap f xs = Ok ys" and "\<And>x y. f x = Ok y \<Longrightarrow> g y = c"
  shows "map g ys = replicate (length xs) c"
  using assms by (induction xs arbitrary: ys) (auto simp: res_simps)

lemma make_prompt_chunk_positions:
  assumes "make_prompt_chunk cumsum mapper c toks ids None raw meta = Ok im" and "length ids = length toks"
  shows "im_positions im = replicate (length toks) c"
proof -
  obtain width rows where rows: "rmap (prompt_row c width None raw meta) (zip ids toks) = Ok rows"
    "im_positions im = map pr_offset rows"
    using assms(1) by (auto simp: make_prompt_chunk_def res_simps Let_def)
  have "map pr_offset rows = replicate (length (zip ids toks)) c"
    by (rule rmap_rows [OF rows(1)]) (rule prompt_row_position)
  then show ?thesis using assms(2) rows(2) by simp
qed

text \<open>
  Cutting prompts into chunks loses and repeats no token: chunk \<open>j\<close> holds, for every sequence
  that is longer than \<open>j * k\<close> tokens, its next \<open>k\<close> ones, and the chunks of a sequence in their order
  are its tokens. Chunk \<open>j\<close> is given the positions from \<open>j * k\<close> on, whatever offset the
  sequences have in their key-value cache.
\<close>

theorem chunks_cover_the_prompts:
  fixes toks :: "'a::zero list list"
  assumes "0 < k" and "n < length toks" and "outs = get_prompt_input cumsum mapper toks input_seqs None raw None (Some k)"
  shows "concat (map fst (filter (\<lambda>(c, i). i = n) (concat (chunks_transposed k toks)))) = toks ! n
     \<and> (\<forall>j < length (chunks_transposed k toks). filter (\<lambda>(c, i). i = n) (chunks_transposed k toks ! j)
          = (if j * k < length (toks ! n) then [(take k (drop (j * k) (toks ! n)), n)] else []))
     \<and> length outs = length (chunks_transposed k toks)
     \<and> (\<forall>j < length outs. \<forall>im ixs. outs ! j = Ok (im, ixs) \<longrightarrow>
          ixs = map snd (chunks_transposed k toks ! j) \<and> im_positions im = replicate (length ixs) (j * k))"
proof (intro conjI allI impI)
  let ?parts = "chunks_transposed k toks"
  let ?of_n = "filter (\<lambda>(c, i). i = n)"
  have one: "?of_n (?parts ! j) = (if j * k < length (toks ! n) then [(take k (drop (j * k) (toks ! n)), n)] else [])"
    if "j < length ?parts" for j
    using chunks_of_one [OF assms(1,2), of j] that by (simp add: part_def)
  then show "j < length ?parts \<Longrightarrow> ?of_n (?parts ! j)
      = (if j * k < length (toks ! n) then [(take k (drop (j * k) (toks ! n)), n)] else [])" for j .
  have piece: "concat (map fst (?of_n (?parts ! j))) = take k (drop (j * k) (toks ! n))" if "j < length ?parts" for j
    using one [OF that] by simp
  have by_part: "concat (map fst (?of_n (concat ps))) = concat (map (\<lambda>p. concat (map fst (?of_n p))) ps)"
    for ps :: "('a list \<times> nat) list list"
    by (induction ps) auto
  have "concat (map fst (?of_n (concat ?parts))) = concat (map (\<lambda>p. concat (map fst (?of_n p))) ?parts)"
    by (rule by_part)
  also have "\<dots> = concat (map (\<lambda>j. concat (map fst (?of_n (?parts ! j)))) [0..<length ?parts])"
    using map_nth_map [of "\<lambda>p. concat (map fst (?of_n p))" ?parts] by (simp only:)
  also have "\<dots> = concat (map (\<lambda>j. take k (drop (j * k) (toks ! n))) [0..<length ?parts])"
    using piece by (intro arg_cong [of _ _ concat] map_cong) auto
  finally have "concat (map fst (?of_n (concat ?parts))) = take (length ?parts * k) (toks ! n)"
    by (simp only: take_in_chunks)
  moreover have "length (toks ! n) \<le> length ?parts * k"
    using chunks_of_one [OF assms(1,2), of "length ?parts"] by (simp add: part_def split: if_splits)
  ultimately show "concat (map fst (?of_n (concat ?parts))) = toks ! n" by simp
next
  show "length outs = length (chunks_transposed k toks)" using assms(3) by (simp add: get_prompt_input_def)
next
  fix j im ixs assume "j < length outs" and o: "outs ! j = Ok (im, ixs)"
  then have j: "j < length (chunks_transposed k toks)" using assms(3) by (simp add: get_prompt_input_def)
  let ?part = "chunks_transposed k toks ! j"
  obtain ids where ids: "rmap (\<lambda>n. rbind (vget input_seqs n) (\<lambda>s. Ok (seq_id s))) (map snd ?part) = Ok ids"
    "make_prompt_chunk cumsum mapper (j * k) (map fst ?part) ids None raw None = Ok im" "ixs = map snd ?part"
    using o assms(3) j by (auto simp: get_prompt_input_def nth_enumerate_eq res_simps)
  then show "ixs = map snd ?part" by simp
  from make_prompt_chunk_positions [OF ids(2)] length_rmap [OF ids(1)] ids(3)
  show "im_positions im = replicate (length ixs) (j * k)" by simp
qed

section \<open>Slots\<close>

text \<open>The slot of a position of a sequence, and the positions its block table covers.\<close>

definition slot :: "block_engine \<Rightarrow> nat \<Rightarrow> nat \<times> nat \<Rightarrow> nat" where
  "slot e bs = (\<lambda>(h, i). the (table_ids e h) ! (i div bs) * bs + i mod bs)"

definition has_slot :: "block_engine \<Rightarrow> nat \<Rightarrow> nat \<times> nat \<Rightarrow> bool" where
  "has_slot e bs = (\<lambda>(h, i). \<exists>t. block_tables e h = Some t \<and> i div bs < length t)"

lemma table_ids_inv:
  assumes "be_inv e" and "block_tables e h = Some t"
  shows "table_ids e h = Some (map snd t)"
  using assms be_inv_cells(2) [OF assms(1)] by (simp add: table_ids_def)

lemma gpu_block:
  assumes "be_inv e" and "block_tables e h = Some t" and "b \<in> set t"
  shows "b = (GpuArena, snd b)" and "snd b < num_gpu_blocks e"
  using be_inv_owned(2) [OF assms] by (auto simp: gpu_universe_def)

lemma block_of_one_sequence:
  assumes "be_inv e" and "block_tables e g = Some t" and "block_tables e h = Some u"
    and "i < length t" and "j < length u" and "t ! i = u ! j"
  shows "g = h \<and> i = j"
proof -
  have "t ! i \<in> owned_by e g" "t ! i \<in> owned_by e h"
    using assms nth_mem [OF assms(4)] nth_mem [OF assms(5)] by (simp_all add: owned_by_def)
  then have "g = h" using assms(1) unfolding be_inv_def one_owner_def by blast
  moreover have "distinct t" using assms(1,2) by (simp add: be_inv_def)
  ultimately show ?thesis using assms by (simp add: nth_eq_iff_index_eq)
qed

lemma slot_less:
  assumes "be_inv e" and "has_slot e bs p" and "0 < bs"
  shows "slot e bs p < num_gpu_blocks e * bs"
proof -
  obtain h i t where p: "p = (h, i)" "block_tables e h = Some t" "i div bs < length t"
    using assms(2) by (auto simp: has_slot_def)
  have "snd (t ! (i div bs)) < num_gpu_blocks e" by (rule gpu_block(2) [OF assms(1) p(2)]) (use p(3) in simp)
  then have "(snd (t ! (i div bs)) + 1) * bs \<le> num_gpu_blocks e * bs" by (intro mult_right_mono) simp_all
  moreover have "i mod bs < bs" using assms(3) by simp
  ultimately show ?thesis using p table_ids_inv [OF assms(1) p(2)] by (simp add: slot_def)
qed

lemma slot_inj:
  assumes "be_inv e" and "0 < bs"
  shows "inj_on (slot e bs) {p. has_slot e bs p}"
proof (rule inj_onI, clarify)
  fix g i h j
  assume "has_slot e bs (g, i)" "has_slot e bs (h, j)" and eq: "slot e bs (g, i) = slot e bs (h, j)"
  then obtain t u where t: "block_tables e g = Some t" "i div bs < length t"
    and u: "block_tables e h = Some u" "j div bs < length u" by (auto simp: has_slot_def)
  let ?a = "snd (t ! (i div bs))" and ?b = "snd (u ! (j div bs))"
  have "?a * bs + i mod bs = ?b * bs + j mod bs"
    using eq t u table_ids_inv [OF assms(1)] by (simp add: slot_def)
  then have ab: "?a = ?b" and "i mod bs = j mod bs"
    by (metis assms(2) div_mult_self3 mod_div_trivial add_0_right less_irrefl add.commute,
        metis mod_mult_self3 mod_mod_trivial)
  have "t ! (i div bs) = u ! (j div bs)"
    using ab gpu_block(1) [OF assms(1) t(1) nth_mem [OF t(2)]] gpu_block(1) [OF assms(1) u(1) nth_mem [OF u(2)]]
    by simp
  from block_of_one_sequence [OF assms(1) t(1) u(1) t(2) u(2) this]
  show "g = h \<and> i = j" using \<open>i mod bs = j mod bs\<close> by (metis div_mult_mod_eq)
qed

lemma slot_of_slot:
  assumes "be_inv e" and "has_slot e bs (h, i)" and "0 < bs" and "num_gpu_blocks e * bs \<le> 2 ^ 63"
  shows "slot_of bs (the (table_ids e h)) i = Ok (int (slot e bs (h, i)))"
proof -
  obtain t where t: "block_tables e h = Some t" "i div bs < length t" using assms(2) by (auto simp: has_slot_def)
  have "slot e bs (h, i) < 2 ^ 63" using slot_less [OF assms(1-3)] assms(4) by linarith
  then show ?thesis using t table_ids_inv [OF assms(1) t(1)] assms(3) by (simp add: slot_of_def slot_def i64_of_def)
qed

section \<open>The tensors of a step\<close>

lemma max_of_Some: "xs \<noteq> [] \<Longrightarrow> \<exists>m. max_of xs = Some m \<and> (\<forall>x \<in> set xs. x \<le> m)"
proof -
  have "\<forall>x \<in> set xs. x \<le> foldr max xs 0" by (induction xs) (auto simp: le_max_iff_disj)
  then show "xs \<noteq> [] \<Longrightarrow> \<exists>m. max_of xs = Some m \<and> (\<forall>x \<in> set xs. x \<le> m)" by (simp add: max_of_def)
qed

definition pad_to :: "nat \<Rightarrow> 'a \<Rightarrow> 'a list \<Rightarrow> 'a list" where
  "pad_to n c xs = xs @ replicate (n - length xs) c"

lemma make_tensor_with_pad_Ok:
  assumes "x \<noteq> []" and "\<forall>r \<in> set x. length r \<le> n"
  shows "make_tensor_with_pad x n c = Ok (concat (map (pad_to n c) x))"
proof -
  have "rmap (\<lambda>x_i. rbind (rassert (length x_i \<le> n) ''assertion failed: x_i.len() <= max_len'')
      (\<lambda>_. Ok (x_i @ replicate (n - length x_i) c))) x = Ok (map (pad_to n c) x)"
    by (rule rmap_Inr) (use assms(2) in \<open>simp add: pad_to_def\<close>)
  then show ?thesis using assms(1) by (simp add: make_tensor_with_pad_def)
qed

lemma length_padded: "\<forall>r \<in> set ys. length r \<le> n \<Longrightarrow> length (concat (map (pad_to n c) ys)) = n * length ys"
  by (induction ys) (auto simp: pad_to_def)

lemma padded_table_reshapes:
  assumes "x \<noteq> []" and "\<forall>r \<in> set x. r \<noteq> []"
  shows "\<exists>n t. max_of (map length x) = Some n \<and> make_tensor_with_pad (map (map f) x) n c = Ok t
    \<and> (\<exists>rows. reshape_rows n t = Ok rows)"
proof -
  obtain n where n: "max_of (map length x) = Some n" "\<forall>r \<in> set x. length r \<le> n"
    using max_of_Some [of "map length x"] assms(1) by auto
  then have "make_tensor_with_pad (map (map f) x) n c = Ok (concat (map (pad_to n c) (map (map f) x)))"
    using assms(1) by (intro make_tensor_with_pad_Ok) auto
  moreover have "length (concat (map (pad_to n c) (map (map f) x))) = n * length x"
    using length_padded [of "map (map f) x" n c] n(2) by simp
  moreover have "n \<noteq> 0"
  proof -
    obtain r where "r \<in> set x" using assms(1) by (cases x) auto
    with assms(2) n(2) have "r \<noteq> []" "length r \<le> n" by auto
    then show ?thesis by (cases r) auto
  qed
  ultimately show ?thesis using n(1) by (simp add: reshape_rows_def)
qed

lemma paged_prompt_Ok:
  assumes "rows \<noteq> []" and "\<forall>r \<in> set rows. pr_tables r \<noteq> [] \<and> (\<forall>t \<in> set (pr_tables r). t \<noteq> []) \<and> pr_context_lens r \<noteq> None"
  shows "\<exists>p n. paged_prompt (Some devices) c rows = Ok p
    \<and> pi_slot_mappings p = copy_to devices (concat (map (\<lambda>r. pad_to n pad_slot_id (pr_slots r)) rows))"
proof -
  let ?slots = "map pr_slots rows" and ?tables = "concat (map pr_tables rows)"
    and ?lens = "option_list (map pr_context_lens rows)"
  obtain m where m: "max_of (map length ?slots) = Some m" "\<forall>x \<in> set ?slots. length x \<le> m"
    using max_of_Some [of "map length ?slots"] assms(1) by auto
  have slots: "make_tensor_with_pad ?slots m pad_slot_id = Ok (concat (map (pad_to m pad_slot_id) ?slots))"
    by (rule make_tensor_with_pad_Ok) (use assms(1) m(2) in simp_all)
  have "?tables \<noteq> []" "\<forall>t \<in> set ?tables. t \<noteq> []" using assms by (cases rows; auto)+
  then obtain n t rs where tables: "max_of (map length ?tables) = Some n"
    "make_tensor_with_pad (map (map as_u32) ?tables) n 0 = Ok t" "reshape_rows n t = Ok rs"
    using padded_table_reshapes [of ?tables as_u32 0] by blast
  have "?lens \<noteq> []" using assms by (cases rows) (auto simp: option_list_def)
  then obtain k where k: "max_of (map length ?lens) = Some k" "\<forall>x \<in> set ?lens. length x \<le> k"
    using max_of_Some [of "map length ?lens"] by auto
  have lens: "make_tensor_with_pad (map (map as_u32) ?lens) k 0 = Ok (concat (map (pad_to k 0) (map (map as_u32) ?lens)))"
    by (rule make_tensor_with_pad_Ok) (use \<open>?lens \<noteq> []\<close> k(2) in simp_all)
  show ?thesis
    by (simp only: paged_prompt_def Let_def m(1) slots tables k(1) lens unwrap_Some rbind_Inr)
      (auto simp: comp_def)
qed

lemma cat_rows_Ok: "rows \<noteq> [] \<Longrightarrow> \<forall>r \<in> set rows. length r = n \<Longrightarrow> cat_rows rows = Ok rows"
  by (cases rows) (auto simp: cat_rows_def list_all_iff)

lemma flash_params_Ok:
  assumes "\<And>xs. is_ok (cumsum xs)"
  shows "\<exists>f. flash_params_of cumsum (Some devices) (a # as) (b # bs) = Ok f"
proof -
  obtain x y where "cumsum (a # as) = Ok x" "cumsum (b # bs) = Ok y"
    using assms [of "a # as"] assms [of "b # bs"] by (auto simp: is_ok_def split: sum.splits)
  then show ?thesis by (simp add: flash_params_of_def max_of_def)
qed

text \<open>The slots a prompt is written to: no window ever pads them.\<close>

lemma start_idx_le: "start_idx w c n \<le> c"
  by (simp add: start_idx_def split: option.splits)

lemma prompt_slots_Ok:
  assumes "be_inv e" and "\<forall>i < n. has_slot e bs (h, c + i)" and "0 < bs" and "num_gpu_blocks e * bs \<le> 2 ^ 63"
    and "table_ids e h = Some t"
  shows "prompt_slots \<lparr>pm_sliding_window = w, pm_block_size = bs, pm_block_engine = e\<rparr> c h n
    = Ok (map (\<lambda>i. int (slot e bs (h, i))) [c..<n + c], replicate n t, Some [c..<n + c])"
proof -
  let ?f = "\<lambda>i. rbind (slot_of bs t i) (\<lambda>slot. Ok ((if i < start_idx w c n then [pad_slot_id] else []) @ [slot]))"
  have "rmap ?f [c..<n + c] = Ok (map (\<lambda>i. [int (slot e bs (h, i))]) [c..<n + c])"
  proof (rule rmap_Inr)
    fix i assume "i \<in> set [c..<n + c]"
    then have "has_slot e bs (h, i)" using assms(2) [rule_format, of "i - c"] by auto
    from slot_of_slot [OF assms(1) this assms(3,4)] assms(5) \<open>i \<in> _\<close> start_idx_le [of w c n]
    show "?f i = Ok [int (slot e bs (h, i))]" by simp
  qed
  moreover have "concat (map (\<lambda>i. [f i]) is) = map f is" for f :: "nat \<Rightarrow> int" and "is"
    by (induction "is") auto
  ultimately show ?thesis
    using assms(5) by (simp add: prompt_slots_def Let_def map_replicate_const)
qed

section \<open>Every token has a slot of its own\<close>

lemma distinct_concat_map:
  assumes "distinct xs" and "\<And>x. x \<in> set xs \<Longrightarrow> distinct (f x)"
    and "\<And>x y. x \<in> set xs \<Longrightarrow> y \<in> set xs \<Longrightarrow> x \<noteq> y \<Longrightarrow> set (f x) \<inter> set (f y) = {}"
  shows "distinct (concat (map f xs))"
  using assms by (induction xs) auto

lemma slots_distinct:
  assumes "be_inv e" and "0 < bs" and "distinct hs"
    and "\<forall>h \<in> set hs. distinct (is h) \<and> (\<forall>i \<in> set (is h). has_slot e bs (h, i))"
  shows "distinct (concat (map (\<lambda>h. map (\<lambda>i. int (slot e bs (h, i))) (is h)) hs))"
proof (rule distinct_concat_map [OF assms(3)])
  have inj: "slot e bs (g, i) = slot e bs (h, j) \<Longrightarrow> g = h \<and> i = j"
    if "g \<in> set hs" "h \<in> set hs" "i \<in> set (is g)" "j \<in> set (is h)" for g h i j
    using slot_inj [OF assms(1,2)] assms(4) that by (auto dest!: inj_onD [of _ _ "(g, i)" "(h, j)"])
  show "h \<in> set hs \<Longrightarrow> distinct (map (\<lambda>i. int (slot e bs (h, i))) (is h))" for h
    using assms(4) inj by (auto simp: distinct_map inj_on_def)
  show "g \<in> set hs \<Longrightarrow> h \<in> set hs \<Longrightarrow> g \<noteq> h \<Longrightarrow>
      set (map (\<lambda>i. int (slot e bs (g, i))) (is g)) \<inter> set (map (\<lambda>i. int (slot e bs (h, i))) (is h)) = {}" for g h
    using inj [of g h] by auto
qed

text \<open>What a scheduling step gives the input processor.\<close>

lemma scheduled_have_slots:
  assumes "paged_reachable mx bs ngpu ncpu sch" and "schedule sch = Ok (out, sch')"
  shows "be_inv (engine sch')" and "num_gpu_blocks (engine sch') = ngpu" and "distinct (scheduled out)"
    and "\<And>h. h \<in> set (scheduled out) \<Longrightarrow> good_seq bs h (seqs sch' h)"
    and "\<And>h i. h \<in> set (scheduled out) \<Longrightarrow> i \<le> length (tokens (seqs sch' h)) \<Longrightarrow> has_slot (engine sch') bs (h, i)"
proof -
  have "sched_inv bs ngpu ncpu sch" using paged_reachable_inv [OF assms(1)] by blast
  then obtain A where c: "core bs ngpu ncpu sch' (waiting sch') A (scheduled out)"
    using schedule_core assms(2) by (metis Inr_inject Pair_inject)
  then show "be_inv (engine sch')" "num_gpu_blocks (engine sch') = ngpu" "distinct (scheduled out)"
    by (auto simp: core_def be_good_def)
  show "good_seq bs h (seqs sch' h)" if "h \<in> set (scheduled out)" for h
    using core_seq [OF c] that by blast
  fix h i assume h: "h \<in> set (scheduled out)" and i: "i \<le> length (tokens (seqs sch' h))"
  then have "h \<in> dom (block_tables (engine sch'))" "table_len sch' h = length (tokens (seqs sch' h)) div bs + 1"
    using c by (auto simp: core_def)
  then show "has_slot (engine sch') bs (h, i)"
    using i by (auto simp: has_slot_def table_len_def div_le_mono less_Suc_eq_le)
qed

lemma prompt_chunk_Ok:
  assumes inv: "be_inv e" and bs: "0 < bs" "num_gpu_blocks e * bs \<le> 2 ^ 63" and hs: "hs \<noteq> []"
    and sl: "\<forall>h \<in> set hs. T h \<noteq> [] \<and> (\<forall>i \<le> length (T h). has_slot e bs (h, i))"
    and cs: "\<And>xs. is_ok (cumsum xs)"
  shows "\<exists>im p n. make_prompt_chunk cumsum (Some devices) 0 (map T hs) hs None raw
       (Some \<lparr>pm_sliding_window = w, pm_block_size = bs, pm_block_engine = e\<rparr>) = Ok im \<and> im_paged im = Some p
     \<and> pi_slot_mappings p = copy_to devices
         (concat (map (\<lambda>h. pad_to n pad_slot_id (map (\<lambda>i. int (slot e bs (h, i))) [0..<length (T h)])) hs))"
proof -
  let ?pm = "\<lparr>pm_sliding_window = w, pm_block_size = bs, pm_block_engine = e\<rparr>"
  obtain m where m: "max_of (map (length \<circ> T) hs) = Some m" "\<forall>h \<in> set hs. length (T h) \<le> m"
    using max_of_Some [of "map (length \<circ> T) hs"] hs by auto
  let ?row = "\<lambda>h. \<lparr>pr_offset = 0, pr_position = length (T h), pr_context = (if raw then (0, m) else (m - 1, 1)),
      pr_ctxt = pad_to m 0 (T h), pr_slots = map (\<lambda>i. int (slot e bs (h, i))) [0..<length (T h)],
      pr_tables = replicate (length (T h)) (the (table_ids e h)), pr_context_lens = Some [0..<length (T h)]\<rparr>"
  have table: "\<exists>t. table_ids e h = Some t \<and> t \<noteq> []" if "h \<in> set hs" for h
    using sl that inv by (force simp: has_slot_def table_ids_inv)
  have row: "prompt_row 0 m None raw (Some ?pm) (h, T h) = Ok (?row h)" if h: "h \<in> set hs" for h
  proof -
    obtain t where t: "table_ids e h = Some t" using table [OF h] by blast
    have "prompt_slots ?pm 0 h (length (T h))
      = Ok (map (\<lambda>i. int (slot e bs (h, i))) [0..<length (T h)], replicate (length (T h)) t, Some [0..<length (T h)])"
      using prompt_slots_Ok [OF inv _ bs t, of "length (T h)" 0 w] sl h by auto
    moreover have "length (T h) \<le> m" "T h \<noteq> []" using sl m(2) h by auto
    moreover from this have "Suc 0 \<le> m" by (cases "T h") auto
    ultimately show ?thesis using t by (simp add: prompt_row_def pad_to_def Let_def)
  qed
  have zip: "zip hs (map T hs) = map (\<lambda>h. (h, T h)) hs" by (induction hs) simp_all
  have rows: "rmap (prompt_row 0 m None raw (Some ?pm)) (zip hs (map T hs)) = Ok (map ?row hs)"
    unfolding zip rmap_map by (rule rmap_Inr) (simp only: comp_apply row)
  obtain f where f: "flash_params_of cumsum (Some devices) (0 # map (\<lambda>r. as_u32 (length (pr_ctxt r))) (map ?row hs))
      (0 # map (\<lambda>r. as_u32 (length (pr_ctxt r) + 0)) (map ?row hs)) = Ok f"
    using flash_params_Ok [of cumsum devices 0 _ 0] cs by blast
  have input: "cat_rows (map pr_ctxt (map ?row hs)) = Ok (map pr_ctxt (map ?row hs))"
    by (rule cat_rows_Ok) (use hs m(2) in \<open>auto simp: pad_to_def\<close>)
  obtain p n where p: "paged_prompt (Some devices) 0 (map ?row hs) = Ok p"
    "pi_slot_mappings p = copy_to devices (concat (map (\<lambda>r. pad_to n pad_slot_id (pr_slots r)) (map ?row hs)))"
    using paged_prompt_Ok [of "map ?row hs" devices 0] hs sl table by fastforce
  have "max_of (map length (map T hs)) = Some m" using m(1) by simp
  then have "\<exists>im. make_prompt_chunk cumsum (Some devices) 0 (map T hs) hs None raw (Some ?pm) = Ok im \<and> im_paged im = Some p"
    using rows f input p(1) by (simp add: make_prompt_chunk_def Let_def del: map_map)
  with p(2) show ?thesis by (auto simp: comp_def)
qed

lemma completion_chunk_Ok:
  assumes inv: "be_inv e" and bs: "0 < bs" "num_gpu_blocks e * bs \<le> 2 ^ 63" and hs: "hs \<noteq> []"
    and sl: "\<forall>h \<in> set hs. T h \<noteq> [] \<and> has_slot e bs (h, length (T h) - 1) \<and> seq_id (S h) = h \<and> is_ok (seq_len (S h))"
    and win: "w = None \<or> (\<exists>n. w = Some n \<and> bs \<le> n)" and cs: "\<And>xs. is_ok (cumsum xs)"
  shows "\<exists>im p. make_completion_chunk cumsum (Some devices) (map T hs) (map S hs)
       (Some \<lparr>pm_sliding_window = w, pm_block_size = bs, pm_block_engine = e\<rparr>) = Ok im \<and> im_paged im = Some p
     \<and> pi_slot_mappings p = copy_to devices (map (\<lambda>h. int (slot e bs (h, length (T h) - 1))) hs)"
proof -
  let ?pm = "\<lparr>pm_sliding_window = w, pm_block_size = bs, pm_block_engine = e\<rparr>"
  let ?len = "\<lambda>h. case seq_len (S h) of Inr n \<Rightarrow> n"
  let ?row = "\<lambda>h. \<lparr>cr_start = length (T h) - 1, cr_position = ?len h, cr_ctxt = drop (length (T h) - 1) (T h),
      cr_slot = int (slot e bs (h, length (T h) - 1)), cr_table = window_table w bs (the (table_ids e h)),
      cr_context_len = (case w of None \<Rightarrow> ?len h | Some n \<Rightarrow> min (?len h) n)\<rparr>"
  have table: "\<exists>t. table_ids e h = Some t \<and> t \<noteq> []" if "h \<in> set hs" for h
    using sl that inv by (force simp: has_slot_def table_ids_inv)
  have row: "completion_row (Some ?pm) (S h, T h) = Ok (?row h)" if h: "h \<in> set hs" for h
  proof -
    obtain t where t: "table_ids e h = Some t" using table [OF h] by blast
    have "slot_of bs t (length (T h) - 1) = Ok (int (slot e bs (h, length (T h) - 1)))"
      using slot_of_slot [OF inv _ bs, of h "length (T h) - 1"] sl h t by simp
    moreover have "is_ok (seq_len (S h))" using sl h by blast
    moreover from this obtain n where "seq_len (S h) = Ok n" by (auto simp: is_ok_def split: sum.splits)
    ultimately show ?thesis using t sl h by (simp add: completion_row_def Let_def split: option.split)
  qed
  have zip: "zip (map S hs) (map T hs) = map (\<lambda>h. (S h, T h)) hs" by (induction hs) simp_all
  have rows: "rmap (completion_row (Some ?pm)) (zip (map S hs) (map T hs)) = Ok (map ?row hs)"
    unfolding zip rmap_map by (rule rmap_Inr) (simp only: comp_apply row)
  obtain f where f: "flash_params_of cumsum (Some devices) (0 # map (\<lambda>r. as_u32 (length (cr_ctxt r))) (map ?row hs))
      (0 # map (\<lambda>r. as_u32 (length (cr_ctxt r) + cr_start r)) (map ?row hs)) = Ok f"
    using flash_params_Ok [of cumsum devices 0 _ 0] cs by blast
  have "length (drop (length (T h) - 1) (T h)) = 1" if "h \<in> set hs" for h
  proof -
    have "T h \<noteq> []" using sl that by blast
    then show ?thesis by (simp add: Suc_le_eq)
  qed
  then have input: "cat_rows (map cr_ctxt (map ?row hs)) = Ok (map cr_ctxt (map ?row hs))"
    by (intro cat_rows_Ok) (use hs in auto)
  have ne: "window_table w bs (the (table_ids e h)) \<noteq> []" if h: "h \<in> set hs" for h
  proof -
    obtain t where t: "table_ids e h = Some t" "t \<noteq> []" using table [OF h] by blast
    have "(if n div bs < length t then length t - n div bs else 0) < length t" if "bs \<le> n" for n
      using that t(2) bs(1) by (simp add: div_greater_zero_iff)
    then show ?thesis using t win by (fastforce simp: window_table_def Let_def drop_eq_Nil not_le simp del: drop_eq_Nil2)
  qed
  obtain n t rs where tables: "max_of (map length (map cr_table (map ?row hs))) = Some n"
    "make_tensor_with_pad (map (map as_u32) (map cr_table (map ?row hs))) n 0 = Ok t" "reshape_rows n t = Ok rs"
    using padded_table_reshapes [of "map cr_table (map ?row hs)" as_u32 0] hs ne by auto
  obtain k where k: "max_of (map cr_context_len (map ?row hs)) = Some k"
    using max_of_Some [of "map cr_context_len (map ?row hs)"] hs by auto
  have slots: "make_tensor_with_pad (map (\<lambda>r. [cr_slot r]) (map ?row hs)) 1 pad_slot_id
      = Ok (map cr_slot (map ?row hs))"
    using hs by (subst make_tensor_with_pad_Ok) (auto simp: pad_to_def comp_def concat_map_singleton)
  have "\<exists>p. paged_completion (Some devices) (map ?row hs) = Ok p
      \<and> pi_slot_mappings p = copy_to devices (map cr_slot (map ?row hs))"
    using tables k slots by (simp add: paged_completion_def comp_def)
  then obtain p where p: "paged_completion (Some devices) (map ?row hs) = Ok p"
    "pi_slot_mappings p = copy_to devices (map cr_slot (map ?row hs))" by blast
  then have "\<exists>im. make_completion_chunk cumsum (Some devices) (map T hs) (map S hs) (Some ?pm) = Ok im
      \<and> im_paged im = Some p"
    using rows f input by (simp add: make_completion_chunk_def Let_def del: map_map)
  with p(2) show ?thesis by (auto simp: comp_def)
qed

lemma distinct_unpadded:
  assumes "\<forall>xs \<in> set xss. c \<notin> set xs"
  shows "filter (\<lambda>s. s \<noteq> c) (concat (map (pad_to n c) xss)) = concat xss"
proof -
  have "filter (\<lambda>s. s \<noteq> c) xs = xs" if "xs \<in> set xss" for xs
    using assms that by (intro filter_True) auto
  moreover have "filter (\<lambda>s. s \<noteq> c) (replicate k c) = []" for k by simp
  ultimately have "map (filter (\<lambda>s. s \<noteq> c) \<circ> pad_to n c) xss = map (\<lambda>xs. xs) xss"
    by (intro map_cong) (simp_all add: pad_to_def)
  then show ?thesis by (simp add: filter_concat)
qed

lemma scheduled_geometry:
  assumes reach: "paged_reachable mx bs ngpu ncpu sch" "schedule sch = Ok (out, sch')" "scheduled out \<noteq> []"
    and "ngpu * bs \<le> 2 ^ 63"
  shows "0 < bs" and "num_gpu_blocks (engine sch') * bs \<le> 2 ^ 63"
    and "\<And>h. h \<in> set (scheduled out) \<Longrightarrow> seq_id (seqs sch' h) = h \<and> tokens (seqs sch' h) \<noteq> []"
    and "\<And>h i. h \<in> set (scheduled out) \<Longrightarrow> i \<le> length (tokens (seqs sch' h)) \<Longrightarrow>
      int (slot (engine sch') bs (h, i)) \<in> {0..<int (ngpu * bs)}"
proof -
  note s = scheduled_have_slots [OF reach(1,2)]
  obtain h0 where "h0 \<in> set (scheduled out)" using reach(3) by (cases "scheduled out") auto
  then show bs: "0 < bs" using s(4) by (fastforce simp: good_seq_def seq_wf_def)
  show "num_gpu_blocks (engine sch') * bs \<le> 2 ^ 63" using s(2) assms(4) by simp
  show "seq_id (seqs sch' h) = h \<and> tokens (seqs sch' h) \<noteq> []" if "h \<in> set (scheduled out)" for h
    using s(4) [OF that] by (simp add: good_seq_def)
  show "int (slot (engine sch') bs (h, i)) \<in> {0..<int (ngpu * bs)}"
    if "h \<in> set (scheduled out)" "i \<le> length (tokens (seqs sch' h))" for h i
    using slot_less [OF s(1) s(5) [OF that] bs] s(2) by (simp flip: of_nat_mult)
qed

lemma prompt_step_slots:
  assumes reach: "paged_reachable mx bs ngpu ncpu sch" "schedule sch = Ok (out, sch')" "scheduled out \<noteq> []"
    and fits: "ngpu * bs \<le> 2 ^ 63" and cs: "\<And>xs. is_ok (cumsum xs)"
    and toks: "toks = map (\<lambda>h. tokens (seqs sch' h)) (scheduled out)"
    and pm: "pm = \<lparr>pm_sliding_window = w, pm_block_size = bs, pm_block_engine = engine sch'\<rparr>"
  shows "\<exists>im p. make_prompt_chunk cumsum (Some devices) 0 toks (scheduled out) None raw (Some pm) = Ok im \<and> im_paged im = Some p
       \<and> (\<forall>(d, slots) \<in> set (pi_slot_mappings p). distinct (filter (\<lambda>s. s \<noteq> pad_slot_id) slots)
           \<and> length (filter (\<lambda>s. s \<noteq> pad_slot_id) slots) = sum_list (map length toks)
           \<and> set slots \<subseteq> {pad_slot_id} \<union> {0..<int (ngpu * bs)})"
proof -
  let ?hs = "scheduled out" and ?e = "engine sch'" and ?T = "\<lambda>h. tokens (seqs sch' h)"
  note s = scheduled_have_slots [OF reach(1,2)] and g = scheduled_geometry [OF reach fits]
  let ?of = "\<lambda>h. map (\<lambda>i. int (slot ?e bs (h, i))) [0..<length (?T h)]"
  have cover: "\<forall>h \<in> set ?hs. ?T h \<noteq> [] \<and> (\<forall>i \<le> length (?T h). has_slot ?e bs (h, i))" using s(5) g(3) by blast
  obtain im p n where p: "make_prompt_chunk cumsum (Some devices) 0 toks ?hs None raw (Some pm) = Ok im" "im_paged im = Some p"
    "pi_slot_mappings p = copy_to devices (concat (map (pad_to n pad_slot_id) (map ?of ?hs)))"
    using prompt_chunk_Ok [where cumsum = cumsum, OF s(1) g(1,2) reach(3) cover cs, where devices = devices and raw = raw and w = w]
      toks pm by (auto simp: comp_def)
  have "\<forall>xs \<in> set (map ?of ?hs). pad_slot_id \<notin> set xs" by (auto simp: pad_slot_id_def)
  from distinct_unpadded [OF this]
  have un: "filter (\<lambda>s. s \<noteq> pad_slot_id) (concat (map (pad_to n pad_slot_id) (map ?of ?hs))) = concat (map ?of ?hs)" .
  have "distinct (concat (map ?of ?hs))"
    by (rule slots_distinct [OF s(1) g(1) s(3)]) (use cover in auto)
  moreover have "length (concat (map ?of ?hs)) = sum_list (map length toks)"
    by (simp add: toks length_concat comp_def)
  moreover have "set (concat (map (pad_to n pad_slot_id) (map ?of ?hs))) \<subseteq> {pad_slot_id} \<union> {0..<int (ngpu * bs)}"
    using g(4) by (fastforce simp: pad_to_def)
  ultimately have "\<forall>(d, slots) \<in> set (pi_slot_mappings p). distinct (filter (\<lambda>s. s \<noteq> pad_slot_id) slots)
         \<and> length (filter (\<lambda>s. s \<noteq> pad_slot_id) slots) = sum_list (map length toks)
         \<and> set slots \<subseteq> {pad_slot_id} \<union> {0..<int (ngpu * bs)}"
    unfolding p(3) copy_to_def by (auto simp only: un set_map split_def fst_conv snd_conv)
  with p(1,2) show ?thesis by blast
qed

lemma completion_step_slots:
  assumes reach: "paged_reachable mx bs ngpu ncpu sch" "schedule sch = Ok (out, sch')" "scheduled out \<noteq> []"
    and fits: "ngpu * bs \<le> 2 ^ 63" and cs: "\<And>xs. is_ok (cumsum xs)"
    and win: "w = None \<or> (\<exists>n. w = Some n \<and> bs \<le> n)"
    and lens: "\<forall>h \<in> set (scheduled out). is_ok (seq_len (seqs sch' h))"
    and toks: "toks = map (\<lambda>h. tokens (seqs sch' h)) (scheduled out)"
    and pm: "pm = \<lparr>pm_sliding_window = w, pm_block_size = bs, pm_block_engine = engine sch'\<rparr>"
  shows "\<exists>im p. make_completion_chunk cumsum (Some devices) toks (map (seqs sch') (scheduled out)) (Some pm) = Ok im
       \<and> im_paged im = Some p
       \<and> (\<forall>(d, slots) \<in> set (pi_slot_mappings p). distinct slots \<and> length slots = length (scheduled out)
           \<and> set slots \<subseteq> {0..<int (ngpu * bs)})"
proof -
  let ?hs = "scheduled out" and ?e = "engine sch'" and ?T = "\<lambda>h. tokens (seqs sch' h)"
  note s = scheduled_have_slots [OF reach(1,2)] and g = scheduled_geometry [OF reach fits]
  let ?last = "\<lambda>h. length (?T h) - 1"
  have "\<forall>h \<in> set ?hs. ?T h \<noteq> [] \<and> has_slot ?e bs (h, ?last h) \<and> seq_id (seqs sch' h) = h \<and> is_ok (seq_len (seqs sch' h))"
    using s(5) g(3) lens by simp
  from completion_chunk_Ok [where cumsum = cumsum, OF s(1) g(1,2) reach(3) this win cs, of devices]
  obtain im p where p: "make_completion_chunk cumsum (Some devices) toks (map (seqs sch') ?hs) (Some pm) = Ok im"
    "im_paged im = Some p" "pi_slot_mappings p = copy_to devices (map (\<lambda>h. int (slot ?e bs (h, ?last h))) ?hs)"
    using toks pm by auto
  have "distinct (concat (map (\<lambda>h. map (\<lambda>i. int (slot ?e bs (h, i))) [?last h]) ?hs))"
    by (rule slots_distinct [OF s(1) g(1) s(3)]) (use s(5) in auto)
  then have "distinct (map (\<lambda>h. int (slot ?e bs (h, ?last h))) ?hs)" by (simp add: concat_map_singleton)
  moreover have "set (map (\<lambda>h. int (slot ?e bs (h, ?last h))) ?hs) \<subseteq> {0..<int (ngpu * bs)}"
    using g(4) by auto
  ultimately have "\<forall>(d, slots) \<in> set (pi_slot_mappings p). distinct slots \<and> length slots = length ?hs
         \<and> set slots \<subseteq> {0..<int (ngpu * bs)}"
    unfolding p(3) copy_to_def by (auto simp only: set_map split_def fst_conv snd_conv length_map)
  with p(1,2) show ?thesis by blast
qed

text \<open>
  C2. Whatever the scheduler schedules, the tokens of a step are written to slots of their own: the
  input of a prompt step and that of a completion step are made without an error, and their slot
  mappings, which pad with \<^verbatim>\<open>-1\<close>, hold for every token to be written one slot inside the cache,
  different from that of every other token of any sequence.
\<close>

theorem every_token_has_its_own_slot:
  assumes "paged_reachable mx bs ngpu ncpu sch" and "schedule sch = Ok (out, sch')" and "scheduled out \<noteq> []"
    and "ngpu * bs \<le> 2 ^ 63" and "\<And>xs. is_ok (cumsum xs)" and "w = None \<or> (\<exists>n. w = Some n \<and> bs \<le> n)"
    and "\<forall>h \<in> set (scheduled out). is_ok (seq_len (seqs sch' h))"
    and "toks = map (\<lambda>h. tokens (seqs sch' h)) (scheduled out)"
    and "pm = \<lparr>pm_sliding_window = w, pm_block_size = bs, pm_block_engine = engine sch'\<rparr>"
  shows "(\<exists>im p. make_prompt_chunk cumsum (Some devices) 0 toks (scheduled out) None raw (Some pm) = Ok im \<and> im_paged im = Some p
       \<and> (\<forall>(d, slots) \<in> set (pi_slot_mappings p). distinct (filter (\<lambda>s. s \<noteq> pad_slot_id) slots)
           \<and> length (filter (\<lambda>s. s \<noteq> pad_slot_id) slots) = sum_list (map length toks)
           \<and> set slots \<subseteq> {pad_slot_id} \<union> {0..<int (ngpu * bs)}))
     \<and> (\<exists>im p. make_completion_chunk cumsum (Some devices) toks (map (seqs sch') (scheduled out)) (Some pm) = Ok im
       \<and> im_paged im = Some p
       \<and> (\<forall>(d, slots) \<in> set (pi_slot_mappings p). distinct slots \<and> length slots = length (scheduled out)
           \<and> set slots \<subseteq> {0..<int (ngpu * bs)}))"
  using prompt_step_slots [where cumsum = cumsum, OF assms(1-5,8,9)]
    completion_step_slots [where cumsum = cumsum, OF assms] by blast

section \<open>Witnesses\<close>

lemma two_waiting_step:
  "\<exists>out sch'. schedule (two_waiting 5) = Ok (out, sch') \<and> scheduled out = [8]
     \<and> tokens (seqs sch' 8) = [5, 6, 7] \<and> seq_len (seqs sch' 8) = Ok 3"
proof -
  have "map_sum id (\<lambda>(out, sch). (scheduled out, tokens (seqs sch 8), seq_len (seqs sch 8))) (schedule (two_waiting 5))
    = Inr ([8], [5, 6, 7], Ok 3)" by code_simp
  then show ?thesis by (cases "schedule (two_waiting 5)") auto
qed

theorem every_token_has_its_own_slot_witness:
  "\<exists>out sch' im p. schedule (two_waiting 5) = Ok (out, sch') \<and> scheduled out = [8]
     \<and> make_prompt_chunk (\<lambda>xs. Ok xs) (Some [0]) 0 [[5, 6, 7 :: nat]] [8] None False
         (Some \<lparr>pm_sliding_window = None, pm_block_size = 2, pm_block_engine = engine sch'\<rparr>) = Ok im
     \<and> im_paged im = Some p
     \<and> (\<forall>(d, slots) \<in> set (pi_slot_mappings p). length (filter (\<lambda>s. s \<noteq> pad_slot_id) slots) = 3)"
proof -
  obtain out sch' where s: "schedule (two_waiting 5) = Ok (out, sch')" "scheduled out = [8]"
    "tokens (seqs sch' 8) = [5, 6, 7]" "seq_len (seqs sch' 8) = Ok 3" using two_waiting_step by blast
  let ?pm = "\<lparr>pm_sliding_window = None, pm_block_size = 2, pm_block_engine = engine sch'\<rparr>"
  have "scheduled out \<noteq> []" "(3 :: nat) * 2 \<le> 2 ^ 63" "is_ok (Ok xs)"
    "\<forall>h \<in> set (scheduled out). is_ok (seq_len (seqs sch' h))"
    "[[5, 6, 7]] = map (\<lambda>h. tokens (seqs sch' h)) (scheduled out)" for xs :: "nat list"
    using s(2-4) by (simp_all add: is_ok_def)
  note every_token_has_its_own_slot [where cumsum = "\<lambda>xs. Ok xs" and w = None and pm = ?pm and devices = "[0]" and raw = False,
      OF two_waiting_reachable s(1) this(1-3) disjI1 [OF refl] this(4,5) refl, THEN conjunct1]
  then show ?thesis using s(1,2) by (simp add: split_def numeral_3_eq_3) blast
qed

theorem chunks_cover_the_prompts_witness:
  "concat (map fst (filter (\<lambda>(c, i). i = 1) (concat (chunks_transposed 2 [[1], [5, 6, 7 :: nat]])))) = [5, 6, 7]"
  using chunks_cover_the_prompts [of 2 1 "[[1], [5, 6, 7 :: nat]]", OF _ _ refl, THEN conjunct1] by simp

end
