(* ===== verification/Device_Map.thy ===== *)
theory Device_Map
  imports Prelude
begin

text \<open>
  Which device holds which layer of a model (\<^verbatim>\<open>mistralrs-core/src/device_map.rs\<close>): the settings a
  user gives, the mapper they become, and what a mapper answers for a layer.

  A device is its kind and its ordinal. Opening devices, their random seeds and when two of them
  count as the same are parameters. The
  lemmas show when a mapper has exactly one device for every layer.
\<close>

datatype device = Cpu | Cuda nat | Metal nat

definition is_cpu :: "device \<Rightarrow> bool" where
  "is_cpu d = (d = Cpu)"

text \<open>What the source asks of the devices: \<^verbatim>\<open>Device::cuda_if_available\<close>, \<^verbatim>\<open>Device::new_cuda\<close>,
  \<^verbatim>\<open>Device::new_metal\<close>, \<^verbatim>\<open>get_current_seed\<close>, \<^verbatim>\<open>set_seed\<close> and \<^verbatim>\<open>same_device\<close>.\<close>

record device_lib =
  cuda_if_available :: "nat \<Rightarrow> device res"
  new_cuda :: "nat \<Rightarrow> device res"
  new_metal :: "nat \<Rightarrow> device res"
  get_current_seed :: "device \<Rightarrow> nat res"
  set_seed :: "device \<Rightarrow> nat \<Rightarrow> unit res"
  same_device :: "device \<Rightarrow> device \<Rightarrow> bool"

section \<open>Settings\<close>

text \<open>A range \<open>start..end\<close> is the pair of its ends.\<close>

fun split_loop :: "nat \<Rightarrow> nat \<Rightarrow> nat \<Rightarrow> nat \<Rightarrow> nat list \<Rightarrow> (nat \<times> nat) list" where
  "split_loop chunk_size remainder n start [] = []"
| "split_loop chunk_size remainder n start (i # is) =
     (let stop = start + chunk_size + (if i < remainder then 1 else 0)
      in (start, stop) # split_loop chunk_size remainder n stop is)"

definition split_range :: "nat \<times> nat \<Rightarrow> nat \<Rightarrow> (nat \<times> nat) list res" where
  "split_range rg n =
     rbind (rassert (0 < n) ''n must be non-zero'') (\<lambda>_.
     rbind (usub (snd rg) (fst rg)) (\<lambda>total.
     Ok (split_loop (total div n) (total mod n) n (fst rg) [0..<n])))"

record device_layer =
  dl_ordinal :: nat
  dl_layers :: nat

record device_map_metadata =
  device_layers :: "device_layer list option"
  host_layers :: "nat option"

text \<open>\<^verbatim>\<open>LayerTopology\<close>, whose quantization type is left to the caller.\<close>

record 'q layer_topology =
  lt_isq :: "'q option"
  lt_device :: "device option"

type_synonym 'q topology = "'q layer_topology option list"

text \<open>\<open>'c\<close> is the communicator of a device, \<open>'p\<close> the parameters of automatic mapping.\<close>

datatype ('c, 'p) device_map_setting =
    SettingMap device_map_metadata
  | SettingAuto 'p
  | SettingNccl "device list"
  | SettingNcclPipelineParallel "('c \<times> device) list" device

definition from_num_device_layers :: "device_layer list \<Rightarrow> device_map_metadata" where
  "from_num_device_layers ls = \<lparr>device_layers = Some ls, host_layers = None\<rparr>"

definition metadata_dummy :: device_map_metadata where
  "metadata_dummy = \<lparr>device_layers = None, host_layers = None\<rparr>"

definition setting_dummy :: "('c, 'p) device_map_setting" where
  "setting_dummy = SettingMap metadata_dummy"

section \<open>Mappers\<close>

datatype 'c device_mapper =
    LayerDeviceMapper "device list" device
  | DummyDeviceMapper device
  | NcclDeviceMapper device "device list"
  | NcclPipelineParallelMapper "('c \<times> device) list" device

text \<open>The devices of the entries, and the layers on the host after them.\<close>

definition device_of_entry :: "device_lib \<Rightarrow> device \<Rightarrow> nat option \<Rightarrow> device_layer \<Rightarrow> device list res" where
  "device_of_entry lib device seed entry =
     rbind (case device of Cpu \<Rightarrow> Ok Cpu
            | Cuda _ \<Rightarrow> cuda_if_available lib (dl_ordinal entry)
            | Metal _ \<Rightarrow> new_metal lib (dl_ordinal entry)) (\<lambda>dev.
     rbind (if is_cpu device then Ok () else rbind (unwrap seed) (set_seed lib dev)) (\<lambda>_.
     Ok (replicate (dl_layers entry) dev)))"

definition combined_devices :: "device_lib \<Rightarrow> device \<Rightarrow> device_layer list \<Rightarrow> nat \<Rightarrow> device list res" where
  "combined_devices lib device entries n_device_layers =
     (if length entries = 1 then Ok (replicate n_device_layers device)
      else rbind (if is_cpu device then Ok None else rbind (get_current_seed lib device) (\<lambda>s. Ok (Some s))) (\<lambda>seed.
           rbind (rmap (device_of_entry lib device seed) entries) (\<lambda>ds. Ok (concat ds))))"

definition map_by_metadata :: "device_lib \<Rightarrow> nat \<Rightarrow> device \<Rightarrow> device_map_metadata \<Rightarrow> 'c device_mapper res" where
  "map_by_metadata lib model_layers device m =
     (case device_layers m of None \<Rightarrow> Ok (DummyDeviceMapper device)
      | Some entries \<Rightarrow>
          (let n_device_layers = min (sum_list (map dl_layers entries)) model_layers;
               n_host_layers = (case host_layers m of None \<Rightarrow> model_layers - n_device_layers | Some h \<Rightarrow> h)
           in if n_device_layers + n_host_layers \<noteq> model_layers
              then Err (Bail ''Expected the total number of GPU and host layers to sum to the number of model hidden layers'')
              else rbind (combined_devices lib device entries n_device_layers) (\<lambda>ds.
                   let combined = ds @ replicate n_host_layers Cpu
                   in rbind (rassert (length combined = model_layers) ''assertion failed: combined.len() == model_layers'') (\<lambda>_.
                      rbind (vget combined 0) (\<lambda>_. Ok (LayerDeviceMapper combined device))))))"

definition map_by_topology :: "device \<Rightarrow> 'q topology \<Rightarrow> 'c device_mapper" where
  "map_by_topology device topology =
     (if list_all (\<lambda>l. l = None) topology then DummyDeviceMapper device
      else LayerDeviceMapper
        (map (\<lambda>l. case l of None \<Rightarrow> device | Some x \<Rightarrow> (case lt_device x of None \<Rightarrow> device | Some d \<Rightarrow> d)) topology) device)"

definition into_mapper :: "device_lib \<Rightarrow> nat \<Rightarrow> device \<Rightarrow> 'q topology option \<Rightarrow> ('c, 'p) device_map_setting
    \<Rightarrow> 'c device_mapper res" where
  "into_mapper lib model_layers device topology setting =
     (case setting of
        SettingNccl devices \<Rightarrow> rbind (vget devices 0) (\<lambda>d. Ok (NcclDeviceMapper d devices))
      | SettingNcclPipelineParallel devices_and_comms nm \<Rightarrow>
          rbind (split_range (0, model_layers) (length devices_and_comms)) (\<lambda>splits.
          Ok (NcclPipelineParallelMapper
                (concat (map (\<lambda>((a, b), d). replicate (b - a) d) (zip splits devices_and_comms))) nm))
      | SettingMap m \<Rightarrow>
          (case topology of Some t \<Rightarrow> Ok (map_by_topology device t)
           | None \<Rightarrow> map_by_metadata lib model_layers device m)
      | SettingAuto _ \<Rightarrow> Err (Bail ''.into_mapper does not work on Auto device map''))"

section \<open>What a mapper answers\<close>

text \<open>
  The device a tensor is moved to before layer \<open>layer\<close>, \<open>None\<close> where it stays; the device of the
  weights of a layer while loading, \<open>None\<close> where the builder is left as it is.
\<close>

definition mapper_map :: "'c device_mapper \<Rightarrow> nat \<Rightarrow> device option res" where
  "mapper_map m layer =
     (case m of LayerDeviceMapper mappings _ \<Rightarrow> rbind (vget mappings layer) (\<lambda>d. Ok (Some d))
      | NcclPipelineParallelMapper mappings _ \<Rightarrow> rbind (vget mappings layer) (\<lambda>(_, d). Ok (Some d))
      | _ \<Rightarrow> Ok None)"

definition set_device :: "'c device_mapper \<Rightarrow> nat \<Rightarrow> bool \<Rightarrow> device option res" where
  "set_device m layer loading_isq =
     (case m of
        LayerDeviceMapper mappings _ \<Rightarrow>
          (if loading_isq then Ok None else rbind (vget mappings layer) (\<lambda>d. Ok (Some d)))
      | NcclPipelineParallelMapper mappings _ \<Rightarrow>
          (if loading_isq then Ok None else rbind (vget mappings layer) (\<lambda>(_, d). Ok (Some d)))
      | DummyDeviceMapper nm \<Rightarrow> Ok (Some (if loading_isq then Cpu else nm))
      | NcclDeviceMapper nm _ \<Rightarrow> Ok (Some (if loading_isq then Cpu else nm)))"

definition device_for :: "'c device_mapper \<Rightarrow> nat \<Rightarrow> bool \<Rightarrow> device option" where
  "device_for m layer loading_isq =
     (case m of
        LayerDeviceMapper mappings nm \<Rightarrow>
          (if loading_isq then Some nm else if layer < length mappings then Some (mappings ! layer) else None)
      | NcclPipelineParallelMapper mappings nm \<Rightarrow>
          (if loading_isq then Some nm else if layer < length mappings then Some (snd (mappings ! layer)) else None)
      | DummyDeviceMapper nm \<Rightarrow> Some nm
      | NcclDeviceMapper nm _ \<Rightarrow> Some nm)"

definition push_unique :: "device_lib \<Rightarrow> device list \<Rightarrow> device \<Rightarrow> device list" where
  "push_unique lib acc d = (if list_ex (\<lambda>e. same_device lib e d) acc then acc else acc @ [d])"

definition get_unique_devices :: "device_lib \<Rightarrow> 'c device_mapper \<Rightarrow> device list" where
  "get_unique_devices lib m =
     (case m of
        LayerDeviceMapper mappings _ \<Rightarrow> foldl (push_unique lib) [] mappings
      | NcclPipelineParallelMapper mappings _ \<Rightarrow> foldl (push_unique lib) [] (map snd mappings)
      | DummyDeviceMapper nm \<Rightarrow> [nm]
      | NcclDeviceMapper _ devices \<Rightarrow> devices)"

definition nm_device :: "'c device_mapper \<Rightarrow> device" where
  "nm_device m =
     (case m of LayerDeviceMapper _ nm \<Rightarrow> nm | NcclPipelineParallelMapper _ nm \<Rightarrow> nm
      | DummyDeviceMapper nm \<Rightarrow> nm | NcclDeviceMapper nm _ \<Rightarrow> nm)"

definition cast_nm_device :: "'c device_mapper \<Rightarrow> bool \<Rightarrow> device" where
  "cast_nm_device m loading_isq = (if loading_isq then Cpu else nm_device m)"

definition set_nm_device :: "'c device_mapper \<Rightarrow> bool \<Rightarrow> device option" where
  "set_nm_device m loading_isq =
     (if loading_isq
      then (case m of LayerDeviceMapper _ _ \<Rightarrow> None | NcclPipelineParallelMapper _ _ \<Rightarrow> None | _ \<Rightarrow> Some Cpu)
      else Some (nm_device m))"

definition num_device_mapping_layers :: "'c device_mapper \<Rightarrow> nat" where
  "num_device_mapping_layers m =
     (case m of LayerDeviceMapper mappings _ \<Rightarrow> length mappings
      | NcclPipelineParallelMapper mappings _ \<Rightarrow> length mappings | _ \<Rightarrow> 1)"

text \<open>The smallest type of the devices that hold layers; \<open>try_into\<close> is the caller's choice of it.\<close>

definition get_min_dtype :: "(device list \<Rightarrow> 'd res) \<Rightarrow> 'c device_mapper \<Rightarrow> 'd res" where
  "get_min_dtype try_into m =
     try_into (case m of LayerDeviceMapper mappings _ \<Rightarrow> mappings
               | NcclPipelineParallelMapper mappings _ \<Rightarrow> map snd mappings
               | DummyDeviceMapper nm \<Rightarrow> [nm] | NcclDeviceMapper _ devices \<Rightarrow> devices)"

text \<open>\<open>fresh\<close> makes a communicator for a device alone.\<close>

definition get_comm_for :: "(device \<Rightarrow> 'c res) \<Rightarrow> 'c device_mapper \<Rightarrow> nat \<Rightarrow> 'c res" where
  "get_comm_for fresh m layer =
     (case m of NcclPipelineParallelMapper mappings _ \<Rightarrow> rbind (vget mappings layer) (\<lambda>(c, _). Ok c)
      | _ \<Rightarrow> fresh (case device_for m layer False of None \<Rightarrow> nm_device m | Some d \<Rightarrow> d))"

section \<open>Devices of the same kind\<close>

text \<open>
  The loop over ordinals, which ends at the first one that cannot be opened; the base device is
  taken over as it is. \<open>None\<close> is a loop that does not end.
\<close>

partial_function (option) similar_loop :: "(nat \<Rightarrow> device res) \<Rightarrow> device \<Rightarrow> nat \<Rightarrow> nat \<Rightarrow> device list \<Rightarrow> device list option" where
  "similar_loop open_at base base_ord ord devices =
     (if base_ord = ord then similar_loop open_at base base_ord (ord + 1) (devices @ [base])
      else case open_at ord of Inr dev \<Rightarrow> similar_loop open_at base base_ord (ord + 1) (devices @ [dev])
           | Inl _ \<Rightarrow> Some devices)"

text \<open>Built without Metal, where the source fails on a Metal device.\<close>

definition get_all_similar_devices :: "device_lib \<Rightarrow> device \<Rightarrow> device list res option" where
  "get_all_similar_devices lib base =
     (case base of Cpu \<Rightarrow> Some (Ok [Cpu])
      | Cuda base_ord \<Rightarrow> map_option Ok (similar_loop (new_cuda lib) base base_ord 0 [])
      | Metal _ \<Rightarrow> Some (Err (Bail ''Not compiled with metal features, but have a metal device.'')))"

section \<open>Splitting layers evenly\<close>

lemma split_loop_covers:
  "length (split_loop c r n start is) = length is
   \<and> (\<forall>(a, b) \<in> set (split_loop c r n start is). a \<le> b \<and> c \<le> b - a \<and> b - a \<le> c + 1)
   \<and> concat (map (\<lambda>(a, b). [a..<b]) (split_loop c r n start is))
     = [start..<start + c * length is + length (filter (\<lambda>i. i < r) is)]"
proof (induction "is" arbitrary: start)
  case (Cons i js)
  let ?stop = "start + c + (if i < r then 1 else 0)"
  let ?last = "?stop + c * length js + length (filter (\<lambda>i. i < r) js)"
  have "[start..<?last] = [start..<?stop] @ [?stop..<?last]"
    using upt_add_eq_append [of start ?stop "c * length js + length (filter (\<lambda>i. i < r) js)"] by (simp add: add.assoc)
  moreover have "?last = start + c * length (i # js) + length (filter (\<lambda>i. i < r) (i # js))" by simp
  ultimately show ?case using Cons.IH [of ?stop] by (cases "i < r") (simp_all add: Let_def ac_simps)
qed simp

lemma count_below: "r \<le> n \<Longrightarrow> length (filter (\<lambda>i. i < r) [0..<n]) = r"
proof -
  assume "r \<le> n"
  then have "filter (\<lambda>i. i < r) [0..<n] = [0..<r]"
    using upt_add_eq_append [of 0 r "n - r"] by (auto simp: filter_id_conv filter_empty_conv)
  then show ?thesis by simp
qed

lemma split_range_Ok:
  assumes "0 < n" and "a \<le> b"
  shows "\<exists>rs. split_range (a, b) n = Ok rs \<and> length rs = n \<and> concat (map (\<lambda>(x, y). [x..<y]) rs) = [a..<b]
    \<and> (\<forall>(x, y) \<in> set rs. x \<le> y \<and> (b - a) div n \<le> y - x \<and> y - x \<le> (b - a) div n + 1)"
proof -
  let ?c = "(b - a) div n" and ?r = "(b - a) mod n"
  have "?r \<le> n" using assms(1) by (simp add: less_imp_le)
  then have "a + ?c * n + length (filter (\<lambda>i. i < ?r) [0..<n]) = b"
    using assms(2) by (simp add: count_below)
  then show ?thesis
    using assms split_loop_covers [of ?c ?r n a "[0..<n]"] by (simp add: split_range_def)
qed

text \<open>
  Pipeline parallelism gives every layer exactly one communicator and device: those of the
  first devices come first, and no device has two layers more than another.
\<close>

lemma concat_replicate_ranges:
  assumes "length ds = length rs" and "\<forall>(x, y) \<in> set rs. x \<le> y"
  shows "length (concat (map (\<lambda>((a, b), d). replicate (b - a) d) (zip rs ds)))
    = length (concat (map (\<lambda>(x, y). [x..<y]) rs))"
  using assms
proof (induction rs arbitrary: ds)
  case (Cons r rs)
  then show ?case by (cases ds) (auto split: prod.splits)
qed simp

lemma pipeline_parallel_mapper:
  assumes "cds \<noteq> []"
  shows "\<exists>mappings. into_mapper lib n device topology (SettingNcclPipelineParallel cds nm)
      = Ok (NcclPipelineParallelMapper mappings nm) \<and> length mappings = n"
proof -
  have "0 < length cds" using assms by simp
  from split_range_Ok [OF this, of 0 n] obtain rs where rs: "split_range (0, n) (length cds) = Ok rs"
    "length rs = length cds" "concat (map (\<lambda>(x, y). [x..<y]) rs) = [0..<n]" "\<forall>(x, y) \<in> set rs. x \<le> y"
    by fastforce
  from concat_replicate_ranges [of cds rs] rs show ?thesis by (simp add: into_mapper_def)
qed

section \<open>A device for every layer\<close>

text \<open>\<open>opens\<close>: the device of every entry can be opened and seeded.\<close>

definition opens :: "device_lib \<Rightarrow> device \<Rightarrow> device_layer list \<Rightarrow> bool" where
  "opens lib device entries \<longleftrightarrow> is_cpu device \<or> (\<exists>seed. get_current_seed lib device = Ok seed
     \<and> (\<forall>e \<in> set entries. is_ok (device_of_entry lib device (Some seed) e)))"

lemma device_of_entry_length:
  "device_of_entry lib device seed e = Ok ds \<Longrightarrow> length ds = dl_layers e"
  by (auto simp: device_of_entry_def res_simps)

lemma rmap_total:
  assumes "\<forall>x \<in> set xs. is_ok (f x)"
  shows "\<exists>ys. rmap f xs = Ok ys"
  using assms by (induction xs) (auto simp: is_ok_def split: sum.splits)

lemma rmap_lengths:
  assumes "rmap f xs = Ok ys" and "\<And>x y. f x = Ok y \<Longrightarrow> length y = g x"
  shows "length (concat ys) = sum_list (map g xs)"
  using assms by (induction xs arbitrary: ys) (auto simp: res_simps)

lemma combined_devices_Ok:
  assumes "opens lib device entries" and "n = min (sum_list (map dl_layers entries)) N"
  shows "\<exists>ds. combined_devices lib device entries n = Ok ds
    \<and> length ds = (if length entries = 1 then n else sum_list (map dl_layers entries))"
proof (cases "length entries = 1")
  case True
  then show ?thesis by (simp add: combined_devices_def)
next
  case False
  have "\<exists>seed. (if is_cpu device then Ok None else rbind (get_current_seed lib device) (\<lambda>s. Ok (Some s))) = Ok seed
      \<and> (\<forall>e \<in> set entries. is_ok (device_of_entry lib device seed e))"
    using assms(1) by (auto simp: opens_def is_cpu_def device_of_entry_def is_ok_def)
  then obtain seed where seed: "(if is_cpu device then Ok None else rbind (get_current_seed lib device) (\<lambda>s. Ok (Some s))) = Ok seed"
    "\<forall>e \<in> set entries. is_ok (device_of_entry lib device seed e)" by blast
  from rmap_total [OF seed(2)] obtain ds where ds: "rmap (device_of_entry lib device seed) entries = Ok ds" by blast
  from rmap_lengths [OF ds device_of_entry_length] False seed(1) ds show ?thesis
    by (simp add: combined_devices_def)
qed

lemma map_by_metadata_Ok:
  assumes "opens lib device entries" and "sum_list (map dl_layers entries) \<le> n \<or> length entries = 1" and "0 < n"
  shows "\<exists>ds. map_by_metadata lib n device (from_num_device_layers entries) = Ok (LayerDeviceMapper ds device) \<and> length ds = n"
proof -
  let ?k = "min (sum_list (map dl_layers entries)) n"
  obtain ds where ds: "combined_devices lib device entries ?k = Ok ds" "length ds = ?k"
    using combined_devices_Ok [OF assms(1) refl, of n] assms(2) by auto
  then have "length (ds @ replicate (n - ?k) Cpu) = n" by simp
  with ds(1) assms(3) show ?thesis
    by (auto simp: map_by_metadata_def from_num_device_layers_def Let_def rassert_def vget_def)
qed

text \<open>
  A device map given by hand, whose devices can be opened, becomes a mapper with one device for
  each of the layers of the model: with a single entry always, with several as long as they name no
  more layers than there are. Several entries that name more layers make the code panic,
  since only their sum is cut down to the layers of the model and not what each of them adds.
\<close>

theorem manual_map_has_a_device_for_every_layer:
  assumes "opens lib device entries" and "0 < n"
  shows "(sum_list (map dl_layers entries) \<le> n \<or> length entries = 1 \<longrightarrow>
       (\<exists>ds. into_mapper lib n device None (SettingMap (from_num_device_layers entries)) = Ok (LayerDeviceMapper ds device)
          \<and> length ds = n \<and> (\<forall>l < n. device_for (LayerDeviceMapper ds device) l False = Some (ds ! l))))
     \<and> (n < sum_list (map dl_layers entries) \<and> length entries \<noteq> 1 \<longrightarrow>
          panics (into_mapper lib n device None (SettingMap (from_num_device_layers entries))))"
proof (intro conjI impI)
  assume "sum_list (map dl_layers entries) \<le> n \<or> length entries = 1"
  from map_by_metadata_Ok [OF assms(1) this assms(2)]
  show "\<exists>ds. into_mapper lib n device None (SettingMap (from_num_device_layers entries)) = Ok (LayerDeviceMapper ds device)
          \<and> length ds = n \<and> (\<forall>l < n. device_for (LayerDeviceMapper ds device) l False = Some (ds ! l))"
    by (auto simp: into_mapper_def device_for_def)
next
  assume many: "n < sum_list (map dl_layers entries) \<and> length entries \<noteq> 1"
  then obtain ds where "combined_devices lib device entries n = Ok ds" "length ds = sum_list (map dl_layers entries)"
    using combined_devices_Ok [OF assms(1), of n n] by auto
  with many show "panics (into_mapper lib n device None (SettingMap (from_num_device_layers entries)))"
    by (simp add: into_mapper_def map_by_metadata_def from_num_device_layers_def Let_def rassert_def)
qed

section \<open>All devices of a kind\<close>

lemma similar_loop_ends:
  assumes "\<forall>i \<in> {ord..<k}. i = b \<or> is_ok (open_at i)" and "k \<noteq> b" and "open_at k = Err e" and "ord \<le> k"
  shows "similar_loop open_at base b ord ds
    = Some (ds @ map (\<lambda>i. if i = b then base else (case open_at i of Inr d \<Rightarrow> d)) [ord..<k])"
  using assms
proof (induction "k - ord" arbitrary: ord ds)
  case 0
  then show ?case by (subst similar_loop.simps) simp
next
  case (Suc m)
  then have "ord < k" "m = k - Suc ord" "\<forall>i \<in> {Suc ord..<k}. i = b \<or> is_ok (open_at i)" by auto
  from Suc.hyps(1) [OF this(2,3) assms(2,3)] this(1) have IH: "similar_loop open_at base b (Suc ord) ds
      = Some (ds @ map (\<lambda>i. if i = b then base else (case open_at i of Inr d \<Rightarrow> d)) [Suc ord..<k])" for ds
    by simp
  have up: "[ord..<k] = ord # [Suc ord..<k]" using \<open>ord < k\<close> by (simp add: upt_conv_Cons)
  show ?case
  proof (cases "ord = b")
    case True
    then show ?thesis using IH up by (subst similar_loop.simps) simp
  next
    case False
    have "ord = b \<or> is_ok (open_at ord)" using Suc.prems(1) \<open>ord < k\<close> by simp
    with False obtain d where "open_at ord = Ok d" by (auto simp: is_ok_def split: sum.splits)
    then show ?thesis using IH up False by (subst similar_loop.simps) simp
  qed
qed

lemma similar_loop_stops_at_a_failure:
  assumes "similar_loop open_at base b ord ds = Some r"
  shows "\<exists>k e. k \<noteq> b \<and> open_at k = Err e"
proof (rule similar_loop.raw_induct [OF _ assms])
  fix loop :: "(nat \<Rightarrow> device res) \<Rightarrow> device \<Rightarrow> nat \<Rightarrow> nat \<Rightarrow> device list \<Rightarrow> device list option"
    and f base c ord ds r
  assume IH: "\<And>f base c ord ds r. loop f base c ord ds = Some r \<Longrightarrow> \<exists>k e. k \<noteq> c \<and> f k = Err e"
    and step: "(if c = ord then loop f base c (ord + 1) (ds @ [base])
      else case f ord of Inl _ \<Rightarrow> Some ds | Inr dev \<Rightarrow> loop f base c (ord + 1) (ds @ [dev])) = Some r"
  then show "\<exists>k e. k \<noteq> c \<and> f k = Err e"
    by (cases "c = ord"; cases "f ord") (auto intro: exI [of _ ord])
qed

text \<open>
  C40. Collecting the devices of the kind of a CUDA device ends exactly when some other ordinal cannot
  be opened; it then has the devices of all lower ordinals in their order, with the given device at its own
  place (and without it, when it lies behind that ordinal).
\<close>

theorem similar_devices_end_at_the_first_gap:
  "(\<forall>k e. k \<noteq> b \<and> new_cuda lib k = Err e \<and> (\<forall>i < k. i = b \<or> is_ok (new_cuda lib i)) \<longrightarrow>
      get_all_similar_devices lib (Cuda b)
        = Some (Ok (map (\<lambda>i. if i = b then Cuda b else (case new_cuda lib i of Inr d \<Rightarrow> d)) [0..<k])))
   \<and> ((\<forall>k. k \<noteq> b \<longrightarrow> is_ok (new_cuda lib k)) \<longrightarrow> get_all_similar_devices lib (Cuda b) = None)"
proof (intro conjI allI impI)
  fix k e assume "k \<noteq> b \<and> new_cuda lib k = Err e \<and> (\<forall>i < k. i = b \<or> is_ok (new_cuda lib i))"
  then show "get_all_similar_devices lib (Cuda b)
        = Some (Ok (map (\<lambda>i. if i = b then Cuda b else (case new_cuda lib i of Inr d \<Rightarrow> d)) [0..<k]))"
    using similar_loop_ends [of 0 k b "new_cuda lib" e "Cuda b" "[]"] by (simp add: get_all_similar_devices_def)
next
  assume all: "\<forall>k. k \<noteq> b \<longrightarrow> is_ok (new_cuda lib k)"
  have "similar_loop (new_cuda lib) (Cuda b) b 0 [] \<noteq> Some r" for r
    using similar_loop_stops_at_a_failure [of "new_cuda lib" "Cuda b" b 0 "[]" r] all by (auto simp: is_ok_def split: sum.splits)
  then show "get_all_similar_devices lib (Cuda b) = None"
    by (cases "similar_loop (new_cuda lib) (Cuda b) b 0 []") (auto simp: get_all_similar_devices_def)
qed

section \<open>Witnesses\<close>

text \<open>A machine with \<open>n\<close> CUDA devices.\<close>

definition cuda_machine :: "nat \<Rightarrow> device_lib" where
  "cuda_machine n =
     (let open_at = (\<lambda>i. if i < n then Ok (Cuda i) else Err (Bail ''no such device''))
      in \<lparr>cuda_if_available = open_at, new_cuda = open_at, new_metal = (\<lambda>_. Err (Bail ''metal'')),
          get_current_seed = (\<lambda>_. Ok 0), set_seed = (\<lambda>_ _. Ok ()), same_device = (=)\<rparr>)"

lemma cuda_machine_opens:
  "\<forall>e \<in> set entries. dl_ordinal e < n \<Longrightarrow> opens (cuda_machine n) (Cuda i) entries"
  by (simp add: opens_def cuda_machine_def device_of_entry_def is_cpu_def is_ok_def Let_def)

theorem manual_map_has_a_device_for_every_layer_witness:
  "(\<exists>ds. into_mapper (cuda_machine 2) 5 (Cuda 0) None (SettingMap (from_num_device_layers
       [\<lparr>dl_ordinal = 0, dl_layers = 2\<rparr>, \<lparr>dl_ordinal = 1, dl_layers = 2\<rparr>])) = Ok (LayerDeviceMapper ds (Cuda 0)) \<and> length ds = 5)
   \<and> panics (into_mapper (cuda_machine 2) 3 (Cuda 0) None (SettingMap (from_num_device_layers
       [\<lparr>dl_ordinal = 0, dl_layers = 2\<rparr>, \<lparr>dl_ordinal = 1, dl_layers = 2\<rparr>])))"
proof -
  let ?es = "[\<lparr>dl_ordinal = 0, dl_layers = 2\<rparr>, \<lparr>dl_ordinal = 1, dl_layers = 2\<rparr>]"
  have "opens (cuda_machine 2) (Cuda 0) ?es" by (rule cuda_machine_opens) simp
  from manual_map_has_a_device_for_every_layer [OF this, of 5] manual_map_has_a_device_for_every_layer [OF this, of 3]
  show ?thesis by auto
qed

theorem similar_devices_end_at_the_first_gap_witness:
  "get_all_similar_devices (cuda_machine 3) (Cuda 1) = Some (Ok [Cuda 0, Cuda 1, Cuda 2])"
proof -
  have "(3 :: nat) \<noteq> 1 \<and> new_cuda (cuda_machine 3) 3 = Err (Bail ''no such device'')
      \<and> (\<forall>i < 3. i = 1 \<or> is_ok (new_cuda (cuda_machine 3) i))"
    by (simp add: cuda_machine_def is_ok_def Let_def)
  then have "get_all_similar_devices (cuda_machine 3) (Cuda 1)
      = Some (Ok (map (\<lambda>i. if i = 1 then Cuda 1 else (case new_cuda (cuda_machine 3) i of Inr d \<Rightarrow> d)) [0..<3]))"
    by (rule similar_devices_end_at_the_first_gap [THEN conjunct1, rule_format])
  then show ?thesis by (simp add: cuda_machine_def upt_rec Let_def)
qed

end
