(* ===== verification/Auto_Map.thy ===== *)
theory Auto_Map
  imports Device_Map
begin

text \<open>
  How much memory the key-value cache of PagedAttention gets
  (\<^verbatim>\<open>mistralrs-core/src/paged_attention/mod.rs\<close>) and how automatic device mapping spreads the layers
  of a model over the devices (\<^verbatim>\<open>get_device_layers\<close> in \<^verbatim>\<open>mistralrs-core/src/pipeline/loaders/mod.rs\<close>).

  What a model's loader knows of its sizes, the memory of the devices, and the operations on
  floating point numbers are parameters. The lemmas bound the cache by the context it is for, show
  that the mapping never has more layers than the model, and what a second calculation forgets.
\<close>

section \<open>The cache\<close>

record model_config =
  mc_max_seq_len :: nat
  mc_num_layers :: nat
  mc_hidden_size :: nat
  mc_num_kv_heads :: nat
  mc_num_attn_heads :: nat
  mc_sliding_window :: "nat option"
  mc_k_head_dim :: nat
  mc_v_head_dim :: nat

record cache_config =
  cc_block_size :: nat
  cc_num_gpu_blocks :: nat
  cc_num_cpu_blocks :: nat

datatype 'u memory_gpu_config = MbAmount nat | Utilization 'u | ContextSize nat

record 'u paged_attention_config =
  pac_block_size :: "nat option"
  pac_mem_cpu :: nat
  pac_mem_gpu :: "'u memory_gpu_config"

definition default_paged_attention_block_size :: nat where
  "default_paged_attention_block_size = 32"

definition supported_block_size :: "nat list" where
  "supported_block_size = [8, 16, 32]"

definition size_in_mb :: nat where
  "size_in_mb = 1024 * 1024"

definition mb_to_blocks :: "nat \<Rightarrow> nat \<Rightarrow> nat \<Rightarrow> model_config \<Rightarrow> nat res" where
  "mb_to_blocks mb_size dtype_size block_size c =
     rbind (udiv mb_size dtype_size) (\<lambda>x. rbind (udiv x block_size) (\<lambda>x.
     rbind (udiv x (mc_num_kv_heads c)) (\<lambda>x. rbind (udiv x (max (mc_k_head_dim c) (mc_v_head_dim c))) (\<lambda>x.
     rbind (udiv x (mc_num_layers c)) (\<lambda>x. udiv x 2)))))"

definition ctxt_to_blocks :: "nat \<Rightarrow> nat \<Rightarrow> model_config \<Rightarrow> nat" where
  "ctxt_to_blocks context_len dtype_size c =
     context_len * dtype_size * mc_num_kv_heads c * max (mc_k_head_dim c) (mc_v_head_dim c) * mc_num_layers c * 2"

text \<open>
  The memory of the devices, and \<open>utilize f free total\<close> for
  \<^verbatim>\<open>(total * f - used) as usize\<close> on 32 bit floating point numbers of megabytes.
\<close>

record 'u memory_lib =
  memory_available :: "device \<Rightarrow> nat res"
  total_memory :: "device \<Rightarrow> nat res"
  utilize :: "'u \<Rightarrow> nat \<Rightarrow> nat \<Rightarrow> nat"

definition mem_on_device :: "'u memory_lib \<Rightarrow> 'u memory_gpu_config \<Rightarrow> nat \<Rightarrow> model_config \<Rightarrow> device \<Rightarrow> nat res" where
  "mem_on_device lib mem_gpu dtype_size c device =
     (case mem_gpu of
        MbAmount v \<Rightarrow> Ok v
      | Utilization f \<Rightarrow>
          rbind (memory_available lib device) (\<lambda>free. rbind (total_memory lib device) (\<lambda>total. Ok (utilize lib f free total)))
      | ContextSize toks \<Rightarrow> Ok (ctxt_to_blocks toks dtype_size c div size_in_mb))"

text \<open>The least memory of the devices of the layers; \<^verbatim>\<open>usize::MAX\<close> without layers.\<close>

definition min_memory :: "'u memory_lib \<Rightarrow> 'u memory_gpu_config \<Rightarrow> nat \<Rightarrow> model_config \<Rightarrow> device \<Rightarrow> device option list \<Rightarrow> nat res" where
  "min_memory lib mem_gpu dtype_size c device layer_devices =
     rfold (\<lambda>d m. rbind (mem_on_device lib mem_gpu dtype_size c (case d of None \<Rightarrow> device | Some d \<Rightarrow> d)) (\<lambda>x. Ok (min m x)))
       layer_devices (2 ^ 64 - 1)"

definition calculate_cache_config :: "'u memory_lib \<Rightarrow> 'u memory_gpu_config \<Rightarrow> nat \<Rightarrow> nat option \<Rightarrow> nat \<Rightarrow> model_config
    \<Rightarrow> device \<Rightarrow> device option list \<Rightarrow> cache_config res" where
  "calculate_cache_config lib mem_gpu mem_cpu block_size dtype_size c device layer_devices =
     (let block_size = (case block_size of None \<Rightarrow> default_paged_attention_block_size | Some b \<Rightarrow> b)
      in if block_size \<notin> set supported_block_size then Err (Bail ''Block size must be in [8, 16, 32]'')
         else rbind (min_memory lib mem_gpu dtype_size c device layer_devices) (\<lambda>min_mem_gpu.
              let mem_for_toks = ctxt_to_blocks (mc_max_seq_len c) dtype_size c div size_in_mb;
                  mem_gpu = min min_mem_gpu mem_for_toks
              in rbind (mb_to_blocks (mem_gpu * size_in_mb) dtype_size block_size c) (\<lambda>num_gpu_blocks.
                 rbind (mb_to_blocks (mem_cpu * size_in_mb) dtype_size block_size c) (\<lambda>num_cpu_blocks.
                 if num_gpu_blocks = 0 then Err (Bail ''Num GPU blocks is 0.'')
                 else Ok \<lparr>cc_block_size = block_size, cc_num_gpu_blocks = num_gpu_blocks, cc_num_cpu_blocks = num_cpu_blocks\<rparr>))))"

section \<open>Automatic mapping\<close>

datatype auto_device_map_params =
    AutoText (max_seq_len: nat) (max_batch_size: nat)
  | AutoVision (max_seq_len: nat) (max_batch_size: nat) (max_image_shape: "nat \<times> nat") (max_num_images: nat)

definition default_text :: auto_device_map_params where
  "default_text = AutoText (4 * 1024) 1"

definition default_vision :: auto_device_map_params where
  "default_vision = AutoVision (4 * 1024) 1 (1024, 1024) 1"

definition calculate_key_block_shape :: "model_config \<Rightarrow> nat \<Rightarrow> nat \<Rightarrow> (nat \<times> nat \<times> nat \<times> nat) res" where
  "calculate_key_block_shape c element_size block_size =
     rbind (udiv 16 element_size) (\<lambda>x. rbind (udiv (mc_k_head_dim c) x) (\<lambda>k.
     Ok (mc_num_kv_heads c, k, block_size, x)))"

definition calculate_value_block_shape :: "model_config \<Rightarrow> nat \<Rightarrow> nat \<times> nat \<times> nat" where
  "calculate_value_block_shape c block_size = (mc_num_kv_heads c, mc_v_head_dim c, block_size)"

text \<open>
  What a call knows: the answers of the loader for its configuration and parameters, the sizes it
  was given, the devices. \<open>am_ninety\<close> is \<^verbatim>\<open>(n as f64 * 0.90) as usize\<close>.
\<close>

record 'u auto_map =
  am_mapped_act_elems :: "nat res"
  am_non_mapped_act_elems :: "nat res"
  am_config :: "model_config res"
  am_num_layers :: nat
  am_non_mapped_size :: nat
  am_total_size :: nat
  am_devices :: "device list"
  am_dtype_size :: nat
  am_params :: auto_device_map_params
  am_memory :: "'u memory_lib"
  am_ninety :: "nat \<Rightarrow> nat"

definition kv_cache_size_elems :: "'u auto_map \<Rightarrow> 'u paged_attention_config option \<Rightarrow> nat res" where
  "kv_cache_size_elems a paged =
     rbind (am_config a) (\<lambda>c.
     case paged of
       Some p \<Rightarrow>
         rbind (vget (am_devices a) 0) (\<lambda>d0.
         rbind (calculate_cache_config (am_memory a) (ContextSize (max_seq_len (am_params a))) 0
           (Some (case pac_block_size p of None \<Rightarrow> default_paged_attention_block_size | Some b \<Rightarrow> b))
           (am_dtype_size a) c d0 (map Some (am_devices a))) (\<lambda>cc.
         rbind (calculate_key_block_shape c (am_dtype_size a) (cc_block_size cc)) (\<lambda>(k0, k1, k2, k3).
         case calculate_value_block_shape c (cc_block_size cc) of (v0, v1, v2) \<Rightarrow>
           Ok (cc_num_gpu_blocks cc * k0 * k1 * k2 * k3 + cc_num_gpu_blocks cc * v0 * v1 * v2))))
     | None \<Rightarrow>
         Ok (max_batch_size (am_params a) * mc_num_kv_heads c * max_seq_len (am_params a) * mc_k_head_dim c
           + max_batch_size (am_params a) * mc_num_kv_heads c * max_seq_len (am_params a) * mc_v_head_dim c))"

text \<open>
  The state of the loop over the devices. The source reverses the vectors of devices and of layer
  sizes and pops from their back; the lists here are read from their front.
\<close>

record map_state =
  ms_remaining :: nat
  ms_ordinal :: nat
  ms_layer :: nat
  ms_sizes :: "nat list"
  ms_device_layers :: "device_layer list"
  ms_includes_cpu :: bool

text \<open>Layers are put on a device while they fit; the result counts them and what they use.\<close>

fun fit_layers :: "nat \<Rightarrow> nat \<Rightarrow> nat \<Rightarrow> nat \<Rightarrow> nat \<Rightarrow> nat list \<Rightarrow> nat \<times> nat \<times> nat list" where
  "fit_layers kv capacity used used_no_act n [] = (n, used_no_act, [])"
| "fit_layers kv capacity used used_no_act n (sz # sizes) =
     (if capacity < used + (sz + kv) then (n, used_no_act, sz # sizes)
      else fit_layers kv capacity (used + (sz + kv)) (used_no_act + (sz + kv)) (n + 1) sizes)"

definition place_layers :: "device \<Rightarrow> nat \<Rightarrow> map_state \<Rightarrow> map_state" where
  "place_layers device n s =
     (if \<not> is_cpu device
      then s\<lparr>ms_device_layers := ms_device_layers s @ [\<lparr>dl_ordinal = ms_ordinal s, dl_layers = n\<rparr>],
             ms_ordinal := ms_ordinal s + 1, ms_layer := ms_layer s + n\<rparr>
      else s\<lparr>ms_includes_cpu := True, ms_layer := ms_layer s + n\<rparr>)"

fun map_loop :: "nat \<Rightarrow> nat \<Rightarrow> nat \<Rightarrow> nat \<Rightarrow> nat \<Rightarrow> (nat \<Rightarrow> nat) \<Rightarrow> (nat \<times> device) list \<Rightarrow> map_state \<Rightarrow> map_state res" where
  "map_loop act nm_act nm_size kv num_layers ninety [] s = Ok s"
| "map_loop act nm_act nm_size kv num_layers ninety ((avail, device) # rest) s =
     (if ms_remaining s = 0 then Ok s
      else
        let capacity = ninety avail
        in if ms_ordinal s = 0 \<and> ms_remaining s + nm_act + act \<le> capacity
            \<or> ms_ordinal s \<noteq> 0 \<and> ms_remaining s + act \<le> capacity
           then rbind (usub num_layers (ms_layer s)) (\<lambda>n.
                map_loop act nm_act nm_size kv num_layers ninety rest (place_layers device n (s\<lparr>ms_remaining := 0\<rparr>)))
           else
             let used = (if ms_ordinal s = 0 then max act nm_act + nm_size else act);
                 (n, used_no_act, sizes) = fit_layers kv capacity used act 0 (ms_sizes s)
             in if 0 < n
                then map_loop act nm_act nm_size kv num_layers ninety rest
                       (place_layers device n (s\<lparr>ms_remaining := ms_remaining s - used_no_act, ms_sizes := sizes\<rparr>))
                else map_loop act nm_act nm_size kv num_layers ninety rest
                       (s\<lparr>ms_sizes := sizes, ms_ordinal := ms_ordinal s + 1\<rparr>))"

definition map_round :: "'u auto_map \<Rightarrow> nat list \<Rightarrow> 'u paged_attention_config option \<Rightarrow> map_state res" where
  "map_round a sizes paged =
     rbind (am_mapped_act_elems a) (\<lambda>act. rbind (am_non_mapped_act_elems a) (\<lambda>nm_act.
     rbind (kv_cache_size_elems a paged) (\<lambda>kv.
     rbind (rmap (\<lambda>d. rbind (memory_available (am_memory a) d) (\<lambda>m. Ok (m, d))) (am_devices a @ [Cpu])) (\<lambda>avail.
     map_loop (act * am_dtype_size a) (nm_act * am_dtype_size a) (am_non_mapped_size a) (kv * am_dtype_size a)
       (am_num_layers a) (am_ninety a) avail
       \<lparr>ms_remaining = am_total_size a, ms_ordinal = 0, ms_layer = 0, ms_sizes = sizes,
        ms_device_layers = [], ms_includes_cpu = False\<rparr>))))"

text \<open>
  The second calculation is given the vector of sizes as the loop left it, which is reversed.
\<close>

function get_device_layers :: "'u auto_map \<Rightarrow> nat list \<Rightarrow> 'u paged_attention_config option \<Rightarrow> device_map_metadata res" where
  "get_device_layers a sizes paged =
     (case map_round a sizes paged of Inl e \<Rightarrow> Err e
      | Inr s \<Rightarrow>
          if 0 < ms_remaining s then Err (Bail ''This model does not fit on the devices'')
          else if paged \<noteq> None \<and> ms_includes_cpu s then get_device_layers a (rev (ms_sizes s)) None
          else Ok (from_num_device_layers (ms_device_layers s)))"
  by pat_completeness auto
termination
  by (relation "measure (\<lambda>(a, sizes, paged). case paged of None \<Rightarrow> 0 | Some _ \<Rightarrow> 1)") (auto split: option.splits)

declare get_device_layers.simps [simp del]

section \<open>The memory of the cache\<close>

lemma udiv_eq_Inr [res_simps]: "udiv a b = Inr c \<longleftrightarrow> b \<noteq> 0 \<and> c = a div b"
  by (auto simp: udiv_def)

text \<open>The bytes of a token in the caches of all layers.\<close>

definition token_bytes :: "nat \<Rightarrow> model_config \<Rightarrow> nat" where
  "token_bytes dtype_size c = ctxt_to_blocks 1 dtype_size c"

lemma ctxt_to_blocks_tokens: "ctxt_to_blocks n dtype_size c = n * token_bytes dtype_size c"
  by (simp add: ctxt_to_blocks_def token_bytes_def)

lemma mb_to_blocks_Ok:
  assumes "mb_to_blocks mem dtype_size block_size c = Ok n"
  shows "n = mem div (block_size * token_bytes dtype_size c)" and "0 < block_size * token_bytes dtype_size c"
proof -
  let ?d = "max (mc_k_head_dim c) (mc_v_head_dim c)"
  have n: "n = mem div dtype_size div block_size div mc_num_kv_heads c div ?d div mc_num_layers c div 2"
    "dtype_size \<noteq> 0" "block_size \<noteq> 0" "mc_num_kv_heads c \<noteq> 0" "?d \<noteq> 0" "mc_num_layers c \<noteq> 0"
    using assms by (auto simp: mb_to_blocks_def res_simps)
  then have "n = mem div (dtype_size * block_size * mc_num_kv_heads c * ?d * mc_num_layers c * 2)"
    by (simp only: div_mult2_eq)
  moreover have "dtype_size * block_size * mc_num_kv_heads c * ?d * mc_num_layers c * 2 = block_size * token_bytes dtype_size c"
    by (simp add: token_bytes_def ctxt_to_blocks_def ac_simps)
  ultimately show "n = mem div (block_size * token_bytes dtype_size c)" by simp
  show "0 < block_size * token_bytes dtype_size c"
    using n(2-6) by (simp add: token_bytes_def ctxt_to_blocks_def less_max_iff_disj)
qed

lemma min_memory_le:
  assumes "min_memory lib mem_gpu dtype_size c device ds = Ok m" and "d \<in> set ds"
    and "mem_on_device lib mem_gpu dtype_size c (case d of None \<Rightarrow> device | Some d \<Rightarrow> d) = Ok x"
  shows "m \<le> x"
proof -
  let ?f = "\<lambda>d m. rbind (mem_on_device lib mem_gpu dtype_size c (case d of None \<Rightarrow> device | Some d \<Rightarrow> d)) (\<lambda>x. Ok (min m x))"
  have below: "rfold ?f ds k = Ok m \<Longrightarrow> m \<le> k" for k ds
    by (induction ds arbitrary: k) (fastforce simp: res_simps)+
  have "rfold ?f ds k = Ok m \<Longrightarrow> d \<in> set ds \<Longrightarrow> m \<le> x" for k
    using assms(3) by (induction ds arbitrary: k) (auto simp: res_simps dest: below)
  then show ?thesis using assms(1,2) unfolding min_memory_def by blast
qed

text \<open>
  The cache never has room for more tokens than the longest context of the model, all sequences
  together, and never takes more memory than the devices were allowed. A cache that was asked for
  by its context size holds that context up to a block and a megabyte, which the whole megabytes of the
  calculation lose.
\<close>

theorem cache_fits_memory_and_context:
  assumes "calculate_cache_config lib mem_gpu mem_cpu block_size dtype_size c device ds = Ok cc"
  shows "cc_num_gpu_blocks cc * cc_block_size cc \<le> mc_max_seq_len c \<and> 0 < cc_num_gpu_blocks cc
    \<and> (\<forall>d \<in> set ds. \<forall>x. mem_on_device lib mem_gpu dtype_size c (case d of None \<Rightarrow> device | Some d \<Rightarrow> d) = Ok x \<longrightarrow>
         cc_num_gpu_blocks cc * cc_block_size cc * token_bytes dtype_size c \<le> x * size_in_mb)
    \<and> cc_num_cpu_blocks cc * cc_block_size cc * token_bytes dtype_size c \<le> mem_cpu * size_in_mb
    \<and> (\<forall>n. mem_gpu = ContextSize n \<and> n \<le> mc_max_seq_len c \<and> ds \<noteq> [] \<and> ctxt_to_blocks n dtype_size c div size_in_mb < 2 ^ 64 \<longrightarrow>
         n * token_bytes dtype_size c
           < (cc_num_gpu_blocks cc + 1) * cc_block_size cc * token_bytes dtype_size c + size_in_mb)"
proof -
  let ?t = "token_bytes dtype_size c" and ?B = "cc_block_size cc"
  obtain m where m: "min_memory lib mem_gpu dtype_size c device ds = Ok m"
    and n: "mb_to_blocks (min m (ctxt_to_blocks (mc_max_seq_len c) dtype_size c div size_in_mb) * size_in_mb) dtype_size ?B c
      = Ok (cc_num_gpu_blocks cc)" "0 < cc_num_gpu_blocks cc"
    and cpu: "mb_to_blocks (mem_cpu * size_in_mb) dtype_size ?B c = Ok (cc_num_cpu_blocks cc)"
    using assms by (auto simp: calculate_cache_config_def Let_def res_simps split: if_splits)
  let ?mem = "min m (ctxt_to_blocks (mc_max_seq_len c) dtype_size c div size_in_mb) * size_in_mb"
  note num = mb_to_blocks_Ok [OF n(1)]
  have "cc_num_gpu_blocks cc * (?B * ?t) \<le> ?mem" unfolding num(1) by (rule div_times_less_eq_dividend)
  then have le: "cc_num_gpu_blocks cc * ?B * ?t \<le> ?mem" by (simp only: mult.assoc)
  have "?mem \<le> ctxt_to_blocks (mc_max_seq_len c) dtype_size c div size_in_mb * size_in_mb" by (intro mult_right_mono) simp_all
  also have "\<dots> \<le> mc_max_seq_len c * ?t" by (simp add: ctxt_to_blocks_tokens)
  finally have "cc_num_gpu_blocks cc * ?B * ?t \<le> mc_max_seq_len c * ?t" using le by (rule le_trans [rotated])
  then have ctx: "cc_num_gpu_blocks cc * ?B \<le> mc_max_seq_len c" using num(2) by simp
  have dev: "cc_num_gpu_blocks cc * ?B * ?t \<le> x * size_in_mb"
    if "d \<in> set ds" "mem_on_device lib mem_gpu dtype_size c (case d of None \<Rightarrow> device | Some d \<Rightarrow> d) = Ok x" for d x
  proof -
    have "min m (ctxt_to_blocks (mc_max_seq_len c) dtype_size c div size_in_mb) \<le> x" using min_memory_le [OF m that] by simp
    then have "?mem \<le> x * size_in_mb" by (intro mult_right_mono) simp_all
    with le show ?thesis by (rule le_trans)
  qed
  have "cc_num_cpu_blocks cc * (?B * ?t) \<le> mem_cpu * size_in_mb" unfolding mb_to_blocks_Ok(1) [OF cpu] by (rule div_times_less_eq_dividend)
  moreover have "k * ?t < (cc_num_gpu_blocks cc + 1) * ?B * ?t + size_in_mb"
    if k: "mem_gpu = ContextSize k" "k \<le> mc_max_seq_len c" "ds \<noteq> []" "ctxt_to_blocks k dtype_size c div size_in_mb < 2 ^ 64" for k
  proof -
    let ?x = "ctxt_to_blocks k dtype_size c div size_in_mb"
    have "rfold (\<lambda>d m. rbind (mem_on_device lib mem_gpu dtype_size c (case d of None \<Rightarrow> device | Some d \<Rightarrow> d)) (\<lambda>x. Ok (min m x))) ds y
        = Ok (if ds = [] then y else min y ?x)" for ds y
      using k(1) by (induction ds arbitrary: y) (auto simp: mem_on_device_def)
    with m k have "m = ?x" by (simp add: min_memory_def min_def split: if_splits)
    moreover have "?x \<le> ctxt_to_blocks (mc_max_seq_len c) dtype_size c div size_in_mb"
      using k(2) by (intro div_le_mono) (simp add: ctxt_to_blocks_tokens)
    ultimately have mem: "?mem = ?x * size_in_mb" by simp
    have "ctxt_to_blocks k dtype_size c < ?x * size_in_mb + size_in_mb"
      using mod_less_divisor [of size_in_mb "ctxt_to_blocks k dtype_size c"] div_mult_mod_eq [of "ctxt_to_blocks k dtype_size c" size_in_mb]
      by (simp add: size_in_mb_def)
    then have "k * ?t < ?mem + size_in_mb" unfolding mem by (simp only: ctxt_to_blocks_tokens)
    moreover have "?mem < (cc_num_gpu_blocks cc + 1) * (?B * ?t)"
      using num dividend_less_div_times [of "?B * ?t" ?mem] by simp
    then have "?mem < (cc_num_gpu_blocks cc + 1) * ?B * ?t" by (simp only: mult.assoc)
    ultimately show ?thesis by linarith
  qed
  ultimately show ?thesis using ctx n(2) dev by (simp only: mult.assoc) blast
qed

section \<open>The layers of a device\<close>

lemma fit_layers_prefix:
  assumes "fit_layers kv capacity used no_act n sizes = (n', no_act', rest)"
  shows "\<exists>k \<le> length sizes. n' = n + k \<and> rest = drop k sizes \<and> no_act' = no_act + sum_list (take k sizes) + k * kv
     \<and> (0 < k \<longrightarrow> used + sum_list (take k sizes) + k * kv \<le> capacity)
     \<and> (k < length sizes \<longrightarrow> capacity < used + sum_list (take (k + 1) sizes) + (k + 1) * kv)"
  using assms
proof (induction sizes arbitrary: used no_act n)
  case (Cons x sizes)
  show ?case
  proof (cases "capacity < used + (x + kv)")
    case True
    then show ?thesis using Cons.prems by (intro exI [of _ 0]) auto
  next
    case False
    then have "fit_layers kv capacity (used + (x + kv)) (no_act + (x + kv)) (n + 1) sizes = (n', no_act', rest)"
      using Cons.prems by simp
    from Cons.IH [OF this] obtain k where "k \<le> length sizes" "n' = n + 1 + k" "rest = drop k sizes"
      "no_act' = no_act + (x + kv) + sum_list (take k sizes) + k * kv"
      "0 < k \<longrightarrow> used + (x + kv) + sum_list (take k sizes) + k * kv \<le> capacity"
      "k < length sizes \<longrightarrow> capacity < used + (x + kv) + sum_list (take (k + 1) sizes) + (k + 1) * kv" by blast
    with False show ?thesis by (intro exI [of _ "k + 1"]) (cases "k = 0"; auto simp: not_less)
  qed
qed simp

definition layers_placed :: "map_state \<Rightarrow> nat" where
  "layers_placed s = sum_list (map dl_layers (ms_device_layers s))"

definition map_inv :: "nat \<Rightarrow> map_state \<Rightarrow> bool" where
  "map_inv N s \<longleftrightarrow> layers_placed s \<le> ms_layer s \<and> ms_layer s \<le> N
     \<and> (ms_remaining s \<noteq> 0 \<longrightarrow> ms_layer s + length (ms_sizes s) \<le> N)"

lemma place_layers_simps [simp]:
  "ms_remaining (place_layers d n s) = ms_remaining s" "ms_sizes (place_layers d n s) = ms_sizes s"
  "ms_layer (place_layers d n s) = ms_layer s + n"
  by (simp_all add: place_layers_def)

lemma layers_placed_le: "layers_placed (place_layers d n s) \<le> layers_placed s + n"
  by (simp add: place_layers_def layers_placed_def)

lemma layers_placed_update [simp]:
  "layers_placed (s\<lparr>ms_remaining := r\<rparr>) = layers_placed s" "layers_placed (s\<lparr>ms_sizes := z\<rparr>) = layers_placed s"
  "layers_placed (s\<lparr>ms_ordinal := i\<rparr>) = layers_placed s"
  by (simp_all add: layers_placed_def)

lemma map_loop_greedy:
  assumes "ms_remaining s \<noteq> 0"
    and "\<not> (ms_ordinal s = 0 \<and> ms_remaining s + nm_act + act \<le> ninety avail
        \<or> ms_ordinal s \<noteq> 0 \<and> ms_remaining s + act \<le> ninety avail)"
    and "fit_layers kv (ninety avail) (if ms_ordinal s = 0 then max act nm_act + nm_size else act) act 0 (ms_sizes s)
      = (n, no_act, rs)"
  shows "map_loop act nm_act nm_size kv N ninety ((avail, device) # rest) s
    = map_loop act nm_act nm_size kv N ninety rest
        (if 0 < n then place_layers device n (s\<lparr>ms_remaining := ms_remaining s - no_act, ms_sizes := rs\<rparr>)
         else s\<lparr>ms_sizes := rs, ms_ordinal := ms_ordinal s + 1\<rparr>)"
  using assms by (cases "ms_ordinal s = 0") (simp_all add: Let_def)

lemma map_loop_layers:
  assumes "map_inv N s"
  shows "\<exists>s' k. map_loop act nm_act nm_size kv N ninety avail s = Ok s' \<and> map_inv N s'
     \<and> ms_sizes s' = drop k (ms_sizes s)"
  using assms
proof (induction avail arbitrary: s)
  case Nil
  then show ?case by (auto intro: exI [of _ 0])
next
  case (Cons p rest)
  obtain avail device where p: "p = (avail, device)" by (cases p)
  let ?loop = "map_loop act nm_act nm_size kv N ninety"
  show ?case
  proof (cases "ms_remaining s = 0")
    case True
    then show ?thesis using Cons.prems p by (auto intro: exI [of _ 0])
  next
    case False
    let ?cap = "ninety avail"
    let ?all = "ms_ordinal s = 0 \<and> ms_remaining s + nm_act + act \<le> ?cap
        \<or> ms_ordinal s \<noteq> 0 \<and> ms_remaining s + act \<le> ?cap"
    have inv: "layers_placed s \<le> ms_layer s" "ms_layer s + length (ms_sizes s) \<le> N"
      using Cons.prems False by (simp_all add: map_inv_def)
    show ?thesis
    proof (cases ?all)
      case True
      let ?s = "place_layers device (N - ms_layer s) (s\<lparr>ms_remaining := 0\<rparr>)"
      have "map_inv N ?s"
        using inv layers_placed_le [of device "N - ms_layer s" "s\<lparr>ms_remaining := 0\<rparr>"] by (simp add: map_inv_def)
      moreover have "?loop (p # rest) s = ?loop rest ?s" using False True inv(2) p by simp
      ultimately show ?thesis using Cons.IH [of ?s] by simp
    next
      case no: False
      obtain n no_act rs where f: "fit_layers kv ?cap (if ms_ordinal s = 0 then max act nm_act + nm_size else act) act 0
          (ms_sizes s) = (n, no_act, rs)" by (metis prod_cases3)
      from fit_layers_prefix [OF f] have n: "n \<le> length (ms_sizes s)" "rs = drop n (ms_sizes s)" by auto
      show ?thesis
      proof (cases "0 < n")
        case True
        let ?s = "place_layers device n (s\<lparr>ms_remaining := ms_remaining s - no_act, ms_sizes := rs\<rparr>)"
        have "map_inv N ?s"
          using inv n layers_placed_le [of device n "s\<lparr>ms_remaining := ms_remaining s - no_act, ms_sizes := rs\<rparr>"]
          by (simp add: map_inv_def)
        then obtain s' k where "?loop rest ?s = Ok s'" "map_inv N s'" "ms_sizes s' = drop k (drop n (ms_sizes s))"
          using Cons.IH [of ?s] n(2) by auto
        moreover have "?loop (p # rest) s = ?loop rest ?s" using map_loop_greedy [of s nm_act act ninety avail, OF False no f] True p by simp
        ultimately show ?thesis by auto
      next
        case none: False
        let ?s = "s\<lparr>ms_sizes := rs, ms_ordinal := ms_ordinal s + 1\<rparr>"
        have "map_inv N ?s" using inv n Cons.prems none by (simp add: map_inv_def)
        then obtain s' k where "?loop rest ?s = Ok s'" "map_inv N s'" "ms_sizes s' = drop k (ms_sizes s)"
          using Cons.IH [of ?s] n(2) none by auto
        moreover have "?loop (p # rest) s = ?loop rest ?s" using map_loop_greedy [of s nm_act act ninety avail, OF False no f] none p by simp
        ultimately show ?thesis by auto
      qed
    qed
  qed
qed

lemma map_round_layers:
  assumes "map_round a sizes paged = Ok s" and "length sizes \<le> am_num_layers a"
  shows "map_inv (am_num_layers a) s" and "\<exists>k. ms_sizes s = drop k sizes"
proof -
  let ?s = "\<lparr>ms_remaining = am_total_size a, ms_ordinal = 0, ms_layer = 0, ms_sizes = sizes,
        ms_device_layers = [], ms_includes_cpu = False\<rparr>"
  obtain act nm kv avail where "map_loop (act * am_dtype_size a) (nm * am_dtype_size a) (am_non_mapped_size a)
      (kv * am_dtype_size a) (am_num_layers a) (am_ninety a) avail ?s = Ok s"
    using assms(1) by (auto simp: map_round_def res_simps)
  moreover have "map_inv (am_num_layers a) ?s" using assms(2) by (simp add: map_inv_def layers_placed_def)
  ultimately show "map_inv (am_num_layers a) s" "\<exists>k. ms_sizes s = drop k sizes"
    using map_loop_layers [of "am_num_layers a" ?s] by (metis Inr_inject, metis Inr_inject map_state.select_convs(4))
qed

lemma get_device_layers_sum:
  assumes "get_device_layers a sizes paged = Ok m" and "length sizes \<le> am_num_layers a"
  shows "\<exists>ls. m = from_num_device_layers ls \<and> sum_list (map dl_layers ls) \<le> am_num_layers a"
  using assms
proof (induction a sizes paged rule: get_device_layers.induct)
  case (1 a sizes paged)
  obtain s where s: "map_round a sizes paged = Ok s" "ms_remaining s = 0"
    using "1.prems"(1) by (subst (asm) get_device_layers.simps) (auto split: sum.splits if_splits)
  note layers = map_round_layers [OF s(1) "1.prems"(2)]
  show ?case
  proof (cases "paged \<noteq> None \<and> ms_includes_cpu s")
    case True
    then have "get_device_layers a (rev (ms_sizes s)) None = Ok m"
      using "1.prems"(1) s by (subst (asm) get_device_layers.simps) simp
    moreover have "length (rev (ms_sizes s)) \<le> am_num_layers a" using layers(2) "1.prems"(2) by auto
    ultimately show ?thesis using "1.IH" [OF s(1)] s(2) True by simp
  next
    case False
    then have "m = from_num_device_layers (ms_device_layers s)"
      using "1.prems"(1) s by (subst (asm) get_device_layers.simps) auto
    with layers(1) show ?thesis by (auto simp: map_inv_def layers_placed_def)
  qed
qed

section \<open>Properties of the mapping\<close>

text \<open>
  C37. Whatever automatic mapping answers for a model, with or without PagedAttention, becomes a mapper
  that has exactly one device for every layer: it never names more layers than the model has, and
  the layers it leaves out go to the CPU.
\<close>

theorem automatic_map_has_a_device_for_every_layer:
  assumes "get_device_layers a sizes paged = Ok m" and "length sizes = am_num_layers a" and "0 < am_num_layers a"
    and "\<And>ls. m = from_num_device_layers ls \<Longrightarrow> opens lib device ls"
  shows "\<exists>ds. into_mapper lib (am_num_layers a) device None (SettingMap m) = Ok (LayerDeviceMapper ds device)
     \<and> length ds = am_num_layers a
     \<and> (\<forall>l < am_num_layers a. mapper_map (LayerDeviceMapper ds device) l = Ok (Some (ds ! l)))"
proof -
  obtain ls where ls: "m = from_num_device_layers ls" "sum_list (map dl_layers ls) \<le> am_num_layers a"
    using get_device_layers_sum [OF assms(1)] assms(2) by auto
  from map_by_metadata_Ok [OF assms(4) [OF ls(1)] disjI1 [OF ls(2)] assms(3)] ls(1)
  show ?thesis by (auto simp: into_mapper_def mapper_map_def)
qed

text \<open>
  A device that cannot take everything gets the longest run of the next layers that fits into
  nine tenths of its memory, next to the largest activation and, on the first device, the parts of the
  model that are not mapped.
\<close>

theorem a_device_gets_the_longest_run_that_fits:
  assumes "ms_remaining s \<noteq> 0"
    and "\<not> (ms_ordinal s = 0 \<and> ms_remaining s + nm_act + act \<le> ninety avail
        \<or> ms_ordinal s \<noteq> 0 \<and> ms_remaining s + act \<le> ninety avail)"
    and "used = (if ms_ordinal s = 0 then max act nm_act + nm_size else act)"
  shows "\<exists>n \<le> length (ms_sizes s). \<exists>s'. map_loop act nm_act nm_size kv N ninety ((avail, device) # rest) s
       = map_loop act nm_act nm_size kv N ninety rest s'
     \<and> ms_sizes s' = drop n (ms_sizes s) \<and> ms_layer s' = ms_layer s + n
     \<and> (0 < n \<longrightarrow> used + sum_list (take n (ms_sizes s)) + n * kv \<le> ninety avail)
     \<and> (n < length (ms_sizes s) \<longrightarrow> ninety avail < used + sum_list (take (n + 1) (ms_sizes s)) + (n + 1) * kv)
     \<and> (0 < n \<and> device \<noteq> Cpu \<longrightarrow>
          ms_device_layers s' = ms_device_layers s @ [\<lparr>dl_ordinal = ms_ordinal s, dl_layers = n\<rparr>])"
proof -
  obtain n no_act rs where f: "fit_layers kv (ninety avail) used act 0 (ms_sizes s) = (n, no_act, rs)"
    by (metis prod_cases3)
  from fit_layers_prefix [OF f] have n: "n \<le> length (ms_sizes s)" "rs = drop n (ms_sizes s)"
    "0 < n \<longrightarrow> used + sum_list (take n (ms_sizes s)) + n * kv \<le> ninety avail"
    "n < length (ms_sizes s) \<longrightarrow> ninety avail < used + sum_list (take (n + 1) (ms_sizes s)) + (n + 1) * kv"
    by auto
  let ?s = "if 0 < n then place_layers device n (s\<lparr>ms_remaining := ms_remaining s - no_act, ms_sizes := rs\<rparr>)
      else s\<lparr>ms_sizes := rs, ms_ordinal := ms_ordinal s + 1\<rparr>"
  have "ms_sizes ?s = drop n (ms_sizes s)" "ms_layer ?s = ms_layer s + n"
    "0 < n \<and> device \<noteq> Cpu \<longrightarrow> ms_device_layers ?s = ms_device_layers s @ [\<lparr>dl_ordinal = ms_ordinal s, dl_layers = n\<rparr>]"
    using n(2) by (auto simp: place_layers_def is_cpu_def)
  moreover have "map_loop act nm_act nm_size kv N ninety ((avail, device) # rest) s = map_loop act nm_act nm_size kv N ninety rest ?s"
    by (rule map_loop_greedy [of s nm_act act ninety avail, OF assms(1,2)]) (use f assms(3) in simp)
  ultimately show ?thesis using n(1,3,4) by blast
qed

text \<open>
  With PagedAttention a mapping that uses the CPU is calculated a second time without it. This
  ends there, but the second calculation is only given the layers that the first one had not taken
  from the vector yet, in reversed order: the layers that were already put on a device are not counted.
\<close>

theorem the_second_calculation_forgets_layers:
  assumes "map_round a sizes (Some p) = Ok s" and "ms_remaining s = 0" and "ms_includes_cpu s"
    and "length sizes \<le> am_num_layers a"
  shows "(\<exists>k. ms_sizes s = drop k sizes \<and> get_device_layers a sizes (Some p) = get_device_layers a (rev (drop k sizes)) None)
     \<and> (\<forall>sizes' s'. map_round a sizes' None = Ok s' \<and> ms_remaining s' = 0 \<longrightarrow>
          get_device_layers a sizes' None = Ok (from_num_device_layers (ms_device_layers s')))"
proof
  obtain k where "ms_sizes s = drop k sizes" using map_round_layers(2) [OF assms(1,4)] by blast
  then show "\<exists>k. ms_sizes s = drop k sizes \<and> get_device_layers a sizes (Some p) = get_device_layers a (rev (drop k sizes)) None"
    using assms(1-3) by (intro exI [of _ k]) (subst get_device_layers.simps, simp)
  show "\<forall>sizes' s'. map_round a sizes' None = Ok s' \<and> ms_remaining s' = 0 \<longrightarrow>
          get_device_layers a sizes' None = Ok (from_num_device_layers (ms_device_layers s'))"
    by (subst get_device_layers.simps) simp
qed

section \<open>Witnesses\<close>

definition mb :: "nat \<Rightarrow> nat" where
  "mb n = n * 1048576"

definition small_model :: model_config where
  "small_model = \<lparr>mc_max_seq_len = 32768, mc_num_layers = 4, mc_hidden_size = 4, mc_num_kv_heads = 1,
     mc_num_attn_heads = 1, mc_sliding_window = None, mc_k_head_dim = 4, mc_v_head_dim = 4\<rparr>"

definition one_gpu :: "nat \<Rightarrow> nat \<Rightarrow> nat \<Rightarrow> nat \<Rightarrow> unit auto_map" where
  "one_gpu gpu cpu size_all non_mapped =
     \<lparr>am_mapped_act_elems = Ok 0, am_non_mapped_act_elems = Ok 0, am_config = Ok small_model, am_num_layers = 5,
      am_non_mapped_size = non_mapped, am_total_size = size_all, am_devices = [Cuda 0], am_dtype_size = 4,
      am_params = AutoText 32768 1,
      am_memory = \<lparr>memory_available = (\<lambda>d. Ok (if d = Cpu then cpu else gpu)), total_memory = (\<lambda>_. Ok 0), utilize = (\<lambda>_ _ _. 0)\<rparr>,
      am_ninety = (\<lambda>n. n)\<rparr>"

definition default_paged :: "unit paged_attention_config" where
  "default_paged = \<lparr>pac_block_size = None, pac_mem_cpu = 0, pac_mem_gpu = MbAmount 64\<rparr>"

lemma kv_paged: "kv_cache_size_elems (one_gpu g c t n) (Some default_paged) = Ok 262144"
  by (simp add: kv_cache_size_elems_def one_gpu_def default_paged_def small_model_def calculate_cache_config_def
      default_paged_attention_block_size_def supported_block_size_def min_memory_def mem_on_device_def ctxt_to_blocks_def
      size_in_mb_def mb_to_blocks_def udiv_def calculate_key_block_shape_def calculate_value_block_shape_def)

lemma kv_unpaged: "kv_cache_size_elems (one_gpu g c t n) None = Ok 262144"
  by (simp add: kv_cache_size_elems_def one_gpu_def small_model_def)

lemma memory_of_one_gpu:
  "rmap (\<lambda>d. rbind (memory_available (am_memory (one_gpu g c t n)) d) (\<lambda>m. Ok (m, d))) (am_devices (one_gpu g c t n) @ [Cpu])
    = Ok [(g, Cuda 0), (c, Cpu)]"
  by (simp add: one_gpu_def)

lemma one_gpu_round:
  assumes "paged = Some default_paged \<or> paged = None"
  shows "map_round (one_gpu g c t n) sizes paged = map_loop 0 0 n 1048576 5 (\<lambda>n. n) [(g, Cuda 0), (c, Cpu)]
     \<lparr>ms_remaining = t, ms_ordinal = 0, ms_layer = 0, ms_sizes = sizes, ms_device_layers = [], ms_includes_cpu = False\<rparr>"
proof -
  have "kv_cache_size_elems (one_gpu g c t n) paged = Ok 262144" using assms kv_paged kv_unpaged by auto
  moreover have "am_mapped_act_elems (one_gpu g c t n) = Ok 0" "am_non_mapped_act_elems (one_gpu g c t n) = Ok 0"
    "am_dtype_size (one_gpu g c t n) = 4" "am_non_mapped_size (one_gpu g c t n) = n" "am_num_layers (one_gpu g c t n) = 5"
    "am_ninety (one_gpu g c t n) = (\<lambda>n. n)" "am_total_size (one_gpu g c t n) = t"
    by (simp_all add: one_gpu_def)
  ultimately show ?thesis by (simp only: map_round_def memory_of_one_gpu rbind_Inr) simp
qed

definition five_layers :: "nat list" where
  "five_layers = [mb 50, mb 40, mb 10, mb 10, mb 10]"

text \<open>
  The two large layers and their caches fill the graphics card; the second calculation puts
  a third one on it.
\<close>

lemma first_round:
  "map_round (one_gpu (mb 95) (mb 1000) (mb 120) 0) five_layers (Some default_paged)
    = Ok \<lparr>ms_remaining = 0, ms_ordinal = 1, ms_layer = 5, ms_sizes = [mb 10, mb 10, mb 10],
          ms_device_layers = [\<lparr>dl_ordinal = 0, dl_layers = 2\<rparr>], ms_includes_cpu = True\<rparr>"
  by (simp add: one_gpu_round five_layers_def mb_def is_cpu_def place_layers_def)

lemma second_round:
  "map_round (one_gpu (mb 95) (mb 1000) (mb 120) 0) [mb 10, mb 10, mb 10] None
    = Ok \<lparr>ms_remaining = 0, ms_ordinal = 1, ms_layer = 5, ms_sizes = [],
          ms_device_layers = [\<lparr>dl_ordinal = 0, dl_layers = 3\<rparr>], ms_includes_cpu = True\<rparr>"
  by (simp add: one_gpu_round mb_def is_cpu_def place_layers_def)

theorem the_second_calculation_forgets_layers_witness:
  "get_device_layers (one_gpu (mb 95) (mb 1000) (mb 120) 0) five_layers (Some default_paged)
     = Ok (from_num_device_layers [\<lparr>dl_ordinal = 0, dl_layers = 3\<rparr>])
   \<and> mb 95 < sum_list (take 3 five_layers) + 3 * mb 1"
proof -
  let ?a = "one_gpu (mb 95) (mb 1000) (mb 120) 0"
  have N: "length five_layers \<le> am_num_layers ?a" by (simp add: five_layers_def one_gpu_def)
  note twice = the_second_calculation_forgets_layers [OF first_round _ _ N, simplified]
  then obtain k where k: "[mb 10, mb 10, mb 10] = drop k five_layers"
    "get_device_layers ?a five_layers (Some default_paged) = get_device_layers ?a (rev (drop k five_layers)) None" by blast
  have "get_device_layers ?a [mb 10, mb 10, mb 10] None = Ok (from_num_device_layers [\<lparr>dl_ordinal = 0, dl_layers = 3\<rparr>])"
    using twice second_round by fastforce
  with k show ?thesis by (simp add: five_layers_def mb_def flip: k(1))
qed

text \<open>
  The part of a model that is not mapped stays in the amount that remains to be mapped: five layers that
  are all placed, next to that part on the first device, are refused.
\<close>

theorem a_model_that_fits_is_refused:
  "\<exists>s m. map_round (one_gpu (mb 60) (mb 50) (mb 80) (mb 30)) [mb 10, mb 10, mb 10, mb 10, mb 10] None = Ok s
     \<and> ms_layer s = 5 \<and> ms_sizes s = []
     \<and> get_device_layers (one_gpu (mb 60) (mb 50) (mb 80) (mb 30)) [mb 10, mb 10, mb 10, mb 10, mb 10] None = Err m"
  by (subst get_device_layers.simps) (simp add: one_gpu_round mb_def is_cpu_def place_layers_def)

theorem automatic_map_has_a_device_for_every_layer_witness:
  "\<exists>ds. into_mapper (cuda_machine 1) 5 (Cuda 0) None (SettingMap (from_num_device_layers [\<lparr>dl_ordinal = 0, dl_layers = 3\<rparr>]))
     = Ok (LayerDeviceMapper ds (Cuda 0)) \<and> length ds = 5"
proof -
  let ?a = "one_gpu (mb 95) (mb 1000) (mb 120) 0" and ?m = "from_num_device_layers [\<lparr>dl_ordinal = 0, dl_layers = 3\<rparr>]"
  have five: "get_device_layers ?a [mb 10, mb 20, mb 60, mb 10, mb 10] None = Ok ?m"
    by (subst get_device_layers.simps) (simp add: one_gpu_round mb_def is_cpu_def place_layers_def numeral_3_eq_3)
  have "opens (cuda_machine 1) (Cuda 0) ls" if "?m = from_num_device_layers ls" for ls
    by (rule cuda_machine_opens) (use that in \<open>auto simp: from_num_device_layers_def\<close>)
  from automatic_map_has_a_device_for_every_layer [OF five _ _ this] show ?thesis by (auto simp: one_gpu_def)
qed

theorem a_device_gets_the_longest_run_that_fits_witness:
  "\<exists>n \<le> 3. (0 < n \<longrightarrow> sum_list (take n [5, 6, 7]) + n * 2 \<le> 20)
     \<and> (n < 3 \<longrightarrow> 20 < sum_list (take (n + 1) [5, 6, 7]) + (n + 1) * (2 :: nat))"
proof -
  define s where "s = \<lparr>ms_remaining = 90, ms_ordinal = 0, ms_layer = 0, ms_sizes = [5, 6, 7],
      ms_device_layers = [], ms_includes_cpu = False\<rparr>"
  have "ms_remaining s \<noteq> 0" "\<not> (ms_ordinal s = 0 \<and> ms_remaining s + 0 + 0 \<le> 20 \<or> ms_ordinal s \<noteq> 0 \<and> ms_remaining s + 0 \<le> 20)"
    "0 = (if ms_ordinal s = 0 then max 0 0 + 0 else (0 :: nat))"
    by (simp_all add: s_def)
  from a_device_gets_the_longest_run_that_fits [where ninety = "\<lambda>n. n" and kv = 2 and device = Cpu and rest = "[]" and N = 9, OF this]
  obtain n where "n \<le> length (ms_sizes s)" "0 < n \<longrightarrow> 0 + sum_list (take n (ms_sizes s)) + n * 2 \<le> 20"
    "n < length (ms_sizes s) \<longrightarrow> 20 < 0 + sum_list (take (n + 1) (ms_sizes s)) + (n + 1) * 2"
    by blast
  then show ?thesis by (intro exI [of _ n]) (simp add: s_def)
qed

theorem cache_fits_memory_and_context_witness:
  "\<exists>cc. calculate_cache_config (am_memory (one_gpu 0 0 0 0)) (ContextSize 32768) 0 None 4 small_model (Cuda 0) [None] = Ok cc
     \<and> cc_num_gpu_blocks cc * cc_block_size cc \<le> 32768"
proof -
  have "calculate_cache_config (am_memory (one_gpu 0 0 0 0)) (ContextSize 32768) 0 None 4 small_model (Cuda 0) [None]
    = Ok \<lparr>cc_block_size = 32, cc_num_gpu_blocks = 1024, cc_num_cpu_blocks = 0\<rparr>"
    by (simp add: small_model_def calculate_cache_config_def default_paged_attention_block_size_def supported_block_size_def
        min_memory_def mem_on_device_def ctxt_to_blocks_def size_in_mb_def mb_to_blocks_def udiv_def)
  with cache_fits_memory_and_context [OF this] show ?thesis by (auto simp: small_model_def)
qed

end
