(* ===== verification/Kv_Cache.thy ===== *)
theory Kv_Cache
  imports Prelude
begin

text \<open>
  The key-value caches (\<^verbatim>\<open>mistralrs-core/src/pipeline/cache_manager.rs\<close>): the growing
  \<open>single_cache\<close> of one layer, the pair \<open>kv_cache\<close>, and the two cache managers that move the
  caches of the sequences of a batch into the model and out of it again.

  The tensor library is the parameter \<open>lib\<close>. Its tensors are handles whose storage may be
  shared and is written in place by \<^verbatim>\<open>slice_set\<close>, so the functions that touch storage thread
  a heap. \<open>tensor_laws\<close> states the documented behaviour the code relies on, in terms of the
  rows (index 0) of entries (index \<open>d\<close>) that a handle denotes in a heap.
\<close>

section \<open>The tensor library\<close>

record ('h, 't, 'e) tensor_lib =
  content :: "nat \<Rightarrow> 'h \<Rightarrow> 't \<Rightarrow> 'e list list"
  live :: "'h \<Rightarrow> 't \<Rightarrow> bool"
  shares :: "'t \<Rightarrow> 't \<Rightarrow> bool"
  is_contiguous :: "'t \<Rightarrow> bool"
  dim_of :: "'t \<Rightarrow> nat \<Rightarrow> nat res"
  zeros :: "'t \<Rightarrow> nat \<Rightarrow> nat \<Rightarrow> 'h \<Rightarrow> ('t \<times> 'h) res"
  slice_set :: "'t \<Rightarrow> 't \<Rightarrow> nat \<Rightarrow> nat \<Rightarrow> 'h \<Rightarrow> 'h res"
  narrow :: "'t \<Rightarrow> nat \<Rightarrow> nat \<Rightarrow> nat \<Rightarrow> 't res"
  cat :: "'t list \<Rightarrow> nat \<Rightarrow> 'h \<Rightarrow> ('t \<times> 'h) res"
  chunk :: "'t \<Rightarrow> nat \<Rightarrow> nat \<Rightarrow> 't list res"
  contiguous :: "'t \<Rightarrow> 'h \<Rightarrow> ('t \<times> 'h) res"
  ones_like :: "'t \<Rightarrow> 'h \<Rightarrow> ('t \<times> 'h) res"
  zeros_like :: "'t \<Rightarrow> 'h \<Rightarrow> ('t \<times> 'h) res"
  to_device :: "nat \<Rightarrow> 't \<Rightarrow> 'h \<Rightarrow> ('t \<times> 'h) res"
  device_of :: "'t \<Rightarrow> nat"

text \<open>\<^verbatim>\<open>unwrap\<close> and \<^verbatim>\<open>expect\<close> of a \<^verbatim>\<open>Result\<close>: an error becomes a panic.\<close>

definition expect :: "'a res \<Rightarrow> 'a res" where
  "expect r = (case r of Inl (Bail m) \<Rightarrow> Inl (Panic m) | _ \<Rightarrow> r)"

section \<open>The cache of one tensor\<close>

record 't single_cache =
  all_data :: "'t option"
  sc_dim :: nat
  current_seq_len :: nat
  capacity_seq_len :: nat
  max_seq_len :: nat

definition CACHE_GROW_SIZE :: nat where "CACHE_GROW_SIZE = 512"

definition sc_new :: "nat \<Rightarrow> nat \<Rightarrow> nat \<Rightarrow> 't single_cache" where
  "sc_new d max_len cap = \<lparr>all_data = None, sc_dim = d, current_seq_len = 0, capacity_seq_len = cap,
     max_seq_len = max_len\<rparr>"

definition current_data :: "('h, 't, 'e) tensor_lib \<Rightarrow> 't single_cache \<Rightarrow> 't option res" where
  "current_data lib c =
     (case all_data c of None \<Rightarrow> Ok None
      | Some t \<Rightarrow> rbind (narrow lib t (sc_dim c) 0 (current_seq_len c)) (\<lambda>n. Ok (Some n)))"

definition sc_reset :: "'t single_cache \<Rightarrow> 't single_cache" where
  "sc_reset c = c\<lparr>current_seq_len := 0, all_data := None\<rparr>"

definition sc_set_len :: "nat \<Rightarrow> 't single_cache \<Rightarrow> 't single_cache" where
  "sc_set_len len c = c\<lparr>current_seq_len := len\<rparr>"

text \<open>
  \<^verbatim>\<open>append\<close> changes the cache before some of its errors, so that its steps return the cache
  and the heap beside the result.
\<close>

definition sc_create :: "('h, 't, 'e) tensor_lib \<Rightarrow> 't \<Rightarrow> 't single_cache \<Rightarrow> 'h
    \<Rightarrow> unit res \<times> 't single_cache \<times> 'h" where
  "sc_create lib src c h =
     (case all_data c of Some _ \<Rightarrow> (Ok (), c, h)
      | None \<Rightarrow> (case zeros lib src (sc_dim c) (capacity_seq_len c) h of
                   Inl e \<Rightarrow> (Err e, c, h)
                 | Inr (ad, h) \<Rightarrow> (Ok (), c\<lparr>all_data := Some ad\<rparr>, h)))"

definition grown_capacity :: "nat \<Rightarrow> 't single_cache \<Rightarrow> nat" where
  "grown_capacity seq_len c =
     capacity_seq_len c
       + div_ceil (current_seq_len c + seq_len - capacity_seq_len c) CACHE_GROW_SIZE * CACHE_GROW_SIZE"

definition sc_grow :: "('h, 't, 'e) tensor_lib \<Rightarrow> 't \<Rightarrow> nat \<Rightarrow> 't single_cache \<Rightarrow> 'h
    \<Rightarrow> unit res \<times> 't single_cache \<times> 'h" where
  "sc_grow lib src seq_len c h =
     (if capacity_seq_len c < current_seq_len c + seq_len then
        let c = c\<lparr>capacity_seq_len := grown_capacity seq_len c\<rparr>
        in if max_seq_len c < capacity_seq_len c
           then (Err (Bail ''kv-cache: requested capacity above max seq len''), c, h)
           else (case zeros lib src (sc_dim c) (capacity_seq_len c) h of
                   Inl e \<Rightarrow> (Err e, c, h)
                 | Inr (ad, h) \<Rightarrow>
                     (case rbind (unwrap (all_data c)) (\<lambda>old. slice_set lib ad old (sc_dim c) 0 h) of
                        Inl e \<Rightarrow> (Err e, c, h)
                      | Inr h \<Rightarrow> (Ok (), c\<lparr>all_data := Some ad\<rparr>, h)))
      else (Ok (), c, h))"

definition sc_append :: "('h, 't, 'e) tensor_lib \<Rightarrow> 't \<Rightarrow> 't single_cache \<Rightarrow> 'h
    \<Rightarrow> unit res \<times> 't single_cache \<times> 'h" where
  "sc_append lib src c h =
     (case dim_of lib src (sc_dim c) of Inl e \<Rightarrow> (Err e, c, h)
      | Inr seq_len \<Rightarrow>
     (case sc_create lib src c h of (Inl e, c, h) \<Rightarrow> (Err e, c, h)
      | (Inr _, c, h) \<Rightarrow>
     (case sc_grow lib src seq_len c h of (Inl e, c, h) \<Rightarrow> (Err e, c, h)
      | (Inr _, c, h) \<Rightarrow>
     (case rbind (unwrap (all_data c)) (\<lambda>ad. slice_set lib ad src (sc_dim c) (current_seq_len c) h) of
        Inl e \<Rightarrow> (Err e, c, h)
      | Inr h \<Rightarrow> (Ok (), c\<lparr>current_seq_len := current_seq_len c + seq_len\<rparr>, h)))))"

section \<open>The cache of one layer\<close>

record 't kv_cache =
  kv_k :: "'t single_cache"
  kv_v :: "'t single_cache"

definition kv_new :: "nat \<Rightarrow> nat \<Rightarrow> nat \<Rightarrow> 't kv_cache" where
  "kv_new d max_len cap = \<lparr>kv_k = sc_new d max_len cap, kv_v = sc_new d max_len cap\<rparr>"

definition kv_reset :: "'t kv_cache \<Rightarrow> 't kv_cache" where
  "kv_reset c = \<lparr>kv_k = sc_reset (kv_k c), kv_v = sc_reset (kv_v c)\<rparr>"

definition kv_set_len :: "nat \<Rightarrow> 't kv_cache \<Rightarrow> 't kv_cache" where
  "kv_set_len len c = \<lparr>kv_k = sc_set_len len (kv_k c), kv_v = sc_set_len len (kv_v c)\<rparr>"

definition or_empty :: "('h, 't, 'e) tensor_lib \<Rightarrow> 't \<Rightarrow> nat \<Rightarrow> 't option \<Rightarrow> 'h \<Rightarrow> ('t \<times> 'h) res" where
  "or_empty lib src d out h = (case out of None \<Rightarrow> zeros lib src d 0 h | Some t \<Rightarrow> Ok (t, h))"

text \<open>\<open>kv_append\<close> drops the state on an error; the error of one step leaves it as \<open>sc_append\<close> does.\<close>

definition kv_append :: "('h, 't, 'e) tensor_lib \<Rightarrow> 't \<Rightarrow> 't \<Rightarrow> 't kv_cache \<Rightarrow> 'h
    \<Rightarrow> (('t \<times> 't) \<times> 't kv_cache \<times> 'h) res" where
  "kv_append lib k v c h =
     rbind (contiguous lib k h) (\<lambda>(k, h).
     rbind (contiguous lib v h) (\<lambda>(v, h).
     (case sc_append lib k (kv_k c) h of (Inl e, _, _) \<Rightarrow> Err e
      | (Inr _, kc, h) \<Rightarrow>
     (case sc_append lib v (kv_v c) h of (Inl e, _, _) \<Rightarrow> Err e
      | (Inr _, vc, h) \<Rightarrow>
     rbind (current_data lib kc) (\<lambda>out_k.
     rbind (current_data lib vc) (\<lambda>out_v.
     rbind (or_empty lib k (sc_dim kc) out_k h) (\<lambda>(k, h).
     rbind (or_empty lib v (sc_dim kc) out_v h) (\<lambda>(v, h).
     Ok ((k, v), \<lparr>kv_k = kc, kv_v = vc\<rparr>, h)))))))))"

text \<open>The window of the last \<open>w - 1\<close> positions, cut when there are more than \<open>w\<close>.\<close>

definition last_window :: "('h, 't, 'e) tensor_lib \<Rightarrow> 't \<Rightarrow> nat \<Rightarrow> nat \<Rightarrow> nat \<Rightarrow> 't res" where
  "last_window lib t d len w =
     rbind (usub w 1) (\<lambda>w1. rbind (usub len w1) (\<lambda>start. narrow lib t d start w1))"

definition append_sliding_window :: "('h, 't, 'e) tensor_lib \<Rightarrow> 't \<Rightarrow> 't \<Rightarrow> 't option \<Rightarrow> nat option
    \<Rightarrow> 't kv_cache \<Rightarrow> 'h \<Rightarrow> (('t \<times> 't \<times> 't option) \<times> 't kv_cache \<times> 'h) res" where
  "append_sliding_window lib k v amask window c h =
     rbind (kv_append lib k v c h) (\<lambda>((k, v), c, h).
     (case window of None \<Rightarrow> Ok ((k, v, amask), c, h)
      | Some w \<Rightarrow>
          rbind (rassert (sc_dim (kv_k c) = 2) ''assertion failed'') (\<lambda>_.
          rbind (dim_of lib k 2) (\<lambda>len.
          if w < len then
            rbind (last_window lib k 2 len w) (\<lambda>k.
            rbind (last_window lib v 2 len w) (\<lambda>v.
            case amask of None \<Rightarrow> Ok ((k, v, amask), c, h)
            | Some m \<Rightarrow> rbind (dim_of lib m 1) (\<lambda>mask_len.
                        rbind (last_window lib m 1 mask_len w) (\<lambda>m. Ok ((k, v, Some m), c, h)))))
          else Ok ((k, v, amask), c, h)))))"

definition normal_cache_new :: "nat \<Rightarrow> nat \<Rightarrow> 't kv_cache list" where
  "normal_cache_new len max_len = replicate len (kv_new 2 max_len CACHE_GROW_SIZE)"

section \<open>Moving caches in and out of a batch\<close>

text \<open>
  The caches of the sequences of a batch, layer by layer, are concatenated along index 0 and
  later cut again. \<open>get\<close> reads the two tensors of a cache. A layer that is missing in one
  sequence is skipped (the cross attention of a vision model).
\<close>

fun gather_layer :: "('c \<Rightarrow> ('t \<times> 't) res) \<Rightarrow> nat \<Rightarrow> 'c option list list \<Rightarrow> ('t list \<times> 't list) option res" where
  "gather_layer get layer [] = Ok (Some ([], []))"
| "gather_layer get layer (s # ss) =
     rbind (vget s layer) (\<lambda>c.
     case c of None \<Rightarrow> Ok None
     | Some kv \<Rightarrow> rbind (get kv) (\<lambda>(k, v).
                  rbind (gather_layer get layer ss) (\<lambda>r.
                  Ok (map_option (\<lambda>(ks, vs). (k # ks, v # vs)) r))))"

definition cat_all :: "('h, 't, 'e) tensor_lib \<Rightarrow> 't list \<Rightarrow> 'h \<Rightarrow> ('t \<times> 'h) res" where
  "cat_all lib ts h = (if 1 < length ts then expect (cat lib ts 0 h) else rbind (vget ts 0) (\<lambda>t. Ok (t, h)))"

definition batch_layer :: "('h, 't, 'e) tensor_lib \<Rightarrow> ('c \<Rightarrow> ('t \<times> 't) res) \<Rightarrow> 'c option list list \<Rightarrow> nat
    \<Rightarrow> ('t \<times> 't) option list \<times> 'h \<Rightarrow> (('t \<times> 't) option list \<times> 'h) res" where
  "batch_layer lib get seqs layer acc =
     rbind (gather_layer get layer seqs) (\<lambda>r.
     case r of None \<Rightarrow> Ok (fst acc @ [None], snd acc)
     | Some (ks, vs) \<Rightarrow>
         rbind (cat_all lib ks (snd acc)) (\<lambda>(k, h).
         rbind (cat_all lib vs h) (\<lambda>(v, h). Ok (fst acc @ [Some (k, v)], h))))"

definition kv_tensors :: "'t kv_cache \<Rightarrow> ('t \<times> 't) res" where
  "kv_tensors c = rbind (unwrap (all_data (kv_k c))) (\<lambda>k. rbind (unwrap (all_data (kv_v c))) (\<lambda>v. Ok (k, v)))"

definition contiguous_pair :: "('h, 't, 'e) tensor_lib \<Rightarrow> ('t \<times> 't) option \<Rightarrow> 'h \<Rightarrow> (('t \<times> 't) option \<times> 'h) res" where
  "contiguous_pair lib kv h =
     (case kv of None \<Rightarrow> Ok (None, h)
      | Some (k, v) \<Rightarrow> rbind (expect (contiguous lib k h)) (\<lambda>(k, h).
                       rbind (expect (contiguous lib v h)) (\<lambda>(v, h). Ok (Some (k, v), h))))"

definition like_template :: "'t single_cache \<Rightarrow> 't option \<Rightarrow> 't single_cache" where
  "like_template template t = template\<lparr>all_data := t\<rparr>"

definition normal_clone_in_cache :: "('h, 't, 'e) tensor_lib \<Rightarrow> nat \<Rightarrow> 't kv_cache option list list \<Rightarrow> 'h
    \<Rightarrow> ('t kv_cache list \<times> 'h) res" where
  "normal_clone_in_cache lib layers seqs h =
     rbind (vget seqs 0) (\<lambda>seq0. rbind (vget seq0 0) (\<lambda>l0. rbind (unwrap l0) (\<lambda>c0.
     rbind (rfold (batch_layer lib kv_tensors seqs) [0..<layers] ([], h)) (\<lambda>(new, h).
     rfold (\<lambda>kv (caches, h).
              rbind (contiguous_pair lib kv h) (\<lambda>(kv, h).
              Ok (caches @ [\<lparr>kv_k = like_template (kv_k c0) (map_option fst kv),
                             kv_v = like_template (kv_k c0) (map_option snd kv)\<rparr>], h)))
           new ([], h)))))"

text \<open>Handing the chunks of a layer to the sequences; \<open>put\<close> makes the cache of a sequence.\<close>

definition hand_out :: "('t \<Rightarrow> 't \<Rightarrow> 'c) \<Rightarrow> nat \<Rightarrow> 't list \<Rightarrow> 't list \<Rightarrow> 'c option list list
    \<Rightarrow> 'c option list list res" where
  "hand_out put layer ks vs seqs =
     rmap (\<lambda>(i, s). rbind (vget ks i) (\<lambda>k. rbind (vget vs i) (\<lambda>v. vset s layer (Some (put k v)))))
       (List.enumerate 0 seqs)"

definition split_layer :: "('h, 't, 'e) tensor_lib \<Rightarrow> ('t \<Rightarrow> 't \<Rightarrow> 'c) \<Rightarrow> nat \<Rightarrow> 't \<times> 't \<Rightarrow> 'c option list list
    \<Rightarrow> 'c option list list res" where
  "split_layer lib put layer kv seqs =
     rbind (expect (chunk lib (fst kv) (length seqs) 0)) (\<lambda>ks.
     rbind (rassert (length ks = length seqs) ''assertion `left == right` failed'') (\<lambda>_.
     rbind (expect (chunk lib (snd kv) (length seqs) 0)) (\<lambda>vs.
     rbind (rassert (length vs = length seqs) ''assertion `left == right` failed'') (\<lambda>_.
     hand_out put layer ks vs seqs))))"

definition normal_clone_out_layer :: "('h, 't, 'e) tensor_lib \<Rightarrow> 't kv_cache list \<Rightarrow> nat
    \<Rightarrow> 't kv_cache option list list \<Rightarrow> 't kv_cache option list list res" where
  "normal_clone_out_layer lib all_cache layer seqs =
     rbind (vget all_cache layer) (\<lambda>c.
     rbind (expect (current_data lib (kv_k c))) (\<lambda>kd.
     if kd = None then Ok seqs
     else rbind (kv_tensors c) (\<lambda>kv.
          split_layer lib (\<lambda>k v. \<lparr>kv_k = like_template (kv_k c) (Some k), kv_v = like_template (kv_v c) (Some v)\<rparr>)
            layer kv seqs)))"

definition normal_clone_out_cache :: "('h, 't, 'e) tensor_lib \<Rightarrow> nat \<Rightarrow> 't kv_cache list
    \<Rightarrow> 't kv_cache option list list \<Rightarrow> 't kv_cache option list list res" where
  "normal_clone_out_cache lib layers all_cache seqs = rfold (normal_clone_out_layer lib all_cache) [0..<layers] seqs"

text \<open>\<open>pre\<close> are the preallocated caches of the sequences, \<open>devices\<close> those of the device mapper.\<close>

definition preallocated_layer :: "('h, 't, 'e) tensor_lib \<Rightarrow> ('t \<times> 't) list \<Rightarrow> nat option \<Rightarrow> nat \<Rightarrow> nat \<Rightarrow> 'h
    \<Rightarrow> ('t kv_cache \<times> 'h) res" where
  "preallocated_layer lib pre device d msl h =
     rbind (rfold (\<lambda>(k, v) (ks, vs, h).
              case device of None \<Rightarrow> Ok (ks @ [k], vs @ [v], h)
              | Some dev \<Rightarrow> rbind (expect (to_device lib dev k h)) (\<lambda>(k, h).
                            rbind (expect (to_device lib dev v h)) (\<lambda>(v, h). Ok (ks @ [k], vs @ [v], h))))
            pre ([], [], h)) (\<lambda>(ks, vs, h).
     rbind (cat_all lib ks h) (\<lambda>(k, h).
     rbind (cat_all lib vs h) (\<lambda>(v, h).
     rbind (expect (zeros_like lib k h)) (\<lambda>(zk, h).
     rbind (expect (zeros_like lib v h)) (\<lambda>(zv, h).
     rbind (expect (dim_of lib k d)) (\<lambda>cap.
     Ok (\<lparr>kv_k = \<lparr>all_data = Some zk, sc_dim = d, current_seq_len = 0, capacity_seq_len = cap, max_seq_len = msl\<rparr>,
          kv_v = \<lparr>all_data = Some zv, sc_dim = d, current_seq_len = 0, capacity_seq_len = cap, max_seq_len = msl\<rparr>\<rparr>, h)))))))"

definition normal_set_none_cache :: "('h, 't, 'e) tensor_lib \<Rightarrow> ('t \<times> 't) option list \<Rightarrow> nat list option \<Rightarrow> bool
    \<Rightarrow> 't kv_cache list \<Rightarrow> 'h \<Rightarrow> ('t kv_cache list \<times> 'h) res" where
  "normal_set_none_cache lib pre devices load caches h =
     (if None \<in> set pre then Ok (map kv_reset caches, h)
      else rbind (vget caches 0) (\<lambda>c0.
        rfold (\<lambda>(i, layer) (acc, h).
           if \<not> load then Ok (acc @ [kv_reset layer], h)
           else rbind (case devices of None \<Rightarrow> Ok None | Some ds \<Rightarrow> rbind (vget ds i) (\<lambda>dev. Ok (Some dev))) (\<lambda>dev.
                rbind (preallocated_layer lib (map the pre) dev (sc_dim (kv_k c0)) (max_seq_len (kv_k c0)) h) (\<lambda>(c, h).
                Ok (acc @ [c], h))))
          (List.enumerate 0 caches) ([], h)))"

section \<open>The full cache\<close>

text \<open>A cache of models that keep all keys and values: per layer the two tensors, when there are any.\<close>

type_synonym 't layer_tensors = "('t \<times> 't) option list"

record 't full_cache =
  fc_cache :: "'t layer_tensors"
  fc_xlora_cache :: "'t layer_tensors option"
  fc_draft_cache :: "'t layer_tensors"
  fc_scalings_cache :: "'t option option"

definition full_cache_new :: "nat \<Rightarrow> bool \<Rightarrow> 't full_cache" where
  "full_cache_new len is_xlora =
     \<lparr>fc_cache = replicate len None,
      fc_xlora_cache = (if is_xlora then Some (replicate len None) else None),
      fc_draft_cache = replicate len None,
      fc_scalings_cache = (if is_xlora then Some None else None)\<rparr>"

definition update_kv_cache :: "('h, 't, 'e) tensor_lib \<Rightarrow> ('t \<Rightarrow> 't \<Rightarrow> nat \<Rightarrow> 'h \<Rightarrow> ('t \<times> 'h) res) \<Rightarrow> bool
    \<Rightarrow> 't \<Rightarrow> 't \<Rightarrow> ('t \<times> 't) option \<Rightarrow> 'h \<Rightarrow> (('t \<times> 't) \<times> ('t \<times> 't) option \<times> 'h) res" where
  "update_kv_cache lib kvconcat slow_cat k v cached h =
     rbind (case cached of None \<Rightarrow> Ok (k, v, h)
            | Some (k_cache, v_cache) \<Rightarrow>
                let join = (\<lambda>a b h. rbind (if slow_cat then cat lib [a, b] 2 h else kvconcat a b 2 h)
                                      (\<lambda>(t, h). contiguous lib t h))
                in rbind (join k_cache k h) (\<lambda>(k, h). rbind (join v_cache v h) (\<lambda>(v, h). Ok (k, v, h)))) (\<lambda>(k, v, h).
     rbind (contiguous lib k h) (\<lambda>(k', h). rbind (contiguous lib v h) (\<lambda>(v', h).
     Ok ((k', v'), Some (k, v), h))))"

definition window_mask :: "('h, 't, 'e) tensor_lib \<Rightarrow> nat \<Rightarrow> nat \<Rightarrow> 't \<Rightarrow> 'h \<Rightarrow> ('t \<times> 'h) res" where
  "window_mask lib last_dim w m h =
     rbind (dim_of lib m 1) (\<lambda>mask_len.
     rbind (last_window lib m 1 mask_len w) (\<lambda>m.
     rbind (usub mask_len 1) (\<lambda>i.
     rbind (narrow lib m 1 i 1) (\<lambda>l.
     rbind (ones_like lib l h) (\<lambda>(o1, h). cat lib [m, o1] last_dim h)))))"

definition update_kv_cache_sliding_window :: "('h, 't, 'e) tensor_lib \<Rightarrow> ('t \<Rightarrow> 't \<Rightarrow> nat \<Rightarrow> 'h \<Rightarrow> ('t \<times> 'h) res)
    \<Rightarrow> nat \<Rightarrow> bool \<Rightarrow> nat option \<Rightarrow> 't option \<Rightarrow> 't \<Rightarrow> 't \<Rightarrow> ('t \<times> 't) option \<Rightarrow> 'h
    \<Rightarrow> (('t \<times> 't \<times> 't option) \<times> ('t \<times> 't) option \<times> 'h) res" where
  "update_kv_cache_sliding_window lib kvconcat last_dim slow_cat window amask k v cached h =
     rbind (case cached of None \<Rightarrow> Ok (k, v, amask, h)
            | Some (prev_k, prev_v) \<Rightarrow>
                rbind (case window of None \<Rightarrow> Ok (prev_k, prev_v, amask, h)
                       | Some w \<Rightarrow>
                           rbind (dim_of lib prev_k 2) (\<lambda>len.
                           if w < len then
                             rbind (last_window lib prev_k 2 len w) (\<lambda>pk.
                             rbind (last_window lib prev_v 2 len w) (\<lambda>pv.
                             case amask of None \<Rightarrow> Ok (pk, pv, None, h)
                             | Some m \<Rightarrow> rbind (window_mask lib last_dim w m h) (\<lambda>(m, h). Ok (pk, pv, Some m, h))))
                           else Ok (prev_k, prev_v, amask, h))) (\<lambda>(pk, pv, m, h).
                let join = (\<lambda>a b h. if slow_cat then rbind (cat lib [a, b] 2 h) (\<lambda>(t, h). contiguous lib t h)
                                    else kvconcat a b 2 h)
                in rbind (join pk k h) (\<lambda>(k, h). rbind (join pv v h) (\<lambda>(v, h). Ok (k, v, m, h))))) (\<lambda>(k, v, m, h).
     rbind (contiguous lib k h) (\<lambda>(k', h). rbind (contiguous lib v h) (\<lambda>(v', h).
     Ok ((k', v', m), Some (k, v), h))))"

datatype seq_cache = CacheNormal | CacheXLora | CacheDraft

record 't seq_caches =
  sq_cache :: "'t layer_tensors"
  sq_xlora_cache :: "'t layer_tensors option"
  sq_draft_cache :: "'t layer_tensors"
  sq_scaling_cache :: "'t option"

fun read_cache :: "seq_cache \<Rightarrow> 't seq_caches \<Rightarrow> 't layer_tensors res" where
  "read_cache CacheNormal s = Ok (sq_cache s)"
| "read_cache CacheXLora s = unwrap (sq_xlora_cache s)"
| "read_cache CacheDraft s = Ok (sq_draft_cache s)"

fun write_cache :: "seq_cache \<Rightarrow> 't layer_tensors \<Rightarrow> 't seq_caches \<Rightarrow> 't seq_caches" where
  "write_cache CacheNormal c s = s\<lparr>sq_cache := c\<rparr>"
| "write_cache CacheXLora c s = s\<lparr>sq_xlora_cache := Some c\<rparr>"
| "write_cache CacheDraft c s = s\<lparr>sq_draft_cache := c\<rparr>"

definition clone_in_cache :: "('h, 't, 'e) tensor_lib \<Rightarrow> nat \<Rightarrow> 't layer_tensors list \<Rightarrow> 'h
    \<Rightarrow> ('t layer_tensors \<times> 'h) res" where
  "clone_in_cache lib layers seqs h = rfold (batch_layer lib Ok seqs) [0..<layers] ([], h)"

definition clone_out_layer :: "('h, 't, 'e) tensor_lib \<Rightarrow> 't layer_tensors \<Rightarrow> nat
    \<Rightarrow> 't layer_tensors list \<Rightarrow> 't layer_tensors list res" where
  "clone_out_layer lib cached layer seqs =
     rbind (vget cached layer) (\<lambda>c. case c of None \<Rightarrow> Ok seqs | Some kv \<Rightarrow> split_layer lib Pair layer kv seqs)"

definition clone_out_cache :: "('h, 't, 'e) tensor_lib \<Rightarrow> nat \<Rightarrow> 't layer_tensors
    \<Rightarrow> 't layer_tensors list \<Rightarrow> 't layer_tensors list res" where
  "clone_out_cache lib layers cached seqs = rfold (clone_out_layer lib cached) [0..<layers] seqs"

text \<open>What the managers read from the metadata of the pipeline.\<close>

record cache_metadata =
  num_hidden_layers :: nat
  md_is_xlora :: bool
  md_no_kv_cache :: bool

definition full_clone_in_cache :: "('h, 't, 'e) tensor_lib \<Rightarrow> cache_metadata \<Rightarrow> bool \<Rightarrow> 't seq_caches list
    \<Rightarrow> 't full_cache \<Rightarrow> 'h \<Rightarrow> ('t full_cache \<times> 'h) res" where
  "full_clone_in_cache lib md modify_draft seqs fc h =
     (let load = (\<lambda>src h. rbind (rmap (read_cache src) seqs) (\<lambda>cs. clone_in_cache lib (num_hidden_layers md) cs h))
      in if modify_draft then rbind (load CacheDraft h) (\<lambda>(c, h). Ok (fc\<lparr>fc_cache := c\<rparr>, h))
         else rbind (load CacheNormal h) (\<lambda>(c, h).
              rbind (if md_is_xlora md \<and> \<not> md_no_kv_cache md
                     then rbind (unwrap (fc_xlora_cache fc)) (\<lambda>_.
                          rbind (load CacheXLora h) (\<lambda>(x, h). Ok (fc\<lparr>fc_cache := c, fc_xlora_cache := Some x\<rparr>, h)))
                     else Ok (fc\<lparr>fc_cache := c\<rparr>, h)) (\<lambda>(fc, h).
              if md_is_xlora md
              then rbind (unwrap (fc_scalings_cache fc)) (\<lambda>_.
                   rbind (vget seqs 0) (\<lambda>s. Ok (fc\<lparr>fc_scalings_cache := Some (sq_scaling_cache s)\<rparr>, h)))
              else Ok (fc, h))))"

definition store_caches :: "('h, 't, 'e) tensor_lib \<Rightarrow> nat \<Rightarrow> seq_cache \<Rightarrow> 't layer_tensors \<Rightarrow> 't seq_caches list
    \<Rightarrow> 't seq_caches list res" where
  "store_caches lib layers target cached seqs =
     rbind (rmap (read_cache target) seqs) (\<lambda>cs.
     rbind (clone_out_cache lib layers cached cs) (\<lambda>cs.
     Ok (map2 (write_cache target) cs seqs)))"

definition full_clone_out_cache :: "('h, 't, 'e) tensor_lib \<Rightarrow> cache_metadata \<Rightarrow> bool \<Rightarrow> 't full_cache
    \<Rightarrow> 't seq_caches list \<Rightarrow> 't seq_caches list res" where
  "full_clone_out_cache lib md modify_draft fc seqs =
     (if modify_draft then store_caches lib (num_hidden_layers md) CacheDraft (fc_cache fc) seqs
      else rbind (store_caches lib (num_hidden_layers md) CacheNormal (fc_cache fc) seqs) (\<lambda>seqs.
           rbind (if md_is_xlora md \<and> \<not> md_no_kv_cache md
                  then rbind (unwrap (fc_xlora_cache fc)) (\<lambda>x. store_caches lib (num_hidden_layers md) CacheXLora x seqs)
                  else Ok seqs) (\<lambda>seqs.
           if md_is_xlora md
           then rbind (unwrap (fc_scalings_cache fc)) (\<lambda>sc.
                rbind (vget seqs 0) (\<lambda>s. Ok (seqs[0 := s\<lparr>sq_scaling_cache := sc\<rparr>])))
           else Ok seqs)))"

definition full_set_none_cache :: "cache_metadata \<Rightarrow> bool \<Rightarrow> 't full_cache \<Rightarrow> 't full_cache" where
  "full_set_none_cache md modify_draft fc =
     (let new = replicate (num_hidden_layers md) None;
          fc = fc\<lparr>fc_cache := new\<rparr>;
          fc = (if modify_draft then fc\<lparr>fc_draft_cache := new\<rparr> else fc)
      in if fc_xlora_cache fc \<noteq> None then fc\<lparr>fc_xlora_cache := Some new\<rparr> else fc)"

section \<open>What the tensor library promises\<close>

text \<open>\<open>keeps\<close>: no live tensor dies or changes, except those that share storage with \<open>t\<close>.\<close>

definition keeps :: "('h, 't, 'e) tensor_lib \<Rightarrow> nat \<Rightarrow> ('t \<Rightarrow> bool) \<Rightarrow> 'h \<Rightarrow> 'h \<Rightarrow> bool" where
  "keeps lib d touched h h' \<longleftrightarrow>
     (\<forall>u. live lib h u \<longrightarrow> live lib h' u \<and> (\<not> touched u \<longrightarrow> content lib d h' u = content lib d h u))"

definition fresh_tensor :: "('h, 't, 'e) tensor_lib \<Rightarrow> nat \<Rightarrow> 't \<Rightarrow> 'h \<Rightarrow> 'h \<Rightarrow> bool" where
  "fresh_tensor lib d t h h' \<longleftrightarrow>
     live lib h' t \<and> is_contiguous lib t \<and> keeps lib d (\<lambda>_. False) h h' \<and> (\<forall>u. live lib h u \<longrightarrow> \<not> shares lib t u)"

definition overwrite :: "nat \<Rightarrow> 'e list \<Rightarrow> 'e list \<Rightarrow> 'e list" where
  "overwrite off dst src = take off dst @ src @ drop (off + length src) dst"

definition zeros_law :: "('h, 't, 'e) tensor_lib \<Rightarrow> nat \<Rightarrow> bool" where
  "zeros_law lib d \<longleftrightarrow>
     (\<forall>src n h. live lib h src \<longrightarrow>
        (\<exists>t h'. zeros lib src d n h = Ok (t, h') \<and> fresh_tensor lib d t h h' \<and> dim_of lib t d = Ok n
           \<and> length (content lib d h' t) = length (content lib d h src)))"

definition slice_set_law :: "('h, 't, 'e) tensor_lib \<Rightarrow> nat \<Rightarrow> bool" where
  "slice_set_law lib d \<longleftrightarrow>
     (\<forall>dst src off n m h. live lib h dst \<and> live lib h src \<and> is_contiguous lib dst \<and> is_contiguous lib src
        \<and> \<not> shares lib dst src \<and> dim_of lib dst d = Ok m \<and> dim_of lib src d = Ok n
        \<and> length (content lib d h dst) = length (content lib d h src) \<longrightarrow>
        (if off + n \<le> m
         then \<exists>h'. slice_set lib dst src d off h = Ok h' \<and> keeps lib d (shares lib dst) h h'
                \<and> content lib d h' dst = map2 (overwrite off) (content lib d h dst) (content lib d h src)
         else \<exists>e. slice_set lib dst src d off h = Err (Bail e)))"

definition dim_law :: "('h, 't, 'e) tensor_lib \<Rightarrow> nat \<Rightarrow> bool" where
  "dim_law lib d \<longleftrightarrow>
     (\<forall>t n h. live lib h t \<and> dim_of lib t d = Ok n \<longrightarrow> (\<forall>row \<in> set (content lib d h t). length row = n))"

definition narrow_law :: "('h, 't, 'e) tensor_lib \<Rightarrow> nat \<Rightarrow> bool" where
  "narrow_law lib d \<longleftrightarrow>
     (\<forall>t m s l. dim_of lib t d = Ok m \<longrightarrow>
        (if s + l \<le> m
         then \<exists>u. narrow lib t d s l = Ok u \<and> dim_of lib u d = Ok l
                \<and> (\<forall>h. live lib h t \<longrightarrow> live lib h u \<and> content lib d h u = map (\<lambda>row. take l (drop s row)) (content lib d h t))
         else \<exists>e. narrow lib t d s l = Err (Bail e)))"

definition tensor_laws :: "('h, 't, 'e) tensor_lib \<Rightarrow> nat \<Rightarrow> bool" where
  "tensor_laws lib d \<longleftrightarrow> zeros_law lib d \<and> slice_set_law lib d \<and> dim_law lib d \<and> narrow_law lib d"

lemma keepsD:
  "keeps lib d P h h' \<Longrightarrow> live lib h u \<Longrightarrow> live lib h' u"
  "keeps lib d P h h' \<Longrightarrow> live lib h u \<Longrightarrow> \<not> P u \<Longrightarrow> content lib d h' u = content lib d h u"
  by (simp_all add: keeps_def)

lemma keeps_refl [simp]: "keeps lib d P h h"
  by (simp add: keeps_def)

lemma keeps_trans: "keeps lib d P h h' \<Longrightarrow> keeps lib d P h' h'' \<Longrightarrow> keeps lib d P h h''"
  by (simp add: keeps_def)

lemma keeps_mono: "keeps lib d P h h' \<Longrightarrow> (\<And>u. live lib h u \<Longrightarrow> P u \<Longrightarrow> Q u) \<Longrightarrow> keeps lib d Q h h'"
  by (auto simp: keeps_def)

lemma zerosE:
  assumes "zeros_law lib d" and "live lib h src"
  obtains t h' where "zeros lib src d n h = Ok (t, h')" and "fresh_tensor lib d t h h'"
    and "dim_of lib t d = Ok n" and "length (content lib d h' t) = length (content lib d h src)"
  using assms unfolding zeros_law_def by blast

lemma slice_setE:
  assumes "slice_set_law lib d" and "live lib h dst" and "live lib h src"
    and "is_contiguous lib dst" and "is_contiguous lib src" and "\<not> shares lib dst src"
    and "dim_of lib dst d = Ok m" and "dim_of lib src d = Ok n"
    and "length (content lib d h dst) = length (content lib d h src)" and "off + n \<le> m"
  obtains h' where "slice_set lib dst src d off h = Ok h'" and "keeps lib d (shares lib dst) h h'"
    and "content lib d h' dst = map2 (overwrite off) (content lib d h dst) (content lib d h src)"
  using assms unfolding slice_set_law_def by meson

lemma narrowE:
  assumes "narrow_law lib d" and "dim_of lib t d = Ok m" and "s + l \<le> m"
  obtains u where "narrow lib t d s l = Ok u" and "dim_of lib u d = Ok l"
    and "\<And>h. live lib h t \<Longrightarrow> live lib h u"
    and "\<And>h. live lib h t \<Longrightarrow> content lib d h u = map (\<lambda>row. take l (drop s row)) (content lib d h t)"
  using assms unfolding narrow_law_def by meson

section \<open>Appending to a cache\<close>

definition sc_ok :: "('h, 't, 'e) tensor_lib \<Rightarrow> 'h \<Rightarrow> 't single_cache \<Rightarrow> bool" where
  "sc_ok lib h c \<longleftrightarrow> current_seq_len c \<le> capacity_seq_len c
     \<and> (case all_data c of None \<Rightarrow> current_seq_len c = 0
        | Some t \<Rightarrow> live lib h t \<and> is_contiguous lib t \<and> dim_of lib t (sc_dim c) = Ok (capacity_seq_len c))"

text \<open>What a cache of \<open>b\<close> rows holds.\<close>

definition held :: "('h, 't, 'e) tensor_lib \<Rightarrow> nat \<Rightarrow> 'h \<Rightarrow> 't single_cache \<Rightarrow> 'e list list" where
  "held lib b h c = (case all_data c of None \<Rightarrow> replicate b []
     | Some t \<Rightarrow> map (take (current_seq_len c)) (content lib (sc_dim c) h t))"

definition src_ok :: "('h, 't, 'e) tensor_lib \<Rightarrow> nat \<Rightarrow> nat \<Rightarrow> 'h \<Rightarrow> 't \<Rightarrow> nat \<Rightarrow> bool" where
  "src_ok lib d b h src n \<longleftrightarrow> live lib h src \<and> is_contiguous lib src \<and> dim_of lib src d = Ok n
     \<and> length (content lib d h src) = b"

lemma held_rows:
  assumes "dim_law lib (sc_dim c)" and "sc_ok lib h c" and "row \<in> set (held lib b h c)"
  shows "length row = current_seq_len c"
  using assms by (fastforce simp: held_def sc_ok_def dim_law_def split: option.splits)

text \<open>Writing at the end of what is held.\<close>

lemma write_end:
  assumes "tensor_laws lib d" and "live lib h ad" and "is_contiguous lib ad" and "dim_of lib ad d = Ok cap"
    and "src_ok lib d (length (content lib d h ad)) h src n" and "\<not> shares lib ad src" and "cur + n \<le> cap"
  obtains h' where "slice_set lib ad src d cur h = Ok h'" and "keeps lib d (shares lib ad) h h'"
    and "map (take (cur + n)) (content lib d h' ad)
      = map2 (@) (map (take cur) (content lib d h ad)) (content lib d h src)"
    and "length (content lib d h' ad) = length (content lib d h ad)"
proof -
  have l: "slice_set_law lib d" "dim_law lib d" using assms(1) by (simp_all add: tensor_laws_def)
  have s: "live lib h src" "is_contiguous lib src" "dim_of lib src d = Ok n"
    "length (content lib d h ad) = length (content lib d h src)"
    using assms(5) by (simp_all add: src_ok_def)
  obtain h' where h': "slice_set lib ad src d cur h = Ok h'" "keeps lib d (shares lib ad) h h'"
    and ct: "content lib d h' ad = map2 (overwrite cur) (content lib d h ad) (content lib d h src)"
    by (rule slice_setE [OF l(1) assms(2) s(1) assms(3) s(2) assms(6) assms(4) s(3) s(4) assms(7)])
  have "take (cur + n) (overwrite cur a r) = take cur a @ r"
    if "a \<in> set (content lib d h ad)" "r \<in> set (content lib d h src)" for a r
  proof -
    have "length a = cap" "length r = n"
      using that l(2) assms(2,4) s(1,3) unfolding dim_law_def by blast+
    then show ?thesis using assms(7) by (simp add: overwrite_def)
  qed
  then have c: "map (take (cur + n)) (content lib d h' ad)
      = map2 (@) (map (take cur) (content lib d h ad)) (content lib d h src)"
    unfolding ct by (auto simp: zip_map1 dest: set_zip_leftD set_zip_rightD)
  have "length (content lib d h' ad) = length (content lib d h ad)" using ct s(4) by simp
  then show thesis by (rule that [OF h' c])
qed

text \<open>\<open>ready\<close>: the cache has its tensor \<open>t\<close>, with \<open>b\<close> rows.\<close>

definition ready :: "('h, 't, 'e) tensor_lib \<Rightarrow> nat \<Rightarrow> nat \<Rightarrow> 'h \<Rightarrow> 't single_cache \<Rightarrow> 't \<Rightarrow> bool" where
  "ready lib d b h c t \<longleftrightarrow> all_data c = Some t \<and> sc_dim c = d \<and> live lib h t \<and> is_contiguous lib t
     \<and> dim_of lib t d = Ok (capacity_seq_len c) \<and> length (content lib d h t) = b
     \<and> current_seq_len c \<le> capacity_seq_len c"

lemma ready_held: "ready lib d b h c t \<Longrightarrow> held lib b h c = map (take (current_seq_len c)) (content lib d h t)"
  by (simp add: ready_def held_def)

lemma keeps_src_ok: "keeps lib d (\<lambda>_. False) h h' \<Longrightarrow> src_ok lib d b h src n \<Longrightarrow> src_ok lib d b h' src n"
  by (simp add: src_ok_def keeps_def)

lemma sc_create_works:
  assumes "tensor_laws lib d" and "sc_dim c = d" and "sc_ok lib h c" and "src_ok lib d b h src n"
    and "\<And>t. all_data c = Some t \<Longrightarrow> length (content lib d h t) = b"
  obtains t h' where "sc_create lib src c h = (Ok (), c\<lparr>all_data := Some t\<rparr>, h')"
    and "ready lib d b h' (c\<lparr>all_data := Some t\<rparr>) t" and "keeps lib d (\<lambda>_. False) h h'"
    and "held lib b h' (c\<lparr>all_data := Some t\<rparr>) = held lib b h c"
    and "all_data c = Some t \<or> (\<forall>u. live lib h u \<longrightarrow> \<not> shares lib t u)"
proof (cases "all_data c")
  case None
  have z: "zeros_law lib d" "live lib h src" using assms(1,4) by (simp_all add: tensor_laws_def src_ok_def)
  obtain t h' where t: "zeros lib src d (capacity_seq_len c) h = Ok (t, h')" "fresh_tensor lib d t h h'"
    "dim_of lib t d = Ok (capacity_seq_len c)" "length (content lib d h' t) = b"
    using zerosE [OF z, of "capacity_seq_len c"] assms(4) unfolding src_ok_def by metis
  have cur: "current_seq_len c = 0" using None assms(3) by (simp add: sc_ok_def)
  have "held lib b h' (c\<lparr>all_data := Some t\<rparr>) = held lib b h c"
    using None cur t(4) assms(2) by (simp add: held_def map_replicate_const)
  moreover have "ready lib d b h' (c\<lparr>all_data := Some t\<rparr>) t"
    using t cur assms(2) by (simp add: ready_def fresh_tensor_def)
  ultimately show thesis
    using t None assms(2) by (intro that [of t h']) (simp_all add: sc_create_def fresh_tensor_def)
next
  case (Some t)
  have e: "c\<lparr>all_data := Some t\<rparr> = c" using Some by (metis single_cache.surjective single_cache.update_convs(1))
  have r: "ready lib d b h c t"
    using Some assms(2,3,5) by (simp add: ready_def sc_ok_def)
  show thesis by (rule that [of t h, unfolded e]) (simp_all add: sc_create_def Some r)
qed

lemma grown_capacity_ge: "current_seq_len c + n \<le> grown_capacity n c"
proof -
  have "current_seq_len c + n - capacity_seq_len c
      \<le> div_ceil (current_seq_len c + n - capacity_seq_len c) CACHE_GROW_SIZE * CACHE_GROW_SIZE"
    by (rule div_ceil_ge) (simp add: CACHE_GROW_SIZE_def)
  then show ?thesis by (simp add: grown_capacity_def)
qed

definition next_capacity :: "nat \<Rightarrow> 't single_cache \<Rightarrow> nat" where
  "next_capacity n c =
     (if capacity_seq_len c < current_seq_len c + n then grown_capacity n c else capacity_seq_len c)"

lemma next_capacity_ge: "current_seq_len c + n \<le> next_capacity n c" "capacity_seq_len c \<le> next_capacity n c"
  using grown_capacity_ge [of c n] by (auto simp: next_capacity_def grown_capacity_def)

lemma sc_grow_works:
  assumes "tensor_laws lib d" and "ready lib d b h c t" and "src_ok lib d b h src n"
    and "capacity_seq_len c < current_seq_len c + n \<longrightarrow> grown_capacity n c \<le> max_seq_len c"
  obtains t' h' where
    "sc_grow lib src n c h = (Ok (), c\<lparr>capacity_seq_len := next_capacity n c, all_data := Some t'\<rparr>, h')"
    and "ready lib d b h' (c\<lparr>capacity_seq_len := next_capacity n c, all_data := Some t'\<rparr>) t'"
    and "keeps lib d (\<lambda>_. False) h h'"
    and "held lib b h' (c\<lparr>capacity_seq_len := next_capacity n c, all_data := Some t'\<rparr>) = held lib b h c"
    and "t' = t \<or> (\<forall>u. live lib h u \<longrightarrow> \<not> shares lib t' u)"
proof (cases "capacity_seq_len c < current_seq_len c + n")
  case False
  have "c\<lparr>capacity_seq_len := capacity_seq_len c, all_data := Some t\<rparr> = c"
    using assms(2) by (cases c) (simp add: ready_def)
  then show thesis using False assms(2) by (intro that [of t h]) (simp_all add: sc_grow_def next_capacity_def)
next
  case True
  let ?cap = "grown_capacity n c"
  have laws: "zeros_law lib d" "slice_set_law lib d" "dim_law lib d"
    using assms(1) by (simp_all add: tensor_laws_def)
  have old: "all_data c = Some t" "sc_dim c = d" "live lib h t" "is_contiguous lib t"
    "dim_of lib t d = Ok (capacity_seq_len c)" "length (content lib d h t) = b"
    "current_seq_len c \<le> capacity_seq_len c" using assms(2) by (simp_all add: ready_def)
  have src: "live lib h src" "length (content lib d h src) = b" using assms(3) by (simp_all add: src_ok_def)
  obtain ad h1 where ad: "zeros lib src d ?cap h = Ok (ad, h1)" "fresh_tensor lib d ad h h1"
    "dim_of lib ad d = Ok ?cap" "length (content lib d h1 ad) = length (content lib d h src)"
    using zerosE [OF laws(1) src(1)] by metis
  have f: "live lib h1 ad" "is_contiguous lib ad" "keeps lib d (\<lambda>_. False) h h1"
    "\<And>u. live lib h u \<Longrightarrow> \<not> shares lib ad u" using ad(2) by (simp_all add: fresh_tensor_def)
  have told: "live lib h1 t" "content lib d h1 t = content lib d h t" using keepsD [OF f(3) old(3)] by simp_all
  have capge: "0 + capacity_seq_len c \<le> ?cap" by (simp add: grown_capacity_def)
  have len: "length (content lib d h1 ad) = length (content lib d h1 t)" using ad(4) src(2) old(6) told(2) by simp
  obtain h2 where h2: "slice_set lib ad t d 0 h1 = Ok h2" "keeps lib d (shares lib ad) h1 h2"
    "content lib d h2 ad = map2 (overwrite 0) (content lib d h1 ad) (content lib d h1 t)"
    by (rule slice_setE [OF laws(2) f(1) told(1) f(2) old(4) f(4) [OF old(3)] ad(3) old(5) len capge])
  have keeps: "keeps lib d (\<lambda>_. False) h h2"
    using f(3,4) h2(2) by (simp add: keeps_def)
  have rowlen: "length row = capacity_seq_len c" if "row \<in> set (content lib d h t)" for row
    using that laws(3) old(3,5) unfolding dim_law_def by blast
  have "map (take (current_seq_len c)) (content lib d h2 ad) = map (take (current_seq_len c)) (content lib d h t)"
  proof (rule nth_equalityI)
    show "length (map (take (current_seq_len c)) (content lib d h2 ad))
        = length (map (take (current_seq_len c)) (content lib d h t))"
      using h2(3) len told(2) by simp
  next
    fix i assume "i < length (map (take (current_seq_len c)) (content lib d h2 ad))"
    then have i: "i < length (content lib d h t)" using h2(3) len told(2) by simp
    then have "length (content lib d h t ! i) = capacity_seq_len c" using rowlen by simp
    then show "map (take (current_seq_len c)) (content lib d h2 ad) ! i
        = map (take (current_seq_len c)) (content lib d h t) ! i"
      using i h2(3) len told(2) old(7) by (simp add: overwrite_def)
  qed
  then have "held lib b h2 (c\<lparr>capacity_seq_len := next_capacity n c, all_data := Some ad\<rparr>) = held lib b h c"
    using old by (simp add: held_def)
  moreover have "ready lib d b h2 (c\<lparr>capacity_seq_len := next_capacity n c, all_data := Some ad\<rparr>) ad"
    using old ad(3) f(1,2) h2 len told(2) capge True keepsD(1) [OF h2(2) f(1)]
    by (simp add: ready_def next_capacity_def)
  moreover have "sc_grow lib src n c h = (Ok (), c\<lparr>capacity_seq_len := next_capacity n c, all_data := Some ad\<rparr>, h2)"
    using True assms(4) old ad(1) h2(1) by (simp add: sc_grow_def next_capacity_def Let_def)
  ultimately show thesis using keeps f(4) by (intro that [of ad h2]) simp_all
qed

text \<open>The cache a source can be appended to: its tensor, if any, has \<open>b\<close> rows of storage of its own.\<close>

definition own :: "('h, 't, 'e) tensor_lib \<Rightarrow> nat \<Rightarrow> nat \<Rightarrow> 'h \<Rightarrow> 't single_cache \<Rightarrow> 't set \<Rightarrow> bool" where
  "own lib d b h c us \<longleftrightarrow> sc_dim c = d \<and> sc_ok lib h c
     \<and> (\<forall>t. all_data c = Some t \<longrightarrow> length (content lib d h t) = b \<and> (\<forall>u \<in> us. \<not> shares lib t u))"

lemma sc_append_works:
  assumes "tensor_laws lib d" and "own lib d b h c us" and "src \<in> us" and "src_ok lib d b h src n"
    and "\<And>u. u \<in> us \<Longrightarrow> live lib h u"
    and "capacity_seq_len c < current_seq_len c + n \<longrightarrow> grown_capacity n c \<le> max_seq_len c"
  obtains c' h' where "sc_append lib src c h = (Ok (), c', h')" and "own lib d b h' c' us"
    and "current_seq_len c' = current_seq_len c + n" and "capacity_seq_len c' = next_capacity n c"
    and "max_seq_len c' = max_seq_len c"
    and "held lib b h' c' = map2 (@) (held lib b h c) (content lib d h src)"
    and "\<And>u. u \<in> us \<Longrightarrow> live lib h' u \<and> content lib d h' u = content lib d h u"
proof -
  have c: "sc_dim c = d" "sc_ok lib h c" "\<And>t. all_data c = Some t \<Longrightarrow> length (content lib d h t) = b"
    "\<And>t u. all_data c = Some t \<Longrightarrow> u \<in> us \<Longrightarrow> \<not> shares lib t u"
    using assms(2) by (auto simp: own_def)
  obtain t1 h1 where 1: "sc_create lib src c h = (Ok (), c\<lparr>all_data := Some t1\<rparr>, h1)"
    "ready lib d b h1 (c\<lparr>all_data := Some t1\<rparr>) t1" "keeps lib d (\<lambda>_. False) h h1"
    "held lib b h1 (c\<lparr>all_data := Some t1\<rparr>) = held lib b h c"
    "all_data c = Some t1 \<or> (\<forall>u. live lib h u \<longrightarrow> \<not> shares lib t1 u)"
    using sc_create_works [OF assms(1) c(1,2) assms(4) c(3)] by metis
  let ?c1 = "c\<lparr>all_data := Some t1\<rparr>"
  have s1: "src_ok lib d b h1 src n" by (rule keeps_src_ok [OF 1(3) assms(4)])
  have cap1: "capacity_seq_len ?c1 < current_seq_len ?c1 + n \<longrightarrow> grown_capacity n ?c1 \<le> max_seq_len ?c1"
    using assms(6) by (simp add: grown_capacity_def)
  obtain t2 h2 where 2:
    "sc_grow lib src n ?c1 h1 = (Ok (), ?c1\<lparr>capacity_seq_len := next_capacity n ?c1, all_data := Some t2\<rparr>, h2)"
    "ready lib d b h2 (?c1\<lparr>capacity_seq_len := next_capacity n ?c1, all_data := Some t2\<rparr>) t2"
    "keeps lib d (\<lambda>_. False) h1 h2"
    "held lib b h2 (?c1\<lparr>capacity_seq_len := next_capacity n ?c1, all_data := Some t2\<rparr>) = held lib b h1 ?c1"
    "t2 = t1 \<or> (\<forall>u. live lib h1 u \<longrightarrow> \<not> shares lib t2 u)"
    by (rule sc_grow_works [OF assms(1) 1(2) s1 cap1])
  let ?cap = "next_capacity n c"
  let ?c2 = "c\<lparr>capacity_seq_len := ?cap, all_data := Some t2\<rparr>"
  have cap: "next_capacity n ?c1 = ?cap" by (simp add: next_capacity_def grown_capacity_def)
  have c2: "?c1\<lparr>capacity_seq_len := next_capacity n ?c1, all_data := Some t2\<rparr> = ?c2"
    using cap by (cases c) simp
  have s2: "src_ok lib d b h2 src n" by (rule keeps_src_ok [OF 2(3) s1])
  have k: "keeps lib d (\<lambda>_. False) h h2" by (rule keeps_trans [OF 1(3) 2(3)])
  have fresh: "\<not> shares lib t2 u" if "u \<in> us" for u
    using 1(5) 2(5) c(4) that assms(5) keepsD(1) [OF 1(3)] by metis
  have r2: "ready lib d b h2 ?c2 t2" using 2(2) unfolding c2 .
  have t2: "live lib h2 t2" "is_contiguous lib t2" "dim_of lib t2 d = Ok ?cap"
    "length (content lib d h2 t2) = b" using r2 by (simp_all add: ready_def)
  obtain h3 where 3: "slice_set lib t2 src d (current_seq_len c) h2 = Ok h3" "keeps lib d (shares lib t2) h2 h3"
    "map (take (current_seq_len c + n)) (content lib d h3 t2)
      = map2 (@) (map (take (current_seq_len c)) (content lib d h2 t2)) (content lib d h2 src)"
    "length (content lib d h3 t2) = length (content lib d h2 t2)"
    using write_end [OF assms(1) t2(1,2,3), of src n "current_seq_len c"] s2 t2(4) fresh [OF assms(3)]
      next_capacity_ge(1) [of c n] by metis
  let ?c3 = "?c2\<lparr>current_seq_len := current_seq_len c + n\<rparr>"
  have us: "live lib h3 u \<and> content lib d h3 u = content lib d h u" if "u \<in> us" for u
    using keepsD [OF k assms(5) [OF that]] keepsD [OF 3(2)] fresh [OF that] by simp
  have "sc_append lib src c h = (Ok (), ?c3, h3)"
    using 1(1) 2(1) 3(1) c(1) assms(4) c2 by (simp add: sc_append_def src_ok_def)
  moreover have "own lib d b h3 ?c3 us"
    using c(1) t2 keepsD(1) [OF 3(2) t2(1)] next_capacity_ge(1) [of c n] 3(4) fresh
    by (simp add: own_def sc_ok_def)
  moreover have "held lib b h3 ?c3 = map2 (@) (held lib b h c) (content lib d h src)"
  proof -
    have "held lib b h2 ?c2 = held lib b h c" using 1(4) 2(4) unfolding c2 by simp
    then have "map (take (current_seq_len c)) (content lib d h2 t2) = held lib b h c"
      using ready_held [OF r2] by simp
    moreover have "content lib d h2 src = content lib d h src"
      using keepsD(2) [OF k] assms(4) by (simp add: src_ok_def)
    ultimately show ?thesis using 3(3) c(1) by (simp add: held_def)
  qed
  ultimately show thesis using us by (intro that [of ?c3 h3]) simp_all
qed

text \<open>An append that would need a capacity above the maximum fails.\<close>

lemma sc_append_fails:
  assumes "tensor_laws lib d" and "own lib d b h c us" and "src_ok lib d b h src n"
    and "capacity_seq_len c < current_seq_len c + n" and "max_seq_len c < grown_capacity n c"
  obtains c' h' m where "sc_append lib src c h = (Err (Bail m), c', h')"
    and "capacity_seq_len c' = grown_capacity n c" and "current_seq_len c' = current_seq_len c"
    and "\<And>t. all_data c = Some t \<Longrightarrow> all_data c' = Some t \<and> h' = h"
proof -
  have c: "sc_dim c = d" "sc_ok lib h c" "\<And>t. all_data c = Some t \<Longrightarrow> length (content lib d h t) = b"
    using assms(2) by (auto simp: own_def)
  obtain t1 h1 where 1: "sc_create lib src c h = (Ok (), c\<lparr>all_data := Some t1\<rparr>, h1)"
    using sc_create_works [OF assms(1) c(1,2) assms(3) c(3)] by metis
  have same: "t1 = t \<and> h1 = h" if "all_data c = Some t" for t
  proof -
    have "c\<lparr>all_data := Some t1\<rparr> = c" "h1 = h" using 1 that by (simp_all add: sc_create_def)
    then show ?thesis using that by (metis option.inject single_cache.select_convs(1) single_cache.surjective
          single_cache.update_convs(1))
  qed
  let ?c1 = "c\<lparr>all_data := Some t1, capacity_seq_len := grown_capacity n c\<rparr>"
  have g: "grown_capacity n (c\<lparr>all_data := Some t1\<rparr>) = grown_capacity n c" by (simp add: grown_capacity_def)
  have "sc_append lib src c h
      = (Err (Bail ''kv-cache: requested capacity above max seq len''), ?c1, h1)"
    using 1 assms(3,4,5) c(1) by (simp add: sc_append_def sc_grow_def g src_ok_def)
  then show thesis using same by (intro that [of _ ?c1 h1]) auto
qed

section \<open>A sequence of appends\<close>

fun sc_appends :: "('h, 't, 'e) tensor_lib \<Rightarrow> 't list \<Rightarrow> 't single_cache \<Rightarrow> 'h
    \<Rightarrow> unit res \<times> 't single_cache \<times> 'h" where
  "sc_appends lib [] c h = (Ok (), c, h)"
| "sc_appends lib (src # srcs) c h =
     (case sc_append lib src c h of (Inl e, c, h) \<Rightarrow> (Err e, c, h)
      | (Inr _, c, h) \<Rightarrow> sc_appends lib srcs c h)"

text \<open>The number of positions a cache of this maximum can ever hold.\<close>

definition room :: "'t single_cache \<Rightarrow> nat" where
  "room c = max (capacity_seq_len c) (max_seq_len c div CACHE_GROW_SIZE * CACHE_GROW_SIZE)"

lemma grown_capacity_fits:
  assumes "capacity_seq_len c mod CACHE_GROW_SIZE = 0" and "capacity_seq_len c < current_seq_len c + n"
  shows "grown_capacity n c mod CACHE_GROW_SIZE = 0"
    and "grown_capacity n c \<le> m \<longleftrightarrow> current_seq_len c + n \<le> m div CACHE_GROW_SIZE * CACHE_GROW_SIZE"
proof -
  let ?t = "current_seq_len c + n"
  have g: "0 < CACHE_GROW_SIZE" by (simp add: CACHE_GROW_SIZE_def)
  obtain q where q: "capacity_seq_len c = q * CACHE_GROW_SIZE"
    using assms(1) by (metis div_mult_mod_eq add.right_neutral)
  define k where "k = q + div_ceil (?t - capacity_seq_len c) CACHE_GROW_SIZE"
  have k: "grown_capacity n c = k * CACHE_GROW_SIZE" by (simp add: grown_capacity_def k_def q add_mult_distrib)
  have less: "grown_capacity n c < ?t + CACHE_GROW_SIZE"
    using div_ceil_less [OF g, of "?t - capacity_seq_len c"] assms(2) by (simp add: grown_capacity_def)
  show "grown_capacity n c mod CACHE_GROW_SIZE = 0" by (simp add: k)
  show "grown_capacity n c \<le> m \<longleftrightarrow> ?t \<le> m div CACHE_GROW_SIZE * CACHE_GROW_SIZE"
  proof
    assume "grown_capacity n c \<le> m"
    then have "k \<le> m div CACHE_GROW_SIZE" using g by (simp add: k less_eq_div_iff_mult_less_eq)
    then have "grown_capacity n c \<le> m div CACHE_GROW_SIZE * CACHE_GROW_SIZE" by (simp add: k)
    then show "?t \<le> m div CACHE_GROW_SIZE * CACHE_GROW_SIZE" using grown_capacity_ge [of c n] by simp
  next
    assume "?t \<le> m div CACHE_GROW_SIZE * CACHE_GROW_SIZE"
    then have "k * CACHE_GROW_SIZE < (m div CACHE_GROW_SIZE + 1) * CACHE_GROW_SIZE" using less by (simp add: k)
    then have "k \<le> m div CACHE_GROW_SIZE" by (simp only: mult_less_cancel2) simp
    then show "grown_capacity n c \<le> m" using g by (simp add: k less_eq_div_iff_mult_less_eq)
  qed
qed

lemma sc_appends_run:
  assumes "tensor_laws lib d" and "own lib d b h c us" and "set srcs \<subseteq> us"
    and "\<And>u. u \<in> us \<Longrightarrow> live lib h u" and "list_all2 (src_ok lib d b h) srcs ns"
    and "capacity_seq_len c mod CACHE_GROW_SIZE = 0"
  shows "if current_seq_len c + sum_list ns \<le> room c
         then \<exists>c' h'. sc_appends lib srcs c h = (Ok (), c', h')
            \<and> current_seq_len c' = current_seq_len c + sum_list ns
            \<and> held lib b h' c' = foldl (map2 (@)) (held lib b h c) (map (content lib d h) srcs)
         else \<exists>m c' h'. sc_appends lib srcs c h = (Err (Bail m), c', h')"
  using assms
proof (induction srcs arbitrary: c h ns)
  case Nil
  have "current_seq_len c \<le> room c"
    using Nil.prems(2) by (simp add: own_def sc_ok_def room_def le_max_iff_disj)
  then show ?case using Nil by simp
next
  case (Cons src srcs)
  obtain n ns' where ns: "ns = n # ns'" and src: "src_ok lib d b h src n"
    and srcs: "list_all2 (src_ok lib d b h) srcs ns'"
    using Cons.prems(5) by (cases ns) auto
  have cur: "current_seq_len c \<le> capacity_seq_len c" using Cons.prems(2) by (simp add: own_def sc_ok_def)
  show ?case
  proof (cases "current_seq_len c + n \<le> room c")
    case True
    have g: "capacity_seq_len c < current_seq_len c + n \<longrightarrow> grown_capacity n c \<le> max_seq_len c"
      using True grown_capacity_fits(2) [OF Cons.prems(6)] by (auto simp: room_def)
    have src_us: "src \<in> us" using Cons.prems(3) by simp
    obtain c' h' where a: "sc_append lib src c h = (Ok (), c', h')" "own lib d b h' c' us"
      "current_seq_len c' = current_seq_len c + n" "capacity_seq_len c' = next_capacity n c"
      "max_seq_len c' = max_seq_len c"
      "held lib b h' c' = map2 (@) (held lib b h c) (content lib d h src)"
      and us: "\<And>u. u \<in> us \<Longrightarrow> live lib h' u \<and> content lib d h' u = content lib d h u"
      by (rule sc_append_works [OF Cons.prems(1,2) src_us src Cons.prems(4) g]) simp_all
    have cap: "capacity_seq_len c' mod CACHE_GROW_SIZE = 0"
      using a(4) Cons.prems(6) grown_capacity_fits(1) [OF Cons.prems(6)] by (simp add: next_capacity_def)
    have "next_capacity n c \<le> room c"
    proof (cases "capacity_seq_len c < current_seq_len c + n")
      case True
      then have "grown_capacity n c \<le> max_seq_len c" "grown_capacity n c mod CACHE_GROW_SIZE = 0"
        using g grown_capacity_fits(1) [OF Cons.prems(6)] by simp_all
      then have "grown_capacity n c \<le> max_seq_len c div CACHE_GROW_SIZE * CACHE_GROW_SIZE"
        by (metis div_le_mono div_mult_mod_eq add.right_neutral mult_le_mono1)
      then show ?thesis using True by (simp add: next_capacity_def room_def)
    qed (simp add: next_capacity_def room_def)
    then have room: "room c' = room c"
      using a(4,5) next_capacity_ge(2) [of c n] by (auto simp: room_def)
    have srcs': "list_all2 (src_ok lib d b h') srcs ns'"
      using srcs Cons.prems(3) us unfolding list_all2_conv_all_nth
      by (auto simp: src_ok_def subset_iff)
    have same: "map (content lib d h') srcs = map (content lib d h) srcs"
      using Cons.prems(3) us by auto
    have "set srcs \<subseteq> us" using Cons.prems(3) by simp
    from Cons.IH [OF Cons.prems(1) a(2) this _ srcs' cap] us
    have "if current_seq_len c' + sum_list ns' \<le> room c'
         then \<exists>c'' h''. sc_appends lib srcs c' h' = (Ok (), c'', h'')
            \<and> current_seq_len c'' = current_seq_len c' + sum_list ns'
            \<and> held lib b h'' c'' = foldl (map2 (@)) (held lib b h' c') (map (content lib d h') srcs)
         else \<exists>m c'' h''. sc_appends lib srcs c' h' = (Err (Bail m), c'', h'')" by blast
    then show ?thesis using a(1) ns unfolding a(3,6) same room
      by (auto simp: add.assoc split: if_splits)
  next
    case False
    then have over: "capacity_seq_len c < current_seq_len c + n" by (simp add: room_def)
    then have "max_seq_len c < grown_capacity n c"
      using False grown_capacity_fits(2) [OF Cons.prems(6) over, of "max_seq_len c"] by (simp add: room_def not_le)
    then obtain c' h' m where "sc_append lib src c h = (Err (Bail m), c', h')"
      using sc_append_fails [OF Cons.prems(1,2) src over] by metis
    then show ?thesis using False ns by simp
  qed
qed

text \<open>
  A new cache returns what was appended to it, row by row and in order, as long as the
  appended lengths add up to at most the maximum rounded down to a multiple of 512 (512 when
  the maximum is smaller); one token more is refused with an error, also when the maximum
  itself is not reached.
\<close>

theorem cache_returns_what_was_appended:
  assumes "tensor_laws lib d" and "list_all2 (src_ok lib d b h) srcs ns"
  shows "if sum_list ns \<le> max CACHE_GROW_SIZE (m div CACHE_GROW_SIZE * CACHE_GROW_SIZE)
         then \<exists>c' h'. sc_appends lib srcs (sc_new d m CACHE_GROW_SIZE) h = (Ok (), c', h')
            \<and> current_seq_len c' = sum_list ns
            \<and> held lib b h' c' = foldl (map2 (@)) (replicate b []) (map (content lib d h) srcs)
         else \<exists>e c' h'. sc_appends lib srcs (sc_new d m CACHE_GROW_SIZE) h = (Err (Bail e), c', h')"
proof -
  let ?c = "sc_new d m CACHE_GROW_SIZE"
  have own: "own lib d b h ?c (set srcs)" by (simp add: own_def sc_ok_def sc_new_def)
  have live: "\<And>u. u \<in> set srcs \<Longrightarrow> live lib h u"
    using assms(2) by (auto simp: list_all2_conv_all_nth in_set_conv_nth src_ok_def)
  have cap: "capacity_seq_len ?c mod CACHE_GROW_SIZE = 0" by (simp add: sc_new_def)
  have room: "room ?c = max CACHE_GROW_SIZE (m div CACHE_GROW_SIZE * CACHE_GROW_SIZE)"
    "current_seq_len ?c = 0" "held lib b h ?c = replicate b []"
    by (simp_all add: room_def sc_new_def held_def)
  show ?thesis using sc_appends_run [OF assms(1) own subset_refl live assms(2) cap] unfolding room
    by (auto split: if_splits)
qed

section \<open>An instance of the tensor library\<close>

text \<open>
  Tensors as windows of rows and columns into a heap of matrices. It satisfies the laws, and
  the concrete inputs below are computed with it.
\<close>

record window =
  wd_addr :: nat
  wd_row :: nat
  wd_rows :: nat
  wd_col :: nat
  wd_cols :: nat
  wd_width :: nat
  wd_device :: nat

definition window_rows :: "nat list list list \<Rightarrow> window \<Rightarrow> nat list list" where
  "window_rows h t = map (\<lambda>row. take (wd_cols t) (drop (wd_col t) row)) (take (wd_rows t) (drop (wd_row t) (h ! wd_addr t)))"

definition window_live :: "nat list list list \<Rightarrow> window \<Rightarrow> bool" where
  "window_live h t \<longleftrightarrow> wd_addr t < length h \<and> wd_row t + wd_rows t \<le> length (h ! wd_addr t)
     \<and> wd_col t + wd_cols t \<le> wd_width t \<and> (\<forall>row \<in> set (h ! wd_addr t). length row = wd_width t)"

definition window_contiguous :: "window \<Rightarrow> bool" where
  "window_contiguous t \<longleftrightarrow> wd_col t = 0 \<and> wd_cols t = wd_width t"

definition window_new :: "nat \<Rightarrow> nat list list \<Rightarrow> nat \<Rightarrow> nat list list list \<Rightarrow> (window \<times> nat list list list) res" where
  "window_new dev m w h = Ok (\<lparr>wd_addr = length h, wd_row = 0, wd_rows = length m, wd_col = 0, wd_cols = w,
     wd_width = w, wd_device = dev\<rparr>, h @ [m])"

definition window_write :: "window \<Rightarrow> window \<Rightarrow> nat \<Rightarrow> nat list list list \<Rightarrow> nat list list list res" where
  "window_write dst src off h =
     (if off + wd_cols src \<le> wd_cols dst
      then let m = h ! wd_addr dst
           in Ok (h[wd_addr dst := take (wd_row dst) m
                @ map2 (overwrite off) (take (wd_rows dst) (drop (wd_row dst) m)) (window_rows h src)
                @ drop (wd_row dst + wd_rows dst) m])
      else Err (Bail ''shape mismatch''))"

definition window_lib :: "(nat list list list, window, nat) tensor_lib" where
  "window_lib =
     \<lparr>content = (\<lambda>_. window_rows), live = window_live, shares = (\<lambda>t u. wd_addr t = wd_addr u),
      is_contiguous = window_contiguous, dim_of = (\<lambda>t d. Ok (if d = 0 then wd_rows t else wd_cols t)),
      zeros = (\<lambda>src _ n h. window_new (wd_device src) (replicate (wd_rows src) (replicate n 0)) n h),
      slice_set = (\<lambda>dst src _. window_write dst src),
      narrow = (\<lambda>t _ i l. if i + l \<le> wd_cols t then Ok (t\<lparr>wd_col := wd_col t + i, wd_cols := l\<rparr>)
                          else Err (Bail ''narrow'')),
      cat = (\<lambda>ts _ h. window_new (wd_device (hd ts)) (concat (map (window_rows h) ts)) (wd_cols (hd ts)) h),
      chunk = (\<lambda>t n _. Ok (map (\<lambda>i. t\<lparr>wd_row := wd_row t + i * (wd_rows t div n), wd_rows := wd_rows t div n\<rparr>) [0..<n])),
      contiguous = (\<lambda>t h. if window_contiguous t then Ok (t, h) else window_new (wd_device t) (window_rows h t) (wd_cols t) h),
      ones_like = (\<lambda>t h. window_new (wd_device t) (replicate (wd_rows t) (replicate (wd_cols t) 1)) (wd_cols t) h),
      zeros_like = (\<lambda>t h. window_new (wd_device t) (replicate (wd_rows t) (replicate (wd_cols t) 0)) (wd_cols t) h),
      to_device = (\<lambda>dev t h. if wd_device t = dev then Ok (t, h) else window_new dev (window_rows h t) (wd_cols t) h),
      device_of = wd_device\<rparr>"

lemma window_lib_simps [simp]:
  "content window_lib d = window_rows" "live window_lib = window_live"
  "shares window_lib t u \<longleftrightarrow> wd_addr t = wd_addr u" "is_contiguous window_lib = window_contiguous"
  "slice_set window_lib t u d = window_write t u"
  by (simp_all add: window_lib_def)

lemma window_rows_length: "window_live h t \<Longrightarrow> length (window_rows h t) = wd_rows t"
  by (auto simp: window_live_def window_rows_def)

lemma window_row_length: "window_live h t \<Longrightarrow> row \<in> set (window_rows h t) \<Longrightarrow> length row = wd_cols t"
  by (auto simp: window_live_def window_rows_def dest!: in_set_takeD in_set_dropD)

lemma window_rows_append [simp]: "wd_addr t < length h \<Longrightarrow> window_rows (h @ h') t = window_rows h t"
  by (simp add: window_rows_def nth_append)

lemma window_live_append [simp]: "window_live h t \<Longrightarrow> window_live (h @ h') t"
  by (simp add: window_live_def nth_append)

lemma window_new_fresh:
  assumes "\<forall>row \<in> set m. length row = w"
  obtains t where "window_new dev m w h = Ok (t, h @ [m])" and "fresh_tensor window_lib d t h (h @ [m])"
    and "wd_cols t = w" and "wd_rows t = length m" and "window_rows (h @ [m]) t = m"
proof -
  let ?t = "\<lparr>wd_addr = length h, wd_row = 0, wd_rows = length m, wd_col = 0, wd_cols = w, wd_width = w, wd_device = dev\<rparr>"
  have "map (take w) m = m" using assms by (simp add: map_idI)
  then have "window_rows (h @ [m]) ?t = m" by (simp add: window_rows_def)
  moreover have "fresh_tensor window_lib d ?t h (h @ [m])"
    using assms by (simp add: fresh_tensor_def keeps_def window_live_def window_contiguous_def nth_append)
  ultimately show thesis by (intro that [of ?t]) (simp_all add: window_new_def)
qed

lemma window_write_works:
  assumes "window_live h dst" and "window_live h src" and "window_contiguous dst"
    and "wd_addr dst \<noteq> wd_addr src" and "wd_rows dst = wd_rows src" and "off + wd_cols src \<le> wd_cols dst"
  obtains h' where "window_write dst src off h = Ok h'" and "keeps window_lib d (\<lambda>u. wd_addr dst = wd_addr u) h h'"
    and "window_rows h' dst = map2 (overwrite off) (window_rows h dst) (window_rows h src)"
proof -
  let ?m = "h ! wd_addr dst"
  let ?mid = "map2 (overwrite off) (take (wd_rows dst) (drop (wd_row dst) ?m)) (window_rows h src)"
  let ?m' = "take (wd_row dst) ?m @ ?mid @ drop (wd_row dst + wd_rows dst) ?m"
  have m: "wd_addr dst < length h" "wd_row dst + wd_rows dst \<le> length ?m" "\<forall>row \<in> set ?m. length row = wd_width dst"
    using assms(1) by (auto simp: window_live_def)
  have w: "wd_col dst = 0" "wd_cols dst = wd_width dst" using assms(3) by (auto simp: window_contiguous_def)
  have mid: "length ?mid = wd_rows dst" using m(2) window_rows_length [OF assms(2)] assms(5) by simp
  have row: "length r = wd_width dst" if "r \<in> set ?mid" for r
  proof -
    from that obtain a b where ab: "r = overwrite off a b"
      "(a, b) \<in> set (zip (take (wd_rows dst) (drop (wd_row dst) ?m)) (window_rows h src))" by auto
    then have r: "a \<in> set ?m" "b \<in> set (window_rows h src)"
      by (meson set_zip_leftD in_set_takeD in_set_dropD) (meson ab(2) set_zip_rightD)
    with ab(1) show ?thesis using m(3) window_row_length [OF assms(2)] assms(6) w(2) by (simp add: overwrite_def)
  qed
  have m': "length ?m' = length ?m" using mid m(2) by simp
  have rows': "\<forall>r \<in> set ?m'. length r = wd_width dst"
    using row m(3) by (auto dest: in_set_takeD in_set_dropD)
  have "window_rows (h[wd_addr dst := ?m']) dst = map (take (wd_width dst)) ?mid"
    using m w mid by (simp add: window_rows_def del: map_map)
  also have "\<dots> = ?mid" using row by (intro map_idI) simp
  finally have c: "window_rows (h[wd_addr dst := ?m']) dst = ?mid" .
  have old: "take (wd_rows dst) (drop (wd_row dst) ?m) = window_rows h dst"
    using m(3) w by (auto simp: window_rows_def intro!: map_idI [symmetric] dest!: in_set_takeD in_set_dropD)
  have "keeps window_lib d (\<lambda>u. wd_addr dst = wd_addr u) h (h[wd_addr dst := ?m'])"
    unfolding keeps_def
  proof (intro allI impI conjI)
    fix u assume u: "live window_lib h u"
    show "live window_lib (h[wd_addr dst := ?m']) u"
    proof (cases "wd_addr u = wd_addr dst")
      case True
      have "wd_width u = wd_width dst" if "?m \<noteq> []"
        using u True m(3) that by (auto simp: window_live_def neq_Nil_conv)
      then show ?thesis using u True m(1) m' rows' by (cases "?m = []") (auto simp: window_live_def)
    qed (use u in \<open>simp add: window_live_def\<close>)
  qed (simp add: window_rows_def)
  moreover have "window_write dst src off h = Ok (h[wd_addr dst := ?m'])"
    using assms(6) by (simp add: window_write_def Let_def)
  ultimately show thesis using c old by (intro that [of "h[wd_addr dst := ?m']"]) simp_all
qed

lemma window_laws:
  assumes "0 < d"
  shows "tensor_laws window_lib d"
  unfolding tensor_laws_def
proof (intro conjI)
  show "zeros_law window_lib d"
    unfolding zeros_law_def
  proof (intro allI impI)
    fix src n h assume s: "live window_lib h src"
    let ?m = "replicate (wd_rows src) (replicate n 0)"
    obtain t where "window_new (wd_device src) ?m n h = Ok (t, h @ [?m])" "fresh_tensor window_lib d t h (h @ [?m])"
      "wd_cols t = n" "wd_rows t = length ?m" "window_rows (h @ [?m]) t = ?m"
      by (rule window_new_fresh [of ?m n "wd_device src" h d]) auto
    then show "\<exists>t h'. zeros window_lib src d n h = Ok (t, h') \<and> fresh_tensor window_lib d t h h'
        \<and> dim_of window_lib t d = Ok n \<and> length (content window_lib d h' t) = length (content window_lib d h src)"
      using s assms by (intro exI [of _ t] exI [of _ "h @ [?m]"]) (simp add: window_lib_def window_rows_length)
  qed
next
  show "slice_set_law window_lib d"
    unfolding slice_set_law_def
  proof (intro allI impI)
    fix dst src off n m h
    assume "live window_lib h dst \<and> live window_lib h src \<and> is_contiguous window_lib dst
      \<and> is_contiguous window_lib src \<and> \<not> shares window_lib dst src \<and> dim_of window_lib dst d = Ok m
      \<and> dim_of window_lib src d = Ok n \<and> length (content window_lib d h dst) = length (content window_lib d h src)"
    then have h: "window_live h dst" "window_live h src" "window_contiguous dst" "wd_addr dst \<noteq> wd_addr src"
      "wd_rows dst = wd_rows src" and n: "wd_cols dst = m" "wd_cols src = n"
      using assms by (auto simp: window_rows_length) (simp_all add: window_lib_def)
    show "if off + n \<le> m
      then \<exists>h'. slice_set window_lib dst src d off h = Ok h' \<and> keeps window_lib d (shares window_lib dst) h h'
        \<and> content window_lib d h' dst = map2 (overwrite off) (content window_lib d h dst) (content window_lib d h src)
      else \<exists>e. slice_set window_lib dst src d off h = Err (Bail e)"
    proof (cases "off + n \<le> m")
      case True
      then obtain h' where "window_write dst src off h = Ok h'"
        "keeps window_lib d (\<lambda>u. wd_addr dst = wd_addr u) h h'"
        "window_rows h' dst = map2 (overwrite off) (window_rows h dst) (window_rows h src)"
        using window_write_works [OF h, of off] n by metis
      moreover have "shares window_lib dst = (\<lambda>u. wd_addr dst = wd_addr u)" by (simp add: fun_eq_iff)
      ultimately show ?thesis using True by simp
    qed (simp add: window_write_def n)
  qed
next
  show "dim_law window_lib d"
    unfolding dim_law_def using assms window_row_length by (auto simp: window_lib_def)
next
  show "narrow_law window_lib d"
    unfolding narrow_law_def
  proof (intro allI impI)
    fix t m i l assume "dim_of window_lib t d = Ok m"
    then have m: "wd_cols t = m" using assms by (simp add: window_lib_def)
    have "\<forall>h. window_live h t \<longrightarrow> window_live h (t\<lparr>wd_col := wd_col t + i, wd_cols := l\<rparr>)
       \<and> window_rows h (t\<lparr>wd_col := wd_col t + i, wd_cols := l\<rparr>) = map (\<lambda>row. take l (drop i row)) (window_rows h t)"
      if "i + l \<le> m"
      using that m by (auto simp: window_live_def window_rows_def drop_take add.commute min_def)
    then show "if i + l \<le> m
      then \<exists>u. narrow window_lib t d i l = Ok u \<and> dim_of window_lib u d = Ok l
        \<and> (\<forall>h. live window_lib h t \<longrightarrow> live window_lib h u
             \<and> content window_lib d h u = map (\<lambda>row. take l (drop i row)) (content window_lib d h t))
      else \<exists>e. narrow window_lib t d i l = Err (Bail e)"
      using m assms by (simp add: window_lib_def)
  qed
qed

text \<open>Two rows of the given lengths, in storage of their own.\<close>

definition two_rows :: "nat \<Rightarrow> nat \<Rightarrow> window" where
  "two_rows a n = \<lparr>wd_addr = a, wd_row = 0, wd_rows = 2, wd_col = 0, wd_cols = n, wd_width = n, wd_device = 0\<rparr>"

theorem cache_returns_what_was_appended_witness:
  "(\<exists>c' h'. sc_appends window_lib [two_rows 0 2, two_rows 1 1] (sc_new 2 1000 CACHE_GROW_SIZE)
       [[[1, 2], [3, 4]], [[5], [6]]] = (Ok (), c', h')
     \<and> held window_lib 2 h' c' = [[1, 2, 5], [3, 4, 6]])
   \<and> (\<exists>e c' h'. sc_appends window_lib [two_rows 0 513] (sc_new 2 1000 CACHE_GROW_SIZE)
       [[replicate 513 7, replicate 513 8]] = (Err (Bail e), c', h'))"
proof -
  note r = cache_returns_what_was_appended [OF window_laws, of 2]
  have "list_all2 (src_ok window_lib 2 2 [[[1, 2], [3, 4]], [[5], [6]]]) [two_rows 0 2, two_rows 1 1] [2, 1]"
    by (simp add: src_ok_def window_live_def window_contiguous_def window_rows_def two_rows_def)
      (simp add: window_lib_def)
  from r [OF _ this, of 1000] have "\<exists>c' h'. sc_appends window_lib [two_rows 0 2, two_rows 1 1]
      (sc_new 2 1000 CACHE_GROW_SIZE) [[[1, 2], [3, 4]], [[5], [6]]] = (Ok (), c', h')
     \<and> held window_lib 2 h' c' = foldl (map2 (@)) (replicate 2 [])
         (map (window_rows [[[1, 2], [3, 4]], [[5], [6]]]) [two_rows 0 2, two_rows 1 1])"
    by (simp add: CACHE_GROW_SIZE_def) blast
  moreover have "foldl (map2 (@)) (replicate 2 [])
      (map (window_rows [[[1, 2], [3, 4]], [[5], [6]]]) [two_rows 0 2, two_rows 1 1]) = [[1, 2, 5], [3, 4, 6]]"
    by (simp add: window_rows_def two_rows_def numeral_2_eq_2)
  ultimately have "\<exists>c' h'. sc_appends window_lib [two_rows 0 2, two_rows 1 1]
      (sc_new 2 1000 CACHE_GROW_SIZE) [[[1, 2], [3, 4]], [[5], [6]]] = (Ok (), c', h')
     \<and> held window_lib 2 h' c' = [[1, 2, 5], [3, 4, 6]]" by simp
  moreover have "list_all2 (src_ok window_lib 2 2 [[replicate 513 7, replicate 513 8]]) [two_rows 0 513] [513]"
    by (simp add: src_ok_def window_live_def window_contiguous_def window_rows_def two_rows_def)
      (simp add: window_lib_def)
  from r [OF _ this, of 1000] have "\<exists>e c' h'. sc_appends window_lib [two_rows 0 513]
      (sc_new 2 1000 CACHE_GROW_SIZE) [[replicate 513 7, replicate 513 8]] = (Err (Bail e), c', h')"
    by (simp add: CACHE_GROW_SIZE_def)
  ultimately show ?thesis by blast
qed

section \<open>The mask of a sliding window\<close>

text \<open>
  When the cached keys are longer than the sliding window and there is a mask at least as
  wide as the window, updating the cache fails: the mask is cut to the window first, and its
  last column is then looked up with the length from before.
\<close>

theorem sliding_window_with_a_mask_fails:
  assumes "narrow_law lib 1" and "narrow_law lib 2"
    and "dim_of lib prev_k 2 = Ok len" and "dim_of lib prev_v 2 = Ok len"
    and "dim_of lib m 1 = Ok mask_len" and "0 < w" and "w < len" and "w \<le> mask_len"
  shows "\<exists>e. update_kv_cache_sliding_window lib kvconcat last_dim slow (Some w) (Some m) k v
     (Some (prev_k, prev_v)) h = Err (Bail e)"
proof -
  have cut: "\<exists>u. last_window lib t d n w = Ok u \<and> dim_of lib u d = Ok (w - 1)"
    if law: "narrow_law lib d" "dim_of lib t d = Ok n" and le: "w \<le> n" for t d n
  proof -
    have "n - (w - 1) + (w - 1) \<le> n" using le assms(6) by simp
    then obtain u where "narrow lib t d (n - (w - 1)) (w - 1) = Ok u" "dim_of lib u d = Ok (w - 1)"
      using narrowE [OF law] by metis
    then show ?thesis using le assms(6) by (simp add: last_window_def)
  qed
  obtain pk pv where p: "last_window lib prev_k 2 len w = Ok pk" "last_window lib prev_v 2 len w = Ok pv"
    using cut [OF assms(2,3)] cut [OF assms(2,4)] assms(7) by auto
  obtain u where u: "last_window lib m 1 mask_len w = Ok u" "dim_of lib u 1 = Ok (w - 1)"
    using cut [OF assms(1,5,8)] by auto
  have "\<not> mask_len - 1 + 1 \<le> w - 1" using assms(6,8) by simp
  then obtain e where "narrow lib u 1 (mask_len - 1) 1 = Err (Bail e)"
    using assms(1) u(2) unfolding narrow_law_def by meson
  then have "window_mask lib last_dim w m h = Err (Bail e)"
    using assms(5,6,8) u(1) by (simp add: window_mask_def)
  then show ?thesis using assms(3,7) p by (simp add: update_kv_cache_sliding_window_def)
qed

theorem sliding_window_with_a_mask_fails_witness:
  "\<exists>e. update_kv_cache_sliding_window window_lib (\<lambda>t u d h. Ok (t, h)) 1 False (Some 2) (Some (two_rows 0 4))
     (two_rows 0 1) (two_rows 0 1) (Some (two_rows 0 3, two_rows 0 3)) [] = Err (Bail e)"
proof -
  have "narrow_law window_lib 1" "narrow_law window_lib 2"
    using window_laws by (simp_all add: tensor_laws_def)
  moreover have "dim_of window_lib (two_rows 0 n) 1 = Ok n" "dim_of window_lib (two_rows 0 n) 2 = Ok n" for n
    by (simp_all add: window_lib_def two_rows_def)
  ultimately show ?thesis by (intro sliding_window_with_a_mask_fails [where len = 3 and mask_len = 4]) simp_all
qed

section \<open>Into the batch and out again\<close>

definition cat_law :: "('h, 't, 'e) tensor_lib \<Rightarrow> nat \<Rightarrow> bool" where
  "cat_law lib d \<longleftrightarrow>
     (\<forall>ts n h. ts \<noteq> [] \<and> (\<forall>t \<in> set ts. live lib h t \<and> dim_of lib t d = Ok n) \<longrightarrow>
        (\<exists>t h'. cat lib ts 0 h = Ok (t, h') \<and> fresh_tensor lib d t h h'
           \<and> content lib d h' t = concat (map (content lib d h) ts)))"

definition chunk_law :: "('h, 't, 'e) tensor_lib \<Rightarrow> nat \<Rightarrow> bool" where
  "chunk_law lib d \<longleftrightarrow>
     (\<forall>t k b h. live lib h t \<and> length (content lib d h t) = k * b \<and> 0 < k \<and> 0 < b \<longrightarrow>
        (\<exists>us. chunk lib t k 0 = Ok us \<and> length us = k
           \<and> (\<forall>i < k. content lib d h (us ! i) = take b (drop (i * b) (content lib d h t)))))"

text \<open>A layer of a sequence as the values it denotes.\<close>

definition pair_view :: "('h, 't, 'e) tensor_lib \<Rightarrow> nat \<Rightarrow> 'h \<Rightarrow> ('t \<times> 't) option \<Rightarrow> ('e list list \<times> 'e list list) option" where
  "pair_view lib d h kv = map_option (\<lambda>(k, v). (content lib d h k, content lib d h v)) kv"

text \<open>
  The sequences that can be batched: each has \<open>layers\<close> layers of live tensors, and the tensors
  of one layer have the same shape, with \<open>b\<close> rows.
\<close>

definition batchable :: "('h, 't, 'e) tensor_lib \<Rightarrow> nat \<Rightarrow> nat \<Rightarrow> nat \<Rightarrow> (nat \<Rightarrow> nat) \<Rightarrow> 'h \<Rightarrow> 't layer_tensors list \<Rightarrow> bool" where
  "batchable lib d b layers dims h seqs \<longleftrightarrow> seqs \<noteq> [] \<and> 0 < b
     \<and> (\<forall>s \<in> set seqs. length s = layers
          \<and> (\<forall>l < layers. \<forall>kv. s ! l = Some kv \<longrightarrow> (\<forall>t \<in> {fst kv, snd kv}. live lib h t
               \<and> dim_of lib t d = Ok (dims l) \<and> length (content lib d h t) = b)))"

definition layer_of :: "nat \<Rightarrow> 't layer_tensors \<Rightarrow> 't \<times> 't" where
  "layer_of l s = the (s ! l)"

lemma gather_layer_works:
  "(\<And>s. s \<in> set seqs \<Longrightarrow> l < length s) \<Longrightarrow>
     gather_layer Ok l seqs = Ok (if \<exists>s \<in> set seqs. s ! l = None then None
       else Some (map (fst \<circ> layer_of l) seqs, map (snd \<circ> layer_of l) seqs))"
proof (induction seqs)
  case (Cons a seqs)
  then show ?case
    by (cases "a ! l"; cases "\<exists>s \<in> set seqs. s ! l = None") (simp_all add: layer_of_def split_def)
qed simp

lemma cat_all_works:
  assumes "cat_law lib d" and "ts \<noteq> []" and "\<And>t. t \<in> set ts \<Longrightarrow> live lib h t \<and> dim_of lib t d = Ok n"
  obtains t h' where "cat_all lib ts h = Ok (t, h')" and "live lib h' t" and "keeps lib d (\<lambda>_. False) h h'"
    and "content lib d h' t = concat (map (content lib d h) ts)"
proof (cases "1 < length ts")
  case True
  have "ts \<noteq> [] \<and> (\<forall>t \<in> set ts. live lib h t \<and> dim_of lib t d = Ok n)" using assms(2,3) by blast
  then obtain t h' where "cat lib ts 0 h = Ok (t, h')" "fresh_tensor lib d t h h'"
    "content lib d h' t = concat (map (content lib d h) ts)"
    using assms(1) unfolding cat_law_def by meson
  then show thesis using True by (intro that [of t h']) (simp_all add: cat_all_def expect_def fresh_tensor_def)
next
  case False
  then obtain t where "ts = [t]" using assms(2) by (cases ts) auto
  then show thesis using assms(3) by (intro that [of t h]) (simp_all add: cat_all_def)
qed

text \<open>What the batch holds for one layer.\<close>

definition batched :: "('h, 't, 'e) tensor_lib \<Rightarrow> nat \<Rightarrow> 'h \<Rightarrow> 'h \<Rightarrow> 't layer_tensors list \<Rightarrow> nat \<Rightarrow> ('t \<times> 't) option \<Rightarrow> bool" where
  "batched lib d h0 h seqs l e =
     (case e of None \<Rightarrow> \<exists>s \<in> set seqs. s ! l = None
      | Some (k, v) \<Rightarrow> (\<forall>s \<in> set seqs. s ! l \<noteq> None) \<and> live lib h k \<and> live lib h v
          \<and> content lib d h k = concat (map (\<lambda>s. content lib d h0 (fst (layer_of l s))) seqs)
          \<and> content lib d h v = concat (map (\<lambda>s. content lib d h0 (snd (layer_of l s))) seqs))"

lemma batched_keeps:
  "keeps lib d (\<lambda>_. False) h h' \<Longrightarrow> batched lib d h0 h seqs l e \<Longrightarrow> batched lib d h0 h' seqs l e"
  by (auto simp: batched_def keeps_def split: option.splits)

lemma batch_layer_works:
  assumes "cat_law lib d" and "batchable lib d b layers dims h0 seqs" and "l < layers"
    and "keeps lib d (\<lambda>_. False) h0 h"
  obtains e h' where "batch_layer lib Ok seqs l (acc, h) = Ok (acc @ [e], h')"
    and "batched lib d h0 h' seqs l e" and "keeps lib d (\<lambda>_. False) h h'"
proof -
  have len: "\<And>s. s \<in> set seqs \<Longrightarrow> l < length s" using assms(2,3) by (auto simp: batchable_def)
  note g = gather_layer_works [OF len]
  show thesis
  proof (cases "\<exists>s \<in> set seqs. s ! l = None")
    case True
    then show thesis by (intro that [of None h]) (simp_all add: batch_layer_def g batched_def)
  next
    case False
    let ?ks = "map (fst \<circ> layer_of l) seqs" and ?vs = "map (snd \<circ> layer_of l) seqs"
    have t: "live lib h0 t \<and> dim_of lib t d = Ok (dims l)" if "t \<in> set ?ks \<union> set ?vs" for t
    proof -
      from that obtain s where s: "s \<in> set seqs" "t = fst (layer_of l s) \<or> t = snd (layer_of l s)" by auto
      then have "s ! l = Some (layer_of l s)" using False by (auto simp: layer_of_def)
      then show ?thesis using s assms(2,3) unfolding batchable_def by blast
    qed
    have ne: "?ks \<noteq> []" "?vs \<noteq> []" using assms(2) by (simp_all add: batchable_def)
    have th: "live lib h t \<and> dim_of lib t d = Ok (dims l)" if "t \<in> set ?ks \<union> set ?vs" for t
      using t [OF that] keepsD(1) [OF assms(4)] by blast
    have ths: "\<And>t. t \<in> set ?ks \<Longrightarrow> live lib h t \<and> dim_of lib t d = Ok (dims l)"
      "\<And>t. t \<in> set ?vs \<Longrightarrow> live lib h t \<and> dim_of lib t d = Ok (dims l)" using th by blast+
    obtain k h1 where k: "cat_all lib ?ks h = Ok (k, h1)" "live lib h1 k" "keeps lib d (\<lambda>_. False) h h1"
      "content lib d h1 k = concat (map (content lib d h) ?ks)"
      by (rule cat_all_works [OF assms(1) ne(1) ths(1)])
    have ths1: "\<And>t. t \<in> set ?vs \<Longrightarrow> live lib h1 t \<and> dim_of lib t d = Ok (dims l)"
      using ths(2) keepsD(1) [OF k(3)] by blast
    obtain v h2 where v: "cat_all lib ?vs h1 = Ok (v, h2)" "live lib h2 v" "keeps lib d (\<lambda>_. False) h1 h2"
      "content lib d h2 v = concat (map (content lib d h1) ?vs)"
      by (rule cat_all_works [OF assms(1) ne(2) ths1])
    have kv: "content lib d h t = content lib d h0 t" "content lib d h1 t = content lib d h0 t"
      if "t \<in> set ?ks \<union> set ?vs" for t
      using keepsD(2) [OF assms(4)] keepsD(2) [OF k(3)] t [OF that] th [OF that] by simp_all
    have "content lib d h2 k = concat (map (\<lambda>s. content lib d h0 (fst (layer_of l s))) seqs)"
      using keepsD(2) [OF v(3) k(2)] k(4) kv(1) by (simp cong: map_cong)
    moreover have "content lib d h2 v = concat (map (\<lambda>s. content lib d h0 (snd (layer_of l s))) seqs)"
      using v(4) kv(2) by (simp cong: map_cong)
    ultimately have "batched lib d h0 h2 seqs l (Some (k, v))"
      using False v(2) keepsD(1) [OF v(3) k(2)] by (simp add: batched_def)
    moreover have "batch_layer lib Ok seqs l (acc, h) = Ok (acc @ [Some (k, v)], h2)"
      using False k(1) v(1) by (simp add: batch_layer_def g)
    ultimately show thesis using keeps_trans [OF k(3) v(3)] by (intro that)
  qed
qed

lemma batch_layers_work:
  assumes "cat_law lib d" and "batchable lib d b layers dims h0 seqs" and "n \<le> layers"
  obtains cached h where "rfold (batch_layer lib Ok seqs) [0..<n] ([], h0) = Ok (cached, h)"
    and "length cached = n" and "\<And>l. l < n \<Longrightarrow> batched lib d h0 h seqs l (cached ! l)"
    and "keeps lib d (\<lambda>_. False) h0 h"
proof -
  have "\<exists>cached h. rfold (batch_layer lib Ok seqs) [0..<n] ([], h0) = Ok (cached, h) \<and> length cached = n
     \<and> (\<forall>l < n. batched lib d h0 h seqs l (cached ! l)) \<and> keeps lib d (\<lambda>_. False) h0 h"
    using assms(3)
  proof (induction n)
    case (Suc n)
    then obtain cached h where c: "rfold (batch_layer lib Ok seqs) [0..<n] ([], h0) = Ok (cached, h)"
      "length cached = n" "\<forall>l < n. batched lib d h0 h seqs l (cached ! l)" "keeps lib d (\<lambda>_. False) h0 h"
      by auto
    have "n < layers" using Suc.prems by simp
    then obtain e h' where e: "batch_layer lib Ok seqs n (cached, h) = Ok (cached @ [e], h')"
      "batched lib d h0 h' seqs n e" "keeps lib d (\<lambda>_. False) h h'"
      using batch_layer_works [OF assms(1,2) _ c(4)] by metis
    have "batched lib d h0 h' seqs l ((cached @ [e]) ! l)" if "l < Suc n" for l
      using that c(2,3) e(2) batched_keeps [OF e(3)] by (cases "l = n") (auto simp: nth_append)
    moreover have "rfold (batch_layer lib Ok seqs) [0..<Suc n] ([], h0) = Ok (cached @ [e], h')"
      using c(1) e(1) by (simp add: rfold_append)
    ultimately show ?case using c(2) keeps_trans [OF c(4) e(3)] by (metis length_append_singleton)
  qed simp
  then show thesis using that by blast
qed

lemma concat_slice:
  "(\<And>x. x \<in> set xs \<Longrightarrow> length (f x) = b) \<Longrightarrow> i < length xs \<Longrightarrow>
     take b (drop (i * b) (concat (map f xs))) = f (xs ! i)"
proof (induction xs arbitrary: i)
  case (Cons x xs)
  then show ?case by (cases i) simp_all
qed simp

lemma concat_length: "(\<And>x. x \<in> set xs \<Longrightarrow> length (f x) = b) \<Longrightarrow> length (concat (map f xs)) = length xs * b"
  by (induction xs) simp_all

lemma chunk_works:
  assumes "chunk_law lib d" and "live lib h t" and "content lib d h t = concat (map f xs)"
    and "\<And>x. x \<in> set xs \<Longrightarrow> length (f x) = b" and "xs \<noteq> []" and "0 < b"
  obtains us where "chunk lib t (length xs) 0 = Ok us" and "length us = length xs"
    and "\<forall>i < length xs. content lib d h (us ! i) = f (xs ! i)"
proof -
  have "live lib h t \<and> length (content lib d h t) = length xs * b \<and> 0 < length xs \<and> 0 < b"
    using assms(2,3,5,6) concat_length [OF assms(4)] by simp
  then obtain us where us: "chunk lib t (length xs) 0 = Ok us" "length us = length xs"
    and "\<forall>i < length xs. content lib d h (us ! i) = take b (drop (i * b) (content lib d h t))"
    using assms(1) unfolding chunk_law_def by meson
  moreover have "take b (drop (i * b) (concat (map f xs))) = f (xs ! i)" if "i < length xs" for i
    by (rule concat_slice) (use assms(4) that in auto)
  ultimately have "\<forall>i < length xs. content lib d h (us ! i) = f (xs ! i)" using assms(3) by simp
  then show thesis using us that by blast
qed

lemma hand_out_works:
  assumes "length ks = length seqs" and "length vs = length seqs" and "\<And>s. s \<in> set seqs \<Longrightarrow> l < length s"
  shows "hand_out put l ks vs seqs
    = Ok (map (\<lambda>(i, s). s[l := Some (put (ks ! i) (vs ! i))]) (List.enumerate 0 seqs))"
  unfolding hand_out_def
  using assms by (intro rmap_Inr) (auto simp: in_set_enumerate_eq vset_def)

text \<open>The sequences look as before: same layers, same values.\<close>

definition look_the_same :: "('h, 't, 'e) tensor_lib \<Rightarrow> nat \<Rightarrow> nat \<Rightarrow> 'h \<Rightarrow> 't layer_tensors list \<Rightarrow> 'h \<Rightarrow> 't layer_tensors list \<Rightarrow> bool" where
  "look_the_same lib d layers h0 seqs h seqs' \<longleftrightarrow> length seqs' = length seqs
     \<and> (\<forall>i < length seqs. length (seqs' ! i) = layers
          \<and> (\<forall>l < layers. pair_view lib d h (seqs' ! i ! l) = pair_view lib d h0 (seqs ! i ! l)))"

lemma clone_out_layer_works:
  assumes "chunk_law lib d" and "batchable lib d b layers dims h0 seqs" and "l < layers" and "l < length cached"
    and "batched lib d h0 h seqs l (cached ! l)" and "look_the_same lib d layers h0 seqs h seqs'"
  obtains seqs'' where "clone_out_layer lib cached l seqs' = Ok seqs''"
    and "look_the_same lib d layers h0 seqs h seqs''"
proof (cases "cached ! l")
  case None
  then show thesis using assms(4,6) by (intro that [of seqs']) (simp_all add: clone_out_layer_def)
next
  case (Some kv)
  then obtain k v where kv: "cached ! l = Some (k, v)" by (cases kv) simp
  have bt: "\<forall>s \<in> set seqs. s ! l \<noteq> None" "live lib h k" "live lib h v"
    "content lib d h k = concat (map (\<lambda>s. content lib d h0 (fst (layer_of l s))) seqs)"
    "content lib d h v = concat (map (\<lambda>s. content lib d h0 (snd (layer_of l s))) seqs)"
    using assms(5) kv by (simp_all add: batched_def)
  have some: "s ! l = Some (layer_of l s)" if "s \<in> set seqs" for s
    using bt(1) that by (auto simp: layer_of_def)
  have rows: "length (content lib d h0 (fst (layer_of l s))) = b" "length (content lib d h0 (snd (layer_of l s))) = b"
    if "s \<in> set seqs" for s
    using some [OF that] that assms(2,3) unfolding batchable_def by blast+
  have ne: "seqs \<noteq> []" "0 < b" using assms(2) by (simp_all add: batchable_def)
  obtain ks where ks: "chunk lib k (length seqs) 0 = Ok ks" "length ks = length seqs"
    "\<forall>i < length seqs. content lib d h (ks ! i) = content lib d h0 (fst (layer_of l (seqs ! i)))"
    by (rule chunk_works [OF assms(1) bt(2,4) rows(1) ne])
  obtain vs where vs: "chunk lib v (length seqs) 0 = Ok vs" "length vs = length seqs"
    "\<forall>i < length seqs. content lib d h (vs ! i) = content lib d h0 (snd (layer_of l (seqs ! i)))"
    by (rule chunk_works [OF assms(1) bt(3,5) rows(2) ne])
  have len: "length seqs' = length seqs" and long: "\<And>s. s \<in> set seqs' \<Longrightarrow> l < length s"
    using assms(3,6) by (auto simp: look_the_same_def in_set_conv_nth)
  let ?new = "map (\<lambda>(i, s). s[l := Some (ks ! i, vs ! i)]) (List.enumerate 0 seqs')"
  have "clone_out_layer lib cached l seqs' = Ok ?new"
    using kv ks(1,2) vs(1,2) len hand_out_works [of ks seqs' vs l Pair] long assms(4)
    by (simp add: clone_out_layer_def split_layer_def expect_def)
  moreover have "look_the_same lib d layers h0 seqs h ?new"
    unfolding look_the_same_def
  proof (intro conjI allI impI)
    fix i assume i: "i < length seqs"
    then have new: "?new ! i = (seqs' ! i)[l := Some (ks ! i, vs ! i)]"
      using len by (simp add: nth_enumerate_eq)
    have si: "length (seqs' ! i) = layers" using i assms(6) by (simp add: look_the_same_def)
    then show "length (?new ! i) = layers" by (simp add: new)
    fix j assume j: "j < layers"
    show "pair_view lib d h (?new ! i ! j) = pair_view lib d h0 (seqs ! i ! j)"
    proof (cases "j = l")
      case True
      then show ?thesis
        using i j si ks(3) vs(3) some [of "seqs ! i"] unfolding new by (simp add: pair_view_def split_def)
    next
      case False
      then show ?thesis using i j assms(6) by (simp add: new look_the_same_def)
    qed
  qed (simp add: len)
  ultimately show thesis by (rule that)
qed


lemma window_cat_law: "0 < d \<Longrightarrow> cat_law window_lib d"
  unfolding cat_law_def
proof (intro allI impI)
  fix ts :: "window list" and n :: nat and h
  assume "0 < d" and ts: "ts \<noteq> [] \<and> (\<forall>t \<in> set ts. live window_lib h t \<and> dim_of window_lib t d = Ok n)"
  then have cols: "wd_cols t = n" if "t \<in> set ts" for t using that by (simp add: window_lib_def)
  let ?m = "concat (map (window_rows h) ts)"
  have "\<forall>row \<in> set ?m. length row = n" using ts cols window_row_length by fastforce
  then obtain t where "window_new (wd_device (hd ts)) ?m n h = Ok (t, h @ [?m])"
    "fresh_tensor window_lib d t h (h @ [?m])" "window_rows (h @ [?m]) t = ?m"
    by (rule window_new_fresh)
  moreover have "wd_cols (hd ts) = n" using ts cols by simp
  ultimately show "\<exists>t h'. cat window_lib ts 0 h = Ok (t, h') \<and> fresh_tensor window_lib d t h h'
      \<and> content window_lib d h' t = concat (map (content window_lib d h) ts)"
    by (intro exI [of _ t] exI [of _ "h @ [?m]"]) (simp add: window_lib_def)
qed

lemma window_chunk_law: "chunk_law window_lib d"
  unfolding chunk_law_def
proof (intro allI impI)
  fix t k b h
  assume a: "live window_lib h t \<and> length (content window_lib d h t) = k * b \<and> 0 < k \<and> 0 < b"
  then have "wd_rows t = k * b" using window_rows_length [of h t] by simp
  then have rows: "wd_rows t div k = b" using a by simp
  let ?us = "map (\<lambda>i. t\<lparr>wd_row := wd_row t + i * b, wd_rows := b\<rparr>) [0..<k]"
  have "window_rows h (?us ! i) = take b (drop (i * b) (window_rows h t))" if "i < k" for i
  proof -
    have "(i + 1) * b \<le> k * b" using that by (intro mult_le_mono1) simp
    then have "b \<le> wd_rows t - i * b" using a window_rows_length [of h t] by simp
    then show ?thesis using that by (simp add: window_rows_def take_map drop_map drop_take min_def add.commute)
  qed
  then show "\<exists>us. chunk window_lib t k 0 = Ok us \<and> length us = k
      \<and> (\<forall>i < k. content window_lib d h (us ! i) = take b (drop (i * b) (content window_lib d h t)))"
    by (intro exI [of _ ?us]) (simp add: window_lib_def rows)
qed

definition one_row :: "nat \<Rightarrow> window" where
  "one_row a = \<lparr>wd_addr = a, wd_row = 0, wd_rows = 1, wd_col = 0, wd_cols = 1, wd_width = 1, wd_device = 0\<rparr>"


end
