(* ===== verification/Masks.thy ===== *)
theory Masks
  imports Kv_Cache
begin

text \<open>
  The attention masks (\<^verbatim>\<open>mistralrs-core/src/layers_masker.rs\<close>): how far the keys of the cache
  reach, the causal mask of a prompt and the mask for a sliding window.

  A tensor is its dimensions and its entries by index; \<^verbatim>\<open>from_vec\<close>, \<^verbatim>\<open>broadcast_as\<close>, \<^verbatim>\<open>unsqueeze\<close>
  and \<^verbatim>\<open>where_cond\<close> are the index operations of their documentation, with an error where the
  shapes do not fit. Floating-point numbers are not modelled: their constants and the
  conversions between them and bytes are the parameter \<open>fl\<close>. \<open>conversion_laws\<close> states what
  Rust says of \<^verbatim>\<open>as\<close>, which saturates, for the three values these functions convert.

  The lemmas compute every entry of the masks. The sliding window has no effect: the
  positions it should hide are marked with \<^verbatim>\<open>f32::MIN\<close>, which becomes 0, visible, when the
  mask is converted back to bytes.
\<close>

section \<open>Tensors\<close>

record 'e tensor =
  t_dims :: "nat list"
  t_at :: "nat list \<Rightarrow> 'e"

fun row_major :: "nat list \<Rightarrow> nat list \<Rightarrow> nat" where
  "row_major (d # ds) (i # is') = i * prod_list ds + row_major ds is'"
| "row_major _ _ = 0"

definition from_vec :: "'e list \<Rightarrow> nat list \<Rightarrow> 'e tensor res" where
  "from_vec xs ds =
     (if length xs = prod_list ds then Ok \<lparr>t_dims = ds, t_at = (\<lambda>ix. xs ! row_major ds ix)\<rparr>
      else Err (Bail ''shape mismatch''))"

definition scalar :: "'e \<Rightarrow> 'e tensor" where
  "scalar x = \<lparr>t_dims = [], t_at = (\<lambda>_. x)\<rparr>"

definition dims2 :: "nat list \<Rightarrow> (nat \<times> nat) res" where
  "dims2 ds = (case ds of [a, b] \<Rightarrow> Ok (a, b) | _ \<Rightarrow> Err (Bail ''unexpected rank''))"

definition t_map :: "('a \<Rightarrow> 'b) \<Rightarrow> 'a tensor \<Rightarrow> 'b tensor" where
  "t_map f t = \<lparr>t_dims = t_dims t, t_at = f \<circ> t_at t\<rparr>"

definition broadcastable :: "nat list \<Rightarrow> nat list \<Rightarrow> bool" where
  "broadcastable ds sh \<longleftrightarrow> length ds \<le> length sh
     \<and> list_all2 (\<lambda>a b. a = b \<or> a = 1) ds (drop (length sh - length ds) sh)"

definition broadcast_as :: "'e tensor \<Rightarrow> nat list \<Rightarrow> 'e tensor res" where
  "broadcast_as t sh =
     (if broadcastable (t_dims t) sh
      then Ok \<lparr>t_dims = sh, t_at = (\<lambda>ix. t_at t (map2 (\<lambda>d i. if d = 1 then 0 else i) (t_dims t)
                                        (drop (length sh - length (t_dims t)) ix)))\<rparr>
      else Err (Bail ''broadcast shape mismatch''))"

definition unsqueeze :: "nat \<Rightarrow> 'e tensor \<Rightarrow> 'e tensor res" where
  "unsqueeze k t =
     (if k \<le> length (t_dims t)
      then Ok \<lparr>t_dims = take k (t_dims t) @ [1] @ drop k (t_dims t),
               t_at = (\<lambda>ix. t_at t (take k ix @ drop (Suc k) ix))\<rparr>
      else Err (Bail ''dimension out of range''))"

text \<open>\<^verbatim>\<open>where_cond\<close> with a mask of bytes: a byte that is not zero takes the first tensor.\<close>

definition where_cond :: "nat tensor \<Rightarrow> 'e tensor \<Rightarrow> 'e tensor \<Rightarrow> 'e tensor res" where
  "where_cond m a b =
     (if t_dims a = t_dims m \<and> t_dims b = t_dims m
      then Ok \<lparr>t_dims = t_dims m, t_at = (\<lambda>ix. if t_at m ix \<noteq> 0 then t_at a ix else t_at b ix)\<rparr>
      else Err (Bail ''shape mismatch in where_cond''))"

text \<open>The product of two tensors of bytes wraps around.\<close>

definition t_mul_u8 :: "nat tensor \<Rightarrow> nat tensor \<Rightarrow> nat tensor res" where
  "t_mul_u8 a b =
     (if t_dims a = t_dims b
      then Ok \<lparr>t_dims = t_dims a, t_at = (\<lambda>ix. t_at a ix * t_at b ix mod 256)\<rparr>
      else Err (Bail ''shape mismatch in mul''))"

text \<open>Constants of \<^verbatim>\<open>f32\<close>, its conversions, and what the model's data type \<open>'d\<close> offers.\<close>

record ('f, 'd) floats =
  f32_zero :: 'f
  f32_min :: 'f
  f32_neg_inf :: 'f
  f32_of_u8 :: "nat \<Rightarrow> 'f"
  u8_of_f32 :: "'f \<Rightarrow> nat"
  of_f32 :: "'f \<Rightarrow> 'd"
  to_u8 :: "'d \<Rightarrow> nat"
  dt_neg :: "'d \<Rightarrow> 'd"
  dt_add_one :: "'d \<Rightarrow> 'd"

definition conversion_laws :: "('f, 'd) floats \<Rightarrow> bool" where
  "conversion_laws fl \<longleftrightarrow> (\<forall>b < 256. u8_of_f32 fl (f32_of_u8 fl b) = b) \<and> u8_of_f32 fl (f32_min fl) = 0"

section \<open>The length of the past\<close>

text \<open>The three implementations of \<^verbatim>\<open>PastKvLenCache\<close>.\<close>

definition kv_past_len :: "'t kv_cache list \<Rightarrow> nat res" where
  "kv_past_len caches = rbind (vget caches 0) (\<lambda>c. Ok (current_seq_len (kv_k c)))"

definition offsets_past_len :: "nat list \<Rightarrow> nat res" where
  "offsets_past_len lens =
     (if list_all (\<lambda>(a, b). a = b) (zip lens (tl lens)) then vget lens 0 else Ok 0)"

definition pairs_past_len :: "('e tensor \<times> 'e tensor) option list \<Rightarrow> nat res" where
  "pairs_past_len caches =
     rbind (vget caches 0) (\<lambda>c. case c of None \<Rightarrow> Ok 0 | Some (k, v) \<Rightarrow> vget (t_dims k) 2)"

section \<open>The masks\<close>

definition apply_tril :: "nat tensor \<Rightarrow> int \<Rightarrow> nat tensor res" where
  "apply_tril xs diagonal =
     rbind (dims2 (t_dims xs)) (\<lambda>(l, s).
     rbind (from_vec (concat (map (\<lambda>i. map (\<lambda>j. if int i + diagonal < int j then 0 else 1) [0..<s]) [0..<l]))
              [l, s]) (\<lambda>tri.
     t_mul_u8 xs tri))"

definition masked_fill :: "('v \<Rightarrow> 'e) \<Rightarrow> 'e tensor \<Rightarrow> nat tensor \<Rightarrow> 'v \<Rightarrow> 'e tensor res" where
  "masked_fill conv xs msk val =
     (let on_true = \<lparr>t_dims = t_dims xs, t_at = (\<lambda>_. conv val)\<rparr>
      in rbind (broadcast_as msk (t_dims xs)) (\<lambda>m. where_cond m on_true xs))"

definition make_mask :: "nat \<Rightarrow> nat \<Rightarrow> nat tensor res" where
  "make_mask tgt_len past_kv_len =
     (let offset = tgt_len + past_kv_len
      in from_vec (concat (map (\<lambda>i. map (\<lambda>j. of_bool (i + offset < j + tgt_len)) [0..<offset])
                      [0..<tgt_len])) [tgt_len, offset])"

definition expand_mask :: "('f, 'd) floats \<Rightarrow> ('m \<Rightarrow> 'd) \<Rightarrow> 'm tensor \<Rightarrow> nat option \<Rightarrow> 'd tensor res" where
  "expand_mask fl conv msk tgt_len =
     rbind (dims2 (t_dims msk)) (\<lambda>(bs, src_len).
     rbind (unsqueeze 1 msk) (\<lambda>m. rbind (unsqueeze 1 m) (\<lambda>m.
     rbind (broadcast_as m [bs, 1, case tgt_len of None \<Rightarrow> src_len | Some n \<Rightarrow> n, src_len]) (\<lambda>m.
     let inverted_mask = t_map (dt_add_one fl \<circ> dt_neg fl \<circ> conv) m
     in masked_fill (of_f32 fl) inverted_mask (t_map (to_u8 fl) inverted_mask) (f32_min fl)))))"

text \<open>The last step of both masks: \<open>-\<infinity>\<close> where the byte is set, 0 elsewhere.\<close>

definition attention_bias :: "('f, 'd) floats \<Rightarrow> nat tensor \<Rightarrow> 'd tensor res" where
  "attention_bias fl msk =
     rbind (vget (t_dims msk) 0) (\<lambda>d0. rbind (vget (t_dims msk) 1) (\<lambda>d1.
     rbind (broadcast_as msk [d0, d1]) (\<lambda>msk.
     rbind (broadcast_as (scalar (of_f32 fl (f32_zero fl))) (t_dims msk)) (\<lambda>z.
     masked_fill (of_f32 fl) z msk (f32_neg_inf fl)))))"

definition make_causal_mask_matrix :: "('f, 'd) floats \<Rightarrow> nat list \<Rightarrow> nat res \<Rightarrow> 'd tensor option res" where
  "make_causal_mask_matrix fl input_dims past =
     rbind past (\<lambda>past_kv_len.
     rbind (dims2 input_dims) (\<lambda>(_, tgt_len).
     if tgt_len = 1 then Ok None
     else rbind (make_mask tgt_len past_kv_len) (\<lambda>causal_mask.
          rbind (attention_bias fl causal_mask) (\<lambda>m. Ok (Some m)))))"

definition make_sliding_window_causal_mask_matrix ::
    "('f, 'd) floats \<Rightarrow> nat list \<Rightarrow> nat res \<Rightarrow> nat option \<Rightarrow> 'd tensor option res" where
  "make_sliding_window_causal_mask_matrix fl input_dims past sliding_window =
     (case sliding_window of None \<Rightarrow> make_causal_mask_matrix fl input_dims past
      | Some window \<Rightarrow>
     rbind past (\<lambda>past_kv_len.
     rbind (dims2 input_dims) (\<lambda>(_, tgt_len).
     if tgt_len = 1 then Ok None
     else rbind (make_mask tgt_len past_kv_len) (\<lambda>msk.
          rbind (apply_tril (t_map (\<lambda>_. 1) msk) (int past_kv_len - int window - 1)) (\<lambda>context_mask.
          rbind (masked_fill id (t_map (f32_of_u8 fl) msk) context_mask (f32_min fl)) (\<lambda>filled.
          rbind (attention_bias fl (t_map (u8_of_f32 fl) filled)) (\<lambda>m. Ok (Some m))))))))"

definition apply_mask_one_and_zero :: "nat tensor option \<Rightarrow> 'd tensor \<Rightarrow> 'd tensor \<Rightarrow> 'd tensor res" where
  "apply_mask_one_and_zero msk att neg_inf =
     (case msk of None \<Rightarrow> Ok att
      | Some m \<Rightarrow> rbind (broadcast_as m (t_dims att)) (\<lambda>m.
          rbind (broadcast_as neg_inf (t_dims att)) (\<lambda>ninf. where_cond m ninf att)))"

section \<open>The entries of matrices\<close>

text \<open>A matrix: its dimensions and the entries within them.\<close>

definition is_matrix :: "nat \<Rightarrow> nat \<Rightarrow> (nat \<Rightarrow> nat \<Rightarrow> 'e) \<Rightarrow> 'e tensor \<Rightarrow> bool" where
  "is_matrix l s f t \<longleftrightarrow> t_dims t = [l, s] \<and> (\<forall>i < l. \<forall>j < s. t_at t [i, j] = f i j)"

lemma concat_rows_nth:
  assumes "i < l" and "j < s"
  shows "concat (map (\<lambda>i. map (f i) [0..<s]) [0..<l]) ! (i * s + j) = f i j"
  using assms
proof (induction l)
  case 0
  then show ?case by simp
next
  case (Suc l)
  have len: "length (concat (map (\<lambda>i. map (f i) [0..<s]) [0..<l])) = l * s"
    by (induction l) simp_all
  show ?case
  proof (cases "i = l")
    case True
    then show ?thesis using Suc.prems len by (simp add: nth_append)
  next
    case False
    then have "i < l" using Suc.prems by simp
    then have "i * s + j < l * s"
      using Suc.prems(2) mult_le_mono1 [of "Suc i" l s] by simp
    then show ?thesis using Suc.IH [OF \<open>i < l\<close> Suc.prems(2)] len by (simp add: nth_append)
  qed
qed

lemma from_rows:
  "\<exists>t. from_vec (concat (map (\<lambda>i. map (f i) [0..<s]) [0..<l])) [l, s] = Ok t \<and> is_matrix l s f t"
proof -
  have "length (concat (map (\<lambda>i. map (f i) [0..<s]) [0..<l])) = l * s"
    by (induction l) simp_all
  then show ?thesis by (auto simp: from_vec_def is_matrix_def concat_rows_nth)
qed

lemma broadcast_matrix:
  assumes "is_matrix l s f t"
  shows "\<exists>u. broadcast_as t [l, s] = Ok u \<and> is_matrix l s f u"
proof -
  have "(if l = Suc 0 then 0 else i) = i" if "i < l" for i using that by simp
  moreover have "(if s = Suc 0 then 0 else j) = j" if "j < s" for j using that by simp
  ultimately show ?thesis
    using assms by (simp add: broadcast_as_def broadcastable_def is_matrix_def)
qed

lemma masked_fill_matrix:
  assumes "is_matrix l s f xs" and "is_matrix l s g m"
  shows "\<exists>t. masked_fill conv xs m v = Ok t \<and> is_matrix l s (\<lambda>i j. if g i j \<noteq> 0 then conv v else f i j) t"
proof -
  obtain u where "broadcast_as m (t_dims xs) = Ok u" "is_matrix l s g u"
    using broadcast_matrix [OF assms(2)] assms(1) by (auto simp: is_matrix_def)
  then show ?thesis using assms(1)
    by (auto simp: masked_fill_def where_cond_def is_matrix_def)
qed

lemma map_matrix: "is_matrix l s f t \<Longrightarrow> is_matrix l s (\<lambda>i j. h (f i j)) (t_map h t)"
  by (simp add: is_matrix_def t_map_def)

lemma is_matrix_cong:
  assumes "is_matrix l s f t" and "\<And>i j. i < l \<Longrightarrow> j < s \<Longrightarrow> f i j = g i j"
  shows "is_matrix l s g t"
  using assms by (simp add: is_matrix_def)

lemma apply_tril_ones:
  assumes "t_dims xs = [l, s]"
  shows "\<exists>t. apply_tril (t_map (\<lambda>_. 1) xs) d = Ok t
     \<and> is_matrix l s (\<lambda>i j. if int i + d < int j then 0 else 1) t"
proof -
  define tri where "tri = (\<lambda>i j. if int i + d < int j then 0 else (1 :: nat))"
  obtain t where t: "from_vec (concat (map (\<lambda>i. map (tri i) [0..<s]) [0..<l])) [l, s] = Ok t"
    "is_matrix l s tri t"
    using from_rows by blast
  have "apply_tril (t_map (\<lambda>_. 1) xs) d = t_mul_u8 (t_map (\<lambda>_. 1) xs) t"
    using t(1) assms by (simp add: apply_tril_def dims2_def t_map_def tri_def)
  moreover have "t_mul_u8 (t_map (\<lambda>_. 1) xs) t = Ok \<lparr>t_dims = [l, s], t_at = (\<lambda>ix. t_at t ix mod 256)\<rparr>"
    using t(2) assms by (simp add: t_mul_u8_def t_map_def is_matrix_def)
  moreover have "is_matrix l s tri \<lparr>t_dims = [l, s], t_at = (\<lambda>ix. t_at t ix mod 256)\<rparr>"
    using t(2) by (simp add: is_matrix_def tri_def)
  ultimately show ?thesis by (simp add: tri_def)
qed

lemma make_mask_matrix:
  "\<exists>t. make_mask tgt_len past = Ok t
     \<and> is_matrix tgt_len (tgt_len + past) (\<lambda>i j. of_bool (past + i < j)) t"
proof -
  define later where "later = (\<lambda>i j. of_bool (i + (tgt_len + past) < j + tgt_len) :: nat)"
  have eq: "later = (\<lambda>i j. of_bool (past + i < j))"
    by (auto simp: later_def fun_eq_iff)
  have "make_mask tgt_len past
      = from_vec (concat (map (\<lambda>i. map (later i) [0..<tgt_len + past]) [0..<tgt_len])) [tgt_len, tgt_len + past]"
    by (simp add: make_mask_def Let_def later_def)
  then show ?thesis
    using from_rows [of later "tgt_len + past" tgt_len] unfolding eq by simp
qed

definition bias :: "('f, 'd) floats \<Rightarrow> bool \<Rightarrow> 'd" where
  "bias fl hidden = of_f32 fl (if hidden then f32_neg_inf fl else f32_zero fl)"

lemma attention_bias_matrix:
  assumes "is_matrix l s f m"
  shows "\<exists>t. attention_bias fl m = Ok t \<and> is_matrix l s (\<lambda>i j. bias fl (f i j \<noteq> 0)) t"
proof -
  have d: "t_dims m = [l, s]" using assms by (simp add: is_matrix_def)
  obtain u where u: "broadcast_as m [l, s] = Ok u" "is_matrix l s f u"
    using broadcast_matrix [OF assms] by blast
  let ?z = "\<lparr>t_dims = [l, s], t_at = (\<lambda>_. of_f32 fl (f32_zero fl))\<rparr>"
  have z: "broadcast_as (scalar (of_f32 fl (f32_zero fl))) (t_dims u) = Ok ?z"
    "is_matrix l s (\<lambda>_ _. of_f32 fl (f32_zero fl)) ?z"
    using u(2) by (simp_all add: broadcast_as_def broadcastable_def scalar_def is_matrix_def)
  obtain t where "masked_fill (of_f32 fl) ?z u (f32_neg_inf fl) = Ok t"
    "is_matrix l s (\<lambda>i j. if f i j \<noteq> 0 then of_f32 fl (f32_neg_inf fl) else of_f32 fl (f32_zero fl)) t"
    using masked_fill_matrix [OF z(2) u(2), of "of_f32 fl" "f32_neg_inf fl"] by blast
  moreover have "(if b then of_f32 fl (f32_neg_inf fl) else of_f32 fl (f32_zero fl)) = bias fl b" for b
    by (simp add: bias_def)
  ultimately show ?thesis using d u(1) z(1) by (simp add: attention_bias_def)
qed

lemma causal_matrix:
  assumes "tgt_len \<noteq> 1"
  shows "\<exists>t. make_causal_mask_matrix fl [b, tgt_len] (Ok past) = Ok (Some t)
     \<and> is_matrix tgt_len (tgt_len + past) (\<lambda>i j. bias fl (past + i < j)) t"
proof -
  obtain m where m: "make_mask tgt_len past = Ok m"
    "is_matrix tgt_len (tgt_len + past) (\<lambda>i j. of_bool (past + i < j)) m"
    using make_mask_matrix by blast
  from attention_bias_matrix [OF m(2), of fl] obtain t where t: "attention_bias fl m = Ok t"
    "is_matrix tgt_len (tgt_len + past) (\<lambda>i j. bias fl (of_bool (past + i < j) \<noteq> (0 :: nat))) t"
    by blast
  from is_matrix_cong [OF t(2)] t(1) m(1) assms show ?thesis
    by (auto simp: make_causal_mask_matrix_def dims2_def)
qed

lemma sliding_matrix:
  assumes laws: "conversion_laws fl" and "tgt_len \<noteq> 1"
  shows "\<exists>t. make_sliding_window_causal_mask_matrix fl [b, tgt_len] (Ok past) (Some w) = Ok (Some t)
     \<and> is_matrix tgt_len (tgt_len + past) (\<lambda>i j. bias fl (past + i < j)) t"
proof -
  let ?n = "tgt_len + past"
  obtain m where m: "make_mask tgt_len past = Ok m"
    "is_matrix tgt_len ?n (\<lambda>i j. of_bool (past + i < j)) m"
    using make_mask_matrix by blast
  define old where "old = (\<lambda>i j. if int i + (int past - int w - 1) < int j then 0 else (1 :: nat))"
  have "t_dims m = [tgt_len, ?n]" using m(2) by (simp add: is_matrix_def)
  then obtain c where c: "apply_tril (t_map (\<lambda>_. 1) m) (int past - int w - 1) = Ok c"
    "is_matrix tgt_len ?n old c"
    using apply_tril_ones unfolding old_def by blast
  define kept where "kept = (\<lambda>i j. if old i j \<noteq> 0 then f32_min fl else f32_of_u8 fl (of_bool (past + i < j)))"
  obtain f where f: "masked_fill id (t_map (f32_of_u8 fl) m) c (f32_min fl) = Ok f"
    "is_matrix tgt_len ?n kept f"
    using masked_fill_matrix [where conv = id and v = "f32_min fl",
        OF map_matrix [where h = "f32_of_u8 fl", OF m(2)] c(2)]
    unfolding kept_def id_def by blast
  have "u8_of_f32 fl (kept i j) = of_bool (past + i < j)" for i j
    using laws by (auto simp: kept_def old_def conversion_laws_def)
  then have "is_matrix tgt_len ?n (\<lambda>i j. of_bool (past + i < j)) (t_map (u8_of_f32 fl) f)"
    using map_matrix [OF f(2), of "u8_of_f32 fl"] by simp
  from attention_bias_matrix [OF this, of fl] obtain t where t:
    "attention_bias fl (t_map (u8_of_f32 fl) f) = Ok t"
    "is_matrix tgt_len ?n (\<lambda>i j. bias fl (of_bool (past + i < j) \<noteq> (0 :: nat))) t"
    by blast
  from is_matrix_cong [OF t(2)] have "is_matrix tgt_len ?n (\<lambda>i j. bias fl (past + i < j)) t" by simp
  moreover have "make_sliding_window_causal_mask_matrix fl [b, tgt_len] (Ok past) (Some w) = Ok (Some t)"
    using assms(2) m(1) c(1) f(1) t(1)
    by (simp add: make_sliding_window_causal_mask_matrix_def dims2_def)
  ultimately show ?thesis by blast
qed

text \<open>Two tensors with the same dimensions and the same entries within them.\<close>

definition same_entries :: "'e tensor \<Rightarrow> 'e tensor \<Rightarrow> bool" where
  "same_entries t u \<longleftrightarrow> t_dims t = t_dims u
     \<and> (\<forall>ix. list_all2 (<) ix (t_dims t) \<longrightarrow> t_at t ix = t_at u ix)"

lemma matrices_same_entries:
  assumes "is_matrix l s f t" and "is_matrix l s f u"
  shows "same_entries t u"
proof -
  have "t_at t ix = t_at u ix" if ix: "list_all2 (<) ix [l, s]" for ix
  proof -
    obtain i j where "ix = [i, j]" "i < l" "j < s"
      using ix by (auto simp: list_all2_Cons2)
    then show ?thesis using assms by (simp add: is_matrix_def)
  qed
  then show ?thesis using assms by (simp add: same_entries_def is_matrix_def)
qed

section \<open>What the masks hide\<close>

text \<open>
  The causal mask of a prompt of several tokens hides a key exactly when it is later than
  the query; the past is visible to every query.
\<close>

theorem causal_mask_hides_the_future:
  assumes "tgt_len \<noteq> 1"
  shows "\<exists>t. make_causal_mask_matrix fl [b, tgt_len] (Ok past) = Ok (Some t)
     \<and> t_dims t = [tgt_len, tgt_len + past]
     \<and> (\<forall>i < tgt_len. \<forall>j < tgt_len + past.
          t_at t [i, j] = of_f32 fl (if past + i < j then f32_neg_inf fl else f32_zero fl))"
  using causal_matrix [OF assms, of fl b past] by (simp add: is_matrix_def bias_def)

text \<open>
  C38. The mask for a sliding window is the causal mask, whatever the window: the keys that are
  older than the window are marked with \<^verbatim>\<open>f32::MIN\<close>, and the conversion to bytes that
  follows makes that 0, which is visible.
\<close>

theorem sliding_window_mask_is_the_causal_mask:
  assumes "conversion_laws fl"
  shows "\<exists>m m'. make_sliding_window_causal_mask_matrix fl [b, tgt_len] (Ok past) (Some w) = Ok m
     \<and> make_causal_mask_matrix fl [b, tgt_len] (Ok past) = Ok m' \<and> rel_option same_entries m m'"
proof (cases "tgt_len = 1")
  case True
  then show ?thesis
    by (simp add: make_sliding_window_causal_mask_matrix_def make_causal_mask_matrix_def dims2_def)
next
  case False
  obtain t where t: "make_sliding_window_causal_mask_matrix fl [b, tgt_len] (Ok past) (Some w) = Ok (Some t)"
    "is_matrix tgt_len (tgt_len + past) (\<lambda>i j. bias fl (past + i < j)) t"
    using sliding_matrix [OF assms False] by blast
  obtain u where u: "make_causal_mask_matrix fl [b, tgt_len] (Ok past) = Ok (Some u)"
    "is_matrix tgt_len (tgt_len + past) (\<lambda>i j. bias fl (past + i < j)) u"
    using causal_matrix [OF False] by blast
  show ?thesis using t(1) u(1) matrices_same_entries [OF t(2) u(2)] by simp
qed

text \<open>Bytes and integers that saturate as \<^verbatim>\<open>f32\<close> and \<^verbatim>\<open>u8\<close> do.\<close>

definition toy_floats :: "(int, int) floats" where
  "toy_floats = \<lparr>f32_zero = 0, f32_min = - 999, f32_neg_inf = - 1000, f32_of_u8 = int,
     u8_of_f32 = (\<lambda>x. nat (max 0 (min 255 x))), of_f32 = (\<lambda>x. x), to_u8 = (\<lambda>x. nat (max 0 (min 255 x))),
     dt_neg = uminus, dt_add_one = (\<lambda>x. x + 1)\<rparr>"

lemma toy_floats_laws: "conversion_laws toy_floats"
  by (simp add: conversion_laws_def toy_floats_def)

theorem sliding_window_mask_is_the_causal_mask_witness:
  "\<exists>m m'. make_sliding_window_causal_mask_matrix toy_floats [1, 3] (Ok 0) (Some 1) = Ok m
     \<and> make_causal_mask_matrix toy_floats [1, 3] (Ok 0) = Ok m' \<and> rel_option same_entries m m'"
  by (rule sliding_window_mask_is_the_causal_mask [OF toy_floats_laws])

text \<open>
  The length of the past that the masks start from is the offset the sequences of a batch
  share, and 0 when they differ; a batch without sequences panics.
\<close>

lemma offsets_past_len_cases:
  "offsets_past_len [] = Err (Panic ''index out of bounds'')"
  "offsets_past_len (replicate (Suc n) k) = Ok k"
  "x \<noteq> y \<Longrightarrow> offsets_past_len (xs @ [x, y] @ ys) = Ok 0"
proof -
  show "offsets_past_len [] = Err (Panic ''index out of bounds'')"
    by (simp add: offsets_past_len_def vget_def)
  have "list_all (\<lambda>(a, b). a = b) (zip (replicate (Suc n) k) (replicate n k))"
    by (induction n) simp_all
  then show "offsets_past_len (replicate (Suc n) k) = Ok k"
    by (simp add: offsets_past_len_def)
  assume "x \<noteq> y"
  have "(x, y) \<in> set (zip (xs @ [x, y] @ ys) (tl (xs @ [x, y] @ ys)))"
  proof (induction xs)
    case (Cons a xs)
    then show ?case by (cases xs) auto
  qed simp
  with \<open>x \<noteq> y\<close> have "\<not> list_all (\<lambda>(a, b). a = b) (zip (xs @ [x, y] @ ys) (tl (xs @ [x, y] @ ys)))"
    by (metis (mono_tags) case_prodD list_all_iff)
  then show "offsets_past_len (xs @ [x, y] @ ys) = Ok 0"
    by (simp only: offsets_past_len_def if_False)
qed

end
