(* ===== verification/Sampler.thy ===== *)
theory Sampler
  imports Complex_Main Seq
begin

text \<open>
  The sampler (\<^verbatim>\<open>mistralrs-core/src/sampler.rs\<close>): penalties, top-k, top-p and min-p, and the
  choice of the next token. A tensor of logits is the list of its values.

  Floating point numbers are an ordered type with the syntactic operations and no laws; what
  else the code computes with them, and the tensor, tokenizer and random number libraries,
  are the fields of \<open>sampler_env\<close>. The hypotheses on them that a lemma needs are named
  predicates: that \<^verbatim>\<open>arg_sort_last_dim\<close> sorts, that \<^verbatim>\<open>WeightedIndex\<close> picks an index of
  nonzero weight. The lemmas show which tokens survive the filters and can be sampled, and
  what the penalties and the reported log-probabilities are computed from.
\<close>

section \<open>Parameters\<close>

record ('f, 'r) sampler_env =
  arg_sort_desc :: "'f list \<Rightarrow> nat list"
  argmax :: "'f list \<Rightarrow> nat"
  softmax :: "'f list \<Rightarrow> 'f list"
  div_scalar :: "'f list \<Rightarrow> 'f \<Rightarrow> 'f list"
  log10 :: "'f \<Rightarrow> 'f"
  powf :: "'f \<Rightarrow> nat \<Rightarrow> 'f"
  as_f32 :: "'f \<Rightarrow> 'f"
  weighted_index :: "'f list \<Rightarrow> 'r \<Rightarrow> (nat \<times> 'r) res"

datatype stop_tokens_param = StopSeqs "rstring list" | StopIds "nat list"

record 'f dry_sampling_params =
  dsp_sequence_breakers :: "rstring list"
  dsp_multiplier :: 'f
  dsp_base :: 'f
  dsp_allowed_length :: nat

record 'f sampling_params =
  sp_temperature :: "'f option"
  sp_top_k :: "nat option"
  sp_top_p :: "'f option"
  sp_min_p :: "'f option"
  sp_top_n_logprobs :: nat
  sp_frequency_penalty :: "'f option"
  sp_presence_penalty :: "'f option"
  sp_stop_toks :: "stop_tokens_param option"
  sp_max_len :: "nat option"
  sp_logits_bias :: "(nat \<times> 'f) list option"
  sp_n_choices :: nat
  sp_dry_params :: "'f dry_sampling_params option"

definition deterministic :: "'f sampling_params" where
  "deterministic = \<lparr>sp_temperature = None, sp_top_k = None, sp_top_p = None, sp_min_p = None,
     sp_top_n_logprobs = 0, sp_frequency_penalty = None, sp_presence_penalty = None,
     sp_stop_toks = None, sp_max_len = None, sp_logits_bias = None, sp_n_choices = 1,
     sp_dry_params = None\<rparr>"

definition dry_sequence_breakers :: "rstring list" where
  "dry_sequence_breakers = [[10], [58], [34], [42]]"

definition new_with_defaults :: "'f::field \<Rightarrow> rstring list option \<Rightarrow> 'f option \<Rightarrow> nat option
    \<Rightarrow> 'f dry_sampling_params" where
  "new_with_defaults mu breakers b len =
     \<lparr>dsp_sequence_breakers = (case breakers of None \<Rightarrow> dry_sequence_breakers | Some x \<Rightarrow> x),
      dsp_multiplier = mu, dsp_base = (case b of None \<Rightarrow> 7 / 4 | Some x \<Rightarrow> x),
      dsp_allowed_length = (case len of None \<Rightarrow> 2 | Some x \<Rightarrow> x)\<rparr>"

definition dry_default :: "'f::field dry_sampling_params" where
  "dry_default = \<lparr>dsp_sequence_breakers = dry_sequence_breakers, dsp_multiplier = 0, dsp_base = 7 / 4,
     dsp_allowed_length = 2\<rparr>"

record 'f dry_inner =
  sequence_breakers :: "nat list"
  multiplier :: 'f
  base :: 'f
  allowed_length :: nat

text \<open>
  \<^verbatim>\<open>DrySamplingParamsInner::from\<close>; \<open>encode\<close> is the tokenizer. The condition is the one of the
  source: a breaker with an encoding gives nothing, one without indexes an empty slice.
\<close>

definition breaker_id :: "(rstring \<Rightarrow> nat list res) \<Rightarrow> rstring \<Rightarrow> nat option res" where
  "breaker_id encode breaker =
     rbind (encode (97 # breaker)) (\<lambda>ids.
     if ids \<noteq> [] then Ok None
     else rbind (usub (length ids) 1) (\<lambda>i. rbind (vget ids i) (\<lambda>x. Ok (Some x))))"

definition dry_inner_from :: "(rstring \<Rightarrow> nat list res) \<Rightarrow> 'f dry_sampling_params \<Rightarrow> 'f dry_inner res" where
  "dry_inner_from encode p =
     rbind (rmap (breaker_id encode) (dsp_sequence_breakers p)) (\<lambda>ids.
     Ok \<lparr>sequence_breakers = List.map_filter id ids, multiplier = dsp_multiplier p,
         base = dsp_base p, allowed_length = dsp_allowed_length p\<rparr>)"

record 'f sampler =
  temperature :: "'f option"
  top_n_logprobs :: nat
  tokenizer_decode :: "(nat \<Rightarrow> rstring res) option"
  frequency_penalty :: "'f option"
  presence_penalty :: "'f option"
  dry_params :: "'f dry_inner option"
  top_k :: int
  top_p :: 'f
  min_p :: 'f
  logits_processors :: "('f list \<Rightarrow> nat list \<Rightarrow> 'f list res) list"

text \<open>\<open>tiny\<close> is the constant \<^verbatim>\<open>1e-7\<close>; the tokenizer is its pair of functions.\<close>

definition sampler_new :: "'f::linorder \<Rightarrow> 'f option \<Rightarrow> nat
    \<Rightarrow> ((rstring \<Rightarrow> nat list res) \<times> (nat \<Rightarrow> rstring res)) option
    \<Rightarrow> 'f option \<Rightarrow> 'f option \<Rightarrow> 'f dry_sampling_params option \<Rightarrow> int \<Rightarrow> 'f \<Rightarrow> 'f
    \<Rightarrow> ('f list \<Rightarrow> nat list \<Rightarrow> 'f list res) list \<Rightarrow> 'f sampler res" where
  "sampler_new tiny temp topn tok freq pres dry k p m procs =
     rbind (case tok of None \<Rightarrow> Ok None
            | Some (encode, decode) \<Rightarrow>
                (case dry of None \<Rightarrow> Ok None
                 | Some params \<Rightarrow> rbind (dry_inner_from encode params) (\<lambda>d. Ok (Some d)))) (\<lambda>d.
     Ok \<lparr>temperature = (case temp of None \<Rightarrow> None | Some v \<Rightarrow> if v < tiny then None else Some v),
         top_n_logprobs = topn, tokenizer_decode = map_option snd tok, frequency_penalty = freq,
         presence_penalty = pres, dry_params = d, top_k = k, top_p = p, min_p = m,
         logits_processors = procs\<rparr>)"

section \<open>Log-probabilities\<close>

definition decode_with :: "(nat \<Rightarrow> rstring res) option \<Rightarrow> nat \<Rightarrow> rstring option res" where
  "decode_with dec tok = (case dec of None \<Rightarrow> Ok None | Some f \<Rightarrow> rbind (f tok) (\<lambda>s. Ok (Some s)))"

text \<open>\<^verbatim>\<open>sort_by\<close> on indices, by falling probability; a stable insertion sort.\<close>

fun insert_by_prob :: "'f::linorder list \<Rightarrow> nat \<Rightarrow> nat list \<Rightarrow> nat list" where
  "insert_by_prob probs x [] = [x]"
| "insert_by_prob probs x (y # ys) =
     (if probs ! y \<le> probs ! x then x # y # ys else y # insert_by_prob probs x ys)"

definition sort_by_prob :: "'f::linorder list \<Rightarrow> nat list \<Rightarrow> nat list" where
  "sort_by_prob probs xs = foldr (insert_by_prob probs) xs []"

definition get_top_logprobs :: "('f, 'r) sampler_env \<Rightarrow> 'f::linorder sampler \<Rightarrow> 'f list \<Rightarrow> nat list
    \<Rightarrow> 'f top_logprob list res" where
  "get_top_logprobs env s probs argsort_indices =
     (let argsort_indices_sorted = sort_by_prob probs argsort_indices;
          n = top_n_logprobs s
      in rbind (rassert (\<forall>i \<in> set argsort_indices. i < length probs) ''index out of bounds'') (\<lambda>_.
         rbind (rassert (n \<le> length argsort_indices_sorted) ''range end index out of range'') (\<lambda>_.
         let values = map (\<lambda>x. log10 env (probs ! x)) (take n argsort_indices_sorted)
         in rbind (rmap (vget argsort_indices) [0..<n]) (\<lambda>toks.
            rbind (rmap (decode_with (tokenizer_decode s)) toks) (\<lambda>bytes.
            Ok (map (\<lambda>(b, t, v). \<lparr>tl_token = t, tl_logprob = v, tl_bytes = b\<rparr>) (zip bytes (zip toks values))))))))"

definition finish_sample :: "('f, 'r) sampler_env \<Rightarrow> 'f::linorder sampler \<Rightarrow> 'f list \<Rightarrow> nat list \<Rightarrow> bool \<Rightarrow> nat
    \<Rightarrow> 'f logprobs res" where
  "finish_sample env s probs argsort_indices return_lps next_token =
     rbind (vget probs next_token) (\<lambda>p.
     rbind (if return_lps then rbind (get_top_logprobs env s probs argsort_indices) (\<lambda>t. Ok (Some t))
            else Ok None) (\<lambda>top.
     rbind (decode_with (tokenizer_decode s) next_token) (\<lambda>bytes.
     Ok \<lparr>lp_token = next_token, lp_logprob = log10 env p, lp_bytes = bytes, top_logprobs = top\<rparr>)))"

definition sample_argmax :: "('f, 'r) sampler_env \<Rightarrow> 'f::linorder sampler \<Rightarrow> 'f list \<Rightarrow> bool \<Rightarrow> 'f logprobs res" where
  "sample_argmax env s logits return_lps =
     finish_sample env s logits [0..<length logits] return_lps (argmax env logits)"

section \<open>Filters\<close>

text \<open>
  The three loops over the indices sorted by falling logit. The probabilities are a
  vector; the indices come from the tensor library and are within it by \<open>sorts_desc\<close> below.
\<close>

definition top_k_filter :: "int \<Rightarrow> nat list \<Rightarrow> 'f::zero list \<Rightarrow> 'f list" where
  "top_k_filter k idx probs =
     (if 0 < k then fold (\<lambda>i ps. ps[i := 0]) (drop (nat k) idx) probs else probs)"

fun top_p_loop :: "'f::{linorder,zero,plus} \<Rightarrow> nat list \<Rightarrow> 'f \<Rightarrow> 'f list \<Rightarrow> 'f list" where
  "top_p_loop p [] cumsum probs = probs"
| "top_p_loop p (i # is) cumsum probs =
     (if p \<le> cumsum then top_p_loop p is cumsum (probs[i := 0])
      else top_p_loop p is (cumsum + probs ! i) probs)"

definition min_p_filter :: "'f::{linorder,zero,times} \<Rightarrow> 'f \<Rightarrow> nat list \<Rightarrow> 'f list \<Rightarrow> 'f list" where
  "min_p_filter max_p m idx probs =
     fold (\<lambda>i ps. if ps ! i \<le> max_p * m then ps[i := 0] else ps) idx probs"

definition sample_speculative_top_kp_min_p ::
    "('f, 'r) sampler_env \<Rightarrow> 'f::{linorder,zero,plus,times} sampler \<Rightarrow> 'f list \<Rightarrow> bool \<Rightarrow> int \<Rightarrow> 'f \<Rightarrow> 'f
     \<Rightarrow> 'f logprobs res" where
  "sample_speculative_top_kp_min_p env s logits return_lps k p m =
     (let idx = arg_sort_desc env logits;
          probs = top_p_loop p idx 0 (top_k_filter k idx logits)
      in rbind (vget idx 0) (\<lambda>first.
         rbind (vget probs first) (\<lambda>max_p.
         let probs = min_p_filter max_p m idx probs
         in finish_sample env s probs idx return_lps (argmax env probs))))"

definition sample_multinomial :: "('f, 'r) sampler_env \<Rightarrow> 'f::linorder sampler \<Rightarrow> 'f list \<Rightarrow> nat list \<Rightarrow> bool \<Rightarrow> 'r
    \<Rightarrow> ('f logprobs \<times> 'r) res" where
  "sample_multinomial env s probs idx return_lps rng =
     rbind (weighted_index env probs rng) (\<lambda>(next_token, rng').
     rbind (finish_sample env s probs idx return_lps next_token) (\<lambda>lp. Ok (lp, rng')))"

definition sample_top_kp_min_p ::
    "('f, 'r) sampler_env \<Rightarrow> 'f::{linorder,zero,one,plus,times} sampler \<Rightarrow> 'f list \<Rightarrow> 'f list \<Rightarrow> int \<Rightarrow> 'f \<Rightarrow> 'f
     \<Rightarrow> bool \<Rightarrow> 'r \<Rightarrow> ('f logprobs \<times> 'r) res" where
  "sample_top_kp_min_p env s probs logits k p m return_lps rng =
     (let idx = arg_sort_desc env logits;
          probs = top_k_filter k idx probs
      in if p \<le> 0 \<or> 1 \<le> p then sample_multinomial env s probs idx return_lps rng
         else let probs = top_p_loop p idx 0 probs
              in if m \<le> 0 \<or> 1 \<le> m then sample_multinomial env s probs idx return_lps rng
                 else rbind (vget idx 0) (\<lambda>first.
                      rbind (vget probs first) (\<lambda>max_p.
                      sample_multinomial env s (min_p_filter max_p m idx probs) idx return_lps rng)))"

section \<open>Penalties\<close>

text \<open>The counts are floats, incremented by one for every occurrence within the vocabulary.\<close>

definition count_tokens :: "nat \<Rightarrow> nat list \<Rightarrow> 'f::{zero,one,plus} list" where
  "count_tokens vocab context =
     fold (\<lambda>c counts. if vocab \<le> c then counts else counts[c := counts ! c + 1]) context (replicate vocab 0)"

definition apply_freq_presc_penalty :: "'f::{linorder,zero,one,plus,minus,times} sampler \<Rightarrow> 'f list \<Rightarrow> nat list
    \<Rightarrow> 'f list" where
  "apply_freq_presc_penalty s logits context =
     (if frequency_penalty s \<noteq> None \<or> presence_penalty s \<noteq> None then
        let freq = (case frequency_penalty s of None \<Rightarrow> 0 | Some x \<Rightarrow> x);
            pres = (case presence_penalty s of None \<Rightarrow> 0 | Some x \<Rightarrow> x);
            counts = count_tokens (length logits) context
        in map (\<lambda>(logit, count). logit - count * freq - (if 0 < count then 1 else 0) * pres) (zip logits counts)
      else logits)"

text \<open>
  The length of the match that ends at position \<open>i\<close>: how far the tokens before \<open>i\<close> agree with
  those at the end of the context. \<open>m\<close> counts up to 50.
\<close>

function dry_match_length :: "nat list \<Rightarrow> nat list \<Rightarrow> nat \<Rightarrow> nat \<Rightarrow> nat" where
  "dry_match_length breakers context i m =
     (if m < 50 then
        if i < m then m
        else if context ! (i - m) \<noteq> context ! (length context - (m + 1)) then m
        else if context ! (length context - (m + 1)) \<in> set breakers then m
        else dry_match_length breakers context i (m + 1)
      else m)"
  by pat_completeness auto
termination by (relation "measure (\<lambda>(_, _, _, m). 50 - m)") auto

declare dry_match_length.simps [simp del]

definition match_indices :: "nat list \<Rightarrow> nat list" where
  "match_indices context = filter (\<lambda>i. context ! i = last context) [0..<length context - 1]"

definition dry_match_lengths :: "nat list \<Rightarrow> nat list \<Rightarrow> (nat \<rightharpoonup> nat)" where
  "dry_match_lengths breakers context =
     fold (\<lambda>i lengths.
        let next_token = context ! (i + 1)
        in if next_token \<in> set breakers then lengths
           else let m = dry_match_length breakers context i 1
                in lengths(next_token \<mapsto> (case lengths next_token of None \<Rightarrow> m | Some m' \<Rightarrow> max m m')))
       (match_indices context) Map.empty"

definition apply_dry_penalty :: "('f, 'r) sampler_env \<Rightarrow> 'f::{zero,minus,times} sampler \<Rightarrow> 'f list \<Rightarrow> nat list
    \<Rightarrow> 'f list" where
  "apply_dry_penalty env s logits context =
     (case dry_params s of None \<Rightarrow> logits
      | Some params \<Rightarrow>
          if multiplier params = 0 then logits
          else let lengths = dry_match_lengths (sequence_breakers params) context
               in map (\<lambda>(tok, logit).
                    case lengths tok of None \<Rightarrow> logit
                    | Some m \<Rightarrow>
                        if allowed_length params \<le> m
                        then logit - multiplier params * powf env (base params) (m - allowed_length params)
                        else logit) (List.enumerate 0 logits))"

definition apply_penalties :: "('f, 'r) sampler_env \<Rightarrow> 'f::{linorder,zero,one,plus,minus,times} sampler \<Rightarrow> 'f list
    \<Rightarrow> nat list \<Rightarrow> 'f list res" where
  "apply_penalties env s logits context =
     (if context = [] then Err (Bail ''Penalty context is empty, this should not happen.'')
      else Ok (apply_freq_presc_penalty s (apply_dry_penalty env s logits context) context))"

section \<open>Sampling\<close>

definition sample :: "('f, 'r) sampler_env \<Rightarrow> 'f::{linorder,zero,one,plus,minus,times} sampler \<Rightarrow> 'f list \<Rightarrow> nat list
    \<Rightarrow> bool \<Rightarrow> 'r \<Rightarrow> bool \<Rightarrow> ('f logprobs \<times> 'r) res" where
  "sample env s logits context return_lps rng speculative =
     rbind (apply_penalties env s logits context) (\<lambda>logits.
     rbind (rfold (\<lambda>processor l. processor l context) (logits_processors s) logits) (\<lambda>logits.
     let p = as_f32 env (top_p s); m = as_f32 env (min_p s)
     in if speculative then
          rbind (case temperature s of
                   None \<Rightarrow> sample_speculative_top_kp_min_p env s logits return_lps (top_k s) p m
                 | Some t \<Rightarrow> sample_speculative_top_kp_min_p env s (softmax env (div_scalar env logits t))
                     return_lps (top_k s) p m) (\<lambda>lp. Ok (lp, rng))
        else case temperature s of
               None \<Rightarrow> rbind (sample_argmax env s logits return_lps) (\<lambda>lp. Ok (lp, rng))
             | Some t \<Rightarrow>
                 let probs = softmax env (div_scalar env logits t)
                 in sample_top_kp_min_p env s probs probs (top_k s) p m return_lps rng))"

section \<open>What survives the filters\<close>

text \<open>The documented behaviour of the libraries that the properties rely on.\<close>

definition sorts :: "('f, 'r) sampler_env \<Rightarrow> bool" where
  "sorts env \<longleftrightarrow> (\<forall>xs. mset (arg_sort_desc env xs) = mset [0..<length xs])"

definition picks_positive :: "('f::zero, 'r) sampler_env \<Rightarrow> bool" where
  "picks_positive env \<longleftrightarrow>
     (\<forall>ps r i r'. weighted_index env ps r = Ok (i, r') \<longrightarrow> i < length ps \<and> ps ! i \<noteq> 0)"

lemma sorts_facts:
  assumes "sorts env"
  shows "distinct (arg_sort_desc env xs)" "set (arg_sort_desc env xs) = {..<length xs}"
    "length (arg_sort_desc env xs) = length xs"
proof -
  have m: "mset (arg_sort_desc env xs) = mset [0..<length xs]"
    using assms unfolding sorts_def by (rule spec)
  show "distinct (arg_sort_desc env xs)" 
    by (rule iffD2 [OF mset_eq_imp_distinct_iff [OF m] distinct_upt])
  show "set (arg_sort_desc env xs) = {..<length xs}" 
    by (simp add: mset_eq_setD [OF m] atLeast0LessThan)
  show "length (arg_sort_desc env xs) = length xs" using mset_eq_length [OF m] by simp
qed

lemma fold_zero_length [simp]: "length (fold (\<lambda>i ps. ps[i := 0]) js ps) = length ps"
  by (induction js arbitrary: ps) auto

lemma fold_zero_nth:
  "t < length ps \<Longrightarrow>
     fold (\<lambda>i ps. ps[i := 0::'f::zero]) js ps ! t = (if t \<in> set js then 0 else ps ! t)"
proof (induction js arbitrary: ps)
  case (Cons j js)
  have "fold (\<lambda>i ps. ps[i := 0]) js (ps[j := 0]) ! t = (if t \<in> set js then 0 else ps[j := 0] ! t)"
    by (rule Cons.IH) (simp add: Cons.prems)
  then show ?case using Cons.prems by (cases "j = t") simp_all
qed simp

lemma top_k_filter_length [simp]: "length (top_k_filter k idx probs) = length probs"
  by (simp add: top_k_filter_def)

lemma top_k_filter_nth:
  assumes "distinct idx" and "j < length idx" and "idx ! j < length probs"
  shows "top_k_filter k idx probs ! (idx ! j) = (if 0 < k \<and> nat k \<le> j then 0 else probs ! (idx ! j))"
proof -
  have "idx ! j \<in> set (drop (nat k) idx) \<longleftrightarrow> nat k \<le> j"
  proof
    assume "idx ! j \<in> set (drop (nat k) idx)"
    then obtain i where "i < length idx - nat k" "idx ! (nat k + i) = idx ! j"
      by (auto simp: in_set_conv_nth)
    then show "nat k \<le> j" using assms(1,2) nth_eq_iff_index_eq [of idx "nat k + i" j] by auto
  next
    assume "nat k \<le> j"
    then show "idx ! j \<in> set (drop (nat k) idx)"
      using assms(2) by (auto simp: in_set_conv_nth intro!: exI [of _ "j - nat k"])
  qed
  then show ?thesis using assms(3) by (simp add: top_k_filter_def fold_zero_nth)
qed

text \<open>The sum of the first \<open>n\<close> probabilities, added up in the order of the code.\<close>

definition mass :: "'f::plus \<Rightarrow> 'f list \<Rightarrow> nat list \<Rightarrow> nat \<Rightarrow> 'f" where
  "mass c probs idx n = foldl (+) c (map ((!) probs) (take n idx))"

lemma top_p_loop_length [simp]: "length (top_p_loop p idx c probs) = length probs"
  by (induction p idx c probs rule: top_p_loop.induct) auto

lemma top_p_loop_outside: "t \<notin> set idx \<Longrightarrow> top_p_loop p idx c probs ! t = probs ! t"
  by (induction p idx c probs rule: top_p_loop.induct) auto

lemma top_p_loop_stopped:
  "p \<le> c \<Longrightarrow> t \<in> set idx \<Longrightarrow> t < length probs \<Longrightarrow> top_p_loop p idx c probs ! t = 0"
proof (induction idx arbitrary: probs)
  case (Cons i idx)
  then show ?case by (cases "t \<in> set idx") (auto simp: top_p_loop_outside)
qed simp

lemma top_p_loop_nth:
  assumes "distinct idx" and "set idx \<subseteq> {..<length probs}" and "j < length idx"
  shows "top_p_loop p idx c probs ! (idx ! j)
    = (if \<forall>n \<le> j. mass c probs idx n < p then probs ! (idx ! j) else 0)"
  using assms
proof (induction idx arbitrary: c j)
  case (Cons i idx)
  show ?case
  proof (cases "p \<le> c")
    case True
    then have "\<not> (\<forall>n \<le> j. mass c probs (i # idx) n < p)" by (auto simp: mass_def intro!: exI [of _ 0])
    moreover have "top_p_loop p (i # idx) c probs ! ((i # idx) ! j) = 0"
    proof (rule top_p_loop_stopped)
      show "p \<le> c" by (rule True)
      show "(i # idx) ! j \<in> set (i # idx)" by (rule nth_mem) (use Cons.prems(3) in simp)
      then show "(i # idx) ! j < length probs" using Cons.prems(2) by blast
    qed
    ultimately show ?thesis by (simp only: if_False)
  next
    case False
    have mass: "mass c probs (i # idx) (Suc n) = mass (c + probs ! i) probs idx n" for n
      by (simp add: mass_def)
    show ?thesis
    proof (cases j)
      case 0
      then show ?thesis using False Cons.prems(1) by (auto simp: top_p_loop_outside mass_def)
    next
      case (Suc j')
      have split: "(\<forall>n \<le> Suc j'. P n) \<longleftrightarrow> P 0 \<and> (\<forall>n \<le> j'. P (Suc n))" for P
        by (auto, case_tac n) auto
      have "mass c probs (i # idx) 0 < p" using False by (simp add: mass_def)
      then show ?thesis
        using False Suc Cons.prems Cons.IH [of j' "c + probs ! i"] by (auto simp add: split mass)
    qed
  qed
qed simp

lemma min_p_filter_length [simp]: "length (min_p_filter max_p m idx probs) = length probs"
  unfolding min_p_filter_def by (induction idx arbitrary: probs) auto

lemma min_p_filter_nth:
  "t < length probs \<Longrightarrow> min_p_filter max_p m idx probs ! t \<noteq> 0 \<Longrightarrow> t \<in> set idx \<Longrightarrow>
     min_p_filter max_p m idx probs ! t = probs ! t \<and> max_p * m < probs ! t"
proof (induction idx arbitrary: probs)
  case (Cons i idx)
  let ?ps = "if probs ! i \<le> max_p * m then probs[i := 0] else probs"
  have step: "min_p_filter max_p m (i # idx) probs = min_p_filter max_p m idx ?ps"
    by (simp add: min_p_filter_def)
  have keep: "min_p_filter max_p m idx ps ! u = 0" if "ps ! u = 0" "u < length ps" for ps u
    using that
  proof (induction idx arbitrary: ps)
    case (Cons a idx)
    have "(if ps ! a \<le> max_p * m then ps[a := 0] else ps) ! u = 0"
      using Cons.prems by (cases "a = u") simp_all
    then show ?case using Cons.prems Cons.IH by (simp add: min_p_filter_def)
  qed (simp add: min_p_filter_def)
  have same: "min_p_filter max_p m idx ps ! u = ps ! u" if "u \<notin> set idx" "u < length ps" for ps u
    using that unfolding min_p_filter_def by (induction idx arbitrary: ps) auto
  show ?case
  proof (cases "t = i \<and> probs ! i \<le> max_p * m")
    case True
    then have "min_p_filter max_p m idx ?ps ! t = 0" using Cons.prems(1) by (intro keep) auto
    then show ?thesis using Cons.prems(2) step by simp
  next
    case False
    then have ps: "?ps ! t = probs ! t" "t < length ?ps" using Cons.prems(1) by (auto simp: nth_list_update)
    show ?thesis
    proof (cases "t \<in> set idx")
      case True
      then show ?thesis using Cons.IH [of ?ps] Cons.prems(2) ps step by simp
    next
      case nin: False
      then have "t = i" using Cons.prems(3) by simp
      then show ?thesis using False ps step same [OF nin ps(2)] by simp
    qed
  qed
qed simp


text \<open>
  C34. With top-p on, a sampled token is one of the first k tokens in the order of the
  logits, the probabilities before it add up to less than top-p (they, and every partial
  sum of them), and with min-p on its probability is above min-p times that of the first.
\<close>

theorem sampled_token_survives:
  assumes "sorts env" and "picks_positive env" and "0 < p" and "p < 1"
    and "length probs = length logits" and "0 < length logits"
    and "sample_top_kp_min_p env s probs logits k p m lps rng = Ok (lp, rng')"
  shows "\<exists>j < length logits. lp_token lp = arg_sort_desc env logits ! j
    \<and> (0 < k \<longrightarrow> j < nat k)
    \<and> (\<forall>n \<le> j. mass 0 (top_k_filter k (arg_sort_desc env logits) probs) (arg_sort_desc env logits) n < p)
    \<and> (0 < m \<and> m < 1 \<longrightarrow> probs ! (arg_sort_desc env logits ! 0) * m < probs ! lp_token lp)
    \<and> probs ! lp_token lp \<noteq> 0"
proof -
  let ?idx = "arg_sort_desc env logits"
  let ?ks = "top_k_filter k ?idx probs"
  let ?ps = "top_p_loop p ?idx 0 ?ks"
  have idx: "distinct ?idx" "set ?idx = {..<length logits}" "length ?idx = length logits"
    using sorts_facts [OF assms(1)] by blast+
  have one: "lp_token lp < length qs \<and> qs ! lp_token lp \<noteq> 0"
    if "sample_multinomial env s qs idx lps rng = Ok (lp, rng')" for qs idx
  proof -
    from that obtain r where "weighted_index env qs rng = Ok (lp_token lp, r)"
      by (auto simp: sample_multinomial_def finish_sample_def res_simps)
    then show ?thesis using assms(2) unfolding picks_positive_def by blast
  qed
  define max_p where "max_p = ?ps ! (?idx ! 0)"
  have np: "\<not> (p \<le> 0 \<or> 1 \<le> p)" using assms(3,4) by auto
  have first: "?idx ! 0 < length logits" using nth_mem [of 0 ?idx] idx(2,3) assms(6) by auto
  have final: "lp_token lp < length logits \<and> ?ps ! lp_token lp \<noteq> 0
      \<and> (0 < m \<and> m < 1 \<longrightarrow> max_p * m < ?ps ! lp_token lp)"
  proof (cases "m \<le> 0 \<or> 1 \<le> m")
    case True
    then have "sample_multinomial env s ?ps ?idx lps rng = Ok (lp, rng')"
      using np assms(7) by (simp add: sample_top_kp_min_p_def Let_def)
    then show ?thesis using one True assms(5) by (fastforce dest: leD)
  next
    case False
    then have "sample_multinomial env s (min_p_filter max_p m ?idx ?ps) ?idx lps rng = Ok (lp, rng')"
      using np assms(5,6,7) idx(3) first by (simp add: sample_top_kp_min_p_def Let_def max_p_def)
    from one [OF this] have l: "lp_token lp < length logits"
      "min_p_filter max_p m ?idx ?ps ! lp_token lp \<noteq> 0" using assms(5) by auto
    then show ?thesis using min_p_filter_nth [of "lp_token lp" ?ps max_p m ?idx] idx(2) assms(5) by auto
  qed
  then obtain j where j: "j < length logits" "?idx ! j = lp_token lp"
    using idx(2,3) by (metis in_set_conv_nth lessThan_iff)
  have ps: "?ps ! (?idx ! i) = (if \<forall>n \<le> i. mass 0 ?ks ?idx n < p then ?ks ! (?idx ! i) else 0)"
    if "i < length logits" for i
    using that idx assms(5) by (intro top_p_loop_nth) simp_all
  have ks: "?ks ! (?idx ! i) = (if 0 < k \<and> nat k \<le> i then 0 else probs ! (?idx ! i))"
    if "i < length logits" for i
    using that idx assms(5) nth_mem [of i ?idx] by (intro top_k_filter_nth) auto
  have "?ks ! lp_token lp \<noteq> 0" "\<forall>n \<le> j. mass 0 ?ks ?idx n < p" "?ps ! lp_token lp = ?ks ! lp_token lp"
    using final ps [OF j(1)] j(2) by (auto split: if_splits)
  moreover from this have "\<not> (0 < k \<and> nat k \<le> j)" "?ks ! lp_token lp = probs ! lp_token lp"
    using ks [OF j(1)] j(2) by (auto split: if_splits)
  moreover have "max_p = probs ! (?idx ! 0)"
    using ps [OF assms(6)] ks [OF assms(6)] assms(3) by (auto simp: max_p_def mass_def)
  ultimately show ?thesis using j final by (intro exI [of _ j]) auto
qed

text \<open>An instance: rationals as numbers, a stable sort, the first nonzero weight.\<close>

definition first_nonzero :: "rat list \<Rightarrow> unit \<Rightarrow> (nat \<times> unit) res" where
  "first_nonzero ps r = (case filter (\<lambda>i. ps ! i \<noteq> 0) [0..<length ps] of
     [] \<Rightarrow> Err (Bail ''all weights are zero'') | i # _ \<Rightarrow> Ok (i, ()))"

definition rat_env :: "(rat, unit) sampler_env" where
  "rat_env = \<lparr>arg_sort_desc = (\<lambda>xs. rev (sort_key ((!) xs) [0..<length xs])),
     argmax = (\<lambda>xs. last (sort_key ((!) xs) [0..<length xs])), softmax = (\<lambda>xs. xs),
     div_scalar = (\<lambda>xs _. xs), log10 = (\<lambda>x. x), powf = (^), as_f32 = (\<lambda>x. x),
     weighted_index = first_nonzero\<rparr>"

lemma rat_env_sorts: "sorts rat_env"
  by (simp add: sorts_def rat_env_def)

lemma rat_env_picks: "picks_positive rat_env"
proof -
  have "i < length ps \<and> ps ! i \<noteq> 0" if "first_nonzero ps r = Ok (i, r')" for ps r i r'
  proof -
    from that obtain "is" where "filter (\<lambda>i. ps ! i \<noteq> 0) [0..<length ps] = i # is"
      by (auto simp: first_nonzero_def split: list.splits)
    then have "i \<in> set (filter (\<lambda>i. ps ! i \<noteq> 0) [0..<length ps])" by simp
    then show ?thesis by simp
  qed
  then show ?thesis by (simp add: picks_positive_def rat_env_def)
qed

definition plain_sampler :: "'f::zero sampler" where
  "plain_sampler = \<lparr>temperature = None, top_n_logprobs = 2, tokenizer_decode = None,
     frequency_penalty = None, presence_penalty = None, dry_params = None, top_k = 0, top_p = 0,
     min_p = 0, logits_processors = []\<rparr>"

theorem sampled_token_survives_witness:
  "\<exists>j < 3. 2 = arg_sort_desc rat_env [1/5, 3/10, 1/2] ! j \<and> j < 2"
proof -
  have "sample_top_kp_min_p rat_env plain_sampler [1/5, 3/10, 1/2] [1/5, 3/10, 1/2] 2 (2/5) (1/10) False ()
    = Ok (\<lparr>lp_token = 2, lp_logprob = 1/2, lp_bytes = None, top_logprobs = None\<rparr>, ())"
    by code_simp
  from sampled_token_survives [OF rat_env_sorts rat_env_picks _ _ _ _ this] show ?thesis
    by (simp add: numeral_eq_Suc) metis
qed

section \<open>Penalties count the context\<close>

lemma count_tokens_length [simp]: "length (count_tokens vocab context :: 'f::{zero,one,plus} list) = vocab"
proof -
  have "length (fold (\<lambda>c counts. if vocab \<le> c then counts else counts[c := counts ! c + 1]) context cs) = length cs"
    for cs :: "'f list"
    by (induction "context" arbitrary: cs) auto
  then show ?thesis by (simp add: count_tokens_def)
qed

lemma count_tokens_nth:
  assumes "t < vocab"
  shows "(count_tokens vocab context :: 'f::semiring_1 list) ! t = of_nat (count_list context t)"
proof -
  have "fold (\<lambda>c counts. if vocab \<le> c then counts else counts[c := counts ! c + 1]) context cs ! t
      = cs ! t + of_nat (count_list context t)" if "length cs = vocab" for cs :: "'f list"
    using that
  proof (induction "context" arbitrary: cs)
    case (Cons c cs')
    then show ?case using assms by (cases "c = t") (simp_all add: add.assoc)
  qed simp
  then show ?thesis using assms by (simp add: count_tokens_def)
qed

text \<open>
  The frequency and presence penalty of a token depend on how often it occurs in the
  context: the logit falls by the frequency penalty per occurrence, and once by the presence
  penalty when there is one. Tokens outside the vocabulary are ignored.
\<close>

theorem penalties_count_occurrences:
  fixes logits :: "'f::linordered_idom list"
  shows "length (apply_freq_presc_penalty s logits context) = length logits
     \<and> (\<forall>t \<in> {..<length logits}. apply_freq_presc_penalty s logits context ! t =
          logits ! t - of_nat (count_list context t) * (case frequency_penalty s of None \<Rightarrow> 0 | Some x \<Rightarrow> x)
            - (if t \<in> set context then case presence_penalty s of None \<Rightarrow> 0 | Some x \<Rightarrow> x else 0))"
proof -
  have pos: "0 < (of_nat (count_list context t) :: 'f) \<longleftrightarrow> t \<in> set context" for t
    unfolding of_nat_0_less_iff using count_list_0_iff [of "context" t] by auto
  show ?thesis
    by (auto simp: apply_freq_presc_penalty_def count_tokens_nth pos count_list_0_iff split: option.splits)
qed

theorem penalties_count_occurrences_witness:
  "apply_freq_presc_penalty (plain_sampler\<lparr>frequency_penalty := Some 2, presence_penalty := Some 1\<rparr>)
     [10, 10, 10 :: int] [1, 7, 1] ! 1 = 5"
  using penalties_count_occurrences
    [of "plain_sampler\<lparr>frequency_penalty := Some 2, presence_penalty := Some 1\<rparr>" "[10, 10, 10 :: int]" "[1, 7, 1]"]
  by (simp add: plain_sampler_def)

section \<open>The matches of the DRY penalty\<close>

definition dry_match_at :: "nat list \<Rightarrow> nat list \<Rightarrow> nat \<Rightarrow> nat \<Rightarrow> bool" where
  "dry_match_at breakers context i k \<longleftrightarrow>
     k \<le> i \<and> context ! (i - k) = context ! (length context - (k + 1))
       \<and> context ! (length context - (k + 1)) \<notin> set breakers"

lemma dry_match_length_from:
  "m \<le> 50 \<Longrightarrow> dry_match_length B c i m \<in> {m..50}
     \<and> (\<forall>k. m \<le> k \<and> k < dry_match_length B c i m \<longrightarrow> dry_match_at B c i k)
     \<and> (dry_match_length B c i m < 50 \<longrightarrow> \<not> dry_match_at B c i (dry_match_length B c i m))"
proof (induction B c i m rule: dry_match_length.induct)
  case (1 B c i m)
  show ?case
  proof (cases "m < 50 \<and> dry_match_at B c i m")
    case True
    then have step: "dry_match_length B c i m = dry_match_length B c i (m + 1)"
      by (subst dry_match_length.simps) (simp add: dry_match_at_def)
    have "dry_match_length B c i (m + 1) \<in> {m + 1..50}
       \<and> (\<forall>k. m + 1 \<le> k \<and> k < dry_match_length B c i (m + 1) \<longrightarrow> dry_match_at B c i k)
       \<and> (dry_match_length B c i (m + 1) < 50 \<longrightarrow> \<not> dry_match_at B c i (dry_match_length B c i (m + 1)))"
      using True 1 by (simp add: dry_match_at_def)
    moreover have "dry_match_at B c i k" if "m \<le> k" "k < dry_match_length B c i (m + 1)"
      "\<forall>k. m + 1 \<le> k \<and> k < dry_match_length B c i (m + 1) \<longrightarrow> dry_match_at B c i k" for k
      using that True by (cases "k = m") auto
    ultimately show ?thesis unfolding step by auto
  next
    case False
    then have "dry_match_length B c i m = m"
      by (subst dry_match_length.simps) (auto simp: dry_match_at_def)
    then show ?thesis using False 1(2) by auto
  qed
qed

text \<open>
  The length the DRY penalty uses for a position with the last token of the context is
  the length of the longest match ending there: every token of the match equals the token at
  the same distance from the end and is not a sequence breaker, the match does not cross the
  start of the context, and it is maximal up to the limit of 50.
\<close>

theorem dry_match_is_the_longest:
  shows "dry_match_length B c i 1 \<in> {1..50}
     \<and> (\<forall>k \<in> {1..<dry_match_length B c i 1}. dry_match_at B c i k)
     \<and> (dry_match_length B c i 1 < 50 \<longrightarrow> \<not> dry_match_at B c i (dry_match_length B c i 1))"
  using dry_match_length_from [of 1 B c i] by auto

theorem dry_match_is_the_longest_witness:
  "dry_match_length [] [5, 1, 2, 3, 9, 1, 2, 3] 3 1 = 3
   \<and> dry_match_at [] [5, 1, 2, 3, 9, 1, 2, 3] 3 2
   \<and> \<not> dry_match_at [] [5, 1, 2, 3, 9, 1, 2, 3] 3 3"
proof -
  have "dry_match_length [] [5, 1, 2, 3, 9, 1, 2, 3] 3 1 = 3"
    by (simp add: dry_match_length.simps numeral_eq_Suc)
  then show ?thesis using dry_match_is_the_longest [of "[]" "[5, 1, 2, 3, 9, 1, 2, 3]" 3] by simp
qed

text \<open>
  No sequence breaker is ever kept: the condition on the encoding is inverted, so that
  a breaker with an encoding is dropped, and one without panics on the empty slice.
\<close>

theorem dry_breakers_are_dropped:
  assumes "\<forall>b \<in> set (dsp_sequence_breakers p). is_ok (encode (97 # b))"
  shows "(if \<exists>b \<in> set (dsp_sequence_breakers p). encode (97 # b) = Ok []
          then panics (dry_inner_from encode p)
          else \<exists>d. dry_inner_from encode p = Ok d \<and> sequence_breakers d = [])"
proof -
  have "(if \<exists>b \<in> set bs. encode (97 # b) = Ok [] then panics (rmap (breaker_id encode) bs)
         else rmap (breaker_id encode) bs = Ok (map (\<lambda>_. None) bs))"
    if "\<forall>b \<in> set bs. is_ok (encode (97 # b))" for bs
    using that
  proof (induction bs)
    case (Cons b bs)
    then obtain ids where ids: "encode (97 # b) = Ok ids" by (auto simp: is_ok_iff)
    then have "breaker_id encode b = (if ids = [] then Err (Panic ''attempt to subtract with overflow'') else Ok None)"
      by (simp add: breaker_id_def usub_def)
    then show ?case using Cons ids by (auto split: if_splits)
  qed simp
  note this [OF assms]
  moreover have "List.map_filter id (map (\<lambda>_. None) bs) = []" for bs :: "rstring list"
    by (induction bs) (auto simp: List.map_filter_def)
  ultimately show ?thesis by (auto simp: dry_inner_from_def split: if_splits)
qed

theorem dry_breakers_are_dropped_witness:
  "\<exists>d. dry_inner_from (\<lambda>s. Ok s) \<lparr>dsp_sequence_breakers = [[10], [58]], dsp_multiplier = 1 :: int,
     dsp_base = 2, dsp_allowed_length = 2\<rparr> = Ok d \<and> sequence_breakers d = []"
  using dry_breakers_are_dropped [of "\<lparr>dsp_sequence_breakers = [[10], [58]], dsp_multiplier = 1 :: int,
     dsp_base = 2, dsp_allowed_length = 2\<rparr>" "\<lambda>s. Ok s"] by simp

section \<open>What is reported\<close>

lemma rmap_vget:
  assumes "rmap (vget xs) [0..<n] = Ok ys"
  shows "n \<le> length xs" "ys = take n xs"
proof -
  have "ys = map ((!) xs) is \<and> (\<forall>i \<in> set is. i < length xs)" if "rmap (vget xs) is = Ok ys" for "is"
    using that by (induction "is" arbitrary: ys) (auto simp: res_simps)
  from this [OF assms] have ys: "ys = map ((!) xs) [0..<n]" "\<forall>i < n. i < length xs" by auto
  show n: "n \<le> length xs"
  proof (rule ccontr)
    assume "\<not> n \<le> length xs"
    then show False using ys(2) by (auto dest: spec [of _ "length xs"])
  qed
  show "ys = take n xs" using n ys(1) by (intro nth_equalityI) auto
qed

lemma get_top_logprobs_tokens:
  assumes "get_top_logprobs env s probs idx = Ok tops"
  shows "map tl_token tops = take (top_n_logprobs s) idx"
    and "map tl_logprob tops
      = map (\<lambda>x. log10 env (probs ! x)) (take (top_n_logprobs s) (sort_by_prob probs idx))"
proof -
  let ?n = "top_n_logprobs s" and ?sorted = "sort_by_prob probs idx"
  let ?vs = "map (\<lambda>x. log10 env (probs ! x)) (take ?n ?sorted)"
  from assms obtain toks bytes where n: "?n \<le> length ?sorted"
    and toks: "rmap (vget idx) [0..<?n] = Ok toks"
    and bytes: "rmap (decode_with (tokenizer_decode s)) toks = Ok bytes"
    and tops: "tops = map (\<lambda>(b, t, v). \<lparr>tl_token = t, tl_logprob = v, tl_bytes = b\<rparr>) (zip bytes (zip toks ?vs))"
    by (auto simp: get_top_logprobs_def Let_def res_simps)
  have len: "length toks = ?n" "length bytes = ?n" "length ?vs = ?n"
    using length_rmap [OF toks] length_rmap [OF bytes] n by simp_all
  show "map tl_token tops = take ?n idx"
    using len rmap_vget(2) [OF toks] unfolding tops by (intro nth_equalityI) auto
  show "map tl_logprob tops = ?vs"
    using len unfolding tops by (intro nth_equalityI) auto
qed

text \<open>
  With greedy sampling the top log-probabilities that are reported are the sorted ones,
  but the tokens they are paired with are always the first tokens of the vocabulary.
\<close>

theorem greedy_top_logprobs_name_the_first_tokens:
  assumes "sample_argmax env s logits True = Ok lp"
  shows "lp_token lp = argmax env logits
     \<and> (\<exists>tops. top_logprobs lp = Some tops
         \<and> map tl_token tops = [0..<top_n_logprobs s]
         \<and> map tl_logprob tops = map (\<lambda>x. log10 env (logits ! x))
             (take (top_n_logprobs s) (sort_by_prob logits [0..<length logits])))"
proof -
  from assms obtain tops where t: "get_top_logprobs env s logits [0..<length logits] = Ok tops"
    and lp: "lp_token lp = argmax env logits" "top_logprobs lp = Some tops"
    by (auto simp: sample_argmax_def finish_sample_def res_simps)
  then obtain toks where "rmap (vget [0..<length logits]) [0..<top_n_logprobs s] = Ok toks"
    by (auto simp: get_top_logprobs_def Let_def res_simps)
  then have "top_n_logprobs s \<le> length logits" using rmap_vget(1) by fastforce
  then show ?thesis using lp get_top_logprobs_tokens [OF t] by auto
qed

theorem greedy_top_logprobs_name_the_first_tokens_witness:
  "\<exists>lp tops. sample_argmax rat_env plain_sampler [1, 5, 9, 7] True = Ok lp
     \<and> lp_token lp = 2 \<and> top_logprobs lp = Some tops \<and> map tl_token tops = [0, 1]
     \<and> map tl_logprob tops = [9, 7]"
proof -
  let ?lp = "\<lparr>lp_token = 2, lp_logprob = 9, lp_bytes = None, top_logprobs =
    Some [\<lparr>tl_token = 0, tl_logprob = 9, tl_bytes = None\<rparr>, \<lparr>tl_token = 1, tl_logprob = 7, tl_bytes = None\<rparr>]\<rparr>"
  have r: "sample_argmax rat_env plain_sampler [1, 5, 9, 7] True = Ok ?lp" by code_simp
  show ?thesis using greedy_top_logprobs_name_the_first_tokens [OF r] r by auto
qed

section \<open>Speculative sampling of raw logits\<close>

lemma top_p_loop_keeps:
  fixes c p :: "'f::linordered_idom"
  assumes "c < p" and "\<And>i. i \<in> set idx \<Longrightarrow> probs ! i \<le> 0"
  shows "top_p_loop p idx c probs = probs"
  using assms
proof (induction idx arbitrary: c)
  case (Cons i idx)
  have "c + probs ! i < p" using Cons.prems(1) Cons.prems(2) [of i] by simp
  then show ?case using Cons by simp
qed simp

text \<open>
  Greedy decoding in the speculative pipeline filters the raw logits as if they were
  probabilities: when all logits are negative, every one of them is set to zero, and the
  token is whatever the argmax of a zero vector is.
\<close>

theorem speculative_greedy_forgets_negative_logits:
  fixes logits :: "'f::linordered_idom list"
  assumes "sorts env" and "0 < length logits"
    and "\<forall>i < length logits. logits ! i \<le> logits ! (arg_sort_desc env logits ! 0)"
    and "\<forall>i < length logits. logits ! i < 0"
    and "0 < p" and "0 \<le> m" and "m \<le> 1"
  shows "sample_speculative_top_kp_min_p env s logits lps k p m
     = finish_sample env s (replicate (length logits) 0) (arg_sort_desc env logits) lps
         (argmax env (replicate (length logits) 0))"
proof -
  let ?idx = "arg_sort_desc env logits"
  let ?ks = "top_k_filter k ?idx logits"
  let ?a = "logits ! (?idx ! 0)"
  have idx: "distinct ?idx" "set ?idx = {..<length logits}" "length ?idx = length logits"
    using sorts_facts [OF assms(1)] by blast+
  have ks: "?ks ! (?idx ! j) = (if 0 < k \<and> nat k \<le> j then 0 else logits ! (?idx ! j))"
    if "j < length logits" for j
    using that idx nth_mem [of j ?idx] by (intro top_k_filter_nth) auto
  have ksv: "?ks ! t = 0 \<or> ?ks ! t = logits ! t" if "t < length logits" for t
  proof -
    have "t \<in> set ?idx" using that idx(2) by simp
    then obtain j where "j < length logits" "?idx ! j = t" using idx(3) by (metis in_set_conv_nth)
    then show ?thesis using ks by auto
  qed
  have "?ks ! t \<le> 0" if "t \<in> set ?idx" for t
    using that ksv [of t] idx(2) assms(4) by (auto intro: less_imp_le)
  then have top_p: "top_p_loop p ?idx 0 ?ks = ?ks" using assms(5) by (intro top_p_loop_keeps) auto
  have first: "?idx ! 0 < length logits" using nth_mem [of 0 ?idx] idx(2,3) assms(2) by auto
  then have a: "?a < 0" "?ks ! (?idx ! 0) = ?a" using assms(4) ks [OF assms(2)] by auto
  have "?a \<le> ?a * m" using mult_left_mono_neg [OF assms(7), of ?a] a(1) by simp
  then have small: "logits ! t \<le> ?a * m" if "t < length logits" for t
    using assms(3) that by (meson order_trans)
  have "min_p_filter ?a m ?idx ?ks ! t = 0" if t: "t < length logits" for t
  proof (rule ccontr)
    assume n: "min_p_filter ?a m ?idx ?ks ! t \<noteq> 0"
    have "?a * m < ?ks ! t \<and> ?ks ! t \<noteq> 0"
      using min_p_filter_nth [of t ?ks ?a m ?idx] n t idx(2) by auto
    then show False using ksv [OF t] small [OF t] by auto
  qed
  then have "min_p_filter ?a m ?idx ?ks = replicate (length logits) 0"
    by (intro nth_equalityI) auto
  then show ?thesis
    using a(2) first idx(3) assms(2) by (simp add: sample_speculative_top_kp_min_p_def Let_def top_p)
qed

theorem speculative_greedy_forgets_negative_logits_witness:
  "sample_speculative_top_kp_min_p rat_env plain_sampler [-1, -5, -9] False 0 (1/2) 0
     = finish_sample rat_env plain_sampler (replicate 3 0) (arg_sort_desc rat_env [-1, -5, -9]) False 2"
proof -
  have h: "arg_sort_desc rat_env [-1, -5, -9] = [0, 1, 2]" "argmax rat_env [0, 0, 0] = 2"
    by code_simp+
  show ?thesis
    using speculative_greedy_forgets_negative_logits [OF rat_env_sorts, of "[-1, -5, -9]" "1/2" 0 plain_sampler False 0]
    by (simp add: h numeral_eq_Suc less_Suc_eq)
qed

end
