(* ===== verification/Prefix_Cache.thy ===== *)
theory Prefix_Cache
  imports Kv_Cache
begin

text \<open>
  The prefix cache (\<^verbatim>\<open>mistralrs-core/src/prefix_cacher_v2.rs\<close>): the caches of finished
  sequences by their tokens, the search for the longest common prefix, and the eviction to
  the CPU.

  The hash map is the list of its entries in the order of its iteration, which is arbitrary;
  \<open>order\<close> is what an insertion makes of it. Devices are numbers, the CPU is 0. The lemmas
  show which prefix the search finds, how many caches an eviction leaves on the device, and
  that the cache a search returns shares its storage with the stored one.
\<close>

section \<open>The state and its operations\<close>

definition find_max_index :: "nat list \<Rightarrow> nat list \<Rightarrow> nat option" where
  "find_max_index xs ys =
     (let n = length (takeWhile (\<lambda>(a, b). a = b) (zip xs ys)) in if n = 0 then None else Some (n - 1))"

definition CPU :: nat where "CPU = 0"

type_synonym 't entry = "nat list \<times> 't kv_cache option list"

record 't prefix_cacher =
  entries :: "'t entry list"
  pc_device :: nat
  n_on_device :: nat
  no_prefix_cache :: bool

record 't matching_cache =
  mc_normal :: "'t kv_cache option list"
  mc_toks :: "nat list"
  mc_offset :: nat

definition prefix_cacher_new :: "nat \<Rightarrow> nat \<Rightarrow> bool \<Rightarrow> 't prefix_cacher" where
  "prefix_cacher_new dev n no = \<lparr>entries = [], pc_device = dev, n_on_device = n, no_prefix_cache = no\<rparr>"

definition hash_insert :: "('t entry list \<Rightarrow> 't entry list) \<Rightarrow> nat list \<Rightarrow> 't kv_cache option list \<Rightarrow> 't entry list
    \<Rightarrow> 't entry list" where
  "hash_insert order k c m =
     (if k \<in> fst ` set m then map (\<lambda>(k', c'). if k' = k then (k', c) else (k', c')) m
      else order (m @ [(k, c)]))"

definition add_sequence :: "('t entry list \<Rightarrow> 't entry list) \<Rightarrow> nat list \<Rightarrow> 't kv_cache option list
    \<Rightarrow> 't prefix_cacher \<Rightarrow> 't prefix_cacher" where
  "add_sequence order toks normal_cache pc =
     (if no_prefix_cache pc then pc
      else pc\<lparr>entries := hash_insert order toks normal_cache (entries pc)\<rparr>)"

definition sc_to_device :: "('h, 't, 'e) tensor_lib \<Rightarrow> nat \<Rightarrow> 't single_cache \<Rightarrow> 'h \<Rightarrow> ('t single_cache \<times> 'h) res" where
  "sc_to_device lib dev c h =
     (case all_data c of None \<Rightarrow> Ok (c, h)
      | Some t \<Rightarrow> rbind (expect (to_device lib dev t h)) (\<lambda>(t, h). Ok (c\<lparr>all_data := Some t\<rparr>, h)))"

definition kv_to_device :: "('h, 't, 'e) tensor_lib \<Rightarrow> nat \<Rightarrow> 't kv_cache \<Rightarrow> 'h \<Rightarrow> ('t kv_cache \<times> 'h) res" where
  "kv_to_device lib dev c h =
     rbind (sc_to_device lib dev (kv_k c) h) (\<lambda>(k, h).
     rbind (sc_to_device lib dev (kv_v c) h) (\<lambda>(v, h). Ok (\<lparr>kv_k = k, kv_v = v\<rparr>, h)))"

fun cache_to :: "('h, 't, 'e) tensor_lib \<Rightarrow> nat \<Rightarrow> 't kv_cache option list \<Rightarrow> 'h
    \<Rightarrow> ('t kv_cache option list \<times> 'h) res" where
  "cache_to lib dev [] h = Ok ([], h)"
| "cache_to lib dev (None # cs) h = rbind (cache_to lib dev cs h) (\<lambda>(cs, h). Ok (None # cs, h))"
| "cache_to lib dev (Some c # cs) h =
     rbind (kv_to_device lib dev c h) (\<lambda>(c, h).
     rbind (cache_to lib dev cs h) (\<lambda>(cs, h). Ok (Some c # cs, h)))"

text \<open>The device of the first layer that has a cache; \<open>None\<close> is the \<^verbatim>\<open>continue\<close> of the loops.\<close>

fun cache_device :: "('h, 't, 'e) tensor_lib \<Rightarrow> 't kv_cache option list \<Rightarrow> nat option res" where
  "cache_device lib [] = Ok None"
| "cache_device lib (None # cs) = cache_device lib cs"
| "cache_device lib (Some c # cs) =
     (case all_data (kv_k c) of None \<Rightarrow> Err (Panic ''No KV cache data'')
      | Some t \<Rightarrow> Ok (Some (device_of lib t)))"

definition on_device :: "nat option \<Rightarrow> bool" where
  "on_device d \<longleftrightarrow> (case d of None \<Rightarrow> False | Some dev \<Rightarrow> dev \<noteq> CPU)"

definition count_on_device :: "('h, 't, 'e) tensor_lib \<Rightarrow> 't entry list \<Rightarrow> nat res" where
  "count_on_device lib es =
     rfold (\<lambda>(_, c) n. rbind (cache_device lib c) (\<lambda>d. Ok (if on_device d then n + 1 else n))) es 0"

fun evict_loop :: "('h, 't, 'e) tensor_lib \<Rightarrow> nat \<Rightarrow> nat \<Rightarrow> nat \<Rightarrow> 't entry list \<Rightarrow> 'h \<Rightarrow> ('t entry list \<times> 'h) res" where
  "evict_loop lib limit n evicted [] h = Ok ([], h)"
| "evict_loop lib limit n evicted ((k, c) # es) h =
     rbind (usub n evicted) (\<lambda>left.
     if left = limit then Ok ((k, c) # es, h)
     else rbind (cache_device lib c) (\<lambda>d.
          if on_device d
          then rbind (cache_to lib CPU c h) (\<lambda>(c, h).
               rbind (evict_loop lib limit n (evicted + 1) es h) (\<lambda>(es, h). Ok ((k, c) # es, h)))
          else rbind (evict_loop lib limit n evicted es h) (\<lambda>(es, h). Ok ((k, c) # es, h))))"

definition evict_to_cpu :: "('h, 't, 'e) tensor_lib \<Rightarrow> 't prefix_cacher \<Rightarrow> 'h \<Rightarrow> (nat \<times> 't prefix_cacher \<times> 'h) res" where
  "evict_to_cpu lib pc h =
     (if no_prefix_cache pc then Ok (0, pc, h)
      else rbind (count_on_device lib (entries pc)) (\<lambda>n.
           rbind (evict_loop lib (n_on_device pc) n 0 (entries pc) h) (\<lambda>(es, h).
           Ok (length es - n_on_device pc, pc\<lparr>entries := es\<rparr>, h))))"

fun evict_all_loop :: "('h, 't, 'e) tensor_lib \<Rightarrow> 't entry list \<Rightarrow> 'h \<Rightarrow> ('t entry list \<times> 'h) res" where
  "evict_all_loop lib [] h = Ok ([], h)"
| "evict_all_loop lib ((k, c) # es) h =
     rbind (cache_device lib c) (\<lambda>d.
     rbind (if on_device d then cache_to lib CPU c h else Ok (c, h)) (\<lambda>(c, h).
     rbind (evict_all_loop lib es h) (\<lambda>(es, h). Ok ((k, c) # es, h))))"

definition evict_all_to_cpu :: "('h, 't, 'e) tensor_lib \<Rightarrow> 't prefix_cacher \<Rightarrow> 'h \<Rightarrow> (nat \<times> 't prefix_cacher \<times> 'h) res" where
  "evict_all_to_cpu lib pc h =
     (if no_prefix_cache pc then Ok (0, pc, h)
      else rbind (evict_all_loop lib (entries pc) h) (\<lambda>(es, h). Ok (length es, pc\<lparr>entries := es\<rparr>, h)))"

text \<open>The loop that keeps the longest match, the first one among equals.\<close>

fun longest_match :: "nat list \<Rightarrow> 't entry list \<Rightarrow> nat \<times> 't kv_cache option list option
    \<Rightarrow> nat \<times> 't kv_cache option list option" where
  "longest_match toks [] best = best"
| "longest_match toks ((k, v) # es) best =
     longest_match toks es
       (case find_max_index toks k of None \<Rightarrow> best
        | Some m \<Rightarrow> if fst best < m then (m, Some v) else best)"

definition search_for_matching_cache :: "('h, 't, 'e) tensor_lib \<Rightarrow> nat list \<Rightarrow> bool \<Rightarrow> 't prefix_cacher \<Rightarrow> 'h
    \<Rightarrow> ('t matching_cache option \<times> 'h) res" where
  "search_for_matching_cache lib toks contains_images pc h =
     (if no_prefix_cache pc \<or> toks = [] \<or> contains_images then Ok (None, h)
      else case longest_match toks (entries pc) (0, None) of
        (m, Some best) \<Rightarrow>
          rbind (cache_to lib (pc_device pc) best h) (\<lambda>(cache, h).
          rbind (slice_from toks m) (\<lambda>rest.
          Ok (Some \<lparr>mc_normal = map (map_option (kv_set_len m)) cache, mc_toks = rest, mc_offset = m\<rparr>, h)))
      | (_, None) \<Rightarrow> Ok (None, h))"

section \<open>The longest match\<close>

lemma find_max_index_iff:
  "find_max_index xs ys = Some m \<longleftrightarrow> length (takeWhile (\<lambda>(a, b). a = b) (zip xs ys)) = Suc m"
  by (auto simp: find_max_index_def Let_def)

lemma common_prefix_take:
  "n \<le> length (takeWhile (\<lambda>(a, b). a = b) (zip xs ys)) \<longleftrightarrow>
     n \<le> length xs \<and> n \<le> length ys \<and> take n xs = take n ys"
proof (induction n arbitrary: xs ys)
  case (Suc n)
  then show ?case by (cases xs; cases ys) auto
qed simp

text \<open>\<open>shares_prefix n\<close>: the first \<open>n\<close> tokens are there and the same.\<close>

definition shares_prefix :: "nat \<Rightarrow> nat list \<Rightarrow> nat list \<Rightarrow> bool" where
  "shares_prefix n xs ys \<longleftrightarrow> n \<le> length xs \<and> n \<le> length ys \<and> take n xs = take n ys"

lemma find_max_index_shares:
  "find_max_index xs ys = Some m \<longleftrightarrow> shares_prefix (Suc m) xs ys \<and> \<not> shares_prefix (Suc (Suc m)) xs ys"
  unfolding find_max_index_iff shares_prefix_def common_prefix_take [symmetric] by auto

lemma find_max_index_None: "find_max_index xs ys = None \<longleftrightarrow> \<not> shares_prefix 1 xs ys"
  unfolding shares_prefix_def common_prefix_take [symmetric] by (auto simp: find_max_index_def Let_def Suc_le_eq)

lemma shares_prefix_less: "shares_prefix n xs ys \<Longrightarrow> m \<le> n \<Longrightarrow> shares_prefix m xs ys"
  by (auto simp: shares_prefix_def min_absorb1 dest: arg_cong [where f = "take m"])

lemma longest_match_spec:
  "longest_match toks es best = (m, v) \<Longrightarrow>
     fst best \<le> m
     \<and> (\<forall>e \<in> set es. \<not> shares_prefix (Suc (Suc m)) toks (fst e))
     \<and> ((m, v) = best \<or> 0 < m \<and> (\<exists>e \<in> set es. v = Some (snd e) \<and> shares_prefix (Suc m) toks (fst e)))"
proof (induction es arbitrary: best)
  case (Cons e es)
  obtain k c where e: "e = (k, c)" by (cases e)
  let ?best = "case find_max_index toks k of None \<Rightarrow> best | Some m' \<Rightarrow> if fst best < m' then (m', Some c) else best"
  from Cons.prems have "longest_match toks es ?best = (m, v)" by (simp add: e)
  note ih = Cons.IH [OF this]
  show ?case
  proof (cases "find_max_index toks k")
    case None
    then have "\<not> shares_prefix (Suc (Suc m)) toks k"
      using find_max_index_None shares_prefix_less [of "Suc (Suc m)" toks k 1] by auto
    then show ?thesis using ih None e by auto
  next
    case (Some m')
    then have k: "shares_prefix (Suc m') toks k" "\<not> shares_prefix (Suc (Suc m')) toks k"
      by (simp_all add: find_max_index_shares)
    show ?thesis
    proof (cases "fst best < m'")
      case True
      then have "m' \<le> m" using ih Some by simp
      then have "\<not> shares_prefix (Suc (Suc m)) toks k" using k(2) shares_prefix_less by blast
      then show ?thesis using ih Some True k(1) e by auto
    next
      case False
      then have "m' \<le> m" using ih Some by simp
      then have "\<not> shares_prefix (Suc (Suc m)) toks k" using k(2) shares_prefix_less by blast
      then show ?thesis using ih Some False e by auto
    qed
  qed
qed simp

section \<open>Moving caches between devices\<close>

text \<open>Moving a tensor to the device it is on returns the same handle.\<close>

definition to_device_law :: "('h, 't, 'e) tensor_lib \<Rightarrow> bool" where
  "to_device_law lib \<longleftrightarrow>
     (\<forall>dev t h. \<exists>t' h'. to_device lib dev t h = Ok (t', h') \<and> device_of lib t' = dev
        \<and> (device_of lib t = dev \<longrightarrow> t' = t \<and> h' = h))"

lemma sc_to_device_works:
  assumes "to_device_law lib"
  obtains c' h' where "sc_to_device lib dev c h = Ok (c', h')"
    and "all_data c' = None \<longleftrightarrow> all_data c = None"
    and "\<And>t. all_data c' = Some t \<Longrightarrow> device_of lib t = dev"
    and "(\<And>t. all_data c = Some t \<Longrightarrow> device_of lib t = dev) \<Longrightarrow> c' = c \<and> h' = h"
proof (cases "all_data c")
  case None
  then show thesis by (intro that [of c h]) (simp_all add: sc_to_device_def)
next
  case (Some t)
  obtain t' h' where t': "to_device lib dev t h = Ok (t', h')" "device_of lib t' = dev"
    "device_of lib t = dev \<longrightarrow> t' = t \<and> h' = h"
    using assms unfolding to_device_law_def by metis
  have "c\<lparr>all_data := Some t\<rparr> = c" using Some by (cases c) simp
  then show thesis using Some t' by (intro that [of "c\<lparr>all_data := Some t'\<rparr>" h']) (auto simp: sc_to_device_def expect_def)
qed

lemma kv_to_device_works:
  assumes "to_device_law lib"
  obtains c' h' where "kv_to_device lib dev c h = Ok (c', h')"
    and "all_data (kv_k c') = None \<longleftrightarrow> all_data (kv_k c) = None"
    and "\<And>t. all_data (kv_k c') = Some t \<Longrightarrow> device_of lib t = dev"
    and "(\<And>t. t \<in> set_option (all_data (kv_k c)) \<union> set_option (all_data (kv_v c)) \<Longrightarrow> device_of lib t = dev) \<Longrightarrow> c' = c \<and> h' = h"
proof -
  obtain k h1 where k: "sc_to_device lib dev (kv_k c) h = Ok (k, h1)" "all_data k = None \<longleftrightarrow> all_data (kv_k c) = None"
    "\<And>t. all_data k = Some t \<Longrightarrow> device_of lib t = dev"
    "(\<And>t. all_data (kv_k c) = Some t \<Longrightarrow> device_of lib t = dev) \<Longrightarrow> k = kv_k c \<and> h1 = h"
    using sc_to_device_works [OF assms, of dev "kv_k c" h] by metis
  obtain v h2 where v: "sc_to_device lib dev (kv_v c) h1 = Ok (v, h2)"
    "(\<And>t. all_data (kv_v c) = Some t \<Longrightarrow> device_of lib t = dev) \<Longrightarrow> v = kv_v c \<and> h2 = h1"
    using sc_to_device_works [OF assms, of dev "kv_v c" h1] by metis
  show thesis using k v by (intro that [of "\<lparr>kv_k = k, kv_v = v\<rparr>" h2]) (auto simp: kv_to_device_def)
qed

lemma cache_to_works:
  assumes "to_device_law lib"
  shows "\<exists>cs' h'. cache_to lib dev cs h = Ok (cs', h') \<and> map (\<lambda>c. c = None) cs' = map (\<lambda>c. c = None) cs
     \<and> (is_ok (cache_device lib cs) \<longrightarrow> (\<exists>d. cache_device lib cs' = Ok d \<and> (d = None \<or> d = Some dev)))
     \<and> ((\<forall>c. Some c \<in> set cs \<longrightarrow> (\<forall>t \<in> set_option (all_data (kv_k c)) \<union> set_option (all_data (kv_v c)).
            device_of lib t = dev)) \<longrightarrow> cs' = cs \<and> h' = h)"
proof (induction cs arbitrary: h)
  case (Cons c cs)
  show ?case
  proof (cases c)
    case None
    then show ?thesis using Cons [of h] by auto
  next
    case (Some kv)
    obtain kv' h1 where kv': "kv_to_device lib dev kv h = Ok (kv', h1)"
      "all_data (kv_k kv') = None \<longleftrightarrow> all_data (kv_k kv) = None"
      "\<And>t. all_data (kv_k kv') = Some t \<Longrightarrow> device_of lib t = dev"
      "(\<And>t. t \<in> set_option (all_data (kv_k kv)) \<union> set_option (all_data (kv_v kv)) \<Longrightarrow> device_of lib t = dev) \<Longrightarrow> kv' = kv \<and> h1 = h"
      using kv_to_device_works [OF assms, of dev kv h] by metis
    obtain cs' h2 where cs': "cache_to lib dev cs h1 = Ok (cs', h2)" "map (\<lambda>c. c = None) cs' = map (\<lambda>c. c = None) cs"
      "(\<forall>c. Some c \<in> set cs \<longrightarrow> (\<forall>t \<in> set_option (all_data (kv_k c)) \<union> set_option (all_data (kv_v c)).
            device_of lib t = dev)) \<longrightarrow> cs' = cs \<and> h2 = h1"
      using Cons [of h1] by blast
    have "cache_to lib dev (c # cs) h = Ok (Some kv' # cs', h2)" using Some kv'(1) cs'(1) by simp
    moreover have "is_ok (cache_device lib (c # cs)) \<longrightarrow>
        (\<exists>d. cache_device lib (Some kv' # cs') = Ok d \<and> (d = None \<or> d = Some dev))"
      using Some kv'(2,3) by (auto split: option.splits)
    moreover have "(\<forall>x. Some x \<in> set (c # cs) \<longrightarrow> (\<forall>t \<in> set_option (all_data (kv_k x)) \<union> set_option (all_data (kv_v x)).
            device_of lib t = dev)) \<longrightarrow> Some kv' # cs' = c # cs \<and> h2 = h"
      using Some kv'(4) cs'(3) by auto
    ultimately show ?thesis using Some cs'(2) by auto
  qed
qed simp

section \<open>What a search finds\<close>

text \<open>
  C11. A search returns the cache of an entry that shares more tokens with the request than
  every other, cut to all but the last of the shared tokens, so that at least one token is
  left to run; it finds nothing exactly when no entry shares two tokens with the request.
\<close>

theorem search_finds_the_longest_prefix:
  assumes "to_device_law lib" and "\<not> no_prefix_cache pc" and "toks \<noteq> []"
  shows "\<exists>r h'. search_for_matching_cache lib toks False pc h = Ok (r, h')
     \<and> (case r of
          None \<Rightarrow> \<forall>e \<in> set (entries pc). \<not> shares_prefix 2 toks (fst e)
        | Some mc \<Rightarrow> 0 < mc_offset mc \<and> mc_toks mc = drop (mc_offset mc) toks \<and> mc_toks mc \<noteq> []
            \<and> (\<exists>e \<in> set (entries pc). shares_prefix (mc_offset mc + 1) toks (fst e)
                 \<and> map (\<lambda>c. c = None) (mc_normal mc) = map (\<lambda>c. c = None) (snd e))
            \<and> (\<forall>e \<in> set (entries pc). \<not> shares_prefix (mc_offset mc + 2) toks (fst e))
            \<and> (\<forall>c. Some c \<in> set (mc_normal mc) \<longrightarrow>
                 current_seq_len (kv_k c) = mc_offset mc \<and> current_seq_len (kv_v c) = mc_offset mc))"
proof -
  obtain m v where m: "longest_match toks (entries pc) (0, None) = (m, v)"
    by (cases "longest_match toks (entries pc) (0, None :: 'b kv_cache option list option)")
  note spec = longest_match_spec [OF m]
  show ?thesis
  proof (cases v)
    case None
    then have "m = 0" using spec by auto
    then show ?thesis using None m spec assms(2,3) by (simp add: search_for_matching_cache_def numeral_2_eq_2)
  next
    case (Some best)
    then obtain e where e: "e \<in> set (entries pc)" "best = snd e" "shares_prefix (Suc m) toks (fst e)" and "0 < m"
      using spec by auto
    obtain cs' h' where cs': "cache_to lib (pc_device pc) best h = Ok (cs', h')"
      "map (\<lambda>c. c = None) cs' = map (\<lambda>c. c = None) best"
      using cache_to_works [OF assms(1), of "pc_device pc" best h] by blast
    have len: "m < length toks" using e(3) by (simp add: shares_prefix_def)
    let ?mc = "\<lparr>mc_normal = map (map_option (kv_set_len m)) cs', mc_toks = drop m toks, mc_offset = m\<rparr>"
    have "search_for_matching_cache lib toks False pc h = Ok (Some ?mc, h')"
      using m Some cs'(1) len assms(2,3) by (simp add: search_for_matching_cache_def)
    moreover have "map (\<lambda>c. c = None) (mc_normal ?mc) = map (\<lambda>c. c = None) (snd e)"
      using cs'(2) e(2) by (simp add: comp_def)
    moreover have "current_seq_len (kv_k c) = m \<and> current_seq_len (kv_v c) = m" if "Some c \<in> set (mc_normal ?mc)" for c
    proof -
      from that obtain x where "Some c = map_option (kv_set_len m) x" by auto
      then obtain c' where "c = kv_set_len m c'" by (cases x) auto
      then show ?thesis by (simp add: kv_set_len_def sc_set_len_def)
    qed
    ultimately show ?thesis using e len spec \<open>0 < m\<close> by (intro exI [of _ "Some ?mc"] exI [of _ h']) auto
  qed
qed

theorem search_finds_the_longest_prefix_witness:
  "\<exists>r h'. search_for_matching_cache window_lib [1, 2, 3, 4] False
       \<lparr>entries = [([1, 2, 9], []), ([1, 2, 3], [None])], pc_device = 1, n_on_device = 1, no_prefix_cache = False\<rparr> []
     = Ok (Some r, h') \<and> mc_offset r = 2 \<and> mc_toks r = [3, 4]"
proof -
  let ?pc = "\<lparr>entries = [([1, 2, 9], []), ([1, 2, 3], [None :: window kv_cache option])], pc_device = 1,
    n_on_device = 1, no_prefix_cache = False\<rparr>"
  have "to_device_law window_lib" by (simp add: to_device_law_def window_lib_def window_new_def)
  from search_finds_the_longest_prefix [OF this, of ?pc "[1, 2, 3, 4]" "[]"]
  obtain r h' where r: "search_for_matching_cache window_lib [1, 2, 3, 4] False ?pc [] = Ok (r, h')" by auto
  then show ?thesis by (auto simp: search_for_matching_cache_def find_max_index_def)
qed

section \<open>What an eviction leaves\<close>

definition entry_on_device :: "('h, 't, 'e) tensor_lib \<Rightarrow> 't entry \<Rightarrow> bool" where
  "entry_on_device lib e = (case cache_device lib (snd e) of Inr d \<Rightarrow> on_device d | Inl _ \<Rightarrow> False)"

definition on_device_count :: "('h, 't, 'e) tensor_lib \<Rightarrow> 't entry list \<Rightarrow> nat" where
  "on_device_count lib es = length (filter (entry_on_device lib) es)"

lemma count_on_device_works:
  assumes "\<And>e. e \<in> set es \<Longrightarrow> is_ok (cache_device lib (snd e))"
  shows "count_on_device lib es = Ok (on_device_count lib es)"
proof -
  have "rfold (\<lambda>(_, c) n. rbind (cache_device lib c) (\<lambda>d. Ok (if on_device d then n + 1 else n))) es n
      = Ok (n + on_device_count lib es)" for n
    using assms
  proof (induction es arbitrary: n)
    case (Cons e es)
    obtain k c where e: "e = (k, c)" by (cases e)
    then obtain d where "cache_device lib c = Ok d" using Cons.prems [of e] by (auto simp: is_ok_iff)
    then show ?case using Cons e by (simp add: on_device_count_def entry_on_device_def)
  qed (simp add: on_device_count_def)
  then show ?thesis by (simp add: count_on_device_def)
qed

lemma evict_loop_works:
  assumes "to_device_law lib" and "\<And>e. e \<in> set es \<Longrightarrow> is_ok (cache_device lib (snd e))"
    and "n = evicted + on_device_count lib es"
  shows "\<exists>es' h'. evict_loop lib limit n evicted es h = Ok (es', h') \<and> map fst es' = map fst es
     \<and> on_device_count lib es' = (if limit \<le> on_device_count lib es then limit else 0)"
  using assms(2,3)
proof (induction es arbitrary: evicted h)
  case Nil
  then show ?case by (simp add: on_device_count_def)
next
  case (Cons e es)
  obtain k c where e: "e = (k, c)" by (cases e)
  then obtain d where d: "cache_device lib c = Ok d" using Cons.prems(1) [of e] by (auto simp: is_ok_iff)
  have ok: "\<And>x. x \<in> set es \<Longrightarrow> is_ok (cache_device lib (snd x))" using Cons.prems(1) by simp
  have left: "usub n evicted = Ok (on_device_count lib (e # es))" using Cons.prems(2) by simp
  show ?case
  proof (cases "on_device_count lib (e # es) = limit")
    case True
    then show ?thesis using left e by simp
  next
    case False
    show ?thesis
    proof (cases "on_device d")
      case True
      obtain c' h1 where c': "cache_to lib CPU c h = Ok (c', h1)"
        "\<exists>d. cache_device lib c' = Ok d \<and> (d = None \<or> d = Some CPU)"
        using cache_to_works [OF assms(1), of CPU c h] d by (auto simp: is_ok_iff)
      have count: "on_device_count lib (e # es) = Suc (on_device_count lib es)"
        using True d e by (simp add: on_device_count_def entry_on_device_def)
      obtain es' h' where es': "evict_loop lib limit n (evicted + 1) es h1 = Ok (es', h')" "map fst es' = map fst es"
        "on_device_count lib es' = (if limit \<le> on_device_count lib es then limit else 0)"
        using Cons.IH [OF ok, of "evicted + 1" h1] Cons.prems(2) count by auto
      have "evict_loop lib limit n evicted (e # es) h = Ok ((k, c') # es', h')"
        using left False True d e c'(1) es'(1) by simp
      moreover have "on_device_count lib ((k, c') # es') = on_device_count lib es'"
        using c'(2) by (auto simp: on_device_count_def entry_on_device_def on_device_def)
      ultimately show ?thesis using es'(2,3) count False e by auto
    next
      case no: False
      have count: "on_device_count lib ((k, c) # xs) = on_device_count lib xs" for xs
        using no d by (simp add: on_device_count_def entry_on_device_def)
      obtain es' h' where es': "evict_loop lib limit n evicted es h = Ok (es', h')" "map fst es' = map fst es"
        "on_device_count lib es' = (if limit \<le> on_device_count lib es then limit else 0)"
        using Cons.IH [OF ok, of evicted h] Cons.prems(2) count e by auto
      have "evict_loop lib limit n evicted (e # es) h = Ok ((k, c) # es', h')"
        using left False no d e es'(1) by simp
      then show ?thesis using es'(2,3) count e by auto
    qed
  qed
qed

text \<open>
  Evicting to the CPU leaves exactly the configured number of caches on the device when
  there are at least that many, and none at all when there are fewer: the loop only stops at
  equality, so that a cacher below its limit is emptied. The number it returns depends on the
  number of entries alone.
\<close>

theorem eviction_empties_a_cacher_below_its_limit:
  assumes "to_device_law lib" and "\<not> no_prefix_cache pc"
    and "\<forall>e \<in> set (entries pc). is_ok (cache_device lib (snd e))"
  shows "\<exists>pc' h'. evict_to_cpu lib pc h = Ok (length (entries pc) - n_on_device pc, pc', h')
     \<and> map fst (entries pc') = map fst (entries pc)
     \<and> on_device_count lib (entries pc')
         = (if n_on_device pc \<le> on_device_count lib (entries pc) then n_on_device pc else 0)"
proof -
  have ok: "\<And>e. e \<in> set (entries pc) \<Longrightarrow> is_ok (cache_device lib (snd e))" using assms(3) by blast
  obtain es' h' where es': "evict_loop lib (n_on_device pc) (on_device_count lib (entries pc)) 0 (entries pc) h = Ok (es', h')"
    "map fst es' = map fst (entries pc)"
    "on_device_count lib es' = (if n_on_device pc \<le> on_device_count lib (entries pc) then n_on_device pc else 0)"
    using evict_loop_works [where lib = lib and es = "entries pc" and evicted = 0 and limit = "n_on_device pc"
        and n = "on_device_count lib (entries pc)" and h = h] assms(1) ok by (metis add_0)
  have "length es' = length (entries pc)" using es'(2) by (metis length_map)
  then show ?thesis
    using assms(2) es' by (simp add: evict_to_cpu_def count_on_device_works [OF ok])
qed

section \<open>The storage of a cached prefix\<close>

text \<open>
  A cache on the device of the cacher is handed out as it is: after a search with a match
  of \<open>m\<close>, appending to the returned cache overwrites the stored entry from position \<open>m\<close> on,
  so that a later request for the whole entry finds the keys of another sequence.
\<close>

theorem a_match_writes_into_the_stored_cache:
  assumes "to_device_law lib" and "tensor_laws lib d"
    and "search_for_matching_cache lib toks False pc h = Ok (Some mc, h')"
    and "entries pc = [(key, [Some c])]" and "all_data (kv_k c) = Some t" and "all_data (kv_v c) = Some t'"
    and "device_of lib t = pc_device pc" and "device_of lib t' = pc_device pc"
    and "sc_dim (kv_k c) = d" and "live lib h t" and "is_contiguous lib t"
    and "dim_of lib t d = Ok (capacity_seq_len (kv_k c))"
    and "src_ok lib d (length (content lib d h t)) h src n" and "\<not> shares lib t src"
    and "mc_offset mc + n \<le> capacity_seq_len (kv_k c)"
  shows "\<exists>kv kc h''. mc_normal mc = [Some kv] \<and> h' = h \<and> sc_append lib src (kv_k kv) h = (Ok (), kc, h'')
     \<and> content lib d h'' t = map2 (overwrite (mc_offset mc)) (content lib d h t) (content lib d h src)"
proof -
  let ?m = "mc_offset mc"
  have same: "cache_to lib (pc_device pc) [Some c] h = Ok ([Some c], h)"
  proof -
    obtain cs' h1 where "cache_to lib (pc_device pc) [Some c] h = Ok (cs', h1)"
      "(\<forall>x. Some x \<in> set [Some c] \<longrightarrow> (\<forall>u \<in> set_option (all_data (kv_k x)) \<union> set_option (all_data (kv_v x)).
         device_of lib u = pc_device pc)) \<longrightarrow> cs' = [Some c] \<and> h1 = h"
      using cache_to_works [OF assms(1), of "pc_device pc" "[Some c]" h] by blast
    then show ?thesis using assms(5-8) by auto
  qed
  have mc: "mc_normal mc = [Some (kv_set_len ?m c)]" "h' = h"
    using assms(3,4) same
    by (auto simp: search_for_matching_cache_def res_simps split: if_splits prod.splits option.splits)
  have laws: "slice_set_law lib d" using assms(2) by (simp add: tensor_laws_def)
  have src: "live lib h src" "is_contiguous lib src" "dim_of lib src d = Ok n"
    "length (content lib d h t) = length (content lib d h src)" using assms(13) by (simp_all add: src_ok_def)
  obtain h'' where h'': "slice_set lib t src d ?m h = Ok h''"
    "content lib d h'' t = map2 (overwrite ?m) (content lib d h t) (content lib d h src)"
    using slice_setE [OF laws assms(10) src(1) assms(11) src(2) assms(14,12) src(3,4) assms(15)] by metis
  have "\<exists>kc. sc_append lib src (kv_k (kv_set_len ?m c)) h = (Ok (), kc, h'')"
    using h''(1) src(3) assms(5,9,15)
    by (simp add: sc_append_def sc_create_def sc_grow_def kv_set_len_def sc_set_len_def)
  then show ?thesis using mc h''(2) by auto
qed

text \<open>A layer whose keys and values are the window \<open>t\<close> of capacity 3, filled up to 3.\<close>

definition full_layer :: "window \<Rightarrow> window kv_cache" where
  "full_layer t = (let c = \<lparr>all_data = Some t, sc_dim = 2, current_seq_len = 3, capacity_seq_len = 3, max_seq_len = 3\<rparr>
     in \<lparr>kv_k = c, kv_v = c\<rparr>)"

definition row_of_3 :: "nat \<Rightarrow> window" where
  "row_of_3 dev = \<lparr>wd_addr = 0, wd_row = 0, wd_rows = 1, wd_col = 0, wd_cols = 3, wd_width = 3, wd_device = dev\<rparr>"

lemma window_to_device_law: "to_device_law window_lib"
  by (simp add: to_device_law_def window_lib_def window_new_def)

theorem eviction_empties_a_cacher_below_its_limit_witness:
  "\<exists>pc' h'. evict_to_cpu window_lib \<lparr>entries = [([1, 2, 3], [Some (full_layer (row_of_3 1))])], pc_device = 1,
       n_on_device = 16, no_prefix_cache = False\<rparr> [[[7, 8, 9]]] = Ok (0, pc', h')
     \<and> on_device_count window_lib (entries pc') = 0"
proof -
  let ?pc = "\<lparr>entries = [([1, 2, 3], [Some (full_layer (row_of_3 1))])], pc_device = 1, n_on_device = 16,
    no_prefix_cache = False\<rparr>"
  have "\<forall>e \<in> set (entries ?pc). is_ok (cache_device window_lib (snd e))"
    by (simp add: full_layer_def Let_def)
  moreover have "on_device_count window_lib (entries ?pc) < 16"
    by (simp add: on_device_count_def entry_on_device_def full_layer_def Let_def)
  ultimately show ?thesis
    using eviction_empties_a_cacher_below_its_limit [OF window_to_device_law, of ?pc "[[[7, 8, 9]]]"] by auto
qed

theorem a_match_writes_into_the_stored_cache_witness:
  "\<exists>mc kv kc h''. search_for_matching_cache window_lib [1, 2, 4] False
       \<lparr>entries = [([1, 2, 3], [Some (full_layer (row_of_3 1))])], pc_device = 1, n_on_device = 16, no_prefix_cache = False\<rparr>
       [[[7, 8, 9]], [[5]]] = Ok (Some mc, [[[7, 8, 9]], [[5]]])
     \<and> mc_normal mc = [Some kv] \<and> sc_append window_lib (one_row 1) (kv_k kv) [[[7, 8, 9]], [[5]]] = (Ok (), kc, h'')
     \<and> window_rows h'' (row_of_3 1) = [[7, 5, 9]]"
proof -
  let ?pc = "\<lparr>entries = [([1, 2, 3], [Some (full_layer (row_of_3 1))])], pc_device = 1, n_on_device = 16,
    no_prefix_cache = False\<rparr>"
  let ?h = "[[[7, 8, 9]], [[5 :: nat]]]"
  let ?mc = "\<lparr>mc_normal = [Some (kv_set_len 1 (full_layer (row_of_3 1)))], mc_toks = [2, 4], mc_offset = 1\<rparr>"
  have search: "search_for_matching_cache window_lib [1, 2, 4] False ?pc ?h = Ok (Some ?mc, ?h)"
    by (simp add: search_for_matching_cache_def find_max_index_def kv_to_device_def sc_to_device_def
        full_layer_def Let_def window_lib_def row_of_3_def expect_def)
  note r = a_match_writes_into_the_stored_cache [OF window_to_device_law window_laws [of 2] search,
      of "[1, 2, 3]" "full_layer (row_of_3 1)" "row_of_3 1" "row_of_3 1" "one_row 1" 1]
  have "\<exists>kv kc h''. mc_normal ?mc = [Some kv] \<and> ?h = ?h \<and> sc_append window_lib (one_row 1) (kv_k kv) ?h = (Ok (), kc, h'')
     \<and> content window_lib 2 h'' (row_of_3 1)
         = map2 (overwrite (mc_offset ?mc)) (content window_lib 2 ?h (row_of_3 1)) (content window_lib 2 ?h (one_row 1))"
    by (rule r) (simp_all add: full_layer_def Let_def row_of_3_def one_row_def window_live_def window_contiguous_def
        src_ok_def window_rows_def, simp_all add: window_lib_def)
  then have "\<exists>kv kc h''. mc_normal ?mc = [Some kv] \<and> sc_append window_lib (one_row 1) (kv_k kv) ?h = (Ok (), kc, h'')
     \<and> window_rows h'' (row_of_3 1) = [[7, 5, 9]]"
    by (simp add: window_rows_def row_of_3_def one_row_def overwrite_def numeral_3_eq_3)
  then show ?thesis using search by blast
qed

end
