(* ===== verification/State_Error.thy ===== *)
theory State_Error
  imports Prelude
begin

text \<open>
  Functions that change a state and may fail, with the state at the failure: an error that
  the caller handles leaves what was changed before it. \<open>sbind\<close> sequences two of them,
  \<open>sget\<close> reads, \<open>smod\<close> changes and \<open>slift\<close> runs a computation without the state.
\<close>

type_synonym ('s, 'a) sm = "'s \<Rightarrow> 'a res \<times> 's"

definition sret :: "'a \<Rightarrow> ('s, 'a) sm" where
  "sret x s = (Ok x, s)"

definition sbind :: "('s, 'a) sm \<Rightarrow> ('a \<Rightarrow> ('s, 'b) sm) \<Rightarrow> ('s, 'b) sm" where
  "sbind m f s = (case m s of (Inl e, s') \<Rightarrow> (Err e, s') | (Inr x, s') \<Rightarrow> f x s')"

definition sget :: "('s \<Rightarrow> 'a) \<Rightarrow> ('s, 'a) sm" where
  "sget f s = (Ok (f s), s)"

definition smod :: "('s \<Rightarrow> 's) \<Rightarrow> ('s, unit) sm" where
  "smod f s = (Ok (), f s)"

definition slift :: "'a res \<Rightarrow> ('s, 'a) sm" where
  "slift r s = (r, s)"

definition swhen :: "bool \<Rightarrow> ('s, unit) sm \<Rightarrow> ('s, unit) sm" where
  "swhen b m = (if b then m else sret ())"

fun seach :: "('x \<Rightarrow> ('s, unit) sm) \<Rightarrow> 'x list \<Rightarrow> ('s, unit) sm" where
  "seach f [] = sret ()"
| "seach f (x # xs) = sbind (f x) (\<lambda>_. seach f xs)"

named_theorems sm_simps \<open>running a computation on a state\<close>

lemma sret_run [sm_simps]: "sret x s = (Ok x, s)"
  by (simp add: sret_def)

lemma sget_run [sm_simps]: "sget f s = (Ok (f s), s)"
  by (simp add: sget_def)

lemma smod_run [sm_simps]: "smod f s = (Ok (), f s)"
  by (simp add: smod_def)

lemma slift_run [sm_simps]: "slift r s = (r, s)"
  by (simp add: slift_def)

lemma sbind_sret [sm_simps]: "sbind (sret x) f s = f x s"
  by (simp add: sbind_def sret_def)

lemma sbind_sget [sm_simps]: "sbind (sget g) f s = f (g s) s"
  by (simp add: sbind_def sget_def)

lemma sbind_smod [sm_simps]: "sbind (smod g) f s = f () (g s)"
  by (simp add: sbind_def smod_def)

lemma sbind_slift_Ok [sm_simps]: "sbind (slift (Ok x)) f s = f x s"
  by (simp add: sbind_def slift_def)

lemma sbind_slift_Err [sm_simps]: "sbind (slift (Err e)) f s = (Err e, s)"
  by (simp add: sbind_def slift_def)

lemma swhen_run [sm_simps]: "swhen True m s = m s" "swhen False m s = (Ok (), s)"
  by (simp_all add: swhen_def sret_def)

lemma sbind_swhen [sm_simps]: "sbind (swhen True m) f s = sbind m f s" "sbind (swhen False m) f s = f () s"
  by (simp_all add: swhen_def sbind_def sret_def)

lemma sbind_assoc [sm_simps]: "sbind (sbind m f) g = sbind m (\<lambda>x. sbind (f x) g)"
  by (auto simp: sbind_def fun_eq_iff split: prod.splits sum.splits)

lemma sbind_step: "m s = (Ok x, s') \<Longrightarrow> sbind m f s = f x s'"
  by (simp add: sbind_def)

lemma sbind_fail: "m s = (Err e, s') \<Longrightarrow> sbind m f s = (Err e, s')"
  by (simp add: sbind_def)

lemma sbind_eq_Ok:
  "sbind m f s = (Ok y, s'') \<longleftrightarrow> (\<exists>x s'. m s = (Ok x, s') \<and> f x s' = (Ok y, s''))"
  by (auto simp: sbind_def split: prod.splits sum.splits)

lemma sbindE:
  assumes "sbind m f s = (Ok y, s'')"
  obtains x s' where "m s = (Ok x, s')" and "f x s' = (Ok y, s'')"
  using assms unfolding sbind_eq_Ok by blast

lemma seach_append: "seach f (xs @ ys) = sbind (seach f xs) (\<lambda>_. seach f ys)"
proof (induction xs)
  case Nil
  show ?case by (rule ext) (simp add: sbind_sret)
next
  case (Cons x xs)
  then show ?case by (simp add: sbind_assoc)
qed

text \<open>\<open>keeps_inv P\<close>: the computation keeps \<open>P\<close>, also when it fails.\<close>

definition keeps_inv :: "('s \<Rightarrow> bool) \<Rightarrow> ('s, 'a) sm \<Rightarrow> bool" where
  "keeps_inv P m \<longleftrightarrow> (\<forall>s. P s \<longrightarrow> P (snd (m s)))"

named_theorems inv_intros \<open>computations that keep an invariant\<close>

lemma keeps_inv_sret [inv_intros]: "keeps_inv P (sret x)"
  and keeps_inv_sget [inv_intros]: "keeps_inv P (sget f)"
  and keeps_inv_slift [inv_intros]: "keeps_inv P (slift r)"
  by (simp_all add: keeps_inv_def sm_simps)

lemma keeps_inv_smod [inv_intros]: "(\<And>s. P s \<Longrightarrow> P (f s)) \<Longrightarrow> keeps_inv P (smod f)"
  by (simp add: keeps_inv_def sm_simps)

lemma keeps_inv_sbind [inv_intros]:
  assumes "keeps_inv P m" and "\<And>x. keeps_inv P (f x)"
  shows "keeps_inv P (sbind m f)"
  unfolding keeps_inv_def
proof (intro allI impI)
  fix s assume "P s"
  obtain r s' where r: "m s = (r, s')" by (cases "m s")
  then have "P s'" using assms(1) \<open>P s\<close> unfolding keeps_inv_def by (metis snd_conv)
  then show "P (snd (sbind m f s))"
    using r assms(2) by (cases r) (auto simp: sbind_def keeps_inv_def)
qed

lemma keeps_inv_swhen [inv_intros]: "keeps_inv P m \<Longrightarrow> keeps_inv P (swhen b m)"
  by (simp add: swhen_def keeps_inv_sret)

lemma keeps_inv_seach [inv_intros]: "(\<And>x. keeps_inv P (f x)) \<Longrightarrow> keeps_inv P (seach f xs)"
  by (induction xs) (simp_all add: inv_intros)

end
