(* ===== verification/Sampling.thy ===== *)
theory Sampling
  imports Sampler Prefix_Cache State_Error
begin

text \<open>
  What happens to a sequence after a step of the model
  (\<^verbatim>\<open>mistralrs-core/src/pipeline/sampling.rs\<close>, and the error handling of
  \<^verbatim>\<open>mistralrs-core/src/utils/mod.rs\<close>): the next token is sampled, under the constraint of a
  grammar when there is one, the sequence takes it, stops or goes on, and its client is sent
  the text.

  The state is a batch: sequences by number, the group each belongs to, its key-value cache,
  the prefix cache, and what was sent to whom. The futures of a batch are run in order. The
  lemmas show what a stopped sequence reports, and where a stop is overlooked.
\<close>

section \<open>The batch\<close>

record ('f, 't, 'h) batch =
  bt_seqs :: "nat \<Rightarrow> 'f sequence"
  bt_group_of :: "nat \<Rightarrow> nat"
  bt_groups :: "nat \<Rightarrow> 'f sequence_group"
  bt_normal_cache :: "nat \<Rightarrow> 't kv_cache option list"
  bt_cacher :: "'t prefix_cacher"
  bt_heap :: 'h
  bt_out :: "(nat \<times> response) list"
  bt_resets :: nat

text \<open>
  What the functions read of the pipeline and its surroundings: the metadata, the token trie,
  the tokenizer, the clock, and which clients still listen. \<open>bt_resets\<close> counts the calls of
  \<^verbatim>\<open>reset_non_granular_state\<close>.
\<close>

record ('t, 'h, 'e, 'v) pipeline =
  pl_max_seq_len :: nat
  pl_trie_decode :: "(nat \<Rightarrow> byte list) option"
  pl_tokenizer :: "(nat list \<Rightarrow> rstring res) option"
  pl_eos_tok :: "nat list"
  pl_json :: "'v serde_json"
  pl_uuid :: "nat \<Rightarrow> rstring"
  pl_find :: "byte list \<Rightarrow> byte list \<Rightarrow> nat option"
  pl_tensors :: "('h, 't, 'e) tensor_lib"
  pl_order :: "'t entry list \<Rightarrow> 't entry list"
  pl_now :: nat
  pl_connected :: "nat \<Rightarrow> bool"

definition the_seq :: "nat \<Rightarrow> ('f, 't, 'h) batch \<Rightarrow> 'f sequence" where
  "the_seq i b = bt_seqs b i"

definition the_group :: "nat \<Rightarrow> ('f, 't, 'h) batch \<Rightarrow> 'f sequence_group" where
  "the_group i b = bt_groups b (bt_group_of b i)"

definition put_seq :: "nat \<Rightarrow> 'f sequence \<Rightarrow> ('f, 't, 'h) batch \<Rightarrow> ('f, 't, 'h) batch" where
  "put_seq i s b = b\<lparr>bt_seqs := (bt_seqs b)(i := s)\<rparr>"

definition put_group :: "nat \<Rightarrow> 'f sequence_group \<Rightarrow> ('f, 't, 'h) batch \<Rightarrow> ('f, 't, 'h) batch" where
  "put_group i g b = b\<lparr>bt_groups := (bt_groups b)(bt_group_of b i := g)\<rparr>"

definition send :: "nat \<Rightarrow> response list \<Rightarrow> ('f, 't, 'h) batch \<Rightarrow> ('f, 't, 'h) batch" where
  "send i rs b = b\<lparr>bt_out := bt_out b @ map (Pair i) rs\<rparr>"

definition change_state :: "nat \<Rightarrow> sequence_state \<Rightarrow> (('f, 't, 'h) batch, unit) sm" where
  "change_state i st =
     sbind (sget (\<lambda>b. set_state st (the_seq i b) (the_group i b))) (\<lambda>r.
     sbind (slift r) (\<lambda>(s, g). smod (\<lambda>b. put_group i g (put_seq i s b))))"

definition reset_non_granular_state :: "(('f, 't, 'h) batch, unit) sm" where
  "reset_non_granular_state = smod (\<lambda>b. b\<lparr>bt_resets := bt_resets b + 1\<rparr>)"

text \<open>\<^verbatim>\<open>prefix_cacher.add_sequence(seq); prefix_cacher.evict_to_cpu()?\<close>.\<close>

definition keep_prefix :: "('t, 'h, 'e, 'v) pipeline \<Rightarrow> bool \<Rightarrow> nat \<Rightarrow> (('f, 't, 'h) batch, unit) sm" where
  "keep_prefix pl use i =
     swhen use
       (sbind (smod (\<lambda>b. b\<lparr>bt_cacher := add_sequence (pl_order pl) (get_toks (the_seq i b)) (bt_normal_cache b i) (bt_cacher b)\<rparr>)) (\<lambda>_.
        sbind (sget (\<lambda>b. evict_to_cpu (pl_tensors pl) (bt_cacher b) (bt_heap b))) (\<lambda>r.
        sbind (slift r) (\<lambda>(_, pc, h). smod (\<lambda>b. b\<lparr>bt_cacher := pc, bt_heap := h\<rparr>)))))"

text \<open>\<^verbatim>\<open>handle_seq_error_ok!\<close> and \<^verbatim>\<open>handle_seq_error_stateaware_ok!\<close> up to their \<^verbatim>\<open>return\<close>.\<close>

definition internal_error :: "('t, 'h, 'e, 'v) pipeline \<Rightarrow> nat \<Rightarrow> (('f, 't, 'h) batch, unit) sm" where
  "internal_error pl i =
     sbind (slift (rassert (pl_connected pl i) ''Expected receiver.'')) (\<lambda>_. smod (send i [InternalError]))"

definition internal_error_stateaware :: "('t, 'h, 'e, 'v) pipeline \<Rightarrow> nat \<Rightarrow> (('f, 't, 'h) batch, unit) sm" where
  "internal_error_stateaware pl i = sbind (internal_error pl i) (\<lambda>_. change_state i SeqError)"

section \<open>Streaming\<close>

definition tool_status :: "'v serde_json \<Rightarrow> 'f sequence \<Rightarrow> (bool \<times> bool) res" where
  "tool_status js s =
     (case tools s of None \<Rightarrow> Ok (False, False)
      | Some t \<Rightarrow> rbind (peek_delta s) (\<lambda>d.
          Ok (case d of None \<Rightarrow> (False, False) | Some txt \<Rightarrow> prefix_could_be_tool js t txt)))"

definition unwrap_top_logprobs :: "'f sequence \<Rightarrow> 'f logprobs \<Rightarrow> unit res" where
  "unwrap_top_logprobs s lp =
     (if return_logprobs s then rbind (unwrap (top_logprobs lp)) (\<lambda>_. Ok ()) else Ok ())"

text \<open>The chunk of a step; it returns the stop reason, which a tool call sets.\<close>

definition add_chunk :: "('t, 'h, 'e, 'v) pipeline \<Rightarrow> nat \<Rightarrow> 'f logprobs \<Rightarrow> rstring \<Rightarrow> stop_reason option
    \<Rightarrow> (('f, 't, 'h) batch, stop_reason option) sm" where
  "add_chunk pl i lp delta stop =
     sbind (sget (the_seq i)) (\<lambda>s. sbind (sget (the_group i)) (\<lambda>g.
     if is_chat g then
       sbind (slift (parse_text_tools (pl_json pl) (pl_uuid pl) delta (tools s))) (\<lambda>(text_new, calls).
       let stop = (if calls \<noteq> [] \<and> stop = None then Some Eos else stop)
       in sbind (slift (unwrap_top_logprobs s lp)) (\<lambda>_.
          sbind (slift (add_streaming_chunk_choice_to_group (pl_now pl)
            \<lparr>ck_finish_reason = map_option stop_reason_fmt stop, ck_index = response_index s,
             ck_content = text_new, ck_tool_calls = calls\<rparr> s g)) (\<lambda>g.
          sbind (smod (put_group i g)) (\<lambda>_. sret stop))))
     else
       sbind (slift (unwrap_top_logprobs s lp)) (\<lambda>_.
       sbind (smod (put_group i (add_streaming_completion_chunk_choice_to_group
         \<lparr>cck_finish_reason = map_option stop_reason_fmt stop, cck_index = response_index s, cck_text = delta\<rparr> g)))
         (\<lambda>_. sret stop))))"

definition take_usage :: "nat \<Rightarrow> stop_reason option \<Rightarrow> (('f, 't, 'h) batch, unit) sm" where
  "take_usage i stop =
     swhen (stop \<noteq> None)
       (sbind (sget (the_group i)) (\<lambda>g.
        sbind (slift (get_usage g)) (\<lambda>_. smod (put_group i (g\<lparr>total_prompt_toks := 0, total_toks := 0\<rparr>)))))"

definition send_chunks :: "('t, 'h, 'e, 'v) pipeline \<Rightarrow> nat \<Rightarrow> (('f, 't, 'h) batch, unit) sm" where
  "send_chunks pl i =
     sbind (sget (the_group i)) (\<lambda>g.
     let (rs, g) = maybe_send_streaming_response g
     in sbind (smod (put_group i g)) (\<lambda>_.
        if rs = [] \<or> pl_connected pl i then smod (send i rs)
        else sbind (change_state i (Done Canceled)) (\<lambda>_. reset_non_granular_state)))"

definition stream_step :: "('t, 'h, 'e, 'v) pipeline \<Rightarrow> bool \<Rightarrow> nat \<Rightarrow> 'f logprobs \<Rightarrow> stop_reason option
    \<Rightarrow> (('f, 't, 'h) batch, unit) sm" where
  "stream_step pl use i lp stop =
     sbind (sget (the_seq i)) (\<lambda>s.
     sbind (slift (tool_status (pl_json pl) s)) (\<lambda>(possible, finished).
     swhen (\<not> possible \<or> finished)
       (sbind (slift (get_delta s)) (\<lambda>(delta, s).
        sbind (smod (put_seq i s)) (\<lambda>_.
        case delta of None \<Rightarrow> sret ()
        | Some delta \<Rightarrow>
            sbind (add_chunk pl i lp delta stop) (\<lambda>stop.
            sbind (case stop of None \<Rightarrow> sret ()
                   | Some reason \<Rightarrow> sbind (keep_prefix pl use i) (\<lambda>_.
                                    sbind (change_state i (Done reason)) (\<lambda>_. reset_non_granular_state))) (\<lambda>_.
            sbind (take_usage i stop) (\<lambda>_. send_chunks pl i))))))))"

section \<open>Finishing\<close>

text \<open>The tokens of the reported log-probabilities are decoded one by one; a failure ends the step.\<close>

fun report_logprobs :: "(nat list \<Rightarrow> rstring res) option \<Rightarrow> 'f logprobs list \<Rightarrow> bool res" where
  "report_logprobs tok [] = Ok True"
| "report_logprobs tok (lp # lps) =
     (case tok of
        None \<Rightarrow> Err (Bail ''`finish_or_add_toks_to_seq` requires the pipeline to have a tokenizer'')
      | Some decode \<Rightarrow>
          (case decode [lp_token lp] of Inl (Panic m) \<Rightarrow> Err (Panic m) | Inl (Bail _) \<Rightarrow> Ok False
           | Inr _ \<Rightarrow> rbind (unwrap (top_logprobs lp)) (\<lambda>_. report_logprobs tok lps)))"

definition final_text :: "stop_reason \<Rightarrow> byte list \<Rightarrow> rstring res" where
  "final_text reason bytes =
     (case reason of
        StopString _ pos \<Rightarrow> rbind (str_slice_to (utf8_lossy bytes) pos) (\<lambda>t. Ok (trim_start t))
      | GeneratedImage \<Rightarrow> Err (Bail ''Stop reason was `GeneratedImage`.'')
      | _ \<Rightarrow> Ok (trim_start (utf8_lossy bytes)))"

definition add_final_choice :: "('t, 'h, 'e, 'v) pipeline \<Rightarrow> nat \<Rightarrow> stop_reason \<Rightarrow> rstring
    \<Rightarrow> (('f, 't, 'h) batch, unit) sm" where
  "add_final_choice pl i reason txt =
     sbind (sget (the_seq i)) (\<lambda>s. sbind (sget (the_group i)) (\<lambda>g.
     if is_chat g then
       sbind (slift (parse_text_tools (pl_json pl) (pl_uuid pl) txt (tools s))) (\<lambda>(text_new, calls).
       sbind (slift (add_choice_to_group (pl_now pl)
         \<lparr>ch_finish_reason = stop_reason_fmt reason, ch_index = response_index s, ch_content = text_new,
          ch_tool_calls = calls\<rparr> s g)) (\<lambda>g. smod (put_group i g)))
     else
       sbind (slift (add_completion_choice_to_group (pl_now pl)
         \<lparr>cc_finish_reason = stop_reason_fmt reason, cc_index = response_index s, cc_text = txt\<rparr> s g))
         (\<lambda>g. smod (put_group i g))))"

definition send_done :: "('t, 'h, 'e, 'v) pipeline \<Rightarrow> nat \<Rightarrow> (('f::linorder, 't, 'h) batch, unit) sm" where
  "send_done pl i =
     sbind (sget (the_group i)) (\<lambda>g.
     sbind (slift (get_usage g)) (\<lambda>_.
     let rs = (if is_chat g then maybe_send_chat_done_response g else maybe_send_completion_done_response g)
     in if rs = [] \<or> pl_connected pl i then smod (send i rs)
        else slift (Err (Bail ''channel closed''))))"

definition finish_now :: "('t, 'h, 'e, 'v) pipeline \<Rightarrow> bool \<Rightarrow> nat \<Rightarrow> stop_reason
    \<Rightarrow> (('f::linorder, 't, 'h) batch, unit) sm" where
  "finish_now pl use i reason =
     sbind (change_state i (Done reason)) (\<lambda>_.
     sbind (sget (the_seq i)) (\<lambda>s.
     sbind (slift (if return_logprobs s then report_logprobs (pl_tokenizer pl) (seq_logprobs s) else Ok True)) (\<lambda>ok.
     if \<not> ok then internal_error pl i
     else sbind (slift (final_text reason (completion_bytes s))) (\<lambda>txt.
          sbind (add_final_choice pl i reason txt) (\<lambda>_.
          sbind (keep_prefix pl use i) (\<lambda>_.
          sbind (send_done pl i) (\<lambda>_. reset_non_granular_state)))))))"

definition finish_or_add_toks_to_seq :: "('t, 'h, 'e, 'v) pipeline \<Rightarrow> nat \<Rightarrow> 'f logprobs \<Rightarrow> nat list option \<Rightarrow> bool
    \<Rightarrow> (('f::{linorder,plus}, 't, 'h) batch, unit) sm" where
  "finish_or_add_toks_to_seq pl i lp eos use =
     sbind (sget (the_seq i)) (\<lambda>s.
     let stop = is_done (pl_find pl) (lp_token lp) eos (pl_max_seq_len pl) s
     in sbind (slift (case pl_trie_decode pl of
                 None \<Rightarrow> Err (Bail ''`finish_or_add_toks_to_seq` requires the pipeline to have a token trie'')
               | Some decode \<Rightarrow> add_token lp (decode (lp_token lp)) stop s)) (\<lambda>s.
        sbind (smod (put_seq i s)) (\<lambda>_.
        sbind (sget (the_group i)) (\<lambda>g.
        if is_streaming g then stream_step pl use i lp stop
        else case stop of None \<Rightarrow> sret () | Some reason \<Rightarrow> finish_now pl use i reason))))"

section \<open>Sampling a batch\<close>

text \<open>
  The grammar library: a mask of allowed tokens or the order to stop, and the step after a
  token. \<open>None\<close> as a recognizer is \<^verbatim>\<open>SequenceRecognizer::None\<close>.
\<close>

record 'g llguidance =
  lg_compute_mask :: "'g \<Rightarrow> ((nat \<Rightarrow> bool) option \<times> bool) res \<times> 'g"
  lg_eos_token :: "'g \<Rightarrow> nat"
  lg_commit_token :: "nat \<Rightarrow> 'g \<Rightarrow> unit res \<times> 'g"

definition mask_bias :: "'f \<Rightarrow> 'f::zero \<Rightarrow> nat \<Rightarrow> (nat \<Rightarrow> bool) \<Rightarrow> 'f list" where
  "mask_bias neg_inf z n allowed = map (\<lambda>t. if allowed t then z else neg_inf) [0..<n]"

definition bias_if_not_allowed :: "'g llguidance \<Rightarrow> 'f::zero \<Rightarrow> nat \<Rightarrow> nat \<Rightarrow> 'g option
    \<Rightarrow> 'f list option res \<times> 'g option" where
  "bias_if_not_allowed lg neg_inf n tok rec =
     (case rec of None \<Rightarrow> (Ok None, None)
      | Some g \<Rightarrow>
          (case lg_compute_mask lg g of (Inl e, g) \<Rightarrow> (Err e, Some g)
           | (Inr (Some allowed, _), g) \<Rightarrow>
               (Ok (if allowed tok then None else Some (mask_bias neg_inf 0 n allowed)), Some g)
           | (Inr (None, True), g) \<Rightarrow>
               (if lg_eos_token lg g < n then Ok (Some (mask_bias neg_inf 0 n (\<lambda>t. t = lg_eos_token lg g)))
                else Err (Panic ''index out of bounds''), Some g)
           | (Inr (None, False), g) \<Rightarrow> (Ok None, Some g)))"

definition sample_sequence :: "('f, 'r) sampler_env \<Rightarrow> 'g llguidance \<Rightarrow> 'f \<Rightarrow> 'f sampler \<Rightarrow> bool \<Rightarrow> bool
    \<Rightarrow> 'f::{linorder,zero,one,plus,minus,times} list \<Rightarrow> 'f sequence \<Rightarrow> ('g option \<times> 'r, 'f logprobs) sm" where
  "sample_sequence env lg neg_inf sampler add_to_trie speculative logits s =
     sbind (sget (\<lambda>(rec, rng). sample env sampler logits (get_toks s) (return_logprobs s) rng speculative)) (\<lambda>r.
     sbind (slift r) (\<lambda>(first, rng).
     sbind (smod (\<lambda>(rec, _). (rec, rng))) (\<lambda>_.
     sbind (sget (\<lambda>(rec, rng). bias_if_not_allowed lg neg_inf (length logits) (lp_token first) rec)) (\<lambda>(bias, rec).
     sbind (smod (\<lambda>(_, rng). (rec, rng))) (\<lambda>_.
     sbind (slift bias) (\<lambda>bias.
     sbind (case bias of None \<Rightarrow> sret first
            | Some acc \<Rightarrow>
                sbind (sget (\<lambda>(rec, rng). sample env sampler (map2 (+) logits acc) (get_toks s) (return_logprobs s) rng speculative)) (\<lambda>r.
                sbind (slift r) (\<lambda>(second, rng). sbind (smod (\<lambda>(rec, _). (rec, rng))) (\<lambda>_. sret second)))) (\<lambda>result.
     if add_to_trie then
       sbind (sget fst) (\<lambda>rec.
       case rec of None \<Rightarrow> sret result
       | Some g \<Rightarrow> let (r, g) = lg_commit_token lg (lp_token result) g
                  in sbind (smod (\<lambda>(_, rng). (Some g, rng))) (\<lambda>_. sbind (slift r) (\<lambda>_. sret result)))
     else sret result)))))))"

text \<open>\<open>sampled\<close> are the results of the futures, in the order of the sequences.\<close>

fun add_sampled :: "('t, 'h, 'e, 'v) pipeline \<Rightarrow> bool \<Rightarrow> ('f logprobs res \<times> nat) list
    \<Rightarrow> (('f::{linorder,plus}, 't, 'h) batch, unit) sm" where
  "add_sampled pl disable_eos_stop [] = sret ()"
| "add_sampled pl disable_eos_stop ((r, i) # rest) =
     (case r of Inl (Panic m) \<Rightarrow> slift (Err (Panic m))
      | Inl (Bail _) \<Rightarrow> internal_error_stateaware pl i
      | Inr lp \<Rightarrow>
          sbind (finish_or_add_toks_to_seq pl i lp (if disable_eos_stop then None else Some (pl_eos_tok pl)) True)
            (\<lambda>_. add_sampled pl disable_eos_stop rest))"

text \<open>\<^verbatim>\<open>chunk(n_toks, 1)\<close> of the logits, each sampled without changing the sequence.\<close>

fun sample_target_sequence_speculative :: "('f, 'r) sampler_env \<Rightarrow> 'g llguidance \<Rightarrow> 'f \<Rightarrow> 'f sampler
    \<Rightarrow> 'f::{linorder,zero,one,plus,minus,times} list list \<Rightarrow> 'f sequence \<Rightarrow> ('g option \<times> 'r, 'f logprobs list) sm" where
  "sample_target_sequence_speculative env lg neg_inf sampler [] s = sret []"
| "sample_target_sequence_speculative env lg neg_inf sampler (part # parts) s =
     sbind (sample_sequence env lg neg_inf sampler False True part s) (\<lambda>lp.
     sbind (sample_target_sequence_speculative env lg neg_inf sampler parts s) (\<lambda>lps. sret (lp # lps)))"
section \<open>What the parts leave alone\<close>

lemma the_seq_simps [simp]:
  "the_seq i (put_group j g b) = the_seq i b"
  "the_seq i (put_seq j s b) = (if i = j then s else the_seq i b)"
  "the_seq i (send j rs b) = the_seq i b"
  "the_seq i (b\<lparr>bt_cacher := pc, bt_heap := h\<rparr>) = the_seq i b"
  "the_seq i (b\<lparr>bt_cacher := pc\<rparr>) = the_seq i b"
  "the_seq i (b\<lparr>bt_resets := n\<rparr>) = the_seq i b"
  by (simp_all add: the_seq_def put_group_def put_seq_def send_def)

lemma the_group_simps [simp]:
  "the_group i (put_group i g b) = g"
  "the_group i (put_seq j s b) = the_group i b"
  "the_group i (send j rs b) = the_group i b"
  "the_group i (b\<lparr>bt_cacher := pc, bt_heap := h\<rparr>) = the_group i b"
  "the_group i (b\<lparr>bt_cacher := pc\<rparr>) = the_group i b"
  "the_group i (b\<lparr>bt_resets := n\<rparr>) = the_group i b"
  by (simp_all add: the_group_def put_group_def put_seq_def send_def)

lemma bt_out_simps [simp]:
  "bt_out (put_group i g b) = bt_out b" "bt_out (put_seq i s b) = bt_out b"
  "bt_out (send i rs b) = bt_out b @ map (Pair i) rs"
  by (simp_all add: put_group_def put_seq_def send_def)

text \<open>\<open>seq_is Q i\<close>: the sequence \<open>i\<close> satisfies \<open>Q\<close>, which only its own operations can change.\<close>

definition seq_is :: "('f sequence \<Rightarrow> bool) \<Rightarrow> nat \<Rightarrow> ('f, 't, 'h) batch \<Rightarrow> bool" where
  "seq_is Q i b \<longleftrightarrow> Q (the_seq i b)"

lemma keep_prefix_seq_is [inv_intros]: "keeps_inv (seq_is Q i) (keep_prefix pl use j)"
  unfolding keep_prefix_def
  by (intro inv_intros) (auto simp: seq_is_def split_def intro!: inv_intros)

lemma internal_error_seq_is [inv_intros]: "keeps_inv (seq_is Q i) (internal_error pl j)"
  unfolding internal_error_def by (intro inv_intros) (simp add: seq_is_def)

lemma add_final_choice_seq_is [inv_intros]: "keeps_inv (seq_is Q i) (add_final_choice pl j reason txt)"
  unfolding add_final_choice_def
  by (intro inv_intros) (auto simp: seq_is_def split_def intro!: inv_intros)

lemma send_done_seq_is [inv_intros]: "keeps_inv (seq_is Q i) (send_done pl j)"
  unfolding send_done_def Let_def
  by (intro inv_intros) (auto simp: seq_is_def intro!: inv_intros)

lemma reset_seq_is [inv_intros]: "keeps_inv (seq_is Q i) reset_non_granular_state"
  unfolding reset_non_granular_state_def by (intro inv_intros) (simp add: seq_is_def)

lemma change_state_works:
  assumes "st \<noteq> SeqError"
  shows "change_state i st b = (Ok (), put_group i (the_group i b) (put_seq i ((the_seq i b)\<lparr>state := st\<rparr>) b))"
  using assms by (simp add: change_state_def sm_simps set_state_def)

lemma keeps_invD: "keeps_inv P m \<Longrightarrow> P s \<Longrightarrow> P (snd (m s))"
  by (simp add: keeps_inv_def)

lemma finish_now_state:
  assumes "finish_now pl use i reason b = (r, b')"
  shows "the_seq i b' = (the_seq i b)\<lparr>state := Done reason\<rparr>"
proof -
  let ?s = "(the_seq i b)\<lparr>state := Done reason\<rparr>"
  let ?rest = "sbind (sget (the_seq i)) (\<lambda>s.
     sbind (slift (if return_logprobs s then report_logprobs (pl_tokenizer pl) (seq_logprobs s) else Ok True)) (\<lambda>ok.
     if \<not> ok then internal_error pl i
     else sbind (slift (final_text reason (completion_bytes s))) (\<lambda>txt.
          sbind (add_final_choice pl i reason txt) (\<lambda>_.
          sbind (keep_prefix pl use i) (\<lambda>_.
          sbind (send_done pl i) (\<lambda>_. reset_non_granular_state))))))"
  let ?b = "put_group i (the_group i b) (put_seq i ?s b)"
  have "keeps_inv (seq_is (\<lambda>s. s = ?s) i) ?rest"
    by (intro inv_intros) (auto intro!: inv_intros)
  then have "seq_is (\<lambda>s. s = ?s) i (snd (?rest ?b))"
    by (rule keeps_invD) (simp add: seq_is_def)
  moreover have "finish_now pl use i reason b = ?rest ?b"
    unfolding finish_now_def by (rule sbind_step [OF change_state_works]) simp
  ultimately have "seq_is (\<lambda>s. s = ?s) i (snd (finish_now pl use i reason b))" by (simp only:)
  then show ?thesis unfolding assms seq_is_def snd_conv .
qed

section \<open>Stopping\<close>

lemma find_stop_string_not_length: "find_stop_string f bytes k ss \<noteq> Some (StopLength m)"
  by (induction ss arbitrary: k) (auto split: option.splits)

text \<open>What a step does once the sequence has its token.\<close>

lemma finish_or_add_toks_run:
  assumes "pl_trie_decode pl = Some decode"
    and "add_token lp (decode (lp_token lp)) (is_done (pl_find pl) (lp_token lp) eos (pl_max_seq_len pl) (the_seq i b))
           (the_seq i b) = Ok s1"
  shows "finish_or_add_toks_to_seq pl i lp eos use b =
    (if is_streaming (the_group i b)
     then stream_step pl use i lp (is_done (pl_find pl) (lp_token lp) eos (pl_max_seq_len pl) (the_seq i b)) (put_seq i s1 b)
     else case is_done (pl_find pl) (lp_token lp) eos (pl_max_seq_len pl) (the_seq i b) of
            None \<Rightarrow> (Ok (), put_seq i s1 b) | Some reason \<Rightarrow> finish_now pl use i reason (put_seq i s1 b))"
  using assms by (simp add: finish_or_add_toks_to_seq_def Let_def sm_simps split: option.split)

lemma finish_or_add_toks_takes_token:
  assumes "finish_or_add_toks_to_seq pl i lp eos use b = (Ok (), b')"
  obtains decode s1 where "pl_trie_decode pl = Some decode"
    and "add_token lp (decode (lp_token lp)) (is_done (pl_find pl) (lp_token lp) eos (pl_max_seq_len pl) (the_seq i b))
           (the_seq i b) = Ok s1"
proof -
  let ?stop = "is_done (pl_find pl) (lp_token lp) eos (pl_max_seq_len pl) (the_seq i b)"
  let ?r = "case pl_trie_decode pl of
              None \<Rightarrow> Err (Bail ''`finish_or_add_toks_to_seq` requires the pipeline to have a token trie'')
            | Some decode \<Rightarrow> add_token lp (decode (lp_token lp)) ?stop (the_seq i b)"
  have "\<exists>s1. ?r = Ok s1"
  proof (rule ccontr)
    assume "\<nexists>s1. ?r = Ok s1"
    then obtain e where "?r = Err e" by (cases ?r) auto
    with assms show False by (simp add: finish_or_add_toks_to_seq_def Let_def sm_simps)
  qed
  then show thesis using that by (auto split: option.splits)
qed

lemma add_token_tokens: "add_token lp bytes stop s = Ok s1 \<Longrightarrow> tokens s1 = tokens s @ [lp_token lp]"
  by (auto simp: add_token_def res_simps reset_prefill_toks_def)

text \<open>
  A sequence that stops at its maximal length has generated one token more than the
  maximum: the length is compared before the token is added.
\<close>

theorem length_stop_has_one_token_more:
  assumes "finish_or_add_toks_to_seq pl i lp eos use b = (Ok (), b')"
    and "\<not> is_streaming (the_group i b)" and "prompt_len (the_seq i b) \<le> length (tokens (the_seq i b))"
    and "is_done (pl_find pl) (lp_token lp) eos (pl_max_seq_len pl) (the_seq i b) = Some (StopLength m)"
  shows "max_len (the_seq i b) = Some m \<and> state (the_seq i b') = Done (StopLength m)
     \<and> length (tokens (the_seq i b')) = prompt_len (the_seq i b) + m + 1"
proof -
  let ?s = "the_seq i b"
  have len: "max_len ?s = Some m" "length (tokens ?s) - prompt_len ?s = m"
    using assms(4) find_stop_string_not_length
    by (auto simp: is_done_def split: if_splits option.splits)
  obtain decode s1 where d: "pl_trie_decode pl = Some decode"
    "add_token lp (decode (lp_token lp)) (is_done (pl_find pl) (lp_token lp) eos (pl_max_seq_len pl) ?s) ?s = Ok s1"
    by (rule finish_or_add_toks_takes_token [OF assms(1)])
  have "finish_now pl use i (StopLength m) (put_seq i s1 b) = (Ok (), b')"
    using finish_or_add_toks_run [OF d] assms by simp
  from finish_now_state [OF this] add_token_tokens [OF d(2)]
  have "length (tokens (the_seq i b')) = length (tokens ?s) + 1" "state (the_seq i b') = Done (StopLength m)"
    by simp_all
  then show ?thesis using len assms(3) by simp
qed

lemma is_done_length:
  assumes "is_done gs_find tok eos ml s = Some (StopLength m)"
  shows "max_len s = Some m" and "length (tokens s) - prompt_len s = m"
  using assms find_stop_string_not_length by (auto simp: is_done_def split: if_splits option.splits)

text \<open>A streaming sequence whose text ends in a cut character: there is no delta to send.\<close>

lemma no_delta:
  assumes "tools s = None" and "stream_idx s \<le> length (completion_bytes s)"
    and "drop (stream_idx s) (completion_bytes s) \<noteq> []"
    and "last (utf8_lossy (drop (stream_idx s) (completion_bytes s))) = replacement_char"
  shows "get_delta s = Ok (None, s)" and "tool_status js s = Ok (False, False)"
proof -
  have "utf8_lossy (drop (stream_idx s) (completion_bytes s)) \<noteq> []"
    using assms(3) by (cases "drop (stream_idx s) (completion_bytes s)") simp_all
  then show "get_delta s = Ok (None, s)"
    using assms(2,4) by (simp add: get_delta_def peek_delta_def slice_from_def Let_def)
  show "tool_status js s = Ok (False, False)"
    using assms(1) by (simp add: tool_status_def)
qed

lemma stream_step_no_delta:
  assumes "tools (the_seq i b) = None" and "get_delta (the_seq i b) = Ok (None, the_seq i b)"
  shows "\<exists>b'. stream_step pl use i lp stop b = (Ok (), b') \<and> the_seq i b' = the_seq i b \<and> bt_out b' = bt_out b"
  using assms by (simp add: stream_step_def tool_status_def sm_simps put_seq_def the_seq_def)

text \<open>
  A streaming sequence that reaches its maximal length with a token that ends in the middle
  of a character does not stop: nothing is sent, its state stays what it was, and as the length
  is compared for equality it can never again stop for its length.
\<close>

theorem length_stop_is_lost_in_a_character:
  assumes "pl_trie_decode pl = Some decode" and "is_streaming (the_group i b)"
    and "tools (the_seq i b) = None" and "seq_wf (the_seq i b)" and "prompt_len (the_seq i b) \<le> length (tokens (the_seq i b))"
    and "is_done (pl_find pl) (lp_token lp) eos (pl_max_seq_len pl) (the_seq i b) = Some (StopLength m)"
    and "stream_idx (the_seq i b) \<le> length (completion_bytes (the_seq i b))" and "decode (lp_token lp) \<noteq> []"
    and "last (utf8_lossy (drop (stream_idx (the_seq i b)) (completion_bytes (the_seq i b) @ decode (lp_token lp))))
           = replacement_char"
  shows "\<exists>b'. finish_or_add_toks_to_seq pl i lp eos use b = (Ok (), b') \<and> bt_out b' = bt_out b
     \<and> state (the_seq i b') = state (the_seq i b) \<and> tokens (the_seq i b') = tokens (the_seq i b) @ [lp_token lp]
     \<and> (\<forall>toks tok eos n. is_done (pl_find pl) tok eos (pl_max_seq_len pl)
           ((the_seq i b')\<lparr>tokens := tokens (the_seq i b') @ toks\<rparr>) \<noteq> Some (StopLength n))"
proof -
  let ?s = "the_seq i b"
  obtain s1 where s1: "add_token lp (decode (lp_token lp)) (Some (StopLength m)) ?s = Ok s1"
    "tokens s1 = tokens ?s @ [lp_token lp]" "prompt_len s1 = prompt_len ?s" "max_len s1 = max_len ?s"
    "state s1 = state ?s" "stream_idx s1 = stream_idx ?s"
    "completion_bytes s1 = completion_bytes ?s @ decode (lp_token lp)"
    by (rule add_token_wf [OF assms(4), of lp "decode (lp_token lp)" "Some (StopLength m)"])
      (simp add: stopped_by_token_def)
  have tools: "tools s1 = None"
    using s1(1) assms(3) by (auto simp: add_token_def res_simps reset_prefill_toks_def)
  have "get_delta s1 = Ok (None, s1)"
    by (rule no_delta(1) [OF tools]) (use assms(7-9) s1 in simp_all)
  with tools obtain b' where b': "stream_step pl use i lp (Some (StopLength m)) (put_seq i s1 b) = (Ok (), b')"
    "the_seq i b' = s1" "bt_out b' = bt_out b"
    using stream_step_no_delta [of i "put_seq i s1 b" pl use lp "Some (StopLength m)"] by auto
  have run: "finish_or_add_toks_to_seq pl i lp eos use b = (Ok (), b')"
    using finish_or_add_toks_run [of pl decode lp eos i b s1 use] assms(1,2,6) s1(1) b'(1) by simp
  have "is_done (pl_find pl) tok eos (pl_max_seq_len pl) (s1\<lparr>tokens := tokens s1 @ toks\<rparr>) \<noteq> Some (StopLength n)"
    for toks tok eos n
  proof
    assume "is_done (pl_find pl) tok eos (pl_max_seq_len pl) (s1\<lparr>tokens := tokens s1 @ toks\<rparr>) = Some (StopLength n)"
    from is_done_length [OF this] is_done_length [OF assms(6)] show False
      using s1(2-4) assms(5) by simp
  qed
  with run b' s1 show ?thesis by auto
qed

section \<open>The text of a stopped sequence\<close>

text \<open>
  A sequence that stopped at a stop string reports the text before it, when its bytes are
  valid UTF-8. The position counts the generated bytes while the text it is applied to was decoded
  lossily, so one invalid byte before the stop string makes the step panic.
\<close>

theorem stop_string_cuts_the_text:
  "((\<forall>c \<in> set (s @ t). is_scalar c) \<longrightarrow>
      final_text (StopString k (length (utf8_encode s))) (utf8_encode (s @ t)) = Ok (trim_start s))
   \<and> panics (final_text (StopString k 2) [255, 97, 83])"
proof (intro conjI impI)
  assume "\<forall>c \<in> set (s @ t). is_scalar c"
  then show "final_text (StopString k (length (utf8_encode s))) (utf8_encode (s @ t)) = Ok (trim_start s)"
    by (simp add: final_text_def utf8_lossy_encode str_slice_to_prefix)
next
  show "panics (final_text (StopString k 2) [255, 97, 83])"
    by (simp add: final_text_def replacement_char_def utf8_char_def numeral_2_eq_2)
qed

section \<open>One failure in a batch\<close>

text \<open>
  When sampling fails for one sequence, its client gets an error and the sequence leaves its
  group, but the step ends there: the tokens that were sampled for the sequences after it in the
  batch are dropped, and nothing tells their clients.
\<close>

theorem a_failed_sample_ends_the_step:
  assumes "pl_connected pl i" and "0 < n_choices (the_group i b)"
  shows "add_sampled pl d (good @ (Err (Bail e), i) # rest) = add_sampled pl d (good @ [(Err (Bail e), i)])
     \<and> (\<exists>b'. add_sampled pl d ((Err (Bail e), i) # rest) b = (Ok (), b')
         \<and> bt_out b' = bt_out b @ [(i, InternalError)] \<and> state (the_seq i b') = SeqError
         \<and> n_choices (the_group i b') = n_choices (the_group i b) - 1
         \<and> (\<forall>j. j \<noteq> i \<longrightarrow> the_seq j b' = the_seq j b))"
proof
  show "add_sampled pl d (good @ (Err (Bail e), i) # rest) = add_sampled pl d (good @ [(Err (Bail e), i)])"
    by (induction good) (auto split: sum.splits)
  show "\<exists>b'. add_sampled pl d ((Err (Bail e), i) # rest) b = (Ok (), b')
         \<and> bt_out b' = bt_out b @ [(i, InternalError)] \<and> state (the_seq i b') = SeqError
         \<and> n_choices (the_group i b') = n_choices (the_group i b) - 1
         \<and> (\<forall>j. j \<noteq> i \<longrightarrow> the_seq j b' = the_seq j b)"
    using assms
    by (simp add: internal_error_stateaware_def internal_error_def change_state_def sm_simps
        set_state_def usub_def rassert_def put_group_def put_seq_def send_def the_seq_def the_group_def)
qed

section \<open>The answer\<close>

lemma keep_prefix_run:
  assumes "evict_to_cpu (pl_tensors pl)
      (add_sequence (pl_order pl) (get_toks (the_seq i b)) (bt_normal_cache b i) (bt_cacher b)) (bt_heap b) = Ok (n, pc, h)"
  shows "keep_prefix pl use i b = (Ok (), if use then b\<lparr>bt_cacher := pc, bt_heap := h\<rparr> else b)"
  using assms by (simp add: keep_prefix_def swhen_def sm_simps the_seq_def)

lemma cacher_simps [simp]:
  "bt_normal_cache (put_group i g b) = bt_normal_cache b" "bt_normal_cache (put_seq i s b) = bt_normal_cache b"
  "bt_cacher (put_group i g b) = bt_cacher b" "bt_cacher (put_seq i s b) = bt_cacher b"
  "bt_heap (put_group i g b) = bt_heap b" "bt_heap (put_seq i s b) = bt_heap b"
  by (simp_all add: put_group_def put_seq_def)

lemma group_after_completion:
  assumes "prompt_timestamp s = None" and "timestamp s \<le> now" and "seq_len s = Ok n"
  obtains g' where "add_completion_choice_to_group now c s g = Ok g'"
    and "completion_choices g' = completion_choices g @ [(cumulative_logprob s,
           c\<lparr>cc_text := (case prefix_text s of None \<Rightarrow> [] | Some t \<Rightarrow> t) @ cc_text c
             @ (case suffix_text s of None \<Rightarrow> [] | Some t \<Rightarrow> t)\<rparr>)]"
    and "total_toks g' = n" and "total_prompt_toks g' = prompt_len s" and "is_chat g' = is_chat g"
    and "n_choices g' = n_choices g" and "best_of g' = best_of g"
  using assms by (simp add: add_completion_choice_to_group_def update_time_info_def usub_def Let_def)


section \<open>Witnesses\<close>

definition a_pipeline :: "(window, nat list list list, nat, unit) pipeline" where
  "a_pipeline = \<lparr>pl_max_seq_len = 100, pl_trie_decode = Some (\<lambda>t. [t]), pl_tokenizer = None, pl_eos_tok = [0],
     pl_json = toy_json, pl_uuid = (\<lambda>_. []), pl_find = (\<lambda>_ _. None), pl_tensors = window_lib, pl_order = (\<lambda>es. es),
     pl_now = 20, pl_connected = (\<lambda>_. True)\<rparr>"

definition a_batch :: "nat sequence \<Rightarrow> nat sequence_group \<Rightarrow> (nat, window, nat list list list) batch" where
  "a_batch s g = \<lparr>bt_seqs = (\<lambda>_. s), bt_group_of = (\<lambda>_. 0), bt_groups = (\<lambda>_. g), bt_normal_cache = (\<lambda>_. []),
     bt_cacher = \<lparr>entries = [], pc_device = 1, n_on_device = 1, no_prefix_cache = True\<rparr>, bt_heap = [],
     bt_out = [], bt_resets = 0\<rparr>"

definition token_logprob :: "nat \<Rightarrow> nat logprobs" where
  "token_logprob t = \<lparr>lp_token = t, lp_logprob = 0, lp_bytes = None, top_logprobs = None\<rparr>"

lemma a_batch_simps [simp]:
  "the_seq i (a_batch s g) = s" "the_group i (a_batch s g) = g" "bt_out (a_batch s g) = []"
  by (simp_all add: a_batch_def the_seq_def the_group_def)

lemma a_pipeline_simps [simp]:
  "pl_max_seq_len a_pipeline = 100" "pl_trie_decode a_pipeline = Some (\<lambda>t. [t])" "pl_connected a_pipeline i"
  "pl_find a_pipeline = (\<lambda>_ _. None)" "pl_now a_pipeline = 20"
  by (simp_all add: a_pipeline_def)

lemma token_logprob_simps [simp]: "lp_token (token_logprob t) = t" "lp_logprob (token_logprob t) = 0"
  by (simp_all add: token_logprob_def)

lemma plain_sequence_rest [simp]:
  "cache plain_sequence = [None, None]" "xlora_cache plain_sequence = None" "tools plain_sequence = None"
  "return_logprobs plain_sequence = False" "prompt_timestamp plain_sequence = None" "timestamp plain_sequence = 10"
  "response_index plain_sequence = 0" "prefix_text plain_sequence = None" "suffix_text plain_sequence = None"
  "is_tmp plain_sequence = False"
  by (simp_all add: plain_sequence_def new_waiting_def a_request_def numeral_2_eq_2)

lemma plain_sequence_wf:
  "seq_metadata s = NoMetadata \<Longrightarrow> seq_wf s"
  by (simp add: seq_wf_def)

lemma group_new_rest [simp]:
  "is_streaming (group_new n st ch bo) = st" "is_chat (group_new n st ch bo) = ch" "best_of (group_new n st ch bo) = bo"
  "n_choices (group_new n st ch bo) = n" "completion_choices (group_new n st ch bo) = []"
  by (simp_all add: group_new_def)

lemma a_batch_evicts:
  "\<exists>n pc h. evict_to_cpu lib (add_sequence order toks c (bt_cacher (a_batch s g))) heap = Ok (n, pc, h)"
  by (simp add: a_batch_def add_sequence_def evict_to_cpu_def)


lemma a_token_is_taken:
  "append_token_to_blocks NoMetadata t = Ok NoMetadata"
  using append_tokens_NoMetadata [of "[t]"] by (simp add: append_tokens_single)

theorem length_stop_has_one_token_more_witness:
  "\<exists>b'. finish_or_add_toks_to_seq a_pipeline 1 (token_logprob 5) None False
       (a_batch (plain_sequence\<lparr>max_len := Some 0\<rparr>) (group_new 2 False False None)) = (Ok (), b')
     \<and> length (tokens (the_seq 1 b')) = 3 + 0 + 1"
proof -
  let ?s = "plain_sequence\<lparr>max_len := Some 0\<rparr>"
  let ?b = "a_batch ?s (group_new 2 False False None)"
  have stop: "is_done (pl_find a_pipeline) 5 None (pl_max_seq_len a_pipeline) ?s = Some (StopLength 0)"
    by (simp add: is_done_def)
  obtain b' where b': "finish_or_add_toks_to_seq a_pipeline 1 (token_logprob 5) None False ?b = (Ok (), b')"
    using stop by (auto simp: finish_or_add_toks_to_seq_def finish_now_def Let_def sm_simps
        add_token_def a_token_is_taken reset_prefill_toks_def change_state_def set_state_def final_text_def
        add_final_choice_def add_completion_choice_to_group_def update_time_info_def seq_len_def keep_prefix_def
        send_done_def get_usage_def maybe_send_completion_done_response_def reset_non_granular_state_def group_new_def)
  from length_stop_has_one_token_more [OF b'] stop b' show ?thesis by auto
qed

theorem length_stop_is_lost_in_a_character_witness:
  "\<exists>b'. finish_or_add_toks_to_seq a_pipeline 1 (token_logprob 226) None False
       (a_batch (plain_sequence\<lparr>max_len := Some 0\<rparr>) (group_new 1 True False None)) = (Ok (), b')
     \<and> bt_out b' = [] \<and> state (the_seq 1 b') = Waiting"
proof -
  let ?s = "plain_sequence\<lparr>max_len := Some 0\<rparr>"
  have "is_done (pl_find a_pipeline) 226 None (pl_max_seq_len a_pipeline) ?s = Some (StopLength 0)"
    by (simp add: is_done_def)
  then show ?thesis
    using length_stop_is_lost_in_a_character [of a_pipeline "\<lambda>t. [t]" 1 "a_batch ?s (group_new 1 True False None)"
        "token_logprob 226" None 0 False, OF _ _ _ plain_sequence_wf]
    by auto
qed

theorem a_failed_sample_ends_the_step_witness:
  "\<exists>b'. add_sampled a_pipeline False [(Err (Bail ''sampling''), 1), (Ok (token_logprob 5), 2)]
       (a_batch plain_sequence (group_new 2 False False None)) = (Ok (), b')
     \<and> bt_out b' = [(1, InternalError)] \<and> the_seq 2 b' = plain_sequence"
  using a_failed_sample_ends_the_step [of a_pipeline 1 "a_batch plain_sequence (group_new 2 False False None)" False "[]"
      "''sampling''" "[(Ok (token_logprob 5), 2)]"]
  by (auto simp: a_pipeline_def)

theorem stop_string_cuts_the_text_witness:
  "final_text (StopString 0 3) (utf8_encode ([8364] @ [97])) = Ok (trim_start [8364])"
  using stop_string_cuts_the_text [of "[8364]" "[97]" 0] by (simp add: is_scalar_def utf8_encode_def utf8_char_def numeral_3_eq_3)

end
