(* ===== verification/Default_Scheduler.thy ===== *)
theory Default_Scheduler
  imports Seq Scheduler_Trait "HOL-Library.AList"
begin

text \<open>
  The default scheduler (\<^verbatim>\<open>mistralrs-core/src/scheduler/default_scheduler.rs\<close>): sequences are
  put into buckets of equal length, adapters and offset, and one bucket runs at a time.

  Two things the source leaves open are parameters: the order in which a \<^verbatim>\<open>HashMap\<close> is
  iterated (\<open>ord\<close>, some permutation of the entries), and the floating point operations of a
  priority (\<open>to_f64\<close> and \<open>log2\<close>, into an ordered type with addition). The lemmas show that
  bucketing loses no sequence and that what runs together is alike.
\<close>

section \<open>Buckets\<close>

type_synonym bucket_key = "string list option \<times> nat \<times> bool \<times> nat"
type_synonym 'f buckets = "(bucket_key \<times> 'f sequence list) list"
type_synonym 'p priorities = "(bucket_key \<times> 'p) list"

definition bucket_key :: "'f sequence \<Rightarrow> bucket_key res" where
  "bucket_key s = rbind (seq_len s) (\<lambda>n.
     Ok (adapters s, n, has_input_images s \<and> is_prompt s, token_offset s))"

record 'p f64_ops =
  to_f64 :: "nat \<Rightarrow> 'p"
  log2 :: "'p \<Rightarrow> 'p"

definition compute_priority :: "'p::plus f64_ops \<Rightarrow> 'f sequence \<Rightarrow> 'p res" where
  "compute_priority fl s = rbind (seq_len s) (\<lambda>n.
     Ok (to_f64 fl (scheduling_urgency s) + log2 fl (to_f64 fl n)))"

definition bucket_step :: "'p::plus f64_ops \<Rightarrow> bool \<Rightarrow> 'f sequence \<Rightarrow> 'f buckets \<times> 'p priorities
    \<Rightarrow> ('f buckets \<times> 'p priorities) res" where
  "bucket_step fl discrete s bp =
     (let (buckets, prios) = bp
      in rbind (bucket_key s) (\<lambda>k.
         case map_of buckets k of
           Some bucket \<Rightarrow>
             rbind (if discrete then Ok prios
                    else rbind (unwrap (map_of prios k)) (\<lambda>q.
                         rbind (compute_priority fl s) (\<lambda>p. Ok (AList.update k (q + p) prios)))) (\<lambda>prios'.
             Ok (AList.update k (bucket @ [s]) buckets, prios'))
         | None \<Rightarrow>
             rbind (if discrete then Ok prios
                    else rbind (compute_priority fl s) (\<lambda>p. Ok (AList.update k p prios))) (\<lambda>prios'.
             Ok (AList.update k [s] buckets, prios'))))"

text \<open>\<^verbatim>\<open>min_by_key\<close> gives the first minimum, \<^verbatim>\<open>max_by\<close> the last maximum.\<close>

fun min_by_length :: "bucket_key list \<Rightarrow> bucket_key option" where
  "min_by_length [] = None"
| "min_by_length (k # ks) =
     (case min_by_length ks of
        None \<Rightarrow> Some k
      | Some k' \<Rightarrow> if fst (snd k) \<le> fst (snd k') then Some k else Some k')"

fun max_by_priority :: "(bucket_key \<times> 'p::linorder) list \<Rightarrow> bucket_key option" where
  "max_by_priority [] = None"
| "max_by_priority (x # xs) =
     (case max_by_priority xs of
        None \<Rightarrow> Some (fst x)
      | Some k \<Rightarrow> if the (map_of xs k) < snd x then Some (fst x) else Some k)"

record hash_order =
  ord_keys :: "bucket_key list \<Rightarrow> bucket_key list"

definition entries_in_order :: "hash_order \<Rightarrow> (bucket_key \<times> 'a) list \<Rightarrow> (bucket_key \<times> 'a) list" where
  "entries_in_order h m = map (\<lambda>k. (k, the (map_of m k))) (ord_keys h (map fst m))"

definition bucket_and_waitlist_seqs_waiting ::
    "hash_order \<Rightarrow> 'p::{linorder,plus} f64_ops \<Rightarrow> 'f sequence list \<Rightarrow> 'f sequence list \<Rightarrow> bool
     \<Rightarrow> ('f sequence list \<times> 'f sequence list) res" where
  "bucket_and_waitlist_seqs_waiting h fl running waiting discrete =
     rbind (rfold (bucket_step fl discrete) running ([], [])) (\<lambda>(buckets, prios).
     if length buckets \<le> 1 then
       Ok (map reset_urgency (concat (map snd (entries_in_order h buckets))), waiting)
     else
       rbind (unwrap (min_by_length (ord_keys h (map fst buckets)))) (\<lambda>min_key.
       let key = (if discrete then min_key
                  else case max_by_priority (entries_in_order h prios) of
                         Some k \<Rightarrow> k | None \<Rightarrow> min_key)
       in rbind (unwrap (map_of buckets key)) (\<lambda>highest.
          Ok (map reset_urgency highest,
              waiting @ map add_urgency (concat (map snd (entries_in_order h (AList.delete key buckets))))))))"

section \<open>The scheduler\<close>

record 'f default_scheduler =
  dwaiting :: "'f sequence list"
  drunning :: "'f sequence list"
  fixed_method :: nat

record 'f default_output =
  completion :: "'f sequence list"
  prompt :: "'f sequence list"

definition default_scheduler_new :: "nat \<Rightarrow> 'f default_scheduler" where
  "default_scheduler_new n = \<lparr>dwaiting = [], drunning = [], fixed_method = n\<rparr>"

definition sequence_fits :: "nat \<Rightarrow> 'f sequence list \<Rightarrow> bool" where
  "sequence_fits n running = (length running + 1 \<le> n)"

text \<open>The loop that admits waiting sequences while there is room.\<close>

fun admit_waiting :: "nat \<Rightarrow> 'f sequence list \<Rightarrow> 'f sequence list \<Rightarrow> 'f sequence list
    \<Rightarrow> 'f sequence list \<times> 'f sequence list" where
  "admit_waiting n [] running left_waiting = (running, left_waiting)"
| "admit_waiting n (s # ss) running left_waiting =
     (if sequence_fits n running
      then admit_waiting n ss
             (running @ [if is_waiting s then s\<lparr>state := RunningPrompt\<rparr> else s]) left_waiting
      else admit_waiting n ss running (left_waiting @ [s]))"

definition set_all_states :: "sequence_state \<Rightarrow> 'f sequence list \<Rightarrow> 'f sequence list" where
  "set_all_states st = map (\<lambda>s. s\<lparr>state := st\<rparr>)"

text \<open>\<open>terminate\<close> is the flag \<^verbatim>\<open>TERMINATE_ALL_NEXT_STEP\<close>; the result has its new value.\<close>

definition default_schedule :: "hash_order \<Rightarrow> 'p::{linorder,plus} f64_ops \<Rightarrow> bool \<Rightarrow> 'f default_scheduler
    \<Rightarrow> ('f default_output \<times> bool \<times> 'f default_scheduler) res" where
  "default_schedule h fl terminate sch =
     (let running = filter is_running (drunning sch);
          waiting = dwaiting sch
      in if waiting = [] \<and> running = [] then
           Ok (\<lparr>completion = [], prompt = []\<rparr>, terminate, sch\<lparr>drunning := [], dwaiting := []\<rparr>)
         else if running = [] then
           rbind (bucket_and_waitlist_seqs_waiting h fl (set_all_states RunningPrompt waiting) [] True)
             (\<lambda>(run, wait).
           Ok (\<lparr>completion = [], prompt = run\<rparr>, terminate, sch\<lparr>drunning := run, dwaiting := wait\<rparr>))
         else if waiting = [] then
           rbind (bucket_and_waitlist_seqs_waiting h fl running [] True) (\<lambda>(run, wait).
           let run = (if terminate then set_all_states (Done Canceled) run else run)
           in Ok (\<lparr>completion = run, prompt = []\<rparr>, False, sch\<lparr>drunning := run, dwaiting := wait\<rparr>))
         else
           let (running, left_waiting) = admit_waiting (fixed_method sch) (sort_key seq_id waiting) running []
           in rbind (bucket_and_waitlist_seqs_waiting h fl running left_waiting False) (\<lambda>(run, wait).
              Ok (\<lparr>completion = filter is_completion run, prompt = filter (\<lambda>s. \<not> is_completion s) run\<rparr>,
                  terminate, sch\<lparr>drunning := run, dwaiting := wait\<rparr>)))"

definition default_add_seq :: "'f sequence \<Rightarrow> 'f default_scheduler \<Rightarrow> 'f default_scheduler" where
  "default_add_seq s sch =
     (if is_running s then sch\<lparr>drunning := drunning sch @ [s]\<rparr> else sch\<lparr>dwaiting := dwaiting sch @ [s]\<rparr>)"

section \<open>Bucketing\<close>

definition hash_ok :: "hash_order \<Rightarrow> bool" where
  "hash_ok h \<longleftrightarrow> (\<forall>ks. mset (ord_keys h ks) = mset ks)"

definition bucket_inv :: "bool \<Rightarrow> 'f sequence list \<Rightarrow> 'f buckets \<times> 'p priorities \<Rightarrow> bool" where
  "bucket_inv discrete done bp \<longleftrightarrow>
     distinct (map fst (fst bp)) \<and>
     mset (concat (map snd (fst bp))) = mset done \<and>
     (\<forall>x \<in> set (fst bp). snd x \<noteq> [] \<and> (\<forall>s \<in> set (snd x). bucket_key s = Ok (fst x))) \<and>
     (if discrete then snd bp = [] else distinct (map fst (snd bp)) \<and> dom (map_of (snd bp)) = dom (map_of (fst bp)))"

lemma set_update_new:
  "map_of m k = None \<Longrightarrow> AList.update k v m = m @ [(k, v)]"
  by (induction m) (auto split: if_splits)

lemma mset_update_old:
  "distinct (map fst m) \<Longrightarrow> map_of m k = Some v
   \<Longrightarrow> add_mset (k, v) (mset (AList.update k w m)) = add_mset (k, w) (mset m)"
  by (induction m) (auto simp: add_mset_commute split: if_splits)

lemma mset_concat_snd: "mset (concat (map snd m)) = (\<Sum>x \<in># mset m. mset (snd x))"
  by (induction m) auto

lemma in_update_old:
  "distinct (map fst m) \<Longrightarrow> map_of m k = Some v \<Longrightarrow> x \<in> set (AList.update k w m)
   \<Longrightarrow> x = (k, w) \<or> x \<in> set m"
  by (induction m) (auto split: if_splits)

lemma mset_delete:
  "distinct (map fst m) \<Longrightarrow> map_of m k = Some v \<Longrightarrow> add_mset (k, v) (mset (AList.delete k m)) = mset m"
proof (induction m)
  case (Cons x m)
  have "AList.delete k m = m" if "k \<notin> fst ` set m" 
    using that by (force simp: AList.delete_eq filter_id_conv)
  with Cons show ?case by (cases "fst x = k") (auto simp: AList.delete_eq add_mset_commute)
qed simp

lemma bucket_step_inv:
  assumes inv: "bucket_inv discrete done bp" and len: "is_ok (seq_len s)"
  shows "\<exists>bp'. bucket_step fl discrete s bp = Ok bp' \<and> bucket_inv discrete (done @ [s]) bp'"
proof -
  obtain buckets prios where bp: "bp = (buckets, prios)" by (cases bp)
  obtain n where n: "seq_len s = Ok n" using len by (auto simp: is_ok_iff)
  then obtain k where k: "bucket_key s = Ok k" by (simp add: bucket_key_def)
  obtain p where p: "compute_priority fl s = Ok p" using n by (simp add: compute_priority_def)
  have d: "distinct (map fst buckets)" and m: "mset (concat (map snd buckets)) = mset done"
    and keys: "\<forall>x \<in> set buckets. snd x \<noteq> [] \<and> (\<forall>s \<in> set (snd x). bucket_key s = Ok (fst x))"
    and pr: "if discrete then prios = [] else distinct (map fst prios) \<and> dom (map_of prios) = dom (map_of buckets)"
    using inv unfolding bucket_inv_def bp fst_conv snd_conv by blast+
  show ?thesis
  proof (cases "map_of buckets k")
    case None
    let ?prios = "if discrete then prios else AList.update k p prios"
    have "bucket_step fl discrete s bp = Ok (AList.update k [s] buckets, ?prios)"
      using None k p by (simp add: bucket_step_def bp)
    moreover have "\<forall>x \<in> set (AList.update k [s] buckets).
        snd x \<noteq> [] \<and> (\<forall>s \<in> set (snd x). bucket_key s = Ok (fst x))"
      unfolding set_update_new [OF None] using keys k by simp
    moreover have "mset (concat (map snd (AList.update k [s] buckets))) = mset (done @ [s])"
      unfolding set_update_new [OF None] using m by simp
    moreover have "if discrete then ?prios = [] else distinct (map fst ?prios)
        \<and> dom (map_of ?prios) = dom (map_of (AList.update k [s] buckets))"
      using pr by (auto simp: distinct_update dom_update update_conv')
    ultimately have "bucket_step fl discrete s bp = Ok (AList.update k [s] buckets, ?prios)"
      "bucket_inv discrete (done @ [s]) (AList.update k [s] buckets, ?prios)"
      using distinct_update [OF d, of k "[s]"] unfolding bucket_inv_def fst_conv snd_conv by blast+
    then show ?thesis by blast
  next
    case (Some b)
    have "\<exists>q. map_of prios k = Some q" if "\<not> discrete"
    proof -
      have "dom (map_of prios) = dom (map_of buckets)" using pr that by simp
      then have "k \<in> dom (map_of prios)" using Some by blast
      then show ?thesis by blast
    qed
    then obtain q where q: "\<not> discrete \<Longrightarrow> map_of prios k = Some q" by blast
    let ?prios = "if discrete then prios else AList.update k (q + p) prios"
    have "bucket_step fl discrete s bp = Ok (AList.update k (b @ [s]) buckets, ?prios)"
      using Some k p q by (cases discrete) (simp_all add: bucket_step_def bp)
    moreover have "mset (concat (map snd (AList.update k (b @ [s]) buckets))) = mset (done @ [s])"
    proof -
      have "mset b + (\<Sum>x \<in># mset (AList.update k (b @ [s]) buckets). mset (snd x))
          = mset (b @ [s]) + (\<Sum>x \<in># mset buckets. mset (snd x))"
        using arg_cong [OF mset_update_old [OF d Some, of "b @ [s]"], of "\<lambda>M. \<Sum>x \<in># M. mset (snd x)"]
        by simp
      then show ?thesis using m by (simp add: mset_concat_snd)
    qed
    moreover have "\<forall>x \<in> set (AList.update k (b @ [s]) buckets).
        snd x \<noteq> [] \<and> (\<forall>s \<in> set (snd x). bucket_key s = Ok (fst x))"
      using in_update_old [OF d Some] keys map_of_SomeD [OF Some] k by fastforce
    moreover have "if discrete then ?prios = [] else distinct (map fst ?prios)
        \<and> dom (map_of ?prios) = dom (map_of (AList.update k (b @ [s]) buckets))"
      using pr by (auto simp: distinct_update dom_update update_conv')
    ultimately have "bucket_step fl discrete s bp = Ok (AList.update k (b @ [s]) buckets, ?prios)"
      "bucket_inv discrete (done @ [s]) (AList.update k (b @ [s]) buckets, ?prios)"
      using distinct_update [OF d, of k "b @ [s]"] unfolding bucket_inv_def fst_conv snd_conv by blast+
    then show ?thesis by blast
  qed
qed

lemma bucket_fold_inv:
  assumes "bucket_inv discrete done bp" and "\<forall>s \<in> set ss. is_ok (seq_len s)"
  shows "\<exists>bp'. rfold (bucket_step fl discrete) ss bp = Ok bp' \<and> bucket_inv discrete (done @ ss) bp'"
  using assms
proof (induction ss arbitrary: bp "done")
  case (Cons s ss)
  from bucket_step_inv [OF Cons.prems(1), of s fl] Cons.prems(2) obtain bp1 where
    1: "bucket_step fl discrete s bp = Ok bp1" "bucket_inv discrete (done @ [s]) bp1" by auto
  from Cons.IH [OF 1(2)] Cons.prems(2) 1(1) show ?case by auto
qed auto

lemma mset_entries:
  assumes "hash_ok h" and "distinct (map fst m)"
  shows "mset (entries_in_order h m) = mset m"
proof -
  have "map (\<lambda>k. (k, the (map_of m k))) (map fst m) = m"
    unfolding map_map by (rule map_idI) (use assms(2) in auto)
  moreover have "mset (entries_in_order h m) = mset (map (\<lambda>k. (k, the (map_of m k))) (map fst m))"
    using assms(1) by (simp add: entries_in_order_def hash_ok_def multiset.map_comp comp_def)
  ultimately show ?thesis by simp
qed

lemma min_by_length_in: "ks \<noteq> [] \<Longrightarrow> \<exists>k \<in> set ks. min_by_length ks = Some k \<and> (\<forall>k' \<in> set ks. fst (snd k) \<le> fst (snd k'))"
proof (induction ks)
  case (Cons k ks)
  show ?case
  proof (cases "ks = []")
    case False
    then obtain k' where "k' \<in> set ks" "min_by_length ks = Some k'"
      "\<forall>c \<in> set ks. fst (snd k') \<le> fst (snd c)" using Cons.IH by blast
    then show ?thesis by (cases "fst (snd k) \<le> fst (snd k')") (auto simp del: split_paired_All)
  qed simp
qed simp

lemma max_by_priority_in: "m \<noteq> [] \<Longrightarrow> \<exists>k \<in> fst ` set m. max_by_priority m = Some k"
proof (induction m)
  case (Cons x m)
  show ?case
  proof (cases "m = []")
    case False
    then obtain k where "k \<in> fst ` set m" "max_by_priority m = Some k" using Cons.IH by blast
    then show ?thesis by (cases "the (map_of m k) < snd x") simp_all
  qed simp
qed simp

text \<open>What bucketing promises.\<close>

definition same_up_to_urgency :: "'f sequence list \<Rightarrow> 'f sequence list \<Rightarrow> bool" where
  "same_up_to_urgency ss ts \<longleftrightarrow> image_mset reset_urgency (mset ss) = image_mset reset_urgency (mset ts)"

lemma reset_urgency_idem [simp]:
  "reset_urgency (reset_urgency s) = reset_urgency s" "reset_urgency (add_urgency s) = reset_urgency s"
  by (simp_all add: reset_urgency_def add_urgency_def)

lemma seq_len_urgency [simp]: "seq_len (reset_urgency s) = seq_len s" "seq_len (add_urgency s) = seq_len s"
  by (simp_all add: seq_len_def reset_urgency_def add_urgency_def cong del: option.case_cong_weak)

lemma bucket_key_urgency [simp]:
  "bucket_key (reset_urgency s) = bucket_key s" "bucket_key (add_urgency s) = bucket_key s"
  by (simp_all add: bucket_key_def)
    (simp_all add: reset_urgency_def add_urgency_def is_prompt_def)

lemma bucket_key_len: "bucket_key t = Ok k \<Longrightarrow> seq_len t = Ok n \<Longrightarrow> n = fst (snd k)"
  by (cases k) (simp add: bucket_key_def)

lemma bucket_and_waitlist_spec:
  assumes h: "hash_ok h" and len: "\<forall>s \<in> set running. is_ok (seq_len s)"
  shows "\<exists>run wait. bucket_and_waitlist_seqs_waiting h fl running waiting discrete = Ok (run, waiting @ wait)
     \<and> same_up_to_urgency (run @ wait) running \<and> (running \<noteq> [] \<longrightarrow> run \<noteq> [])
     \<and> (\<exists>k. \<forall>s \<in> set run. bucket_key s = Ok k
          \<and> (discrete \<longrightarrow> (\<forall>s' \<in> set wait. \<forall>n. seq_len s' = Ok n \<longrightarrow> fst (snd k) \<le> n)))
     \<and> (\<forall>s \<in> set run. scheduling_urgency s = 0) \<and> (\<forall>s \<in> set wait. 0 < scheduling_urgency s)"
proof -
  have "bucket_inv discrete [] ([], [])" by (simp add: bucket_inv_def)
  from bucket_fold_inv [OF this len, of fl] obtain buckets prios where
    f: "rfold (bucket_step fl discrete) running ([], []) = Ok (buckets, prios)"
    and inv: "bucket_inv discrete running (buckets, prios)" by auto
  have d: "distinct (map fst buckets)" and m: "mset (concat (map snd buckets)) = mset running"
    and keys: "\<forall>x \<in> set buckets. snd x \<noteq> [] \<and> (\<forall>s \<in> set (snd x). bucket_key s = Ok (fst x))"
    and pr: "if discrete then prios = [] else distinct (map fst prios) \<and> dom (map_of prios) = dom (map_of buckets)"
    using inv unfolding bucket_inv_def fst_conv snd_conv by blast+
  have ent: "mset (concat (map snd (entries_in_order h bs))) = mset (concat (map snd bs))"
    if "distinct (map fst bs)" for bs :: "'f buckets"
    using mset_entries [OF h that] by (simp add: mset_concat_snd)
  show ?thesis
  proof (cases "length buckets \<le> 1")
    case True
    let ?run = "map reset_urgency (concat (map snd (entries_in_order h buckets)))"
    have res: "bucket_and_waitlist_seqs_waiting h fl running waiting discrete = Ok (?run, waiting @ [])"
      using f True by (simp add: bucket_and_waitlist_seqs_waiting_def)
    have ms: "mset (concat (map snd (entries_in_order h buckets))) = mset running" using ent [OF d] m by simp
    have "same_up_to_urgency (?run @ []) running"
      using ms by (simp add: same_up_to_urgency_def multiset.map_comp comp_def)
    moreover have "running \<noteq> [] \<longrightarrow> ?run \<noteq> []" using ms by (metis map_is_Nil_conv mset_zero_iff)
    moreover have "\<exists>k. \<forall>s \<in> set ?run. bucket_key s = Ok k"
    proof (cases buckets)
      case Nil
      then show ?thesis using ms m by simp
    next
      case (Cons x xs)
      with True have "buckets = [x]" by simp
      then have "set (concat (map snd (entries_in_order h buckets))) = set (snd x)"
        using mset_eq_setD [OF ent [OF d]] by simp
      then show ?thesis using keys \<open>buckets = [x]\<close> by (intro exI [of _ "fst x"]) auto
    qed
    moreover have "\<forall>s \<in> set ?run. scheduling_urgency s = 0" by (auto simp: reset_urgency_def)
    ultimately show ?thesis using res by (intro exI [of _ ?run] exI [of _ "[]"]) auto
  next
    case False
    let ?ks = "ord_keys h (map fst buckets)"
    have ks: "set ?ks = fst ` set buckets"
      using mset_eq_setD h unfolding hash_ok_def by (metis list.set_map)
    have "?ks \<noteq> []" using ks False by auto
    then obtain mk where mk: "mk \<in> fst ` set buckets" "min_by_length ?ks = Some mk"
      "\<forall>k \<in> fst ` set buckets. fst (snd mk) \<le> fst (snd k)"
      using min_by_length_in [of ?ks] unfolding ks by blast
    let ?key = "if discrete then mk
      else case max_by_priority (entries_in_order h prios) of Some k \<Rightarrow> k | None \<Rightarrow> mk"
    have "?key \<in> dom (map_of buckets)"
    proof (cases discrete)
      case True
      then show ?thesis using mk(1) by (auto simp: dom_map_of_conv_image_fst)
    next
      case nd: False
      then have d': "distinct (map fst prios)" and dom: "dom (map_of prios) = dom (map_of buckets)" using pr by auto
      then have "set (entries_in_order h prios) = set prios" using mset_eq_setD [OF mset_entries [OF h d']] by blast
      moreover have "prios \<noteq> []" using dom False by (auto simp: dom_map_of_conv_image_fst)
      ultimately obtain k where "k \<in> fst ` set prios" "max_by_priority (entries_in_order h prios) = Some k"
        using max_by_priority_in [of "entries_in_order h prios"] by (metis empty_set set_empty)
      then show ?thesis using nd dom by (simp add: dom_map_of_conv_image_fst)
    qed
    then obtain hi where hi: "map_of buckets ?key = Some hi" by blast
    let ?del = "AList.delete ?key buckets"
    let ?run = "map reset_urgency hi"
    let ?rest = "concat (map snd (entries_in_order h ?del))"
    let ?wait = "map add_urgency ?rest"
    have res: "bucket_and_waitlist_seqs_waiting h fl running waiting discrete = Ok (?run, waiting @ ?wait)"
      using f False mk(2) hi by (simp add: bucket_and_waitlist_seqs_waiting_def Let_def)
    have "distinct (map fst ?del)" using d by (simp add: distinct_delete)
    from ent [OF this] have rest: "mset ?rest = mset (concat (map snd ?del))" .
    have "mset hi + mset (concat (map snd ?del)) = mset running"
      using arg_cong [OF mset_delete [OF d hi], of "\<lambda>M. \<Sum>x \<in># M. mset (snd x)"] m
      by (simp add: mset_concat_snd)
    then have all: "mset hi + mset ?rest = mset running" using rest by simp
    have hi_key: "(?key, hi) \<in> set buckets" by (rule map_of_SomeD [OF hi])
    show ?thesis
    proof (intro exI conjI)
      show "bucket_and_waitlist_seqs_waiting h fl running waiting discrete = Ok (?run, waiting @ ?wait)" by (rule res)
      show "same_up_to_urgency (?run @ ?wait) running"
        unfolding same_up_to_urgency_def all [symmetric] by (simp add: multiset.map_comp comp_def del: mset_concat)
      show "running \<noteq> [] \<longrightarrow> ?run \<noteq> []" using keys hi_key by fastforce
      show "\<forall>s \<in> set ?run. bucket_key s = Ok ?key
          \<and> (discrete \<longrightarrow> (\<forall>s' \<in> set ?wait. \<forall>n. seq_len s' = Ok n \<longrightarrow> fst (snd ?key) \<le> n))"
      proof (intro ballI conjI impI allI)
        fix s assume "s \<in> set ?run"
        then show "bucket_key s = Ok ?key" using keys hi_key by fastforce
      next
        fix s s' n assume disc: discrete and s': "s' \<in> set ?wait" "seq_len s' = Ok n"
        from s'(1) obtain t where t: "t \<in> set ?rest" "s' = add_urgency t" unfolding set_map by blast
        then have len_t: "seq_len t = Ok n" using s'(2) by simp
        have "set ?rest \<subseteq> set (concat (map snd buckets))"
          using mset_eq_setD [OF rest] by (auto simp: AList.delete_eq)
        with t(1) have "t \<in> set (concat (map snd buckets))" by blast
        then obtain x where x: "x \<in> set buckets" "t \<in> set (snd x)"
          by (auto simp del: split_paired_Ex)
        with keys have "bucket_key t = Ok (fst x)" by blast
        then have "n = fst (snd (fst x))" using len_t by (auto dest: bucket_key_len)
        then show "fst (snd ?key) \<le> n" using disc mk(3) x(1) by simp
      qed
      show "\<forall>s \<in> set ?run. scheduling_urgency s = 0" by (auto simp: reset_urgency_def)
      show "\<forall>s \<in> set ?wait. 0 < scheduling_urgency s" by (auto simp: add_urgency_def)
    qed
  qed
qed

section \<open>Scheduling\<close>

definition ready_default :: "'f default_scheduler \<Rightarrow> bool" where
  "ready_default sch \<longleftrightarrow> (\<forall>s \<in> set (drunning sch @ dwaiting sch). is_ok (seq_len s))"

definition held_default :: "'f default_scheduler \<Rightarrow> nat multiset" where
  "held_default sch = image_mset seq_id (mset (drunning sch @ dwaiting sch))"

text \<open>What the sequences of a batch have in common.\<close>

definition alike :: "'f sequence list \<Rightarrow> bool" where
  "alike ss \<longleftrightarrow> (\<exists>n a off. \<forall>s \<in> set ss. seq_len s = Ok n \<and> adapters s = a \<and> token_offset s = off)"

lemma state_reset_urgency: "state (reset_urgency s) = state s"
  by (simp add: reset_urgency_def)

lemma same_ids:
  assumes "same_up_to_urgency ss ts"
  shows "image_mset seq_id (mset ss) = image_mset seq_id (mset ts)"
proof -
  have "image_mset seq_id (image_mset reset_urgency (mset us)) = image_mset seq_id (mset us)" for us :: "'a sequence list"
    by (simp add: multiset.map_comp comp_def reset_urgency_def)
  then show ?thesis using assms unfolding same_up_to_urgency_def by metis
qed

lemma same_len_ok:
  assumes "same_up_to_urgency ss ts" and "\<forall>s \<in> set ts. is_ok (seq_len s)"
  shows "\<forall>s \<in> set ss. is_ok (seq_len s)"
proof
  fix s assume "s \<in> set ss"
  then have "reset_urgency s \<in># image_mset reset_urgency (mset ts)"
    using assms(1) unfolding same_up_to_urgency_def by (metis image_eqI in_image_mset set_mset_mset)
  then obtain t where "t \<in> set ts" "reset_urgency s = reset_urgency t" by auto
  then show "is_ok (seq_len s)" using assms(2) by (metis seq_len_urgency(1))
qed

lemma alike_bucket: "\<forall>s \<in> set ss. bucket_key s = Ok k \<Longrightarrow> alike ss"
  unfolding alike_def
  by (rule exI [of _ "fst (snd k)"], rule exI [of _ "fst k"], rule exI [of _ "snd (snd (snd k))"])
    (auto simp: bucket_key_def res_simps)

lemma set_all_states_simps [simp]:
  "image_mset seq_id (mset (set_all_states st ss)) = image_mset seq_id (mset ss)"
  "length (set_all_states st ss) = length ss" "alike (set_all_states st ss) = alike ss"
  "set_all_states st ss = [] \<longleftrightarrow> ss = []"
  "(\<forall>s \<in> set (set_all_states st ss). is_ok (seq_len s)) = (\<forall>s \<in> set ss. is_ok (seq_len s))"
  by (simp_all add: set_all_states_def multiset.map_comp comp_def alike_def seq_len_def
      cong del: option.case_cong_weak)

lemma seq_len_state [simp]: "seq_len (s\<lparr>state := st\<rparr>) = seq_len s"
  by (simp add: seq_len_def cong del: option.case_cong_weak)

lemma admit_waiting_spec:
  assumes "admit_waiting n ss running left = (running', left')"
  shows "image_mset seq_id (mset (running' @ left')) = image_mset seq_id (mset (running @ ss @ left))"
    and "length running' \<le> max n (length running)"
    and "running \<noteq> [] \<Longrightarrow> running' \<noteq> []"
    and "seq_len ` set (running' @ left') = seq_len ` set (running @ ss @ left)"
  using assms
proof (induction ss arbitrary: running left)
  case Nil
  {
    case 1 then show ?case by simp
  next
    case 2 then show ?case by simp
  next
    case 3 then show ?case by simp
  next
    case 4 then show ?case by simp
  }
next
  case (Cons s ss)
  define t where "t = (if is_waiting s then s\<lparr>state := RunningPrompt\<rparr> else s)"
  have t: "seq_id t = seq_id s" "seq_len t = seq_len s" by (simp_all add: t_def)
  have step: "(sequence_fits n running \<and> admit_waiting n ss (running @ [t]) left = (running', left'))
      \<or> (\<not> sequence_fits n running \<and> admit_waiting n ss running (left @ [s]) = (running', left'))"
    if "admit_waiting n (s # ss) running left = (running', left')" for running left
    using that by (cases "sequence_fits n running") (simp_all add: t_def)
  {
    case 1
    from step [OF this] show ?case
      by (elim disjE conjE) (use Cons.IH(1) t(1) in \<open>fastforce simp del: admit_waiting.simps\<close>)+
  next
    case 2
    from step [OF this] show ?case
      by (elim disjE conjE)
        (use Cons.IH(2) in \<open>fastforce simp: sequence_fits_def simp del: admit_waiting.simps\<close>)+
  next
    case 3
    from step [OF this(2)] show ?case
      by (elim disjE conjE) (use 3 Cons.IH(3) in \<open>fastforce simp del: admit_waiting.simps\<close>)+
  next
    case 4
    from step [OF this] show ?case
    proof (elim disjE conjE)
      assume "admit_waiting n ss (running @ [t]) left = (running', left')"
      from Cons.IH(4) [OF this] show ?case using t(2) by (simp add: insert_commute)
    next
      assume "admit_waiting n ss running (left @ [s]) = (running', left')"
      from Cons.IH(4) [OF this] show ?case by (simp add: insert_commute)
    qed
  }
qed

lemma set_all_states_state: "s \<in> set (set_all_states st ss) \<Longrightarrow> state s = st"
  by (auto simp: set_all_states_def)

text \<open>Sequences that are all alike fill one bucket, and all run.\<close>

lemma bucket_single:
  assumes h: "hash_ok h" and keys: "\<forall>s \<in> set running. bucket_key s = Ok k"
  shows "\<exists>run. bucket_and_waitlist_seqs_waiting h fl running waiting discrete = Ok (run, waiting)
     \<and> same_up_to_urgency run running"
proof -
  have len: "\<forall>s \<in> set running. is_ok (seq_len s)" using keys by (auto simp: bucket_key_def res_simps)
  have "bucket_inv discrete [] ([], [])" by (simp add: bucket_inv_def)
  from bucket_fold_inv [OF this len, of fl] obtain buckets prios where
    f: "rfold (bucket_step fl discrete) running ([], []) = Ok (buckets, prios)"
    and inv: "bucket_inv discrete running (buckets, prios)" by auto
  have d: "distinct (map fst buckets)" and m: "mset (concat (map snd buckets)) = mset running"
    and bk: "\<forall>x \<in> set buckets. snd x \<noteq> [] \<and> (\<forall>s \<in> set (snd x). bucket_key s = Ok (fst x))"
    using inv unfolding bucket_inv_def fst_conv snd_conv by blast+
  have "fst x = k" if x: "x \<in> set buckets" for x
  proof -
    obtain s where s: "s \<in> set (snd x)" using bk x by (meson last_in_set)
    have "s \<in> set (concat (map snd buckets))" using s x unfolding set_concat set_map by blast
    then have "s \<in> set running" using mset_eq_setD [OF m] by blast
    then have "bucket_key s = Ok k" using keys by blast
    moreover have "bucket_key s = Ok (fst x)" using bk x s by blast
    ultimately show ?thesis by simp
  qed
  then have "set (map fst buckets) \<subseteq> {k}" by auto
  then have "length buckets \<le> 1"
    using distinct_card [OF d] card_mono [of "{k}" "set (map fst buckets)"] by simp
  then have "bucket_and_waitlist_seqs_waiting h fl running waiting discrete
      = Ok (map reset_urgency (concat (map snd (entries_in_order h buckets))), waiting)"
    using f by (simp add: bucket_and_waitlist_seqs_waiting_def)
  moreover have "mset (concat (map snd (entries_in_order h buckets))) = mset running"
    using mset_entries [OF h d] m by (simp add: mset_concat_snd)
  then have "same_up_to_urgency (map reset_urgency (concat (map snd (entries_in_order h buckets)))) running"
    by (simp add: same_up_to_urgency_def multiset.map_comp comp_def)
  ultimately show ?thesis by blast
qed

lemma bucket_and_waitlistE:
  assumes "hash_ok h" and "\<forall>s \<in> set running. is_ok (seq_len s)"
  obtains run wait where
    "bucket_and_waitlist_seqs_waiting h fl running waiting discrete = Ok (run, waiting @ wait)"
    "same_up_to_urgency (run @ wait) running" "running \<noteq> [] \<longrightarrow> run \<noteq> []" "alike run"
proof -
  obtain run wait k where
    b: "bucket_and_waitlist_seqs_waiting h fl running waiting discrete = Ok (run, waiting @ wait)"
    "same_up_to_urgency (run @ wait) running" "running \<noteq> [] \<longrightarrow> run \<noteq> []"
    "\<forall>s \<in> set run. bucket_key s = Ok k"
    using bucket_and_waitlist_spec [OF assms, of fl waiting discrete] by blast
  show thesis by (rule that [OF b(1-3) alike_bucket [OF b(4)]])
qed

lemma default_schedule_spec:
  assumes h: "hash_ok h" and ready: "ready_default sch"
  shows "\<exists>out t sch'. default_schedule h fl terminate sch = Ok (out, t, sch') \<and> ready_default sch'
     \<and> held_default sch' = image_mset seq_id (mset (filter is_running (drunning sch) @ dwaiting sch))
     \<and> alike (drunning sch') \<and> mset (completion out @ prompt out) = mset (drunning sch')
     \<and> fixed_method sch' = fixed_method sch
     \<and> (drunning sch' = [] \<longrightarrow> filter is_running (drunning sch) = [] \<and> dwaiting sch = [])
     \<and> (filter is_running (drunning sch) \<noteq> [] \<longrightarrow>
          length (drunning sch') \<le> max (fixed_method sch) (length (drunning sch)))"
proof -
  let ?run = "filter is_running (drunning sch)"
  have ok: "\<forall>s \<in> set ?run. is_ok (seq_len s)" "\<forall>s \<in> set (dwaiting sch). is_ok (seq_len s)"
    using ready by (auto simp: ready_default_def)
  have len_run: "length ?run \<le> length (drunning sch)" by simp
  consider (idle) "dwaiting sch = []" "?run = []" | (start) "dwaiting sch \<noteq> []" "?run = []"
    | (go_on) "dwaiting sch = []" "?run \<noteq> []" | (both) "dwaiting sch \<noteq> []" "?run \<noteq> []" by blast
  then show ?thesis
  proof cases
    case idle
    then show ?thesis by (simp add: default_schedule_def ready_default_def held_default_def alike_def)
  next
    case start
    let ?in = "set_all_states RunningPrompt (dwaiting sch)"
    have "\<forall>s \<in> set ?in. is_ok (seq_len s)" using ok(2) by simp
    from bucket_and_waitlistE [OF h this, of fl "[]" True] obtain run wait where
      "bucket_and_waitlist_seqs_waiting h fl ?in [] True = Ok (run, [] @ wait)"
      and b2: "same_up_to_urgency (run @ wait) ?in" "?in \<noteq> [] \<longrightarrow> run \<noteq> []" "alike run" .
    note b = this(1) [unfolded append_Nil] b2
    have "image_mset seq_id (mset (run @ wait)) = image_mset seq_id (mset (dwaiting sch))"
      using same_ids [OF b(2)] by simp
    moreover have "\<forall>s \<in> set (run @ wait). is_ok (seq_len s)" using same_len_ok [OF b(2)] ok(2) by simp
    moreover have "alike run" by (rule b(4))
    ultimately show ?thesis
      using start b(1,3) by (simp add: default_schedule_def ready_default_def held_default_def)
  next
    case go_on
    from bucket_and_waitlistE [OF h ok(1), of fl "[]" True] obtain run wait where
      "bucket_and_waitlist_seqs_waiting h fl ?run [] True = Ok (run, [] @ wait)"
      and b2: "same_up_to_urgency (run @ wait) ?run" "?run \<noteq> [] \<longrightarrow> run \<noteq> []" "alike run" .
    note b = this(1) [unfolded append_Nil] b2
    let ?run' = "if terminate then set_all_states (Done Canceled) run else run"
    have "image_mset seq_id (mset (run @ wait)) = image_mset seq_id (mset ?run)" by (rule same_ids [OF b(2)])
    then have ids: "image_mset seq_id (mset (?run' @ wait)) = image_mset seq_id (mset ?run)" by simp
    have "\<forall>s \<in> set (run @ wait). is_ok (seq_len s)" using same_len_ok [OF b(2) ok(1)] .
    then have lens: "\<forall>s \<in> set (?run' @ wait). is_ok (seq_len s)"
      by (cases terminate) (auto simp: set_all_states_def)
    have al: "alike ?run'" using b(4) by simp
    have ne: "?run' \<noteq> []" using b(3) go_on(2) by simp
    have "length (run @ wait) = length ?run"
      using arg_cong [OF b(2) [unfolded same_up_to_urgency_def], of size]
      by (simp only: size_image_mset size_mset)
    then have "length run \<le> length (drunning sch)" using len_run unfolding length_append by linarith
    then have le: "length ?run' \<le> max (fixed_method sch) (length (drunning sch))" by auto
    let ?sch' = "sch\<lparr>drunning := ?run', dwaiting := wait\<rparr>"
    have "default_schedule h fl terminate sch = Ok (\<lparr>completion = ?run', prompt = []\<rparr>, False, ?sch')"
      using go_on b(1) by (simp add: default_schedule_def Let_def)
    moreover have "ready_default ?sch'" using lens by (simp add: ready_default_def)
    moreover have "held_default ?sch' = image_mset seq_id (mset (?run @ dwaiting sch))"
      using ids go_on(1) by (simp only: held_default_def default_scheduler.simps append_Nil2)
        (simp add: default_scheduler.defs)
    ultimately show ?thesis using al ne le
      by (intro exI [of _ "\<lparr>completion = ?run', prompt = []\<rparr>"] exI [of _ False] exI [of _ ?sch']) simp
  next
    case both
    obtain run left where a: "admit_waiting (fixed_method sch) (sort_key seq_id (dwaiting sch)) ?run [] = (run, left)"
      by (cases "admit_waiting (fixed_method sch) (sort_key seq_id (dwaiting sch)) ?run []")
    note as = admit_waiting_spec [OF a]
    have "\<forall>l \<in> seq_len ` set (run @ left). is_ok l" unfolding as(4) using ok by auto
    then have okr: "\<forall>s \<in> set (run @ left). is_ok (seq_len s)" by blast
    then have "\<forall>s \<in> set run. is_ok (seq_len s)" by simp
    from bucket_and_waitlistE [OF h this, of fl left False] obtain now wait where
      b: "bucket_and_waitlist_seqs_waiting h fl run left False = Ok (now, left @ wait)"
      "same_up_to_urgency (now @ wait) run" "run \<noteq> [] \<longrightarrow> now \<noteq> []" "alike now" .
    have "image_mset seq_id (mset (now @ wait)) = image_mset seq_id (mset run)" by (rule same_ids [OF b(2)])
    then have "image_mset seq_id (mset (now @ left @ wait)) = image_mset seq_id (mset (?run @ dwaiting sch))"
      using as(1) by (simp add: ac_simps)
    moreover have "\<forall>s \<in> set (now @ left @ wait). is_ok (seq_len s)"
      using same_len_ok [OF b(2)] okr by auto
    moreover have "alike now" by (rule b(4))
    moreover have "now \<noteq> []" using b(3) as(3) both(2) by simp
    moreover have "length (now @ wait) = length run"
      using arg_cong [OF b(2) [unfolded same_up_to_urgency_def], of size] by simp
    then have "length now \<le> max (fixed_method sch) (length (drunning sch))"
      using as(2) len_run unfolding length_append by linarith
    moreover have "mset (filter is_completion now @ filter (\<lambda>s. \<not> is_completion s) now) = mset now"
      by (induction now) auto
    ultimately show ?thesis
      using both a b(1) by (simp add: default_schedule_def ready_default_def held_default_def)
  qed
qed

section \<open>The default scheduler is a scheduler\<close>

text \<open>The engine runs a batch by updating every sequence of it; which update is open.\<close>

definition good_update :: "('f sequence \<Rightarrow> 'f sequence) \<Rightarrow> bool" where
  "good_update f \<longleftrightarrow> (\<forall>s. seq_id (f s) = seq_id s \<and> (is_ok (seq_len s) \<longrightarrow> is_ok (seq_len (f s))))"

definition run_default :: "('f sequence \<Rightarrow> 'f sequence) \<Rightarrow> 'f default_output \<Rightarrow> 'f default_scheduler
    \<Rightarrow> 'f default_scheduler res" where
  "run_default f out sch = Ok (sch\<lparr>drunning := map f (drunning sch)\<rparr>)"

definition schedule_with :: "hash_order \<Rightarrow> 'p::{linorder,plus} f64_ops \<Rightarrow> bool \<Rightarrow> 'f default_scheduler
    \<Rightarrow> ('f default_output \<times> 'f default_scheduler) res" where
  "schedule_with h fl terminate sch =
     rbind (default_schedule h fl terminate sch) (\<lambda>(out, t, sch). Ok (out, sch))"

lemma filtered_ids: "image_mset seq_id (mset (filter is_running (drunning sch) @ dwaiting sch)) \<subseteq># held_default sch"
  unfolding held_default_def by (intro image_mset_subseteq_mono) (simp add: multiset_filter_subset)

interpretation default: scheduler default_add_seq "schedule_with h fl terminate" run_default Ok seq_id held_default
    "\<lambda>out. map seq_id (completion out @ prompt out)" "\<lambda>sch. hash_ok h \<and> ready_default sch"
    "\<lambda>out sch. hash_ok h \<and> ready_default sch" "\<lambda>sch. hash_ok h \<and> ready_default sch"
    "\<lambda>s sch. is_ok (seq_len s)" good_update
  for h :: hash_order and fl :: "'p::{linorder,plus} f64_ops" and terminate :: bool
proof (unfold_locales, goal_cases)
  case (1 sch s)
  then show ?case by (auto simp: default_add_seq_def ready_default_def held_default_def)
next
  case (2 sch)
  then have h: "hash_ok h" "ready_default sch" by simp_all
  obtain out t sch' where s: "default_schedule h fl terminate sch = Ok (out, t, sch')"
    "ready_default sch'"
    "held_default sch' = image_mset seq_id (mset (filter is_running (drunning sch) @ dwaiting sch))"
    "mset (completion out @ prompt out) = mset (drunning sch')"
    using default_schedule_spec [OF h, of fl terminate] by blast
  have "mset (map seq_id (completion out @ prompt out)) \<subseteq># held_default sch'"
    unfolding mset_map s(4) held_default_def by simp
  with s filtered_ids [of sch] h(1) show ?case by (auto simp: schedule_with_def)
next
  case (3 out sch f)
  then show ?case
    by (auto simp: run_default_def good_update_def ready_default_def held_default_def multiset.map_comp comp_def)
next
  case (4 sch)
  then show ?case by simp
qed

section \<open>Properties\<close>


text \<open>
  When nothing runs any more, every waiting sequence is started from its prompt, also
  those that were in the middle of their completion and only waited for another bucket,
  and without regard to the configured number of sequences: any number of sequences of one
  length run together.
\<close>

theorem idle_scheduler_restarts_everyone:
  assumes "hash_ok h" and "filter is_running (drunning sch) = []" and "dwaiting sch \<noteq> []"
    and "\<forall>s \<in> set (dwaiting sch). bucket_key (s\<lparr>state := RunningPrompt\<rparr>) = Ok k"
  shows "\<exists>out t sch'. default_schedule h fl terminate sch = Ok (out, t, sch')
     \<and> completion out = [] \<and> length (prompt out) = length (dwaiting sch)
     \<and> (\<forall>s \<in> set (prompt out). state s = RunningPrompt)"
proof -
  let ?in = "set_all_states RunningPrompt (dwaiting sch)"
  have "\<forall>s \<in> set ?in. bucket_key s = Ok k" using assms(4) by (simp add: set_all_states_def)
  from bucket_single [OF assms(1) this, of fl "[]" True] obtain run where
    b: "bucket_and_waitlist_seqs_waiting h fl ?in [] True = Ok (run, [])" "same_up_to_urgency run ?in" by blast
  have "length run = length (dwaiting sch)"
    using arg_cong [OF b(2) [unfolded same_up_to_urgency_def], of size] by simp
  moreover have "state s = RunningPrompt" if "s \<in> set run" for s
  proof -
    have "reset_urgency s \<in># image_mset reset_urgency (mset ?in)"
      using b(2) that unfolding same_up_to_urgency_def by (metis image_eqI in_image_mset set_mset_mset)
    then obtain t where "t \<in> set ?in" "reset_urgency s = reset_urgency t" by auto
    moreover from this have "state s = state t"
      by (metis state_reset_urgency)
    ultimately show ?thesis using set_all_states_state by metis
  qed
  ultimately show ?thesis
    using assms(2,3) b(1) by (simp add: default_schedule_def)
qed

text \<open>
  The engine loop over the default scheduler never panics: schedule, run, schedule, run, for any
  number of turns, whatever a turn does to the sequences of the batch, and no sequence
  is ever duplicated.
\<close>

theorem default_loop_never_panics:
  assumes "hash_ok h" and "ready_default sch" and "\<forall>f \<in> set fs. good_update f"
  shows "\<exists>sch'. rfold (\<lambda>f s. rbind (schedule_with h fl terminate s) (\<lambda>(out, s). rbind (run_default f out s) Ok)) fs sch
       = Ok sch' \<and> ready_default sch' \<and> held_default sch' \<subseteq># held_default sch"
  using default.turns_ok [of h sch fs fl terminate] assms unfolding default.turn_def by blast

section \<open>Witnesses\<close>

definition reverse_order :: hash_order where
  "reverse_order = \<lparr>ord_keys = rev\<rparr>"

lemma reverse_order_ok [simp]: "hash_ok reverse_order"
  by (simp add: hash_ok_def reverse_order_def)

definition nat_f64 :: "nat f64_ops" where
  "nat_f64 = \<lparr>to_f64 = (\<lambda>n. 2 * n), log2 = (\<lambda>n. n)\<rparr>"

definition three_sequences :: "nat default_scheduler" where
  "three_sequences = \<lparr>dwaiting = [plain_sequence\<lparr>cache := [None], state := RunningCompletion\<rparr>,
       plain_sequence\<lparr>cache := [None], seq_id := 2\<rparr>, plain_sequence\<lparr>cache := [None], seq_id := 3\<rparr>],
     drunning = [], fixed_method = 1\<rparr>"

lemma plain_sequence_more [simp]:
  "prefill_prompt_toks plain_sequence = None" "is_tmp plain_sequence = False" "xlora_cache plain_sequence = None"
  "adapters plain_sequence = None" "has_input_images plain_sequence = False" "token_offset plain_sequence = 0"
  by (simp_all add: plain_sequence_def new_waiting_def a_request_def)


theorem idle_scheduler_restarts_everyone_witness:
  "\<exists>out t sch'. default_schedule reverse_order nat_f64 False three_sequences = Ok (out, t, sch')
     \<and> completion out = [] \<and> length (prompt out) = 3"
  using idle_scheduler_restarts_everyone [of reverse_order three_sequences "(None, 3, False, 0)" nat_f64 False]
  by (auto simp: three_sequences_def bucket_key_def seq_len_def numeral_3_eq_3)

theorem default_loop_never_panics_witness:
  "\<exists>sch'. rfold (\<lambda>f s. rbind (schedule_with reverse_order nat_f64 False s) (\<lambda>(out, s). rbind (run_default f out s) Ok))
       [\<lambda>s. s\<lparr>state := RunningCompletion\<rparr>, \<lambda>s. s\<lparr>state := Done Eos\<rparr>] three_sequences
     = Ok sch' \<and> held_default sch' \<subseteq># held_default three_sequences"
proof -
  have "ready_default three_sequences" by (simp add: ready_default_def three_sequences_def seq_len_def)
  moreover have "\<forall>f \<in> set [\<lambda>s :: nat sequence. s\<lparr>state := RunningCompletion\<rparr>, \<lambda>s. s\<lparr>state := Done Eos\<rparr>]. good_update f"
    by (simp add: good_update_def)
  ultimately show ?thesis using default_loop_never_panics [OF reverse_order_ok] by blast
qed

end
