(* ===== verification/Engine.thy ===== *)
theory Engine
  imports Sampling Paged_Scheduler Default_Scheduler
begin

text \<open>
  The loop of the engine (\<^verbatim>\<open>Engine::run\<close> of \<^verbatim>\<open>mistralrs-core/src/engine/mod.rs\<close>): a turn asks
  the scheduler for a batch, has the pipeline run it, handles a failure of the model
  (\<^verbatim>\<open>handle_pipeline_forward_error!\<close> of \<^verbatim>\<open>mistralrs-core/src/utils/mod.rs\<close>) and frees what is
  finished.

  The pipeline is the parameter \<open>step\<close>: any computation on the batch, told which sequences
  to run, whether they are prompts and whether raw logits are wanted; an \<^verbatim>\<open>Err\<close> is a failure
  of the model. A turn is one pass of the loop; receiving requests, the instruction to
  terminate, logging and the sleep of an idle engine are left out. \<open>es_raw\<close> is the field
  \<^verbatim>\<open>return_raw_logits\<close> of the sequences. The lemmas show what becomes of a sequence that the
  pipeline stops or that fails in the middle of a turn.
\<close>

section \<open>The state of the engine\<close>

record ('f, 't, 'h, 's) engine_state =
  es_id :: nat
  es_sched :: 's
  es_batch :: "('f, 't, 'h) batch"
  es_raw :: "nat \<Rightarrow> bool"
  es_groups :: nat
  es_last_ids :: "nat list"
  es_no_kv_cache :: bool
  es_replies :: "(nat \<times> response) list"

text \<open>
  The schedulers own the sequences and lend them to the pipeline for a step: \<open>lend\<close> puts them
  into the batch, \<open>take_back\<close> stores what the step made of them.
\<close>

definition lend :: "('s \<Rightarrow> (nat \<Rightarrow> 'f sequence) \<Rightarrow> nat \<Rightarrow> 'f sequence) \<Rightarrow> ('f, 't, 'h, 's) engine_state
    \<Rightarrow> ('f, 't, 'h) batch" where
  "lend get e = (es_batch e)\<lparr>bt_seqs := get (es_sched e) (bt_seqs (es_batch e))\<rparr>"

definition with_batch :: "('s \<Rightarrow> (nat \<Rightarrow> 'f sequence) \<Rightarrow> nat \<Rightarrow> 'f sequence) \<Rightarrow> ((nat \<Rightarrow> 'f sequence) \<Rightarrow> 's \<Rightarrow> 's)
    \<Rightarrow> (('f, 't, 'h) batch, 'a) sm \<Rightarrow> (('f, 't, 'h, 's) engine_state, 'a) sm" where
  "with_batch get put m e =
     (let (r, b) = m (lend get e) in (r, e\<lparr>es_batch := b, es_sched := put (bt_seqs b) (es_sched e)\<rparr>))"

definition on_paged :: "(('f, 't, 'h) batch, 'a) sm \<Rightarrow> (('f, 't, 'h, 'f paged_scheduler) engine_state, 'a) sm" where
  "on_paged = with_batch (\<lambda>sch _. seqs sch) (\<lambda>st sch. sch\<lparr>seqs := st\<rparr>)"

text \<open>The default scheduler keeps sequences by value; within a step they go by their id.\<close>

definition running_seq :: "'f default_scheduler \<Rightarrow> (nat \<Rightarrow> 'f sequence) \<Rightarrow> nat \<Rightarrow> 'f sequence" where
  "running_seq sch old i = (case find (\<lambda>s. seq_id s = i) (drunning sch) of Some s \<Rightarrow> s | None \<Rightarrow> old i)"

definition on_default :: "(('f, 't, 'h) batch, 'a) sm \<Rightarrow> (('f, 't, 'h, 'f default_scheduler) engine_state, 'a) sm" where
  "on_default = with_batch running_seq (\<lambda>st sch. sch\<lparr>drunning := map (\<lambda>s. st (seq_id s)) (drunning sch)\<rparr>)"

section \<open>When the model fails\<close>

definition partial_text :: "('t, 'h, 'e, 'v) pipeline \<Rightarrow> 'f sequence \<Rightarrow> rstring res" where
  "partial_text pl s =
     (case pl_tokenizer pl of None \<Rightarrow> Ok []
      | Some decode \<Rightarrow>
          rbind (slice_from (get_toks s) (prompt_len s)) (\<lambda>toks.
          case decode toks of Inl (Panic m) \<Rightarrow> Err (Panic m) | Inl (Bail _) \<Rightarrow> Ok [] | Inr t \<Rightarrow> Ok t))"

text \<open>Step 1 adds a choice to the group, step 2 answers, step 3 sets the state.\<close>

definition add_error_choice :: "('t, 'h, 'e, 'v) pipeline \<Rightarrow> nat \<Rightarrow> (('f, 't, 'h) batch, unit) sm" where
  "add_error_choice pl i =
     sbind (sget (the_seq i)) (\<lambda>s. sbind (sget (the_group i)) (\<lambda>g.
     sbind (slift (partial_text pl s)) (\<lambda>txt.
     sbind (slift (if is_chat g
                   then add_choice_to_group (pl_now pl)
                     \<lparr>ch_finish_reason = ''error'', ch_index = response_index s, ch_content = Some txt,
                      ch_tool_calls = []\<rparr> s g
                   else add_completion_choice_to_group (pl_now pl)
                     \<lparr>cc_finish_reason = ''error'', cc_index = response_index s, cc_text = txt\<rparr> s g)) (\<lambda>g.
     smod (put_group i g)))))"

definition send_model_error :: "('t, 'h, 'e, 'v) pipeline \<Rightarrow> nat \<Rightarrow> (('f::linorder, 't, 'h) batch, unit) sm" where
  "send_model_error pl i =
     sbind (sget (the_group i)) (\<lambda>g.
     sbind (slift (get_usage g)) (\<lambda>_.
     sbind (slift (rassert (pl_connected pl i) ''unwrap on Err'')) (\<lambda>_.
     smod (send i [if is_chat g then ModelError (choices g)
                   else CompletionModelError (get_completion_choices g)]))))"

definition evict_all :: "('t, 'h, 'e, 'v) pipeline \<Rightarrow> (('f, 't, 'h) batch, unit) sm" where
  "evict_all pl =
     sbind (sget (\<lambda>b. expect (evict_all_to_cpu (pl_tensors pl) (bt_cacher b) (bt_heap b)))) (\<lambda>r.
     sbind (slift r) (\<lambda>(_, pc, h). smod (\<lambda>b. b\<lparr>bt_cacher := pc, bt_heap := h\<rparr>)))"

text \<open>
  Of \<^verbatim>\<open>set_none_cache\<close> the batch only sees the reset of the non-granular state; the cache
  it clears belongs to the model.
\<close>

definition handle_pipeline_forward_error :: "('t, 'h, 'e, 'v) pipeline \<Rightarrow> nat list
    \<Rightarrow> (('f::linorder, 't, 'h) batch, unit) sm" where
  "handle_pipeline_forward_error pl hs =
     sbind (seach (add_error_choice pl) hs) (\<lambda>_.
     sbind (seach (send_model_error pl) hs) (\<lambda>_.
     sbind (seach (\<lambda>i. change_state i SeqError) hs) (\<lambda>_.
     sbind reset_non_granular_state (\<lambda>_. evict_all pl))))"

section \<open>One turn\<close>

text \<open>What the pipeline is to do with the caches before and after the model runs.\<close>

datatype cache_instruction =
    CacheIn "string list option"
  | CacheOut
  | CacheNothing "string list option"
  | CacheReset (load_preallocated_cache: bool) (reset_non_granular: bool) "string list option"

datatype cache_backend =
    DefaultInstructions (pre_op: cache_instruction) (post_op: cache_instruction)
  | PagedBackend (to_copy: "nat \<rightharpoonup> nat list") (to_swap_in: "nat \<rightharpoonup> nat") (to_swap_out: "nat \<rightharpoonup> nat")

type_synonym ('f, 't, 'h) step = "nat list \<Rightarrow> bool \<Rightarrow> bool \<Rightarrow> cache_backend \<Rightarrow> (('f, 't, 'h) batch, unit) sm"

definition completion_pre_op :: "nat list \<Rightarrow> string list option \<Rightarrow> ('f, 't, 'h, 's) engine_state \<Rightarrow> cache_instruction" where
  "completion_pre_op cs ad e =
     (if \<not> es_no_kv_cache e \<and> es_last_ids e \<noteq> cs then CacheIn ad else CacheNothing ad)"

definition cache_post_op :: "('f, 't, 'h, 's) engine_state \<Rightarrow> cache_instruction" where
  "cache_post_op e = (if \<not> es_no_kv_cache e then CacheOut else CacheReset False False None)"

text \<open>
  \<open>attempt m ok failed\<close>: run \<open>m\<close>, continue with \<open>ok\<close>, or with \<open>failed\<close> after an \<^verbatim>\<open>Err\<close>; a panic is
  a panic. \<open>same_raw\<close> is the assertion on the raw logits.
\<close>

definition attempt :: "('s, unit) sm \<Rightarrow> ('s, 'a) sm \<Rightarrow> ('s, 'a) sm \<Rightarrow> ('s, 'a) sm" where
  "attempt m ok failed s =
     (case m s of (Inl (Panic e), s) \<Rightarrow> (Err (Panic e), s) | (Inl (Bail _), s) \<Rightarrow> failed s | (Inr _, s) \<Rightarrow> ok s)"

definition same_raw :: "nat list \<Rightarrow> ('f, 't, 'h, 's) engine_state \<Rightarrow> bool res" where
  "same_raw hs e =
     rbind (vget hs 0) (\<lambda>h.
     rbind (rassert (\<forall>i \<in> set hs. es_raw e i = es_raw e h) ''All sequences must either return raw logits, or not.'') (\<lambda>_.
     Ok (es_raw e h)))"

definition stamp_paged :: "('t, 'h, 'e, 'v) pipeline \<Rightarrow> nat \<Rightarrow> (('f, 't, 'h) batch, unit) sm" where
  "stamp_paged pl i =
     sbind (sget (the_seq i)) (\<lambda>s.
     sbind (slift (seq_len s)) (\<lambda>_.
     sbind (slift (usub (pl_now pl) (timestamp s))) (\<lambda>_.
     smod (put_seq i (s\<lparr>prompt_timestamp := Some (pl_now pl)\<rparr>)))))"

definition free_paged :: "(('f, 't, 'h, 'f paged_scheduler) engine_state, unit) sm" where
  "free_paged =
     sbind (sget (\<lambda>e. free_finished_sequence_groups (es_sched e))) (\<lambda>r.
     sbind (slift r) (\<lambda>sch. smod (\<lambda>e. e\<lparr>es_sched := sch\<rparr>)))"

text \<open>The turn after a failure goes on with the next turn: it frees nothing.\<close>

definition paged_turn :: "('t, 'h, 'e, 'v) pipeline \<Rightarrow> ('f::linorder, 't, 'h) step
    \<Rightarrow> (('f, 't, 'h, 'f paged_scheduler) engine_state, unit) sm" where
  "paged_turn pl step =
     sbind (sget (\<lambda>e. schedule (es_sched e))) (\<lambda>r. sbind (slift r) (\<lambda>(out, sch).
     sbind (smod (\<lambda>e. e\<lparr>es_sched := sch\<rparr>)) (\<lambda>_.
     let hs = scheduled out
     in if hs = [] then free_paged
        else let prompts = is_prompt (seqs sch (hd hs))
             in sbind (sget (same_raw hs)) (\<lambda>r. sbind (slift r) (\<lambda>raw.
                attempt (on_paged (step hs prompts raw
                    (PagedBackend (blocks_to_copy out) (blocks_to_swap_in out) (blocks_to_swap_out out))))
                  (sbind (on_paged (swhen prompts (seach (stamp_paged pl) hs))) (\<lambda>_. free_paged))
                  (on_paged (handle_pipeline_forward_error pl hs)))))))"

text \<open>
  What the engine does with a prompt that ran, for sequences that generate text (those that
  generate an image are done instead).
\<close>

definition stamp_default :: "('t, 'h, 'e, 'v) pipeline \<Rightarrow> nat \<Rightarrow> (('f, 't, 'h) batch, unit) sm" where
  "stamp_default pl i =
     sbind (change_state i RunningCompletion) (\<lambda>_.
     sbind (sget (the_seq i)) (\<lambda>s.
     sbind (slift (seq_len s)) (\<lambda>_.
     smod (put_seq i (s\<lparr>prompt_timestamp := Some (pl_now pl)\<rparr>)))))"

definition default_prompts :: "('t, 'h, 'e, 'v) pipeline \<Rightarrow> ('f::linorder, 't, 'h) step \<Rightarrow> 'f sequence list
    \<Rightarrow> (('f, 't, 'h, 'f default_scheduler) engine_state, unit) sm" where
  "default_prompts pl step ps =
     swhen (ps \<noteq> [])
       (let hs = map seq_id ps
        in sbind (sget (same_raw hs)) (\<lambda>r. sbind (slift r) (\<lambda>raw.
           sbind (sget cache_post_op) (\<lambda>post.
           attempt (on_default (step hs True raw
               (DefaultInstructions (CacheReset True False (adapters (hd ps))) post)))
             (sbind (on_default (seach (stamp_default pl) hs)) (\<lambda>_. smod (\<lambda>e. e\<lparr>es_last_ids := []\<rparr>)))
             (on_default (handle_pipeline_forward_error pl hs))))))"

definition default_turn :: "('t, 'h, 'e, 'v) pipeline \<Rightarrow> ('f::linorder, 't, 'h) step
    \<Rightarrow> hash_order \<Rightarrow> 'p::{linorder,plus} f64_ops \<Rightarrow> bool
    \<Rightarrow> (('f, 't, 'h, 'f default_scheduler) engine_state, unit) sm" where
  "default_turn pl step h fl terminate =
     sbind (sget (\<lambda>e. schedule_with h fl terminate (es_sched e))) (\<lambda>r. sbind (slift r) (\<lambda>(out, sch).
     sbind (smod (\<lambda>e. e\<lparr>es_sched := sch\<rparr>)) (\<lambda>_.
     if completion out = [] then default_prompts pl step (prompt out)
     else let cs = map seq_id (completion out)
          in sbind (sget (same_raw cs)) (\<lambda>r. sbind (slift r) (\<lambda>raw.
             sbind (sget (\<lambda>e. DefaultInstructions (completion_pre_op cs (adapters (hd (completion out))) e)
                 (cache_post_op e))) (\<lambda>backend.
             attempt (on_default (step cs False raw backend))
               (sbind (smod (\<lambda>e. e\<lparr>es_last_ids := cs\<rparr>)) (\<lambda>_. default_prompts pl step (prompt out)))
               (on_default (handle_pipeline_forward_error pl cs))))))))"

section \<open>What the error handler does to the sequences\<close>

lemma add_error_choice_seq_is [inv_intros]: "keeps_inv (seq_is Q i) (add_error_choice pl j)"
  unfolding add_error_choice_def by (intro inv_intros) (simp add: seq_is_def)

lemma send_model_error_seq_is [inv_intros]: "keeps_inv (seq_is Q i) (send_model_error pl j)"
  unfolding send_model_error_def by (intro inv_intros) (simp add: seq_is_def)

lemma evict_all_seq_is [inv_intros]: "keeps_inv (seq_is Q i) (evict_all pl)"
  unfolding evict_all_def by (intro inv_intros) (auto simp: seq_is_def split_def intro!: inv_intros)

lemma seq_kept:
  assumes "m b = (r, b')" and "keeps_inv (seq_is (\<lambda>s. s = the_seq i b) i) m"
  shows "the_seq i b' = the_seq i b"
  using keeps_invD [OF assms(2), of b] assms(1) by (simp add: seq_is_def)

lemma change_state_seq:
  assumes "change_state i st b = (Ok (), b')"
  shows "the_seq j b' = (if j = i then (the_seq j b)\<lparr>state := st\<rparr> else the_seq j b)"
proof -
  obtain s g where "set_state st (the_seq i b) (the_group i b) = Ok (s, g)" "b' = put_group i g (put_seq i s b)"
    using assms by (cases "set_state st (the_seq i b) (the_group i b)") (auto simp: change_state_def sm_simps)
  then show ?thesis by (auto simp: set_state_def res_simps split: if_splits)
qed

lemma change_states_seq:
  assumes "seach (\<lambda>i. change_state i st) hs b = (Ok (), b')"
  shows "the_seq j b' = (if j \<in> set hs then (the_seq j b)\<lparr>state := st\<rparr> else the_seq j b)"
  using assms
proof (induction hs arbitrary: b)
  case Nil
  then show ?case by (simp add: sm_simps)
next
  case (Cons i hs)
  from Cons.prems obtain b1 where "change_state i st b = (Ok (), b1)"
    "seach (\<lambda>i. change_state i st) hs b1 = (Ok (), b')"
    by (auto elim: sbindE)
  from Cons.IH [OF this(2)] change_state_seq [OF this(1)] show ?case by auto
qed

lemma forward_error_seq:
  assumes "handle_pipeline_forward_error pl hs b = (Ok (), b')"
  shows "the_seq j b' = (if j \<in> set hs then (the_seq j b)\<lparr>state := SeqError\<rparr> else the_seq j b)"
proof -
  from assms obtain b1 b2 b3 b4 where b: "seach (add_error_choice pl) hs b = (Ok (), b1)"
    "seach (send_model_error pl) hs b1 = (Ok (), b2)"
    "seach (\<lambda>i. change_state i SeqError) hs b2 = (Ok (), b3)"
    "reset_non_granular_state b3 = (Ok (), b4)" "evict_all pl b4 = (Ok (), b')"
    unfolding handle_pipeline_forward_error_def by (auto elim!: sbindE)
  have "the_seq j b1 = the_seq j b" by (rule seq_kept [where m = "seach (add_error_choice pl) hs", OF b(1)]) (intro inv_intros)
  moreover have "the_seq j b2 = the_seq j b1" by (rule seq_kept [where m = "seach (send_model_error pl) hs", OF b(2)]) (intro inv_intros)
  moreover have "the_seq j b4 = the_seq j b3" by (rule seq_kept [where m = "reset_non_granular_state", OF b(4)]) (intro inv_intros)
  moreover have "the_seq j b' = the_seq j b4" by (rule seq_kept [where m = "evict_all pl", OF b(5)]) (intro inv_intros)
  ultimately show ?thesis using change_states_seq [OF b(3), of j] by simp
qed

section \<open>A turn of the default scheduler\<close>

lemma on_default_run:
  "m (lend running_seq e) = (r, b) \<Longrightarrow> on_default m e
     = (r, e\<lparr>es_batch := b, es_sched := (es_sched e)\<lparr>drunning := map (\<lambda>s. the_seq (seq_id s) b) (drunning (es_sched e))\<rparr>\<rparr>)"
  by (simp add: on_default_def with_batch_def the_seq_def)

lemma attempt_Ok: "m s = (Ok (), s') \<Longrightarrow> attempt m ok failed s = ok s'"
  by (simp add: attempt_def)

lemma attempt_Bail: "m s = (Err (Bail e), s') \<Longrightarrow> attempt m ok failed s = failed s'"
  by (simp add: attempt_def)

lemma lent_seq: "s \<in> set (drunning (es_sched e)) \<Longrightarrow> distinct (map seq_id (drunning (es_sched e)))
    \<Longrightarrow> the_seq (seq_id s) (lend running_seq e) = s"
proof -
  assume s: "s \<in> set (drunning (es_sched e))" and d: "distinct (map seq_id (drunning (es_sched e)))"
  have "find (\<lambda>t. seq_id t = seq_id s) ss = Some s" if "s \<in> set ss" "distinct (map seq_id ss)" for ss
    using that by (induction ss) (auto simp: image_iff)
  from this [OF s d] show ?thesis by (simp add: lend_def running_seq_def the_seq_def)
qed

lemma seq_len_stamps [simp]:
  "seq_len (s\<lparr>state := st, prompt_timestamp := ts\<rparr>) = seq_len s"
  "seq_len (s\<lparr>prompt_timestamp := ts\<rparr>) = seq_len s"
  by (simp_all add: seq_len_def cong del: option.case_cong_weak)

lemma stamp_default_run:
  assumes "seq_len (the_seq i b) = Ok n"
  shows "\<exists>b'. stamp_default pl i b = (Ok (), b') \<and> bt_out b' = bt_out b
     \<and> (\<forall>j. the_seq j b' = (if j = i then (the_seq j b)\<lparr>state := RunningCompletion,
           prompt_timestamp := Some (pl_now pl)\<rparr> else the_seq j b))"
proof -
  have "change_state i RunningCompletion b
      = (Ok (), put_group i (the_group i b) (put_seq i ((the_seq i b)\<lparr>state := RunningCompletion\<rparr>) b))"
    by (rule change_state_works) simp
  then show ?thesis
    using assms by (simp add: stamp_default_def sbind_step [of "change_state i RunningCompletion"] sm_simps)
qed

lemma seach_one: "f x s = (Ok (), s') \<Longrightarrow> seach f [x] s = (Ok (), s')"
  by (simp add: sbind_def sret_def)

text \<open>One sequence that may go on is scheduled as a completion.\<close>

lemma lone_completion_scheduled:
  assumes "hash_ok h" and "seq_len s = Ok n"
    and "filter is_running (drunning sch) = [s]" and "dwaiting sch = []"
  shows "\<exists>out sch'. schedule_with h fl False sch = Ok (out, sch') \<and> map seq_id (completion out) = [seq_id s]
     \<and> prompt out = []"
proof -
  have "\<forall>t \<in> set [s]. bucket_key t = Ok (adapters s, n, has_input_images s \<and> is_prompt s, token_offset s)"
    using assms(2) by (simp add: bucket_key_def)
  from bucket_single [OF assms(1) this, of fl "[]" True] obtain run where
    b: "bucket_and_waitlist_seqs_waiting h fl [s] [] True = Ok (run, [])" "same_up_to_urgency run [s]" by blast
  have "mset (map seq_id run) = {#seq_id s#}" using same_ids [OF b(2)] by simp
  then have "map seq_id run = [seq_id s]" by (simp del: mset_map)
  then show ?thesis
    using assms(3,4) b(1) by (simp add: schedule_with_def default_schedule_def)
qed

text \<open>
  C36. Under the default scheduler a prompt that is done after its first token runs on: the engine
  makes every prompt that ran a running completion, also one that the pipeline has just
  marked as done and answered. The next turn schedules it again.
\<close>

theorem a_prompt_that_is_done_runs_on:
  assumes "hash_ok h" and "ready_default (es_sched e)"
    and "schedule_with h fl terminate (es_sched e) = Ok (out, sch)"
    and "completion out = []" and "prompt out = [s]" and "dwaiting sch = []"
    and "step [seq_id s] True (es_raw e (seq_id s)) (DefaultInstructions (CacheReset True False (adapters s)) (cache_post_op e))
           (lend running_seq (e\<lparr>es_sched := sch\<rparr>)) = (Ok (), b)"
    and "state (the_seq (seq_id s) b) = Done reason" and "seq_id (the_seq (seq_id s) b) = seq_id s"
    and "seq_len (the_seq (seq_id s) b) = Ok n"
  shows "\<exists>e' s'. default_turn pl step h fl terminate e = (Ok (), e') \<and> bt_out (es_batch e') = bt_out b
     \<and> drunning (es_sched e') = [s'] \<and> seq_id s' = seq_id s \<and> state s' = RunningCompletion
     \<and> (\<exists>out' sch'. schedule_with h fl False (es_sched e') = Ok (out', sch')
          \<and> map seq_id (completion out') = [seq_id s])"
proof -
  let ?i = "seq_id s"
  define e0 where "e0 = e\<lparr>es_sched := sch\<rparr>"
  have "mset (completion out @ prompt out) = mset (drunning sch)"
    using default_schedule_spec [OF assms(1,2), of fl terminate] assms(3)
    by (auto simp: schedule_with_def res_simps)
  then have run: "drunning (es_sched e0) = [s]" using assms(4,5) by (simp add: e0_def)
  let ?step = "step [?i] True (es_raw e ?i) (DefaultInstructions (CacheReset True False (adapters s)) (cache_post_op e))"
  define e1 where "e1 = e0\<lparr>es_batch := b, es_sched := sch\<lparr>drunning := [the_seq ?i b]\<rparr>\<rparr>"
  have step: "on_default ?step e0 = (Ok (), e1)"
    using on_default_run [where m = ?step and e = e0 and r = "Ok ()" and b = b] assms(7) run
    by (simp add: e0_def e1_def)
  have lent: "the_seq ?i (lend running_seq e1) = the_seq ?i b"
    using lent_seq [of "the_seq ?i b" e1] assms(9) by (simp add: e1_def)
  obtain b' where b': "stamp_default pl ?i (lend running_seq e1) = (Ok (), b')" "bt_out b' = bt_out b"
    "the_seq ?i b' = (the_seq ?i b)\<lparr>state := RunningCompletion, prompt_timestamp := Some (pl_now pl)\<rparr>"
    using stamp_default_run [of ?i "lend running_seq e1" n pl] lent assms(10)
    by (auto simp: lend_def e1_def)
  let ?s' = "the_seq ?i b'" and ?stamp = "seach (stamp_default pl) [?i]"
  define e2 where "e2 = e1\<lparr>es_batch := b', es_sched := sch\<lparr>drunning := [?s']\<rparr>\<rparr>"
  have stamp: "on_default ?stamp e1 = (Ok (), e2)"
    using on_default_run [where m = ?stamp and e = e1 and r = "Ok ()" and b = b']
      seach_one [where f = "stamp_default pl" and x = ?i, OF b'(1)] assms(9)
    by (simp add: e1_def e2_def)
  have same: "cache_post_op e0 = cache_post_op e" "es_raw e0 = es_raw e" by (simp_all add: e0_def cache_post_op_def)
  have "default_turn pl step h fl terminate e = default_prompts pl step [s] e0"
    using assms(3-5) by (simp add: default_turn_def sm_simps e0_def)
  also have "\<dots> = attempt (on_default ?step) (sbind (on_default ?stamp) (\<lambda>_. smod (\<lambda>e. e\<lparr>es_last_ids := []\<rparr>)))
      (on_default (handle_pipeline_forward_error pl [?i])) e0"
    using same by (simp add: default_prompts_def sm_simps same_raw_def Let_def del: seach.simps)
  also have "\<dots> = (Ok (), e2\<lparr>es_last_ids := []\<rparr>)"
    using step stamp by (simp add: attempt_Ok sbind_step [of "on_default ?stamp"] sm_simps del: seach.simps)
  finally have turn: "default_turn pl step h fl terminate e = (Ok (), e2\<lparr>es_last_ids := []\<rparr>)" .
  have "\<exists>out' sch'. schedule_with h fl False (es_sched e2) = Ok (out', sch') \<and> map seq_id (completion out') = [?i]"
    using lone_completion_scheduled [OF assms(1), of ?s' n "es_sched e2" fl] b'(3) assms(6,9,10)
    by (auto simp: is_running_def e2_def)
  then show ?thesis
    using turn b'(2,3) assms(9) by (intro exI [of _ "e2\<lparr>es_last_ids := []\<rparr>"] exI [of _ ?s']) (simp add: e2_def)
qed

lemma lend_again:
  assumes "\<forall>s \<in> set (drunning sch). seq_id (the_seq (seq_id s) b) = seq_id s"
  shows "lend running_seq (e\<lparr>es_batch := b, es_sched := sch\<lparr>drunning := map (\<lambda>s. the_seq (seq_id s) b) (drunning sch)\<rparr>\<rparr>) = b"
proof -
  let ?sch = "sch\<lparr>drunning := map (\<lambda>s. the_seq (seq_id s) b) (drunning sch)\<rparr>"
  have "running_seq ?sch (bt_seqs b) i = bt_seqs b i" for i
  proof (cases "find (\<lambda>t. seq_id t = i) (drunning ?sch)")
    case None
    then show ?thesis by (simp add: running_seq_def)
  next
    case (Some t)
    then have "t \<in> set (drunning ?sch)" "seq_id t = i" by (auto simp: find_Some_iff)
    then have "t = the_seq i b" using assms by auto
    then show ?thesis using Some by (simp add: running_seq_def the_seq_def)
  qed
  then have "running_seq ?sch (bt_seqs b) = bt_seqs b" by (rule ext)
  then show ?thesis by (simp add: lend_def)
qed

text \<open>
  C35. When a completion step of the default scheduler fails, a prompt that was scheduled for
  the same turn is not run in it, and the next turn runs it as a completion: the model
  decodes a sequence whose prompt it has never seen.
\<close>

theorem a_failed_completion_skips_the_prompt:
  assumes "hash_ok h" and "ready_default (es_sched e)"
    and "schedule_with h fl terminate (es_sched e) = Ok (out, sch)"
    and "completion out = c # cs" and "prompt out = [s]" and "state s = RunningPrompt" and "dwaiting sch = []"
    and "distinct (map seq_id (s # c # cs))" and "\<forall>t \<in> set cs. es_raw e (seq_id t) = es_raw e (seq_id c)"
    and "step (map seq_id (c # cs)) False (es_raw e (seq_id c))
           (DefaultInstructions (completion_pre_op (map seq_id (c # cs)) (adapters c) e) (cache_post_op e))
           (lend running_seq (e\<lparr>es_sched := sch\<rparr>)) = (Err (Bail m), b)"
    and "the_seq (seq_id s) b = s" and "\<forall>t \<in> set (c # cs). seq_id (the_seq (seq_id t) b) = seq_id t"
    and "handle_pipeline_forward_error pl (map seq_id (c # cs)) b = (Ok (), b')"
  shows "\<exists>e'. default_turn pl step h fl terminate e = (Ok (), e') \<and> s \<in> set (drunning (es_sched e'))
     \<and> (\<exists>out' sch'. schedule_with h fl False (es_sched e') = Ok (out', sch')
          \<and> map seq_id (completion out') = [seq_id s] \<and> prompt out' = [])"
proof -
  let ?ids = "map seq_id (c # cs)"
  define e0 where "e0 = e\<lparr>es_sched := sch\<rparr>"
  have ready: "ready_default sch" and m: "mset (drunning sch) = mset (s # c # cs)"
    using default_schedule_spec [OF assms(1,2), of fl terminate] assms(3-5)
    by (auto simp: schedule_with_def res_simps)
  have run: "set (drunning sch) = set (s # c # cs)" using mset_eq_setD [OF m] .
  have "is_ok (seq_len s)" using ready run by (simp add: ready_default_def)
  then obtain n where n: "seq_len s = Ok n" by (auto simp: is_ok_iff)
  let ?step = "step ?ids False (es_raw e (seq_id c))
      (DefaultInstructions (completion_pre_op ?ids (adapters c) e) (cache_post_op e))"
  define e1 where "e1 = e0\<lparr>es_batch := b, es_sched := sch\<lparr>drunning := map (\<lambda>s. the_seq (seq_id s) b) (drunning sch)\<rparr>\<rparr>"
  have step: "on_default ?step e0 = (Err (Bail m), e1)"
    using on_default_run [where m = ?step and e = e0 and r = "Err (Bail m)" and b = b] assms(10)
    by (simp add: e0_def e1_def)
  have "lend running_seq e1 = b"
    unfolding e1_def by (rule lend_again) (use run assms(11,12) in auto)
  then have handled: "on_default (handle_pipeline_forward_error pl ?ids) e1 = (Ok (), e1\<lparr>es_batch := b',
      es_sched := sch\<lparr>drunning := map (\<lambda>s. the_seq (seq_id (the_seq (seq_id s) b)) b') (drunning sch)\<rparr>\<rparr>)"
    using on_default_run [where m = "handle_pipeline_forward_error pl ?ids" and e = e1] assms(13)
    by (simp add: e1_def)
  define e2 where "e2 = e1\<lparr>es_batch := b', es_sched := sch\<lparr>drunning :=
      map (\<lambda>s. the_seq (seq_id (the_seq (seq_id s) b)) b') (drunning sch)\<rparr>\<rparr>"
  have same: "same_raw ?ids e0 = Ok (es_raw e (seq_id c))" "cache_post_op e0 = cache_post_op e"
    "completion_pre_op ?ids ad e0 = completion_pre_op ?ids ad e" for ad
    using assms(9) by (simp_all add: same_raw_def e0_def cache_post_op_def completion_pre_op_def)
  have turn: "default_turn pl step h fl terminate e = (Ok (), e2)"
    using assms(3,4) same step handled
    by (simp add: default_turn_def sm_simps Let_def e0_def [symmetric] attempt_Bail [of ?step] attempt_def e2_def)
  have s': "the_seq (seq_id s) b' = s"
    using forward_error_seq [OF assms(13), of "seq_id s"] assms(8,11) by auto
  have failed: "\<not> is_running (the_seq (seq_id t) b')" if "t \<in> set (c # cs)" for t
    using forward_error_seq [OF assms(13), of "seq_id t"] that by (auto simp: is_running_def)
  let ?f = "\<lambda>t. the_seq (seq_id (the_seq (seq_id t) b)) b'"
  have "mset (filter is_running (map ?f (drunning sch))) = filter_mset is_running (image_mset ?f (mset (s # c # cs)))"
    by (simp add: m [symmetric] del: mset.simps)
  also have "image_mset ?f (mset (s # c # cs)) = image_mset (\<lambda>t. the_seq (seq_id t) b') (mset (s # c # cs))"
    by (rule image_mset_cong) (use assms(11,12) in auto)
  also have "filter_mset is_running \<dots> = mset (filter is_running (map (\<lambda>t. the_seq (seq_id t) b') (s # c # cs)))"
    by (simp only: mset_filter mset_map)
  also have "filter is_running (map (\<lambda>t. the_seq (seq_id t) b') (s # c # cs)) = [s]"
    using s' failed assms(6) by (auto simp: is_running_def filter_empty_conv)
  finally have "filter is_running (drunning (es_sched e2)) = [s]" by (simp add: e2_def del: mset_filter)
  moreover from this have "s \<in> set (drunning (es_sched e2))" by (metis filter_is_subset list.set_intros(1) subsetD)
  moreover have "dwaiting (es_sched e2) = []" using assms(7) by (simp add: e2_def)
  ultimately show ?thesis
    using turn lone_completion_scheduled [OF assms(1) n, of "es_sched e2" fl] by (intro exI [of _ e2]) simp
qed

section \<open>Witnesses\<close>

definition a_prompt :: "nat sequence" where
  "a_prompt = plain_sequence\<lparr>cache := [None]\<rparr>"

definition a_default_engine :: "(nat, window, nat list list list, nat default_scheduler) engine_state" where
  "a_default_engine = \<lparr>es_id = 2, es_sched = \<lparr>dwaiting = [a_prompt], drunning = [], fixed_method = 4\<rparr>,
     es_batch = a_batch a_prompt (group_new 1 False False None), es_raw = (\<lambda>_. False), es_groups = 1,
     es_last_ids = [], es_no_kv_cache = False, es_replies = []\<rparr>"

text \<open>A step that samples token \<open>t\<close> for one sequence.\<close>

definition sampled_step :: "nat \<Rightarrow> (nat, window, nat list list list) step" where
  "sampled_step t hs prompts raw backend = add_sampled a_pipeline False [(Ok (token_logprob t), hd hs)]"

text \<open>What a theorem about a turn needs to know of the first turn, computed.\<close>

definition first_turn :: "nat \<Rightarrow> _" where
  "first_turn t = rbind (schedule_with reverse_order nat_f64 False (es_sched a_default_engine)) (\<lambda>(out, sch).
     let (r, b) = sampled_step t [1] True False (DefaultInstructions (CacheReset True False None) CacheOut)
           (lend running_seq (a_default_engine\<lparr>es_sched := sch\<rparr>))
     in Ok (completion out, prompt out, dwaiting sch, r, the_seq 1 b, bt_out b))"

lemma first_turn_ends:
  "map_sum id (\<lambda>(cs, ps, w, r, s, out). (cs, map seq_id ps, map adapters ps, w, r, state s, seq_id s, seq_len s, out)) (first_turn 0)
   = Ok ([], [1], [None], [], Ok (), Done Eos, 1, Ok 4,
       [(1, CompletionDone [\<lparr>cc_finish_reason = ''stop'', cc_index = 0, cc_text = []\<rparr>])])"
  by code_simp

theorem a_prompt_that_is_done_runs_on_witness:
  "\<exists>e'. default_turn a_pipeline (sampled_step 0) reverse_order nat_f64 False a_default_engine = (Ok (), e')
     \<and> bt_out (es_batch e') = [(1, CompletionDone [\<lparr>cc_finish_reason = ''stop'', cc_index = 0, cc_text = []\<rparr>])]
     \<and> map state (drunning (es_sched e')) = [RunningCompletion]"
proof -
  let ?e = a_default_engine
  obtain out sch where 1: "schedule_with reverse_order nat_f64 False (es_sched ?e) = Ok (out, sch)"
    using first_turn_ends by (cases "schedule_with reverse_order nat_f64 False (es_sched ?e)") (auto simp: first_turn_def)
  let ?m = "sampled_step 0 [1] True False (DefaultInstructions (CacheReset True False None) CacheOut)
       (lend running_seq (?e\<lparr>es_sched := sch\<rparr>))"
  obtain r b where 2: "?m = (r, b)" by (cases ?m)
  have t: "r = Ok ()" "completion out = []" "map seq_id (prompt out) = [1]" "map adapters (prompt out) = [None]"
    "dwaiting sch = []" "state (the_seq 1 b) = Done Eos" "seq_id (the_seq 1 b) = 1" "seq_len (the_seq 1 b) = Ok 4"
    "bt_out b = [(1, CompletionDone [\<lparr>cc_finish_reason = ''stop'', cc_index = 0, cc_text = []\<rparr>])]"
    using first_turn_ends 2 by (simp_all add: first_turn_def 1)
  from t(3,4) obtain s where s: "prompt out = [s]" "seq_id s = 1" "adapters s = None" by auto
  have "ready_default (es_sched ?e)" by (simp add: ready_default_def a_default_engine_def a_prompt_def seq_len_def)
  moreover have "cache_post_op ?e = CacheOut" "es_raw ?e 1 = False"
    by (simp_all add: cache_post_op_def a_default_engine_def)
  ultimately show ?thesis
    using a_prompt_that_is_done_runs_on [OF reverse_order_ok, of ?e nat_f64 False out sch s "sampled_step 0" b Eos 4 a_pipeline]
      1 2 t s by fastforce
qed

text \<open>One sequence decodes, another waits with its prompt, and the model runs out of memory.\<close>

definition a_busy_engine :: "(nat, window, nat list list list, nat default_scheduler) engine_state" where
  "a_busy_engine = a_default_engine\<lparr>es_sched := \<lparr>dwaiting = [a_prompt],
     drunning = [a_prompt\<lparr>seq_id := 2, state := RunningCompletion\<rparr>], fixed_method = 4\<rparr>\<rparr>"

definition failing_step :: "(nat, window, nat list list list) step" where
  "failing_step hs prompts raw backend b = (Err (Bail ''out of memory''), b)"

definition busy_schedule :: "(nat default_output \<times> nat default_scheduler) res" where
  "busy_schedule = schedule_with reverse_order nat_f64 False (es_sched a_busy_engine)"

lemma a_busy_engine_schedules:
  "map_sum id (\<lambda>(out, sch). (completion out, prompt out, dwaiting sch)) busy_schedule
   = Ok ([a_prompt\<lparr>seq_id := 2, state := RunningCompletion\<rparr>], [a_prompt\<lparr>state := RunningPrompt\<rparr>], [])"
  by code_simp

lemma the_error_is_handled:
  "map_sum id (\<lambda>(out, sch). let (r, b) = handle_pipeline_forward_error a_pipeline [2]
       (lend running_seq (a_busy_engine\<lparr>es_sched := sch\<rparr>))
     in (r, the_seq 1 (lend running_seq (a_busy_engine\<lparr>es_sched := sch\<rparr>)),
         seq_id (the_seq 2 (lend running_seq (a_busy_engine\<lparr>es_sched := sch\<rparr>))))) busy_schedule
   = Ok (Ok (), a_prompt\<lparr>state := RunningPrompt\<rparr>, 2)"
  by code_simp

lemma map_sum_OkD: "map_sum id f r = Ok y \<Longrightarrow> \<exists>x. r = Ok x \<and> f x = y"
  by (cases r) simp_all

theorem a_failed_completion_skips_the_prompt_witness:
  "\<exists>e' out sch. default_turn a_pipeline failing_step reverse_order nat_f64 False a_busy_engine = (Ok (), e')
     \<and> schedule_with reverse_order nat_f64 False (es_sched e') = Ok (out, sch)
     \<and> map seq_id (completion out) = [1] \<and> prompt out = []"
proof -
  let ?e = a_busy_engine and ?c = "a_prompt\<lparr>seq_id := 2, state := RunningCompletion\<rparr>"
    and ?s = "a_prompt\<lparr>state := RunningPrompt\<rparr>"
  obtain out sch where 1: "busy_schedule = Ok (out, sch)" "completion out = [?c]" "prompt out = [?s]" "dwaiting sch = []"
    using map_sum_OkD [OF a_busy_engine_schedules] by auto
  let ?b = "lend running_seq (?e\<lparr>es_sched := sch\<rparr>)"
  obtain r b' where 2: "handle_pipeline_forward_error a_pipeline [2] ?b = (r, b')"
    by (cases "handle_pipeline_forward_error a_pipeline [2] ?b")
  have 3: "r = Ok ()" "the_seq 1 ?b = ?s" "seq_id (the_seq 2 ?b) = 2"
    using the_error_is_handled unfolding 1(1) by (simp_all add: 2)
  have ids: "seq_id a_prompt = 1" "adapters a_prompt = None"
    by (simp_all add: a_prompt_def plain_sequence_def new_waiting_def a_request_def)
  have "ready_default (es_sched ?e)"
    by (simp add: ready_default_def a_busy_engine_def a_default_engine_def a_prompt_def seq_len_def)
  then show ?thesis
    using a_failed_completion_skips_the_prompt [OF reverse_order_ok, of ?e nat_f64 False out sch ?c "[]" ?s failing_step
        "''out of memory''" ?b a_pipeline b'] 1 2 3 ids
    by (fastforce simp: busy_schedule_def failing_step_def)
qed

end
