(* ===== verification/Requests.thy ===== *)
theory Requests
  imports Engine
begin

text \<open>
  A request becomes sequences (\<^verbatim>\<open>Engine::add_request\<close> of \<^verbatim>\<open>mistralrs-core/src/engine/mod.rs\<close>):
  its prompt is built and shortened to the context of the model, the prefix cache is
  searched, the stop tokens are sorted out, and one sequence per choice is added to the
  scheduler. A request that cannot be served is answered with an error instead.

  Chat templates, the tokenizer, the token trie, the grammar library and the allocation of
  tensors are the parameter \<open>ev\<close>. A refused request ends the function early: the computations
  of this theory reply and then fail with \<open>Bail\<close>, which \<open>add_request\<close> catches.
\<close>

section \<open>Requests\<close>

datatype 'm request_message =
    Chat 'm
  | Completion rstring bool "nat option"
  | CompletionTokens "nat list"
  | VisionChat (vision_images: nat) 'm
  | ImageGeneration rstring

record ('f, 'm, 'c) normal_request =
  rq_messages :: "'m request_message"
  rq_params :: "'f sampling_params"
  rq_return_logprobs :: bool
  rq_is_streaming :: bool
  rq_id :: nat
  rq_constraint :: 'c
  rq_suffix :: "rstring option"
  rq_adapters :: "string list option"
  rq_tools :: "tool list option"
  rq_tool_choice :: "tool_choice option"
  rq_processors :: "('f list \<Rightarrow> nat list \<Rightarrow> 'f list res) list option"
  rq_return_raw_logits :: bool

text \<open>
  What the engine asks of the pipeline and the libraries. \<open>ev_has_extensions\<close> is there when the
  pipeline has a token trie; \<open>ev_alloc_k\<close> and \<open>ev_alloc_v\<close> say whether the allocations for a
  choice succeed, when caches are preallocated at all.
\<close>

record ('f, 'm, 'c) engine_env =
  ev_chat_template :: bool
  ev_process :: "'m \<Rightarrow> tool list \<Rightarrow> (nat list \<times> rstring) res"
  ev_encode :: "(rstring \<Rightarrow> nat list res) option"
  ev_decode :: "nat list \<Rightarrow> rstring res"
  ev_sampler_tok :: "((rstring \<Rightarrow> nat list res) \<times> (nat \<Rightarrow> rstring res)) option"
  ev_tiny :: 'f
  ev_truncate :: bool
  ev_has_extensions :: "(nat \<Rightarrow> bool) option"
  ev_grammar :: "'c \<Rightarrow> unit res"
  ev_layers :: nat
  ev_is_xlora :: bool
  ev_block_size :: "nat option"
  ev_preallocate :: bool
  ev_same_shape :: bool
  ev_alloc_k :: "nat \<Rightarrow> bool"
  ev_alloc_v :: "nat \<Rightarrow> bool"
  ev_millis :: "nat \<Rightarrow> nat"
  ev_listens :: bool

section \<open>Refusing\<close>

type_synonym ('f, 't, 'h, 's, 'a) engine_sm = "(('f, 't, 'h, 's) engine_state, 'a) sm"

definition refuse :: "('f, 'm, 'c) engine_env \<Rightarrow> nat \<Rightarrow> response \<Rightarrow> ('f, 't, 'h, 's, 'a) engine_sm" where
  "refuse ev rid reply =
     sbind (slift (rassert (ev_listens ev) ''Expected receiver.'')) (\<lambda>_.
     sbind (smod (\<lambda>e. e\<lparr>es_replies := es_replies e @ [(rid, reply)]\<rparr>)) (\<lambda>_.
     slift (Err (Bail ''refused''))))"

text \<open>\<^verbatim>\<open>handle_seq_error!\<close>.\<close>

definition handle_seq_error :: "('f, 'm, 'c) engine_env \<Rightarrow> nat \<Rightarrow> 'a res \<Rightarrow> ('f, 't, 'h, 's, 'a) engine_sm" where
  "handle_seq_error ev rid r =
     (case r of Inl (Panic m) \<Rightarrow> slift (Err (Panic m)) | Inl (Bail _) \<Rightarrow> refuse ev rid InternalError | Inr x \<Rightarrow> sret x)"

section \<open>The prompt\<close>

definition is_chat_request :: "'m request_message \<Rightarrow> bool" where
  "is_chat_request m = (case m of Chat _ \<Rightarrow> True | VisionChat _ _ \<Rightarrow> True | _ \<Rightarrow> False)"

definition request_images :: "'m request_message \<Rightarrow> nat option" where
  "request_images m = (case m of VisionChat n _ \<Rightarrow> Some n | _ \<Rightarrow> None)"

definition request_best_of :: "'m request_message \<Rightarrow> nat option" where
  "request_best_of m = (case m of Completion _ _ bo \<Rightarrow> bo | _ \<Rightarrow> None)"

definition request_echo :: "'m request_message \<Rightarrow> bool" where
  "request_echo m = (case m of Completion _ echo _ \<Rightarrow> echo | _ \<Rightarrow> False)"

definition prompt_of_request :: "('f, 'm, 'c) engine_env \<Rightarrow> ('f, 'm, 'c) normal_request
    \<Rightarrow> ('f, 't, 'h, 's, nat list \<times> rstring) engine_sm" where
  "prompt_of_request ev rq =
     (let rid = rq_id rq;
          of_messages = (\<lambda>m. handle_seq_error ev rid
            (ev_process ev m (case rq_tools rq of None \<Rightarrow> [] | Some ts \<Rightarrow> ts)))
      in case rq_messages rq of
           Chat m \<Rightarrow> of_messages m
         | VisionChat _ m \<Rightarrow> of_messages m
         | Completion text _ _ \<Rightarrow>
             (case ev_encode ev of None \<Rightarrow> refuse ev rid ValidationError
              | Some encode \<Rightarrow> handle_seq_error ev rid (rbind (encode text) (\<lambda>toks. Ok (toks, text))))
         | ImageGeneration text \<Rightarrow> sret ([2 ^ 32 - 1], text)
         | CompletionTokens toks \<Rightarrow>
             (case ev_encode ev of None \<Rightarrow> refuse ev rid ValidationError
              | Some _ \<Rightarrow> handle_seq_error ev rid (rbind (ev_decode ev toks) (\<lambda>text. Ok (toks, text)))))"

text \<open>How many tokens a prompt that is too long leaves for the generation.\<close>

definition room_for_tokens :: "nat option \<Rightarrow> nat \<Rightarrow> nat \<Rightarrow> nat" where
  "room_for_tokens max_tokens currently_over len =
     (case max_tokens of None \<Rightarrow> 10
      | Some sampling_max \<Rightarrow> if len \<le> currently_over + sampling_max then 10 else sampling_max)"

definition truncate_prompt :: "nat \<Rightarrow> nat option \<Rightarrow> nat list \<Rightarrow> nat list res" where
  "truncate_prompt max_seq max_tokens toks =
     rbind (usub (length toks) max_seq) (\<lambda>currently_over.
     slice_from toks (currently_over + room_for_tokens max_tokens currently_over (length toks)))"

definition fit_prompt :: "('f, 'm, 'c) engine_env \<Rightarrow> ('t, 'h, 'e, 'v) pipeline \<Rightarrow> ('f, 'm, 'c) normal_request
    \<Rightarrow> nat list \<Rightarrow> ('f, 't, 'h, 's, nat list) engine_sm" where
  "fit_prompt ev pl rq toks =
     (if toks = [] then refuse ev (rq_id rq) ValidationError
      else if pl_max_seq_len pl < length toks then
        (if \<not> ev_truncate ev then refuse ev (rq_id rq) ValidationError
         else slift (truncate_prompt (pl_max_seq_len pl) (sp_max_len (rq_params rq)) toks))
      else sret toks)"

section \<open>Stop tokens\<close>

definition has_extensions :: "('f, 'm, 'c) engine_env \<Rightarrow> nat \<Rightarrow> bool" where
  "has_extensions ev t = (case ev_has_extensions ev of None \<Rightarrow> False | Some f \<Rightarrow> f t)"

fun check_stop_ids :: "('f, 'm, 'c) engine_env \<Rightarrow> nat \<Rightarrow> nat list \<Rightarrow> ('f, 't, 'h, 's, unit) engine_sm" where
  "check_stop_ids ev rid [] = sret ()"
| "check_stop_ids ev rid (t # ts) =
     (if has_extensions ev t then refuse ev rid ValidationError else check_stop_ids ev rid ts)"

fun sort_stop_strings :: "('f, 'm, 'c) engine_env \<Rightarrow> nat \<Rightarrow> rstring list \<Rightarrow> nat list \<Rightarrow> rstring list
    \<Rightarrow> ('f, 't, 'h, 's, nat list \<times> rstring list) engine_sm" where
  "sort_stop_strings ev rid [] toks strs = sret (toks, strs)"
| "sort_stop_strings ev rid (txt # txts) toks strs =
     (case ev_encode ev of None \<Rightarrow> refuse ev rid ValidationError
      | Some encode \<Rightarrow>
          sbind (handle_seq_error ev rid (encode txt)) (\<lambda>ids.
          case ids of
            [t] \<Rightarrow> if has_extensions ev t then sort_stop_strings ev rid txts toks (strs @ [txt])
                   else sort_stop_strings ev rid txts (toks @ [t]) strs
          | _ \<Rightarrow> sort_stop_strings ev rid txts toks (strs @ [txt])))"

definition stop_conditions :: "('f, 'm, 'c) engine_env \<Rightarrow> nat \<Rightarrow> stop_tokens_param option
    \<Rightarrow> ('f, 't, 'h, 's, nat list \<times> rstring list) engine_sm" where
  "stop_conditions ev rid stop =
     (case stop of None \<Rightarrow> sret ([], [])
      | Some (StopIds ids) \<Rightarrow> sbind (check_stop_ids ev rid ids) (\<lambda>_. sret (ids, []))
      | Some (StopSeqs strs) \<Rightarrow> sort_stop_strings ev rid strs [] [])"

section \<open>The sequences\<close>

text \<open>\<^verbatim>\<open>prefill_v2\<close>; the cache itself goes to \<open>bt_normal_cache\<close>.\<close>

definition prefill_v2 :: "nat list \<Rightarrow> nat \<Rightarrow> 'f sequence \<Rightarrow> 'f sequence" where
  "prefill_v2 toks offset s =
     s\<lparr>prefill_prompt_toks := Some toks, state := RunningPrefillPrompt, token_offset := offset\<rparr>"

definition preallocate_cache :: "('f, 'm, 'c) engine_env \<Rightarrow> nat \<Rightarrow> nat \<Rightarrow> ('f, 't, 'h, 's, unit) engine_sm" where
  "preallocate_cache ev rid index =
     (if \<not> ev_preallocate ev then sret ()
      else if \<not> ev_alloc_k ev index then refuse ev rid InternalError
      else if ev_same_shape ev \<or> ev_alloc_v ev index then sret ()
      else refuse ev rid InternalError)"

text \<open>What all choices of a request share.\<close>

record ('f, 't) prepared =
  pr_tokens :: "nat list"
  pr_text :: rstring
  pr_prefill :: "'t matching_cache option"
  pr_stop_toks :: "nat list"
  pr_stop_strings :: "rstring list"
  pr_group :: nat
  pr_sampler :: "'f sampler"
  pr_matcher :: "tool_calling_matcher option"

definition sequence_of_choice :: "('f, 'm, 'c) engine_env \<Rightarrow> ('f, 'm, 'c) normal_request \<Rightarrow> ('f, 't) prepared
    \<Rightarrow> nat \<Rightarrow> nat \<Rightarrow> 'f::zero sequence res" where
  "sequence_of_choice ev rq p index sid =
     rbind (new_waiting
       \<lparr>ns_tokens = pr_tokens p, ns_id = sid, ns_timestamp = ev_millis ev index, ns_layers = ev_layers ev,
        ns_stop_tokens = pr_stop_toks p, ns_stop_strings = map utf8_encode (pr_stop_strings p),
        ns_max_len = sp_max_len (rq_params rq), ns_return_logprobs = rq_return_logprobs rq,
        ns_is_xlora = ev_is_xlora ev, ns_response_index = index, ns_suffix = rq_suffix rq,
        ns_prefix = (if request_echo (rq_messages rq) then Some (pr_text p) else None),
        ns_adapters = rq_adapters rq, ns_has_images = (request_images (rq_messages rq) \<noteq> None),
        ns_block_size = ev_block_size ev, ns_tools = pr_matcher p\<rparr>) (\<lambda>s.
     Ok (case pr_prefill p of None \<Rightarrow> s | Some m \<Rightarrow> prefill_v2 (mc_toks m) (mc_offset m) s))"

definition put_sequence :: "(nat \<Rightarrow> 'f sequence \<Rightarrow> 's \<Rightarrow> 's) \<Rightarrow> bool \<Rightarrow> ('f, 't) prepared \<Rightarrow> 'f sequence
    \<Rightarrow> ('f, 't, 'h, 's) engine_state \<Rightarrow> ('f, 't, 'h, 's) engine_state" where
  "put_sequence add raw p s e =
     (let sid = es_id e; b = es_batch e
      in e\<lparr>es_id := sid + 1, es_sched := add sid s (es_sched e), es_raw := (es_raw e)(sid := raw),
           es_batch := b\<lparr>bt_group_of := (bt_group_of b)(sid := pr_group p),
             bt_normal_cache := (bt_normal_cache b)(sid :=
               (case pr_prefill p of None \<Rightarrow> replicate (length (cache s)) None | Some m \<Rightarrow> mc_normal m))\<rparr>\<rparr>)"

definition add_choice :: "('f, 'm, 'c) engine_env \<Rightarrow> (nat \<Rightarrow> 'f sequence \<Rightarrow> 's \<Rightarrow> 's) \<Rightarrow> ('f, 'm, 'c) normal_request
    \<Rightarrow> ('f, 't) prepared \<Rightarrow> nat \<Rightarrow> ('f::zero, 't, 'h, 's, unit) engine_sm" where
  "add_choice ev add rq p index =
     sbind (case ev_grammar ev (rq_constraint rq) of Inl (Panic m) \<Rightarrow> slift (Err (Panic m))
            | Inl (Bail _) \<Rightarrow> refuse ev (rq_id rq) ValidationError | Inr _ \<Rightarrow> sret ()) (\<lambda>_.
     sbind (preallocate_cache ev (rq_id rq) index) (\<lambda>_.
     sbind (sget es_id) (\<lambda>sid.
     sbind (slift (sequence_of_choice ev rq p index sid)) (\<lambda>s.
     smod (put_sequence add (rq_return_raw_logits rq) p s)))))"

section \<open>The request\<close>

definition find_prefix :: "('f, 'm, 'c) engine_env \<Rightarrow> ('t, 'h, 'e, 'v) pipeline \<Rightarrow> ('f, 'm, 'c) normal_request
    \<Rightarrow> nat list \<Rightarrow> ('f, 't, 'h, 's, 't matching_cache option) engine_sm" where
  "find_prefix ev pl rq toks =
     sbind (sget (\<lambda>e. search_for_matching_cache (pl_tensors pl) toks
         (case request_images (rq_messages rq) of None \<Rightarrow> False | Some n \<Rightarrow> n \<noteq> 0)
         (bt_cacher (es_batch e)) (bt_heap (es_batch e)))) (\<lambda>r.
     sbind (handle_seq_error ev (rq_id rq) r) (\<lambda>(hit, h).
     sbind (smod (\<lambda>e. e\<lparr>es_batch := (es_batch e)\<lparr>bt_heap := h\<rparr>\<rparr>)) (\<lambda>_. sret hit)))"

definition new_group :: "('f, 'm, 'c) normal_request \<Rightarrow> ('f, 't, 'h, 's, nat) engine_sm" where
  "new_group rq =
     sbind (sget es_groups) (\<lambda>gid.
     sbind (smod (\<lambda>e. e\<lparr>es_groups := gid + 1, es_batch := (es_batch e)\<lparr>bt_groups := (bt_groups (es_batch e))(gid :=
       group_new (sp_n_choices (rq_params rq)) (rq_is_streaming rq) (is_chat_request (rq_messages rq))
         (request_best_of (rq_messages rq)))\<rparr>\<rparr>)) (\<lambda>_. sret gid))"

definition sampler_of_request :: "('f, 'm, 'c) engine_env \<Rightarrow> ('f, 'm, 'c) normal_request
    \<Rightarrow> 'f::{linorder,zero,one} sampler res" where
  "sampler_of_request ev rq =
     (let sp = rq_params rq; or_else = (\<lambda>d x. case x of None \<Rightarrow> d | Some v \<Rightarrow> v)
      in sampler_new (ev_tiny ev) (Some (or_else 1 (sp_temperature sp))) (sp_top_n_logprobs sp)
           (ev_sampler_tok ev) (sp_frequency_penalty sp) (sp_presence_penalty sp) (sp_dry_params sp)
           (case sp_top_k sp of None \<Rightarrow> - 1 | Some k \<Rightarrow> int k) (or_else 1 (sp_top_p sp)) (or_else 0 (sp_min_p sp))
           (case rq_processors rq of None \<Rightarrow> [] | Some ps \<Rightarrow> ps))"

definition prepare_request :: "('f::{linorder,zero,one}, 'm, 'c) engine_env \<Rightarrow> ('t, 'h, 'e, 'v) pipeline
    \<Rightarrow> ('f, 'm, 'c) normal_request \<Rightarrow> ('f, 't, 'h, 's, ('f, 't) prepared) engine_sm" where
  "prepare_request ev pl rq =
     (let rid = rq_id rq
      in if is_chat_request (rq_messages rq) \<and> \<not> ev_chat_template ev then refuse ev rid ValidationError
         else sbind (prompt_of_request ev rq) (\<lambda>(toks, text).
              sbind (fit_prompt ev pl rq toks) (\<lambda>toks.
              sbind (find_prefix ev pl rq toks) (\<lambda>hit.
              sbind (stop_conditions ev rid (sp_stop_toks (rq_params rq))) (\<lambda>(stop_toks, stop_strs).
              sbind (new_group rq) (\<lambda>gid.
              sbind (handle_seq_error ev rid (sampler_of_request ev rq)) (\<lambda>sampler.
              if sp_n_choices (rq_params rq) = 0 then refuse ev rid ValidationError
              else sret \<lparr>pr_tokens = toks, pr_text = text, pr_prefill = hit, pr_stop_toks = stop_toks,
                         pr_stop_strings = stop_strs, pr_group = gid, pr_sampler = sampler,
                         pr_matcher = map_option (\<lambda>_. matcher_new
                           (case rq_tool_choice rq of None \<Rightarrow> ChoiceAuto | Some c \<Rightarrow> c)) (rq_tools rq)\<rparr>)))))))"

definition add_request :: "('f::{linorder,zero,one}, 'm, 'c) engine_env \<Rightarrow> ('t, 'h, 'e, 'v) pipeline
    \<Rightarrow> (nat \<Rightarrow> 'f sequence \<Rightarrow> 's \<Rightarrow> 's) \<Rightarrow> ('f, 'm, 'c) normal_request \<Rightarrow> ('f, 't, 'h, 's, unit) engine_sm" where
  "add_request ev pl add rq e =
     (case sbind (prepare_request ev pl rq) (\<lambda>p. seach (add_choice ev add rq p) [0..<sp_n_choices (rq_params rq)]) e of
        (Inl (Bail _), e) \<Rightarrow> (Ok (), e)
      | r \<Rightarrow> r)"

section \<open>Truncation\<close>

text \<open>
  A prompt that is too long keeps its last tokens, not its first ones as the warning says:
  all that leave room for the requested number of tokens, or for 10 when that is unknown or not
  below the context of the model. For a context of less than 10 tokens this panics, for one
  of 10 it leaves nothing.
\<close>

theorem truncation_keeps_the_end:
  assumes "max_seq < length toks"
    and "k = (case max_tokens of None \<Rightarrow> 10 | Some m \<Rightarrow> if m < max_seq then m else 10)"
  shows "if k \<le> max_seq
     then \<exists>cut. truncate_prompt max_seq max_tokens toks = Ok cut \<and> length cut = max_seq - k \<and> (\<exists>pre. toks = pre @ cut)
     else panics (truncate_prompt max_seq max_tokens toks)"
proof -
  let ?over = "length toks - max_seq"
  have room: "room_for_tokens max_tokens ?over (length toks) = k"
    using assms by (auto simp: room_for_tokens_def split: option.splits)
  then have run: "truncate_prompt max_seq max_tokens toks = slice_from toks (?over + k)"
    using assms(1) by (simp add: truncate_prompt_def)
  show ?thesis
  proof (cases "k \<le> max_seq")
    case True
    then have "truncate_prompt max_seq max_tokens toks = Ok (drop (?over + k) toks)"
      using run assms(1) by simp
    moreover have "toks = take (?over + k) toks @ drop (?over + k) toks" by simp
    moreover have "length (drop (?over + k) toks) = max_seq - k" using True assms(1) by simp
    ultimately show ?thesis using True by metis
  next
    case False
    then show ?thesis using run assms(1) by (simp add: slice_from_def)
  qed
qed

theorem truncation_keeps_the_end_witness:
  "(\<exists>cut. truncate_prompt 12 (Some 3) [0..<20] = Ok cut \<and> length cut = 9) \<and> panics (truncate_prompt 4 None [0..<20])"
  using truncation_keeps_the_end [of 12 "[0..<20]" 3 "Some 3"] truncation_keeps_the_end [of 4 "[0..<20]" 10 None]
  by auto

section \<open>Answered or queued\<close>

definition refusals :: "response set" where
  "refusals = {InternalError, ValidationError}"

lemma refusals_simps [simp]: "InternalError \<in> refusals" "ValidationError \<in> refusals"
  by (simp_all add: refusals_def)

text \<open>\<open>orderly rid m\<close>: \<open>m\<close> adds no sequence, and replies to the request exactly when it refuses it.\<close>

definition orderly :: "nat \<Rightarrow> ('f, 't, 'h, 's, 'a) engine_sm \<Rightarrow> bool" where
  "orderly rid m \<longleftrightarrow> (\<forall>e r e'. m e = (r, e') \<longrightarrow> es_id e' = es_id e \<and> es_sched e' = es_sched e \<and>
     (case r of Inl (Panic _) \<Rightarrow> True
      | Inl (Bail _) \<Rightarrow> \<exists>reply \<in> refusals. es_replies e' = es_replies e @ [(rid, reply)]
      | Inr _ \<Rightarrow> es_replies e' = es_replies e))"

named_theorems orderly_intros \<open>computations that reply once\<close>

lemma orderly_sret [orderly_intros]: "orderly rid (sret x)"
  and orderly_sget [orderly_intros]: "orderly rid (sget f)"
  and orderly_Ok [orderly_intros]: "orderly rid (slift (Ok y))"
  and orderly_Panic [orderly_intros]: "orderly rid (slift (Err (Panic msg)))"
  by (simp_all add: orderly_def sm_simps)

lemma orderly_slift: "(\<And>x. r \<noteq> Err (Bail x)) \<Longrightarrow> orderly rid (slift r)"
  by (auto simp: orderly_def sm_simps split: sum.splits err.splits)

lemma orderly_smod [orderly_intros]:
  "(\<And>e. es_id (f e) = es_id e \<and> es_sched (f e) = es_sched e \<and> es_replies (f e) = es_replies e)
    \<Longrightarrow> orderly rid (smod f)"
  by (auto simp: orderly_def sm_simps)

lemma orderly_sbind [orderly_intros]:
  assumes "orderly rid m" and "\<And>x. orderly rid (f x)"
  shows "orderly rid (sbind m f)"
  unfolding orderly_def
proof (intro allI impI)
  fix e r e'
  assume run: "sbind m f e = (r, e')"
  obtain r1 e1 where 1: "m e = (r1, e1)" by (cases "m e")
  note o1 = assms(1) [unfolded orderly_def, rule_format, OF 1]
  show "es_id e' = es_id e \<and> es_sched e' = es_sched e \<and>
     (case r of Inl (Panic _) \<Rightarrow> True
      | Inl (Bail _) \<Rightarrow> \<exists>reply \<in> refusals. es_replies e' = es_replies e @ [(rid, reply)]
      | Inr _ \<Rightarrow> es_replies e' = es_replies e)"
  proof (cases r1)
    case (Inl err)
    then show ?thesis using run 1 o1 by (auto simp: sbind_def split: err.splits)
  next
    case (Inr x)
    then have "f x e1 = (r, e')" using run 1 by (simp add: sbind_def)
    from assms(2) [unfolded orderly_def, rule_format, OF this] show ?thesis
      using o1 Inr by (cases r) (auto split: err.splits)
  qed
qed

lemma orderly_refuse [orderly_intros]: "reply \<in> refusals \<Longrightarrow> orderly rid (refuse ev rid reply)"
  by (cases "ev_listens ev") (simp_all add: orderly_def refuse_def sm_simps rassert_def)

lemma orderly_handle [orderly_intros]: "orderly rid (handle_seq_error ev rid r)"
  unfolding handle_seq_error_def by (auto split: sum.split err.split intro!: orderly_intros)

lemma orderly_prompt [orderly_intros]: "orderly (rq_id rq) (prompt_of_request ev rq)"
  unfolding prompt_of_request_def Let_def
  by (auto split: request_message.split option.split intro!: orderly_intros)

lemma truncate_no_bail: "truncate_prompt n m toks \<noteq> Err (Bail x)"
  by (auto simp: truncate_prompt_def usub_def slice_from_def)

lemma orderly_fit [orderly_intros]: "orderly (rq_id rq) (fit_prompt ev pl rq toks)"
  unfolding fit_prompt_def by (auto intro!: orderly_intros orderly_slift simp: truncate_no_bail)

lemma orderly_find_prefix [orderly_intros]: "orderly (rq_id rq) (find_prefix ev pl rq toks)"
  unfolding find_prefix_def by (auto intro!: orderly_intros split: prod.split)

lemma orderly_check [orderly_intros]: "orderly rid (check_stop_ids ev rid ts)"
  by (induction ts) (auto intro!: orderly_intros)

lemma orderly_sort [orderly_intros]: "orderly rid (sort_stop_strings ev rid txts toks strs)"
  by (induction txts arbitrary: toks strs) (auto intro!: orderly_intros split: option.split list.split)

lemma orderly_stop [orderly_intros]: "orderly rid (stop_conditions ev rid stop)"
  unfolding stop_conditions_def
  by (auto intro!: orderly_intros split: option.split stop_tokens_param.split)

lemma orderly_group [orderly_intros]: "orderly rid (new_group rq)"
  unfolding new_group_def by (auto intro!: orderly_intros)

lemma orderly_prepare: "orderly (rq_id rq) (prepare_request ev pl rq)"
  unfolding prepare_request_def Let_def by (auto intro!: orderly_intros split: prod.split)

definition alloc_fails :: "('f, 'm, 'c) engine_env \<Rightarrow> nat \<Rightarrow> bool" where
  "alloc_fails ev i \<longleftrightarrow> ev_preallocate ev \<and> (\<not> ev_alloc_k ev i \<or> \<not> ev_same_shape ev \<and> \<not> ev_alloc_v ev i)"

text \<open>The sequences \<open>ss\<close> were given the next ids and added, in this order.\<close>

definition queued :: "(nat \<Rightarrow> 'f sequence \<Rightarrow> 's \<Rightarrow> 's) \<Rightarrow> ('f, 't, 'h, 's) engine_state \<Rightarrow> ('f, 't, 'h, 's) engine_state
    \<Rightarrow> 'f sequence list \<Rightarrow> bool" where
  "queued add e e' ss \<longleftrightarrow> es_id e' = es_id e + length ss
     \<and> es_sched e' = fold (\<lambda>(sid, s). add sid s) (List.enumerate (es_id e) ss) (es_sched e)"

lemma queued_Nil: "es_id e' = es_id e \<Longrightarrow> es_sched e' = es_sched e \<Longrightarrow> queued add e e' []"
  by (simp add: queued_def)

lemma queued_Cons: "queued add (put_sequence add raw p s e) e' ss \<Longrightarrow> queued add e e' (s # ss)"
  by (simp add: queued_def put_sequence_def Let_def)

lemma queued_trans_front:
  "queued add e1 e' ss \<Longrightarrow> es_id e1 = es_id e \<Longrightarrow> es_sched e1 = es_sched e \<Longrightarrow> queued add e e' ss"
  by (simp add: queued_def)

lemma sequence_no_bail: "sequence_of_choice ev rq p index sid \<noteq> Err (Bail x)"
proof -
  have a: "append_token_id b t \<noteq> Err (Bail x)" for b t
    by (auto simp: append_token_id_def res_simps rassert_def vset_def)
  have b: "append_token_to_blocks m t \<noteq> Err (Bail x)" for m t
    by (cases m) (auto simp: res_simps a)
  have "append_tokens_to_blocks m toks \<noteq> Err (Bail x)" for m toks
    unfolding append_tokens_to_blocks_def
    by (induction toks arbitrary: m) (auto simp: res_simps b)
  then show ?thesis by (auto simp: sequence_of_choice_def new_waiting_def Let_def res_simps)
qed

lemma refuse_run: "refuse ev rid reply e =
    (if ev_listens ev then (Err (Bail ''refused''), e\<lparr>es_replies := es_replies e @ [(rid, reply)]\<rparr>)
     else (Err (Panic ''Expected receiver.''), e))"
  by (simp add: refuse_def sm_simps rassert_def)

lemma preallocate_run: "preallocate_cache ev rid i e =
    (if alloc_fails ev i then refuse ev rid InternalError e else (Ok (), e))"
  by (auto simp: preallocate_cache_def alloc_fails_def sm_simps)

lemma add_choice_run:
  "add_choice ev add rq p i e =
     (case ev_grammar ev (rq_constraint rq) of
        Inl (Panic msg) \<Rightarrow> (Err (Panic msg), e)
      | Inl (Bail _) \<Rightarrow> refuse ev (rq_id rq) ValidationError e
      | Inr _ \<Rightarrow> if alloc_fails ev i then refuse ev (rq_id rq) InternalError e
                 else case sequence_of_choice ev rq p i (es_id e) of
                        Inl err \<Rightarrow> (Err err, e) | Inr s \<Rightarrow> (Ok (), put_sequence add (rq_return_raw_logits rq) p s e))"
proof (cases "ev_grammar ev (rq_constraint rq)")
  case (Inl err)
  then show ?thesis by (cases err) (auto simp: add_choice_def refuse_run sbind_def slift_def)
next
  case (Inr u)
  then show ?thesis
    by (cases "sequence_of_choice ev rq p i (es_id e)")
      (auto simp: add_choice_def preallocate_run refuse_run sbind_def sret_def slift_def sget_def smod_def)
qed

lemma add_choice_cases:
  assumes "add_choice ev add rq p i e = (r, e')"
  obtains (panic) msg where "r = Err (Panic msg)"
    | (refused) msg reply where "r = Err (Bail msg)" and "es_id e' = es_id e" and "es_sched e' = es_sched e"
        and "reply \<in> refusals" and "es_replies e' = es_replies e @ [(rq_id rq, reply)]"
        and "(\<exists>m. ev_grammar ev (rq_constraint rq) = Err (Bail m)) \<or> alloc_fails ev i"
    | (added) s where "r = Ok ()" and "e' = put_sequence add (rq_return_raw_logits rq) p s e"
        and "\<not> (\<exists>m. ev_grammar ev (rq_constraint rq) = Err (Bail m))"
proof (cases "ev_grammar ev (rq_constraint rq)")
  case (Inl err)
  show thesis
  proof (cases err)
    case (Panic msg)
    show thesis by (rule panic [of msg]) (use assms Inl Panic in \<open>simp add: add_choice_run\<close>)
  next
    case (Bail msg)
    then show thesis using assms Inl panic refused [of "''refused''"]
      by (auto simp: add_choice_run refuse_run split: if_splits)
  qed
next
  case (Inr u)
  show thesis
  proof (cases "alloc_fails ev i")
    case True
    then show thesis using assms Inr panic refused [of "''refused''"]
      by (auto simp: add_choice_run refuse_run split: if_splits)
  next
    case False
    show thesis
    proof (cases "sequence_of_choice ev rq p i (es_id e)")
      case (Inl err)
      then show thesis using assms Inr False panic sequence_no_bail [of ev rq p i "es_id e"]
        by (cases err) (auto simp: add_choice_run)
    next
      case (Inr s)
      have run: "add_choice ev add rq p i e = (Ok (), put_sequence add (rq_return_raw_logits rq) p s e)"
        using Inr False \<open>ev_grammar ev (rq_constraint rq) = Ok u\<close> by (simp add: add_choice_run)
      show thesis
      proof (rule added [of s])
        show "r = Ok ()" "e' = put_sequence add (rq_return_raw_logits rq) p s e" using assms run by simp_all
        show "\<not> (\<exists>m. ev_grammar ev (rq_constraint rq) = Err (Bail m))"
          unfolding \<open>ev_grammar ev (rq_constraint rq) = Ok u\<close> by simp
      qed
    qed
  qed
qed

lemma prepared_choices: "prepare_request ev pl rq e = (Ok p, e') \<Longrightarrow> 0 < sp_n_choices (rq_params rq)"
  by (auto simp: prepare_request_def Let_def refuse_run sbind_eq_Ok split: if_splits prod.splits)

lemma add_choices_queue:
  assumes "seach (add_choice ev add rq p) [k..<n] e = (r, e')" and "\<And>msg. r \<noteq> Err (Panic msg)"
  shows "\<exists>ss. queued add e e' ss \<and>
     (if r = Ok () then length ss = n - k \<and> es_replies e' = es_replies e
      else length ss < n - k \<and> (\<exists>reply \<in> refusals. es_replies e' = es_replies e @ [(rq_id rq, reply)])
         \<and> ((\<exists>m. ev_grammar ev (rq_constraint rq) = Err (Bail m)) \<and> ss = [] \<or> alloc_fails ev (k + length ss)))"
  using assms
proof (induction "n - k" arbitrary: k e)
  case 0
  then have "r = Ok ()" "e' = e" by (simp_all add: sm_simps)
  then show ?case using 0 by (intro exI [of _ "[]"]) (simp add: queued_Nil)
next
  case (Suc d)
  then have list: "[k..<n] = k # [Suc k..<n]" by (simp add: upt_conv_Cons)
  obtain r1 e1 where 1: "add_choice ev add rq p k e = (r1, e1)" by (cases "add_choice ev add rq p k e")
  from 1 show ?case
  proof (cases rule: add_choice_cases)
    case (panic msg)
    then have "r = Err (Panic msg)" using Suc.prems(1) 1 list by (simp add: sbind_def)
    with Suc.prems(2) show ?thesis by blast
  next
    case (refused msg reply)
    then have "r = Err (Bail msg)" "e' = e1" using Suc.prems(1) 1 list by (simp_all add: sbind_def)
    then show ?thesis using refused Suc.hyps(2) by (intro exI [of _ "[]"]) (auto simp: queued_Nil)
  next
    case (added s)
    then have rest: "seach (add_choice ev add rq p) [Suc k..<n] e1 = (r, e')"
      using Suc.prems(1) 1 list by (simp add: sbind_def)
    have "d = n - Suc k" using Suc.hyps(2) by simp
    from Suc.hyps(1) [OF this rest Suc.prems(2)] obtain ss where
      q: "queued add e1 e' ss" and res: "if r = Ok () then length ss = n - Suc k \<and> es_replies e' = es_replies e1
      else length ss < n - Suc k \<and> (\<exists>reply \<in> refusals. es_replies e' = es_replies e1 @ [(rq_id rq, reply)])
         \<and> ((\<exists>m. ev_grammar ev (rq_constraint rq) = Err (Bail m)) \<and> ss = []
              \<or> alloc_fails ev (Suc k + length ss))" by blast
    have rep: "es_replies e1 = es_replies e" using added(2) by (simp add: put_sequence_def Let_def)
    show ?thesis
      by (intro exI [of _ "s # ss"]) (use q res rep added(2,3) Suc.hyps(2) in \<open>auto simp: queued_Cons split: if_splits\<close>)
  qed
qed

lemma add_request_queues:
  assumes "add_request ev pl add rq e = (Ok (), e')"
  shows "\<exists>ss. es_id e' = es_id e + length ss
     \<and> es_sched e' = fold (\<lambda>(sid, s). add sid s) (List.enumerate (es_id e) ss) (es_sched e)
     \<and> (length ss = sp_n_choices (rq_params rq) \<and> ss \<noteq> [] \<and> es_replies e' = es_replies e
        \<or> (\<exists>reply \<in> refusals. es_replies e' = es_replies e @ [(rq_id rq, reply)])
          \<and> (ss = [] \<or> length ss < sp_n_choices (rq_params rq) \<and> alloc_fails ev (length ss)))"
proof -
  let ?n = "sp_n_choices (rq_params rq)" and ?add = "add_choice ev add rq"
  obtain r0 e0 where 0: "prepare_request ev pl rq e = (r0, e0)" by (cases "prepare_request ev pl rq e")
  note p = orderly_prepare [of rq ev pl, unfolded orderly_def, rule_format, OF 0]
  show ?thesis
  proof (cases r0)
    case (Inl err)
    then obtain m where "err = Bail m" "e' = e0"
      using assms 0 by (cases err) (auto simp: add_request_def sbind_def)
    then show ?thesis using p Inl by (intro exI [of _ "[]"]) auto
  next
    case (Inr pr)
    obtain r e1 where 1: "seach (?add pr) [0..<?n] e0 = (r, e1)" by (cases "seach (?add pr) [0..<?n] e0")
    have "add_request ev pl add rq e = (case r of Inl (Bail _) \<Rightarrow> (Ok (), e1) | _ \<Rightarrow> (r, e1))"
      using 0 1 Inr by (auto simp: add_request_def sbind_def split: sum.split err.split)
    then have e': "e' = e1" "\<And>msg. r \<noteq> Err (Panic msg)"
      using assms by (auto split: sum.splits err.splits)
    obtain ss where ss: "queued add e0 e1 ss" "if r = Ok () then length ss = ?n - 0 \<and> es_replies e1 = es_replies e0
      else length ss < ?n - 0 \<and> (\<exists>reply \<in> refusals. es_replies e1 = es_replies e0 @ [(rq_id rq, reply)])
         \<and> ((\<exists>m. ev_grammar ev (rq_constraint rq) = Err (Bail m)) \<and> ss = [] \<or> alloc_fails ev (0 + length ss))"
      using add_choices_queue [OF 1 e'(2)] by blast
    have "0 < ?n" using 0 Inr prepared_choices by blast
    then show ?thesis using p Inr ss e'(1)
      by (intro exI [of _ ss]) (auto simp: queued_def split: if_splits)
  qed
qed


section \<open>A model error after a hit in the prefix cache\<close>

lemma longest_match_pos:
  assumes "longest_match toks es best = (m, Some c)" and "snd best = None \<or> 0 < fst best"
  shows "0 < m"
  using assms
proof (induction toks es best rule: longest_match.induct)
  case (1 toks best)
  then show ?case by auto
next
  case (2 toks k v es best)
  have "longest_match toks es (case find_max_index toks k of None \<Rightarrow> best
      | Some m \<Rightarrow> if fst best < m then (m, Some v) else best) = (m, Some c)"
    using "2.prems"(1) by simp
  from "2.IH" [OF this] "2.prems"(2) show ?case by (auto split: option.splits if_splits)
qed

lemma hit_is_shorter:
  assumes "search_for_matching_cache lib toks imgs pc h = Ok (Some hit, h')"
  shows "length (mc_toks hit) < length toks"
proof -
  obtain m c where m: "longest_match toks (entries pc) (0, None) = (m, Some c)" and ne: "toks \<noteq> []"
    using assms
    by (auto simp: search_for_matching_cache_def split: if_splits prod.splits option.splits)
  have "0 < m" by (rule longest_match_pos [OF m]) simp
  then show ?thesis
    using assms m ne
    by (auto simp: search_for_matching_cache_def res_simps split: if_splits prod.splits option.splits)
qed

lemma update_time_no_bail: "update_time_info now s g \<noteq> Err (Bail x)"
  by (auto simp: update_time_info_def res_simps usub_def seq_len_def vget_def split: option.splits if_splits)

lemma partial_text_no_bail: "partial_text pl s \<noteq> Err (Bail x)"
  by (auto simp: partial_text_def res_simps slice_from_def split: option.splits sum.splits err.splits)

lemma add_error_choice_no_bail: "fst (add_error_choice pl i b) \<noteq> Err (Bail x)"
proof (cases "partial_text pl (the_seq i b)")
  case (Inl err)
  then show ?thesis using partial_text_no_bail [of pl "the_seq i b"]
    by (cases err) (simp_all add: add_error_choice_def sm_simps)
next
  case (Inr tx)
  let ?r = "if is_chat (the_group i b)
       then add_choice_to_group (pl_now pl)
         \<lparr>ch_finish_reason = ''error'', ch_index = response_index (the_seq i b), ch_content = Some tx,
          ch_tool_calls = []\<rparr> (the_seq i b) (the_group i b)
       else add_completion_choice_to_group (pl_now pl)
         \<lparr>cc_finish_reason = ''error'', cc_index = response_index (the_seq i b), cc_text = tx\<rparr> (the_seq i b) (the_group i b)"
  have "?r \<noteq> Err (Bail x)" for x
    by (simp add: add_choice_to_group_def add_completion_choice_to_group_def update_time_no_bail)
  then show ?thesis using Inr
    by (cases ?r) (auto simp: add_error_choice_def sm_simps simp del: split_paired_Ex)
qed

text \<open>Whatever its place in the batch, a sequence with fewer tokens than its prompt ends the engine.\<close>

lemma error_choices_panic:
  assumes "i \<in> set hs" and "pl_tokenizer pl = Some decode"
    and "length (get_toks (the_seq i b)) < prompt_len (the_seq i b)"
  shows "panics (fst (seach (add_error_choice pl) hs b))"
  using assms(1,3)
proof (induction hs arbitrary: b)
  case Nil
  then show ?case by simp
next
  case (Cons j hs)
  obtain r b1 where 1: "add_error_choice pl j b = (r, b1)" by (cases "add_error_choice pl j b")
  show ?case
  proof (cases r)
    case (Inl err)
    then obtain m where "err = Panic m" using add_error_choice_no_bail [of pl j b] 1 by (cases err) auto
    then show ?thesis using Inl 1 by (simp add: sbind_def)
  next
    case (Inr u)
    have "j \<noteq> i"
    proof
      assume "j = i"
      then have "partial_text pl (the_seq j b) = Err (Panic ''range start index out of range'')"
        using Cons.prems(2) assms(2) by (simp add: partial_text_def slice_from_def)
      then show False using 1 Inr by (simp add: add_error_choice_def sm_simps)
    qed
    have "the_seq i b1 = the_seq i b"
      by (rule seq_kept [where m = "add_error_choice pl j", OF 1]) (intro inv_intros)
    then have "panics (fst (seach (add_error_choice pl) hs b1))"
      using Cons.IH [of b1] Cons.prems \<open>j \<noteq> i\<close> by simp
    then show ?thesis using 1 Inr by (simp add: sbind_def)
  qed
qed

text \<open>
  A failure of the model in a prompt step ends the engine when a sequence of the batch was
  found in the prefix cache: the error handler cuts the prompt off the tokens of the
  sequence, but a hit has left it only the rest of the prompt, so the cut is out of range.
\<close>

theorem a_model_error_after_a_prefix_hit_panics:
  assumes "search_for_matching_cache lib (ns_tokens r) imgs pc h = Ok (Some hit, h')"
    and "new_waiting r = Ok s" and "i \<in> set hs" and "pl_tokenizer pl = Some decode"
    and "the_seq i b = (prefill_v2 (mc_toks hit) (mc_offset hit) s)\<lparr>state := st\<rparr>"
  shows "panics (fst (handle_pipeline_forward_error pl hs b))"
proof -
  have "prompt_len s = length (ns_tokens r)"
    using assms(2) by (auto simp: new_waiting_def Let_def res_simps)
  then have "length (get_toks (the_seq i b)) < prompt_len (the_seq i b)"
    using hit_is_shorter [OF assms(1)] by (simp add: assms(5) prefill_v2_def get_toks_def)
  from error_choices_panic [OF assms(3,4) this] show ?thesis
    unfolding handle_pipeline_forward_error_def
    by (cases "seach (add_error_choice pl) hs b") (auto simp: sbind_def panics_def split: sum.splits err.splits)
qed

section \<open>Witnesses\<close>

definition toy_env :: "(nat, unit, unit) engine_env" where
  "toy_env = \<lparr>ev_chat_template = True, ev_process = (\<lambda>_ _. Ok ([5, 6, 7], [])),
     ev_encode = Some (\<lambda>t. Ok t), ev_decode = (\<lambda>t. Ok t), ev_sampler_tok = None, ev_tiny = 0, ev_truncate = False,
     ev_has_extensions = None, ev_grammar = (\<lambda>_. Ok ()), ev_layers = 1, ev_is_xlora = False, ev_block_size = None,
     ev_preallocate = True, ev_same_shape = True, ev_alloc_k = (\<lambda>i. i = 0), ev_alloc_v = (\<lambda>_. True),
     ev_millis = (\<lambda>_. 10), ev_listens = True\<rparr>"

definition two_choices_request :: "(nat, unit, unit) normal_request" where
  "two_choices_request = \<lparr>rq_messages = Completion [5, 6, 7] False None, rq_params = deterministic\<lparr>sp_n_choices := 2\<rparr>,
     rq_return_logprobs = False, rq_is_streaming = False, rq_id = 4, rq_constraint = (), rq_suffix = None,
     rq_adapters = None, rq_tools = None, rq_tool_choice = None, rq_processors = None, rq_return_raw_logits = False\<rparr>"

text \<open>There is memory for the cache of the first choice only: it is queued, and the client gets an error.\<close>

lemma half_a_request:
  "(let (r, e) = add_request toy_env a_pipeline (\<lambda>_. default_add_seq) two_choices_request a_default_engine
    in (r, es_id e, es_replies e, length (dwaiting (es_sched e)))) = (Ok (), 3, [(4, InternalError)], 2)"
  by code_simp


definition hit_pipeline :: "(window, nat list list list, nat, unit) pipeline" where
  "hit_pipeline = a_pipeline\<lparr>pl_tokenizer := Some (\<lambda>_. Ok [])\<rparr>"

theorem a_model_error_after_a_prefix_hit_panics_witness:
  "panics (fst (handle_pipeline_forward_error hit_pipeline [1]
     (a_batch (prefill_v2 [6, 7] 1 plain_sequence) (group_new 1 False False None))))"
proof -
  let ?pc = "\<lparr>entries = [([5, 6, 9], [])], pc_device = 1, n_on_device = 1, no_prefix_cache = False\<rparr>"
  have hit: "search_for_matching_cache window_lib (ns_tokens (a_request None)) False ?pc []
      = Ok (Some \<lparr>mc_normal = [], mc_toks = [6, 7], mc_offset = 1\<rparr>, [])"
    by code_simp
  have s: "new_waiting (a_request None) = Ok plain_sequence"
    by (simp add: plain_sequence_def new_waiting_def a_request_def)
  show ?thesis
    by (rule a_model_error_after_a_prefix_hit_panics [OF hit s, where st = RunningPrefillPrompt])
      (simp_all add: hit_pipeline_def prefill_v2_def)
qed

end
