(* ===== verification/Instances.thy ===== *)
theory Instances
  imports Requests
begin

text \<open>
  Instances and their engines (\<^verbatim>\<open>MistralRs\<close> of \<^verbatim>\<open>mistralrs-core/src/lib.rs\<close>, \<^verbatim>\<open>Engine::new\<close>,
  the head of \<^verbatim>\<open>Engine::run\<close> and \<^verbatim>\<open>handle_request\<close> of \<^verbatim>\<open>engine/mod.rs\<close>): how a client starts an
  engine on a thread, sends it requests, restarts it and ends it by being dropped.

  A pass of the loop looks at the instructions, empties the channel and takes a turn (theory
  Engine). Threads interleave by passes. The tokenizer of the pipeline is a parameter, and so are
  the effects of swapping adapters and of quantizing again, which leave the engine as it is.
\<close>

section \<open>Requests\<close>

record 'm tokenization_request =
  tk_text :: "'m + rstring"
  tk_tools :: "tool list option"
  tk_add_generation_prompt :: bool
  tk_add_special_tokens :: bool

record detokenization_request =
  dk_tokens :: "nat list"
  dk_skip_special_tokens :: bool

datatype ('f, 'm, 'c) request =
    Normal "('f, 'm, 'c) normal_request"
  | ReIsq
  | ActivateAdapters "string list"
  | Tokenize "'m tokenization_request"
  | Detokenize detokenization_request
  | Terminate

text \<open>What such a request is answered on its own channel, and the parts of the pipeline it asks.\<close>

datatype answer = Tokens "nat list res" | Text "rstring res"

record 'm tokenizing =
  tz_process :: "'m \<Rightarrow> bool \<Rightarrow> bool \<Rightarrow> tool list \<Rightarrow> (nat list \<times> rstring) res"
  tz_tokenizer :: "((rstring \<Rightarrow> bool \<Rightarrow> nat list res) \<times> (nat list \<Rightarrow> bool \<Rightarrow> rstring res)) option"
  tz_listens :: bool

definition as_err :: "'a res \<Rightarrow> 'a res res" where
  "as_err r = (case r of Inl (Panic m) \<Rightarrow> Err (Panic m) | Inl (Bail m) \<Rightarrow> Ok (Err (Bail m)) | Inr x \<Rightarrow> Ok (Ok x))"

definition tokenize_text :: "'m tokenizing \<Rightarrow> 'm tokenization_request \<Rightarrow> answer res" where
  "tokenize_text tz rq =
     rbind (case tk_text rq of
         Inl messages \<Rightarrow>
           as_err (rbind (tz_process tz messages (tk_add_generation_prompt rq) (tk_add_special_tokens rq)
             (case tk_tools rq of None \<Rightarrow> [] | Some ts \<Rightarrow> ts)) (\<lambda>(toks, _). Ok toks))
       | Inr s \<Rightarrow>
           (case tz_tokenizer tz of
              None \<Rightarrow> Ok (Err (Bail ''Pipeline does not include a toksnizer.''))
            | Some (enc, _) \<Rightarrow> as_err (enc s (tk_add_special_tokens rq)))) (\<lambda>toks.
     rbind (rassert (tz_listens tz) ''Expected receiver.'') (\<lambda>_. Ok (Tokens toks)))"

definition detokenize_text :: "'m tokenizing \<Rightarrow> detokenization_request \<Rightarrow> answer res" where
  "detokenize_text tz rq =
     rbind (case tz_tokenizer tz of
         None \<Rightarrow> Ok (Err (Bail ''Pipeline does not include a toksnizer.''))
       | Some (_, dec) \<Rightarrow> as_err (dec (dk_tokens rq) (dk_skip_special_tokens rq))) (\<lambda>s.
     rbind (rassert (tz_listens tz) ''Expected receiver.'') (\<lambda>_. Ok (Text s)))"

section \<open>The engine\<close>

text \<open>
  \<^verbatim>\<open>Engine::new\<close>: \<open>b\<close> is what the pipeline brings, \<open>no_prefix\<close> the option of the client, which is
  not used.
\<close>

definition engine_new :: "nat \<Rightarrow> 's \<Rightarrow> bool \<Rightarrow> bool \<Rightarrow> bool \<Rightarrow> nat \<Rightarrow> ('f, 't, 'h) batch \<Rightarrow> ('f, 't, 'h, 's) engine_state" where
  "engine_new device sched no_kv_cache model_no_kv_cache no_prefix prefix_cache_n b =
     \<lparr>es_id = 0, es_sched = sched, es_batch = b\<lparr>bt_cacher := prefix_cacher_new device prefix_cache_n True\<rparr>,
      es_raw = (\<lambda>_. False), es_groups = 0, es_last_ids = [], es_no_kv_cache = (no_kv_cache \<or> model_no_kv_cache),
      es_replies = []\<rparr>"

type_synonym ('f, 't, 'h, 's) running = "('f, 't, 'h, 's) engine_state \<times> answer list"

definition on_engine :: "(('f, 't, 'h, 's) engine_state, 'a) sm \<Rightarrow> (('f, 't, 'h, 's) running, 'a) sm" where
  "on_engine m = (\<lambda>(e, as). let (r, e') = m e in (r, (e', as)))"

definition reply_with :: "answer res \<Rightarrow> (('f, 't, 'h, 's) running, unit) sm" where
  "reply_with r = sbind (slift r) (\<lambda>a. smod (\<lambda>(e, as). (e, as @ [a])))"

definition handle_request :: "('f::{linorder,zero,one}, 'm, 'c) engine_env \<Rightarrow> 'm tokenizing \<Rightarrow> ('t, 'h, 'e, 'v) pipeline
    \<Rightarrow> (nat \<Rightarrow> 'f sequence \<Rightarrow> 's \<Rightarrow> 's) \<Rightarrow> ('f, 'm, 'c) request \<Rightarrow> (('f, 't, 'h, 's) running, unit) sm" where
  "handle_request ev tz pl add rq =
     (case rq of
        Normal r \<Rightarrow> on_engine (add_request ev pl add r)
      | ActivateAdapters _ \<Rightarrow> sret ()
      | ReIsq \<Rightarrow> sret ()
      | Tokenize r \<Rightarrow> reply_with (tokenize_text tz r)
      | Detokenize r \<Rightarrow> reply_with (detokenize_text tz r)
      | Terminate \<Rightarrow> slift (Err (Panic ''This is unreachable in `handle_request`'')))"

text \<open>The channel is emptied; the result says whether the loop goes on.\<close>

fun receive :: "(('f, 'm, 'c) request \<Rightarrow> ('s, unit) sm) \<Rightarrow> ('f, 'm, 'c) request list \<Rightarrow> ('s, bool) sm" where
  "receive handle [] = sret True"
| "receive handle (rq # rqs) = (if rq = Terminate then sret False else sbind (handle rq) (\<lambda>_. receive handle rqs))"

text \<open>A pass of the loop; \<open>ended\<close> holds the engine identifiers that are told to terminate.\<close>

definition loop_pass :: "(('f, 'm, 'c) request \<Rightarrow> (('f, 't, 'h, 's) running, unit) sm) \<Rightarrow> (('f, 't, 'h, 's) engine_state, unit) sm
    \<Rightarrow> nat set \<Rightarrow> ('f, 'm, 'c) request list \<Rightarrow> (('f, 't, 'h, 's) running, bool) sm" where
  "loop_pass handle turn ended rx =
     sbind (sget (\<lambda>(e, _). es_id e \<in> ended)) (\<lambda>stop.
     if stop then sret False
     else sbind (receive handle rx) (\<lambda>go.
          if go then sbind (on_engine turn) (\<lambda>_. sret True) else sret False))"

section \<open>Instances\<close>

text \<open>
  A thread runs an engine until its loop ends or panics. An instance knows the identifier it was
  given and its current thread. \<open>wd_ended\<close> are the keys of \<^verbatim>\<open>ENGINE_INSTRUCTIONS\<close>.
\<close>

record ('r, 'q) thread =
  th_state :: 'r
  th_rx :: "'q list"
  th_finished :: bool

record mistral_rs =
  mr_engine_id :: nat
  mr_thread :: nat
  mr_next_request_id :: nat
  mr_dropped :: bool

record ('r, 'q) world =
  wd_next_engine_id :: nat
  wd_ended :: "nat set"
  wd_instances :: "mistral_rs list"
  wd_threads :: "('r, 'q) thread list"

definition spawn :: "'r \<Rightarrow> 'q list \<Rightarrow> ('r, 'q) world \<Rightarrow> ('r, 'q) world" where
  "spawn new rx w = w\<lparr>wd_threads := wd_threads w @ [\<lparr>th_state = new, th_rx = rx, th_finished = False\<rparr>]\<rparr>"

text \<open>\<^verbatim>\<open>MistralRs::new\<close>; on a runtime with several threads a dummy request is sent first.\<close>

definition mistral_rs_new :: "'r \<Rightarrow> 'q option \<Rightarrow> ('r, 'q) world \<Rightarrow> ('r, 'q) world" where
  "mistral_rs_new new dummy w =
     (spawn new (case dummy of None \<Rightarrow> [] | Some q \<Rightarrow> [q]) w)
       \<lparr>wd_next_engine_id := wd_next_engine_id w + 1,
        wd_instances := wd_instances w @ [\<lparr>mr_engine_id = wd_next_engine_id w, mr_thread = length (wd_threads w),
          mr_next_request_id = 0, mr_dropped = False\<rparr>]\<rparr>"

definition put_instance :: "nat \<Rightarrow> mistral_rs \<Rightarrow> ('r, 'q) world \<Rightarrow> ('r, 'q) world" where
  "put_instance i m w = w\<lparr>wd_instances := (wd_instances w)[i := m]\<rparr>"

definition put_thread :: "nat \<Rightarrow> ('r, 'q) thread \<Rightarrow> ('r, 'q) world \<Rightarrow> ('r, 'q) world" where
  "put_thread t th w = w\<lparr>wd_threads := (wd_threads w)[t := th]\<rparr>"

definition drop_instance :: "nat \<Rightarrow> ('r, 'q) world \<Rightarrow> ('r, 'q) world" where
  "drop_instance i w =
     (put_instance i ((wd_instances w ! i)\<lparr>mr_dropped := True\<rparr>) w)
       \<lparr>wd_ended := insert (mr_engine_id (wd_instances w ! i)) (wd_ended w)\<rparr>"

text \<open>\<^verbatim>\<open>engine_dead\<close>, \<^verbatim>\<open>reboot_engine\<close> and \<^verbatim>\<open>get_sender\<close>; a request that is sent is queued.\<close>

definition engine_dead :: "nat \<Rightarrow> ('r, 'q) world \<Rightarrow> bool" where
  "engine_dead i w \<longleftrightarrow> th_finished (wd_threads w ! mr_thread (wd_instances w ! i))"

definition reboot_engine :: "'r \<Rightarrow> nat \<Rightarrow> ('r, 'q) world \<Rightarrow> ('r, 'q) world" where
  "reboot_engine new i w =
     (if \<not> engine_dead i w then w
      else put_instance i ((wd_instances w ! i)\<lparr>mr_thread := length (wd_threads w)\<rparr>) (spawn new [] w))"

definition get_sender :: "'r \<Rightarrow> nat \<Rightarrow> ('r, 'q) world \<Rightarrow> ('r, 'q) world" where
  "get_sender new i w = (if engine_dead i w then reboot_engine new i w else w)"

definition send :: "'q \<Rightarrow> nat \<Rightarrow> ('r, 'q) world \<Rightarrow> ('r, 'q) world" where
  "send q i w =
     (let t = mr_thread (wd_instances w ! i); th = wd_threads w ! t
      in if th_finished th then w else put_thread t (th\<lparr>th_rx := th_rx th @ [q]\<rparr>) w)"

definition next_request_id :: "nat \<Rightarrow> ('r, 'q) world \<Rightarrow> nat \<times> ('r, 'q) world" where
  "next_request_id i w =
     (let m = wd_instances w ! i
      in (mr_next_request_id m, put_instance i (m\<lparr>mr_next_request_id := mr_next_request_id m + 1\<rparr>) w))"

text \<open>A pass on a thread; a thread that panics is finished too.\<close>

definition run_pass :: "(nat set \<Rightarrow> 'q list \<Rightarrow> ('r, bool) sm) \<Rightarrow> nat \<Rightarrow> ('r, 'q) world \<Rightarrow> ('r, 'q) world" where
  "run_pass pass t w =
     (let th = wd_threads w ! t; (r, s) = pass (wd_ended w) (th_rx th) (th_state th)
      in put_thread t \<lparr>th_state = s, th_rx = [], th_finished = (r \<noteq> Ok True)\<rparr> w)"

text \<open>
  The steps: every instance has the same kind of engine, made by \<open>new\<close> from what it is given. An
  instance that was dropped is not used again; the passes of threads come in any order.
\<close>

inductive world_step :: "('n \<Rightarrow> 'r) \<Rightarrow> (nat set \<Rightarrow> 'q list \<Rightarrow> ('r, bool) sm) \<Rightarrow> ('r, 'q) world \<Rightarrow> ('r, 'q) world \<Rightarrow> bool"
  for new :: "'n \<Rightarrow> 'r" and pass :: "nat set \<Rightarrow> 'q list \<Rightarrow> ('r, bool) sm" where
  create: "world_step new pass w (mistral_rs_new (new n) dummy w)"
| dropped: "i < length (wd_instances w) \<Longrightarrow> \<not> mr_dropped (wd_instances w ! i) \<Longrightarrow> world_step new pass w (drop_instance i w)"
| sender: "i < length (wd_instances w) \<Longrightarrow> \<not> mr_dropped (wd_instances w ! i) \<Longrightarrow> world_step new pass w (get_sender (new n) i w)"
| sent: "i < length (wd_instances w) \<Longrightarrow> \<not> mr_dropped (wd_instances w ! i) \<Longrightarrow> world_step new pass w (send q i w)"
| numbered: "i < length (wd_instances w) \<Longrightarrow> \<not> mr_dropped (wd_instances w ! i) \<Longrightarrow> world_step new pass w (snd (next_request_id i w))"
| passed: "t < length (wd_threads w) \<Longrightarrow> \<not> th_finished (wd_threads w ! t) \<Longrightarrow> world_step new pass w (run_pass pass t w)"

definition world_start :: "('r, 'q) world" where
  "world_start = \<lparr>wd_next_engine_id = 0, wd_ended = {}, wd_instances = [], wd_threads = []\<rparr>"

definition start_engine :: "nat \<times> 's \<times> bool \<times> bool \<times> bool \<times> nat \<times> ('f, 't, 'h) batch \<Rightarrow> ('f, 't, 'h, 's) running" where
  "start_engine = (\<lambda>(device, sched, no_kv_cache, model_no_kv_cache, no_prefix, n, b).
     (engine_new device sched no_kv_cache model_no_kv_cache no_prefix n b, []))"

abbreviation instance_step where
  "instance_step ev tz pl add turn \<equiv> world_step start_engine (loop_pass (handle_request ev tz pl add) turn)"

section \<open>Which engines are told to end\<close>

definition well_numbered :: "('r, 'q) world \<Rightarrow> bool" where
  "well_numbered w \<longleftrightarrow> wd_next_engine_id w = length (wd_instances w)
     \<and> (\<forall>i < length (wd_instances w). mr_engine_id (wd_instances w ! i) = i)
     \<and> wd_ended w = {i. i < length (wd_instances w) \<and> mr_dropped (wd_instances w ! i)}"

lemma world_simps [simp]:
  "wd_ended (spawn new rx w) = wd_ended w"
  "wd_instances (spawn new rx w) = wd_instances w"
  "wd_next_engine_id (spawn new rx w) = wd_next_engine_id w"
  "wd_threads (spawn new rx w) = wd_threads w @ [\<lparr>th_state = new, th_rx = rx, th_finished = False\<rparr>]"
  "wd_ended (put_instance i m w) = wd_ended w"
  "wd_instances (put_instance i m w) = (wd_instances w)[i := m]"
  "wd_next_engine_id (put_instance i m w) = wd_next_engine_id w"
  "wd_threads (put_instance i m w) = wd_threads w"
  "wd_ended (put_thread t th w) = wd_ended w"
  "wd_instances (put_thread t th w) = wd_instances w"
  "wd_next_engine_id (put_thread t th w) = wd_next_engine_id w"
  "wd_threads (put_thread t th w) = (wd_threads w)[t := th]"
  by (simp_all add: spawn_def put_instance_def put_thread_def)

lemmas world_ops = mistral_rs_new_def drop_instance_def get_sender_def reboot_engine_def send_def Let_def
  next_request_id_def run_pass_def

lemma well_numbered_step: "world_step new pass w w' \<Longrightarrow> well_numbered w \<Longrightarrow> well_numbered w'"
proof (induction rule: world_step.induct)
  case (create w n dummy)
  then show ?case by (auto simp: well_numbered_def world_ops nth_append less_Suc_eq)
qed (auto simp: well_numbered_def world_ops nth_list_update split_def)

lemma well_numbered_reachable: "(world_step new pass)\<^sup>*\<^sup>* world_start w \<Longrightarrow> well_numbered w"
  by (induction rule: rtranclp_induct) (auto simp: world_start_def well_numbered_def [of world_start, unfolded world_start_def]
    intro: well_numbered_step)

text \<open>After the drop of an instance with identifier 0 a new engine stays as it was made.\<close>

definition idle_from :: "('n \<Rightarrow> 'r) \<Rightarrow> nat \<Rightarrow> ('r, 'q) world \<Rightarrow> bool" where
  "idle_from new k w \<longleftrightarrow> 0 \<in> wd_ended w \<and> k \<le> length (wd_threads w)
     \<and> (\<forall>t. k \<le> t \<and> t < length (wd_threads w) \<longrightarrow> (\<exists>n. th_state (wd_threads w ! t) = new n))"

lemma es_id_start [simp]: "es_id (fst (start_engine n)) = 0"
  by (simp add: start_engine_def engine_new_def split: prod.splits)

lemma loop_pass_ended:
  "es_id (fst s) \<in> ended \<Longrightarrow> loop_pass handle turn ended rx s = (Ok False, s)"
  by (cases s) (simp add: loop_pass_def sm_simps)

lemma idle_step:
  assumes "world_step start_engine (loop_pass handle turn) w w'" and "idle_from start_engine k w"
  shows "idle_from start_engine k w'"
  using assms
proof (induction rule: world_step.induct)
  case (create w n dummy)
  then show ?case by (auto simp: idle_from_def world_ops nth_append less_Suc_eq simp del: split_paired_Ex)
next
  case (sender i w n)
  then show ?case by (auto simp: idle_from_def world_ops nth_append less_Suc_eq simp del: split_paired_Ex)
next
  case (passed t w)
  have "th_state (wd_threads (run_pass (loop_pass handle turn) t w) ! t') = th_state (wd_threads w ! t')"
    if "k \<le> t'" "t' < length (wd_threads w)" for t'
  proof (cases "t' = t")
    case True
    then have "\<exists>n. th_state (wd_threads w ! t) = start_engine n"
      using passed that unfolding idle_from_def by blast
    then have "es_id (fst (th_state (wd_threads w ! t))) \<in> wd_ended w"
      using passed by (auto simp: idle_from_def simp del: split_paired_Ex)
    then have "loop_pass handle turn (wd_ended w) (th_rx (wd_threads w ! t)) (th_state (wd_threads w ! t))
      = (Ok False, th_state (wd_threads w ! t))" by (rule loop_pass_ended)
    then show ?thesis using passed True by (simp add: world_ops)
  next
    case False
    then show ?thesis by (simp add: world_ops split_def)
  qed
  then show ?case using passed by (simp add: idle_from_def world_ops split_def)
next
  case (sent i w q)
  have "th_state (wd_threads (send q i w) ! t) = th_state (wd_threads w ! t)" if "t < length (wd_threads w)" for t
    using that by (cases "t = mr_thread (wd_instances w ! i)") (simp_all add: send_def Let_def)
  moreover have "wd_ended (send q i w) = wd_ended w" "length (wd_threads (send q i w)) = length (wd_threads w)"
    by (simp_all add: send_def Let_def)
  ultimately show ?case using sent by (simp add: idle_from_def)
qed (auto simp: idle_from_def world_ops)

lemma idle_steps:
  assumes "(world_step start_engine (loop_pass handle turn))\<^sup>*\<^sup>* w w'" and "idle_from start_engine k w"
  shows "idle_from start_engine k w'"
  using assms by (induction rule: rtranclp_induct) (auto intro: idle_step)

text \<open>
  C15. Dropping the first instance ends the use of the library: an engine looks for its instruction
  with the number of sequences it has created, 0 for a new one, where the instances leave theirs
  under the identifier of the engine, and no entry is ever taken back. Once the first instance was
  dropped, every engine that is started later, by a new instance or by restarting the engine of
  an old one, is still as it was made in every later state, and its next pass ends it with
  whatever was sent to it.
\<close>

theorem nothing_runs_after_the_first_drop:
  assumes "(instance_step ev tz pl add turn)\<^sup>*\<^sup>* world_start w"
    and "0 < length (wd_instances w)" and "mr_dropped (wd_instances w ! 0)"
    and "(instance_step ev tz pl add turn)\<^sup>*\<^sup>* w w'"
    and "length (wd_threads w) \<le> t" and "t < length (wd_threads w')"
  shows "(\<exists>n. th_state (wd_threads w' ! t) = start_engine n)
    \<and> th_finished (wd_threads (run_pass (loop_pass (handle_request ev tz pl add) turn) t w') ! t)"
proof -
  have "0 \<in> wd_ended w" using well_numbered_reachable [OF assms(1)] assms(2,3) by (simp add: well_numbered_def)
  then have "idle_from start_engine (length (wd_threads w)) w" by (auto simp: idle_from_def)
  from idle_steps [OF assms(4) this] have idle: "idle_from start_engine (length (wd_threads w)) w'" .
  then have new: "\<exists>n. th_state (wd_threads w' ! t) = start_engine n"
    using assms(5,6) unfolding idle_from_def by blast
  then have "es_id (fst (th_state (wd_threads w' ! t))) \<in> wd_ended w'"
    using idle by (auto simp: idle_from_def simp del: split_paired_Ex)
  then have "loop_pass (handle_request ev tz pl add) turn (wd_ended w') (th_rx (wd_threads w' ! t)) (th_state (wd_threads w' ! t))
    = (Ok False, th_state (wd_threads w' ! t))" by (rule loop_pass_ended)
  then have "th_finished (wd_threads (run_pass (loop_pass (handle_request ev tz pl add) turn) t w') ! t)"
    using assms(6) by (simp add: world_ops)
  then show ?thesis using new by blast
qed

text \<open>
  An engine outlives its instance: when the number of sequences it has created is not the
  identifier of a dropped instance, the loop goes on although its own instance was dropped and
  nothing can be sent any more.
\<close>

theorem a_dropped_engine_runs_on:
  assumes "(instance_step ev tz pl add turn)\<^sup>*\<^sup>* world_start w"
    and "i < length (wd_instances w)" and "mr_dropped (wd_instances w ! i)" and "t = mr_thread (wd_instances w ! i)"
    and "t < length (wd_threads w)" and "th_rx (wd_threads w ! t) = []"
    and "\<forall>j < length (wd_instances w). mr_dropped (wd_instances w ! j) \<longrightarrow> es_id (fst (th_state (wd_threads w ! t))) \<noteq> j"
    and "fst (turn (fst (th_state (wd_threads w ! t)))) = Ok ()"
  shows "\<not> th_finished (wd_threads (run_pass (loop_pass (handle_request ev tz pl add) turn) t w) ! t)"
proof -
  obtain e as where s: "th_state (wd_threads w ! t) = (e, as)" by fastforce
  obtain e' where e': "turn e = (Ok (), e')" using assms(8) s by (cases "turn e") simp
  have "es_id e \<notin> wd_ended w"
    using well_numbered_reachable [OF assms(1)] assms(7) s by (auto simp: well_numbered_def)
  then have "loop_pass (handle_request ev tz pl add) turn (wd_ended w) [] (e, as) = (Ok True, (e', as))"
    by (simp add: loop_pass_def sm_simps on_engine_def sbind_def e')
  then show ?thesis using s assms(5,6) by (simp add: world_ops)
qed

text \<open>The prefix cache is off in every engine, whatever the client asked for.\<close>

theorem the_prefix_cache_is_off:
  "search_for_matching_cache lib toks images (bt_cacher (es_batch (engine_new device sched kv mkv no_prefix n b))) h
     = Ok (None, h)"
  by (simp add: engine_new_def prefix_cacher_new_def search_for_matching_cache_def)

section \<open>Examples\<close>

text \<open>Two instances without a dummy request; one is dropped.\<close>

abbreviation toy_step where
  "toy_step \<equiv> instance_step toy_env \<lparr>tz_process = (\<lambda>_ _ _ _. Ok ([], [])), tz_tokenizer = None, tz_listens = True\<rparr>
     a_pipeline (\<lambda>_ _ s. s) (sret ())"

abbreviation toy_pass where
  "toy_pass \<equiv> loop_pass (handle_request toy_env
     \<lparr>tz_process = (\<lambda>_ _ _ _. Ok ([], [])), tz_tokenizer = None, tz_listens = True\<rparr> a_pipeline (\<lambda>_ _ s. s)) (sret ())"

definition toy_args :: "nat \<times> unit \<times> bool \<times> bool \<times> bool \<times> nat \<times> (nat, window, nat list list list) batch" where
  "toy_args = (1, (), False, False, False, 16, a_batch a_prompt (group_new 1 False False None))"

definition one_instance :: "((nat, window, nat list list list, unit) running, (nat, unit, unit) request) world" where
  "one_instance = mistral_rs_new (start_engine toy_args) None world_start"

definition two_instances :: "((nat, window, nat list list list, unit) running, (nat, unit, unit) request) world" where
  "two_instances = mistral_rs_new (start_engine toy_args) None one_instance"

lemma one_instance_steps: "toy_step\<^sup>*\<^sup>* world_start one_instance"
  unfolding one_instance_def by (intro r_into_rtranclp world_step.create)

lemma two_instances_steps: "toy_step\<^sup>*\<^sup>* world_start two_instances"
  unfolding two_instances_def by (rule rtranclp.rtrancl_into_rtrancl [OF one_instance_steps world_step.create])

lemmas instance_simps = two_instances_def one_instance_def mistral_rs_new_def world_start_def drop_instance_def

theorem nothing_runs_after_the_first_drop_witness:
  "\<exists>n. th_state (wd_threads (send ReIsq 1 (mistral_rs_new (start_engine toy_args) None (drop_instance 0 one_instance))) ! 1)
     = start_engine n"
proof -
  let ?w = "drop_instance 0 one_instance"
  let ?w1 = "mistral_rs_new (start_engine toy_args) None ?w"
  have "toy_step one_instance ?w" by (rule world_step.dropped) (simp_all add: instance_simps)
  with one_instance_steps have w: "toy_step\<^sup>*\<^sup>* world_start ?w" by (rule rtranclp.rtrancl_into_rtrancl)
  have "toy_step ?w ?w1" by (rule world_step.create)
  moreover have "toy_step ?w1 (send ReIsq 1 ?w1)" by (rule world_step.sent) (simp_all add: instance_simps)
  ultimately have w': "toy_step\<^sup>*\<^sup>* ?w (send ReIsq 1 ?w1)" by simp
  show ?thesis
    using nothing_runs_after_the_first_drop [OF w _ _ w', of 1] by (simp add: instance_simps send_def)
qed

theorem a_dropped_engine_runs_on_witness:
  "\<not> th_finished (wd_threads (run_pass toy_pass 1 (drop_instance 1 two_instances)) ! 1)"
proof -
  let ?w = "drop_instance 1 two_instances"
  have "toy_step two_instances ?w" by (rule world_step.dropped) (simp_all add: instance_simps)
  with two_instances_steps have w: "toy_step\<^sup>*\<^sup>* world_start ?w" by (rule rtranclp.rtrancl_into_rtrancl)
  show ?thesis
    by (rule a_dropped_engine_runs_on [OF w, of 1]) (auto simp: instance_simps less_Suc_eq sret_def)
qed

end
