(* ===== verification/Uqff.thy ===== *)
theory Uqff
  imports Prelude "HOL-Library.Word"
begin

unbundle bit_operations_syntax

text \<open>
  The bytes of a UQFF artifact (\<^verbatim>\<open>mistralrs-quant/src/utils/uqff.rs\<close>): little-endian integers,
  the version, the data type of a tensor and the tensor itself.

  Bytes are \<open>8 word\<close>, the integers of the format \<open>32 word\<close>; a length that is cast to
  \<^verbatim>\<open>u32\<close> loses its upper bits. A reader takes the bytes that are left and returns the rest.
  A tensor is its data type, its dimensions and the bytes of its elements in row-major order.
  Each writer and its reader are a \<open>codec\<close>.
\<close>

type_synonym u8 = "8 word"
type_synonym u32 = "32 word"
type_synonym 'a reader = "u8 list \<Rightarrow> ('a \<times> u8 list) res"

section \<open>Writers and readers\<close>

fun read_many :: "'a reader \<Rightarrow> nat \<Rightarrow> 'a list reader" where
  "read_many dec 0 bs = Ok ([], bs)"
| "read_many dec (Suc n) bs =
     rbind (dec bs) (\<lambda>(x, bs). rbind (read_many dec n bs) (\<lambda>(xs, bs). Ok (x # xs, bs)))"

definition read_if :: "bool \<Rightarrow> 'a reader \<Rightarrow> 'a option reader" where
  "read_if b dec bs = (if b then rbind (dec bs) (\<lambda>(x, bs). Ok (Some x, bs)) else Ok (None, bs))"

text \<open>
  What is written is read back, whatever follows. The values a writer can represent are
  \<open>ok\<close>.
\<close>

locale codec =
  fixes enc :: "'a \<Rightarrow> u8 list" and dec :: "'a reader" and ok :: "'a \<Rightarrow> bool"
  assumes dec_enc: "ok x \<Longrightarrow> dec (enc x @ rest) = Ok (x, rest)"
begin

lemma unambiguous:
  assumes "ok x" and "ok y" and "enc x @ r = enc y @ s"
  shows "x = y \<and> r = s"
proof -
  have "Ok (x, r) = Ok (y, s)"
    unfolding dec_enc [OF assms(1), symmetric] dec_enc [OF assms(2), symmetric] by (simp only: assms(3))
  then show ?thesis by simp
qed

lemma dec_enc_many:
  "\<forall>x \<in> set xs. ok x \<Longrightarrow> read_many dec (length xs) (concat (map enc xs) @ rest) = Ok (xs, rest)"
proof (induction xs)
  case Nil
  then show ?case by simp
next
  case (Cons x xs)
  then show ?case by (simp add: dec_enc)
qed

lemma dec_enc_if:
  "\<forall>y. x = Some y \<longrightarrow> ok y \<Longrightarrow>
     read_if (x \<noteq> None) dec ((case x of None \<Rightarrow> [] | Some y \<Rightarrow> enc y) @ rest) = Ok (x, rest)"
  by (cases x) (simp_all add: read_if_def dec_enc)

end

section \<open>Integers\<close>

definition to_le_bytes :: "u32 \<Rightarrow> u8 list" where
  "to_le_bytes w = [ucast w, ucast (drop_bit 8 w), ucast (drop_bit 16 w), ucast (drop_bit 24 w)]"

fun read_u32 :: "u32 reader" where
  "read_u32 (a # b # c # d # bs) =
     Ok (ucast a OR push_bit 8 (ucast b) OR push_bit 16 (ucast c) OR push_bit 24 (ucast d), bs)"
| "read_u32 _ = Err (Bail ''failed to fill whole buffer'')"

fun read_u8 :: "u8 reader" where
  "read_u8 (a # bs) = Ok (a, bs)"
| "read_u8 [] = Err (Bail ''failed to fill whole buffer'')"

lemma le_bytes_word:
  fixes w :: u32
  shows "ucast (ucast w :: u8) OR push_bit 8 (ucast (ucast (drop_bit 8 w) :: u8))
    OR push_bit 16 (ucast (ucast (drop_bit 16 w) :: u8)) OR push_bit 24 (ucast (ucast (drop_bit 24 w) :: u8)) = w"
proof (rule bit_word_eqI)
  fix n assume n: "n < LENGTH(32)"
  then consider "n < 8" | "8 \<le> n" "n < 16" | "16 \<le> n" "n < 24" | "24 \<le> n" "n < 32" by fastforce
  then show "bit (ucast (ucast w :: u8) OR push_bit 8 (ucast (ucast (drop_bit 8 w) :: u8))
    OR push_bit 16 (ucast (ucast (drop_bit 16 w) :: u8)) OR push_bit 24 (ucast (ucast (drop_bit 24 w) :: u8)) :: u32) n
    = bit w n"
    using n by cases (auto simp: bit_or_iff bit_push_bit_iff bit_ucast_iff bit_drop_bit_eq)
qed

interpretation u32: codec to_le_bytes read_u32 "\<lambda>_. True"
  by unfold_locales (simp add: to_le_bytes_def le_bytes_word)

text \<open>Lengths and dimensions, cast to \<^verbatim>\<open>u32\<close>.\<close>

definition write_len :: "nat \<Rightarrow> u8 list" where
  "write_len n = to_le_bytes (of_nat n)"

definition read_len :: "nat reader" where
  "read_len bs = rbind (read_u32 bs) (\<lambda>(w, bs). Ok (unat w, bs))"

lemma unat_u32: "n < 2 ^ 32 \<Longrightarrow> unat (of_nat n :: u32) = n"
  by (simp add: unat_of_nat)

lemma read_len_any: "read_len (write_len n @ bs) = Ok (n mod 2 ^ 32, bs)"
  using u32.dec_enc [of "of_nat n" bs] by (simp add: read_len_def write_len_def unat_of_nat)

interpretation len: codec write_len read_len "\<lambda>n. n < 2 ^ 32"
  by unfold_locales (simp add: read_len_any)

section \<open>The version\<close>

definition uqff_version :: u32 where
  "uqff_version = push_bit 16 0 OR push_bit 8 1 OR 2"

definition uqff_quant_type_offset :: nat where
  "uqff_quant_type_offset = 4"

definition version_is_compatible :: "u32 \<Rightarrow> unit res" where
  "version_is_compatible version =
     (if drop_bit 16 version \<noteq> 0 then Err (Bail ''Major version does not match'') else Ok ())"

lemma own_version_is_compatible [simp]: "version_is_compatible uqff_version = Ok ()"
  by (simp add: version_is_compatible_def uqff_version_def)

section \<open>Data types\<close>

datatype dtype = U8 | U32 | I16 | I32 | I64 | F16 | BF16 | F32 | F64 | F8E4M3

fun size_in_bytes :: "dtype \<Rightarrow> nat" where
  "size_in_bytes U8 = 1" | "size_in_bytes U32 = 4" | "size_in_bytes I16 = 2" | "size_in_bytes I32 = 4"
| "size_in_bytes I64 = 8" | "size_in_bytes F16 = 2" | "size_in_bytes BF16 = 2" | "size_in_bytes F32 = 4"
| "size_in_bytes F64 = 8" | "size_in_bytes F8E4M3 = 1"

fun dtype_code :: "dtype \<Rightarrow> u32" where
  "dtype_code U8 = 0" | "dtype_code U32 = 1" | "dtype_code I32 = 2" | "dtype_code I64 = 3"
| "dtype_code F16 = 4" | "dtype_code BF16 = 5" | "dtype_code F32 = 6" | "dtype_code F64 = 7"
| "dtype_code I16 = 8" | "dtype_code F8E4M3 = 9"

definition write_dtype :: "dtype \<Rightarrow> u8 list" where
  "write_dtype t = to_le_bytes (dtype_code t)"

definition read_dtype :: "dtype reader" where
  "read_dtype bs =
     rbind (read_u32 bs) (\<lambda>(w, bs).
     if w = 0 then Ok (U8, bs) else if w = 1 then Ok (U32, bs) else if w = 2 then Ok (I32, bs)
     else if w = 3 then Ok (I64, bs) else if w = 4 then Ok (F16, bs) else if w = 5 then Ok (BF16, bs)
     else if w = 6 then Ok (F32, bs) else if w = 7 then Ok (F64, bs) else if w = 8 then Ok (I16, bs)
     else if w = 9 then Ok (F8E4M3, bs) else Err (Bail ''unknown dtype for quantized tensor''))"

interpretation dtype: codec write_dtype read_dtype "\<lambda>_. True"
proof
  fix t rest
  show "read_dtype (write_dtype t @ rest) = Ok (t, rest)"
    by (cases t) (simp_all add: write_dtype_def read_dtype_def u32.dec_enc)
qed

section \<open>Tensors\<close>

record utensor =
  ut_dtype :: dtype
  ut_dims :: "nat list"
  ut_data :: "u8 list"

definition is_utensor :: "utensor \<Rightarrow> bool" where
  "is_utensor t \<longleftrightarrow> length (ut_data t) = prod_list (ut_dims t) * size_in_bytes (ut_dtype t)"

definition serialize_tensor :: "u8 list \<Rightarrow> utensor \<Rightarrow> u8 list" where
  "serialize_tensor buffer t =
     buffer @ write_len (length (ut_data t)) @ write_dtype (ut_dtype t)
       @ write_len (length (ut_dims t)) @ concat (map write_len (ut_dims t)) @ ut_data t"

text \<open>
  \<^verbatim>\<open>Tensor::from_slice\<close> wants as many elements as the shape has. Where the bytes happen to be
  aligned they are read in place, and an incomplete last element is left out. Otherwise all
  of them are copied into a vector with room for the complete elements only: for an incomplete
  one that is a write beyond the allocation, here a panic.
\<close>

definition from_slice :: "dtype \<Rightarrow> nat list \<Rightarrow> nat \<Rightarrow> u8 list \<Rightarrow> utensor res" where
  "from_slice t dims n data =
     (if n = prod_list dims then Ok \<lparr>ut_dtype = t, ut_dims = dims, ut_data = take (n * size_in_bytes t) data\<rparr>
      else Err (Bail ''shape mismatch''))"

definition bytes_to_data :: "bool \<Rightarrow> dtype \<Rightarrow> u8 list \<Rightarrow> nat list \<Rightarrow> utensor res" where
  "bytes_to_data aligned t data shape =
     (let elem_count = length data div size_in_bytes t
      in if aligned then from_slice t shape elem_count data
         else if elem_count * size_in_bytes t < length data
         then Err (Panic ''undefined behavior: write beyond the allocation'')
         else from_slice t shape elem_count data)"

definition read_exact :: "nat \<Rightarrow> u8 list reader" where
  "read_exact n bs =
     (if n \<le> length bs then Ok (take n bs, drop n bs) else Err (Bail ''failed to fill whole buffer''))"

definition deserialize_tensor :: "bool \<Rightarrow> utensor reader" where
  "deserialize_tensor aligned bs =
     rbind (read_len bs) (\<lambda>(data_len, bs).
     rbind (read_dtype bs) (\<lambda>(t, bs).
     rbind (read_len bs) (\<lambda>(n_dims, bs).
     rbind (read_many read_len n_dims bs) (\<lambda>(dims, bs).
     rbind (read_exact data_len bs) (\<lambda>(data, bs).
     rbind (bytes_to_data aligned t data dims) (\<lambda>t. Ok (t, bs)))))))"

text \<open>Seeking goes beyond the end of the bytes without an error.\<close>

definition fake_deserialize_tensor :: "unit reader" where
  "fake_deserialize_tensor bs =
     rbind (read_len bs) (\<lambda>(data_len, bs).
     rbind (read_dtype bs) (\<lambda>(t, bs).
     rbind (read_len bs) (\<lambda>(n_dims, bs).
     rbind (read_many read_len n_dims bs) (\<lambda>(dims, bs). Ok ((), drop data_len bs)))))"

text \<open>The tensors the format can hold.\<close>

definition fits_uqff :: "utensor \<Rightarrow> bool" where
  "fits_uqff t \<longleftrightarrow> is_utensor t \<and> length (ut_data t) < 2 ^ 32 \<and> length (ut_dims t) < 2 ^ 32
     \<and> (\<forall>d \<in> set (ut_dims t). d < 2 ^ 32)"

lemma size_in_bytes_pos [simp]: "0 < size_in_bytes t"
  by (cases t) simp_all

lemma size_in_bytes_divides: "size_in_bytes t dvd 2 ^ 32"
  by (cases t) simp_all

lemma bytes_to_own_data: "is_utensor t \<Longrightarrow> bytes_to_data aligned (ut_dtype t) (ut_data t) (ut_dims t) = Ok t"
  by (simp add: bytes_to_data_def is_utensor_def from_slice_def Let_def)

lemma read_exact_append: "n = length xs \<Longrightarrow> read_exact n (xs @ bs) = Ok (xs, bs)"
  by (simp add: read_exact_def)

lemma deserialize_serialized:
  assumes "fits_uqff t"
  shows "deserialize_tensor aligned (serialize_tensor [] t @ rest) = Ok (t, rest)"
  using assms
  by (simp add: fits_uqff_def deserialize_tensor_def serialize_tensor_def len.dec_enc dtype.dec_enc
      len.dec_enc_many read_exact_append bytes_to_own_data)

interpretation tensor: codec "serialize_tensor []" "deserialize_tensor aligned" fits_uqff for aligned
  by unfold_locales (rule deserialize_serialized)

lemma serialize_tensor_buffer: "serialize_tensor buffer t = buffer @ serialize_tensor [] t"
  by (simp add: serialize_tensor_def)

lemma fake_skips: "fits_uqff t \<Longrightarrow> fake_deserialize_tensor (serialize_tensor [] t @ rest) = Ok ((), rest)"
  by (simp add: fits_uqff_def fake_deserialize_tensor_def serialize_tensor_def len.dec_enc dtype.dec_enc
      len.dec_enc_many)

section \<open>Large tensors\<close>

text \<open>
  A tensor with 4 GiB or more is written without an error, with its length modulo
  \<open>2 ^ 32\<close>, and can never be read back: the bytes that are read as its data do not fill
  the shape.
\<close>

theorem large_tensors_are_lost:
  assumes "is_utensor t" and "2 ^ 32 \<le> length (ut_data t)"
    and "length (ut_dims t) < 2 ^ 32" and "\<forall>d \<in> set (ut_dims t). d < 2 ^ 32"
  shows "deserialize_tensor aligned (serialize_tensor [] t @ rest) = Err (Bail ''shape mismatch'')"
proof -
  let ?n = "length (ut_data t)" and ?size = "size_in_bytes (ut_dtype t)"
  define m where "m = ?n mod 2 ^ 32"
  have "m < 2 ^ 32" unfolding m_def by (rule mod_less_divisor) simp
  with assms(2) have less: "m < ?n" by (rule less_le_trans [rotated])
  have dvd: "?size dvd m"
    using assms(1) size_in_bytes_divides [of "ut_dtype t"] by (simp add: m_def is_utensor_def dvd_mod)
  have full: "m div ?size * ?size = m" using dvd by simp
  have "m div ?size \<noteq> prod_list (ut_dims t)"
  proof
    assume "m div ?size = prod_list (ut_dims t)"
    then have "m = ?n" using full assms(1) by (simp add: is_utensor_def)
    with less show False by simp
  qed
  then have "bytes_to_data aligned (ut_dtype t) (take m (ut_data t)) (ut_dims t) = Err (Bail ''shape mismatch'')"
    using less full by (simp add: bytes_to_data_def from_slice_def Let_def)
  moreover have "read_exact m (ut_data t @ rest) = Ok (take m (ut_data t), drop m (ut_data t) @ rest)"
    using less by (simp add: read_exact_def)
  ultimately show ?thesis
    using assms(3,4)
    by (simp add: deserialize_tensor_def serialize_tensor_def read_len_any len.dec_enc dtype.dec_enc
        len.dec_enc_many m_def del: power_numeral)
qed

definition large_tensor :: utensor where
  "large_tensor = \<lparr>ut_dtype = F32, ut_dims = [131072, 8192], ut_data = replicate (131072 * 8192 * 4) 0\<rparr>"

theorem large_tensors_are_lost_witness:
  "deserialize_tensor False (serialize_tensor [] large_tensor) = Err (Bail ''shape mismatch'')"
  using large_tensors_are_lost [of large_tensor False "[]"]
  by (simp add: large_tensor_def is_utensor_def)

end
