(* ===== verification/Uqff_Layers.thy ===== *)
theory Uqff_Layers
  imports Uqff
begin

text \<open>
  Layers in a UQFF artifact: what the four serializable kinds of layers write and read
  (\<^verbatim>\<open>QuantizedSerde\<close> in \<^verbatim>\<open>gguf/mod.rs\<close>, \<^verbatim>\<open>unquantized/mod.rs\<close>, \<^verbatim>\<open>hqq/mod.rs\<close> and \<^verbatim>\<open>fp8/mod.rs\<close> of
  \<^verbatim>\<open>mistralrs-quant/src\<close>), what the layers for tensor parallelism make of it
  (\<^verbatim>\<open>distributed/layers.rs\<close>), and the artifacts of a whole model
  (\<^verbatim>\<open>mistralrs-core/src/pipeline/isq.rs\<close>).

  The quantized tensors of candle are the parameter \<open>lib\<close>: their data type, shape and bytes, and
  \<^verbatim>\<open>qtensor_from_ggml\<close>. A floating point scalar is its 32 bits. The container of the artifacts
  is a list of named byte strings; the device a tensor is put on is left out.
\<close>

section \<open>Kinds of layers\<close>

datatype ggml_dtype =
    GF32 | GF16 | GBF16 | Q4_0 | Q4_1 | Q5_0 | Q5_1 | Q8_0 | Q8_1 | Q2K | Q3K | Q4K | Q5K | Q6K | Q8K

datatype isq_type =
    IsqQ4_0 | IsqQ4_1 | IsqQ5_0 | IsqQ5_1 | IsqQ8_0 | IsqQ8_1 | IsqQ2K | IsqQ3K | IsqQ4K | IsqQ5K | IsqQ6K
  | IsqQ8K | HQQ8 | HQQ4 | IsqF8E4M3

record 'q ggml_lib =
  q_dtype :: "'q \<Rightarrow> ggml_dtype"
  q_dims :: "'q \<Rightarrow> nat list"
  q_data :: "'q \<Rightarrow> u8 list res"
  qtensor_from_ggml :: "ggml_dtype \<Rightarrow> u8 list \<Rightarrow> nat list \<Rightarrow> 'q res"

datatype 'q qmatmul = QTensor 'q | PlainTensor utensor

record 'q gguf_mat_mul =
  gg_w :: "'q qmatmul"
  gg_b :: "utensor option"

record unquant_linear =
  un_w :: utensor
  un_b :: "utensor option"

datatype hqq_bits = Eight | Four | Three | Two | One

datatype hqq_axis = AxisZero | AxisOne

record hqq_config =
  hc_bits :: hqq_bits
  hc_group_size :: nat
  hc_axis :: hqq_axis
  hc_optimization_steps :: "nat option"
  hc_round_zeros :: bool
  hc_channel_wise :: bool

record hqq_layer =
  hq_w_q :: utensor
  hq_zeros :: utensor
  hq_scales :: utensor
  hq_bias :: "utensor option"
  hq_w_shape :: "nat list"
  hq_cfg :: hqq_config

record fp8_linear =
  f8_w :: utensor
  f8_b :: "utensor option"
  f8_dequant_w_scale :: u32
  f8_dequant_x_scale :: u32
  f8_quant_scale :: u32
  f8_dtype :: dtype

text \<open>
  \<open>OtherLayer\<close> stands for the layers that do not support serialization (GPTQ, blockwise FP8, dummy
  layers); layers of bitsandbytes say they do.
\<close>

datatype 'q layer =
    GgufMatMul "'q gguf_mat_mul"
  | UnquantLinear unquant_linear
  | HqqLayer hqq_layer
  | FP8Linear fp8_linear
  | BnbLinear
  | OtherLayer
  | RowParallelLayer "'q layer" "utensor option"
  | ColumnParallelLayer "'q layer" "utensor option"
  | ReplicatedLayer "'q layer"

datatype quantized_serde_type = SerdeGguf | SerdeUnquant | SerdeHqq | SerdeFp8

fun serde_code :: "quantized_serde_type \<Rightarrow> u8" where
  "serde_code SerdeGguf = 0" | "serde_code SerdeUnquant = 1" | "serde_code SerdeHqq = 2" | "serde_code SerdeFp8 = 3"

definition serde_type_of :: "u8 \<Rightarrow> quantized_serde_type res" where
  "serde_type_of v =
     (if v = 0 then Ok SerdeGguf else if v = 1 then Ok SerdeUnquant else if v = 2 then Ok SerdeHqq
      else if v = 3 then Ok SerdeFp8 else Err (Bail ''QuantizedSerdeType is invalid''))"

section \<open>Codes\<close>

fun ggml_code :: "ggml_dtype \<Rightarrow> u32" where
  "ggml_code GF32 = 0" | "ggml_code GF16 = 1" | "ggml_code Q4_0 = 2" | "ggml_code Q4_1 = 3"
| "ggml_code Q5_0 = 6" | "ggml_code Q5_1 = 7" | "ggml_code Q8_0 = 8" | "ggml_code Q8_1 = 9"
| "ggml_code Q2K = 10" | "ggml_code Q3K = 11" | "ggml_code Q4K = 12" | "ggml_code Q5K = 13"
| "ggml_code Q6K = 14" | "ggml_code Q8K = 15" | "ggml_code GBF16 = 30"

definition read_ggml_dtype :: "ggml_dtype reader" where
  "read_ggml_dtype bs =
     rbind (read_u32 bs) (\<lambda>(w, bs).
     if w = 0 then Ok (GF32, bs) else if w = 1 then Ok (GF16, bs) else if w = 2 then Ok (Q4_0, bs)
     else if w = 3 then Ok (Q4_1, bs) else if w = 6 then Ok (Q5_0, bs) else if w = 7 then Ok (Q5_1, bs)
     else if w = 8 then Ok (Q8_0, bs) else if w = 9 then Ok (Q8_1, bs) else if w = 10 then Ok (Q2K, bs)
     else if w = 11 then Ok (Q3K, bs) else if w = 12 then Ok (Q4K, bs) else if w = 13 then Ok (Q5K, bs)
     else if w = 14 then Ok (Q6K, bs) else if w = 15 then Ok (Q8K, bs) else if w = 30 then Ok (GBF16, bs)
     else Err (Bail ''unknown dtype for quantized weight tensor''))"

fun isq_of_ggml :: "ggml_dtype \<Rightarrow> isq_type res" where
  "isq_of_ggml Q2K = Ok IsqQ2K" | "isq_of_ggml Q3K = Ok IsqQ3K" | "isq_of_ggml Q4K = Ok IsqQ4K"
| "isq_of_ggml Q5K = Ok IsqQ5K" | "isq_of_ggml Q6K = Ok IsqQ6K" | "isq_of_ggml Q4_0 = Ok IsqQ4_0"
| "isq_of_ggml Q4_1 = Ok IsqQ4_1" | "isq_of_ggml Q5_0 = Ok IsqQ5_0" | "isq_of_ggml Q5_1 = Ok IsqQ5_1"
| "isq_of_ggml Q8_0 = Ok IsqQ8_0" | "isq_of_ggml Q8_1 = Ok IsqQ8_1" | "isq_of_ggml Q8K = Ok IsqQ8K"
| "isq_of_ggml GBF16 = Err (Bail ''Expected valid GGML ISQ type.'')"
| "isq_of_ggml GF32 = Err (Bail ''Expected valid GGML ISQ type.'')"
| "isq_of_ggml GF16 = Err (Bail ''Expected valid GGML ISQ type.'')"

fun ggml_of_isq :: "isq_type \<Rightarrow> ggml_dtype res" where
  "ggml_of_isq IsqQ2K = Ok Q2K" | "ggml_of_isq IsqQ3K = Ok Q3K" | "ggml_of_isq IsqQ4K = Ok Q4K"
| "ggml_of_isq IsqQ4_0 = Ok Q4_0" | "ggml_of_isq IsqQ4_1 = Ok Q4_1" | "ggml_of_isq IsqQ5K = Ok Q5K"
| "ggml_of_isq IsqQ5_0 = Ok Q5_0" | "ggml_of_isq IsqQ5_1 = Ok Q5_1" | "ggml_of_isq IsqQ6K = Ok Q6K"
| "ggml_of_isq IsqQ8K = Ok Q8K" | "ggml_of_isq IsqQ8_0 = Ok Q8_0" | "ggml_of_isq IsqQ8_1 = Ok Q8_1"
| "ggml_of_isq _ = Err (Bail ''Expected valid GGML ISQ type.'')"

fun bits_code :: "hqq_bits \<Rightarrow> u8" where
  "bits_code Eight = 8" | "bits_code Four = 4" | "bits_code Three = 3" | "bits_code Two = 2" | "bits_code One = 1"

definition bits_of :: "u8 \<Rightarrow> hqq_bits res" where
  "bits_of v =
     (if v = 8 then Ok Eight else if v = 4 then Ok Four else if v = 3 then Ok Three
      else if v = 2 then Ok Two else if v = 1 then Ok One else Err (Bail ''Unexpected value for HQQ bits''))"

fun axis_code :: "hqq_axis \<Rightarrow> u8" where
  "axis_code AxisZero = 0" | "axis_code AxisOne = 1"

definition axis_of :: "u8 \<Rightarrow> hqq_axis res" where
  "axis_of v =
     (if v = 0 then Ok AxisZero else if v = 1 then Ok AxisOne else Err (Bail ''Unexpected value for HQQ axis''))"

definition write_ggml_dtype :: "ggml_dtype \<Rightarrow> u8 list" where
  "write_ggml_dtype t = to_le_bytes (ggml_code t)"

interpretation ggml: codec write_ggml_dtype read_ggml_dtype "\<lambda>_. True"
proof
  fix t rest
  show "read_ggml_dtype (write_ggml_dtype t @ rest) = Ok (t, rest)"
    by (cases t) (simp_all add: write_ggml_dtype_def read_ggml_dtype_def u32.dec_enc)
qed

lemma isq_of_ggml_of_isq: "ggml_of_isq t = Ok g \<longleftrightarrow> isq_of_ggml g = Ok t"
  by (cases t; cases g) simp_all

lemma bits_of_code [simp]: "bits_of (bits_code b) = Ok b"
  by (cases b) (simp_all add: bits_of_def)

lemma axis_of_code [simp]: "axis_of (axis_code a) = Ok a"
  by (cases a) (simp_all add: axis_of_def)

lemma serde_type_of_code [simp]: "serde_type_of (serde_code k) = Ok k"
  by (cases k) (simp_all add: serde_type_of_def)

lemma serde_code_inj [simp]: "serde_code j = serde_code k \<longleftrightarrow> j = k"
  by (cases j; cases k) simp_all

section \<open>Writing a layer\<close>

definition bool_byte :: "bool \<Rightarrow> u8" where
  "bool_byte b = (if b then 1 else 0)"

definition write_dims :: "nat list \<Rightarrow> u8 list" where
  "write_dims dims = write_len (length dims) @ concat (map write_len dims)"

definition header :: "quantized_serde_type \<Rightarrow> u8 list" where
  "header k = to_le_bytes uqff_version @ [serde_code k]"

definition append_bias :: "utensor option \<Rightarrow> u8 list \<Rightarrow> u8 list" where
  "append_bias b buffer = (case b of None \<Rightarrow> buffer | Some t \<Rightarrow> serialize_tensor buffer t)"

definition serialize_gguf :: "'q ggml_lib \<Rightarrow> 'q gguf_mat_mul \<Rightarrow> u8 list res" where
  "serialize_gguf lib l =
     rbind (case gg_w l of
         QTensor q \<Rightarrow>
           rbind (q_data lib q) (\<lambda>w.
           Ok (header SerdeGguf @ write_len (length w) @ [bool_byte (gg_b l \<noteq> None)]
                 @ write_ggml_dtype (q_dtype lib q) @ write_dims (q_dims lib q) @ w))
       | PlainTensor _ \<Rightarrow> Err (Bail ''Cannot serialize non-quantized'')) (\<lambda>buffer.
     Ok (append_bias (gg_b l) buffer))"

definition serialize_unquant :: "unquant_linear \<Rightarrow> u8 list res" where
  "serialize_unquant l =
     (let buffer = header SerdeUnquant @ [bool_byte (un_b l \<noteq> None)];
          buffer = serialize_tensor buffer (un_w l)
      in Ok (append_bias (un_b l) buffer))"

definition serialize_hqq :: "hqq_layer \<Rightarrow> u8 list res" where
  "serialize_hqq l =
     (let buffer = header SerdeHqq @ [bool_byte (hq_bias l \<noteq> None)];
          buffer = serialize_tensor (serialize_tensor (serialize_tensor buffer (hq_w_q l)) (hq_scales l)) (hq_zeros l);
          buffer = buffer @ write_dims (hq_w_shape l);
          buffer = buffer @ [bits_code (hc_bits (hq_cfg l))] @ write_len (hc_group_size (hq_cfg l))
            @ [axis_code (hc_axis (hq_cfg l))]
            @ write_len (case hc_optimization_steps (hq_cfg l) of None \<Rightarrow> 0 | Some n \<Rightarrow> n)
            @ [bool_byte (hc_round_zeros (hq_cfg l)), bool_byte (hc_channel_wise (hq_cfg l))]
      in Ok (append_bias (hq_bias l) buffer))"

definition serialize_fp8 :: "fp8_linear \<Rightarrow> u8 list res" where
  "serialize_fp8 l =
     (let buffer = header SerdeFp8 @ [bool_byte (f8_b l \<noteq> None)];
          buffer = serialize_tensor buffer (f8_w l);
          buffer = buffer @ to_le_bytes (f8_dequant_w_scale l) @ to_le_bytes (f8_dequant_x_scale l)
            @ to_le_bytes (f8_quant_scale l) @ write_dtype (f8_dtype l)
      in Ok (append_bias (f8_b l) buffer))"

text \<open>
  The layers for tensor parallelism ask their weight to serialize itself with a bias, which
  no layer implements: the default of the trait refuses.
\<close>

definition serialize_with_bias :: "'q layer \<Rightarrow> utensor option \<Rightarrow> u8 list res" where
  "serialize_with_bias l b = Err (Bail ''`QuantizedSerde::serialize_with_bias` is not supported.'')"

fun isq_serde_supported :: "'q layer \<Rightarrow> bool" where
  "isq_serde_supported (GgufMatMul _) = True"
| "isq_serde_supported (UnquantLinear _) = True"
| "isq_serde_supported (HqqLayer _) = True"
| "isq_serde_supported (FP8Linear _) = True"
| "isq_serde_supported BnbLinear = True"
| "isq_serde_supported OtherLayer = False"
| "isq_serde_supported (RowParallelLayer w _) = isq_serde_supported w"
| "isq_serde_supported (ColumnParallelLayer w _) = isq_serde_supported w"
| "isq_serde_supported (ReplicatedLayer w) = isq_serde_supported w"

fun serialize :: "'q ggml_lib \<Rightarrow> 'q layer \<Rightarrow> u8 list res" where
  "serialize lib (GgufMatMul l) = serialize_gguf lib l"
| "serialize lib (UnquantLinear l) = serialize_unquant l"
| "serialize lib (HqqLayer l) = serialize_hqq l"
| "serialize lib (FP8Linear l) = serialize_fp8 l"
| "serialize lib BnbLinear = Err (Panic ''not yet implemented'')"
| "serialize lib OtherLayer = Err (Bail ''`QuantizedSerde::serialize` is not supported.'')"
| "serialize lib (RowParallelLayer w b) = serialize_with_bias w b"
| "serialize lib (ColumnParallelLayer w b) = serialize_with_bias w b"
| "serialize lib (ReplicatedLayer w) = serialize lib w"

section \<open>Reading a layer\<close>

definition read_header :: "quantized_serde_type \<Rightarrow> unit reader" where
  "read_header k bs =
     rbind (read_u32 bs) (\<lambda>(version, bs).
     rbind (version_is_compatible version) (\<lambda>_.
     rbind (read_u8 bs) (\<lambda>(t, bs).
     if t \<noteq> serde_code k then Err (Bail ''ISQ type does not match expected type'') else Ok ((), bs))))"

definition read_bool :: "bool reader" where
  "read_bool bs = rbind (read_u8 bs) (\<lambda>(b, bs). Ok (b \<noteq> 0, bs))"

definition read_dims :: "nat list reader" where
  "read_dims bs = rbind (read_len bs) (\<lambda>(n, bs). read_many read_len n bs)"

text \<open>\<open>al\<close>: whether the bytes of a tensor happen to be aligned.\<close>

definition deserialize_gguf :: "'q ggml_lib \<Rightarrow> bool \<Rightarrow> u8 list \<Rightarrow> 'q gguf_mat_mul res" where
  "deserialize_gguf lib al bs =
     rbind (read_header SerdeGguf bs) (\<lambda>(_, bs).
     rbind (read_len bs) (\<lambda>(data_len, bs).
     rbind (read_bool bs) (\<lambda>(has_bias, bs).
     rbind (read_ggml_dtype bs) (\<lambda>(t, bs).
     rbind (read_dims bs) (\<lambda>(dims, bs).
     rbind (read_exact data_len bs) (\<lambda>(data, bs).
     rbind (read_if has_bias (deserialize_tensor al) bs) (\<lambda>(b, bs).
     rbind (qtensor_from_ggml lib t data dims) (\<lambda>w.
     Ok \<lparr>gg_w = QTensor w, gg_b = b\<rparr>))))))))"

definition deserialize_unquant :: "bool \<Rightarrow> u8 list \<Rightarrow> unquant_linear res" where
  "deserialize_unquant al bs =
     rbind (read_header SerdeUnquant bs) (\<lambda>(_, bs).
     rbind (read_bool bs) (\<lambda>(has_bias, bs).
     rbind (deserialize_tensor al bs) (\<lambda>(w, bs).
     rbind (read_if has_bias (deserialize_tensor al) bs) (\<lambda>(b, bs).
     Ok \<lparr>un_w = w, un_b = b\<rparr>))))"

definition deserialize_hqq :: "bool \<Rightarrow> u8 list \<Rightarrow> hqq_layer res" where
  "deserialize_hqq al bs =
     rbind (read_header SerdeHqq bs) (\<lambda>(_, bs).
     rbind (read_bool bs) (\<lambda>(has_bias, bs).
     rbind (deserialize_tensor al bs) (\<lambda>(w_q, bs).
     rbind (deserialize_tensor al bs) (\<lambda>(scales, bs).
     rbind (deserialize_tensor al bs) (\<lambda>(zeros, bs).
     rbind (read_dims bs) (\<lambda>(w_shape, bs).
     rbind (read_u8 bs) (\<lambda>(bits, bs). rbind (bits_of bits) (\<lambda>bits.
     rbind (read_len bs) (\<lambda>(group_size, bs).
     if group_size = 0 then Err (Bail ''out of range integral type conversion attempted'') else
     rbind (read_u8 bs) (\<lambda>(axis, bs). rbind (axis_of axis) (\<lambda>axis.
     rbind (read_len bs) (\<lambda>(steps, bs).
     rbind (read_bool bs) (\<lambda>(round_zeros, bs).
     rbind (read_bool bs) (\<lambda>(channel_wise, bs).
     rbind (read_if has_bias (deserialize_tensor al) bs) (\<lambda>(b, bs).
     Ok \<lparr>hq_w_q = w_q, hq_zeros = zeros, hq_scales = scales, hq_bias = b, hq_w_shape = w_shape,
         hq_cfg = \<lparr>hc_bits = bits, hc_group_size = group_size, hc_axis = axis,
                   hc_optimization_steps = (if steps = 0 then None else Some steps),
                   hc_round_zeros = round_zeros, hc_channel_wise = channel_wise\<rparr>\<rparr>)))))))))))))))"

definition deserialize_fp8 :: "bool \<Rightarrow> u8 list \<Rightarrow> fp8_linear res" where
  "deserialize_fp8 al bs =
     rbind (read_header SerdeFp8 bs) (\<lambda>(_, bs).
     rbind (read_bool bs) (\<lambda>(has_bias, bs).
     rbind (deserialize_tensor al bs) (\<lambda>(w, bs).
     rbind (read_u32 bs) (\<lambda>(dw, bs). rbind (read_u32 bs) (\<lambda>(dx, bs). rbind (read_u32 bs) (\<lambda>(q, bs).
     rbind (read_dtype bs) (\<lambda>(t, bs).
     rbind (read_if has_bias (deserialize_tensor al) bs) (\<lambda>(b, bs).
     Ok \<lparr>f8_w = w, f8_b = b, f8_dequant_w_scale = dw, f8_dequant_x_scale = dx, f8_quant_scale = q,
         f8_dtype = t\<rparr>))))))))"

text \<open>The type a quantized layer has, without its tensors.\<close>

definition gguf_isq_type :: "u8 list \<Rightarrow> isq_type res" where
  "gguf_isq_type bs =
     rbind (read_header SerdeGguf bs) (\<lambda>(_, bs).
     rbind (read_len bs) (\<lambda>(_, bs).
     rbind (read_bool bs) (\<lambda>(_, bs).
     rbind (read_ggml_dtype bs) (\<lambda>(t, _). isq_of_ggml t))))"

definition hqq_isq_type :: "u8 list \<Rightarrow> isq_type res" where
  "hqq_isq_type bs =
     rbind (read_header SerdeHqq bs) (\<lambda>(_, bs).
     rbind (read_bool bs) (\<lambda>(_, bs).
     rbind (fake_deserialize_tensor bs) (\<lambda>(_, bs).
     rbind (fake_deserialize_tensor bs) (\<lambda>(_, bs).
     rbind (fake_deserialize_tensor bs) (\<lambda>(_, bs).
     rbind (read_dims bs) (\<lambda>(_, bs).
     rbind (read_u8 bs) (\<lambda>(bits, _). rbind (bits_of bits) (\<lambda>bits.
     case bits of Eight \<Rightarrow> Ok HQQ8 | Four \<Rightarrow> Ok HQQ4
     | _ \<Rightarrow> Err (Bail ''cannot convert hqq bits to isq type'')))))))))"

section \<open>The artifacts of a model\<close>

text \<open>\<open>UQFF_QUANT_TYPE_OFFSET\<close>, the fifth byte, says what kind of layer it is.\<close>

definition deserialize_artifact :: "'q ggml_lib \<Rightarrow> bool \<Rightarrow> u8 list \<Rightarrow> 'q layer res" where
  "deserialize_artifact lib al bs =
     rbind (vget bs uqff_quant_type_offset) (\<lambda>t.
     rbind (serde_type_of t) (\<lambda>t.
     case t of
       SerdeGguf \<Rightarrow> rbind (deserialize_gguf lib al bs) (\<lambda>l. Ok (GgufMatMul l))
     | SerdeUnquant \<Rightarrow> rbind (deserialize_unquant al bs) (\<lambda>l. Ok (UnquantLinear l))
     | SerdeHqq \<Rightarrow> rbind (deserialize_hqq al bs) (\<lambda>l. Ok (HqqLayer l))
     | SerdeFp8 \<Rightarrow> rbind (deserialize_fp8 al bs) (\<lambda>l. Ok (FP8Linear l))))"

definition write_artifacts :: "'q ggml_lib \<Rightarrow> 'q layer list \<Rightarrow> (nat \<times> u8 list) list res" where
  "write_artifacts lib ls =
     rmap (\<lambda>(i, l). rbind (serialize lib l) (\<lambda>bs. Ok (i, bs)))
       (filter (\<lambda>(_, l). isq_serde_supported l) (List.enumerate 0 ls))"

text \<open>The names of the artifacts are distinct: they are collected into a hash map.\<close>

definition load_from_artifacts :: "'q ggml_lib \<Rightarrow> bool \<Rightarrow> 'q layer list \<Rightarrow> (nat \<times> u8 list) list \<Rightarrow> 'q layer list res" where
  "load_from_artifacts lib al ls arts =
     (if length (remdups (map fst arts)) \<noteq> length ls then Err (Bail ''Number of artifacts does not match'')
      else rmap (\<lambda>(i, l). case map_of arts i of None \<Rightarrow> Ok l | Some bs \<Rightarrow> deserialize_artifact lib al bs)
             (List.enumerate 0 ls))"

section \<open>Every layer is read back\<close>

lemma read_own_header: "read_header k (header k @ rest) = Ok ((), rest)"
  by (simp add: read_header_def header_def u32.dec_enc)

lemma read_other_header: "j \<noteq> k \<Longrightarrow> \<exists>m. read_header k (header j @ rest) = Err (Bail m)"
  by (simp add: read_header_def header_def u32.dec_enc)

lemma quant_type_of_header: "vget (header k @ rest) uqff_quant_type_offset = Ok (serde_code k)"
  by (simp add: header_def to_le_bytes_def uqff_quant_type_offset_def)

lemma read_bool_byte: "read_bool (bool_byte b # rest) = Ok (b, rest)"
  by (simp add: read_bool_def bool_byte_def)

definition fits_dims :: "nat list \<Rightarrow> bool" where
  "fits_dims ds \<longleftrightarrow> length ds < 2 ^ 32 \<and> (\<forall>d \<in> set ds. d < 2 ^ 32)"

interpretation dims: codec write_dims read_dims fits_dims
  by unfold_locales (simp add: fits_dims_def write_dims_def read_dims_def len.dec_enc len.dec_enc_many)

definition fits_bias :: "utensor option \<Rightarrow> bool" where
  "fits_bias b \<longleftrightarrow> (\<forall>t. b = Some t \<longrightarrow> fits_uqff t)"

lemma append_bias_bytes: "append_bias b buffer = buffer @ (case b of None \<Rightarrow> [] | Some t \<Rightarrow> serialize_tensor [] t)"
  by (cases b) (simp_all add: append_bias_def serialize_tensor_buffer [of buffer])

lemma read_bias:
  "fits_bias b \<Longrightarrow> read_if (b \<noteq> None) (deserialize_tensor al)
     (case b of None \<Rightarrow> [] | Some t \<Rightarrow> serialize_tensor [] t) = Ok (b, [])"
  using tensor.dec_enc_if [where x = b and rest = "[]"] by (simp add: fits_bias_def)

lemmas reading = read_own_header read_bool_byte len.dec_enc ggml.dec_enc dims.dec_enc tensor.dec_enc
  u32.dec_enc dtype.dec_enc read_exact_append read_bias fake_skips

lemmas writing = append_bias_bytes serialize_tensor_buffer [of "_ @ _"]

text \<open>What the format can hold of a layer.\<close>

definition storable_gguf :: "'q ggml_lib \<Rightarrow> 'q gguf_mat_mul \<Rightarrow> bool" where
  "storable_gguf lib l \<longleftrightarrow> (\<exists>q data. gg_w l = QTensor q \<and> q_data lib q = Ok data \<and> length data < 2 ^ 32
     \<and> fits_dims (q_dims lib q) \<and> qtensor_from_ggml lib (q_dtype lib q) data (q_dims lib q) = Ok q
     \<and> fits_bias (gg_b l))"

definition storable_unquant :: "unquant_linear \<Rightarrow> bool" where
  "storable_unquant l \<longleftrightarrow> fits_uqff (un_w l) \<and> fits_bias (un_b l)"

definition storable_hqq :: "hqq_layer \<Rightarrow> bool" where
  "storable_hqq l \<longleftrightarrow> fits_uqff (hq_w_q l) \<and> fits_uqff (hq_scales l) \<and> fits_uqff (hq_zeros l)
     \<and> fits_dims (hq_w_shape l) \<and> 0 < hc_group_size (hq_cfg l) \<and> hc_group_size (hq_cfg l) < 2 ^ 32
     \<and> (\<forall>n. hc_optimization_steps (hq_cfg l) = Some n \<longrightarrow> 0 < n \<and> n < 2 ^ 32) \<and> fits_bias (hq_bias l)"

definition storable_fp8 :: "fp8_linear \<Rightarrow> bool" where
  "storable_fp8 l \<longleftrightarrow> fits_uqff (f8_w l) \<and> fits_bias (f8_b l)"

lemma gguf_read_back:
  assumes "storable_gguf lib l"
  shows "\<exists>bs. serialize_gguf lib l = Ok (header SerdeGguf @ bs) \<and> deserialize_gguf lib al (header SerdeGguf @ bs) = Ok l"
proof -
  obtain q data where "gg_w l = QTensor q" "q_data lib q = Ok data" "length data < 2 ^ 32"
    "fits_dims (q_dims lib q)" "qtensor_from_ggml lib (q_dtype lib q) data (q_dims lib q) = Ok q" "fits_bias (gg_b l)"
    using assms by (auto simp: storable_gguf_def)
  then show ?thesis
    by (simp add: serialize_gguf_def deserialize_gguf_def writing reading del: not_None_eq)
qed

lemma unquant_read_back:
  "storable_unquant l \<Longrightarrow> \<exists>bs. serialize_unquant l = Ok (header SerdeUnquant @ bs)
     \<and> deserialize_unquant al (header SerdeUnquant @ bs) = Ok l"
  by (simp add: storable_unquant_def serialize_unquant_def deserialize_unquant_def writing reading Let_def del: not_None_eq)

lemma steps_read_back:
  fixes s :: "nat option"
  shows "(\<forall>n. s = Some n \<longrightarrow> 0 < n \<and> n < 2 ^ 32) \<Longrightarrow>
     \<exists>n < 2 ^ 32. (case s of None \<Rightarrow> 0 | Some n \<Rightarrow> n) = n \<and> (if n = 0 then None else Some n) = s"
  by (cases s) auto

lemma hqq_read_back:
  assumes "storable_hqq l"
  shows "\<exists>bs. serialize_hqq l = Ok (header SerdeHqq @ bs) \<and> deserialize_hqq al (header SerdeHqq @ bs) = Ok l"
proof -
  obtain n where n: "n < 2 ^ 32" "(case hc_optimization_steps (hq_cfg l) of None \<Rightarrow> 0 | Some n \<Rightarrow> n) = n"
    "(if n = 0 then None else Some n) = hc_optimization_steps (hq_cfg l)"
    using steps_read_back [of "hc_optimization_steps (hq_cfg l)"] assms unfolding storable_hqq_def by blast
  show ?thesis
    using assms n
    by (simp add: storable_hqq_def serialize_hqq_def deserialize_hqq_def writing reading Let_def del: not_None_eq)
qed

lemma fp8_read_back:
  "storable_fp8 l \<Longrightarrow> \<exists>bs. serialize_fp8 l = Ok (header SerdeFp8 @ bs)
     \<and> deserialize_fp8 al (header SerdeFp8 @ bs) = Ok l"
  by (simp add: storable_fp8_def serialize_fp8_def deserialize_fp8_def writing reading Let_def del: not_None_eq)

text \<open>The kind of quantization is found without reading the tensors.\<close>

lemma gguf_isq_type_stored:
  assumes "storable_gguf lib l" and "serialize_gguf lib l = Ok bs" and "gg_w l = QTensor q"
  shows "gguf_isq_type bs = isq_of_ggml (q_dtype lib q)"
  using assms
  by (auto simp: storable_gguf_def serialize_gguf_def gguf_isq_type_def writing reading)

lemma hqq_isq_type_stored:
  assumes "storable_hqq l" and "serialize_hqq l = Ok bs"
  shows "hqq_isq_type bs = (case hc_bits (hq_cfg l) of Eight \<Rightarrow> Ok HQQ8 | Four \<Rightarrow> Ok HQQ4
     | _ \<Rightarrow> Err (Bail ''cannot convert hqq bits to isq type''))"
  using assms by (auto simp: storable_hqq_def serialize_hqq_def hqq_isq_type_def writing reading)

section \<open>The artifacts of a model\<close>

text \<open>A layer without parallelism around it is its inner layer once it is loaded.\<close>

fun unwrapped :: "'q layer \<Rightarrow> 'q layer" where
  "unwrapped (ReplicatedLayer w) = unwrapped w"
| "unwrapped l = l"

fun storable :: "'q ggml_lib \<Rightarrow> 'q layer \<Rightarrow> bool" where
  "storable lib (GgufMatMul l) = storable_gguf lib l"
| "storable lib (UnquantLinear l) = storable_unquant l"
| "storable lib (HqqLayer l) = storable_hqq l"
| "storable lib (FP8Linear l) = storable_fp8 l"
| "storable lib (ReplicatedLayer w) = storable lib w"
| "storable lib _ = False"

lemma artifact_read_back:
  assumes "storable lib l"
  shows "isq_serde_supported l \<and> (\<exists>bs. serialize lib l = Ok bs \<and> deserialize_artifact lib al bs = Ok (unwrapped l))"
proof -
  have dispatch: "deserialize_artifact lib al (header k @ bs) = (case k of
       SerdeGguf \<Rightarrow> rbind (deserialize_gguf lib al (header k @ bs)) (\<lambda>l. Ok (GgufMatMul l))
     | SerdeUnquant \<Rightarrow> rbind (deserialize_unquant al (header k @ bs)) (\<lambda>l. Ok (UnquantLinear l))
     | SerdeHqq \<Rightarrow> rbind (deserialize_hqq al (header k @ bs)) (\<lambda>l. Ok (HqqLayer l))
     | SerdeFp8 \<Rightarrow> rbind (deserialize_fp8 al (header k @ bs)) (\<lambda>l. Ok (FP8Linear l)))" for k bs
    by (cases k) (simp_all add: deserialize_artifact_def quant_type_of_header del: serde_code.simps)
  from assms show ?thesis
  proof (induction l)
    case (GgufMatMul x)
    then show ?case using gguf_read_back [of lib x al] by (auto simp: dispatch)
  next
    case (UnquantLinear x)
    then show ?case using unquant_read_back [of x al] by (auto simp: dispatch)
  next
    case (HqqLayer x)
    then show ?case using hqq_read_back [of x al] by (auto simp: dispatch)
  next
    case (FP8Linear x)
    then show ?case using fp8_read_back [of x al] by (auto simp: dispatch)
  qed simp_all
qed

lemma rmap_Inr_ex:
  assumes "\<forall>x \<in> set xs. \<exists>y. f x = Ok y \<and> P x y"
  shows "\<exists>ys. rmap f xs = Ok ys \<and> list_all2 P xs ys"
  using assms by (induction xs) fastforce+

lemma rmap_all_Ok: "rmap f xs = Ok ys \<Longrightarrow> x \<in> set xs \<Longrightarrow> is_ok (f x)"
  by (induction xs arbitrary: ys) (auto simp: res_simps)

lemma filter_supported:
  "\<forall>l \<in> set ls. isq_serde_supported l
    \<Longrightarrow> filter (\<lambda>(_, l). isq_serde_supported l) (List.enumerate n ls) = List.enumerate n ls"
  by (rule filter_True) (auto simp: in_set_enumerate_eq)

text \<open>
  C31. Writing the artifacts of a model and loading them into any model with as many layers gives
  back every layer, of whatever kind, with its bias; only the wrapper of a replicated layer is gone.
\<close>

theorem artifacts_round_trip:
  assumes "\<forall>l \<in> set ls. storable lib l" and "length ls' = length ls"
  shows "\<exists>arts. write_artifacts lib ls = Ok arts \<and> load_from_artifacts lib al ls' arts = Ok (map unwrapped ls)"
proof -
  let ?P = "\<lambda>(i, l) (j, bs). j = i \<and> deserialize_artifact lib al bs = Ok (unwrapped l)"
  have supported: "\<forall>l \<in> set ls. isq_serde_supported l"
    using assms(1) artifact_read_back by blast
  have "\<forall>x \<in> set (List.enumerate 0 ls).
      \<exists>y. (case x of (i, l) \<Rightarrow> rbind (serialize lib l) (\<lambda>bs. Ok (i, bs))) = Ok y \<and> ?P x y"
  proof
    fix x assume x: "x \<in> set (List.enumerate 0 ls)"
    obtain i l where il: "x = (i, l)" by (cases x)
    then have "l \<in> set ls" using x by (auto simp: in_set_enumerate_eq)
    then show "\<exists>y. (case x of (i, l) \<Rightarrow> rbind (serialize lib l) (\<lambda>bs. Ok (i, bs))) = Ok y \<and> ?P x y"
      using artifact_read_back [of lib l al] assms(1) il by auto
  qed
  from rmap_Inr_ex [OF this] obtain arts where arts: "write_artifacts lib ls = Ok arts"
    "list_all2 ?P (List.enumerate 0 ls) arts"
    by (auto simp: write_artifacts_def filter_supported [OF supported])
  have len: "length arts = length ls" using list_all2_lengthD [OF arts(2)] by simp
  have art: "\<exists>bs. arts ! i = (i, bs) \<and> deserialize_artifact lib al bs = Ok (unwrapped (ls ! i))" if "i < length ls" for i
    using list_all2_nthD [OF arts(2), of i] that by (cases "arts ! i") (simp add: nth_enumerate_eq)
  have fst: "map fst arts = [0..<length ls]"
    by (rule nth_equalityI) (use len art in force)+
  have "map_of arts i = Some (snd (arts ! i))" if "i < length ls" for i
    using map_of_is_SomeI [of arts i "snd (arts ! i)"] art [OF that] len fst that nth_mem [of i arts] by fastforce
  then have "\<forall>x \<in> set (List.enumerate 0 ls').
      (case x of (i, l) \<Rightarrow> case map_of arts i of None \<Rightarrow> Ok l | Some bs \<Rightarrow> deserialize_artifact lib al bs)
        = Ok (unwrapped (ls ! fst x))"
    using art assms(2) by (force simp: in_set_enumerate_eq)
  then have "rmap (\<lambda>(i, l). case map_of arts i of None \<Rightarrow> Ok l | Some bs \<Rightarrow> deserialize_artifact lib al bs)
      (List.enumerate 0 ls') = Ok (map (\<lambda>x. unwrapped (ls ! fst x)) (List.enumerate 0 ls'))"
    by (intro rmap_Inr) blast
  moreover have "map (\<lambda>x. unwrapped (ls ! fst x)) (List.enumerate 0 ls') = map unwrapped ls"
    by (rule nth_equalityI) (simp_all add: assms(2) nth_enumerate_eq)
  moreover have "length (remdups (map fst arts)) = length ls'" using fst assms(2) by simp
  ultimately show ?thesis using arts(1) by (simp add: load_from_artifacts_def)
qed

text \<open>
  A model with a layer for tensor parallelism cannot be written and loaded again. If the
  weight of the layer can be serialized, writing the artifacts fails; otherwise the layer is
  left out, and the artifacts are refused for their number.
\<close>

theorem parallel_layers_are_not_saved:
  assumes "l \<in> set ls" and "l = RowParallelLayer w b \<or> l = ColumnParallelLayer w b"
  shows "if isq_serde_supported w then \<not> is_ok (write_artifacts lib ls)
     else \<forall>arts ls'. write_artifacts lib ls = Ok arts \<and> length ls' = length ls
       \<longrightarrow> (\<exists>m. load_from_artifacts lib al ls' arts = Err (Bail m))"
proof -
  obtain i where i: "i < length ls" "ls ! i = l" using assms(1) by (auto simp: in_set_conv_nth)
  let ?kept = "filter (\<lambda>(_, l). isq_serde_supported l) (List.enumerate 0 ls)"
  have il: "(i, l) \<in> set (List.enumerate 0 ls)" using i by (simp add: in_set_enumerate_eq)
  show ?thesis
  proof (cases "isq_serde_supported w")
    case True
    then have "(i, l) \<in> set ?kept" using il assms(2) by auto
    moreover have "\<not> is_ok (case (i, l) of (i, l) \<Rightarrow> rbind (serialize lib l) (\<lambda>bs. Ok (i, bs)))"
      using assms(2) by (auto simp: serialize_with_bias_def)
    ultimately have "write_artifacts lib ls \<noteq> Ok ys" for ys
      unfolding write_artifacts_def by (metis rmap_all_Ok)
    then show ?thesis using True by (auto simp: is_ok_iff)
  next
    case False
    then have "(i, l) \<notin> set ?kept" using assms(2) by auto
    then have less: "length ?kept < length ls" using il length_filter_less [of "(i, l)" "List.enumerate 0 ls"] assms(2) False by auto
    have "\<exists>m. load_from_artifacts lib al ls' arts = Err (Bail m)"
      if "write_artifacts lib ls = Ok arts" "length ls' = length ls" for arts ls'
    proof -
      have "length arts = length ?kept" using that(1) by (simp add: write_artifacts_def length_rmap)
      then have "length (remdups (map fst arts)) < length ls'"
        using less that(2) length_remdups_leq [of "map fst arts"] by simp
      then show ?thesis by (simp add: load_from_artifacts_def)
    qed
    then show ?thesis using False by simp
  qed
qed

section \<open>Witnesses\<close>

text \<open>Quantized tensors that are what was written of them.\<close>

definition plain_ggml :: "(ggml_dtype \<times> u8 list \<times> nat list) ggml_lib" where
  "plain_ggml = \<lparr>q_dtype = fst, q_dims = (\<lambda>q. snd (snd q)), q_data = (\<lambda>q. Ok (fst (snd q))),
     qtensor_from_ggml = (\<lambda>t data dims. Ok (t, data, dims))\<rparr>"

definition small_tensor :: utensor where
  "small_tensor = \<lparr>ut_dtype = F16, ut_dims = [1, 2], ut_data = [1, 2, 3, 4]\<rparr>"

lemma small_tensor_fits [simp]: "fits_uqff small_tensor"
  by (simp add: fits_uqff_def is_utensor_def small_tensor_def)

definition four_layers :: "(ggml_dtype \<times> u8 list \<times> nat list) layer list" where
  "four_layers =
     [GgufMatMul \<lparr>gg_w = QTensor (Q4K, [7, 7], [1, 256]), gg_b = Some small_tensor\<rparr>,
      ReplicatedLayer (UnquantLinear \<lparr>un_w = small_tensor, un_b = None\<rparr>),
      HqqLayer \<lparr>hq_w_q = small_tensor, hq_zeros = small_tensor, hq_scales = small_tensor, hq_bias = None,
        hq_w_shape = [64, 1], hq_cfg = \<lparr>hc_bits = Four, hc_group_size = 64, hc_axis = AxisZero,
          hc_optimization_steps = Some 10, hc_round_zeros = False, hc_channel_wise = True\<rparr>\<rparr>,
      FP8Linear \<lparr>f8_w = small_tensor, f8_b = None, f8_dequant_w_scale = 1, f8_dequant_x_scale = 2,
        f8_quant_scale = 3, f8_dtype = F8E4M3\<rparr>]"

theorem artifacts_round_trip_witness:
  "\<exists>arts. write_artifacts plain_ggml four_layers = Ok arts
     \<and> load_from_artifacts plain_ggml True [OtherLayer, OtherLayer, OtherLayer, OtherLayer] arts
         = Ok (map unwrapped four_layers)"
  by (rule artifacts_round_trip)
    (simp_all add: four_layers_def storable_gguf_def storable_unquant_def storable_hqq_def storable_fp8_def
      plain_ggml_def fits_dims_def fits_bias_def)

theorem parallel_layers_are_not_saved_witness:
  "\<not> is_ok (write_artifacts plain_ggml [ColumnParallelLayer (UnquantLinear \<lparr>un_w = small_tensor, un_b = None\<rparr>) None])
   \<and> write_artifacts plain_ggml [RowParallelLayer OtherLayer None] = Ok []
   \<and> (\<exists>m. load_from_artifacts plain_ggml True [OtherLayer] [] = Err (Bail m))"
proof -
  have "write_artifacts plain_ggml [RowParallelLayer OtherLayer None] = Ok []"
    by (simp add: write_artifacts_def)
  then show ?thesis
    using parallel_layers_are_not_saved [of "ColumnParallelLayer (UnquantLinear \<lparr>un_w = small_tensor, un_b = None\<rparr>) None"
        "[ColumnParallelLayer (UnquantLinear \<lparr>un_w = small_tensor, un_b = None\<rparr>) None]"
        "UnquantLinear \<lparr>un_w = small_tensor, un_b = None\<rparr>" None plain_ggml True]
      parallel_layers_are_not_saved [of "RowParallelLayer OtherLayer None" "[RowParallelLayer OtherLayer None]"
        OtherLayer None plain_ggml True]
    by simp
qed

end
