(* ===== verification/Hqq.thy ===== *)
theory Hqq
  imports Uqff_Layers
begin

text \<open>
  Half-quadratic quantization (\<^verbatim>\<open>mistralrs-quant/src/hqq\<close>): how the quantized weights are packed
  into bytes or 32 bit integers and unpacked again on the CPU (\<^verbatim>\<open>HqqBits::bitpack_type\<close>,
  \<^verbatim>\<open>HqqLayer::dequantize\<close>, the operations of \<^verbatim>\<open>hqq_op.rs\<close>), and the bitwise operations on
  tensors they use (\<^verbatim>\<open>utils/ops.rs\<close>).

  A tensor on the CPU is a storage and the layout of a matrix in it: a start offset and the
  dimensions. As candle documents it, an operation gets the whole storage and must use the
  layout to access it; its result is laid out from the start of the storage it returns. The
  optimization that finds the quantized weights, scales and zeros is numerical and left out.
\<close>

section \<open>Tensors on the CPU\<close>

record 'a cpu_tensor =
  ct_store :: "'a list"
  ct_off :: nat
  ct_rows :: nat
  ct_cols :: nat

definition ct_elems :: "'a cpu_tensor \<Rightarrow> 'a list" where
  "ct_elems t = take (ct_rows t * ct_cols t) (drop (ct_off t) (ct_store t))"

definition is_ct :: "'a cpu_tensor \<Rightarrow> bool" where
  "is_ct t \<longleftrightarrow> ct_off t + ct_rows t * ct_cols t \<le> length (ct_store t)"

definition laid_out :: "'a list \<Rightarrow> nat \<Rightarrow> nat \<Rightarrow> 'a cpu_tensor" where
  "laid_out xs r c = \<lparr>ct_store = xs, ct_off = 0, ct_rows = r, ct_cols = c\<rparr>"

definition to_dtype :: "('a \<Rightarrow> 'b) \<Rightarrow> 'a cpu_tensor \<Rightarrow> 'b cpu_tensor" where
  "to_dtype conv t = laid_out (map conv (ct_elems t)) (ct_rows t) (ct_cols t)"

definition narrow_rows :: "'a cpu_tensor \<Rightarrow> nat \<Rightarrow> nat \<Rightarrow> 'a cpu_tensor res" where
  "narrow_rows t start n =
     (if start + n \<le> ct_rows t then Ok (t\<lparr>ct_off := ct_off t + start * ct_cols t, ct_rows := n\<rparr>)
      else Err (Bail ''narrow invalid args''))"

text \<open>The elements of a layout, and the slice that panics.\<close>

definition layout_slice :: "'a cpu_tensor \<Rightarrow> 'a list res" where
  "layout_slice t = (if is_ct t then Ok (ct_elems t) else Err (Panic ''range end index out of range''))"

section \<open>Bitwise operations\<close>

text \<open>\<^verbatim>\<open>Leftshift::cpu_fwd\<close> shifts the whole storage, whatever the layout.\<close>

definition leftshift :: "nat \<Rightarrow> 'w::len word cpu_tensor \<Rightarrow> 'w word cpu_tensor res" where
  "leftshift n t = Ok (laid_out (map (push_bit n) (ct_store t)) (ct_rows t) (ct_cols t))"

text \<open>\<^verbatim>\<open>BitWiseOr::cpu_fwd\<close> uses the layouts for bytes, and the whole storages for 32 bit integers.\<close>

definition same_layout :: "'a cpu_tensor \<Rightarrow> 'b cpu_tensor \<Rightarrow> unit res" where
  "same_layout s t =
     (if ct_rows s = ct_rows t \<and> ct_cols s = ct_cols t then Ok () else Err (Bail ''shape mismatch in bitwise-or''))"

definition bitwise_or_u8 :: "u8 cpu_tensor \<Rightarrow> u8 cpu_tensor \<Rightarrow> u8 cpu_tensor res" where
  "bitwise_or_u8 s t =
     rbind (same_layout s t) (\<lambda>_.
     rbind (layout_slice s) (\<lambda>vs1. rbind (layout_slice t) (\<lambda>vs2.
     if length vs1 \<noteq> length vs2 then Err (Bail ''Input tensors must have the same number of elements'')
     else Ok (laid_out (map2 (OR) vs1 vs2) (ct_rows s) (ct_cols s)))))"

definition bitwise_or_i32 :: "u32 cpu_tensor \<Rightarrow> u32 cpu_tensor \<Rightarrow> u32 cpu_tensor res" where
  "bitwise_or_i32 s t =
     rbind (same_layout s t) (\<lambda>_.
     rbind (rassert (length (ct_store s) = length (ct_store t)) ''iterators must have the same length'') (\<lambda>_.
     Ok (laid_out (map2 (OR) (ct_store s) (ct_store t)) (ct_rows s) (ct_cols s))))"

section \<open>Packing\<close>

datatype packed = PackedU8 "u8 cpu_tensor" | PackedI32 "u32 cpu_tensor"

definition pack_four :: "('f \<Rightarrow> u8) \<Rightarrow> 'f cpu_tensor \<Rightarrow> u8 cpu_tensor res" where
  "pack_four conv wq =
     (let wq = to_dtype conv wq; step = ct_rows wq div 2
      in rbind (narrow_rows wq 0 step) (\<lambda>a.
         rbind (narrow_rows wq step step) (\<lambda>b.
         rbind (leftshift 4 a) (\<lambda>a. bitwise_or_u8 a b))))"

definition pack_two :: "('f \<Rightarrow> u8) \<Rightarrow> 'f cpu_tensor \<Rightarrow> u8 cpu_tensor res" where
  "pack_two conv wq =
     (let wq = to_dtype conv wq; step = ct_rows wq div 4
      in rbind (narrow_rows wq 0 step) (\<lambda>a.
         rbind (narrow_rows wq step step) (\<lambda>b.
         rbind (narrow_rows wq (step * 2) step) (\<lambda>c.
         rbind (narrow_rows wq (step * 3) step) (\<lambda>d.
         rbind (leftshift 6 a) (\<lambda>a.
         rbind (rbind (leftshift 4 b) (bitwise_or_u8 a)) (\<lambda>x.
         rbind (rbind (leftshift 2 c) (bitwise_or_u8 x)) (\<lambda>x.
         bitwise_or_u8 x d))))))))"

text \<open>\<open>or_shifted orf wq step x [(k\<^sub>1, n\<^sub>1), \<dots>]\<close>: the steps of the longer chains, \<open>x\<close> or the
  \<open>k\<close>-th group of rows shifted by \<open>n\<close>.\<close>

fun or_shifted :: "('w::len word cpu_tensor \<Rightarrow> 'w word cpu_tensor \<Rightarrow> 'w word cpu_tensor res)
    \<Rightarrow> 'w word cpu_tensor \<Rightarrow> nat \<Rightarrow> 'w word cpu_tensor \<Rightarrow> (nat \<times> nat) list \<Rightarrow> 'w word cpu_tensor res" where
  "or_shifted orf wq step x [] = Ok x"
| "or_shifted orf wq step x ((k, n) # kns) =
     rbind (narrow_rows wq (step * k) step) (\<lambda>g.
     rbind (rbind (leftshift n g) (orf x)) (\<lambda>x. or_shifted orf wq step x kns))"

definition pack_one :: "('f \<Rightarrow> u8) \<Rightarrow> 'f cpu_tensor \<Rightarrow> u8 cpu_tensor res" where
  "pack_one conv wq =
     (let wq = to_dtype conv wq; step = ct_rows wq div 8
      in rbind (narrow_rows wq 0 step) (\<lambda>a.
         rbind (leftshift 7 a) (\<lambda>a.
         rbind (or_shifted bitwise_or_u8 wq step a [(1, 6), (2, 5), (3, 4), (4, 3), (5, 2), (6, 1)]) (\<lambda>x.
         rbind (narrow_rows wq (step * 7) step) (\<lambda>h. bitwise_or_u8 x h)))))"

text \<open>The rows are filled up with zeros to a multiple of ten.\<close>

definition pad_rows :: "('f \<Rightarrow> u32) \<Rightarrow> 'f cpu_tensor \<Rightarrow> u32 cpu_tensor" where
  "pad_rows conv wq_in =
     (let rows = 10 * div_ceil (ct_rows wq_in) 10;
          values = map conv (ct_elems wq_in)
      in laid_out (values @ replicate (rows * ct_cols wq_in - length values) 0) rows (ct_cols wq_in))"

definition pack_three :: "('f \<Rightarrow> u32) \<Rightarrow> 'f cpu_tensor \<Rightarrow> u32 cpu_tensor res" where
  "pack_three conv wq_in =
     (let wq = pad_rows conv wq_in; step = ct_rows wq div 10
      in rbind (narrow_rows wq 0 step) (\<lambda>a.
         rbind (leftshift 27 a) (\<lambda>a.
         rbind (or_shifted bitwise_or_i32 wq step a
           [(1, 24), (2, 21), (3, 18), (4, 15), (5, 12), (6, 9), (7, 6), (8, 3)]) (\<lambda>x.
         rbind (narrow_rows wq (step * 9) step) (\<lambda>j. bitwise_or_i32 x j)))))"

definition bitpack :: "('f \<Rightarrow> u8) \<Rightarrow> ('f \<Rightarrow> u32) \<Rightarrow> hqq_bits \<Rightarrow> 'f cpu_tensor \<Rightarrow> packed res" where
  "bitpack to_u8 to_i32 bits wq =
     (case bits of
        Eight \<Rightarrow> Ok (PackedU8 (to_dtype to_u8 wq))
      | Four \<Rightarrow> rbind (pack_four to_u8 wq) (\<lambda>t. Ok (PackedU8 t))
      | Two \<Rightarrow> rbind (pack_two to_u8 wq) (\<lambda>t. Ok (PackedU8 t))
      | One \<Rightarrow> rbind (pack_one to_u8 wq) (\<lambda>t. Ok (PackedU8 t))
      | Three \<Rightarrow> rbind (pack_three to_i32 wq) (\<lambda>t. Ok (PackedI32 t)))"

section \<open>Unpacking\<close>

text \<open>The values in a byte or an integer, from the first group of rows to the last.\<close>

definition fields_8 :: "(u8 \<Rightarrow> u8) list" where
  "fields_8 = [\<lambda>w. w]"

definition fields_4 :: "(u8 \<Rightarrow> u8) list" where
  "fields_4 = [\<lambda>w. drop_bit 4 (w AND 0xF0), \<lambda>w. w AND 0x0F]"

definition fields_2 :: "(u8 \<Rightarrow> u8) list" where
  "fields_2 = [\<lambda>w. drop_bit 6 (w AND 0xC0), \<lambda>w. drop_bit 4 (w AND 0x30), \<lambda>w. drop_bit 2 (w AND 0x0C),
     \<lambda>w. w AND 0x03]"

definition fields_1 :: "(u8 \<Rightarrow> u8) list" where
  "fields_1 = [\<lambda>w. drop_bit 7 (w AND 0x80), \<lambda>w. drop_bit 6 (w AND 0x40), \<lambda>w. drop_bit 5 (w AND 0x20),
     \<lambda>w. drop_bit 4 (w AND 0x10), \<lambda>w. drop_bit 3 (w AND 0x08), \<lambda>w. drop_bit 2 (w AND 0x04),
     \<lambda>w. drop_bit 1 (w AND 0x02), \<lambda>w. w AND 0x01]"

definition fields_3 :: "(u32 \<Rightarrow> u32) list" where
  "fields_3 = [\<lambda>w. drop_bit 27 (w AND 0x38000000), \<lambda>w. drop_bit 24 (w AND 0x07000000),
     \<lambda>w. drop_bit 21 (w AND 0x00E00000), \<lambda>w. drop_bit 18 (w AND 0x001C0000),
     \<lambda>w. drop_bit 15 (w AND 0x00038000), \<lambda>w. drop_bit 12 (w AND 0x00007000),
     \<lambda>w. drop_bit 9 (w AND 0x00000E00), \<lambda>w. drop_bit 6 (w AND 0x000001C0),
     \<lambda>w. drop_bit 3 (w AND 0x00000038), \<lambda>w. w AND 0x00000007]"

text \<open>\<^verbatim>\<open>dequantize\<close> of the five operations: the loop over the storage of the weights.\<close>

definition dequant_one :: "('w \<Rightarrow> 'f) \<Rightarrow> ('w \<Rightarrow> 'w) list \<Rightarrow> nat \<Rightarrow> nat \<Rightarrow> 'f list \<Rightarrow> 'f list \<Rightarrow> nat \<times> 'w
    \<Rightarrow> 'f::{minus,times} list \<Rightarrow> 'f list res" where
  "dequant_one of_w fs h w s z = (\<lambda>(i, x) out.
     rbind (rassert (w \<noteq> 0) ''attempt to calculate the remainder with a divisor of zero'') (\<lambda>_.
     let j = i mod w
     in rfold (\<lambda>(m, f) out.
          rbind (vget z j) (\<lambda>zj. rbind (vget s j) (\<lambda>sj.
          vset out (i + h * w * m) ((of_w (f x) - zj) * sj))))
          (List.enumerate 0 fs) out))"

definition dequant_loop :: "('w \<Rightarrow> 'f) \<Rightarrow> ('w \<Rightarrow> 'w) list \<Rightarrow> nat \<Rightarrow> nat \<Rightarrow> 'w list \<Rightarrow> 'f list \<Rightarrow> 'f list
    \<Rightarrow> 'f::{zero,minus,times} list res" where
  "dequant_loop of_w fs h w ws s z =
     rfold (dequant_one of_w fs h w s z) (List.enumerate 0 ws) (replicate (length ws * length fs) 0)"

text \<open>The operation returns the storage with a row for every field of every row.\<close>

definition dequant_op :: "('w \<Rightarrow> 'f) \<Rightarrow> ('w \<Rightarrow> 'w) list \<Rightarrow> 'w cpu_tensor \<Rightarrow> 'f list \<Rightarrow> 'f list
    \<Rightarrow> 'f::{zero,minus,times} cpu_tensor res" where
  "dequant_op of_w fs t s z =
     rbind (dequant_loop of_w fs (ct_rows t) (ct_cols t) (ct_store t) s z) (\<lambda>out.
     Ok (laid_out out (length fs * ct_rows t) (ct_cols t)))"

definition reshape :: "nat list \<Rightarrow> 'a cpu_tensor \<Rightarrow> 'a list res" where
  "reshape dims t =
     (if prod_list dims = ct_rows t * ct_cols t then Ok (ct_elems t) else Err (Bail ''shape mismatch in reshape''))"

text \<open>\<^verbatim>\<open>HqqLayer::dequantize\<close> without CUDA: the elements of the result.\<close>

definition hqq_dequantize :: "(u8 \<Rightarrow> 'f) \<Rightarrow> (u32 \<Rightarrow> 'f) \<Rightarrow> hqq_bits \<Rightarrow> hqq_axis \<Rightarrow> nat list \<Rightarrow> packed \<Rightarrow> 'f list
    \<Rightarrow> 'f list \<Rightarrow> 'f::{zero,minus,times} list res" where
  "hqq_dequantize of_u8 of_i32 bits axis w_shape w_q s z =
     (if axis \<noteq> AxisZero then Err (Bail ''CPU HQQ dequantization requires axis == 0'')
      else case (bits, w_q) of
        (Eight, PackedU8 t) \<Rightarrow> rbind (dequant_op of_u8 fields_8 t s z) (reshape w_shape)
      | (Four, PackedU8 t) \<Rightarrow> rbind (dequant_op of_u8 fields_4 t s z) (reshape w_shape)
      | (Two, PackedU8 t) \<Rightarrow> rbind (dequant_op of_u8 fields_2 t s z) (reshape w_shape)
      | (One, PackedU8 t) \<Rightarrow> rbind (dequant_op of_u8 fields_1 t s z) (reshape w_shape)
      | (Three, PackedI32 t) \<Rightarrow> rbind (dequant_op of_i32 fields_3 t s z) (reshape w_shape)
      | _ \<Rightarrow> Err (Bail ''unexpected dtype of the weight''))"

section \<open>The loop writes every place once\<close>

definition dequant_value :: "('w \<Rightarrow> 'f) \<Rightarrow> 'f list \<Rightarrow> 'f list \<Rightarrow> 'w \<Rightarrow> nat \<Rightarrow> 'f::{minus,times}" where
  "dequant_value of_w s z x j = (of_w x - z ! j) * s ! j"

lemma split_index: "0 < (n::nat) \<Longrightarrow> i < n \<Longrightarrow> p = i + n * m \<longleftrightarrow> p mod n = i \<and> p div n = m"
  by (metis add.commute div_mult_self2 div_less add_0 less_numeral_extra(3) mod_less mod_mult_self2 mult_div_mod_eq)

lemma dequant_fields:
  assumes "i < n" and "j < length s" and "j < length z" and "\<forall>m < length fs. i + n * (k + m) < length out"
  shows "\<exists>out'. rfold (\<lambda>(m, f) out. rbind (vget z j) (\<lambda>zj. rbind (vget s j) (\<lambda>sj.
        vset out (i + n * m) ((of_w (f x) - zj) * sj)))) (List.enumerate k fs) out = Ok out'
     \<and> length out' = length out
     \<and> (\<forall>p < length out. out' ! p = (if p mod n = i \<and> k \<le> p div n \<and> p div n < k + length fs
          then dequant_value of_w s z ((fs ! (p div n - k)) x) j else out ! p))"
  using assms(4)
proof (induction fs arbitrary: k out)
  case Nil
  then show ?case by auto
next
  case (Cons f fs)
  let ?out = "out[i + n * k := dequant_value of_w s z (f x) j]"
  have "i + n * k < length out" using Cons.prems by (auto dest: spec [of _ 0])
  then have step: "rbind (vget z j) (\<lambda>zj. rbind (vget s j) (\<lambda>sj. vset out (i + n * k) ((of_w (f x) - zj) * sj))) = Ok ?out"
    using assms(2,3) by (simp add: vset_def dequant_value_def)
  have "\<forall>m < length fs. i + n * (Suc k + m) < length ?out"
  proof (intro allI impI)
    fix m assume "m < length fs"
    then have "Suc m < length (f # fs)" by simp
    then have "i + n * (k + Suc m) < length out" using Cons.prems by blast
    then show "i + n * (Suc k + m) < length ?out" by simp
  qed
  from Cons.IH [OF this] obtain out' where out': "rfold (\<lambda>(m, f) out. rbind (vget z j) (\<lambda>zj. rbind (vget s j) (\<lambda>sj.
        vset out (i + n * m) ((of_w (f x) - zj) * sj)))) (List.enumerate (Suc k) fs) ?out = Ok out'"
     "length out' = length ?out"
     "\<forall>p < length ?out. out' ! p = (if p mod n = i \<and> Suc k \<le> p div n \<and> p div n < Suc k + length fs
          then dequant_value of_w s z ((fs ! (p div n - Suc k)) x) j else ?out ! p)" by blast
  have "out' ! p = (if p mod n = i \<and> k \<le> p div n \<and> p div n < k + length (f # fs)
          then dequant_value of_w s z (((f # fs) ! (p div n - k)) x) j else out ! p)" if p: "p < length out" for p
  proof (cases "p mod n = i \<and> p div n = k")
    case True
    then have "p = i + n * k" using split_index [of n i p k] assms(1) by simp
    then show ?thesis using out'(3) p True by simp
  next
    case False
    then have "p \<noteq> i + n * k" using split_index [of n i p k] assms(1) by auto
    then have "?out ! p = out ! p" by simp
    moreover have "(fs ! (p div n - Suc k)) = (f # fs) ! (p div n - k)" if "Suc k \<le> p div n"
      using that by (simp add: nth_Cons')
    ultimately show ?thesis using out'(3) p False by (auto simp: le_eq_less_or_eq)
  qed
  then show ?case using out'(1,2) step by simp
qed

lemma dequant_words:
  assumes "0 < w" and "w \<le> length s" and "w \<le> length z" and "i0 + length ws \<le> h * w"
    and "length out = h * w * length fs"
  shows "\<exists>out'. rfold (dequant_one of_w fs h w s z) (List.enumerate i0 ws) out = Ok out' \<and> length out' = length out
     \<and> (\<forall>p < length out. out' ! p = (if i0 \<le> p mod (h * w) \<and> p mod (h * w) < i0 + length ws
          then dequant_value of_w s z ((fs ! (p div (h * w))) (ws ! (p mod (h * w) - i0))) (p mod (h * w) mod w)
          else out ! p))"
  using assms(4,5)
proof (induction ws arbitrary: i0 out)
  case Nil
  then show ?case by auto
next
  case (Cons x ws)
  let ?n = "h * w" and ?j = "i0 mod w"
  have i0: "i0 < ?n" using Cons.prems(1) by simp
  have j: "?j < length s" "?j < length z" using assms(1-3) mod_less_divisor [of w i0] by linarith+
  have room: "i0 + ?n * (0 + m) < length out" if "m < length fs" for m
  proof -
    have "i0 + ?n * m < ?n + ?n * m" using i0 by simp
    also have "\<dots> = ?n * Suc m" by simp
    also have "\<dots> \<le> ?n * length fs" using that by (intro mult_le_mono) simp_all
    finally show ?thesis using Cons.prems(2) by simp
  qed
  obtain out1 where out1: "dequant_one of_w fs h w s z (i0, x) out = Ok out1" "length out1 = length out"
    "\<forall>p < length out. out1 ! p = (if p mod ?n = i0 \<and> 0 \<le> p div ?n \<and> p div ?n < 0 + length fs
          then dequant_value of_w s z ((fs ! (p div ?n - 0)) x) ?j else out ! p)"
    using dequant_fields [of i0 ?n ?j s z fs 0 out of_w x] i0 j room assms(1)
    by (auto simp: dequant_one_def Let_def)
  obtain out' where out': "rfold (dequant_one of_w fs h w s z) (List.enumerate (Suc i0) ws) out1 = Ok out'"
    "length out' = length out1"
    "\<forall>p < length out1. out' ! p = (if Suc i0 \<le> p mod ?n \<and> p mod ?n < Suc i0 + length ws
          then dequant_value of_w s z ((fs ! (p div ?n)) (ws ! (p mod ?n - Suc i0))) (p mod ?n mod w) else out1 ! p)"
    using Cons.IH [of "Suc i0" out1] Cons.prems out1(2) by auto
  have "out' ! p = (if i0 \<le> p mod ?n \<and> p mod ?n < i0 + length (x # ws)
          then dequant_value of_w s z ((fs ! (p div ?n)) ((x # ws) ! (p mod ?n - i0))) (p mod ?n mod w) else out ! p)"
    if p: "p < length out" for p
  proof -
    have "p div ?n < length fs" using p Cons.prems(2) i0 by (simp add: less_mult_imp_div_less mult.commute)
    then show ?thesis
      using out1(2,3) out'(3) p by (auto simp: nth_Cons' le_eq_less_or_eq)
  qed
  then show ?case using out1(1,2) out'(1,2) by simp
qed

lemma dequant_loop_run:
  assumes "0 < w" and "w \<le> length s" and "w \<le> length z" and "length ws = h * w"
  shows "dequant_loop of_w fs h w ws s z = Ok (map (\<lambda>p. dequant_value of_w s z
     ((fs ! (p div (h * w))) (ws ! (p mod (h * w)))) (p mod (h * w) mod w)) [0..<h * w * length fs])"
proof -
  obtain out' where "dequant_loop of_w fs h w ws s z = Ok out'" "length out' = h * w * length fs"
    "\<forall>p < h * w * length fs. out' ! p = (if 0 \<le> p mod (h * w) \<and> p mod (h * w) < 0 + length ws
       then dequant_value of_w s z ((fs ! (p div (h * w))) (ws ! (p mod (h * w) - 0))) (p mod (h * w) mod w) else 0)"
    using dequant_words [OF assms(1-3), of 0 ws h "replicate (length ws * length fs) 0" fs of_w] assms(4)
    by (auto simp: dequant_loop_def)
  moreover have "p mod (h * w) < h * w" if "p < h * w * length fs" for p
    using that by (cases "h * w") simp_all
  ultimately show ?thesis using assms(4) by (auto intro!: nth_equalityI)
qed

section \<open>Bits\<close>

text \<open>Values of \<open>k\<close> bits, side by side.\<close>

definition fits_bits :: "nat \<Rightarrow> 'w::len word \<Rightarrow> bool" where
  "fits_bits k a \<longleftrightarrow> unat a < 2 ^ k"

lemma fits_bits_bit: "fits_bits k a \<Longrightarrow> bit a n \<Longrightarrow> n < k"
  unfolding fits_bits_def using unsigned_take_bit_eq [of k a]
  by (metis bit_take_bit_iff take_bit_nat_eq_self unsigned_word_eqI)

definition bit_field :: "nat \<Rightarrow> nat \<Rightarrow> 'w::len word \<Rightarrow> 'w word" where
  "bit_field k n a = take_bit k (drop_bit n a)"

lemma and_field: "drop_bit n (a AND push_bit n (mask k)) = bit_field k n a"
  by (rule bit_word_eqI) (auto simp: bit_field_def bit_drop_bit_eq bit_and_iff bit_push_bit_iff bit_take_bit_iff bit_mask_iff
      dest: bit_imp_le_length)

lemma bit_field_or: "bit_field k n (a OR b) = bit_field k n a OR bit_field k n b"
  by (simp add: bit_field_def drop_bit_or)

lemma bit_field_own:
  fixes a :: "'w::len word"
  assumes "fits_bits k a" and "n + k \<le> LENGTH('w)"
  shows "bit_field k n (push_bit n a) = a"
proof (rule bit_word_eqI)
  fix i assume "i < LENGTH('w)"
  show "bit (bit_field k n (push_bit n a)) i = bit a i"
    using fits_bits_bit [OF assms(1), of i] assms(2)
    by (auto simp: bit_field_def bit_take_bit_iff bit_drop_bit_eq bit_push_bit_iff)
qed

lemma bit_field_other:
  "fits_bits k a \<Longrightarrow> n + k \<le> m \<or> m + k \<le> n \<Longrightarrow> bit_field k n (push_bit m a) = 0"
  by (rule bit_word_eqI)
    (use fits_bits_bit in \<open>fastforce simp: bit_field_def bit_take_bit_iff bit_drop_bit_eq bit_push_bit_iff\<close>)

lemma fields_4_bits: "fields_4 = [bit_field 4 4, bit_field 4 0]"
proof -
  have "w AND 0xF0 = w AND push_bit 4 (mask 4)" "w AND 0x0F = drop_bit 0 (w AND push_bit 0 (mask 4))" for w :: u8
    by (simp_all add: mask_eq_exp_minus_1 push_bit_eq_mult)
  then show ?thesis by (simp only: fields_4_def and_field)
qed

lemma fields_2_bits: "fields_2 = [bit_field 2 6, bit_field 2 4, bit_field 2 2, bit_field 2 0]"
proof -
  have "w AND 0xC0 = w AND push_bit 6 (mask 2)" "w AND 0x30 = w AND push_bit 4 (mask 2)"
    "w AND 0x0C = w AND push_bit 2 (mask 2)" "w AND 0x03 = drop_bit 0 (w AND push_bit 0 (mask 2))" for w :: u8
    by (simp_all add: mask_eq_exp_minus_1 push_bit_eq_mult)
  then show ?thesis by (simp only: fields_2_def and_field)
qed

section \<open>What is packed\<close>

lemma laid_out_simps [simp]:
  "ct_rows (laid_out xs r c) = r" "ct_cols (laid_out xs r c) = c" "ct_store (laid_out xs r c) = xs"
  "ct_off (laid_out xs r c) = 0" "ct_elems (laid_out xs r c) = take (r * c) xs"
  by (simp_all add: laid_out_def ct_elems_def)

lemma take_map_nth: "n \<le> length xs \<Longrightarrow> take n xs = map ((!) xs) [0..<n]"
  by (rule nth_equalityI) simp_all

lemma length_elems: "is_ct t \<Longrightarrow> length (ct_elems t) = ct_rows t * ct_cols t"
  by (simp add: is_ct_def ct_elems_def)

lemma laid_out_to_dtype: "to_dtype conv t = laid_out (map conv (ct_elems t)) (ct_rows t) (ct_cols t)"
  by (simp add: to_dtype_def)

text \<open>A group of rows that is shifted is always the first one.\<close>

lemma shifted_group:
  "start + step \<le> r \<Longrightarrow> rbind (narrow_rows (laid_out xs r c) start step) (\<lambda>g. rbind (leftshift n g) f)
     = f (laid_out (map (push_bit n) xs) step c)"
  by (simp add: narrow_rows_def leftshift_def laid_out_def)

lemma or_bytes:
  assumes "r * c \<le> length xs" and "is_ct t" and "ct_rows t = r" and "ct_cols t = c"
  shows "bitwise_or_u8 (laid_out xs r c) t = Ok (laid_out (map (\<lambda>i. xs ! i OR ct_elems t ! i) [0..<r * c]) r c)"
proof -
  have "map2 (OR) (take (r * c) xs) (ct_elems t) = map (\<lambda>i. xs ! i OR ct_elems t ! i) [0..<r * c]"
    by (rule nth_equalityI) (use assms length_elems [OF assms(2)] in simp_all)
  moreover have "is_ct (laid_out xs r c)" using assms(1) by (simp add: is_ct_def)
  ultimately show ?thesis
    using assms length_elems [OF assms(2)] by (simp add: bitwise_or_u8_def same_layout_def layout_slice_def)
qed

lemma last_group:
  assumes "start + step \<le> r" and "length xs = r * c"
  shows "narrow_rows (laid_out xs r c) start step = Ok \<lparr>ct_store = xs, ct_off = start * c, ct_rows = step, ct_cols = c\<rparr>"
    and "is_ct \<lparr>ct_store = xs, ct_off = start * c, ct_rows = step, ct_cols = c\<rparr>"
    and "i < step * c \<Longrightarrow> ct_elems \<lparr>ct_store = xs, ct_off = start * c, ct_rows = step, ct_cols = c\<rparr> ! i = xs ! (start * c + i)"
proof -
  have "(start + step) * c \<le> r * c" using assms(1) by (rule mult_le_mono1)
  then have le: "start * c + step * c \<le> length xs" using assms(2) by (simp add: add_mult_distrib)
  then show "is_ct \<lparr>ct_store = xs, ct_off = start * c, ct_rows = step, ct_cols = c\<rparr>" by (simp add: is_ct_def)
  show "narrow_rows (laid_out xs r c) start step = Ok \<lparr>ct_store = xs, ct_off = start * c, ct_rows = step, ct_cols = c\<rparr>"
    using assms(1) by (simp add: narrow_rows_def laid_out_def)
  show "ct_elems \<lparr>ct_store = xs, ct_off = start * c, ct_rows = step, ct_cols = c\<rparr> ! i = xs ! (start * c + i)"
    if "i < step * c" using le that by (simp add: ct_elems_def)
qed

lemma pack_four_run:
  fixes conv :: "'f \<Rightarrow> u8"
  assumes "is_ct wq" and "ct_rows wq = 2 * h" and "ct_cols wq = c"
  defines "xs \<equiv> map conv (ct_elems wq)"
  shows "pack_four conv wq = Ok (laid_out (map (\<lambda>i. push_bit 4 (xs ! i) OR xs ! (h * c + i)) [0..<h * c]) h c)"
proof -
  have len: "length xs = 2 * h * c" using length_elems [OF assms(1)] assms(2,3) by (simp add: xs_def)
  let ?b = "\<lparr>ct_store = xs, ct_off = h * c, ct_rows = h, ct_cols = c\<rparr>"
  note b = last_group [of h h "2 * h" xs c, OF _ len]
  have "pack_four conv wq = bitwise_or_u8 (laid_out (map (push_bit 4) xs) h c) ?b"
    using b(1) assms(2,3) by (simp add: pack_four_def Let_def laid_out_to_dtype xs_def narrow_rows_def leftshift_def laid_out_def)
  also have "\<dots> = Ok (laid_out (map (\<lambda>i. map (push_bit 4) xs ! i OR ct_elems ?b ! i) [0..<h * c]) h c)"
    by (rule or_bytes) (use b(2) len in simp_all)
  also have "map (\<lambda>i. map (push_bit 4) xs ! i OR ct_elems ?b ! i) [0..<h * c]
      = map (\<lambda>i. push_bit 4 (xs ! i) OR xs ! (h * c + i)) [0..<h * c]"
    using b(3) len by simp
  finally show ?thesis .
qed

lemma or_first_groups:
  assumes "h * c \<le> length xs"
  shows "bitwise_or_u8 (laid_out (map f [0..<h * c]) h c) (laid_out (map (push_bit n) xs) h c)
    = Ok (laid_out (map (\<lambda>i. f i OR push_bit n (xs ! i)) [0..<h * c]) h c)"
proof -
  have "is_ct (laid_out (map (push_bit n) xs) h c)" using assms by (simp add: is_ct_def)
  from or_bytes [OF _ this, of h c "map f [0..<h * c]"] show ?thesis
    using assms by simp
qed

lemma pack_two_run:
  fixes conv :: "'f \<Rightarrow> u8"
  assumes "is_ct wq" and "ct_rows wq = 4 * h" and "ct_cols wq = c"
  defines "xs \<equiv> map conv (ct_elems wq)"
  shows "pack_two conv wq = Ok (laid_out (map (\<lambda>i. (push_bit 6 (xs ! i) OR push_bit 4 (xs ! i) OR push_bit 2 (xs ! i))
     OR xs ! (h * 3 * c + i)) [0..<h * c]) h c)"
proof -
  have len: "length xs = 4 * h * c" using length_elems [OF assms(1)] assms(2,3) by (simp add: xs_def)
  then have le: "h * c \<le> length xs" by simp
  have groups: "narrow_rows (laid_out xs (4 * h) c) (h * k) h = Ok \<lparr>ct_store = xs, ct_off = h * k * c, ct_rows = h, ct_cols = c\<rparr>"
    if "k < 4" for k
  proof -
    have "h * k + h \<le> 4 * h" using that mult_le_mono2 [of "Suc k" 4 h] by (simp add: mult.commute)
    from last_group(1) [OF this len] show ?thesis .
  qed
  let ?d = "\<lparr>ct_store = xs, ct_off = h * 3 * c, ct_rows = h, ct_cols = c\<rparr>"
  note d = last_group [of "h * 3" h "4 * h" xs c, OF _ len]
  have six: "laid_out (map (push_bit 6) xs) h c = laid_out (map (push_bit 6) xs) h c" ..
  define x1 where "x1 = laid_out (map (\<lambda>i. push_bit 6 (xs ! i) OR push_bit 4 (xs ! i)) [0..<h * c]) h c"
  define x2 where "x2 = laid_out (map (\<lambda>i. (push_bit 6 (xs ! i) OR push_bit 4 (xs ! i)) OR push_bit 2 (xs ! i)) [0..<h * c]) h c"
  have 1: "bitwise_or_u8 (laid_out (map (push_bit 6) xs) h c) (laid_out (map (push_bit 4) xs) h c) = Ok x1"
  proof -
    have "is_ct (laid_out (map (push_bit 4) xs) h c)" using le by (simp add: is_ct_def)
    from or_bytes [OF _ this, of h c "map (push_bit 6) xs"] show ?thesis using le by (simp add: x1_def)
  qed
  have 2: "bitwise_or_u8 x1 (laid_out (map (push_bit 2) xs) h c) = Ok x2"
    using or_first_groups [OF le, of "\<lambda>i. push_bit 6 (xs ! i) OR push_bit 4 (xs ! i)" 2] by (simp add: x1_def x2_def)
  have 3: "bitwise_or_u8 x2 ?d = Ok (laid_out (map (\<lambda>i. ((push_bit 6 (xs ! i) OR push_bit 4 (xs ! i)) OR push_bit 2 (xs ! i))
      OR xs ! (h * 3 * c + i)) [0..<h * c]) h c)"
    using or_bytes [OF _ d(2), of h c "map (\<lambda>i. (push_bit 6 (xs ! i) OR push_bit 4 (xs ! i)) OR push_bit 2 (xs ! i)) [0..<h * c]"] d(3)
    by (simp add: x2_def)
  have "pack_two conv wq = bitwise_or_u8 x2 ?d"
    using groups [of 0] groups [of 1] groups [of 2] groups [of 3] 1 2 assms(2,3)
    by (simp add: pack_two_def Let_def laid_out_to_dtype leftshift_def flip: xs_def)
  then show ?thesis unfolding 3 by (simp add: or.assoc)
qed

section \<open>Packed and unpacked\<close>

lemma dequant_packed:
  assumes "0 < c" and "c \<le> length s" and "c \<le> length z" and "prod_list w_shape = length fs * h * c"
  shows "rbind (dequant_op of_w fs (laid_out (map g [0..<h * c]) h c) s z) (reshape w_shape)
    = Ok (map (\<lambda>p. dequant_value of_w s z ((fs ! (p div (h * c))) (g (p mod (h * c)))) (p mod c)) [0..<h * c * length fs])"
proof -
  have "p mod (h * c) mod c = p mod c" for p by (simp add: mod_mod_cancel)
  moreover have "p mod (h * c) < h * c" if "p < h * c * length fs" for p
    using that by (cases "h * c") simp_all
  ultimately show ?thesis
    using assms dequant_loop_run [OF assms(1-3), of "map g [0..<h * c]" h of_w fs]
    by (simp add: dequant_op_def reshape_def mult.commute mult.left_commute)
qed

text \<open>The two halves of a byte are found at the positions of the two halves of the rows.\<close>

lemma four_bits_back:
  fixes x :: "nat \<Rightarrow> u8"
  assumes "\<And>i. i < 2 * n \<Longrightarrow> fits_bits 4 (x i)" and p: "p < 2 * n"
  shows "(fields_4 ! (p div n)) (push_bit 4 (x (p mod n)) OR x (n + p mod n)) = x p"
proof -
  have n: "0 < n" using p by simp
  then have r: "p mod n < n" by simp
  have small: "fits_bits 4 (x (p mod n))" "fits_bits 4 (x (n + p mod n))" using assms(1) r by simp_all
  show ?thesis
  proof (cases "p < n")
    case True
    have "bit_field 4 4 (x (n + p mod n)) = 0"
      using bit_field_other [OF small(2), of 4 0] by simp
    then show ?thesis using True small by (simp add: fields_4_bits bit_field_or bit_field_own)
  next
    case False
    then have "p div n = 1" "n + p mod n = p" using p n by (simp_all add: le_div_geq le_mod_geq)
    moreover have "bit_field 4 0 (x (n + p mod n)) = x (n + p mod n)"
      using bit_field_own [OF small(2), of 0] by simp
    ultimately show ?thesis using small by (simp add: fields_4_bits bit_field_or bit_field_other)
  qed
qed

lemma four_unpacked:
  fixes to_u8 :: "'f \<Rightarrow> u8" and of_u8 :: "u8 \<Rightarrow> 'g::{zero,minus,times}"
  assumes "is_ct wq" and "ct_rows wq = 2 * h" and "ct_cols wq = c" and "0 < c" and "c \<le> length s" and "c \<le> length z"
    and "prod_list w_shape = 2 * h * c" and "\<forall>v \<in> set (ct_elems wq). unat (to_u8 v) < 2 ^ 4"
  defines "xs \<equiv> map to_u8 (ct_elems wq)"
  shows "\<exists>t. pack_four to_u8 wq = Ok t \<and> hqq_dequantize of_u8 of_i32 Four AxisZero w_shape (PackedU8 t) s z
     = Ok (map (\<lambda>p. dequant_value of_u8 s z (xs ! p) (p mod c)) [0..<h * c * 2])"
proof -
  let ?g = "\<lambda>i. push_bit 4 (xs ! i) OR xs ! (h * c + i)"
  have len: "length xs = 2 * h * c" using length_elems [OF assms(1)] assms(2,3) by (simp add: xs_def)
  have small: "fits_bits 4 (xs ! i)" if "i < 2 * (h * c)" for i
    using assms(8) that len nth_mem [of i "ct_elems wq"] by (auto simp: fits_bits_def xs_def)
  have "length fields_4 = 2" by (simp add: fields_4_def)
  then have "hqq_dequantize of_u8 of_i32 Four AxisZero w_shape (PackedU8 (laid_out (map ?g [0..<h * c]) h c)) s z
      = Ok (map (\<lambda>p. dequant_value of_u8 s z ((fields_4 ! (p div (h * c))) (?g (p mod (h * c)))) (p mod c))
          [0..<h * c * 2])"
    using dequant_packed [OF assms(4-6), of w_shape fields_4 h of_u8 ?g] assms(7)
    by (simp add: hqq_dequantize_def)
  also have "map (\<lambda>p. dequant_value of_u8 s z ((fields_4 ! (p div (h * c))) (?g (p mod (h * c)))) (p mod c))
      [0..<h * c * 2] = map (\<lambda>p. dequant_value of_u8 s z (xs ! p) (p mod c)) [0..<h * c * 2]"
    by (rule map_cong [OF refl]) (simp add: four_bits_back [where x = "(!) xs", OF small])
  finally show ?thesis
    using pack_four_run [OF assms(1-3), of to_u8] by (simp add: xs_def)
qed

text \<open>
  C32. Weights that are packed with 8 or 4 bits on the CPU and unpacked again are the weights
  \<open>(q - zero) * scale\<close> of the quantized values, each at its place.
\<close>

theorem packed_weights_are_unpacked:
  assumes "is_ct wq" and "0 < ct_cols wq" and "ct_cols wq \<le> length s" and "ct_cols wq \<le> length z"
    and "prod_list w_shape = ct_rows wq * ct_cols wq"
    and "bits = Eight \<or> bits = Four \<and> even (ct_rows wq) \<and> (\<forall>v \<in> set (ct_elems wq). unat (to_u8 v) < 2 ^ 4)"
  shows "\<exists>t. bitpack to_u8 to_i32 bits wq = Ok t
     \<and> hqq_dequantize of_u8 of_i32 bits AxisZero w_shape t s z
         = Ok (map (\<lambda>p. (of_u8 (to_u8 (ct_elems wq ! p)) - z ! (p mod ct_cols wq)) * s ! (p mod ct_cols wq))
             [0..<ct_rows wq * ct_cols wq])"
proof -
  let ?c = "ct_cols wq" and ?xs = "map to_u8 (ct_elems wq)"
  have len: "length ?xs = ct_rows wq * ?c" using length_elems [OF assms(1)] by simp
  from assms(6) show ?thesis
  proof
    assume "bits = Eight"
    moreover have "to_dtype to_u8 wq = laid_out (map ((!) ?xs) [0..<ct_rows wq * ?c]) (ct_rows wq) ?c"
      using len by (simp add: laid_out_to_dtype map_nth [of ?xs, unfolded len])
    ultimately show ?thesis
      using dequant_packed [OF assms(2-4), of w_shape fields_8 "ct_rows wq" of_u8 "(!) ?xs"] assms(5) len
      by (simp add: bitpack_def hqq_dequantize_def fields_8_def dequant_value_def)
  next
    assume four: "bits = Four \<and> even (ct_rows wq) \<and> (\<forall>v \<in> set (ct_elems wq). unat (to_u8 v) < 2 ^ 4)"
    then obtain h where h: "ct_rows wq = 2 * h" by auto
    obtain t where "pack_four to_u8 wq = Ok t" "hqq_dequantize of_u8 of_i32 Four AxisZero w_shape (PackedU8 t) s z
        = Ok (map (\<lambda>p. dequant_value of_u8 s z (?xs ! p) (p mod ?c)) [0..<h * ?c * 2])"
      using four_unpacked [OF assms(1) h refl assms(2-4), of w_shape to_u8 of_u8 of_i32] four assms(5) h by auto
    moreover have "[0..<h * ?c * 2] = [0..<ct_rows wq * ?c]" using h by (simp add: mult.commute mult.left_commute)
    ultimately show ?thesis
      using four len by (intro exI [of _ "PackedU8 t"]) (simp add: bitpack_def dequant_value_def)
  qed
qed

section \<open>Fewer than four bits\<close>

text \<open>A byte of four 2 bit values holds the first one three times.\<close>

lemma two_bits_back:
  fixes x :: "nat \<Rightarrow> u8"
  assumes "\<And>i. i < 4 * n \<Longrightarrow> fits_bits 2 (x i)" and p: "p < 4 * n"
  defines "a \<equiv> x (p mod n)"
  shows "(fields_2 ! (p div n)) ((push_bit 6 a OR push_bit 4 a OR push_bit 2 a) OR x (3 * n + p mod n))
    = (if p < 3 * n then a else x p)"
proof -
  have n: "0 < n" using p by simp
  then have r: "p mod n < n" by simp
  let ?d = "x (3 * n + p mod n)"
  have small: "fits_bits 2 a" "fits_bits 2 ?d" using assms(1) r by (simp_all add: a_def)
  have d: "bit_field 2 6 ?d = 0" "bit_field 2 4 ?d = 0" "bit_field 2 2 ?d = 0" "bit_field 2 0 ?d = ?d"
    using bit_field_other [OF small(2), of 6 0] bit_field_other [OF small(2), of 4 0]
      bit_field_other [OF small(2), of 2 0] bit_field_own [OF small(2), of 0] by simp_all
  have "p div n < 4" using p by (simp add: less_mult_imp_div_less)
  then have "p div n \<in> {0, 1, 2, 3}" by auto
  moreover have "p div n = 3 \<longleftrightarrow> \<not> p < 3 * n" using \<open>p div n < 4\<close> n div_less_iff_less_mult [of n p 3] by linarith
  moreover have "3 * n + p mod n = p" if "p div n = 3" using that mult_div_mod_eq [of n p] by (simp add: mult.commute)
  ultimately show ?thesis
    using small(1) d by (auto simp: fields_2_bits bit_field_or bit_field_own bit_field_other)
qed

text \<open>
  Packing with 2 bits on the CPU loses half of the weights: the shift ignores where a group of
  rows starts in the storage and shifts the first one, so that the second and the third quarter
  of the unpacked weights repeat the first.
\<close>

theorem two_bit_weights_repeat_the_first_quarter:
  fixes to_u8 :: "'f \<Rightarrow> u8" and of_u8 :: "u8 \<Rightarrow> 'g::{zero,minus,times}"
  assumes "is_ct wq" and "ct_rows wq = 4 * h" and "ct_cols wq = c" and "0 < c" and "c \<le> length s" and "c \<le> length z"
    and "prod_list w_shape = 4 * h * c" and "\<forall>v \<in> set (ct_elems wq). unat (to_u8 v) < 2 ^ 2"
  shows "\<exists>t. bitpack to_u8 to_i32 Two wq = Ok t
     \<and> hqq_dequantize of_u8 of_i32 Two AxisZero w_shape t s z
         = Ok (map (\<lambda>p. (of_u8 (to_u8 (ct_elems wq ! (if p < 3 * (h * c) then p mod (h * c) else p)))
                 - z ! (p mod c)) * s ! (p mod c)) [0..<4 * (h * c)])"
proof -
  let ?xs = "map to_u8 (ct_elems wq)" and ?n = "h * c"
  let ?g = "\<lambda>i. (push_bit 6 (?xs ! i) OR push_bit 4 (?xs ! i) OR push_bit 2 (?xs ! i)) OR ?xs ! (3 * ?n + i)"
  let ?at = "\<lambda>p. if p < 3 * ?n then p mod ?n else p"
  have len: "length ?xs = 4 * ?n" using length_elems [OF assms(1)] assms(2,3) by simp
  have small: "fits_bits 2 (?xs ! i)" if "i < 4 * ?n" for i
    using assms(8) that len nth_mem [of i "ct_elems wq"] by (auto simp: fits_bits_def)
  have "length fields_2 = 4" by (simp add: fields_2_def)
  then have "hqq_dequantize of_u8 of_i32 Two AxisZero w_shape (PackedU8 (laid_out (map ?g [0..<?n]) h c)) s z
      = Ok (map (\<lambda>p. dequant_value of_u8 s z ((fields_2 ! (p div ?n)) (?g (p mod ?n))) (p mod c)) [0..<?n * 4])"
    using dequant_packed [OF assms(4-6), of w_shape fields_2 h of_u8 ?g] assms(7)
    by (simp add: hqq_dequantize_def)
  also have "map (\<lambda>p. dequant_value of_u8 s z ((fields_2 ! (p div ?n)) (?g (p mod ?n))) (p mod c)) [0..<?n * 4]
      = map (\<lambda>p. dequant_value of_u8 s z (?xs ! ?at p) (p mod c)) [0..<4 * ?n]"
  proof (rule map_cong)
    fix p assume "p \<in> set [0..<4 * ?n]"
    then have "p < 4 * ?n" by simp
    from two_bits_back [where x = "(!) ?xs", OF small this]
    show "dequant_value of_u8 s z ((fields_2 ! (p div ?n)) (?g (p mod ?n))) (p mod c)
        = dequant_value of_u8 s z (?xs ! ?at p) (p mod c)" by simp
  qed (simp add: mult.commute)
  also have "\<dots> = map (\<lambda>p. (of_u8 (to_u8 (ct_elems wq ! ?at p)) - z ! (p mod c)) * s ! (p mod c)) [0..<4 * ?n]"
  proof (rule map_cong [OF refl])
    fix p assume p: "p \<in> set [0..<4 * ?n]"
    then have "?at p < length (ct_elems wq)"
      using len le_less_trans [OF mod_less_eq_dividend [of p ?n], of "4 * ?n"] by auto
    then show "dequant_value of_u8 s z (?xs ! ?at p) (p mod c)
        = (of_u8 (to_u8 (ct_elems wq ! ?at p)) - z ! (p mod c)) * s ! (p mod c)"
      by (simp only: dequant_value_def nth_map)
  qed
  finally have "hqq_dequantize of_u8 of_i32 Two AxisZero w_shape (PackedU8 (laid_out (map ?g [0..<?n]) h c)) s z
      = Ok (map (\<lambda>p. (of_u8 (to_u8 (ct_elems wq ! ?at p)) - z ! (p mod c)) * s ! (p mod c)) [0..<4 * ?n])" .
  moreover have "h * 3 * c = 3 * ?n" by simp
  then have "pack_two to_u8 wq = Ok (laid_out (map ?g [0..<?n]) h c)"
    using pack_two_run [OF assms(1-3), of to_u8] by (simp only:)
  ultimately show ?thesis by (intro exI [of _ "PackedU8 (laid_out (map ?g [0..<?n]) h c)"]) (simp add: bitpack_def)
qed

text \<open>
  Three bits fill the rows up to a multiple of ten, and only CUDA cuts them off again: on the CPU
  the unpacked weights do not fit their shape, for the default group of 64 rows too.
\<close>

lemma or_words:
  assumes "length xs = length (ct_store t)" and "ct_rows t = r" and "ct_cols t = c"
  shows "bitwise_or_i32 (laid_out xs r c) t = Ok (laid_out (map2 (OR) xs (ct_store t)) r c)"
  using assms by (simp add: bitwise_or_i32_def same_layout_def rassert_def)

lemma or_shifted_words:
  assumes "\<forall>(k, n) \<in> set kns. step * k + step \<le> r" and "length ys = length xs"
  shows "\<exists>zs. or_shifted bitwise_or_i32 (laid_out xs r c) step (laid_out ys step c) kns = Ok (laid_out zs step c)
     \<and> length zs = length xs"
  using assms
proof (induction kns arbitrary: ys)
  case Nil
  then show ?case by auto
next
  case (Cons kn kns)
  obtain k n where kn: "kn = (k, n)" by (cases kn)
  let ?ys = "map2 (OR) ys (map (push_bit n) xs)"
  let ?f = "\<lambda>x. or_shifted bitwise_or_i32 (laid_out xs r c) step x kns"
  have "rbind (narrow_rows (laid_out xs r c) (step * k) step) (\<lambda>g. rbind (rbind (leftshift n g) (bitwise_or_i32 (laid_out ys step c))) ?f)
      = ?f (laid_out ?ys step c)"
    using Cons.prems kn shifted_group [of "step * k" step r xs c n "\<lambda>g. rbind (bitwise_or_i32 (laid_out ys step c) g) ?f"]
    by (simp add: rbind_assoc or_words)
  moreover have "length ?ys = length xs" using Cons.prems by simp
  ultimately show ?case using Cons.IH [of ?ys] Cons.prems kn by simp
qed

lemma pack_three_run:
  "\<exists>xs. pack_three conv wq = Ok (laid_out xs (div_ceil (ct_rows wq) 10) (ct_cols wq))"
proof -
  let ?step = "div_ceil (ct_rows wq) 10" and ?c = "ct_cols wq"
  obtain xs where xs: "pad_rows conv wq = laid_out xs (10 * ?step) ?c" by (simp add: pad_rows_def Let_def)
  let ?wq = "laid_out xs (10 * ?step) ?c"
  let ?kns = "[(1, 24), (2, 21), (3, 18), (4, 15), (5, 12), (6, 9), (7, 6), (8, 3)] :: (nat \<times> nat) list"
  obtain zs where zs: "or_shifted bitwise_or_i32 ?wq ?step (laid_out (map (push_bit 27) xs) ?step ?c) ?kns
      = Ok (laid_out zs ?step ?c)" "length zs = length xs"
    using or_shifted_words [of ?kns ?step "10 * ?step" "map (push_bit 27) xs" xs ?c] by auto
  let ?j = "?wq\<lparr>ct_off := ?step * 9 * ?c, ct_rows := ?step\<rparr>"
  have "bitwise_or_i32 (laid_out zs ?step ?c) ?j = Ok (laid_out (map2 (OR) zs (ct_store ?j)) ?step ?c)"
    by (rule or_words) (simp_all add: zs(2) laid_out_def)
  then have "pack_three conv wq = Ok (laid_out (map2 (OR) zs xs) ?step ?c)"
    using zs(1) by (simp add: pack_three_def Let_def xs narrow_rows_def leftshift_def laid_out_def
        del: or_shifted.simps)
  then show ?thesis by blast
qed

theorem three_bit_weights_do_not_fit:
  assumes "prod_list w_shape = ct_rows wq * ct_cols wq" and "0 < ct_cols wq" and "\<not> 10 dvd ct_rows wq"
  shows "\<exists>t. bitpack to_u8 to_i32 Three wq = Ok t \<and> \<not> is_ok (hqq_dequantize of_u8 of_i32 Three axis w_shape t s z)"
proof -
  let ?h = "div_ceil (ct_rows wq) 10"
  obtain xs where xs: "pack_three to_i32 wq = Ok (laid_out xs ?h (ct_cols wq))" using pack_three_run by blast
  have "10 * ?h \<noteq> ct_rows wq" using assms(3) by (metis dvd_triv_left)
  then have "prod_list w_shape \<noteq> 10 * ?h * ct_cols wq" using assms(1,2) by simp
  moreover have "length fields_3 = 10" by (simp add: fields_3_def)
  ultimately have "\<not> is_ok (hqq_dequantize of_u8 of_i32 Three axis w_shape (PackedI32 (laid_out xs ?h (ct_cols wq))) s z)"
    by (auto simp: hqq_dequantize_def dequant_op_def reshape_def is_ok_iff res_simps)
  then show ?thesis using xs by (simp add: bitpack_def)
qed

section \<open>Witnesses\<close>

definition four_rows :: "nat cpu_tensor" where
  "four_rows = laid_out [3, 2, 1, 0] 4 1"

lemma four_rows_facts: "is_ct four_rows" "ct_rows four_rows = 4 * 1" "ct_cols four_rows = 1" "ct_elems four_rows = [3, 2, 1, 0]"
  by (simp_all add: four_rows_def is_ct_def)

lemma four_places: "[0..<4] = [0, 1, 2, 3 :: nat]"
  by (simp add: upt_rec)

theorem packed_weights_are_unpacked_witness:
  "\<exists>t. bitpack of_nat of_nat Four four_rows = Ok t
     \<and> hqq_dequantize (int \<circ> unat) (int \<circ> unat) Four AxisZero [4, 1] t [2] [1] = Ok [4, 2, 0, - 2]"
  using packed_weights_are_unpacked [of four_rows "[2]" "[1]" "[4, 1]" Four of_nat of_nat "int \<circ> unat" "int \<circ> unat"]
  by (simp add: four_rows_facts four_places)

theorem two_bit_weights_repeat_the_first_quarter_witness:
  "\<exists>t. bitpack of_nat of_nat Two four_rows = Ok t
     \<and> hqq_dequantize (int \<circ> unat) (int \<circ> unat) Two AxisZero [4, 1] t [2] [1] = Ok [4, 4, 4, - 2]"
  using two_bit_weights_repeat_the_first_quarter [OF four_rows_facts(1-3), of "[2]" "[1]" "[4, 1]" of_nat of_nat
      "int \<circ> unat" "int \<circ> unat"]
  by (simp add: four_rows_facts four_places)

theorem three_bit_weights_do_not_fit_witness:
  "\<exists>t. bitpack of_nat of_nat Three four_rows = Ok t
     \<and> \<not> is_ok (hqq_dequantize (int \<circ> unat) (int \<circ> unat) Three AxisZero [4, 1] t [2] [1])"
  by (rule three_bit_weights_do_not_fit) (simp_all add: four_rows_facts)

end
