(* ===== verification/Topology.thy ===== *)
theory Topology
  imports Device_Map Uqff_Layers
begin

text \<open>
  Topology files (\<^verbatim>\<open>mistralrs-core/src/topology/mod.rs\<close>): ranges of layers with a quantization
  and a device, how they are parsed and expanded to the layers of a model, and how in-situ
  quantization and the loading of artifacts read them (\<^verbatim>\<open>mistralrs-core/src/pipeline/isq.rs\<close>).

  YAML is a parameter: the entries arrive in the order of a hash map. Strings are of ASCII
  characters, and the regular expression for devices is written out.
\<close>

section \<open>Parsing\<close>

text \<open>\<^verbatim>\<open>str::parse::<usize>\<close>: digits with an optional sign, below \<open>2 ^ 64\<close>.\<close>

definition is_digit :: "char \<Rightarrow> bool" where
  "is_digit c \<longleftrightarrow> of_char c \<in> {48 :: nat..57}"

definition digits_value :: "string \<Rightarrow> nat" where
  "digits_value cs = foldl (\<lambda>n c. 10 * n + (of_char c - 48)) 0 cs"

definition parse_usize :: "string \<Rightarrow> nat res" where
  "parse_usize cs =
     (let ds = (case cs of c # rest \<Rightarrow> if c = CHR ''+'' then rest else cs | [] \<Rightarrow> [])
      in if ds = [] \<or> \<not> list_all is_digit ds then Err (Bail ''invalid digit found in string'')
         else if digits_value ds < 2 ^ 64 then Ok (digits_value ds)
         else Err (Bail ''number too large to fit in target type''))"

definition to_lowercase :: "string \<Rightarrow> string" where
  "to_lowercase = map (\<lambda>c. if of_char c \<in> {65 :: nat..90} then char_of (of_char c + 32 :: nat) else c)"

definition isq_names :: "(string \<times> isq_type) list" where
  "isq_names =
     [(''q4_0'', IsqQ4_0), (''q4_1'', IsqQ4_1), (''q5_0'', IsqQ5_0), (''q5_1'', IsqQ5_1), (''q8_0'', IsqQ8_0),
      (''q8_1'', IsqQ8_1), (''q2k'', IsqQ2K), (''q3k'', IsqQ3K), (''q4k'', IsqQ4K), (''q5k'', IsqQ5K),
      (''q6k'', IsqQ6K), (''q8k'', IsqQ8K), (''hqq8'', HQQ8), (''hqq4'', HQQ4), (''fp8'', IsqF8E4M3)]"

definition parse_isq_value :: "bool \<Rightarrow> string \<Rightarrow> isq_type res" where
  "parse_isq_value cuda cs =
     (case map_of isq_names (to_lowercase cs) of
        None \<Rightarrow> Err (Bail ''ISQ type unknown'')
      | Some tp \<Rightarrow> if cuda \<and> tp \<in> {IsqQ8_1, IsqQ8K} then Err (Bail ''ISQ type on CUDA must be one of'') else Ok tp)"

text \<open>The ordinal between the brackets of \<^verbatim>\<open>cuda[ORD]\<close> and \<^verbatim>\<open>metal[ORD]\<close>.\<close>

definition in_brackets :: "string \<Rightarrow> string \<Rightarrow> string option" where
  "in_brackets name cs =
     (let n = length name + 1; ds = take (length cs - n - 1) (drop n cs)
      in if n + 1 < length cs \<and> take n cs = name @ ''['' \<and> last cs = CHR '']'' \<and> list_all is_digit ds
         then Some ds else None)"

definition parse_device :: "device_lib \<Rightarrow> string \<Rightarrow> device res" where
  "parse_device lib cs =
     (if cs = ''cpu'' then Ok Cpu
      else case in_brackets ''cuda'' cs of
        Some ds \<Rightarrow> rbind (parse_usize ds) (new_cuda lib)
      | None \<Rightarrow> (case in_brackets ''metal'' cs of
          Some ds \<Rightarrow> rbind (parse_usize ds) (new_metal lib)
        | None \<Rightarrow> Err (Bail ''Device specifier must match regex'')))"

definition parse_range :: "string \<Rightarrow> (nat \<times> nat) res" where
  "parse_range cs =
     rbind (if CHR ''-'' \<in> set cs
            then rbind (parse_usize (takeWhile (\<lambda>c. c \<noteq> CHR ''-'') cs)) (\<lambda>start.
                 rbind (parse_usize (tl (dropWhile (\<lambda>c. c \<noteq> CHR ''-'') cs))) (\<lambda>stop. Ok (start, stop)))
            else rbind (parse_usize cs) (\<lambda>layer.
                 rbind (rassert (layer + 1 < 2 ^ 64) ''attempt to add with overflow'') (\<lambda>_. Ok (layer, layer + 1))))
       (\<lambda>(start, stop).
     if stop \<le> start then Err (Bail ''Topology range end must be > start'') else Ok (start, stop))"

text \<open>An entry of the file: its key, its quantization and its device.\<close>

type_synonym yaml_entry = "string \<times> string option \<times> string option"

definition opt_parse :: "('a \<Rightarrow> 'b res) \<Rightarrow> 'a option \<Rightarrow> 'b option res" where
  "opt_parse f v = (case v of None \<Rightarrow> Ok None | Some x \<Rightarrow> rbind (f x) (\<lambda>y. Ok (Some y)))"

type_synonym range_topology = "(nat \<times> nat) \<times> isq_type layer_topology"

definition parse_entry :: "device_lib \<Rightarrow> bool \<Rightarrow> yaml_entry \<Rightarrow> range_topology res" where
  "parse_entry lib cuda = (\<lambda>(key, isq, device).
     rbind (parse_range key) (\<lambda>rg.
     rbind (opt_parse (parse_isq_value cuda) isq) (\<lambda>isq.
     rbind (opt_parse (parse_device lib) device) (\<lambda>device.
     Ok (rg, \<lparr>lt_isq = isq, lt_device = device\<rparr>)))))"

section \<open>Expanding\<close>

definition fill_range :: "range_topology \<Rightarrow> isq_type topology \<Rightarrow> isq_type topology res" where
  "fill_range = (\<lambda>((start, stop), l). rfold (\<lambda>i t. vset t i (Some l)) [start..<stop])"

definition range_end :: "range_topology \<Rightarrow> nat" where
  "range_end e = snd (fst e)"

definition with_capacity :: "nat \<Rightarrow> isq_type topology" where
  "with_capacity n = replicate n None"

definition expand :: "range_topology list \<Rightarrow> isq_type topology res" where
  "expand layers =
     (let layers = sort_key range_end layers
      in rbind (unwrap (if layers = [] then None else Some (last layers))) (\<lambda>e.
         rfold fill_range layers (with_capacity (range_end e))))"

definition topology_from_str :: "device_lib \<Rightarrow> bool \<Rightarrow> (string \<Rightarrow> yaml_entry list res) \<Rightarrow> string \<Rightarrow> isq_type topology res" where
  "topology_from_str lib cuda yaml cs =
     rbind (yaml cs) (\<lambda>entries. rbind (rmap (parse_entry lib cuda) entries) expand)"

definition is_dummy_device_map :: "'q topology \<Rightarrow> bool" where
  "is_dummy_device_map t = list_all (\<lambda>l. case l of None \<Rightarrow> True | Some x \<Rightarrow> lt_device x = None) t"

definition with_range :: "nat \<times> nat \<Rightarrow> isq_type layer_topology \<Rightarrow> isq_type topology \<Rightarrow> isq_type topology res" where
  "with_range rg l t =
     (let t = (if length t < snd rg then t @ replicate (snd rg - length t) None else t)
      in fill_range (rg, l) t)"

section \<open>What quantization reads\<close>

definition isq_layers :: "'q topology \<Rightarrow> ('q option \<times> device option) list" where
  "isq_layers t = map (\<lambda>x. (lt_isq x, lt_device x)) (List.map_filter id t)"

definition get :: "'a list \<Rightarrow> nat \<Rightarrow> 'a option" where
  "get xs i = (if i < length xs then Some (xs ! i) else None)"

text \<open>The device and the type of a tensor; \<open>n\<close> is the layer it belongs to, if it does to one.\<close>

definition tensor_device :: "'q topology option \<Rightarrow> 'c device_mapper \<Rightarrow> device \<Rightarrow> nat option \<Rightarrow> device" where
  "tensor_device topology mapper device n =
     (case map_option isq_layers topology of
        Some layers \<Rightarrow>
          (case n of None \<Rightarrow> device
           | Some i \<Rightarrow> (case get layers i of None \<Rightarrow> device | Some x \<Rightarrow> (case snd x of None \<Rightarrow> device | Some d \<Rightarrow> d)))
      | None \<Rightarrow>
          (case n of None \<Rightarrow> device
           | Some i \<Rightarrow> (case device_for mapper i False of None \<Rightarrow> device | Some d \<Rightarrow> d)))"

definition tensor_dtype :: "'q topology option \<Rightarrow> 'q option \<Rightarrow> nat option \<Rightarrow> 'q option" where
  "tensor_dtype topology dtype n =
     (case map_option isq_layers topology of
        Some layers \<Rightarrow> (case n of None \<Rightarrow> dtype
                        | Some i \<Rightarrow> (case get layers i of None \<Rightarrow> dtype | Some x \<Rightarrow> fst x))
      | None \<Rightarrow> dtype)"

definition devices_and_dtypes :: "'q topology option \<Rightarrow> 'c device_mapper \<Rightarrow> device \<Rightarrow> 'q option \<Rightarrow> nat option list
    \<Rightarrow> (device \<times> 'q option) list" where
  "devices_and_dtypes topology mapper device dtype ns =
     map (\<lambda>n. (tensor_device topology mapper device n, tensor_dtype topology dtype n)) ns"

section \<open>What the layers get\<close>

lemma rfold_single: "rfold f [x] s = f x s"
  by (cases "f x s") simp_all

lemma sort_key_eq_Nil [simp]: "sort_key f xs = [] \<longleftrightarrow> xs = []"
  by (metis length_0_conv length_sort)

definition covers :: "nat \<Rightarrow> range_topology \<Rightarrow> bool" where
  "covers i e \<longleftrightarrow> fst (fst e) \<le> i \<and> i < range_end e"

text \<open>What a list of ranges says of a layer, the later ones over the earlier.\<close>

definition setting :: "range_topology list \<Rightarrow> nat \<Rightarrow> isq_type layer_topology option" where
  "setting es i = (let cs = filter (covers i) es in if cs = [] then None else Some (snd (last cs)))"

lemma setting_Nil [simp]: "setting [] i = None"
  by (simp add: setting_def)

lemma setting_snoc [simp]: "setting (es @ [e]) i = (if covers i e then Some (snd e) else setting es i)"
  by (simp add: setting_def)

lemma fill_upto:
  assumes "stop \<le> length t"
  shows "rfold (\<lambda>i t. vset t i (Some l)) [start..<stop] t
    = Ok (map (\<lambda>i. if start \<le> i \<and> i < stop then Some l else t ! i) [0..<length t])"
  using assms
proof (induction stop)
  case 0
  then show ?case by (simp add: map_nth)
next
  case (Suc n)
  let ?upto = "\<lambda>n. map (\<lambda>i. if start \<le> i \<and> i < n then Some l else t ! i) [0..<length t]"
  have "(?upto n)[n := Some l] = ?upto (Suc n)" if "start \<le> n"
    using Suc.prems that by (intro nth_equalityI) (auto simp: nth_list_update less_Suc_eq)
  moreover have "?upto n = ?upto (Suc n)" if "\<not> start \<le> n"
    using that by (intro map_cong) auto
  ultimately show ?case using Suc by (auto simp: rfold_append vset_def simp del: map_eq_conv)
qed

lemma fill_range_Ok:
  assumes "range_end e \<le> length t"
  shows "fill_range e t = Ok (map (\<lambda>i. if covers i e then Some (snd e) else t ! i) [0..<length t])"
proof (cases e)
  case (Pair rg l)
  then show ?thesis
    using assms fill_upto [of "snd rg" t l "fst rg"]
    by (cases rg) (simp add: fill_range_def range_end_def covers_def)
qed

lemma fill_ranges_Ok:
  assumes "\<forall>e \<in> set es. range_end e \<le> n"
  shows "rfold fill_range es (with_capacity n) = Ok (map (setting es) [0..<n])"
  using assms
proof (induction es rule: rev_induct)
  case Nil
  then show ?case by (simp add: with_capacity_def map_replicate_const)
next
  case (snoc e es)
  then have "rfold fill_range (es @ [e]) (with_capacity n) = fill_range e (map (setting es) [0..<n])"
    by (simp add: rfold_append rfold_single del: rfold.simps)
  also have "\<dots> = Ok (map (setting (es @ [e])) [0..<n])"
    using snoc.prems by (auto simp: fill_range_Ok)
  finally show ?case .
qed

lemma last_sort_key_max:
  assumes "e \<in> set es"
  shows "range_end e \<le> range_end (last (sort_key range_end es))"
proof -
  obtain i where i: "i < length (sort_key range_end es)" "sort_key range_end es ! i = e"
    using assms by (metis in_set_conv_nth set_sort)
  have "sorted (map range_end (sort_key range_end es))" by simp
  then have "map range_end (sort_key range_end es) ! i \<le> map range_end (sort_key range_end es) ! (length es - 1)"
    using i(1) by (intro sorted_nth_mono) auto
  moreover have "sort_key range_end es \<noteq> []" using assms by auto
  ultimately show ?thesis using i by (simp add: last_conv_nth)
qed

lemma expand_Ok:
  assumes "es \<noteq> []"
  shows "expand es = Ok (map (setting (sort_key range_end es)) [0..<range_end (last (sort_key range_end es))])"
  using assms fill_ranges_Ok [of "sort_key range_end es"] last_sort_key_max [of _ es]
  by (simp add: expand_def Let_def)

lemma expand_Nil: "expand [] = Err (Panic ''unwrap on None'')"
  by (simp add: expand_def)

text \<open>Where the ends are apart, the highest range that covers a layer says what it gets.\<close>

lemma setting_highest:
  assumes "distinct (map range_end es)" and "e \<in> set es" and "covers i e"
    and "\<And>e'. e' \<in> set es \<Longrightarrow> covers i e' \<Longrightarrow> range_end e' \<le> range_end e"
  shows "setting (sort_key range_end es) i = Some (snd e)"
proof -
  let ?cs = "filter (covers i) es"
  let ?l = "last (sort_key range_end ?cs)"
  have e: "e \<in> set ?cs" using assms(2,3) by simp
  then have "?cs \<noteq> []" by (metis empty_iff empty_set)
  then have ne: "sort_key range_end ?cs \<noteq> []" by simp
  have "filter (covers i) (sort_key range_end es) = sort_key range_end ?cs"
    by (simp add: filter_sort)
  then have cs: "setting (sort_key range_end es) i = Some (snd ?l)"
    using ne by (simp only: setting_def Let_def if_False)
  have l: "?l \<in> set es" "covers i ?l" using last_in_set [OF ne] by auto
  have "range_end ?l = range_end e"
    using assms(4) [OF l] last_sort_key_max [OF e] by simp
  then have "?l = e"
    using inj_onD [of range_end "set es" ?l e] assms(1,2) l(1) by (simp add: distinct_map)
  then show ?thesis using cs by simp
qed

lemma setting_uncovered:
  assumes "\<And>e. e \<in> set es \<Longrightarrow> \<not> covers i e"
  shows "setting (sort_key range_end es) i = None"
proof -
  have "filter (covers i) (sort_key range_end es) = []" using assms by (simp add: filter_empty_conv)
  then show ?thesis by (simp add: setting_def)
qed

lemma filter_leading_Somes:
  "\<forall>j \<le> i. j < length t \<and> t ! j \<noteq> None \<Longrightarrow>
   i < length (List.map_filter id t) \<and> Some (List.map_filter id t ! i) = t ! i"
proof (induction t arbitrary: i)
  case Nil
  then show ?case by auto
next
  case (Cons x t)
  obtain y where y: "x = Some y" using Cons.prems by force
  show ?case
  proof (cases i)
    case 0
    then show ?thesis using y by (simp add: List.map_filter_simps)
  next
    case (Suc i')
    have "\<forall>j \<le> i'. j < length t \<and> t ! j \<noteq> None"
      using Cons.prems by (metis Suc Suc_le_mono length_Cons nth_Cons_Suc Suc_less_eq)
    from Cons.IH [OF this] show ?thesis using Suc y by (simp add: List.map_filter_simps)
  qed
qed

lemma get_isq_layers:
  assumes "\<forall>j \<le> i. j < length t \<and> t ! j \<noteq> None"
  shows "get (isq_layers t) i = map_option (\<lambda>x. (lt_isq x, lt_device x)) (t ! i)"
proof -
  obtain y where y: "t ! i = Some y" using assms by auto
  then show ?thesis using filter_leading_Somes [OF assms] by (simp add: get_def isq_layers_def)
qed

lemma map_filter_append: "List.map_filter f (xs @ ys) = List.map_filter f xs @ List.map_filter f ys"
  by (simp add: List.map_filter_def)

lemma map_filter_Some [simp]: "List.map_filter id (map Some xs) = xs"
  by (induction xs) (simp_all add: List.map_filter_simps)

lemma map_filter_None [simp]: "List.map_filter id (replicate n None) = []"
  by (induction n) (simp_all add: List.map_filter_simps)

text \<open>
  C33. A topology file fills every layer the way its documentation says: the ranges, read in
  whatever order the hash map gives them, end at different layers; then the topology reaches up to
  the highest end, a layer in no range has no settings, and a layer in several has those of the
  range with the highest end.
\<close>

theorem the_highest_range_takes_precedence:
  assumes "es \<noteq> []" and "distinct (map range_end es)"
  shows "\<exists>t. expand es = Ok t \<and> length t = Max (range_end ` set es)
    \<and> (\<forall>i < length t. (\<forall>e \<in> set es. \<not> covers i e) \<longrightarrow> t ! i = None)
    \<and> (\<forall>i < length t. \<forall>e \<in> set es. covers i e
         \<and> (\<forall>e' \<in> set es. covers i e' \<longrightarrow> range_end e' \<le> range_end e) \<longrightarrow> t ! i = Some (snd e))"
proof -
  let ?n = "range_end (last (sort_key range_end es))"
  have "last (sort_key range_end es) \<in> set es"
    using assms(1) last_in_set [of "sort_key range_end es"] by simp
  then have "?n = Max (range_end ` set es)"
    using last_sort_key_max by (intro Max_eqI [symmetric]) auto
  then show ?thesis
    using setting_uncovered [of es] setting_highest [OF assms(2)] by (simp add: expand_Ok [OF assms(1)])
qed

theorem the_highest_range_takes_precedence_witness:
  "\<exists>t. expand [((2, 6), \<lparr>lt_isq = Some HQQ8, lt_device = None\<rparr>), ((0, 4), \<lparr>lt_isq = Some IsqQ4K, lt_device = None\<rparr>)]
     = Ok t \<and> length t = 6 \<and> t ! 3 = Some \<lparr>lt_isq = Some HQQ8, lt_device = None\<rparr>"
proof -
  let ?es = "[((2, 6), \<lparr>lt_isq = Some HQQ8, lt_device = None\<rparr>), ((0, 4), \<lparr>lt_isq = Some IsqQ4K, lt_device = None\<rparr>)]"
  have "?es \<noteq> []" "distinct (map range_end ?es)" by (simp_all add: range_end_def)
  from the_highest_range_takes_precedence [OF this] show ?thesis
    by (auto simp: range_end_def covers_def)
qed

text \<open>
  Quantization honours a topology without gaps: when a layer and all the layers below it have
  settings, its tensors get the type of its settings, and its device, or the loading device where
  they name none.
\<close>

theorem settings_reach_their_layer:
  assumes "\<forall>j \<le> i. j < length t \<and> t ! j \<noteq> None" and "t ! i = Some l"
  shows "devices_and_dtypes (Some t) mapper device dtype [Some i]
    = [(case lt_device l of None \<Rightarrow> device | Some d \<Rightarrow> d, lt_isq l)]"
  using get_isq_layers [OF assms(1)] assms(2)
  by (simp add: devices_and_dtypes_def tensor_device_def tensor_dtype_def)

theorem settings_reach_their_layer_witness:
  "devices_and_dtypes (Some [Some \<lparr>lt_isq = Some HQQ8, lt_device = None\<rparr>, Some \<lparr>lt_isq = Some IsqQ4K, lt_device = None\<rparr>])
     (DummyDeviceMapper Cpu) Cpu (Some IsqQ8_0) [Some 1] = [(Cpu, Some IsqQ4K)]"
proof -
  let ?t = "[Some \<lparr>lt_isq = Some HQQ8, lt_device = None\<rparr>, Some \<lparr>lt_isq = Some IsqQ4K, lt_device = None :: device option\<rparr>]"
  have "\<forall>j \<le> 1. j < length ?t \<and> ?t ! j \<noteq> None" "?t ! 1 = Some \<lparr>lt_isq = Some IsqQ4K, lt_device = None\<rparr>"
    by (auto simp: le_Suc_eq)
  from settings_reach_their_layer [OF this] show ?thesis by simp
qed

text \<open>
  A topology with a gap is applied to the wrong layers. For two ranges \<open>0-a\<close> and \<open>b-c\<close> with
  a gap between them, quantization drops the layers without settings from the list it then looks
  layers up in: the layers of the gap get the settings of the second range instead of the type
  given for the rest of the model, and as many layers at the end of the second range lose theirs.
\<close>

theorem a_gap_shifts_the_topology:
  assumes "a < b" and "b < c" and "0 < a" and "es \<in> {[((0, a), x), ((b, c), y)], [((b, c), y), ((0, a), x)]}"
  shows "\<exists>t. expand es = Ok t
    \<and> (\<forall>i < a. tensor_dtype (Some t) dtype (Some i) = lt_isq x)
    \<and> (\<forall>i. a \<le> i \<and> i < c - (b - a) \<longrightarrow> tensor_dtype (Some t) dtype (Some i) = lt_isq y)
    \<and> (\<forall>i \<ge> c - (b - a). tensor_dtype (Some t) dtype (Some i) = dtype
         \<and> tensor_device (Some t) mapper device (Some i) = device)"
proof -
  let ?t = "replicate a (Some x) @ replicate (b - a) None @ replicate (c - b) (Some y)"
  have sorted: "sort_key range_end es = [((0, a), x), ((b, c), y)]"
    using assms by (auto simp: range_end_def)
  have "es \<noteq> []" using assms(4) by auto
  from expand_Ok [OF this] have "expand es = Ok (map (setting [((0, a), x), ((b, c), y)]) [0..<c])"
    by (simp add: sorted range_end_def)
  also have "map (setting [((0, a), x), ((b, c), y)]) [0..<c] = ?t"
    using assms by (intro nth_equalityI)
      (auto simp: setting_def covers_def range_end_def nth_append)
  finally have t: "expand es = Ok ?t" .
  have "isq_layers ?t = replicate a (lt_isq x, lt_device x) @ replicate (c - b) (lt_isq y, lt_device y)"
    by (simp add: isq_layers_def map_filter_append map_filter_None flip: map_replicate)
  then have "get (isq_layers ?t) i = (if i < a then Some (lt_isq x, lt_device x)
      else if i < c - (b - a) then Some (lt_isq y, lt_device y) else None)" for i
    using assms by (auto simp: get_def nth_append)
  moreover have "a < c - (b - a)" using assms(1,2) by simp
  ultimately show ?thesis using t by (intro exI [of _ ?t]) (auto simp: tensor_dtype_def tensor_device_def)
qed

theorem a_gap_shifts_the_topology_witness:
  "\<exists>t. expand [((0, 24), \<lparr>lt_isq = Some IsqQ6K, lt_device = None\<rparr>), ((28, 32), \<lparr>lt_isq = Some IsqQ8_0, lt_device = None\<rparr>)]
     = Ok t \<and> tensor_dtype (Some t) (Some IsqQ4K) (Some 24) = Some IsqQ8_0
     \<and> tensor_dtype (Some t) (Some IsqQ4K) (Some 28) = Some IsqQ4K"
proof -
  let ?x = "\<lparr>lt_isq = Some IsqQ6K, lt_device = None\<rparr>" and ?y = "\<lparr>lt_isq = Some IsqQ8_0, lt_device = None\<rparr>"
  let ?es = "[((0, 24), ?x), ((28, 32), ?y)]"
  have "?es \<in> {[((0, 24), ?x), ((28, 32), ?y)], [((28, 32), ?y), ((0, 24), ?x)]}" by simp
  from a_gap_shifts_the_topology [OF _ _ _ this, of "Some IsqQ4K"
      "DummyDeviceMapper Cpu" Cpu]
  show ?thesis by fastforce
qed

end
