(* ===== verification/Tensor_Parallel.thy ===== *)
theory Tensor_Parallel
  imports Prelude
begin

text \<open>
  Tensor parallelism: how the tensors of a file are cut for the devices of a group
  (\<^verbatim>\<open>mistralrs-quant/src/safetensors.rs\<close>), the linear layers that hold one part each and the
  heads of a device (\<^verbatim>\<open>distributed/layers.rs\<close>), and the two blocks of a transformer that are built
  from them (\<^verbatim>\<open>Mlp\<close> of \<^verbatim>\<open>mistralrs-core/src/layers.rs\<close>, the attention of
  \<^verbatim>\<open>models/llama.rs\<close>).

  The arithmetic of the tensors is exact: elements are of a semiring. Inputs are the vectors of the
  tokens of one sequence. The sum over a group is a parameter, and so are the activation function
  and what happens inside one attention head (rotary embedding, cache, mask and softmax).
\<close>

section \<open>Tensors and their parts\<close>

datatype shard =
    Simple nat nat nat \<comment> \<open>the dimension, the rank and the size of the group\<close>
  | Offset nat nat nat \<comment> \<open>the dimension, the offset and the length\<close>

definition default_shard :: shard where
  "default_shard = Simple 0 0 1"

record comm =
  comm_rank :: nat
  comm_world_size :: nat

definition shard_of :: "nat \<Rightarrow> comm \<Rightarrow> shard" where
  "shard_of dim comm = Simple dim (comm_rank comm) (comm_world_size comm)"

text \<open>Tensors of one and of two dimensions, the latter with the number of columns.\<close>

datatype 'a tensor = Vector "'a list" | Matrix nat "'a list list"

fun dims :: "'a tensor \<Rightarrow> nat list" where
  "dims (Vector xs) = [length xs]"
| "dims (Matrix c rows) = [length rows, c]"

definition slice :: "nat \<Rightarrow> nat \<Rightarrow> 'a list \<Rightarrow> 'a list" where
  "slice start stop xs = take (stop - start) (drop start xs)"

fun slice_dim :: "nat \<Rightarrow> nat \<Rightarrow> nat \<Rightarrow> 'a tensor \<Rightarrow> 'a tensor res" where
  "slice_dim start stop dim (Vector xs) =
     (if dim = 0 then if stop \<le> length xs then Ok (Vector (slice start stop xs)) else Err (Bail ''Cannot slice tensor'')
      else Err (Bail ''Cannot slice tensor''))"
| "slice_dim start stop dim (Matrix c rows) =
     (if dim = 0
      then if stop \<le> length rows then Ok (Matrix c (slice start stop rows)) else Err (Bail ''Cannot slice tensor'')
      else if dim = 1
      then if stop \<le> c then Ok (Matrix (stop - start) (map (slice start stop) rows)) else Err (Bail ''Cannot slice tensor'')
      else Err (Bail ''Got sharded on dimensions != 0 or 1''))"

text \<open>The tensors of a file, by their path, and the paths that are to be dummies.\<close>

record 'a files =
  tensors_of :: "string \<Rightarrow> 'a tensor option"
  make_dummy :: "string \<Rightarrow> bool"

definition find_tensor :: "'a files \<Rightarrow> string \<Rightarrow> 'a tensor res" where
  "find_tensor fs path =
     (case tensors_of fs path of None \<Rightarrow> Err (Bail ''cannot find tensor'') | Some t \<Rightarrow> Ok t)"

definition get_sharded :: "'a files \<Rightarrow> nat list \<Rightarrow> string \<Rightarrow> shard \<Rightarrow> 'a tensor res" where
  "get_sharded fs target path h =
     (if make_dummy fs path then Err (Bail ''cannot find tensor'')
      else rbind (find_tensor fs path) (\<lambda>t.
      case h of
        Simple dim rank world_size \<Rightarrow>
          if world_size = 1
          then if dims t = target then Ok t else Err (Bail ''shape mismatch'')
          else rbind (vget (dims t) dim) (\<lambda>sz.
               rbind (rassert (world_size \<noteq> 0) ''attempt to calculate the remainder with a divisor of zero'') (\<lambda>_.
               if sz mod world_size \<noteq> 0 then Err (Bail ''shape mismatch in split'')
               else let block_size = sz div world_size
                    in slice_dim (rank * block_size) ((rank + 1) * block_size) dim t))
      | Offset dim offset len \<Rightarrow> slice_dim offset (offset + len) dim t))"

definition contains_tensor :: "'a files \<Rightarrow> string \<Rightarrow> bool" where
  "contains_tensor fs path \<longleftrightarrow> \<not> make_dummy fs path \<and> tensors_of fs path \<noteq> None"

text \<open>A builder of weights is a file and a prefix.\<close>

definition pp :: "string \<Rightarrow> string \<Rightarrow> string" where
  "pp prefix name = (if prefix = '''' then name else prefix @ ''.'' @ name)"

section \<open>Linear layers\<close>

definition dot :: "'a list \<Rightarrow> 'a list \<Rightarrow> 'a::semiring_0" where
  "dot xs ys = sum_list (map2 (*) xs ys)"

fun matmul_t :: "'a::semiring_0 list \<Rightarrow> 'a tensor \<Rightarrow> 'a list res" where
  "matmul_t xs (Matrix c rows) = (if length xs = c then Ok (map (\<lambda>row. dot row xs) rows) else Err (Bail ''shape mismatch in matmul''))"
| "matmul_t xs (Vector _) = Err (Bail ''shape mismatch in matmul'')"

datatype 'a linear = Dummy | Unquant "'a tensor"

fun linear_forward :: "'a linear \<Rightarrow> 'a list \<Rightarrow> 'a::semiring_0 list res" where
  "linear_forward Dummy xs = Err (Bail ''DummyLayer should not ever be present in forward pass!'')"
| "linear_forward (Unquant w) xs = matmul_t xs w"

datatype quant_method = Fp8 | Gptq | Bitsandbytes | Unreachable

record 'a parallel =
  weight :: "'a linear"
  bias :: "'a tensor option"

text \<open>\<open>quantized\<close> are the layers of the quantization methods.\<close>

definition parallel_weight :: "(quant_method \<Rightarrow> shard \<Rightarrow> 'a linear res) \<Rightarrow> nat \<Rightarrow> nat \<Rightarrow> quant_method option \<Rightarrow> comm
    \<Rightarrow> shard \<Rightarrow> 'a files \<Rightarrow> string \<Rightarrow> 'a linear res" where
  "parallel_weight quantized in_dim out_dim config comm sh fs vb =
     (case config of
        Some m \<Rightarrow>
          if m \<in> {Bitsandbytes, Gptq} \<and> comm_world_size comm \<noteq> 1
          then Err (Bail ''GPTQ and BNB quantization types to not support tensor parallelism'')
          else if m = Unreachable then Err (Panic ''unreachable'') else quantized m sh
      | None \<Rightarrow>
          if \<not> contains_tensor fs (pp vb ''weight'') then Ok Dummy
          else rbind (get_sharded fs [out_dim, in_dim] (pp vb ''weight'') sh) (\<lambda>w. Ok (Unquant w)))"

definition is_whole :: "quant_method option \<Rightarrow> bool" where
  "is_whole config \<longleftrightarrow> config \<in> {Some Gptq, Some Bitsandbytes}"

text \<open>The layers of GPTQ and bitsandbytes are returned as they are, with a bias of their own.\<close>

definition row_parallel_new :: "(quant_method \<Rightarrow> shard \<Rightarrow> 'a linear res) \<Rightarrow> nat \<Rightarrow> nat \<Rightarrow> quant_method option \<Rightarrow> bool
    \<Rightarrow> comm \<Rightarrow> 'a files \<Rightarrow> string \<Rightarrow> 'a parallel res" where
  "row_parallel_new quantized in_dim out_dim config has_bias comm fs vb =
     rbind (parallel_weight quantized in_dim out_dim config comm (shard_of 1 comm) fs vb) (\<lambda>w.
     rbind (if has_bias \<and> \<not> is_whole config
            then rbind (get_sharded fs [out_dim] (pp vb ''bias'') default_shard) (\<lambda>b. Ok (Some b)) else Ok None) (\<lambda>b.
     Ok \<lparr>weight = w, bias = b\<rparr>))"

definition column_parallel_with_shard :: "(quant_method \<Rightarrow> shard \<Rightarrow> 'a linear res) \<Rightarrow> nat \<Rightarrow> nat \<Rightarrow> quant_method option \<Rightarrow> bool
    \<Rightarrow> comm \<Rightarrow> shard \<Rightarrow> 'a files \<Rightarrow> string \<Rightarrow> 'a parallel res" where
  "column_parallel_with_shard quantized in_dim out_dim config has_bias comm sh fs vb =
     rbind (parallel_weight quantized in_dim out_dim config comm sh fs vb) (\<lambda>w.
     rbind (if has_bias \<and> \<not> is_whole config
            then rbind (get_sharded fs [out_dim] (pp vb ''bias'') sh) (\<lambda>b. Ok (Some b)) else Ok None) (\<lambda>b.
     Ok \<lparr>weight = w, bias = b\<rparr>))"

definition column_parallel_new :: "(quant_method \<Rightarrow> shard \<Rightarrow> 'a linear res) \<Rightarrow> nat \<Rightarrow> nat \<Rightarrow> quant_method option \<Rightarrow> bool
    \<Rightarrow> comm \<Rightarrow> 'a files \<Rightarrow> string \<Rightarrow> 'a parallel res" where
  "column_parallel_new quantized in_dim out_dim config has_bias comm fs vb =
     column_parallel_with_shard quantized in_dim out_dim config has_bias comm (shard_of 0 comm) fs vb"

fun broadcast_add :: "'a::semiring_0 list \<Rightarrow> 'a tensor option \<Rightarrow> 'a list res" where
  "broadcast_add xs None = Ok xs"
| "broadcast_add xs (Some (Vector b)) = (if length b = length xs then Ok (map2 (+) xs b) else Err (Bail ''shape mismatch in broadcast_add''))"
| "broadcast_add xs (Some (Matrix c rows)) = Err (Bail ''shape mismatch in broadcast_add'')"

definition column_forward :: "'a parallel \<Rightarrow> 'a list \<Rightarrow> 'a::semiring_0 list res" where
  "column_forward l xs = rbind (linear_forward (weight l) xs) (\<lambda>ys. broadcast_add ys (bias l))"

text \<open>
  The forward pass of a row parallel layer on all devices of a group: each computes its part, the
  parts are reduced in lockstep, and each adds its bias.
\<close>

definition row_forward :: "('a list list \<Rightarrow> 'a list) \<Rightarrow> 'a parallel list \<Rightarrow> 'a list list \<Rightarrow> 'a::semiring_0 list list res" where
  "row_forward all_reduce ls xss =
     rbind (rmap (\<lambda>(l, xs). linear_forward (weight l) xs) (zip ls xss)) (\<lambda>parts.
     rmap (\<lambda>l. broadcast_add (all_reduce parts) (bias l)) ls)"

section \<open>The feed-forward block\<close>

record 'a mlp =
  gate :: "'a parallel"
  up :: "'a parallel"
  down :: "'a parallel"

definition mlp_new :: "(quant_method \<Rightarrow> shard \<Rightarrow> 'a linear res) \<Rightarrow> 'a files \<Rightarrow> string \<Rightarrow> nat \<Rightarrow> nat \<Rightarrow> quant_method option
    \<Rightarrow> comm \<Rightarrow> 'a mlp res" where
  "mlp_new quantized fs vb hidden_size intermediate_size config comm =
     rbind (column_parallel_new quantized hidden_size intermediate_size config False comm fs (pp vb ''gate_proj'')) (\<lambda>g.
     rbind (column_parallel_new quantized hidden_size intermediate_size config False comm fs (pp vb ''up_proj'')) (\<lambda>u.
     rbind (row_parallel_new quantized intermediate_size hidden_size config False comm fs (pp vb ''down_proj'')) (\<lambda>d.
     Ok \<lparr>gate = g, up = u, down = d\<rparr>)))"

definition mul_and_act :: "('a \<Rightarrow> 'a \<Rightarrow> 'a) \<Rightarrow> 'a list \<Rightarrow> 'a list \<Rightarrow> 'a list res" where
  "mul_and_act act xs ys = (if length xs = length ys then Ok (map2 act xs ys) else Err (Bail ''shape mismatch in mul_and_act''))"

definition mlp_forward :: "('a list list \<Rightarrow> 'a list) \<Rightarrow> ('a \<Rightarrow> 'a \<Rightarrow> 'a) \<Rightarrow> 'a mlp list \<Rightarrow> 'a list \<Rightarrow> 'a::semiring_0 list list res" where
  "mlp_forward all_reduce act ls xs =
     rbind (rmap (\<lambda>l.
        rbind (column_forward (gate l) xs) (\<lambda>lhs. rbind (column_forward (up l) xs) (\<lambda>rhs. mul_and_act act lhs rhs))) ls) (\<lambda>hs.
     row_forward all_reduce (map down ls) hs)"

text \<open>The block on a group of devices: every device loads its part and they run together.\<close>

definition mlp_run :: "('a list list \<Rightarrow> 'a list) \<Rightarrow> (quant_method \<Rightarrow> shard \<Rightarrow> 'a linear res) \<Rightarrow> ('a \<Rightarrow> 'a \<Rightarrow> 'a) \<Rightarrow> 'a files
    \<Rightarrow> string \<Rightarrow> nat \<Rightarrow> nat \<Rightarrow> nat \<Rightarrow> 'a list \<Rightarrow> 'a::semiring_0 list list res" where
  "mlp_run all_reduce quantized act fs vb hidden_size intermediate_size world_size xs =
     rbind (rmap (\<lambda>r. mlp_new quantized fs vb hidden_size intermediate_size None
         \<lparr>comm_rank = r, comm_world_size = world_size\<rparr>) [0..<world_size]) (\<lambda>ls.
     mlp_forward all_reduce act ls xs)"

section \<open>The heads of a device\<close>

text \<open>
  With more devices than key-value heads every head is held by several devices. The number of
  heads divides; without heads the division panics.
\<close>

definition checked_div :: "nat \<Rightarrow> nat \<Rightarrow> nat res" where
  "checked_div a b = rbind (rassert (b \<noteq> 0) ''attempt to divide by zero'') (\<lambda>_. Ok (a div b))"

definition compute_kv_shard :: "nat \<Rightarrow> nat \<Rightarrow> comm \<Rightarrow> shard res" where
  "compute_kv_shard total_num_kv_heads head_dim comm =
     (if comm_world_size comm = 1 then Ok default_shard
      else if total_num_kv_heads < comm_world_size comm
      then rbind (checked_div (comm_world_size comm) total_num_kv_heads) (\<lambda>kv_replicate.
           rbind (checked_div total_num_kv_heads (comm_world_size comm)) (\<lambda>n.
           let num_kv_heads = max n 1 in
           rbind (checked_div (comm_rank comm) kv_replicate) (\<lambda>i.
           let kv_shard_id = i * num_kv_heads
           in Ok (Offset 0 (kv_shard_id * head_dim) head_dim))))
      else Ok (Simple 0 (comm_rank comm) (comm_world_size comm)))"

definition compute_n_kv_groups :: "nat \<Rightarrow> nat \<Rightarrow> comm \<Rightarrow> nat res" where
  "compute_n_kv_groups total_num_kv_heads num_attention_heads comm =
     rbind (if total_num_kv_heads < comm_world_size comm then checked_div (comm_world_size comm) total_num_kv_heads
            else Ok 1) (\<lambda>kv_replicate.
     rbind (checked_div num_attention_heads total_num_kv_heads) (\<lambda>g.
     if kv_replicate \<noteq> 0 then checked_div g kv_replicate else Ok g))"

record attention_config =
  hidden_size :: nat
  num_attention_heads :: nat
  num_key_value_heads :: nat

record 'a attention =
  q_proj :: "'a parallel"
  k_proj :: "'a parallel"
  v_proj :: "'a parallel"
  o_proj :: "'a parallel"
  at_heads :: nat
  at_kv_heads :: nat
  at_head_dim :: nat
  at_kv_groups :: nat

definition attention_load :: "(quant_method \<Rightarrow> shard \<Rightarrow> 'a linear res) \<Rightarrow> 'a files \<Rightarrow> string \<Rightarrow> attention_config
    \<Rightarrow> quant_method option \<Rightarrow> comm \<Rightarrow> 'a attention res" where
  "attention_load quantized fs vb cfg config comm =
     rbind (checked_div (hidden_size cfg) (num_attention_heads cfg)) (\<lambda>hd.
     let size_in = hidden_size cfg; size_q = hd * num_attention_heads cfg; size_kv = hd * num_key_value_heads cfg in
     rbind (column_parallel_new quantized size_in size_q config False comm fs (pp vb ''q_proj'')) (\<lambda>q.
     rbind (compute_kv_shard (num_key_value_heads cfg) hd comm) (\<lambda>kv_shard.
     rbind (column_parallel_with_shard quantized size_in size_kv config False comm kv_shard fs (pp vb ''k_proj'')) (\<lambda>k.
     rbind (column_parallel_with_shard quantized size_in size_kv config False comm kv_shard fs (pp vb ''v_proj'')) (\<lambda>v.
     rbind (row_parallel_new quantized size_q size_in config False comm fs (pp vb ''o_proj'')) (\<lambda>o'.
     rbind (checked_div (num_attention_heads cfg) (comm_world_size comm)) (\<lambda>heads.
     rbind (checked_div (num_key_value_heads cfg) (comm_world_size comm)) (\<lambda>kv_heads.
     rbind (compute_n_kv_groups (num_key_value_heads cfg) (num_attention_heads cfg) comm) (\<lambda>groups.
     Ok \<lparr>q_proj = q, k_proj = k, v_proj = v, o_proj = o', at_heads = heads, at_kv_heads = max kv_heads 1,
         at_head_dim = hd, at_kv_groups = groups\<rparr>)))))))))"

text \<open>The vectors of a sequence by head, the repetition of the key-value heads, and back.\<close>

definition split_heads :: "nat \<Rightarrow> nat \<Rightarrow> 'a list list \<Rightarrow> 'a list list list res" where
  "split_heads n head_dim ys =
     (if \<forall>y \<in> set ys. length y = n * head_dim
      then Ok (map (\<lambda>i. map (slice (i * head_dim) ((i + 1) * head_dim)) ys) [0..<n]) else Err (Bail ''shape mismatch in reshape''))"

definition repeat_kv :: "nat \<Rightarrow> nat \<Rightarrow> 'a list list list \<Rightarrow> 'a list list list res" where
  "repeat_kv seq_len n_rep x =
     (if n_rep = 1 then Ok x
      else if n_rep = 0 then Err (Bail ''cat of no tensors'')
      else let catted = concat (map (\<lambda>h. concat (replicate n_rep h)) x)
           in Ok (map (\<lambda>i. slice (i * seq_len) ((i + 1) * seq_len) catted) [0..<length x * n_rep]))"

definition merge_heads :: "nat \<Rightarrow> 'a list list list \<Rightarrow> 'a list list" where
  "merge_heads seq_len ys = map (\<lambda>t. concat (map (\<lambda>h. h ! t) ys)) [0..<seq_len]"

text \<open>The forward pass of a device up to its output projection; \<open>head\<close> is one attention head.\<close>

definition attention_heads :: "('a list list \<Rightarrow> 'a list list \<Rightarrow> 'a list list \<Rightarrow> 'a list list) \<Rightarrow> 'a attention
    \<Rightarrow> 'a list list \<Rightarrow> 'a::semiring_0 list list res" where
  "attention_heads head l xs =
     rbind (rmap (column_forward (q_proj l)) xs) (\<lambda>q.
     rbind (rmap (column_forward (k_proj l)) xs) (\<lambda>k.
     rbind (rmap (column_forward (v_proj l)) xs) (\<lambda>v.
     rbind (split_heads (at_heads l) (at_head_dim l) q) (\<lambda>q.
     rbind (split_heads (at_kv_heads l) (at_head_dim l) k) (\<lambda>k.
     rbind (split_heads (at_kv_heads l) (at_head_dim l) v) (\<lambda>v.
     rbind (repeat_kv (length xs) (at_kv_groups l) k) (\<lambda>k.
     rbind (repeat_kv (length xs) (at_kv_groups l) v) (\<lambda>v.
     if length q = length k \<and> length k = length v
     then Ok (merge_heads (length xs) (map (\<lambda>(q, k, v). head q k v) (zip q (zip k v))))
     else Err (Bail ''shape mismatch in matmul'')))))))))"

definition attention_forward :: "('a list list \<Rightarrow> 'a list) \<Rightarrow> ('a list list \<Rightarrow> 'a list list \<Rightarrow> 'a list list \<Rightarrow> 'a list list)
    \<Rightarrow> 'a attention list \<Rightarrow> 'a list list \<Rightarrow> 'a::semiring_0 list list list res" where
  "attention_forward all_reduce head ls xs =
     rbind (rmap (\<lambda>l. attention_heads head l xs) ls) (\<lambda>yss.
     rmap (\<lambda>t. row_forward all_reduce (map o_proj ls) (map (\<lambda>ys. ys ! t) yss)) [0..<length xs])"

text \<open>The result of a run: for each token what each device of the group has.\<close>

definition attention_run :: "('a list list \<Rightarrow> 'a list) \<Rightarrow> (quant_method \<Rightarrow> shard \<Rightarrow> 'a linear res)
    \<Rightarrow> ('a list list \<Rightarrow> 'a list list \<Rightarrow> 'a list list \<Rightarrow> 'a list list) \<Rightarrow> 'a files \<Rightarrow> string \<Rightarrow> attention_config
    \<Rightarrow> nat \<Rightarrow> 'a list list \<Rightarrow> 'a::semiring_0 list list list res" where
  "attention_run all_reduce quantized head fs vb cfg world_size xs =
     rbind (rmap (\<lambda>r. attention_load quantized fs vb cfg None \<lparr>comm_rank = r, comm_world_size = world_size\<rparr>)
       [0..<world_size]) (\<lambda>ls.
     attention_forward all_reduce head ls xs)"

section \<open>Equal parts\<close>

text \<open>\<open>part b r xs\<close>: the part of length \<open>b\<close> that belongs to rank \<open>r\<close>.\<close>

definition part :: "nat \<Rightarrow> nat \<Rightarrow> 'a list \<Rightarrow> 'a list" where
  "part b r xs = slice (r * b) ((r + 1) * b) xs"

lemma slice_append_offset: "slice (i + length xs) (j + length xs) (xs @ ys) = slice i j ys"
  by (simp add: slice_def)

lemma length_slice [simp]: "stop \<le> length xs \<Longrightarrow> length (slice start stop xs) = stop - start"
  by (simp add: slice_def)

lemma nth_slice [simp]: "stop \<le> length xs \<Longrightarrow> i < stop - start \<Longrightarrow> slice start stop xs ! i = xs ! (start + i)"
  by (simp add: slice_def)

lemma slice_map: "slice start stop (map f xs) = map f (slice start stop xs)"
  by (simp add: slice_def take_map drop_map)

lemma slice_map2: "slice start stop (map2 f xs ys) = map2 f (slice start stop xs) (slice start stop ys)"
  by (simp add: slice_def take_map drop_map take_zip drop_zip)

lemma slice_whole [simp]: "slice 0 (length xs) xs = xs"
  by (simp add: slice_def)

lemma rank_fits: "r < ws \<Longrightarrow> (r + 1) * b \<le> ws * (b :: nat)"
  by (metis Suc_eq_plus1 Suc_leI mult_le_mono1)

lemma length_part [simp]: "length xs = ws * b \<Longrightarrow> r < ws \<Longrightarrow> length (part b r xs) = b"
  using rank_fits [of r ws b] by (simp add: part_def)

lemma nth_part: "length xs = ws * b \<Longrightarrow> r < ws \<Longrightarrow> i < b \<Longrightarrow> part b r xs ! i = xs ! (r * b + i)"
  using rank_fits [of r ws b] by (simp add: part_def)

lemma part_map: "part b r (map f xs) = map f (part b r xs)"
  by (simp add: part_def slice_map)

lemma part_map2: "part b r (map2 f xs ys) = map2 f (part b r xs) (part b r ys)"
  by (simp add: part_def slice_map2)

lemma part_whole: "part (length xs) 0 xs = xs"
  by (simp add: part_def)

lemma part_0: "b \<le> length xs \<Longrightarrow> part b 0 xs = take b xs"
  by (simp add: part_def slice_def)

lemma part_Suc: "part b (Suc r) xs = part b r (drop b xs)"
  by (simp add: part_def slice_def add.commute)

lemma concat_parts:
  assumes "length xs = ws * b"
  shows "concat (map (\<lambda>r. part b r xs) [0..<ws]) = xs"
  using assms
proof (induction ws arbitrary: xs)
  case 0
  then show ?case by simp
next
  case (Suc ws)
  have "map (\<lambda>r. part b r xs) [0..<Suc ws] = part b 0 xs # map (\<lambda>r. part b r (drop b xs)) [0..<ws]"
    by (simp add: upt_conv_Cons map_Suc_upt [symmetric] part_Suc del: upt_Suc)
  then show ?case using Suc.IH [of "drop b xs"] Suc.prems by (simp add: part_0)
qed

lemma dot_append: "length xs = length xs' \<Longrightarrow> dot (xs @ ys) (xs' @ ys') = dot xs xs' + dot ys ys'"
  by (simp add: dot_def)

text \<open>A scalar product is the sum of the products of the parts.\<close>

lemma dot_parts:
  assumes "length xs = ws * b" and "length ys = ws * b"
  shows "dot xs ys = (\<Sum>r\<leftarrow>[0..<ws]. dot (part b r xs) (part b r ys))"
  using assms
proof (induction ws arbitrary: xs ys)
  case 0
  then show ?case by (simp add: dot_def)
next
  case (Suc ws)
  have "dot xs ys = dot (take b xs @ drop b xs) (take b ys @ drop b ys)" by simp
  also have "\<dots> = dot (take b xs) (take b ys) + dot (drop b xs) (drop b ys)"
    using Suc.prems by (intro dot_append) simp
  also have "dot (drop b xs) (drop b ys) = (\<Sum>r\<leftarrow>[0..<ws]. dot (part b (Suc r) xs) (part b (Suc r) ys))"
    using Suc.IH [of "drop b xs" "drop b ys"] Suc.prems by (simp add: part_Suc)
  also have "dot (take b xs) (take b ys) = dot (part b 0 xs) (part b 0 ys)"
    using Suc.prems by (simp add: part_0)
  finally show ?case
    by (simp add: upt_conv_Cons map_Suc_upt [symmetric] comp_def del: upt_Suc)
qed

section \<open>What the devices load\<close>

definition is_matrix :: "nat \<Rightarrow> nat \<Rightarrow> 'a list list \<Rightarrow> bool" where
  "is_matrix n c rows \<longleftrightarrow> length rows = n \<and> (\<forall>row \<in> set rows. length row = c)"

definition has_matrix :: "'a files \<Rightarrow> string \<Rightarrow> nat \<Rightarrow> nat \<Rightarrow> 'a list list \<Rightarrow> bool" where
  "has_matrix fs path n c rows \<longleftrightarrow>
     tensors_of fs path = Some (Matrix c rows) \<and> \<not> make_dummy fs path \<and> is_matrix n c rows"

lemma get_rows:
  assumes "has_matrix fs path (ws * b) c rows" and "r < ws"
  shows "get_sharded fs [ws * b, c] path (Simple 0 r ws) = Ok (Matrix c (part b r rows))"
proof (cases "ws = 1")
  case True
  then show ?thesis
    using assms part_whole [of rows] by (simp add: has_matrix_def is_matrix_def get_sharded_def find_tensor_def)
next
  case False
  then show ?thesis using assms rank_fits [of r ws b]
    by (simp add: has_matrix_def is_matrix_def get_sharded_def find_tensor_def part_def)
qed

lemma get_columns:
  assumes "has_matrix fs path n (ws * b) rows" and "r < ws"
  shows "get_sharded fs [n, ws * b] path (Simple 1 r ws) = Ok (Matrix b (map (part b r) rows))"
proof (cases "ws = 1")
  case True
  then have "map (part b r) rows = rows"
    using assms part_whole by (intro map_idI) (fastforce simp: has_matrix_def is_matrix_def)
  then show ?thesis
    using assms True by (simp add: has_matrix_def is_matrix_def get_sharded_def find_tensor_def)
next
  case False
  then show ?thesis using assms rank_fits [of r ws b]
    by (simp add: has_matrix_def is_matrix_def get_sharded_def find_tensor_def part_def [abs_def])
qed

lemma contains_matrix: "has_matrix fs path n c rows \<Longrightarrow> contains_tensor fs path"
  by (simp add: has_matrix_def contains_tensor_def)

lemma column_parallel_loads:
  assumes "has_matrix fs (pp vb ''weight'') (ws * b) c rows" and "r < ws"
  shows "column_parallel_new quantized c (ws * b) None False \<lparr>comm_rank = r, comm_world_size = ws\<rparr> fs vb
    = Ok \<lparr>weight = Unquant (Matrix c (part b r rows)), bias = None\<rparr>"
  using get_rows [OF assms] contains_matrix [OF assms(1)]
  by (simp add: column_parallel_new_def column_parallel_with_shard_def parallel_weight_def shard_of_def)

lemma row_parallel_loads:
  assumes "has_matrix fs (pp vb ''weight'') n (ws * b) rows" and "r < ws"
  shows "row_parallel_new quantized (ws * b) n None False \<lparr>comm_rank = r, comm_world_size = ws\<rparr> fs vb
    = Ok \<lparr>weight = Unquant (Matrix b (map (part b r) rows)), bias = None\<rparr>"
  using get_columns [OF assms] contains_matrix [OF assms(1)]
  by (simp add: row_parallel_new_def parallel_weight_def shard_of_def)

section \<open>The parts together\<close>

text \<open>The reduction adds up what the devices of the group have.\<close>

definition sums_up :: "('a::semiring_0 list list \<Rightarrow> 'a list) \<Rightarrow> bool" where
  "sums_up all_reduce \<longleftrightarrow> (\<forall>n xss. xss \<noteq> [] \<and> (\<forall>xs \<in> set xss. length xs = n)
     \<longrightarrow> all_reduce xss = map (\<lambda>i. \<Sum>xs\<leftarrow>xss. xs ! i) [0..<n])"

definition product :: "'a::semiring_0 list list \<Rightarrow> 'a list \<Rightarrow> 'a list" where
  "product rows xs = map (\<lambda>row. dot row xs) rows"

lemma length_product [simp]: "length (product rows xs) = length rows"
  by (simp add: product_def)

lemma part_product: "part b r (product rows xs) = product (part b r rows) xs"
  by (simp add: product_def part_map)

lemma column_forward_matrix [simp]:
  "length xs = c \<Longrightarrow> column_forward \<lparr>weight = Unquant (Matrix c rows), bias = None\<rparr> xs = Ok (product rows xs)"
  by (simp add: column_forward_def product_def)

lemma sum_of_parts:
  assumes "sums_up all_reduce" and "is_matrix n (ws * b) rows" and "length ys = ws * b" and "0 < ws"
  shows "all_reduce (map (\<lambda>r. product (map (part b r) rows) (part b r ys)) [0..<ws]) = product rows ys"
proof -
  let ?parts = "map (\<lambda>r. product (map (part b r) rows) (part b r ys)) [0..<ws]"
  have n: "length rows = n" "row \<in> set rows \<Longrightarrow> length row = ws * b" for row
    using assms(2) by (simp_all add: is_matrix_def)
  have "all_reduce ?parts = map (\<lambda>i. \<Sum>xs\<leftarrow>?parts. xs ! i) [0..<n]"
    using assms(4) n(1) by (intro assms(1) [unfolded sums_up_def, rule_format]) auto
  also have "\<dots> = product rows ys"
  proof (rule nth_equalityI)
    fix i assume "i < length (map (\<lambda>i. \<Sum>xs\<leftarrow>?parts. xs ! i) [0..<n])"
    then have i: "i < length rows" using n(1) by simp
    then have "dot (rows ! i) ys = (\<Sum>r\<leftarrow>[0..<ws]. dot (part b r (rows ! i)) (part b r ys))"
      using n(2) assms(3) by (intro dot_parts) simp_all
    then show "map (\<lambda>i. \<Sum>xs\<leftarrow>?parts. xs ! i) [0..<n] ! i = product rows ys ! i"
      using i n(1) by (simp add: product_def comp_def)
  qed (simp add: n(1))
  finally show ?thesis .
qed

lemma row_forward_parts:
  assumes "sums_up all_reduce" and "is_matrix n (ws * b) rows" and "length ys = ws * b" and "0 < ws"
  shows "row_forward all_reduce
      (map (\<lambda>r. \<lparr>weight = Unquant (Matrix b (map (part b r) rows)), bias = None\<rparr>) [0..<ws])
      (map (\<lambda>r. part b r ys) [0..<ws]) = Ok (replicate ws (product rows ys))"
proof -
  have "rmap (\<lambda>r. linear_forward (Unquant (Matrix b (map (part b r) rows))) (part b r ys)) [0..<ws]
    = Ok (map (\<lambda>r. product (map (part b r) rows) (part b r ys)) [0..<ws])"
    using length_part [OF assms(3)] by (intro rmap_Inr) (simp add: product_def)
  then have parts: "rmap (\<lambda>(l, xs). linear_forward (weight l) xs)
      (zip (map (\<lambda>r. \<lparr>weight = Unquant (Matrix b (map (part b r) rows)), bias = None\<rparr>) [0..<ws])
           (map (\<lambda>r. part b r ys) [0..<ws]))
    = Ok (map (\<lambda>r. product (map (part b r) rows) (part b r ys)) [0..<ws])"
    by (simp add: zip_map_map zip_same_conv_map rmap_map del: linear_forward.simps)
  have "rmap (\<lambda>r. Ok (product rows ys)) [0..<ws] = Ok (map (\<lambda>_. product rows ys) [0..<ws])"
    by (intro rmap_Inr) simp
  then show ?thesis
    by (simp add: row_forward_def parts sum_of_parts [OF assms] rmap_map map_replicate_const)
qed

text \<open>
  C14. Tensor parallelism computes the feed-forward block: in exact arithmetic every device of a
  group of any size that divides the inner dimension ends with the vector that one device computes
  from the whole matrices, which is the product with the last matrix of the activated and
  multiplied products with the first two.
\<close>

theorem parallel_mlp_computes_the_mlp:
  assumes "sums_up all_reduce" and "0 < ws"
    and "has_matrix fs (pp (pp vb ''gate_proj'') ''weight'') (ws * b) h g"
    and "has_matrix fs (pp (pp vb ''up_proj'') ''weight'') (ws * b) h u"
    and "has_matrix fs (pp (pp vb ''down_proj'') ''weight'') h (ws * b) d"
    and "length xs = h"
  shows "mlp_run all_reduce quantized act fs vb h (ws * b) ws xs
       = Ok (replicate ws (product d (map2 act (product g xs) (product u xs))))
    \<and> mlp_run all_reduce quantized act fs vb h (ws * b) 1 xs
       = Ok [product d (map2 act (product g xs) (product u xs))]"
proof -
  let ?y = "map2 act (product g xs) (product u xs)"
  have run: "mlp_run all_reduce quantized act fs vb h (n * c) n xs = Ok (replicate n (product d ?y))"
    if n: "0 < n" "n * c = ws * b" for n c
  proof -
    let ?l = "\<lambda>r. \<lparr>gate = \<lparr>weight = Unquant (Matrix h (part c r g)), bias = None\<rparr>,
       up = \<lparr>weight = Unquant (Matrix h (part c r u)), bias = None\<rparr>,
       down = \<lparr>weight = Unquant (Matrix c (map (part c r) d)), bias = None\<rparr>\<rparr>"
    have m: "has_matrix fs (pp (pp vb ''gate_proj'') ''weight'') (n * c) h g"
      "has_matrix fs (pp (pp vb ''up_proj'') ''weight'') (n * c) h u"
      "has_matrix fs (pp (pp vb ''down_proj'') ''weight'') h (n * c) d"
      using assms(3-5) n(2) by simp_all
    then have lengths: "length g = n * c" "length u = n * c" "is_matrix h (n * c) d"
      by (simp_all add: has_matrix_def is_matrix_def)
    have "rmap (\<lambda>r. mlp_new quantized fs vb h (n * c) None \<lparr>comm_rank = r, comm_world_size = n\<rparr>) [0..<n]
      = Ok (map ?l [0..<n])"
      using m by (intro rmap_Inr) (simp add: mlp_new_def column_parallel_loads row_parallel_loads)
    moreover have "rmap (\<lambda>r. mul_and_act act (product (part c r g) xs) (product (part c r u) xs)) [0..<n]
      = Ok (map (\<lambda>r. part c r ?y) [0..<n])"
      using length_part [OF lengths(1)] length_part [OF lengths(2)]
      by (intro rmap_Inr) (simp add: mul_and_act_def part_map2 part_product)
    ultimately show ?thesis
      using row_forward_parts [OF assms(1) lengths(3) _ n(1), of ?y] lengths(1,2) assms(6)
      by (simp add: mlp_run_def mlp_forward_def rmap_map comp_def)
  qed
  show ?thesis using run [of ws b] run [of 1 "ws * b"] assms(2) by simp
qed

section \<open>Heads\<close>

lemma take_drop_take: "c + b \<le> m \<Longrightarrow> take b (drop c (take m xs)) = take b (drop c xs)"
  by (simp add: drop_take)

lemma length_concat_const: "(\<And>x. x \<in> set xs \<Longrightarrow> length x = b) \<Longrightarrow> length (concat xs) = length xs * b"
  by (induction xs) auto

lemma part_slice:
  assumes "i < n"
  shows "part b i (slice (f * b) ((f + n) * b) xs) = part b (f + i) xs"
proof -
  have "(i + 1) * b \<le> n * b" using assms by (intro mult_le_mono1) simp
  then show ?thesis using take_drop_take [of "b * i" b "b * n" "drop (f * b) xs"] by (simp add: part_def slice_def algebra_simps)
qed

lemma part_part:
  assumes "i < n"
  shows "part b i (part (n * b) r xs) = part b (r * n + i) xs"
proof -
  have "(i + 1) * b \<le> n * b" using assms by (intro mult_le_mono1) simp
  then show ?thesis using take_drop_take [of "b * i" b "b * n" "drop (r * (n * b)) xs"] by (simp add: part_def slice_def algebra_simps)
qed

lemma split_heads_map:
  assumes "\<And>x. x \<in> set xs \<Longrightarrow> length (f x) = n * b"
  shows "split_heads n b (map f xs) = Ok (map (\<lambda>i. map (\<lambda>x. part b i (f x)) xs) [0..<n])"
  using assms by (auto simp: split_heads_def part_def)

lemma part_concat:
  assumes "\<And>x. x \<in> set xs \<Longrightarrow> length x = b" and "length xs = ws * n" and "r < ws"
  shows "part (n * b) r (concat xs) = concat (part n r xs)"
  using assms
proof (induction r arbitrary: xs ws)
  case (0 xs ws)
  have "length (concat (take n xs)) = n * b"
    using 0 length_concat_const [of "take n xs" b] by (cases ws) (auto dest: in_set_takeD)
  moreover have "concat xs = concat (take n xs) @ concat (drop n xs)"
    by (simp flip: concat_append)
  ultimately show ?case by (simp add: part_def slice_def)
next
  case (Suc r xs ws)
  then obtain ws' where ws: "ws = Suc ws'" by (cases ws) auto
  have "length (concat (take n xs)) = n * b"
    using Suc.prems ws length_concat_const [of "take n xs" b] by (auto dest: in_set_takeD)
  moreover have "concat xs = concat (take n xs) @ concat (drop n xs)"
    by (simp flip: concat_append)
  ultimately have "part (n * b) (Suc r) (concat xs) = part (n * b) r (concat (drop n xs))"
    by (simp add: part_Suc)
  also have "\<dots> = concat (part n r (drop n xs))"
    using Suc.prems ws by (intro Suc.IH [of _ ws']) (auto dest: in_set_dropD)
  finally show ?case by (simp add: part_Suc)
qed

lemma part_upt: "r < ws \<Longrightarrow> part n r [0..<ws * n] = map (\<lambda>j. r * n + j) [0..<n]"
  using rank_fits [of r ws n] by (simp add: part_def slice_def drop_upt take_upt upt_add_eq_append map_add_upt [symmetric] add.commute min_def)

lemma concat_replicate_nth:
  "i < length xs * n \<Longrightarrow> concat (map (replicate n) xs) ! i = xs ! (i div n)"
proof (induction xs arbitrary: i)
  case Nil
  then show ?case by simp
next
  case (Cons x xs)
  then show ?case
    by (cases "i < n") (auto simp: nth_append div_if nth_Cons' less_diff_conv2)
qed

lemma repeat_kv_heads:
  assumes "\<And>x. x \<in> set xs \<Longrightarrow> length x = seq_len" and "0 < n"
  shows "repeat_kv seq_len n xs = Ok (map (\<lambda>i. xs ! (i div n)) [0..<length xs * n])"
proof -
  let ?ys = "concat (map (replicate n) xs)"
  have len: "length ?ys = length xs * n" by (simp add: length_concat comp_def sum_list_triv)
  have "map (\<lambda>i. part seq_len i (concat ?ys)) [0..<length xs * n] = ?ys"
  proof (rule nth_equalityI)
    fix i assume "i < length (map (\<lambda>i. part seq_len i (concat ?ys)) [0..<length xs * n])"
    then have i: "i < length xs * n" by simp
    have "part (1 * seq_len) i (concat ?ys) = concat (part 1 i ?ys)"
      using assms(1) i len by (intro part_concat [of _ _ "length xs * n"]) auto
    also have "part 1 i ?ys = [?ys ! i]" using i len by (simp add: part_def slice_def take_Suc_conv_app_nth)
    finally show "map (\<lambda>i. part seq_len i (concat ?ys)) [0..<length xs * n] ! i = ?ys ! i" using i by simp
  qed (simp add: len)
  also have "?ys = map (\<lambda>i. xs ! (i div n)) [0..<length xs * n]"
    by (rule nth_equalityI) (simp_all add: len concat_replicate_nth)
  finally have eq: "map (\<lambda>i. part seq_len i (concat ?ys)) [0..<length xs * n]
    = map (\<lambda>i. xs ! (i div n)) [0..<length xs * n]" .
  have "concat (map (\<lambda>h. concat (replicate n h)) xs) = concat ?ys" by (induction xs) simp_all
  moreover have "map (\<lambda>i. xs ! (i div 1)) [0..<length xs] = xs" by (simp add: map_nth)
  ultimately show ?thesis using eq assms(2) by (auto simp: repeat_kv_def part_def [abs_def])
qed

section \<open>The key-value heads of a device\<close>

definition fits_group :: "nat \<Rightarrow> nat \<Rightarrow> nat \<Rightarrow> bool" where
  "fits_group ws heads kv_heads \<longleftrightarrow> 0 < ws \<and> 0 < heads \<and> ws dvd heads \<and> kv_heads dvd heads
     \<and> (ws dvd kv_heads \<or> kv_heads < ws \<and> kv_heads dvd ws)"

definition kv_copies :: "nat \<Rightarrow> nat \<Rightarrow> nat" where
  "kv_copies ws kv_heads = (if kv_heads < ws then ws div kv_heads else 1)"

definition kv_first :: "nat \<Rightarrow> nat \<Rightarrow> nat \<Rightarrow> nat" where
  "kv_first ws kv_heads r = (if kv_heads < ws then r div (ws div kv_heads) else r * (kv_heads div ws))"

definition kv_count :: "nat \<Rightarrow> nat \<Rightarrow> nat" where
  "kv_count ws kv_heads = max (kv_heads div ws) 1"

lemma fits_group_cases:
  assumes "fits_group ws heads kv_heads"
  obtains (split) t g where "kv_heads = ws * t" "heads = ws * t * g" "0 < ws" "0 < t" "0 < g"
  | (copy) m p where "ws = kv_heads * m" "heads = kv_heads * m * p" "0 < kv_heads" "1 < m" "0 < p"
proof (cases "kv_heads < ws")
  case True
  then have "kv_heads dvd ws" "\<not> ws dvd kv_heads" "0 < kv_heads" "0 < heads" "ws dvd heads"
    using assms by (auto simp: fits_group_def dvd_imp_le intro: ccontr)
  then obtain m p where m: "ws = kv_heads * m" "heads = ws * p" by (auto elim!: dvdE)
  then have "1 < m" "0 < p" using True \<open>0 < heads\<close> by (cases m; auto)+
  then show ?thesis using m \<open>0 < kv_heads\<close> copy by blast
next
  case False
  then have "ws dvd kv_heads" "kv_heads dvd heads" "0 < ws" "0 < heads"
    using assms by (auto simp: fits_group_def)
  then obtain t g where "kv_heads = ws * t" "heads = kv_heads * g" by (auto elim!: dvdE)
  then show ?thesis using split \<open>0 < ws\<close> \<open>0 < heads\<close> by auto
qed

lemma n_kv_groups:
  assumes "fits_group ws heads kv_heads"
  shows "compute_n_kv_groups kv_heads heads \<lparr>comm_rank = r, comm_world_size = ws\<rparr>
      = Ok (heads div kv_heads div kv_copies ws kv_heads)"
    and "0 < heads div kv_heads div kv_copies ws kv_heads"
    and "kv_count ws kv_heads * (heads div kv_heads div kv_copies ws kv_heads) = heads div ws"
  using assms by (cases rule: fits_group_cases;
    simp add: compute_n_kv_groups_def checked_div_def kv_copies_def kv_count_def max_def div_mult2_eq)+

text \<open>The attention heads of a device meet the key-value heads that they meet on one device.\<close>

lemma kv_head_of_device:
  assumes "fits_group ws heads kv_heads" and "j < heads div ws"
  shows "kv_first ws kv_heads r + j div (heads div kv_heads div kv_copies ws kv_heads)
      = (r * (heads div ws) + j) div (heads div kv_heads)"
  using assms(1)
proof (cases rule: fits_group_cases)
  case (split t g)
  then have "(r * (t * g) + j) div g = r * t + j div g"
    using div_mult_self1 [of g j "r * t"] by (simp add: ac_simps)
  then show ?thesis using split by (simp add: kv_first_def kv_copies_def)
next
  case (copy m p)
  then have "j < p" using assms(2) by simp
  then have "(r * p + j) div (m * p) = r div m"
    using copy by (simp add: mult.commute [of m] div_mult2_eq)
  then show ?thesis using copy \<open>j < p\<close> by (simp add: kv_first_def kv_copies_def)
qed

lemma kv_first_fits:
  assumes "fits_group ws heads kv_heads" and "r < ws"
  shows "kv_first ws kv_heads r + kv_count ws kv_heads \<le> kv_heads"
  using assms(1)
proof (cases rule: fits_group_cases)
  case (split t g)
  then show ?thesis using assms(2) rank_fits [of r ws t] by (simp add: kv_first_def kv_count_def algebra_simps)
next
  case (copy m p)
  then have "r div m < kv_heads" using assms(2) by (simp add: less_mult_imp_div_less mult.commute)
  then show ?thesis using copy by (simp add: kv_first_def kv_count_def)
qed

lemma get_kv:
  assumes "fits_group ws heads kv_heads" and "r < ws" and "has_matrix fs path (d * kv_heads) c rows"
  shows "rbind (compute_kv_shard kv_heads d \<lparr>comm_rank = r, comm_world_size = ws\<rparr>) (get_sharded fs [d * kv_heads, c] path)
    = Ok (Matrix c (slice (kv_first ws kv_heads r * d) ((kv_first ws kv_heads r + kv_count ws kv_heads) * d) rows))"
  using assms(1)
proof (cases rule: fits_group_cases)
  case (split t g)
  then have m: "has_matrix fs path (ws * (t * d)) c rows" "d * kv_heads = ws * (t * d)"
    using assms(3) by (simp_all add: algebra_simps)
  have "compute_kv_shard kv_heads d \<lparr>comm_rank = r, comm_world_size = ws\<rparr> = Ok (Simple 0 r ws)"
    using split assms(2) by (auto simp: compute_kv_shard_def default_shard_def)
  then show ?thesis using split get_rows [OF m(1) assms(2)] m(2)
    by (simp add: kv_first_def kv_count_def part_def algebra_simps)
next
  case (copy m p)
  then have ws: "ws \<noteq> 1" "kv_heads < ws" by simp_all
  then have "compute_kv_shard kv_heads d \<lparr>comm_rank = r, comm_world_size = ws\<rparr> = Ok (Offset 0 (r div m * d) d)"
    using copy by (simp add: compute_kv_shard_def checked_div_def)
  moreover have "r div m + 1 \<le> kv_heads"
    using kv_first_fits [OF assms(1,2)] copy ws by (simp add: kv_first_def kv_count_def)
  then have "(r div m + 1) * d \<le> kv_heads * d" by (rule mult_le_mono1)
  then have "(r div m + 1) * d \<le> length rows"
    using assms(3) by (simp add: has_matrix_def is_matrix_def mult.commute)
  ultimately show ?thesis using copy ws assms(3)
    by (simp add: kv_first_def kv_count_def get_sharded_def find_tensor_def has_matrix_def algebra_simps)
qed

section \<open>Attention on a group\<close>

text \<open>What one head computes on a single device: head \<open>i\<close> reads the key-value head \<open>i div g\<close>.\<close>

definition whole_head :: "('a list list \<Rightarrow> 'a list list \<Rightarrow> 'a list list \<Rightarrow> 'a list list) \<Rightarrow> nat \<Rightarrow> nat
    \<Rightarrow> 'a list list \<Rightarrow> 'a list list \<Rightarrow> 'a list list \<Rightarrow> 'a list list \<Rightarrow> nat \<Rightarrow> 'a::semiring_0 list list" where
  "whole_head head d g wq wk wv xs i =
     head (map (\<lambda>x. part d i (product wq x)) xs) (map (\<lambda>x. part d (i div g) (product wk x)) xs)
       (map (\<lambda>x. part d (i div g) (product wv x)) xs)"

definition keeps_shape :: "('a list list \<Rightarrow> 'a list list \<Rightarrow> 'a list list \<Rightarrow> 'a list list) \<Rightarrow> nat \<Rightarrow> bool" where
  "keeps_shape head d \<longleftrightarrow> (\<forall>q k v. (\<forall>y \<in> set q. length y = d)
     \<longrightarrow> length (head q k v) = length q \<and> (\<forall>y \<in> set (head q k v). length y = d))"

abbreviation kv_rows :: "nat \<Rightarrow> nat \<Rightarrow> nat \<Rightarrow> nat \<Rightarrow> 'a list \<Rightarrow> 'a list" where
  "kv_rows ws kv_heads d r \<equiv> slice (kv_first ws kv_heads r * d) ((kv_first ws kv_heads r + kv_count ws kv_heads) * d)"

definition device_attention :: "nat \<Rightarrow> nat \<Rightarrow> nat \<Rightarrow> nat \<Rightarrow> nat \<Rightarrow> 'a list list \<Rightarrow> 'a list list \<Rightarrow> 'a list list \<Rightarrow> 'a list list
    \<Rightarrow> nat \<Rightarrow> 'a attention" where
  "device_attention ws heads kv_heads d c wq wk wv wo r =
     (let p = heads div ws in
      \<lparr>q_proj = \<lparr>weight = Unquant (Matrix c (part (p * d) r wq)), bias = None\<rparr>,
       k_proj = \<lparr>weight = Unquant (Matrix c (kv_rows ws kv_heads d r wk)), bias = None\<rparr>,
       v_proj = \<lparr>weight = Unquant (Matrix c (kv_rows ws kv_heads d r wv)), bias = None\<rparr>,
       o_proj = \<lparr>weight = Unquant (Matrix (p * d) (map (part (p * d) r) wo)), bias = None\<rparr>,
       at_heads = p, at_kv_heads = kv_count ws kv_heads, at_head_dim = d,
       at_kv_groups = heads div kv_heads div kv_copies ws kv_heads\<rparr>)"

lemma attention_loads:
  assumes "fits_group ws heads kv_heads" and "r < ws" and "d = c div heads"
    and "has_matrix fs (pp (pp vb ''q_proj'') ''weight'') (d * heads) c wq"
    and "has_matrix fs (pp (pp vb ''k_proj'') ''weight'') (d * kv_heads) c wk"
    and "has_matrix fs (pp (pp vb ''v_proj'') ''weight'') (d * kv_heads) c wv"
    and "has_matrix fs (pp (pp vb ''o_proj'') ''weight'') c (d * heads) wo"
  shows "attention_load quantized fs vb
      \<lparr>hidden_size = c, num_attention_heads = heads, num_key_value_heads = kv_heads\<rparr> None
      \<lparr>comm_rank = r, comm_world_size = ws\<rparr> = Ok (device_attention ws heads kv_heads d c wq wk wv wo r)"
proof -
  let ?p = "heads div ws"
  have pos: "0 < ws" "0 < heads" and p: "d * heads = ws * (?p * d)"
    using assms(1) by (auto simp: fits_group_def)
  obtain sh where sh: "compute_kv_shard kv_heads d \<lparr>comm_rank = r, comm_world_size = ws\<rparr> = Ok sh"
    using get_kv [OF assms(1,2,5)] by (auto elim: rbindE)
  have k: "get_sharded fs [d * kv_heads, c] (pp (pp vb ''k_proj'') ''weight'') sh = Ok (Matrix c (kv_rows ws kv_heads d r wk))"
    and v: "get_sharded fs [d * kv_heads, c] (pp (pp vb ''v_proj'') ''weight'') sh = Ok (Matrix c (kv_rows ws kv_heads d r wv))"
    using get_kv [OF assms(1,2,5)] get_kv [OF assms(1,2,6)] sh by simp_all
  have kv: "column_parallel_with_shard quantized c (d * kv_heads) None False \<lparr>comm_rank = r, comm_world_size = ws\<rparr> sh fs (pp vb ''k_proj'')
      = Ok \<lparr>weight = Unquant (Matrix c (kv_rows ws kv_heads d r wk)), bias = None\<rparr>"
    "column_parallel_with_shard quantized c (d * kv_heads) None False \<lparr>comm_rank = r, comm_world_size = ws\<rparr> sh fs (pp vb ''v_proj'')
      = Ok \<lparr>weight = Unquant (Matrix c (kv_rows ws kv_heads d r wv)), bias = None\<rparr>"
    using k v contains_matrix [OF assms(5)] contains_matrix [OF assms(6)]
    by (simp_all add: column_parallel_with_shard_def parallel_weight_def)
  have q: "column_parallel_new quantized c (d * heads) None False \<lparr>comm_rank = r, comm_world_size = ws\<rparr> fs (pp vb ''q_proj'')
      = Ok \<lparr>weight = Unquant (Matrix c (part (?p * d) r wq)), bias = None\<rparr>"
    unfolding p by (rule column_parallel_loads [OF _ assms(2)]) (use assms(4) p in simp)
  have o': "row_parallel_new quantized (d * heads) c None False \<lparr>comm_rank = r, comm_world_size = ws\<rparr> fs (pp vb ''o_proj'')
      = Ok \<lparr>weight = Unquant (Matrix (?p * d) (map (part (?p * d) r) wo)), bias = None\<rparr>"
    unfolding p by (rule row_parallel_loads [OF _ assms(2)]) (use assms(7) p in simp)
  show ?thesis
    using q o' kv sh pos n_kv_groups(1) [OF assms(1), of r] assms(3) [symmetric]
    by (simp add: attention_load_def checked_div_def device_attention_def kv_count_def Let_def)
qed

lemma rmap_column_forward:
  assumes "\<forall>x \<in> set xs. length x = c"
  shows "rmap (column_forward \<lparr>weight = Unquant (Matrix c rows), bias = None\<rparr>) xs = Ok (map (product rows) xs)"
  using assms by (intro rmap_Inr) simp

lemma device_q_heads:
  assumes "length wq = ws * (p * d)" and "r < ws"
  shows "split_heads p d (map (product (part (p * d) r wq)) xs)
    = Ok (map (\<lambda>j. map (\<lambda>x. part d (r * p + j) (product wq x)) xs) [0..<p])"
proof -
  have "split_heads p d (map (product (part (p * d) r wq)) xs)
    = Ok (map (\<lambda>j. map (\<lambda>x. part d j (product (part (p * d) r wq) x)) xs) [0..<p])"
    using length_part [OF assms] by (intro split_heads_map) simp
  moreover have "part d j (product (part (p * d) r wq) x) = part d (r * p + j) (product wq x)" if "j < p" for j x
    by (simp only: part_product [symmetric] part_part [OF that])
  ultimately show ?thesis by (simp cong: map_cong)
qed

lemma device_kv_heads:
  assumes "fits_group ws heads kv_heads" and "r < ws" and "length rows = d * kv_heads"
  shows "split_heads (kv_count ws kv_heads) d (map (product (kv_rows ws kv_heads d r rows)) xs)
    = Ok (map (\<lambda>i. map (\<lambda>x. part d (kv_first ws kv_heads r + i) (product rows x)) xs) [0..<kv_count ws kv_heads])"
proof -
  have "(kv_first ws kv_heads r + kv_count ws kv_heads) * d \<le> kv_heads * d"
    using kv_first_fits [OF assms(1,2)] by (rule mult_le_mono1)
  then have "length (kv_rows ws kv_heads d r rows) = kv_count ws kv_heads * d"
    using assms(3) by (simp add: mult.commute flip: diff_mult_distrib2)
  then have "split_heads (kv_count ws kv_heads) d (map (product (kv_rows ws kv_heads d r rows)) xs)
    = Ok (map (\<lambda>i. map (\<lambda>x. part d i (product (kv_rows ws kv_heads d r rows) x)) xs) [0..<kv_count ws kv_heads])"
    by (intro split_heads_map) simp
  moreover have "part d i (product (kv_rows ws kv_heads d r rows) x) = part d (kv_first ws kv_heads r + i) (product rows x)"
    if "i < kv_count ws kv_heads" for i x
    by (simp only: product_def slice_map [symmetric] part_slice [OF that])
  ultimately show ?thesis by (simp cong: map_cong)
qed

lemma device_repeat_kv:
  assumes "fits_group ws heads kv_heads"
  shows "repeat_kv (length xs) (heads div kv_heads div kv_copies ws kv_heads)
      (map (\<lambda>i. map (\<lambda>x. part d (kv_first ws kv_heads r + i) (product rows x)) xs) [0..<kv_count ws kv_heads])
    = Ok (map (\<lambda>j. map (\<lambda>x. part d ((r * (heads div ws) + j) div (heads div kv_heads)) (product rows x)) xs)
        [0..<heads div ws])"
proof -
  let ?n = "heads div kv_heads div kv_copies ws kv_heads"
  let ?kvs = "map (\<lambda>i. map (\<lambda>x. part d (kv_first ws kv_heads r + i) (product rows x)) xs) [0..<kv_count ws kv_heads]"
  have "repeat_kv (length xs) ?n ?kvs = Ok (map (\<lambda>j. ?kvs ! (j div ?n)) [0..<length ?kvs * ?n])"
    by (rule repeat_kv_heads) (auto simp: n_kv_groups(2) [OF assms])
  also have "length ?kvs * ?n = heads div ws" using n_kv_groups(3) [OF assms] by simp
  also have "map (\<lambda>j. ?kvs ! (j div ?n)) [0..<heads div ws]
    = map (\<lambda>j. map (\<lambda>x. part d ((r * (heads div ws) + j) div (heads div kv_heads)) (product rows x)) xs) [0..<heads div ws]"
  proof (rule map_cong [OF refl])
    fix j assume "j \<in> set [0..<heads div ws]"
    then have j: "j < heads div ws" by simp
    then have "j < kv_count ws kv_heads * ?n" using n_kv_groups(3) [OF assms] by simp
    then have "j div ?n < kv_count ws kv_heads" by (rule less_mult_imp_div_less)
    then show "?kvs ! (j div ?n)
      = map (\<lambda>x. part d ((r * (heads div ws) + j) div (heads div kv_heads)) (product rows x)) xs"
      using kv_head_of_device [OF assms j, of r] by simp
  qed
  finally show ?thesis .
qed

lemma device_attention_heads:
  assumes "fits_group ws heads kv_heads" and "r < ws" and "\<forall>x \<in> set xs. length x = c"
    and "length wq = d * heads" and "length wk = d * kv_heads" and "length wv = d * kv_heads"
  shows "attention_heads head (device_attention ws heads kv_heads d c wq wk wv wo r) xs
    = Ok (merge_heads (length xs)
        (map (\<lambda>j. whole_head head d (heads div kv_heads) wq wk wv xs (r * (heads div ws) + j)) [0..<heads div ws]))"
proof -
  have "length wq = ws * (heads div ws * d)"
    using assms(1,4) by (auto simp: fits_group_def)
  note q = device_q_heads [OF this assms(2)]
  note k = device_kv_heads [OF assms(1,2,5)] and v = device_kv_heads [OF assms(1,2,6)]
  show ?thesis
    by (simp add: attention_heads_def device_attention_def Let_def rmap_column_forward [OF assms(3)] q k v
      device_repeat_kv [OF assms(1)] whole_head_def zip_map_map zip_same_conv_map comp_def)
qed

lemma head_vectors:
  assumes "keeps_shape head d" and "length wq = d * heads" and "i < heads" and "t < length xs"
  shows "length (whole_head head d g wq wk wv xs i ! t) = d"
proof -
  have "length (product wq x) = heads * d" for x using assms(2) by (simp add: mult.commute)
  from length_part [OF this assms(3)]
  have "\<forall>y \<in> set (map (\<lambda>x. part d i (product wq x)) xs). length y = d" by simp
  then have "length (whole_head head d g wq wk wv xs i) = length xs"
    "\<forall>y \<in> set (whole_head head d g wq wk wv xs i). length y = d"
    using assms(1) unfolding keeps_shape_def whole_head_def by (metis length_map)+
  then show ?thesis using assms(4) by simp
qed

text \<open>What a device feeds its output projection is its part of the merged heads.\<close>

lemma device_merged_heads:
  assumes "keeps_shape head d" and "fits_group ws heads kv_heads" and "length wq = d * heads"
    and "r < ws" and "t < length xs"
  shows "merge_heads (length xs)
      (map (\<lambda>j. whole_head head d g wq wk wv xs (r * (heads div ws) + j)) [0..<heads div ws]) ! t
    = part (heads div ws * d) r (concat (map (\<lambda>i. whole_head head d g wq wk wv xs i ! t) [0..<heads]))"
proof -
  let ?W = "\<lambda>i. whole_head head d g wq wk wv xs i ! t"
  have p: "heads = ws * (heads div ws)" using assms(2) by (simp add: fits_group_def)
  have "part (heads div ws * d) r (concat (map ?W [0..<heads])) = concat (part (heads div ws) r (map ?W [0..<heads]))"
    using head_vectors [OF assms(1,3) _ assms(5)] p assms(4) by (intro part_concat [of _ _ ws]) auto
  also have "part (heads div ws) r (map ?W [0..<heads]) = map ?W (map (\<lambda>j. r * (heads div ws) + j) [0..<heads div ws])"
    using part_upt [OF assms(4), of "heads div ws"] p by (simp add: part_map)
  finally show ?thesis using assms(5) by (simp add: merge_heads_def comp_def)
qed

lemma attention_on_group:
  assumes "sums_up all_reduce" and "keeps_shape head d" and "fits_group ws heads kv_heads" and "d = c div heads"
    and "has_matrix fs (pp (pp vb ''q_proj'') ''weight'') (d * heads) c wq"
    and "has_matrix fs (pp (pp vb ''k_proj'') ''weight'') (d * kv_heads) c wk"
    and "has_matrix fs (pp (pp vb ''v_proj'') ''weight'') (d * kv_heads) c wv"
    and "has_matrix fs (pp (pp vb ''o_proj'') ''weight'') c (d * heads) wo"
    and "\<forall>x \<in> set xs. length x = c"
  shows "attention_run all_reduce quantized head fs vb
      \<lparr>hidden_size = c, num_attention_heads = heads, num_key_value_heads = kv_heads\<rparr> ws xs
    = Ok (map (\<lambda>t. replicate ws (product wo
        (concat (map (\<lambda>i. whole_head head d (heads div kv_heads) wq wk wv xs i ! t) [0..<heads])))) [0..<length xs])"
proof -
  let ?ls = "map (device_attention ws heads kv_heads d c wq wk wv wo) [0..<ws]"
  let ?Y = "\<lambda>t. concat (map (\<lambda>i. whole_head head d (heads div kv_heads) wq wk wv xs i ! t) [0..<heads])"
  let ?b = "heads div ws * d"
  let ?yss = "map (\<lambda>r. merge_heads (length xs) (map (\<lambda>j. whole_head head d (heads div kv_heads) wq wk wv xs
        (r * (heads div ws) + j)) [0..<heads div ws])) [0..<ws]"
  have pos: "0 < ws" and b: "d * heads = ws * ?b" using assms(3) by (auto simp: fits_group_def)
  have lengths: "length wq = d * heads" "length wk = d * kv_heads" "length wv = d * kv_heads"
    using assms(5-7) by (simp_all add: has_matrix_def is_matrix_def)
  have wo: "is_matrix c (ws * ?b) wo" using assms(8) unfolding b by (simp add: has_matrix_def)
  have "rmap (\<lambda>r. attention_load quantized fs vb \<lparr>hidden_size = c, num_attention_heads = heads,
      num_key_value_heads = kv_heads\<rparr> None \<lparr>comm_rank = r, comm_world_size = ws\<rparr>) [0..<ws] = Ok ?ls"
    using attention_loads [OF assms(3) _ assms(4-8)] by (intro rmap_Inr) simp
  moreover have "rmap (\<lambda>l. attention_heads head l xs) ?ls = Ok ?yss"
    unfolding rmap_map using device_attention_heads [OF assms(3) _ assms(9) lengths] by (intro rmap_Inr) simp
  moreover have "row_forward all_reduce (map o_proj ?ls) (map (\<lambda>ys. ys ! t) ?yss) = Ok (replicate ws (product wo (?Y t)))"
    if t: "t < length xs" for t
  proof -
    have "map (\<lambda>ys. ys ! t) ?yss = map (\<lambda>r. part ?b r (?Y t)) [0..<ws]"
      using device_merged_heads [OF assms(2,3) lengths(1) _ t] by simp
    moreover have "length (?Y t) = length (map (\<lambda>i. whole_head head d (heads div kv_heads) wq wk wv xs i ! t) [0..<heads]) * d"
      using head_vectors [OF assms(2) lengths(1) _ t] by (intro length_concat_const) auto
    then have "length (?Y t) = ws * ?b" using b by (simp add: mult.commute)
    moreover have "map o_proj ?ls = map (\<lambda>r. \<lparr>weight = Unquant (Matrix ?b (map (part ?b r) wo)), bias = None\<rparr>) [0..<ws]"
      by (simp add: device_attention_def Let_def)
    ultimately show ?thesis by (simp only: row_forward_parts [OF assms(1) wo _ pos])
  qed
  then have "rmap (\<lambda>t. row_forward all_reduce (map o_proj ?ls) (map (\<lambda>ys. ys ! t) ?yss)) [0..<length xs]
    = Ok (map (\<lambda>t. replicate ws (product wo (?Y t))) [0..<length xs])"
    by (intro rmap_Inr) simp
  ultimately show ?thesis by (simp add: attention_run_def attention_forward_def)
qed

text \<open>
  C13. Tensor parallelism computes the attention: in exact arithmetic, for a group whose size divides
  the number of attention heads and divides, or is a multiple of, the number of key-value heads,
  every device ends with the vectors that one device computes from the whole matrices. In
  particular every attention head of every device meets the key-value head it belongs to, also
  where a key-value head is held by several devices.
\<close>

theorem parallel_attention_computes_the_attention:
  assumes "sums_up all_reduce" and "keeps_shape head d" and "fits_group ws heads kv_heads" and "d = c div heads"
    and "has_matrix fs (pp (pp vb ''q_proj'') ''weight'') (d * heads) c wq"
    and "has_matrix fs (pp (pp vb ''k_proj'') ''weight'') (d * kv_heads) c wk"
    and "has_matrix fs (pp (pp vb ''v_proj'') ''weight'') (d * kv_heads) c wv"
    and "has_matrix fs (pp (pp vb ''o_proj'') ''weight'') c (d * heads) wo"
    and "\<forall>x \<in> set xs. length x = c"
    and "cfg = \<lparr>hidden_size = c, num_attention_heads = heads, num_key_value_heads = kv_heads\<rparr>"
  shows "\<exists>ys. attention_run all_reduce quantized head fs vb cfg 1 xs = Ok (map (\<lambda>y. [y]) ys)
    \<and> attention_run all_reduce quantized head fs vb cfg ws xs = Ok (map (replicate ws) ys)
    \<and> ys = map (\<lambda>t. product wo (concat (map (\<lambda>i. whole_head head d (heads div kv_heads) wq wk wv xs i ! t) [0..<heads])))
        [0..<length xs]"
proof -
  have one: "fits_group 1 heads kv_heads" using assms(3) by (simp add: fits_group_def)
  show ?thesis
    using attention_on_group [OF assms(1,2) one assms(4-9)] attention_on_group [OF assms(1-9)] assms(10)
    by (simp add: comp_def)
qed

text \<open>With more devices than key-value heads that are no multiple of them, the last device cannot load its part.\<close>

theorem devices_must_be_a_multiple:
  assumes "kv_heads < ws" and "0 < kv_heads" and "\<not> kv_heads dvd ws" and "0 < d"
    and "has_matrix fs path (d * kv_heads) c rows"
  shows "rbind (compute_kv_shard kv_heads d \<lparr>comm_rank = ws - 1, comm_world_size = ws\<rparr>)
      (get_sharded fs [d * kv_heads, c] path) = Err (Bail ''Cannot slice tensor'')"
proof -
  let ?m = "ws div kv_heads"
  have "0 < ws mod kv_heads" using assms(3) by (simp add: dvd_eq_mod_eq_0)
  then have "kv_heads * ?m \<le> ws - 1" using mult_div_mod_eq [of kv_heads ws] by linarith
  then have first: "kv_heads \<le> (ws - 1) div ?m"
    using assms(1,2) by (simp add: less_eq_div_iff_mult_less_eq div_greater_zero_iff)
  then have "kv_heads * d < (ws - 1) div ?m * d + d"
    using assms(4) mult_le_mono1 [OF first, of d] by linarith
  moreover have "0 < ?m" using assms(1,2) by (simp add: div_greater_zero_iff)
  ultimately show ?thesis using assms
    by (auto simp: compute_kv_shard_def checked_div_def get_sharded_def find_tensor_def has_matrix_def is_matrix_def
      div_eq_0_iff mult.commute [of d])
qed

section \<open>Examples\<close>

definition add_all :: "int list list \<Rightarrow> int list" where
  "add_all xss = map (\<lambda>i. \<Sum>xs\<leftarrow>xss. xs ! i) [0..<length (hd xss)]"

lemma sums_up_add_all [simp]: "sums_up add_all"
  unfolding sums_up_def add_all_def by (metis hd_in_set)

definition small_head :: "int list list \<Rightarrow> int list list \<Rightarrow> int list list \<Rightarrow> int list list" where
  "small_head q k v = map (map (\<lambda>x. x + sum_list (concat k) * sum_list (concat v))) q"

lemma keeps_shape_small_head [simp]: "keeps_shape small_head d"
  by (simp add: keeps_shape_def small_head_def)

definition small_files :: "int files" where
  "small_files = \<lparr>tensors_of = map_of
     [(''gate_proj.weight'', Matrix 2 [[1, 2], [3, 4]]), (''up_proj.weight'', Matrix 2 [[1, 0], [0, 1]]),
      (''down_proj.weight'', Matrix 2 [[1, 1], [2, -1]]),
      (''q_proj.weight'', Matrix 2 [[1, 2], [3, 4]]), (''k_proj.weight'', Matrix 2 [[5, 6]]),
      (''v_proj.weight'', Matrix 2 [[7, 8]]), (''o_proj.weight'', Matrix 2 [[1, -1], [2, 3]])],
     make_dummy = (\<lambda>_. False)\<rparr>"

lemma small_files_matrices:
  "has_matrix small_files ''gate_proj.weight'' 2 2 [[1, 2], [3, 4]]"
  "has_matrix small_files ''up_proj.weight'' 2 2 [[1, 0], [0, 1]]"
  "has_matrix small_files ''down_proj.weight'' 2 2 [[1, 1], [2, -1]]"
  "has_matrix small_files ''q_proj.weight'' 2 2 [[1, 2], [3, 4]]"
  "has_matrix small_files ''k_proj.weight'' 1 2 [[5, 6]]"
  "has_matrix small_files ''v_proj.weight'' 1 2 [[7, 8]]"
  "has_matrix small_files ''o_proj.weight'' 2 2 [[1, -1], [2, 3]]"
  by (simp_all add: has_matrix_def is_matrix_def small_files_def)

theorem parallel_mlp_computes_the_mlp_witness:
  "mlp_run add_all (\<lambda>_ _. Ok Dummy) (*) small_files '''' 2 2 2 [5, 6]
     = Ok (replicate 2 (product [[1, 1], [2, -1]] (map2 (*) (product [[1, 2], [3, 4]] [5, 6]) (product [[1, 0], [0, 1]] [5, 6]))))"
  using parallel_mlp_computes_the_mlp [of add_all 2 small_files "''''" 1 2 "[[1, 2], [3, 4]]" "[[1, 0], [0, 1]]"
      "[[1, 1], [2, -1]]" "[5, 6]" "\<lambda>_ _. Ok Dummy" "(*)"] small_files_matrices
  by (simp add: pp_def)

theorem parallel_attention_computes_the_attention_witness:
  "\<exists>ys. attention_run add_all (\<lambda>_ _. Ok Dummy) small_head small_files ''''
       \<lparr>hidden_size = 2, num_attention_heads = 2, num_key_value_heads = 1\<rparr> 1 [[1, 2], [3, 4]] = Ok (map (\<lambda>y. [y]) ys)
    \<and> attention_run add_all (\<lambda>_ _. Ok Dummy) small_head small_files ''''
       \<lparr>hidden_size = 2, num_attention_heads = 2, num_key_value_heads = 1\<rparr> 2 [[1, 2], [3, 4]] = Ok (map (replicate 2) ys)"
proof -
  have d: "(1 :: nat) = 2 div 2" by simp
  have f: "fits_group 2 2 1" by (simp add: fits_group_def)
  have m: "has_matrix small_files (pp (pp '''' ''q_proj'') ''weight'') (1 * 2) 2 [[1, 2], [3, 4]]"
    "has_matrix small_files (pp (pp '''' ''k_proj'') ''weight'') (1 * 1) 2 [[5, 6]]"
    "has_matrix small_files (pp (pp '''' ''v_proj'') ''weight'') (1 * 1) 2 [[7, 8]]"
    "has_matrix small_files (pp (pp '''' ''o_proj'') ''weight'') 2 (1 * 2) [[1, -1], [2, 3]]"
    using small_files_matrices by (simp_all add: pp_def)
  have xs: "\<forall>x \<in> set [[1, 2], [3, 4 :: int]]. length x = 2" by simp
  from parallel_attention_computes_the_attention [OF sums_up_add_all keeps_shape_small_head f d m xs refl,
      of "\<lambda>_ _. Ok Dummy"]
  show ?thesis by blast
qed

end
