(* ===== verification/Attention.thy ===== *)
theory Attention
  imports Complex_Main Tensor_Parallel
begin

text \<open>
  The attention without kernels (\<^verbatim>\<open>naive_sdpa\<close> of \<^verbatim>\<open>mistralrs-core/src/attention.rs\<close>): scores, mask,
  soft cap and softmax of one head, on its three paths.

  Elements are of a field; the hyperbolic tangent, the softmax of a row and the fused operation that
  scales, masks and takes the softmax are parameters. Rows are the queries, columns the keys.
\<close>

section \<open>The operation\<close>

record 'a float_ops =
  f_tanh :: "'a \<Rightarrow> 'a"
  f_softmax :: "'a list \<Rightarrow> 'a list"
  f_attn_softmax :: "'a list list \<Rightarrow> 'a list list \<Rightarrow> 'a \<Rightarrow> 'a list list"

record 'a sdpa_params =
  softcap :: "'a option"
  softmax_scale :: 'a

text \<open>A mask is its rank and its entries for the head.\<close>

type_synonym 'a attn_mask = "nat \<times> 'a list list"

definition map_rows :: "('a \<Rightarrow> 'b) \<Rightarrow> 'a list list \<Rightarrow> 'b list list" where
  "map_rows f = map (map f)"

definition scores :: "'a list list \<Rightarrow> 'a list list \<Rightarrow> 'a::semiring_0 list list" where
  "scores q k = map (\<lambda>x. map (dot x) k) q"

definition weighted :: "nat \<Rightarrow> 'a list list \<Rightarrow> 'a list list \<Rightarrow> 'a::semiring_0 list list" where
  "weighted d att v = map (\<lambda>row. map (\<lambda>c. dot row (map (\<lambda>y. y ! c) v)) [0..<d]) att"

definition cap :: "'a::field float_ops \<Rightarrow> 'a \<Rightarrow> 'a list list \<Rightarrow> 'a list list" where
  "cap ops c att = map_rows (\<lambda>x. x * c) (map_rows (f_tanh ops) (map_rows (\<lambda>x. x / c) att))"

definition naive_sdpa :: "bool \<Rightarrow> 'a::field float_ops \<Rightarrow> 'a sdpa_params \<Rightarrow> nat \<Rightarrow> 'a attn_mask option
    \<Rightarrow> 'a list list \<Rightarrow> 'a list list \<Rightarrow> 'a list list \<Rightarrow> 'a list list" where
  "naive_sdpa supports_attn_softmax ops params d attn_mask q k v =
     (case attn_mask of
        Some (rank, m) \<Rightarrow>
          if (rank = 2 \<or> rank = 3) \<and> supports_attn_softmax
          then let att = scores q k;
                   att = f_attn_softmax ops att m
                     (softmax_scale params / (case softcap params of None \<Rightarrow> 1 | Some c \<Rightarrow> c));
                   att = (case softcap params of None \<Rightarrow> att
                          | Some c \<Rightarrow> map_rows (\<lambda>x. x * c) (map_rows (f_tanh ops) att))
               in weighted d att v
          else let att = map_rows (\<lambda>x. x * softmax_scale params) (scores q k);
                   att = (case softcap params of None \<Rightarrow> att | Some c \<Rightarrow> cap ops c att);
                   att = map2 (map2 (+)) att m
               in weighted d (map (f_softmax ops) att) v
      | None \<Rightarrow>
          let att = map_rows (\<lambda>x. x * softmax_scale params) (scores q k);
              att = (case softcap params of None \<Rightarrow> att | Some c \<Rightarrow> cap ops c att)
          in weighted d (map (f_softmax ops) att) v)"

section \<open>The three paths\<close>

text \<open>What the fused operation is documented to do, and the softmax of a row with one entry.\<close>

definition fused_law :: "'a::field float_ops \<Rightarrow> bool" where
  "fused_law ops \<longleftrightarrow> (\<forall>att m s. length m = length att \<longrightarrow>
     f_attn_softmax ops att m s = map2 (\<lambda>row ms. f_softmax ops (map2 (\<lambda>x y. x * s + y) row ms)) att m)"

definition fits_mask :: "'a list list \<Rightarrow> 'a list list \<Rightarrow> 'a list list \<Rightarrow> bool" where
  "fits_mask m q k \<longleftrightarrow> length m = length q \<and> (\<forall>row \<in> set m. length row = length k)"

lemma length_scores [simp]: "length (scores q k) = length q"
  by (simp add: scores_def)

lemma map2_map1: "map2 f (map g xs) ys = map2 (\<lambda>x y. f (g x) y) xs ys"
  by (simp add: zip_map1 split_def comp_def)

lemma fused_is_masked:
  assumes "fused_law ops" and "length m = length q"
  shows "f_attn_softmax ops (scores q k) m s
    = map (f_softmax ops) (map2 (map2 (+)) (map_rows (\<lambda>x. x * s) (scores q k)) m)"
proof -
  have "f_attn_softmax ops (scores q k) m s
    = map2 (\<lambda>row ms. f_softmax ops (map2 (\<lambda>x y. x * s + y) row ms)) (scores q k) m"
    using assms by (simp add: fused_law_def)
  also have "\<dots> = map (f_softmax ops) (map2 (map2 (+)) (map_rows (\<lambda>x. x * s) (scores q k)) m)"
    using assms(2) by (intro nth_equalityI) (simp_all add: map_rows_def map2_map1)
  finally show ?thesis .
qed

lemma add_zeros:
  assumes "length m = length att" and "\<forall>row \<in> set att. length row = n" and "\<forall>row \<in> set m. row = replicate n (0 :: 'a::field)"
  shows "map2 (map2 (+)) att m = att"
proof (rule nth_equalityI)
  fix i assume "i < length (map2 (map2 (+)) att m)"
  then have i: "i < length att" "m ! i = replicate n 0" "length (att ! i) = n" using assms by auto
  then have "map2 (+) (att ! i) (replicate n 0) = att ! i" by (intro nth_equalityI) simp_all
  then show "map2 (map2 (+)) att m ! i = att ! i" using i assms(1) by simp
qed (simp add: assms(1))

text \<open>
  Without a soft cap the three paths of the attention compute the same: for a mask of rank 2 or 3
  that fits the queries and keys, the fused path gives what the other path gives, and a mask that
  hides nothing gives what no mask gives.
\<close>

theorem paths_agree_without_softcap:
  assumes "fused_law ops" and "softcap params = None" and "fits_mask m q k"
  shows "naive_sdpa True ops params d (Some (rank, m)) q k v = naive_sdpa False ops params d (Some (rank, m)) q k v
    \<and> ((\<forall>row \<in> set m. row = replicate (length k) 0)
         \<longrightarrow> naive_sdpa supports ops params d (Some (rank, m)) q k v = naive_sdpa supports ops params d None q k v)"
proof -
  have len: "length m = length q" using assms(3) by (simp add: fits_mask_def)
  have fused: "naive_sdpa sup ops params d (Some (rank, m)) q k v
    = weighted d (map (f_softmax ops) (map2 (map2 (+)) (map_rows (\<lambda>x. x * softmax_scale params) (scores q k)) m)) v" for sup
    using assms(2) fused_is_masked [OF assms(1) len] by (simp add: naive_sdpa_def Let_def)
  have "map2 (map2 (+)) (map_rows (\<lambda>x. x * softmax_scale params) (scores q k)) m
    = map_rows (\<lambda>x. x * softmax_scale params) (scores q k)" if "\<forall>row \<in> set m. row = replicate (length k) 0"
    using that len by (intro add_zeros) (auto simp: map_rows_def scores_def)
  moreover have "naive_sdpa sup ops params d None q k v
    = weighted d (map (f_softmax ops) (map_rows (\<lambda>x. x * softmax_scale params) (scores q k))) v" for sup
    using assms(2) by (simp add: naive_sdpa_def Let_def)
  ultimately show ?thesis unfolding fused by metis
qed

text \<open>
  With a soft cap the fused path caps the probabilities instead of the scores: where one key is
  given, the other paths return its value, and the fused path, taken for the rank-2 masks the
  engine makes, returns the value times the cap and the hyperbolic tangent of 1.
\<close>

theorem fused_path_caps_probabilities:
  assumes "fused_law ops" and "\<And>x. f_softmax ops [x] = [1]" and "softcap params = Some c" and "length y = d"
  shows "naive_sdpa True ops params d (Some (2, [[z]])) [x] [w] [y] = [map (\<lambda>e. f_tanh ops 1 * c * e) y]
    \<and> naive_sdpa False ops params d (Some (2, [[z]])) [x] [w] [y] = [y]
    \<and> naive_sdpa True ops params d None [x] [w] [y] = [y]"
proof -
  have "f_attn_softmax ops (scores [x] [w]) [[z]] s = [[1]]" for s
    using assms(1,2) by (simp add: fused_law_def scores_def)
  moreover have "weighted d [[a]] [y] = [map (\<lambda>e. a * e) y]" for a
    using assms(4) by (auto simp: weighted_def dot_def intro!: nth_equalityI)
  ultimately show ?thesis
    using assms(2,3) by (simp add: naive_sdpa_def Let_def map_rows_def cap_def scores_def)
qed

section \<open>Examples\<close>

definition real_softmax :: "real list \<Rightarrow> real list" where
  "real_softmax xs = map (\<lambda>x. exp x / (\<Sum>y\<leftarrow>xs. exp y)) xs"

definition real_ops :: "real float_ops" where
  "real_ops = \<lparr>f_tanh = tanh, f_softmax = real_softmax,
     f_attn_softmax = (\<lambda>att m s. map2 (\<lambda>row ms. real_softmax (map2 (\<lambda>x y. x * s + y) row ms)) att m)\<rparr>"

lemma fused_law_real_ops: "fused_law real_ops"
  by (simp add: fused_law_def real_ops_def)

theorem paths_agree_without_softcap_witness:
  "naive_sdpa True real_ops \<lparr>softcap = None, softmax_scale = 2\<rparr> 1 (Some (2, [[0, -5], [0, 0]])) [[1], [2]] [[3], [4]] [[5], [6]]
     = naive_sdpa False real_ops \<lparr>softcap = None, softmax_scale = 2\<rparr> 1 (Some (2, [[0, -5], [0, 0]])) [[1], [2]] [[3], [4]] [[5], [6]]"
  using paths_agree_without_softcap [OF fused_law_real_ops, of "\<lparr>softcap = None, softmax_scale = 2\<rparr>"
      "[[0, -5], [0, 0]]" "[[1], [2]]" "[[3], [4]]"]
  by (simp add: fits_mask_def)

theorem fused_path_caps_probabilities_witness:
  "naive_sdpa True real_ops \<lparr>softcap = Some 50, softmax_scale = 1\<rparr> 1 (Some (2, [[0]])) [[1]] [[2]] [[3]] = [[tanh 1 * 50 * 3]]
   \<and> naive_sdpa False real_ops \<lparr>softcap = Some 50, softmax_scale = 1\<rparr> 1 (Some (2, [[0]])) [[1]] [[2]] [[3]] = [[3]]"
proof -
  have "f_softmax real_ops [x] = [1]" for x by (simp add: real_ops_def real_softmax_def)
  from fused_path_caps_probabilities [OF fused_law_real_ops this, of "\<lparr>softcap = Some 50, softmax_scale = 1\<rparr>" 50 "[3]" 1 0 "[1]" "[2]"]
  show ?thesis by (simp add: real_ops_def)
qed

end
