(* ===== verification/Speculative.thy ===== *)
theory Speculative
  imports Prelude
begin

text \<open>
  Speculative decoding (\<^verbatim>\<open>SpeculativePipeline::step\<close> of
  \<^verbatim>\<open>mistralrs-core/src/pipeline/speculative.rs\<close>): a draft model proposes \<open>gamma\<close> tokens, the target
  model is run once over them, and the proposals are accepted up to the first that the target
  does not sample.

  The models are parameters: \<open>draft\<close> and \<open>target\<close> give the logits after a context. A cache is the
  list of the tokens it was filled with. \<open>sample\<close> takes a token from logits and the tokens of the
  sequence, which the penalties of the sampler read. Sampling is deterministic.
\<close>

section \<open>Running a model\<close>

text \<open>\<^verbatim>\<open>forward_inputs\<close>: the logits after each token of the input, and the cache it leaves.\<close>

definition forward :: "(nat list \<Rightarrow> 'l) \<Rightarrow> nat list \<Rightarrow> nat list \<Rightarrow> 'l list \<times> nat list" where
  "forward model cache input = (map (\<lambda>j. model (cache @ take (j + 1) input)) [0..<length input], cache @ input)"

text \<open>\<^verbatim>\<open>process_inputs\<close>: all tokens of a prompt, else the last one; how many logits are wanted.\<close>

definition model_input :: "bool \<Rightarrow> nat list \<Rightarrow> nat list res" where
  "model_input is_prompt toks =
     (if is_prompt then Ok toks else if toks = [] then Err (Panic ''unwrap on None'') else Ok [last toks])"

definition last_logits :: "nat \<Rightarrow> 'l list \<Rightarrow> 'l list res" where
  "last_logits n ls = rbind (usub (length ls) n) (\<lambda>k. Ok (drop k ls))"

section \<open>The draft\<close>

text \<open>
  The tokens of a draft are added to the sequence as temporary ones: the state is the tokens, the
  cache of the draft and the samples.
\<close>

definition draft_token :: "(nat list \<Rightarrow> 'l) \<Rightarrow> ('l \<Rightarrow> nat list \<Rightarrow> nat) \<Rightarrow> bool \<Rightarrow> nat
    \<Rightarrow> nat list \<times> nat list \<times> nat list \<Rightarrow> (nat list \<times> nat list \<times> nat list) res" where
  "draft_token draft sample is_prompt i = (\<lambda>(toks, cache, samples).
     rbind (model_input (is_prompt \<and> i = 0) toks) (\<lambda>input.
     let (ls, cache) = forward draft cache input in
     rbind (last_logits 1 ls) (\<lambda>ls.
     rbind (vget ls 0) (\<lambda>l.
     let t = sample l toks in Ok (toks @ [t], cache, samples @ [t])))))"

definition draft_tokens :: "(nat list \<Rightarrow> 'l) \<Rightarrow> ('l \<Rightarrow> nat list \<Rightarrow> nat) \<Rightarrow> bool \<Rightarrow> nat \<Rightarrow> nat list \<Rightarrow> nat list
    \<Rightarrow> (nat list \<times> nat list) res" where
  "draft_tokens draft sample is_prompt gamma toks cache =
     rbind (rfold (draft_token draft sample is_prompt) [0..<gamma] (toks, cache, [])) (\<lambda>(toks, cache, samples).
     rbind (usub (length toks) gamma) (\<lambda>_. Ok (samples, cache)))"

section \<open>The target\<close>

definition draft_prefill_tokens :: "bool \<Rightarrow> nat list \<Rightarrow> nat list \<Rightarrow> nat list res" where
  "draft_prefill_tokens is_prompt toks samples =
     rbind (model_input is_prompt toks) (\<lambda>start. Ok (start @ butlast samples))"

definition target_tokens :: "(nat list \<Rightarrow> 'm) \<Rightarrow> ('m \<Rightarrow> nat list \<Rightarrow> nat) \<Rightarrow> nat \<Rightarrow> nat list \<Rightarrow> nat list \<Rightarrow> nat list
    \<Rightarrow> (nat list \<times> nat list) res" where
  "target_tokens target sample gamma toks input cache =
     (let (ls, cache) = forward target cache input in
      rbind (last_logits gamma ls) (\<lambda>ls. Ok (map (\<lambda>l. sample l toks) ls, cache)))"

fun accept :: "nat list \<Rightarrow> nat list \<Rightarrow> nat list" where
  "accept (t # ts) (d # ds) = t # (if d \<noteq> t then [] else accept ts ds)"
| "accept _ _ = []"

definition set_len :: "nat \<Rightarrow> nat list \<Rightarrow> nat list res" where
  "set_len n_not_accepted cache = rbind (usub (length cache) n_not_accepted) (\<lambda>n. Ok (take n cache))"

text \<open>A step on the tokens and the two caches of the sequence; its tokens are added.\<close>

record spec_seq =
  sq_toks :: "nat list"
  sq_draft_cache :: "nat list"
  sq_target_cache :: "nat list"

definition spec_step :: "(nat list \<Rightarrow> 'l) \<Rightarrow> (nat list \<Rightarrow> 'm) \<Rightarrow> ('l \<Rightarrow> nat list \<Rightarrow> nat) \<Rightarrow> ('m \<Rightarrow> nat list \<Rightarrow> nat)
    \<Rightarrow> nat \<Rightarrow> bool \<Rightarrow> spec_seq \<Rightarrow> spec_seq res" where
  "spec_step draft target dsample tsample gamma is_prompt s =
     (let s = (if is_prompt then s\<lparr>sq_draft_cache := [], sq_target_cache := []\<rparr> else s) in
     rbind (draft_tokens draft dsample is_prompt gamma (sq_toks s) (sq_draft_cache s)) (\<lambda>(drafts, dcache).
     rbind (draft_prefill_tokens is_prompt (sq_toks s) drafts) (\<lambda>input.
     rbind (target_tokens target tsample gamma (sq_toks s) input (sq_target_cache s)) (\<lambda>(samples, tcache).
     let accepted = accept samples drafts in
     rbind (usub gamma (length accepted)) (\<lambda>n_not_accepted.
     rbind (set_len n_not_accepted dcache) (\<lambda>dcache.
     rbind (set_len n_not_accepted tcache) (\<lambda>tcache.
     Ok \<lparr>sq_toks = sq_toks s @ accepted, sq_draft_cache = dcache, sq_target_cache = tcache\<rparr>)))))))"

text \<open>The prompt and then steps without one.\<close>

fun spec_steps :: "(nat list \<Rightarrow> 'l) \<Rightarrow> (nat list \<Rightarrow> 'm) \<Rightarrow> ('l \<Rightarrow> nat list \<Rightarrow> nat) \<Rightarrow> ('m \<Rightarrow> nat list \<Rightarrow> nat)
    \<Rightarrow> nat \<Rightarrow> nat \<Rightarrow> spec_seq \<Rightarrow> spec_seq res" where
  "spec_steps draft target dsample tsample gamma 0 s = Ok s"
| "spec_steps draft target dsample tsample gamma (Suc n) s =
     rbind (spec_steps draft target dsample tsample gamma n s) (spec_step draft target dsample tsample gamma (n = 0))"

section \<open>What a step accepts\<close>

text \<open>The target decoding on its own, one token at a time.\<close>

fun decode :: "(nat list \<Rightarrow> 'm) \<Rightarrow> ('m \<Rightarrow> nat) \<Rightarrow> nat \<Rightarrow> nat list \<Rightarrow> nat list" where
  "decode target pick 0 toks = toks"
| "decode target pick (Suc n) toks = decode target pick n (toks @ [pick (target toks)])"

lemma decode_add: "decode target pick (m + n) toks = decode target pick n (decode target pick m toks)"
  by (induction m arbitrary: toks) simp_all

lemma length_decode [simp]: "length (decode target pick n toks) = length toks + n"
  by (induction n arbitrary: toks) simp_all

lemma accept_length: "length (accept ts ds) \<le> length ds"
  by (induction ts ds rule: accept.induct) simp_all

text \<open>What is accepted is a prefix of the target samples over which the drafts agree, but for the last.\<close>

lemma accept_prefix:
  "length ts = length ds \<Longrightarrow> accept ts ds = take (length (accept ts ds)) ts
    \<and> butlast (accept ts ds) = take (length (accept ts ds) - 1) ds
    \<and> (ds \<noteq> [] \<longrightarrow> accept ts ds \<noteq> [])"
proof (induction ts ds rule: accept.induct)
  case (1 t ts d ds)
  show ?case
  proof (cases "d = t")
    case True
    with 1 have "accept ts ds = take (length (accept ts ds)) ts"
      "butlast (accept ts ds) = take (length (accept ts ds) - 1) ds" "ds \<noteq> [] \<longrightarrow> accept ts ds \<noteq> []" by simp_all
    with True 1(2) show ?thesis by (cases "accept ts ds"; cases ds) auto
  qed simp
qed auto

definition filled :: "bool \<Rightarrow> nat list \<Rightarrow> nat list" where
  "filled is_prompt toks = (if is_prompt then [] else butlast toks)"

lemma filled_input: "toks \<noteq> [] \<Longrightarrow> model_input is_prompt toks = Ok (drop (length (filled is_prompt toks)) toks)"
  by (cases toks rule: rev_cases) (auto simp: model_input_def filled_def)

lemma filled_prefix: "toks \<noteq> [] \<Longrightarrow> filled is_prompt toks @ drop (length (filled is_prompt toks)) toks = toks"
  by (cases toks rule: rev_cases) (auto simp: filled_def)

lemma forward_last:
  assumes "input \<noteq> []" and "cache @ input = toks"
  shows "rbind (last_logits 1 (fst (forward model cache input))) (\<lambda>ls. vget ls 0) = Ok (model toks)"
    and "snd (forward model cache input) = toks"
proof -
  obtain n where n: "length input = Suc n" using assms(1) by (cases input) auto
  then have all: "cache @ take (Suc n) input = toks" using assms(2) by simp
  have "drop n (map (\<lambda>j. model (cache @ take (j + 1) input)) [0..<Suc n]) = [model toks]"
    using all by simp
  then show "rbind (last_logits 1 (fst (forward model cache input))) (\<lambda>ls. vget ls 0) = Ok (model toks)"
    by (simp add: forward_def last_logits_def vget_def n del: upt_Suc)
  show "snd (forward model cache input) = toks" using assms(2) by (simp add: forward_def)
qed

lemma draft_token_run:
  assumes "toks \<noteq> []" and "cache = filled (is_prompt \<and> i = 0) toks"
  shows "draft_token draft sample is_prompt i (toks, cache, samples)
    = Ok (toks @ [sample (draft toks) toks], toks, samples @ [sample (draft toks) toks])"
proof -
  let ?input = "drop (length cache) toks"
  have "length cache < length toks" using assms by (auto simp: filled_def)
  then have input: "?input \<noteq> []" by simp
  have "cache @ ?input = toks" using filled_prefix [OF assms(1)] assms(2) by simp
  note fw = forward_last [OF input this, of draft]
  then obtain ls where ls: "forward draft cache ?input = (ls, toks)" by (cases "forward draft cache ?input") simp
  with fw(1) obtain k where k: "last_logits 1 ls = Ok k" "vget k 0 = Ok (draft toks)"
    by (cases "last_logits 1 ls") auto
  have "model_input (is_prompt \<and> i = 0) toks = Ok ?input" using filled_input [OF assms(1)] assms(2) by simp
  then show ?thesis using k by (simp add: draft_token_def ls Let_def)
qed

lemma draft_loop_run:
  assumes "toks \<noteq> []"
  shows "\<exists>samples. length samples = n \<and> rfold (draft_token draft sample is_prompt) [0..<n] (toks, filled is_prompt toks, [])
    = Ok (toks @ samples, if n = 0 then filled is_prompt toks else butlast (toks @ samples), samples)"
proof (induction n)
  case 0
  then show ?case by simp
next
  case (Suc n)
  then obtain samples where s: "length samples = n"
    "rfold (draft_token draft sample is_prompt) [0..<n] (toks, filled is_prompt toks, [])
      = Ok (toks @ samples, if n = 0 then filled is_prompt toks else butlast (toks @ samples), samples)" by blast
  let ?t = "sample (draft (toks @ samples)) (toks @ samples)"
  let ?cache = "if n = 0 then filled is_prompt toks else butlast (toks @ samples)"
  have "?cache = filled (is_prompt \<and> n = 0) (toks @ samples)" using s(1) by (cases "n = 0") (simp_all add: filled_def)
  from draft_token_run [OF _ this, of draft sample samples] have step: "draft_token draft sample is_prompt n (toks @ samples, ?cache, samples)
      = Ok (toks @ samples @ [?t], toks @ samples, samples @ [?t])" using assms by simp
  have "rfold (draft_token draft sample is_prompt) [0..<Suc n] (toks, filled is_prompt toks, [])
    = draft_token draft sample is_prompt n (toks @ samples, ?cache, samples)"
    by (cases "draft_token draft sample is_prompt n (toks @ samples, ?cache, samples)")
      (simp_all add: rfold_append s(2))
  also have "\<dots> = Ok (toks @ samples @ [?t], butlast (toks @ samples @ [?t]), samples @ [?t])"
    using step by (simp add: butlast_append)
  finally show ?case using s(1) by (intro exI [of _ "samples @ [?t]"]) simp
qed

lemma draft_tokens_run:
  assumes "toks \<noteq> []" and "0 < gamma"
  shows "\<exists>drafts. length drafts = gamma
    \<and> draft_tokens draft sample is_prompt gamma toks (filled is_prompt toks) = Ok (drafts, butlast (toks @ drafts))"
proof -
  obtain drafts where "length drafts = gamma"
    "rfold (draft_token draft sample is_prompt) [0..<gamma] (toks, filled is_prompt toks, [])
      = Ok (toks @ drafts, butlast (toks @ drafts), drafts)"
    using draft_loop_run [OF assms(1), of gamma draft sample is_prompt] assms(2) by auto
  then show ?thesis by (simp add: draft_tokens_def)
qed

text \<open>The target samples a token after each prefix of the draft; the sequence it reads has none of them.\<close>

lemma target_logits:
  assumes "start \<noteq> []" and "length drafts = gamma" and "0 < gamma"
  shows "last_logits gamma (fst (forward model cache (start @ butlast drafts)))
    = Ok (map (\<lambda>k. model (cache @ start @ take k drafts)) [0..<gamma])"
proof -
  obtain m where m: "length start = Suc m" using assms(1) by (cases start) auto
  let ?logit = "\<lambda>j. model (cache @ take (Suc j) (start @ butlast drafts))"
  have "drop m (map ?logit [0..<m + gamma]) = map (\<lambda>k. ?logit (m + k)) [0..<gamma]"
    by (intro nth_equalityI) simp_all
  also have "\<dots> = map (\<lambda>k. model (cache @ start @ take k drafts)) [0..<gamma]"
    using assms(2) m by (intro map_cong refl) (simp add: take_butlast)
  finally have "drop m (map ?logit [0..<m + gamma]) = map (\<lambda>k. model (cache @ start @ take k drafts)) [0..<gamma]" .
  moreover have "length (start @ butlast drafts) = m + gamma" using assms(2,3) m by simp
  ultimately show ?thesis by (simp add: forward_def last_logits_def del: length_append)
qed

lemma target_tokens_run:
  assumes "toks \<noteq> []" and "length drafts = gamma" and "0 < gamma"
  shows "rbind (draft_prefill_tokens is_prompt toks drafts) (\<lambda>input.
      target_tokens target sample gamma toks input (filled is_prompt toks))
    = Ok (map (\<lambda>k. sample (target (toks @ take k drafts)) toks) [0..<gamma], butlast (toks @ drafts))"
proof -
  let ?cache = "filled is_prompt toks"
  let ?start = "drop (length ?cache) toks"
  have pre: "?cache @ ?start = toks" by (rule filled_prefix [OF assms(1)])
  have "length ?cache < length toks" using assms(1) by (auto simp: filled_def)
  then have start: "?start \<noteq> []" by simp
  have drafts: "drafts \<noteq> []" using assms(2,3) by auto
  have cut: "?cache @ ?start @ xs = toks @ xs" for xs
    using pre by (simp add: append_assoc [symmetric] del: append_assoc)
  have "last_logits gamma (fst (forward target ?cache (?start @ butlast drafts)))
      = Ok (map (\<lambda>k. target (toks @ take k drafts)) [0..<gamma])"
    using target_logits [OF start assms(2,3), of target ?cache] unfolding cut .
  moreover have "snd (forward target ?cache (?start @ butlast drafts)) = butlast (toks @ drafts)"
    using drafts by (simp add: forward_def cut butlast_append)
  ultimately show ?thesis
    by (simp add: draft_prefill_tokens_def filled_input [OF assms(1)] target_tokens_def split_def comp_def Let_def)
qed

text \<open>
  With a sampler that reads only the logits, what is accepted is what the target decodes on its
  own.
\<close>

lemma accept_decode:
  "length drafts = gamma \<Longrightarrow> toks @ accept (map (\<lambda>k. pick (target (toks @ take k drafts))) [0..<gamma]) drafts
    = decode target pick (length (accept (map (\<lambda>k. pick (target (toks @ take k drafts))) [0..<gamma]) drafts)) toks"
proof (induction drafts arbitrary: toks gamma)
  case Nil
  then show ?case by simp
next
  case (Cons d ds)
  let ?t = "pick (target toks)"
  have samples: "map (\<lambda>k. pick (target (toks @ take k (d # ds)))) [0..<gamma]
    = ?t # map (\<lambda>k. pick (target ((toks @ [d]) @ take k ds))) [0..<length ds]"
    using Cons.prems by (auto simp: map_upt_Suc simp del: upt_Suc)
  show ?case using Cons.IH [OF refl, of "toks @ [?t]"] unfolding samples by auto
qed

lemma cut_caches:
  assumes "butlast a = take (length a - 1) ds" and "a \<noteq> []" and "length a \<le> length ds"
  shows "set_len (length ds - length a) (butlast (toks @ ds)) = Ok (butlast (toks @ a))"
proof -
  obtain m where m: "length a = Suc m" using assms(2) by (cases a) auto
  have ds: "ds \<noteq> []" using assms(2,3) by auto
  have "length (butlast (toks @ ds)) - (length ds - length a) = length toks + m"
    "length ds - length a \<le> length (butlast (toks @ ds))" using assms(3) m by simp_all
  moreover have "take (length toks + m) (butlast (toks @ ds)) = butlast (toks @ a)"
    using assms m ds by (simp add: butlast_append take_butlast)
  ultimately show ?thesis by (simp add: set_len_def)
qed

text \<open>The state between two steps: the caches hold all tokens but the last.\<close>

definition spec_ready :: "spec_seq \<Rightarrow> bool" where
  "spec_ready s \<longleftrightarrow> sq_toks s \<noteq> [] \<and> sq_draft_cache s = butlast (sq_toks s) \<and> sq_target_cache s = butlast (sq_toks s)"

lemma spec_step_run:
  assumes "sq_toks s \<noteq> []" and "0 < gamma" and "is_prompt \<or> spec_ready s"
  shows "\<exists>k s'. 1 \<le> k \<and> k \<le> gamma \<and> spec_step draft target dsample (\<lambda>l ctx. pick l) gamma is_prompt s = Ok s'
    \<and> spec_ready s' \<and> sq_toks s' = decode target pick k (sq_toks s)"
proof -
  let ?toks = "sq_toks s"
  let ?s = "if is_prompt then s\<lparr>sq_draft_cache := [], sq_target_cache := []\<rparr> else s"
  have s: "sq_toks ?s = ?toks" "sq_draft_cache ?s = filled is_prompt ?toks"
    "sq_target_cache ?s = filled is_prompt ?toks"
    using assms(3) by (auto simp: filled_def spec_ready_def)
  obtain drafts where drafts: "length drafts = gamma"
    "draft_tokens draft dsample is_prompt gamma ?toks (filled is_prompt ?toks) = Ok (drafts, butlast (?toks @ drafts))"
    using draft_tokens_run [OF assms(1,2), of draft dsample is_prompt] by blast
  let ?samples = "map (\<lambda>k. pick (target (?toks @ take k drafts))) [0..<gamma]"
  have target: "rbind (draft_prefill_tokens is_prompt ?toks drafts) (\<lambda>input.
      target_tokens target (\<lambda>l ctx. pick l) gamma ?toks input (filled is_prompt ?toks)) = Ok (?samples, butlast (?toks @ drafts))"
    using target_tokens_run [OF assms(1) drafts(1) assms(2), of is_prompt target "\<lambda>l ctx. pick l"] by simp
  then obtain input where input: "draft_prefill_tokens is_prompt ?toks drafts = Ok input"
    "target_tokens target (\<lambda>l ctx. pick l) gamma ?toks input (filled is_prompt ?toks) = Ok (?samples, butlast (?toks @ drafts))"
    by (auto simp: res_simps)
  let ?a = "accept ?samples drafts"
  have len: "length ?samples = length drafts" using drafts(1) by simp
  have "drafts \<noteq> []" using drafts(1) assms(2) by auto
  then have a: "?a \<noteq> []" using accept_prefix [OF len] by blast
  have le: "length ?a \<le> gamma" using accept_length [of ?samples drafts] drafts(1) by simp
  have cut: "set_len (gamma - length ?a) (butlast (?toks @ drafts)) = Ok (butlast (?toks @ ?a))"
    using cut_caches [of ?a drafts ?toks] accept_prefix [OF len] a le drafts(1) by simp
  have "spec_step draft target dsample (\<lambda>l ctx. pick l) gamma is_prompt s
    = Ok \<lparr>sq_toks = ?toks @ ?a, sq_draft_cache = butlast (?toks @ ?a), sq_target_cache = butlast (?toks @ ?a)\<rparr>"
    unfolding spec_step_def Let_def s using drafts(2) input le cut by simp
  moreover have "?toks @ ?a = decode target pick (length ?a) ?toks" by (rule accept_decode [OF drafts(1)])
  moreover have "1 \<le> length ?a" using a by (cases ?a) auto
  ultimately show ?thesis using le a by (intro exI [of _ "length ?a"]) (auto simp: spec_ready_def)
qed

text \<open>
  C16. Speculative decoding is decoding. With samplers for the target that read only the logits,
  any number of steps from a prompt returns: whatever the draft model and its sampler propose,
  the tokens are the ones the target alone decodes, at least one and at most \<open>gamma\<close> per step, and
  both caches hold all tokens but the last, which is the input of the next step.
\<close>

theorem speculation_decodes_the_target:
  assumes "prompt \<noteq> []" and "0 < gamma"
  shows "\<exists>k s. n \<le> k \<and> k \<le> n * gamma
    \<and> spec_steps draft target dsample (\<lambda>l ctx. pick l) gamma n
        \<lparr>sq_toks = prompt, sq_draft_cache = dc, sq_target_cache = tc\<rparr> = Ok s
    \<and> sq_toks s = decode target pick k prompt
    \<and> (0 < n \<longrightarrow> sq_draft_cache s = butlast (sq_toks s) \<and> sq_target_cache s = butlast (sq_toks s))"
proof (induction n)
  case 0
  show ?case by simp
next
  case (Suc n)
  then obtain k s where s: "n \<le> k" "k \<le> n * gamma"
    "spec_steps draft target dsample (\<lambda>l ctx. pick l) gamma n
      \<lparr>sq_toks = prompt, sq_draft_cache = dc, sq_target_cache = tc\<rparr> = Ok s"
    "sq_toks s = decode target pick k prompt"
    "0 < n \<longrightarrow> sq_draft_cache s = butlast (sq_toks s) \<and> sq_target_cache s = butlast (sq_toks s)" by blast
  have "0 < length (sq_toks s)" using assms(1) by (simp add: s(4))
  then have ne: "sq_toks s \<noteq> []" by simp
  with s(5) have "n = 0 \<or> spec_ready s" by (auto simp: spec_ready_def)
  from spec_step_run [OF ne assms(2) this, of draft target dsample pick] obtain j s' where
    j: "1 \<le> j" "j \<le> gamma" "spec_step draft target dsample (\<lambda>l ctx. pick l) gamma (n = 0) s = Ok s'" "spec_ready s'"
      "sq_toks s' = decode target pick j (sq_toks s)" by blast
  have "Suc n \<le> k + j" "k + j \<le> Suc n * gamma" using j s by simp_all
  then show ?case using s j by (intro exI [of _ "k + j"] exI [of _ s']) (simp add: decode_add spec_ready_def)
qed

theorem speculation_decodes_the_target_witness:
  "\<exists>k s. 1 \<le> k \<and> k \<le> 2
    \<and> spec_steps sum_list length (\<lambda>l ctx. l + 1) (\<lambda>l ctx. l) 2 1
        \<lparr>sq_toks = [5], sq_draft_cache = [], sq_target_cache = []\<rparr> = Ok s
    \<and> sq_toks s = decode length (\<lambda>l. l) k [5]
    \<and> sq_draft_cache s = butlast (sq_toks s) \<and> sq_target_cache s = butlast (sq_toks s)"
  using speculation_decodes_the_target [of "[5]" 2 1 sum_list length "\<lambda>l ctx. l + 1" "\<lambda>l. l" "[]" "[]"] by simp

end
