(* ===== verification/Server.thy ===== *)
theory Server
  imports Requests
begin

text \<open>
  The HTTP server (\<^verbatim>\<open>mistralrs-server/src\<close>): the requests of the OpenAI interface
  (\<^verbatim>\<open>openai.rs\<close>), how \<^verbatim>\<open>chat_completion.rs\<close>, \<^verbatim>\<open>completions.rs\<close> and \<^verbatim>\<open>image_generation.rs\<close> turn them
  into requests for the engine and answer them from its channel, and the options that
  \<^verbatim>\<open>main.rs\<close> reads.

  Parameters: reading the bytes of an image and decoding it, parsing URLs, whether the channel to
  the engine takes a request, and what the engine sends back. HTTP itself, logging and the
  texts of errors are left out. A body that is JSON of the wrong form never reaches this code.
\<close>

section \<open>The requests of the interface\<close>

text \<open>
  \<^verbatim>\<open>MessageInnerContent\<close>, \<^verbatim>\<open>MessageContent\<close>, \<^verbatim>\<open>Message\<close>. A hash map is a list of pairs with distinct
  keys; keys are ASCII.
\<close>

datatype inner_content = InnerText rstring | InnerMap "(string \<times> rstring) list"

type_synonym content_part = "(string \<times> inner_content) list"

record chat_message =
  cm_content :: "rstring + content_part list"
  cm_role :: rstring
  cm_name :: "rstring option"

datatype stop_tokens = Multi "rstring list" | Single rstring

datatype ('v, 'g) grammar = RegexGrammar rstring | JsonSchemaGrammar 'v | LlguidanceGrammar 'g | LarkGrammar rstring

datatype ('v, 'g) constraint = Regex rstring | Lark rstring | JsonSchema 'v | Llguidance 'g | Unconstrained

record ('f, 'v, 'g) chat_completion_request =
  cr_messages :: "chat_message list + rstring"
  cr_model :: string
  cr_logit_bias :: "(nat \<times> 'f) list option"
  cr_logprobs :: bool
  cr_top_logprobs :: "nat option"
  cr_max_tokens :: "nat option"
  cr_n_choices :: nat
  cr_presence_penalty :: "'f option"
  cr_frequency_penalty :: "'f option"
  cr_stop_seqs :: "stop_tokens option"
  cr_temperature :: "'f option"
  cr_top_p :: "'f option"
  cr_stream :: "bool option"
  cr_tools :: "tool list option"
  cr_tool_choice :: "tool_choice option"
  cr_top_k :: "nat option"
  cr_grammar :: "('v, 'g) grammar option"
  cr_adapters :: "string list option"
  cr_min_p :: "'f option"
  cr_dry_multiplier :: "'f option"
  cr_dry_base :: "'f option"
  cr_dry_allowed_length :: "nat option"
  cr_dry_sequence_breakers :: "rstring list option"

record ('f, 'v, 'g) completion_request =
  pr_model :: string
  pr_prompt :: rstring
  pr_best_of :: "nat option"
  pr_echo_prompt :: bool
  pr_presence_penalty :: "'f option"
  pr_frequency_penalty :: "'f option"
  pr_logit_bias :: "(nat \<times> 'f) list option"
  pr_logprobs :: "nat option"
  pr_max_tokens :: "nat option"
  pr_n_choices :: nat
  pr_stop_seqs :: "stop_tokens option"
  pr_stream :: "bool option"
  pr_temperature :: "'f option"
  pr_top_p :: "'f option"
  pr_suffix :: "rstring option"
  pr_user :: "string option"
  pr_tools :: "tool list option"
  pr_tool_choice :: "tool_choice option"
  pr_top_k :: "nat option"
  pr_grammar :: "('v, 'g) grammar option"
  pr_adapters :: "string list option"
  pr_min_p :: "'f option"
  pr_dry_multiplier :: "'f option"
  pr_dry_base :: "'f option"
  pr_dry_allowed_length :: "nat option"
  pr_dry_sequence_breakers :: "rstring list option"

record image_generation_request =
  ir_model :: string
  ir_prompt :: rstring
  ir_n_choices :: nat
  ir_url_format :: bool
  ir_height :: nat
  ir_width :: nat

text \<open>What an absent field stands for.\<close>

definition default_image_request :: "rstring \<Rightarrow> image_generation_request" where
  "default_image_request desc = \<lparr>ir_model = ''default'', ir_prompt = desc, ir_n_choices = 1,
     ir_url_format = True, ir_height = 720, ir_width = 1280\<rparr>"

section \<open>Messages\<close>

text \<open>The messages of a request for the engine: index maps from keys to a text or to parts.\<close>

datatype message_content = PlainText rstring | Parts "(string \<times> rstring) list list"

type_synonym message = "(string \<times> message_content) list"

definition rtext :: "string \<Rightarrow> rstring" where
  "rtext s = map of_char s"

text \<open>\<^verbatim>\<open>map[key]\<close> of a hash map, which panics when there is no such key.\<close>

definition key_of :: "(string \<times> 'v) list \<Rightarrow> string \<Rightarrow> 'v res" where
  "key_of m k = (case map_of m k of None \<Rightarrow> Err (Panic ''no entry found for key'') | Some v \<Rightarrow> Ok v)"

definition part_type :: "content_part \<Rightarrow> rstring res" where
  "part_type p =
     (if length p \<noteq> 2 then Err (Bail ''Expected 2 items for the sub-content of a message with an image.'')
      else case map_of p ''type'' of
             None \<Rightarrow> Err (Bail ''Expected `type` key in input message.'')
           | Some (InnerMap _) \<Rightarrow> Err (Bail ''Expected string value in `type`.'')
           | Some (InnerText t) \<Rightarrow> Ok t)"

definition get_content_and_url :: "nat \<Rightarrow> nat \<Rightarrow> content_part list \<Rightarrow> (rstring \<times> rstring) res" where
  "get_content_and_url text_idx url_idx ps =
     rbind (vget ps text_idx) (\<lambda>p.
     rbind (key_of p ''text'') (\<lambda>text.
     case text of InnerMap _ \<Rightarrow> Err (Bail ''Expected string value in `text`.'')
     | InnerText cont \<Rightarrow>
         rbind (vget ps url_idx) (\<lambda>q.
         rbind (key_of q ''image_url'') (\<lambda>image_url.
         case image_url of InnerText _ \<Rightarrow> Err (Bail ''Expected content of format text and image_url'')
         | InnerMap m \<Rightarrow>
             (case map_of m ''url'' of None \<Rightarrow> Err (Bail ''Expected content of format text and image_url'')
              | Some url \<Rightarrow> Ok (cont, url))))))"

definition image_message :: "rstring \<Rightarrow> rstring \<Rightarrow> message" where
  "image_message role text =
     [(''role'', PlainText role),
      (''content'', Parts [[(''type'', rtext ''image'')], [(''type'', rtext ''text''), (''text'', text)]])]"

definition text_message :: "rstring \<Rightarrow> rstring \<Rightarrow> message" where
  "text_message role text = [(''role'', PlainText role), (''content'', PlainText text)]"

text \<open>A message and the URL of its image.\<close>

definition parse_message :: "chat_message \<Rightarrow> (message \<times> rstring option) res" where
  "parse_message m =
     (case cm_content m of
        Inl text \<Rightarrow> Ok (text_message (cm_role m) text, None)
      | Inr ps \<Rightarrow>
          if length ps \<noteq> 2 then Err (Bail ''Expected 2 items for the content of a message with an image.'')
          else if cm_role m \<noteq> rtext ''user'' then Err (Bail ''Role for an image message must be `user`'')
          else rbind (rmap part_type ps) (\<lambda>items.
               rbind (vget items 0) (\<lambda>t.
               rbind (if t = rtext ''text'' then get_content_and_url 0 1 ps else get_content_and_url 1 0 ps) (\<lambda>(text, url).
               Ok (image_message (cm_role m) text, Some url)))))"

text \<open>
  \<^verbatim>\<open>util::parse_image_url\<close> over the libraries for URLs, files, HTTP and images: what is no URL is the
  path of a file or else taken for base64.
\<close>

record ('u, 'i) image_lib =
  il_parse_url :: "rstring \<Rightarrow> 'u option"
  il_opens :: "rstring \<Rightarrow> bool"
  il_from_path :: "rstring \<Rightarrow> 'u res"
  il_scheme :: "'u \<Rightarrow> string"
  il_http :: "'u \<Rightarrow> byte list res"
  il_to_path :: "'u \<Rightarrow> rstring option"
  il_read :: "rstring \<Rightarrow> byte list res"
  il_data :: "'u \<Rightarrow> byte list res"
  il_image :: "byte list \<Rightarrow> 'i res"

definition ok_or :: "string \<Rightarrow> 'a option \<Rightarrow> 'a res" where
  "ok_or msg x = (case x of None \<Rightarrow> Err (Bail msg) | Some v \<Rightarrow> Ok v)"

definition parse_image_url :: "('u, 'i) image_lib \<Rightarrow> rstring \<Rightarrow> 'i res" where
  "parse_image_url lib unparsed =
     rbind (case il_parse_url lib unparsed of Some url \<Rightarrow> Ok url
            | None \<Rightarrow> if il_opens lib unparsed then il_from_path lib unparsed
                      else ok_or ''Could not parse as base64 data''
                        (il_parse_url lib (rtext ''data:image/png;base64,'' @ unparsed))) (\<lambda>url.
     rbind (if il_scheme lib url = ''http'' \<or> il_scheme lib url = ''https'' then il_http lib url
            else if il_scheme lib url = ''file'' then
              rbind (ok_or ''Could not parse file path'' (il_to_path lib url)) (\<lambda>path.
              if il_opens lib path then il_read lib path else Err (Bail ''Could not open file at path''))
            else if il_scheme lib url = ''data'' then il_data lib url
            else Err (Bail ''Unsupported URL scheme'')) (il_image lib))"

text \<open>Reading the images is the parameter \<open>read_image\<close> of what follows, the function above for the server.\<close>

definition parse_messages :: "(rstring \<Rightarrow> 'i res) \<Rightarrow> chat_message list + rstring \<Rightarrow> message list request_message res" where
  "parse_messages read_image ms =
     (case ms of
        Inl req_messages \<Rightarrow>
          rbind (rmap parse_message req_messages) (\<lambda>parsed.
          let messages = map fst parsed; image_urls = List.map_filter snd parsed
          in if image_urls \<noteq> [] then
               rbind (rmap read_image image_urls) (\<lambda>images. Ok (VisionChat (length images) messages))
             else Ok (Chat messages))
      | Inr text \<Rightarrow> Ok (Chat [text_message (rtext ''user'') text]))"

section \<open>Requests for the engine\<close>

type_synonym ('f, 'v, 'g) engine_request = "('f, message list, ('v, 'g) constraint) normal_request"

definition stop_param :: "stop_tokens option \<Rightarrow> stop_tokens_param option" where
  "stop_param st = (case st of Some (Multi m) \<Rightarrow> Some (StopSeqs m) | Some (Single s) \<Rightarrow> Some (StopSeqs [s]) | None \<Rightarrow> None)"

definition constraint_of :: "('v, 'g) grammar option \<Rightarrow> ('v, 'g) constraint" where
  "constraint_of g =
     (case g of Some (RegexGrammar r) \<Rightarrow> Regex r | Some (LarkGrammar l) \<Rightarrow> Lark l
      | Some (JsonSchemaGrammar v) \<Rightarrow> JsonSchema v | Some (LlguidanceGrammar x) \<Rightarrow> Llguidance x | None \<Rightarrow> Unconstrained)"

definition or_else :: "'a \<Rightarrow> 'a option \<Rightarrow> 'a" where
  "or_else d x = (case x of None \<Rightarrow> d | Some v \<Rightarrow> v)"

definition dry_params_of :: "'f::field option \<Rightarrow> rstring list option \<Rightarrow> 'f option \<Rightarrow> nat option \<Rightarrow> 'f dry_sampling_params option" where
  "dry_params_of mu breakers b len =
     (case mu of Some mu \<Rightarrow> Some (new_with_defaults mu breakers b len) | None \<Rightarrow> None)"

text \<open>\<^verbatim>\<open>parse_request\<close> of \<^verbatim>\<open>chat_completion.rs\<close>; the result says whether the answer is streamed.\<close>

definition parse_chat :: "(rstring \<Rightarrow> 'i res) \<Rightarrow> nat \<Rightarrow> ('f::field, 'v, 'g) chat_completion_request
    \<Rightarrow> (('f, 'v, 'g) engine_request \<times> bool) res" where
  "parse_chat read_image rid r =
     rbind (parse_messages read_image (cr_messages r)) (\<lambda>messages.
     let streaming = or_else False (cr_stream r)
     in Ok (\<lparr>rq_messages = messages,
           rq_params = \<lparr>sp_temperature = cr_temperature r, sp_top_k = cr_top_k r, sp_top_p = cr_top_p r,
             sp_min_p = cr_min_p r, sp_top_n_logprobs = or_else 1 (cr_top_logprobs r),
             sp_frequency_penalty = cr_frequency_penalty r, sp_presence_penalty = cr_presence_penalty r,
             sp_stop_toks = stop_param (cr_stop_seqs r), sp_max_len = cr_max_tokens r,
             sp_logits_bias = cr_logit_bias r, sp_n_choices = cr_n_choices r,
             sp_dry_params = dry_params_of (cr_dry_multiplier r) (cr_dry_sequence_breakers r) (cr_dry_base r)
               (cr_dry_allowed_length r)\<rparr>,
           rq_return_logprobs = cr_logprobs r, rq_is_streaming = streaming, rq_id = rid,
           rq_constraint = constraint_of (cr_grammar r), rq_suffix = None, rq_adapters = cr_adapters r,
           rq_tools = cr_tools r, rq_tool_choice = cr_tool_choice r, rq_processors = None,
           rq_return_raw_logits = False\<rparr>, streaming))"

definition parse_completion :: "nat \<Rightarrow> ('f::field, 'v, 'g) completion_request
    \<Rightarrow> (('f, 'v, 'g) engine_request \<times> bool) res" where
  "parse_completion rid r =
     (let streaming = or_else False (pr_stream r)
      in Ok (\<lparr>rq_messages = Completion (pr_prompt r) (pr_echo_prompt r) (pr_best_of r),
           rq_params = \<lparr>sp_temperature = pr_temperature r, sp_top_k = pr_top_k r, sp_top_p = pr_top_p r,
             sp_min_p = pr_min_p r, sp_top_n_logprobs = 1,
             sp_frequency_penalty = pr_frequency_penalty r, sp_presence_penalty = pr_presence_penalty r,
             sp_stop_toks = stop_param (pr_stop_seqs r), sp_max_len = pr_max_tokens r,
             sp_logits_bias = pr_logit_bias r, sp_n_choices = pr_n_choices r,
             sp_dry_params = dry_params_of (pr_dry_multiplier r) (pr_dry_sequence_breakers r) (pr_dry_base r)
               (pr_dry_allowed_length r)\<rparr>,
           rq_return_logprobs = False, rq_is_streaming = streaming, rq_id = rid,
           rq_constraint = constraint_of (pr_grammar r), rq_suffix = pr_suffix r, rq_adapters = pr_adapters r,
           rq_tools = pr_tools r, rq_tool_choice = pr_tool_choice r, rq_processors = None,
           rq_return_raw_logits = False\<rparr>, streaming))"

definition parse_image_request :: "nat \<Rightarrow> image_generation_request
    \<Rightarrow> ('f::field, 'v, 'g) engine_request res" where
  "parse_image_request rid r =
     Ok \<lparr>rq_messages = ImageGeneration (ir_prompt r), rq_params = deterministic, rq_return_logprobs = False,
       rq_is_streaming = False, rq_id = rid, rq_constraint = Unconstrained, rq_suffix = None, rq_adapters = None,
       rq_tools = None, rq_tool_choice = None, rq_processors = None, rq_return_raw_logits = False\<rparr>"

section \<open>Streams\<close>

text \<open>What the channel brings: the responses of theory Seq, images and raw logits.\<close>

datatype engine_response = Reply response | ImageReply nat | RawReply

datatype event = ErrorEvent | ChunkEvent "chunk_choice list" | CompletionChunkEvent "completion_chunk_choice list"

text \<open>
  \<^verbatim>\<open>Poll<Option<..>>\<close>: an event, the end of the stream, or pending. A channel holds what the
  engine will still send; when it is used up the engine has dropped its sender.
\<close>

datatype poll = Ready "event option" | Pending

record streamer =
  sr_rx :: "engine_response list"
  sr_done :: bool

text \<open>
  The event for a response of the two kinds of streams, and whether it is the last one. The
  other responses are \<^verbatim>\<open>unreachable!()\<close>.
\<close>

definition chat_event :: "engine_response \<Rightarrow> (event \<times> bool) res" where
  "chat_event r =
     (case r of
        Reply (ModelError _) \<Rightarrow> Ok (ErrorEvent, True)
      | Reply ValidationError \<Rightarrow> Ok (ErrorEvent, False)
      | Reply InternalError \<Rightarrow> Ok (ErrorEvent, False)
      | Reply (Chunk cs) \<Rightarrow> Ok (ChunkEvent cs, list_all (\<lambda>x. ck_finish_reason x \<noteq> None) cs)
      | _ \<Rightarrow> Err (Panic ''unreachable''))"

definition completion_event :: "engine_response \<Rightarrow> (event \<times> bool) res" where
  "completion_event r =
     (case r of
        Reply (CompletionModelError _) \<Rightarrow> Ok (ErrorEvent, True)
      | Reply ValidationError \<Rightarrow> Ok (ErrorEvent, False)
      | Reply InternalError \<Rightarrow> Ok (ErrorEvent, False)
      | Reply (CompletionChunk cs) \<Rightarrow>
          Ok (CompletionChunkEvent cs, list_all (\<lambda>x. cck_finish_reason x \<noteq> None) cs)
      | _ \<Rightarrow> Err (Panic ''unreachable''))"

text \<open>\<^verbatim>\<open>poll_next\<close>; a closed channel is treated like one that has nothing yet.\<close>

definition poll_next :: "(engine_response \<Rightarrow> (event \<times> bool) res) \<Rightarrow> streamer \<Rightarrow> (poll \<times> streamer) res" where
  "poll_next event_of s =
     (if sr_done s then Ok (Ready None, s)
      else case sr_rx s of
             [] \<Rightarrow> Ok (Pending, s)
           | r # rs \<Rightarrow>
               rbind (event_of r) (\<lambda>(ev, finished).
               Ok (Ready (Some ev), s\<lparr>sr_rx := rs, sr_done := finished\<rparr>)))"

fun polls :: "(engine_response \<Rightarrow> (event \<times> bool) res) \<Rightarrow> nat \<Rightarrow> streamer \<Rightarrow> poll list res" where
  "polls event_of 0 s = Ok []"
| "polls event_of (Suc n) s =
     rbind (poll_next event_of s) (\<lambda>(p, s). rbind (polls event_of n s) (\<lambda>ps. Ok (p # ps)))"

section \<open>Responses\<close>

datatype 'j responder =
    Sse streamer
  | Json 'j
  | ModelErrorResponse 'j
  | InternalErrorResponse
  | ValidationErrorResponse

definition status :: "'j responder \<Rightarrow> nat" where
  "status r = (case r of Sse _ \<Rightarrow> 200 | Json _ \<Rightarrow> 200 | ModelErrorResponse _ \<Rightarrow> 500 | InternalErrorResponse \<Rightarrow> 500
     | ValidationErrorResponse \<Rightarrow> 422)"

definition chat_answer :: "engine_response \<Rightarrow> Seq.choice list responder res" where
  "chat_answer r =
     (case r of
        Reply InternalError \<Rightarrow> Ok InternalErrorResponse
      | Reply (ModelError cs) \<Rightarrow> Ok (ModelErrorResponse cs)
      | Reply ValidationError \<Rightarrow> Ok ValidationErrorResponse
      | Reply (ChatDone cs) \<Rightarrow> Ok (Json cs)
      | _ \<Rightarrow> Err (Panic ''unreachable''))"

definition completion_answer :: "engine_response \<Rightarrow> completion_choice list responder res" where
  "completion_answer r =
     (case r of
        Reply InternalError \<Rightarrow> Ok InternalErrorResponse
      | Reply (CompletionModelError cs) \<Rightarrow> Ok (ModelErrorResponse cs)
      | Reply ValidationError \<Rightarrow> Ok ValidationErrorResponse
      | Reply (CompletionDone cs) \<Rightarrow> Ok (Json cs)
      | _ \<Rightarrow> Err (Panic ''unreachable''))"

definition image_answer :: "engine_response \<Rightarrow> nat responder res" where
  "image_answer r =
     (case r of
        Reply InternalError \<Rightarrow> Ok InternalErrorResponse
      | Reply ValidationError \<Rightarrow> Ok ValidationErrorResponse
      | ImageReply n \<Rightarrow> Ok (Json n)
      | Reply (CompletionModelError _) \<Rightarrow> Ok InternalErrorResponse
      | _ \<Rightarrow> Err (Panic ''unreachable''))"

text \<open>
  The handlers after the parsing: \<open>post\<close> puts the request on the channel to the engine (a \<open>Panic\<close>
  is the \<^verbatim>\<open>unwrap\<close> of \<^verbatim>\<open>get_sender\<close>), \<open>rx\<close> is all that the engine sends for it.
\<close>

definition send_and_receive :: "('q \<Rightarrow> unit res) \<Rightarrow> ('q \<Rightarrow> engine_response list) \<Rightarrow> (engine_response \<Rightarrow> 'j responder res)
    \<Rightarrow> ('q \<times> bool) res \<Rightarrow> 'j responder res" where
  "send_and_receive post rx answer parsed =
     (case parsed of Inl (Panic m) \<Rightarrow> Err (Panic m) | Inl (Bail _) \<Rightarrow> Ok InternalErrorResponse
      | Inr (q, streaming) \<Rightarrow>
          (case post q of Inl (Panic m) \<Rightarrow> Err (Panic m) | Inl (Bail _) \<Rightarrow> Ok InternalErrorResponse
           | Inr _ \<Rightarrow>
               if streaming then Ok (Sse \<lparr>sr_rx = rx q, sr_done = False\<rparr>)
               else (case rx q of [] \<Rightarrow> Ok InternalErrorResponse | r # _ \<Rightarrow> answer r)))"

definition chatcompletions :: "(rstring \<Rightarrow> 'i res) \<Rightarrow> (('f, 'v, 'g) engine_request \<Rightarrow> unit res) \<Rightarrow> (('f, 'v, 'g) engine_request \<Rightarrow> engine_response list) \<Rightarrow> nat
    \<Rightarrow> ('f::field, 'v, 'g) chat_completion_request \<Rightarrow> Seq.choice list responder res" where
  "chatcompletions read_image post rx rid r = send_and_receive post rx chat_answer (parse_chat read_image rid r)"

definition completions :: "(('f, 'v, 'g) engine_request \<Rightarrow> unit res) \<Rightarrow> (('f, 'v, 'g) engine_request \<Rightarrow> engine_response list) \<Rightarrow> nat
    \<Rightarrow> ('f::field, 'v, 'g) completion_request \<Rightarrow> completion_choice list responder res" where
  "completions post rx rid r =
     (if pr_logprobs r \<noteq> None then Ok ValidationErrorResponse
      else send_and_receive post rx completion_answer (parse_completion rid r))"

definition image_generation :: "(('f::field, 'v, 'g) engine_request \<Rightarrow> unit res)
    \<Rightarrow> (('f, 'v, 'g) engine_request \<Rightarrow> engine_response list) \<Rightarrow> nat \<Rightarrow> image_generation_request \<Rightarrow> nat responder res" where
  "image_generation post rx rid r =
     send_and_receive post rx image_answer (rbind (parse_image_request rid r) (\<lambda>q. Ok (q, False)))"

section \<open>When a stream ends\<close>

lemma poll_next_simps [simp]:
  "poll_next event_of \<lparr>sr_rx = rx, sr_done = True\<rparr> = Ok (Ready None, \<lparr>sr_rx = rx, sr_done = True\<rparr>)"
  "poll_next event_of \<lparr>sr_rx = [], sr_done = False\<rparr> = Ok (Pending, \<lparr>sr_rx = [], sr_done = False\<rparr>)"
  "poll_next event_of \<lparr>sr_rx = r # rs, sr_done = False\<rparr>
     = rbind (event_of r) (\<lambda>(ev, finished). Ok (Ready (Some ev), \<lparr>sr_rx = rs, sr_done = finished\<rparr>))"
  by (simp_all add: poll_next_def)

lemma polls_pending: "polls event_of n \<lparr>sr_rx = [], sr_done = False\<rparr> = Ok (replicate n Pending)"
  by (induction n) simp_all

lemma polls_done: "polls event_of n \<lparr>sr_rx = rx, sr_done = True\<rparr> = Ok (replicate n (Ready None))"
  by (induction n) simp_all

text \<open>A channel of responses none of which is an \<^verbatim>\<open>unreachable!()\<close>: \<open>f\<close> gives their events.\<close>

lemma polls_total:
  assumes "\<And>r. r \<in> set rx \<Longrightarrow> event_of r = Ok (f r)"
  shows "\<exists>ps. polls event_of n \<lparr>sr_rx = rx, sr_done = False\<rparr> = Ok ps"
  using assms
proof (induction n arbitrary: rx)
  case (Suc n)
  show ?case
  proof (cases rx)
    case Nil
    then show ?thesis by (simp only: polls_pending) simp
  next
    case (Cons r rs)
    have "event_of r = Ok (f r)" using Suc.prems Cons by simp
    moreover obtain ps where "polls event_of n \<lparr>sr_rx = rs, sr_done = snd (f r)\<rparr> = Ok ps"
      using Suc.IH [of rs] Suc.prems Cons polls_done [of event_of n rs] by (cases "snd (f r)") auto
    ultimately show ?thesis using Cons by (simp add: split_def)
  qed
qed simp

lemma polls_end:
  assumes "\<And>r. r \<in> set rx \<Longrightarrow> event_of r = Ok (f r)"
  shows "(\<exists>n ps. polls event_of n \<lparr>sr_rx = rx, sr_done = False\<rparr> = Ok ps \<and> Ready None \<in> set ps)
    \<longleftrightarrow> (\<exists>r \<in> set rx. snd (f r))"
  using assms
proof (induction rx)
  case Nil
  show ?case by (auto simp: polls_pending)
next
  case (Cons r rs)
  have ev: "event_of r = Ok (f r)" using Cons.prems by simp
  have step: "polls event_of (Suc n) \<lparr>sr_rx = r # rs, sr_done = False\<rparr>
      = rbind (polls event_of n \<lparr>sr_rx = rs, sr_done = snd (f r)\<rparr>) (\<lambda>ps. Ok (Ready (Some (fst (f r))) # ps))" for n
    using ev by (simp add: split_def)
  have first: "(\<exists>n ps. polls event_of n \<lparr>sr_rx = r # rs, sr_done = False\<rparr> = Ok ps \<and> Ready None \<in> set ps)
    \<longleftrightarrow> (\<exists>n ps. polls event_of (Suc n) \<lparr>sr_rx = r # rs, sr_done = False\<rparr> = Ok ps \<and> Ready None \<in> set ps)"
    by (metis empty_iff empty_set old.sum.inject(2) not0_implies_Suc polls.simps(1))
  show ?case
  proof (cases "snd (f r)")
    case True
    have "polls event_of (Suc 1) \<lparr>sr_rx = r # rs, sr_done = False\<rparr> = Ok [Ready (Some (fst (f r))), Ready None]"
      unfolding step by (simp add: True polls_done del: polls.simps)
    then show ?thesis using True by fastforce
  next
    case False
    have "(\<exists>n ps. polls event_of (Suc n) \<lparr>sr_rx = r # rs, sr_done = False\<rparr> = Ok ps \<and> Ready None \<in> set ps)
      \<longleftrightarrow> (\<exists>n ps. polls event_of n \<lparr>sr_rx = rs, sr_done = False\<rparr> = Ok ps \<and> Ready None \<in> set ps)"
    proof
      assume "\<exists>n ps. polls event_of (Suc n) \<lparr>sr_rx = r # rs, sr_done = False\<rparr> = Ok ps \<and> Ready None \<in> set ps"
      then show "\<exists>n ps. polls event_of n \<lparr>sr_rx = rs, sr_done = False\<rparr> = Ok ps \<and> Ready None \<in> set ps"
        unfolding step using False by (auto simp: res_simps) blast
    next
      assume "\<exists>n ps. polls event_of n \<lparr>sr_rx = rs, sr_done = False\<rparr> = Ok ps \<and> Ready None \<in> set ps"
      then obtain n ps where n: "polls event_of n \<lparr>sr_rx = rs, sr_done = False\<rparr> = Ok ps" "Ready None \<in> set ps" by blast
      then show "\<exists>n ps. polls event_of (Suc n) \<lparr>sr_rx = r # rs, sr_done = False\<rparr> = Ok ps \<and> Ready None \<in> set ps"
        unfolding step using False by (intro exI [of _ n] exI [of _ "Ready (Some (fst (f r))) # ps"]) simp
    qed
    then show ?thesis using first Cons.IH Cons.prems False by simp
  qed
qed

text \<open>
  C17. A streaming request that the engine refuses is never closed. The client gets one event with the
  error, and then the stream stays pending for ever, although the channel is closed: only a
  chunk and a model error mark it as done.
\<close>

theorem a_refused_stream_never_ends:
  assumes "add_request ev pl add rq e = (Ok (), e')" and "es_id e' = es_id e"
  shows "\<exists>reply. es_replies e' = es_replies e @ [(rq_id rq, reply)]
     \<and> polls chat_event (Suc n) \<lparr>sr_rx = [Reply reply], sr_done = False\<rparr> = Ok (Ready (Some ErrorEvent) # replicate n Pending)
     \<and> polls completion_event (Suc n) \<lparr>sr_rx = [Reply reply], sr_done = False\<rparr>
         = Ok (Ready (Some ErrorEvent) # replicate n Pending)"
proof -
  obtain reply where "reply \<in> refusals" "es_replies e' = es_replies e @ [(rq_id rq, reply)]"
    using add_request_queues [OF assms(1)] assms(2) by auto
  moreover from this(1) have "chat_event (Reply reply) = Ok (ErrorEvent, False)"
    "completion_event (Reply reply) = Ok (ErrorEvent, False)"
    by (auto simp: refusals_def chat_event_def completion_event_def)
  ultimately show ?thesis by (intro exI [of _ reply]) (simp add: polls_pending)
qed

section \<open>Streams of several choices\<close>

lemma nth_batch:
  assumes "\<forall>xs \<in> set xss. length xs = n" and "j < length xss"
  shows "xss ! j = take n (drop (j * n) (concat xss @ rest))"
  using assms
proof (induction xss arbitrary: j)
  case (Cons xs xss)
  then show ?case by (cases j) (auto simp: add.commute)
qed simp

lemma length_batches: "\<forall>xs \<in> set xss. length xs = n \<Longrightarrow> length (concat xss) = length xss * n"
  by (induction xss) auto

lemma streamed_batches:
  assumes "0 < n" and "push_chunks cs (group_new n True False b :: 'f sequence_group) = (sent, g)"
  shows "\<exists>css. sent = map CompletionChunk css \<and> length css = length cs div n
    \<and> (\<forall>j < length css. css ! j = take n (drop (j * n) cs))"
proof -
  obtain sent' g' where p: "push_chunks cs (group_new n True False b :: 'f sequence_group) = (sent', g')"
    "concat (map chunks_in sent') @ completion_streaming_chunks g' = cs"
    "\<forall>r \<in> set sent'. length (chunks_in r) = n" "length (completion_streaming_chunks g') < n"
    using push_chunks_batches [of "group_new n True False b :: 'f sequence_group" cs] assms(1) by (auto simp: group_new_def)
  with assms(2) have same: "sent' = sent" "g' = g" by simp_all
  let ?css = "map chunks_in sent"
  have all: "\<forall>xs \<in> set ?css. length xs = n" using p(3) same by simp
  have "r = CompletionChunk (chunks_in r)" if "r \<in> set sent" for r
    using all that assms(1) by (cases r) auto
  then have 1: "sent = map CompletionChunk ?css" by (simp add: map_idI)
  have "length cs = length ?css * n + length (completion_streaming_chunks g)"
    using length_batches [OF all] p(2) same by (metis length_append)
  then have 2: "length ?css = length cs div n" using p(4) same assms(1) by simp
  have 3: "?css ! j = take n (drop (j * n) cs)" if "j < length ?css" for j
    using nth_batch [OF all that, of "completion_streaming_chunks g"] p(2) unfolding same by (simp only:)
  show ?thesis using 1 2 3 by blast
qed

definition chunk_event :: "engine_response \<Rightarrow> event \<times> bool" where
  "chunk_event r = (case r of Reply (CompletionChunk cs) \<Rightarrow>
     (CompletionChunkEvent cs, list_all (\<lambda>x. cck_finish_reason x \<noteq> None) cs) | _ \<Rightarrow> (ErrorEvent, True))"

lemma streamed_events:
  assumes "0 < n" and "push_chunks cs (group_new n True False b :: 'f sequence_group) = (sent, g)"
    and "r \<in> set (map Reply sent)"
  shows "completion_event r = Ok (chunk_event r)"
  using streamed_batches [OF assms(1,2)] assms(3) by (auto simp: completion_event_def chunk_event_def)

text \<open>
  C18. When the stream of a completion ends. The chunks of all choices leave in batches of \<^verbatim>\<open>n\<close>; the
  stream never panics on them, and it ends exactly when some batch consists of last chunks only. So
  with one choice it ends with the last chunk. With several choices it ends only if they all
  finish in the same batch: choices that finish at different steps leave the client waiting.
\<close>

theorem streams_end_with_a_batch_of_last_chunks:
  assumes "0 < n" and "push_chunks cs (group_new n True False b :: 'f sequence_group) = (sent, g)"
  shows "(\<forall>k. \<exists>ps. polls completion_event k \<lparr>sr_rx = map Reply sent, sr_done = False\<rparr> = Ok ps)
    \<and> ((\<exists>k ps. polls completion_event k \<lparr>sr_rx = map Reply sent, sr_done = False\<rparr> = Ok ps \<and> Ready None \<in> set ps)
      \<longleftrightarrow> (\<exists>j. j < length cs div n \<and> (\<forall>c \<in> set (take n (drop (j * n) cs)). cck_finish_reason c \<noteq> None)))"
proof (intro conjI allI)
  fix k
  show "\<exists>ps. polls completion_event k \<lparr>sr_rx = map Reply sent, sr_done = False\<rparr> = Ok ps"
    using polls_total [OF streamed_events [OF assms]] .
next
  obtain css where css: "sent = map CompletionChunk css" "length css = length cs div n"
    "\<forall>j < length css. css ! j = take n (drop (j * n) cs)"
    using streamed_batches [OF assms] by blast
  have "(\<exists>r \<in> set (map Reply sent). snd (chunk_event r)) \<longleftrightarrow> (\<exists>c \<in> set css. list_all (\<lambda>x. cck_finish_reason x \<noteq> None) c)"
    using css(1) by (auto simp: chunk_event_def)
  also have "\<dots> \<longleftrightarrow> (\<exists>j < length css. \<forall>c \<in> set (css ! j). cck_finish_reason c \<noteq> None)"
    by (simp add: list_all_iff) (metis in_set_conv_nth)
  also have "\<dots> \<longleftrightarrow> (\<exists>j. j < length cs div n \<and> (\<forall>c \<in> set (take n (drop (j * n) cs)). cck_finish_reason c \<noteq> None))"
    using css(2,3) by auto
  finally show "(\<exists>k ps. polls completion_event k \<lparr>sr_rx = map Reply sent, sr_done = False\<rparr> = Ok ps \<and> Ready None \<in> set ps)
      \<longleftrightarrow> (\<exists>j. j < length cs div n \<and> (\<forall>c \<in> set (take n (drop (j * n) cs)). cck_finish_reason c \<noteq> None))"
    using polls_end [where rx = "map Reply sent" and event_of = completion_event and f = chunk_event,
      OF streamed_events [OF assms]] by (simp only:)
qed

section \<open>Messages with an image\<close>

text \<open>
  Messages with an image. Two parts, a text and an image in either order, are read as one message with
  the image before the text, and the URL of the image. Nothing else than the types of the
  parts decides which is which.
\<close>

theorem image_messages_are_read:
  assumes "part_type p = Ok (rtext ''text'')" and "map_of p ''text'' = Some (InnerText text)"
    and "part_type q = Ok t" and "t \<noteq> rtext ''text''"
    and "map_of q ''image_url'' = Some (InnerMap m)" and "map_of m ''url'' = Some url"
    and "ps = [p, q] \<or> ps = [q, p]"
  shows "parse_message \<lparr>cm_content = Inr ps, cm_role = rtext ''user'', cm_name = nm\<rparr>
    = Ok (image_message (rtext ''user'') text, Some url)"
  using assms by (elim disjE) (simp_all add: parse_message_def get_content_and_url_def key_of_def)

text \<open>
  When a message with an image panics. The types of two parts are checked, but the keys that go with
  them are only indexed: a message whose part for the text has no \<^verbatim>\<open>text\<close>, or whose other part
  has no \<^verbatim>\<open>image_url\<close>, panics in the handler instead of being refused.
\<close>

theorem when_an_image_message_panics:
  assumes "part_type p = Ok t" and "part_type q = Ok u"
  shows "panics (parse_message \<lparr>cm_content = Inr [p, q], cm_role = rtext ''user'', cm_name = nm\<rparr>)
    \<longleftrightarrow> (let (a, b) = if t = rtext ''text'' then (p, q) else (q, p)
         in map_of a ''text'' = None \<or> (\<exists>text. map_of a ''text'' = Some (InnerText text)) \<and> map_of b ''image_url'' = None)"
proof -
  have "panics (get_content_and_url i j [p, q]) \<longleftrightarrow>
      map_of ([p, q] ! i) ''text'' = None
      \<or> (\<exists>text. map_of ([p, q] ! i) ''text'' = Some (InnerText text)) \<and> map_of ([p, q] ! j) ''image_url'' = None"
    if "i < 2" "j < 2" for i j
    using that by (simp add: get_content_and_url_def key_of_def split: option.split inner_content.split)
  from this [of 0 1] this [of 1 0] show ?thesis using assms by (simp add: parse_message_def res_simps split_def)
qed

section \<open>Witnesses\<close>

text \<open>A request for no choices is refused.\<close>

definition nothing_request :: "(nat, unit, unit) normal_request" where
  "nothing_request = two_choices_request\<lparr>rq_params := deterministic\<lparr>sp_n_choices := 0\<rparr>, rq_is_streaming := True\<rparr>"

lemma nothing_is_refused:
  "(let (r, e) = add_request toy_env a_pipeline (\<lambda>_. default_add_seq) nothing_request a_default_engine
    in (r, es_id e)) = (Ok (), es_id a_default_engine)"
  by code_simp

theorem a_refused_stream_never_ends_witness:
  "\<exists>e' reply. add_request toy_env a_pipeline (\<lambda>_. default_add_seq) nothing_request a_default_engine = (Ok (), e')
     \<and> es_replies e' = es_replies a_default_engine @ [(4, reply)]
     \<and> polls chat_event 3 \<lparr>sr_rx = [Reply reply], sr_done = False\<rparr> = Ok [Ready (Some ErrorEvent), Pending, Pending]"
proof -
  obtain r e' where run: "add_request toy_env a_pipeline (\<lambda>_. default_add_seq) nothing_request a_default_engine = (r, e')"
    by (cases "add_request toy_env a_pipeline (\<lambda>_. default_add_seq) nothing_request a_default_engine")
  with nothing_is_refused have "r = Ok ()" "es_id e' = es_id a_default_engine" by (simp_all add: Let_def)
  moreover have "rq_id nothing_request = 4" by (simp add: nothing_request_def two_choices_request_def)
  ultimately show ?thesis using a_refused_stream_never_ends [OF run [unfolded \<open>r = Ok ()\<close>], of 2] run
    by (auto simp: numeral_3_eq_3 numeral_2_eq_2)
qed

text \<open>Two choices, the second of which stops one step later.\<close>

definition uneven_chunks :: "completion_chunk_choice list" where
  "uneven_chunks = [\<lparr>cck_finish_reason = Some ''stop'', cck_index = 0, cck_text = [97]\<rparr>,
     \<lparr>cck_finish_reason = None, cck_index = 1, cck_text = [98]\<rparr>,
     \<lparr>cck_finish_reason = Some ''stop'', cck_index = 1, cck_text = [99]\<rparr>]"

theorem streams_end_with_a_batch_of_last_chunks_witness:
  "\<exists>sent g. push_chunks uneven_chunks (group_new 2 True False None :: nat sequence_group) = (sent, g)
     \<and> \<not> (\<exists>k ps. polls completion_event k \<lparr>sr_rx = map Reply sent, sr_done = False\<rparr> = Ok ps \<and> Ready None \<in> set ps)"
proof -
  obtain sent g where run: "push_chunks uneven_chunks (group_new 2 True False None :: nat sequence_group) = (sent, g)"
    by (cases "push_chunks uneven_chunks (group_new 2 True False None :: nat sequence_group)")
  have "\<not> (\<exists>j. j < length uneven_chunks div 2 \<and> (\<forall>c \<in> set (take 2 (drop (j * 2) uneven_chunks)). cck_finish_reason c \<noteq> None))"
    by (auto simp: uneven_chunks_def)
  with streams_end_with_a_batch_of_last_chunks [OF _ run]
  have "\<not> (\<exists>k ps. polls completion_event k \<lparr>sr_rx = map Reply sent, sr_done = False\<rparr> = Ok ps \<and> Ready None \<in> set ps)"
    by (simp only:) simp
  with run show ?thesis by (intro exI conjI)
qed

definition text_part :: content_part where
  "text_part = [(''type'', InnerText (rtext ''text'')), (''text'', InnerText [104, 105])]"

definition image_part :: content_part where
  "image_part = [(''type'', InnerText (rtext ''image_url'')), (''image_url'', InnerMap [(''url'', [47, 97])])]"

theorem image_messages_are_read_witness:
  "parse_message \<lparr>cm_content = Inr [image_part, text_part], cm_role = rtext ''user'', cm_name = None\<rparr>
    = Ok (image_message (rtext ''user'') [104, 105], Some [47, 97])"
  by (rule image_messages_are_read [of text_part _ image_part "rtext ''image_url''" "[(''url'', [47, 97])]"])
    (simp_all add: text_part_def image_part_def part_type_def rtext_def of_char_def)

theorem when_an_image_message_panics_witness:
  "panics (parse_message \<lparr>cm_content = Inr [image_part, image_part], cm_role = rtext ''user'', cm_name = None\<rparr>)"
  using when_an_image_message_panics [of image_part "rtext ''image_url''" image_part "rtext ''image_url''" None]
  by (simp add: image_part_def part_type_def)

end
