(* ===== verification/Substrings.thy ===== *)
theory Substrings
  imports Utf8
begin

text \<open>
  What the input processors use of Rust's strings besides \<open>Utf8\<close>: a string is its bytes, \<^verbatim>\<open>find\<close>,
  \<^verbatim>\<open>replace\<close>, \<^verbatim>\<open>split\<close>, \<^verbatim>\<open>repeat\<close> and slices by byte positions. The patterns are special tokens
  such as \<^verbatim>\<open><|image_pad|>\<close>: their first byte occurs nowhere else in them, so that an occurrence never
  reaches across the start of another special token. The lemmas are about texts around such tokens.
\<close>

definition bytes_of :: "string \<Rightarrow> byte list" where
  "bytes_of s = map of_char s"

fun find_str :: "'a list \<Rightarrow> 'a list \<Rightarrow> nat option" where
  "find_str n [] = (if n = [] then Some 0 else None)"
| "find_str n (c # s) = (if take (length n) (c # s) = n then Some 0 else map_option Suc (find_str n s))"

definition occurs :: "'a list \<Rightarrow> 'a list \<Rightarrow> bool" where
  "occurs n s \<longleftrightarrow> find_str n s \<noteq> None"

definition str_repeat :: "nat \<Rightarrow> 'a list \<Rightarrow> 'a list" where
  "str_repeat k s = concat (replicate k s)"

text \<open>A number as it is formatted, in decimal digits.\<close>

fun decimal :: "nat \<Rightarrow> rstring" where
  "decimal n = (if n div 10 = 0 then [] else decimal (n div 10)) @ [48 + n mod 10]"

declare decimal.simps [simp del]

lemma find_str_bound: "find_str n s = Some p \<Longrightarrow> p + length n \<le> length s"
proof (induction s arbitrary: p)
  case (Cons c s)
  show ?case
  proof (cases "take (length n) (c # s) = n")
    case True
    then have "length n \<le> length (c # s)" using nat_le_linear by (metis length_take min.cobounded1)
    then show ?thesis using Cons.prems True by simp
  next
    case False
    then obtain q where "find_str n s = Some q" "p = Suc q" using Cons.prems by auto
    then show ?thesis using Cons.IH by simp
  qed
qed (simp split: if_splits)

lemma find_str_shrinks: "find_str n s = Some p \<Longrightarrow> n \<noteq> [] \<Longrightarrow> length s - (p + length n) < length s"
  using find_str_bound [of n s p] by (cases n) auto

lemma find_str_at: "find_str n s = Some p \<Longrightarrow> take (length n) (drop p s) = n"
proof (induction s arbitrary: p)
  case (Cons c s)
  show ?case
  proof (cases "take (length n) (c # s) = n")
    case False
    then obtain q where "find_str n s = Some q" "p = Suc q" using Cons.prems by auto
    then show ?thesis using Cons.IH by simp
  qed (use Cons.prems in simp)
qed (simp split: if_splits)

lemma find_str_first: "find_str n s = Some p \<Longrightarrow> q < p \<Longrightarrow> take (length n) (drop q s) \<noteq> n"
proof (induction s arbitrary: p q)
  case (Cons c s)
  then obtain p' where p: "find_str n s = Some p'" "p = Suc p'" "take (length n) (c # s) \<noteq> n"
    by (auto split: if_splits)
  show ?case
  proof (cases q)
    case (Suc q')
    then show ?thesis using Cons.IH [OF p(1), of q'] Cons.prems(2) p(2) by simp
  qed (use p(3) in simp)
qed (simp split: if_splits)

text \<open>\<^verbatim>\<open>str::replace\<close>, \<^verbatim>\<open>str::split\<close>, with a nonempty pattern.\<close>

function replace_all :: "'a list \<Rightarrow> 'a list \<Rightarrow> 'a list \<Rightarrow> 'a list" where
  "replace_all a b s =
     (case find_str a s of None \<Rightarrow> s
      | Some p \<Rightarrow> if a = [] then s else take p s @ b @ replace_all a b (drop (p + length a) s))"
  by pat_completeness auto
termination
  by (relation "measure (\<lambda>(a, b, s). length s)") (auto dest: find_str_shrinks)

function split_str :: "'a list \<Rightarrow> 'a list \<Rightarrow> 'a list list" where
  "split_str a s =
     (case find_str a s of None \<Rightarrow> [s]
      | Some p \<Rightarrow> if a = [] then [s] else take p s # split_str a (drop (p + length a) s))"
  by pat_completeness auto
termination
  by (relation "measure (\<lambda>(a, s). length s)") (auto dest: find_str_shrinks)

declare replace_all.simps [simp del]
declare split_str.simps [simp del]

text \<open>\<^verbatim>\<open>&s[a..b]\<close>.\<close>

definition is_char_boundary :: "byte list \<Rightarrow> nat \<Rightarrow> bool" where
  "is_char_boundary s i \<longleftrightarrow> i = 0 \<or> i = length s \<or> (i < length s \<and> \<not> is_cont (s ! i))"

definition str_slice :: "byte list \<Rightarrow> nat \<Rightarrow> nat \<Rightarrow> byte list res" where
  "str_slice s a b =
     (if a \<le> b \<and> is_char_boundary s a \<and> is_char_boundary s b then Ok (take (b - a) (drop a s))
      else Err (Panic ''byte index is out of bounds or not a char boundary''))"

section \<open>Special tokens\<close>

text \<open>The first byte of a special token occurs nowhere else in it.\<close>

definition special :: "'a list \<Rightarrow> bool" where
  "special a \<longleftrightarrow> a \<noteq> [] \<and> hd a \<notin> set (tl a)"

text \<open>What comes after a text without the token: nothing, or something with the first byte of a token.\<close>

definition opens :: "'a list \<Rightarrow> 'a list \<Rightarrow> bool" where
  "opens a y \<longleftrightarrow> y = [] \<or> hd y = hd a"

lemma opens_simps [simp]: "opens a []" "a \<noteq> [] \<Longrightarrow> opens a (a @ y)"
  by (simp_all add: opens_def)

lemma special_Nil [simp]: "\<not> special []"
  by (simp add: special_def)

lemma prefix_at_start:
  assumes "special a" and "opens a y" and "x \<noteq> []" and "take (length a) (x @ y) = a"
  shows "take (length a) x = a"
proof (cases "length a \<le> length x")
  case True
  then show ?thesis using assms(4) by simp
next
  case False
  then have a: "a = x @ take (length a - length x) y" using assms(4) by simp
  have "take (length a - length x) y \<noteq> []" using False a by (metis append_Nil2 le_refl)
  then obtain k z where y: "y = z # tl y" "take (length a - length x) y = z # take k (tl y)"
    by (cases y; cases "length a - length x") auto
  have "z = hd a" using assms(2) y(1) by (cases y) (auto simp: opens_def)
  moreover have "z \<in> set (tl a)" using a assms(3) y(2) by (metis append_is_Nil_conv in_set_conv_decomp tl_append2)
  ultimately show ?thesis using assms(1) by (simp add: special_def)
qed

lemma find_str_append:
  assumes "special a" and "opens a y"
  shows "\<not> occurs a x \<Longrightarrow> find_str a (x @ y) = map_option (\<lambda>p. length x + p) (find_str a y)"
proof (induction x)
  case Nil
  then show ?case by (simp add: option.map_ident)
next
  case (Cons c x)
  have "take (length a) (c # x) \<noteq> a" "\<not> occurs a x" using Cons.prems by (auto simp: occurs_def split: if_splits)
  moreover from this have "take (length a) (c # x @ y) \<noteq> a"
    using prefix_at_start [OF assms, of "c # x"] by auto
  ultimately show ?case using Cons.IH by (simp add: option.map_comp comp_def)
qed

lemma find_str_start [simp]: "a \<noteq> [] \<Longrightarrow> find_str a (a @ y) = Some 0"
  by (cases a) simp_all

lemma occurs_append: "special a \<Longrightarrow> opens a y \<Longrightarrow> \<not> occurs a x \<Longrightarrow> occurs a (x @ y) \<longleftrightarrow> occurs a y"
  by (simp add: occurs_def find_str_append)

lemma find_str_special: "special a \<Longrightarrow> \<not> occurs a x \<Longrightarrow> find_str a (x @ a @ y) = Some (length x)"
  by (cases "a = []") (simp_all add: find_str_append)

lemma replace_all_none: "\<not> occurs a s \<Longrightarrow> replace_all a b s = s"
  by (simp add: replace_all.simps [of a b s] occurs_def)

lemma replace_all_token:
  assumes "special a" and "\<not> occurs a x"
  shows "replace_all a b (x @ a @ y) = x @ b @ replace_all a b y"
proof -
  have "a \<noteq> []" using assms(1) by (auto simp: special_def)
  then show ?thesis
    using find_str_special [OF assms] by (subst replace_all.simps) simp
qed

lemma split_str_none: "\<not> occurs a s \<Longrightarrow> split_str a s = [s]"
  by (simp add: split_str.simps [of a s] occurs_def)

lemma split_str_token:
  assumes "special a" and "\<not> occurs a x"
  shows "split_str a (x @ a @ y) = x # split_str a y"
proof -
  have "a \<noteq> []" using assms(1) by (auto simp: special_def)
  then show ?thesis using find_str_special [OF assms] by (subst split_str.simps) simp
qed

text \<open>A repeated token, then a text.\<close>

lemma str_repeat_simps [simp]: "str_repeat 0 s = []" "str_repeat (Suc k) s = s @ str_repeat k s"
  by (simp_all add: str_repeat_def)

lemma replace_all_repeat:
  assumes "special a"
  shows "replace_all a b (str_repeat k a @ y) = str_repeat k b @ replace_all a b y"
proof (induction k)
  case (Suc k)
  have "\<not> occurs a []" using assms by (auto simp: occurs_def special_def)
  from replace_all_token [OF assms this, of b "str_repeat k a @ y"] Suc show ?case by simp
qed simp

lemma replace_all_text:
  assumes "special a" and "\<not> occurs a x" and "opens a y"
  shows "replace_all a b (x @ y) = x @ replace_all a b y"
proof (cases "find_str a y")
  case None
  then show ?thesis using assms find_str_append [of a y x] by (simp add: replace_all_none occurs_def)
next
  case (Some p)
  have "a \<noteq> []" using assms(1) by (auto simp: special_def)
  then show ?thesis
    using Some find_str_append [OF assms(1,3,2)] by (simp add: replace_all.simps [of a b "x @ y"] replace_all.simps [of a b y])
qed

text \<open>Texts around tokens: a text, and then pairs of what stands between and the next text.\<close>

definition weave :: "'a list \<Rightarrow> ('a list \<times> 'a list) list \<Rightarrow> 'a list" where
  "weave p sps = p @ concat (map (\<lambda>(s, p). s @ p) sps)"

lemma weave_simps [simp]: "weave p [] = p" "weave p ((s, q) # sps) = p @ s @ weave q sps"
  by (simp_all add: weave_def)

lemma split_weave:
  assumes "special a" and "\<not> occurs a p" and "\<forall>q \<in> set qs. \<not> occurs a q"
  shows "split_str a (weave p (map (\<lambda>q. (a, q)) qs)) = p # qs"
  using assms(2,3) by (induction qs arbitrary: p) (simp_all add: split_str_none split_str_token [OF assms(1)])

end
