(* ===== verification/Options.thy ===== *)
theory Options
  imports Auto_Map Default_Scheduler Substrings
begin

text \<open>
  What \<^verbatim>\<open>main\<close> of \<^verbatim>\<open>mistralrs-server/src/main.rs\<close> makes of its options (the benchmark and the
  Python bindings repeat these lines): the layers of each device, whether PagedAttention is used and with
  how much memory, and which scheduler runs. Options are strings as the shell gives them; the
  list of layers is already cut at semicolons.
\<close>

section \<open>Numbers\<close>

definition is_digit :: "rchar \<Rightarrow> bool" where
  "is_digit c \<longleftrightarrow> 48 \<le> c \<and> c \<le> 57"

text \<open>\<^verbatim>\<open>str::parse::<usize>\<close>: digits, perhaps after a plus sign, below \<open>2 ^ 64\<close>.\<close>

definition digits_value :: "rstring \<Rightarrow> nat" where
  "digits_value ds = foldl (\<lambda>n d. n * 10 + (d - 48)) 0 ds"

definition parse_usize :: "rstring \<Rightarrow> nat option" where
  "parse_usize s =
     (let ds = (case s of [] \<Rightarrow> [] | c # r \<Rightarrow> if c = 43 then r else s)
      in if ds \<noteq> [] \<and> list_all is_digit ds \<and> digits_value ds < 2 ^ 64 then Some (digits_value ds) else None)"

section \<open>Layers of devices\<close>

text \<open>\<^verbatim>\<open>splitn(2, ':')\<close>.\<close>

definition split_colon :: "rstring \<Rightarrow> rstring list" where
  "split_colon s = (if 58 \<in> set s then [takeWhile (\<lambda>c. c \<noteq> 58) s, tl (dropWhile (\<lambda>c. c \<noteq> 58) s)] else [s])"

definition expect :: "string \<Rightarrow> 'a option \<Rightarrow> 'a res" where
  "expect msg x = (case x of None \<Rightarrow> Err (Panic msg) | Some v \<Rightarrow> Ok v)"

definition add_layers :: "rstring \<Rightarrow> device_layer list \<Rightarrow> device_layer list res" where
  "add_layers layer mapping =
     (let parts = split_colon layer
      in if length parts < 2 then Err (Panic ''Expected layer to be of format ORD:NUM'')
         else rbind (vget parts 0) (\<lambda>a. rbind (expect ''Failed to parse as integer.'' (parse_usize a)) (\<lambda>ord.
              rbind (vget parts 1) (\<lambda>b. rbind (expect ''Failed to parse as integer.'' (parse_usize b)) (\<lambda>num.
              if \<exists>m \<in> set mapping. dl_ordinal m = ord then Err (Panic ''Duplicate ordinal'')
              else Ok (mapping @ [\<lparr>dl_ordinal = ord, dl_layers = num\<rparr>]))))))"

definition parse_layers :: "rstring list \<Rightarrow> device_layer list res" where
  "parse_layers ls =
     (case (ls, map parse_usize ls) of
        ([_], [Some layers]) \<Rightarrow> Ok [\<lparr>dl_ordinal = 0, dl_layers = layers\<rparr>]
      | _ \<Rightarrow> rfold add_layers ls [])"

definition device_map_option :: "rstring list option \<Rightarrow> auto_device_map_params \<Rightarrow> ('c, auto_device_map_params) device_map_setting res" where
  "device_map_option num_device_layers auto_params =
     (case num_device_layers of
        Some ls \<Rightarrow> rbind (parse_layers ls) (\<lambda>mapping. Ok (SettingMap (from_num_device_layers mapping)))
      | None \<Rightarrow> Ok (SettingAuto auto_params))"

section \<open>PagedAttention and the scheduler\<close>

record 'u options =
  op_max_seqs :: nat
  op_prompt_chunksize :: "nat option"
  op_num_device_layers :: "rstring list option"
  op_gpu_mem :: "nat option"
  op_gpu_mem_usage :: "'u option"
  op_ctxt_len :: "nat option"
  op_block_size :: "nat option"
  op_no_paged_attn :: bool
  op_paged_attn :: bool
  op_cpu :: bool

definition disables_paged_attn :: "device \<Rightarrow> bool \<Rightarrow> bool \<Rightarrow> bool" where
  "disables_paged_attn device no_paged_attn paged_attn =
     (case device of Cuda _ \<Rightarrow> no_paged_attn | Metal _ \<Rightarrow> \<not> paged_attn | Cpu \<Rightarrow> True)"

definition paged_config :: "nat option \<Rightarrow> nat \<Rightarrow> 'u memory_gpu_config \<Rightarrow> 'u paged_attention_config" where
  "paged_config block_size mem_cpu mem_gpu = \<lparr>pac_block_size = block_size, pac_mem_cpu = mem_cpu, pac_mem_gpu = mem_gpu\<rparr>"

text \<open>\<open>ninety\<close> is \<^verbatim>\<open>0.9\<close>.\<close>

fun cache_option :: "'u \<Rightarrow> nat option \<times> nat option \<times> 'u option \<times> nat option \<times> bool \<times> bool \<Rightarrow> 'u paged_attention_config option" where
  "cache_option ninety (block_size, None, None, None, True, False) = Some (paged_config block_size 512 (Utilization ninety))"
| "cache_option ninety (block_size, None, None, Some ctxt, True, False) = Some (paged_config block_size 512 (ContextSize ctxt))"
| "cache_option ninety (block_size, None, Some f, None, True, False) = Some (paged_config block_size 512 (Utilization f))"
| "cache_option ninety (block_size, Some m, None, None, True, False) = Some (paged_config block_size 512 (MbAmount m))"
| "cache_option ninety (block_size, Some m, Some f, None, True, False) = Some (paged_config block_size 512 (Utilization f))"
| "cache_option ninety (block_size, Some m, None, Some ctxt, True, False) = Some (paged_config block_size 512 (ContextSize ctxt))"
| "cache_option ninety (block_size, None, Some f, Some ctxt, True, False) = Some (paged_config block_size 512 (Utilization f))"
| "cache_option ninety _ = None"

datatype scheduler_config = FixedScheduler nat | PagedAttentionMeta nat cache_config

definition non_zero :: "nat \<Rightarrow> nat res" where
  "non_zero n = (if n = 0 then Err (Panic ''called `Result::unwrap()` on an `Err` value'') else Ok n)"

definition scheduler_option :: "'u paged_attention_config option \<Rightarrow> cache_config option \<Rightarrow> nat \<Rightarrow> scheduler_config res" where
  "scheduler_option paged pipeline_config max_seqs =
     (case (paged, pipeline_config) of
        (Some _, Some config) \<Rightarrow> Ok (PagedAttentionMeta max_seqs config)
      | _ \<Rightarrow> rbind (non_zero max_seqs) (\<lambda>n. Ok (FixedScheduler n)))"

text \<open>
  The choices of \<^verbatim>\<open>main\<close>: \<open>load\<close> loads the model with the mapping and the cache, and returns the cache
  configuration of the pipeline. An X-LoRA model with a non-granular index runs one sequence.
\<close>

definition configure :: "'u \<Rightarrow> device \<Rightarrow> bool \<Rightarrow> bool \<Rightarrow> auto_device_map_params
    \<Rightarrow> (('c, auto_device_map_params) device_map_setting \<Rightarrow> 'u paged_attention_config option \<Rightarrow> cache_config option res)
    \<Rightarrow> 'u options \<Rightarrow> scheduler_config res" where
  "configure ninety gpu non_granular supported auto_params load args =
     (let max_seqs = (if non_granular then 1 else op_max_seqs args) in
      if op_prompt_chunksize args = Some 0 then Err (Bail ''`prompt_chunksize` must be a strictly positive integer, got 0.'')
      else
        let device = (if op_cpu args then Cpu else gpu);
            no_paged = op_no_paged_attn args \<or> op_cpu args
        in rbind (device_map_option (op_num_device_layers args) auto_params) (\<lambda>mapper.
           let paged = cache_option ninety (op_block_size args, op_gpu_mem args, op_gpu_mem_usage args, op_ctxt_len args,
             supported, disables_paged_attn device no_paged (op_paged_attn args))
           in rbind (load mapper paged) (\<lambda>pipeline_config. scheduler_option paged pipeline_config max_seqs)))"

section \<open>The layers are read back\<close>

text \<open>\<^verbatim>\<open>ORD:NUM\<close> for a device.\<close>

definition layers_text :: "device_layer \<Rightarrow> rstring" where
  "layers_text m = decimal (dl_ordinal m) @ [58] @ decimal (dl_layers m)"

lemma digit_char: "d < 10 \<Longrightarrow> is_digit (48 + d)"
  by (simp add: is_digit_def)

lemma decimal_digits: "list_all is_digit (decimal n)"
  by (induction n rule: decimal.induct) (subst decimal.simps, simp add: digit_char)

lemma decimal_not_Nil: "decimal n \<noteq> []"
  by (subst decimal.simps) simp

lemma decimal_value: "digits_value (decimal n) = n"
proof (induction n rule: decimal.induct)
  case (1 n)
  have "digits_value (xs @ [48 + d]) = digits_value xs * 10 + d" for xs d by (simp add: digits_value_def)
  moreover have "digits_value (if n div 10 = 0 then [] else decimal (n div 10)) = n div 10"
    using 1 by (simp add: digits_value_def)
  ultimately show ?case by (subst decimal.simps) (simp only: div_mult_mod_eq)
qed

lemma parse_decimal: "n < 2 ^ 64 \<Longrightarrow> parse_usize (decimal n) = Some n"
proof -
  assume n: "n < 2 ^ 64"
  obtain c r where d: "decimal n = c # r" using decimal_not_Nil [of n] by (cases "decimal n") auto
  then have "c \<noteq> 43" using decimal_digits [of n] by (auto simp: is_digit_def)
  then show ?thesis using decimal_digits [of n] decimal_value [of n] d n by (simp add: parse_usize_def)
qed

lemma no_colon: "list_all is_digit ds \<Longrightarrow> 58 \<notin> set ds"
  by (auto simp: list_all_iff is_digit_def)

lemma cut_at_colon:
  "58 \<notin> set ds \<Longrightarrow> takeWhile (\<lambda>c. c \<noteq> 58) (ds @ 58 # xs) = ds \<and> dropWhile (\<lambda>c. c \<noteq> 58) (ds @ 58 # xs) = 58 # xs"
  by (induction ds) auto

lemma split_layers: "split_colon (layers_text m) = [decimal (dl_ordinal m), decimal (dl_layers m)]"
  using cut_at_colon [OF no_colon [OF decimal_digits]] by (simp add: split_colon_def layers_text_def)

lemma add_layers_text:
  assumes "dl_ordinal m < 2 ^ 64" and "dl_layers m < 2 ^ 64" and "dl_ordinal m \<notin> dl_ordinal ` set ms"
  shows "add_layers (layers_text m) ms = Ok (ms @ [m])"
proof -
  have "\<not> (\<exists>m' \<in> set ms. dl_ordinal m' = dl_ordinal m)" using assms(3) by (metis image_eqI)
  then show ?thesis using assms(1,2) by (simp add: add_layers_def split_layers parse_decimal expect_def)
qed

text \<open>
  Layers are read back. The layers of any number of devices with distinct ordinals, written as
  \<^verbatim>\<open>ORD:NUM\<close>, are read as they were written.
\<close>

theorem layers_are_read_back:
  assumes "distinct (map dl_ordinal ms)" and "\<forall>m \<in> set ms. dl_ordinal m < 2 ^ 64 \<and> dl_layers m < 2 ^ 64"
  shows "parse_layers (map layers_text ms) = Ok ms"
proof -
  have "rfold add_layers (map layers_text ms) pre = Ok (pre @ ms)"
    if "distinct (map dl_ordinal (pre @ ms))" "\<forall>m \<in> set ms. dl_ordinal m < 2 ^ 64 \<and> dl_layers m < 2 ^ 64" for pre
    using that
  proof (induction ms arbitrary: pre)
    case (Cons m ms)
    then have "add_layers (layers_text m) pre = Ok (pre @ [m])" by (intro add_layers_text) auto
    moreover have "rfold add_layers (map layers_text ms) (pre @ [m]) = Ok ((pre @ [m]) @ ms)"
      by (rule Cons.IH) (use Cons.prems in auto)
    ultimately show ?case by simp
  qed simp
  from this [of "[]"] have all: "rfold add_layers (map layers_text ms) [] = Ok ms" using assms by simp
  have "parse_usize (layers_text m) = None" for m
  proof -
    have "58 \<in> set (layers_text m)" "layers_text m \<noteq> []" "layers_text m ! 0 \<noteq> 43" 
      using decimal_digits [of "dl_ordinal m"] decimal_not_Nil [of "dl_ordinal m"]
      by (auto simp: layers_text_def nth_append list_all_length is_digit_def)
    then show ?thesis
      by (cases "layers_text m") (force simp: parse_usize_def Let_def list_all_iff is_digit_def)+
  qed
  then show ?thesis using all by (auto simp: parse_layers_def split: list.split option.split)
qed

section \<open>The memory of PagedAttention\<close>

text \<open>
  Which option of the cache counts. As documented, a usage goes before a context length, and that before
  an amount of memory, with a usage of 0.9 when nothing is given. But when all three are given,
  PagedAttention is silently off.
\<close>

theorem cache_options_have_a_priority:
  "cache_option ninety (block_size, mem, usage, ctxt, True, False) =
     (if mem \<noteq> None \<and> usage \<noteq> None \<and> ctxt \<noteq> None then None
      else Some (paged_config block_size 512
        (case usage of Some f \<Rightarrow> Utilization f
         | None \<Rightarrow> (case ctxt of Some n \<Rightarrow> ContextSize n
           | None \<Rightarrow> (case mem of Some m \<Rightarrow> MbAmount m | None \<Rightarrow> Utilization ninety)))))"
  by (cases mem; cases usage; cases ctxt) simp_all

section \<open>Witnesses\<close>

theorem layers_are_read_back_witness:
  "parse_layers [[48, 58, 49, 54], [49, 58, 56]]
    = Ok [\<lparr>dl_ordinal = 0, dl_layers = 16\<rparr>, \<lparr>dl_ordinal = 1, dl_layers = 8\<rparr>]"
proof -
  have "map layers_text [\<lparr>dl_ordinal = 0, dl_layers = 16\<rparr>, \<lparr>dl_ordinal = 1, dl_layers = 8\<rparr>]
      = [[48, 58, 49, 54], [49, 58, 56]]"
    by (simp add: layers_text_def decimal.simps)
  then show ?thesis
    using layers_are_read_back [of "[\<lparr>dl_ordinal = 0, dl_layers = 16\<rparr>, \<lparr>dl_ordinal = 1, dl_layers = 8\<rparr>]"] by simp
qed

end
