(* ===== verification/Nd_Tensor.thy ===== *)
theory Nd_Tensor
  imports Prelude
begin

text \<open>
  What the input processors of the vision models use of candle: tensors as a shape and the
  elements by multi-index, row-major reshaping, permuting of dimensions, assigning to a slice,
  stacking and repeating along the first dimension; and \<^verbatim>\<open>context\<close>, which makes an error of a missing value.
\<close>

section \<open>Operations\<close>

definition context_of :: "string \<Rightarrow> 'a option \<Rightarrow> 'a res" where
  "context_of msg x = (case x of None \<Rightarrow> Err (Bail msg) | Some v \<Rightarrow> Ok v)"

record 'a nd =
  nd_shape :: "nat list"
  nd_at :: "nat list \<Rightarrow> 'a"

fun ravel :: "nat list \<Rightarrow> nat list \<Rightarrow> nat" where
  "ravel (d # ds) (i # ix) = i * prod_list ds + ravel ds ix"
| "ravel _ _ = 0"

fun unravel :: "nat list \<Rightarrow> nat \<Rightarrow> nat list" where
  "unravel [] n = []"
| "unravel (d # ds) n = n div prod_list ds # unravel ds (n mod prod_list ds)"

definition reshape :: "nat list \<Rightarrow> 'a nd \<Rightarrow> 'a nd res" where
  "reshape sh t =
     (if prod_list sh \<noteq> prod_list (nd_shape t) then Err (Bail ''shape mismatch in reshape'')
      else Ok \<lparr>nd_shape = sh, nd_at = (\<lambda>ix. nd_at t (unravel (nd_shape t) (ravel sh ix)))\<rparr>)"

fun index_of :: "nat \<Rightarrow> nat list \<Rightarrow> nat" where
  "index_of x [] = 0"
| "index_of x (y # ys) = (if x = y then 0 else index_of x ys + 1)"

definition permute :: "nat list \<Rightarrow> 'a nd \<Rightarrow> 'a nd" where
  "permute p t = \<lparr>nd_shape = map (\<lambda>d. nd_shape t ! d) p,
     nd_at = (\<lambda>ix. nd_at t (map (\<lambda>d. ix ! index_of d p) [0..<length p]))\<rparr>"

definition inside :: "nat list \<Rightarrow> nat list \<Rightarrow> bool" where
  "inside ix sh \<longleftrightarrow> list_all2 (<) ix sh"

text \<open>\<^verbatim>\<open>slice_assign\<close> with ranges that start at 0, after the fixed first indexes \<open>pre\<close>.\<close>

definition slice_assign :: "nat list \<Rightarrow> 'a nd \<Rightarrow> 'a nd \<Rightarrow> 'a nd res" where
  "slice_assign pre src t =
     (let n = length pre in
      if \<not> (length (nd_shape t) = n + length (nd_shape src) \<and> inside pre (take n (nd_shape t))
            \<and> list_all2 (\<le>) (nd_shape src) (drop n (nd_shape t))) then Err (Bail ''slice-assign: out of range'')
      else Ok (t\<lparr>nd_at := (\<lambda>ix. if take n ix = pre \<and> inside (drop n ix) (nd_shape src) then nd_at src (drop n ix)
                              else nd_at t ix)\<rparr>))"

definition zeros :: "nat list \<Rightarrow> 'a::zero nd" where
  "zeros sh = \<lparr>nd_shape = sh, nd_at = (\<lambda>_. 0)\<rparr>"

definition ones :: "nat list \<Rightarrow> 'a::one nd" where
  "ones sh = \<lparr>nd_shape = sh, nd_at = (\<lambda>_. 1)\<rparr>"

lemma zeros_simps [simp]: "nd_shape (zeros sh) = sh" "nd_at (zeros sh) ix = 0"
  by (simp_all add: zeros_def)

lemma ones_simps [simp]: "nd_shape (ones sh) = sh" "nd_at (ones sh) ix = 1"
  by (simp_all add: ones_def)

definition dims3 :: "'a nd \<Rightarrow> (nat \<times> nat \<times> nat) res" where
  "dims3 t = (case nd_shape t of [c, h, w] \<Rightarrow> Ok (c, h, w) | _ \<Rightarrow> Err (Bail ''unexpected rank''))"

text \<open>\<^verbatim>\<open>Tensor::stack(_, 0)\<close> and \<^verbatim>\<open>repeat((n, 1, 1, ..))\<close>.\<close>

definition stack :: "'a nd list \<Rightarrow> 'a nd res" where
  "stack ts =
     (case ts of [] \<Rightarrow> Err (Bail ''cat requires at least one tensor'')
      | t # _ \<Rightarrow> if \<forall>t' \<in> set ts. nd_shape t' = nd_shape t
          then Ok \<lparr>nd_shape = length ts # nd_shape t, nd_at = (\<lambda>ix. nd_at (ts ! hd ix) (tl ix))\<rparr>
          else Err (Bail ''shape mismatch in cat''))"

definition repeat_first :: "nat \<Rightarrow> 'a nd \<Rightarrow> 'a nd" where
  "repeat_first n t = \<lparr>nd_shape = n * hd (nd_shape t) # tl (nd_shape t),
     nd_at = (\<lambda>ix. nd_at t (hd ix mod hd (nd_shape t) # tl ix))\<rparr>"

text \<open>\<^verbatim>\<open>mistralrs_vision::pad\<close>: zeros on the right and at the bottom.\<close>

definition pad_to :: "'a::zero nd \<Rightarrow> nat \<Rightarrow> nat \<Rightarrow> 'a nd res" where
  "pad_to img max_h max_w = rbind (dims3 img) (\<lambda>(c, h, w). slice_assign [] img (zeros [c, max_h, max_w]))"

section \<open>Indexes\<close>

lemma inside_Cons [simp]: "inside (i # ix) (d # ds) \<longleftrightarrow> i < d \<and> inside ix ds"
  by (simp add: inside_def)

lemma inside_Nil [simp]: "inside [] ds \<longleftrightarrow> ds = []" "inside ix [] \<longleftrightarrow> ix = []"
  by (auto simp: inside_def list_all2_Nil list_all2_Nil2)

lemma ravel_less: "inside ix sh \<Longrightarrow> ravel sh ix < prod_list sh"
proof (induction sh arbitrary: ix)
  case (Cons d ds)
  then obtain i ix' where ix: "ix = i # ix'" "i < d" "inside ix' ds"
    by (cases ix) (auto simp: inside_def)
  have "i * prod_list ds + ravel ds ix' < i * prod_list ds + prod_list ds" using Cons.IH [OF ix(3)] by simp
  also have "\<dots> = Suc i * prod_list ds" by simp
  also have "\<dots> \<le> d * prod_list ds" using ix(2) by (intro mult_le_mono1) simp
  finally show ?case using ix(1) by simp
qed simp

lemma unravel_ravel: "inside ix sh \<Longrightarrow> unravel sh (ravel sh ix) = ix"
proof (induction sh arbitrary: ix)
  case (Cons d ds)
  then obtain i ix' where ix: "ix = i # ix'" "i < d" "inside ix' ds"
    by (cases ix) (auto simp: inside_def)
  have less: "ravel ds ix' < prod_list ds" by (rule ravel_less [OF ix(3)])
  then have "0 < prod_list ds" by linarith
  then show ?case using ix less Cons.IH [OF ix(3)] by simp
qed simp

text \<open>Splitting a dimension in two, and joining two.\<close>

lemma split_nat_index: "(t::nat) < n * m \<Longrightarrow> t div m < n \<and> t mod m < m \<and> t div m * m + t mod m = t"
  by (cases "m = 0") (auto simp: less_mult_imp_div_less)

lemma join_index: "i < n \<Longrightarrow> j < m \<Longrightarrow> i * m + j < n * (m::nat)"
proof -
  assume "i < n" "j < m"
  then have "i * m + j < i * m + m" by simp
  also have "\<dots> = Suc i * m" by simp
  also have "\<dots> \<le> n * m" using \<open>i < n\<close> by (intro mult_le_mono1) simp
  finally show ?thesis .
qed

lemma slice_assign_ok:
  assumes "length (nd_shape t) = length pre + length (nd_shape src)" and "inside pre (take (length pre) (nd_shape t))"
    and "list_all2 (\<le>) (nd_shape src) (drop (length pre) (nd_shape t))"
  obtains t' where "slice_assign pre src t = Ok t'" and "nd_shape t' = nd_shape t"
    and "\<And>ix. nd_at t' ix = (if take (length pre) ix = pre \<and> inside (drop (length pre) ix) (nd_shape src)
      then nd_at src (drop (length pre) ix) else nd_at t ix)"
  by (rule that [of "t\<lparr>nd_at := _\<rparr>"]) (use assms in \<open>simp_all add: slice_assign_def Let_def\<close>)

end
