(* ===== verification/Mllama.thy ===== *)
theory Mllama
  imports Complex_Main Nd_Tensor
begin

text \<open>
  The images of Llama 3.2 Vision (\<^verbatim>\<open>mistralrs-core/src/vision_models/mllama/inputs_processor.rs\<close>): which
  tokens attend to which images, and how an image is resized, padded and cut into tiles.

  An image is its height and width, a tensor its shape and its elements by multi-index. Scales
  are 32 bit floating point numbers: the quotient \<open>fdiv\<close> of two sizes and \<open>floor_mul\<close>, the
  rounded down product of a size and a scale, are parameters, and the scales are linearly ordered (sizes
  are positive, so that no scale is NaN).
\<close>

section \<open>Cross attention\<close>

definition positions_of :: "nat \<Rightarrow> nat list \<Rightarrow> nat list" where
  "positions_of t toks = filter (\<lambda>i. toks ! i = t) [0..<length toks]"

text \<open>The loop from the last mask to the first; \<open>e\<close> is \<^verbatim>\<open>last_mask_end\<close>.\<close>

fun extend_masks :: "int \<Rightarrow> (int \<times> int) list \<Rightarrow> (int \<times> int) list" where
  "extend_masks e [] = []"
| "extend_masks e ((a, b) # rev_masks) =
     (let b = (if a = b - 1 then e else b) in (a, b) # extend_masks b rev_masks)"

definition get_cross_attention_token_mask :: "nat list \<Rightarrow> nat \<Rightarrow> (int \<times> int) list" where
  "get_cross_attention_token_mask input_ids image_token_id =
     (let locs = positions_of image_token_id input_ids in
      if locs = [] then []
      else if length locs = 1 then [(int (locs ! 0), - 1)]
      else let vision_masks = zip (map int (butlast locs)) (map int (tl locs)) @ [(int (last locs), int (length input_ids))]
           in rev (extend_masks (snd (last vision_masks)) (rev vision_masks)))"

text \<open>
  The dense mask as a function of the sequence, the position, the image and the tile. An
  assignment outside of the mask is an error, and so is an empty \<^verbatim>\<open>max\<close> of no sequences.
\<close>

type_synonym dense_mask = "nat \<Rightarrow> nat \<Rightarrow> nat \<Rightarrow> nat \<Rightarrow> int"

definition as_usize :: "int \<Rightarrow> nat" where
  "as_usize i = nat (i mod 2 ^ 64)"

definition mask_image :: "nat \<Rightarrow> nat \<Rightarrow> nat \<Rightarrow> nat \<Rightarrow> (nat \<times> (int \<times> int) \<times> nat) \<Rightarrow> dense_mask \<Rightarrow> dense_mask res" where
  "mask_image max_num_images max_num_tiles len sample = (\<lambda>(image, (start, stop), tiles) m.
     let stop = min stop (int len);
         stop = (if stop = - 1 then int len else stop);
         (a, b) = (as_usize start, as_usize stop)
     in rbind (usub b a) (\<lambda>_.
        if len < b \<or> max_num_images \<le> image \<or> max_num_tiles < tiles then Err (Bail ''slice_assign: out of range'')
        else Ok (\<lambda>s p k t. if s = sample \<and> a \<le> p \<and> p < b \<and> k = image \<and> t < tiles then 1 else m s p k t)))"

definition mask_sample :: "nat \<Rightarrow> nat \<Rightarrow> nat \<Rightarrow> (nat \<times> (int \<times> int) list \<times> nat list) \<Rightarrow> dense_mask \<Rightarrow> dense_mask res" where
  "mask_sample max_num_images max_num_tiles len = (\<lambda>(sample, masks, tiles) m.
     rfold (mask_image max_num_images max_num_tiles len sample) (List.enumerate 0 (zip masks tiles)) m)"

definition convert_sparse_cross_attention_mask_to_dense :: "(int \<times> int) list list \<Rightarrow> nat list list \<Rightarrow> nat \<Rightarrow> nat \<Rightarrow> dense_mask res" where
  "convert_sparse_cross_attention_mask_to_dense masks num_tiles max_num_tiles len =
     (if masks = [] then Err (Panic ''unwrap on None'')
      else rfold (mask_sample (Max (length ` set masks)) max_num_tiles len) (List.enumerate 0 (zip masks num_tiles))
             (\<lambda>_ _ _ _. 0))"

section \<open>The canvas\<close>

definition get_all_supported_aspect_ratios :: "nat \<Rightarrow> (nat \<times> nat) list" where
  "get_all_supported_aspect_ratios max_image_tiles =
     concat (map (\<lambda>width. List.map_filter (\<lambda>height. if width * height \<le> max_image_tiles then Some (width, height) else None)
       [1..<max_image_tiles + 1]) [1..<max_image_tiles + 1])"

fun argmin_loop :: "nat \<Rightarrow> 'a::linorder list \<Rightarrow> (nat \<times> 'a) option \<Rightarrow> (nat \<times> 'a) option" where
  "argmin_loop i [] acc = acc"
| "argmin_loop i (x # xs) acc =
     argmin_loop (i + 1) xs (case acc of None \<Rightarrow> Some (i, x)
       | Some (j, y) \<Rightarrow> if x < y then Some (i, x) else Some (j, y))"

definition argmin :: "'a::linorder list \<Rightarrow> nat option" where
  "argmin xs = map_option fst (argmin_loop 0 xs None)"

text \<open>\<^verbatim>\<open>min_by\<close> and \<^verbatim>\<open>max_by\<close> of an iterator.\<close>

definition min_of :: "'a::linorder list \<Rightarrow> 'a option" where
  "min_of xs = (if xs = [] then None else Some (Min (set xs)))"

definition max_of :: "'a::linorder list \<Rightarrow> 'a option" where
  "max_of xs = (if xs = [] then None else Some (Max (set xs)))"

definition select_scale :: "'f::{linorder,one} list \<Rightarrow> 'f res" where
  "select_scale scales =
     (let upscaling = filter (\<lambda>s. 1 \<le> s) scales
      in if upscaling \<noteq> [] then context_of ''No min, upscale'' (min_of upscaling)
         else context_of ''No max, downscale'' (max_of (filter (\<lambda>s. s < 1) scales)))"

text \<open>The smaller scale of the two sides of a canvas.\<close>

definition canvas_scale :: "(nat \<Rightarrow> nat \<Rightarrow> 'f::{linorder,one}) \<Rightarrow> nat \<Rightarrow> nat \<Rightarrow> nat \<times> nat \<Rightarrow> 'f" where
  "canvas_scale fdiv image_height image_width = (\<lambda>(h, w).
     if fdiv h image_height < fdiv w image_width then fdiv h image_height else fdiv w image_width)"

definition get_optimal_tiled_canvas :: "(nat \<Rightarrow> nat \<Rightarrow> 'f::{linorder,one}) \<Rightarrow> nat \<Rightarrow> nat \<Rightarrow> nat \<Rightarrow> nat \<Rightarrow> (nat \<times> nat) res" where
  "get_optimal_tiled_canvas fdiv image_height image_width max_image_tiles tile_size =
     (let sizes = map (\<lambda>(h, w). (h * tile_size, w * tile_size)) (get_all_supported_aspect_ratios max_image_tiles);
          scales = map (canvas_scale fdiv image_height image_width) sizes
      in rbind (select_scale scales) (\<lambda>selected.
         let chosen = map snd (filter (\<lambda>(s, _). s = selected) (zip scales sizes)) in
         if 1 < length chosen then
           rbind (context_of ''No argmin'' (argmin (map (\<lambda>(h, w). h * w) chosen))) (\<lambda>i. vget chosen i)
         else vget chosen 0))"

definition clamp :: "nat \<Rightarrow> nat \<Rightarrow> nat \<Rightarrow> nat res" where
  "clamp x lo hi = rbind (rassert (lo \<le> hi) ''assertion failed: min <= max'') (\<lambda>_. Ok (max lo (min x hi)))"

definition get_image_size_fit_to_canvas :: "(nat \<Rightarrow> nat \<Rightarrow> 'f::{linorder,one}) \<Rightarrow> (nat \<Rightarrow> 'f \<Rightarrow> nat)
    \<Rightarrow> nat \<Rightarrow> nat \<Rightarrow> nat \<Rightarrow> nat \<Rightarrow> nat \<Rightarrow> (nat \<times> nat) res" where
  "get_image_size_fit_to_canvas fdiv floor_mul image_height image_width canvas_height canvas_width tile_size =
     rbind (clamp image_width tile_size canvas_width) (\<lambda>target_width.
     rbind (clamp image_height tile_size canvas_height) (\<lambda>target_height.
     let scale_h = fdiv target_height image_height; scale_w = fdiv target_width image_width
     in Ok (if scale_w < scale_h then (min target_height (floor_mul image_height scale_w), target_width)
            else (target_height, min target_width (floor_mul image_width scale_h)))))"

text \<open>\<^verbatim>\<open>resize\<close>: the new size of the image and its numbers of tiles.\<close>

definition resize_image :: "(nat \<Rightarrow> nat \<Rightarrow> 'f::{linorder,one}) \<Rightarrow> (nat \<Rightarrow> 'f \<Rightarrow> nat) \<Rightarrow> nat \<Rightarrow> nat \<Rightarrow> nat \<times> nat
    \<Rightarrow> ((nat \<times> nat) \<times> (nat \<times> nat)) res" where
  "resize_image fdiv floor_mul tile_size max_image_tiles = (\<lambda>(image_height, image_width).
     rbind (get_optimal_tiled_canvas fdiv image_height image_width max_image_tiles tile_size) (\<lambda>(canvas_height, canvas_width).
     rbind (udiv canvas_height tile_size) (\<lambda>tiles_h.
     rbind (udiv canvas_width tile_size) (\<lambda>tiles_w.
     rbind (get_image_size_fit_to_canvas fdiv floor_mul image_height image_width canvas_height canvas_width tile_size)
       (\<lambda>size. Ok (size, (tiles_h, tiles_w)))))))"

section \<open>Tiles\<close>

definition split_to_tiles :: "'a nd \<Rightarrow> nat \<Rightarrow> nat \<Rightarrow> 'a nd res" where
  "split_to_tiles img tiles_h tiles_w =
     rbind (dims3 img) (\<lambda>(ch, h, w).
     rbind (udiv h tiles_h) (\<lambda>tile_height.
     rbind (udiv w tiles_w) (\<lambda>tile_width.
     rbind (reshape [ch, tiles_h, tile_height, tiles_w, tile_width] img) (\<lambda>img.
     reshape [tiles_w * tiles_h, ch, tile_height, tile_width] (permute [1, 3, 0, 2, 4] img)))))"

definition pack_image :: "nat \<times> 'a nd \<Rightarrow> 'a nd \<times> nat list \<Rightarrow> ('a nd \<times> nat list) res" where
  "pack_image = (\<lambda>(i, img) (stacked, num_tiles).
     rbind (slice_assign [i] img stacked) (\<lambda>stacked. Ok (stacked, num_tiles @ [hd (nd_shape img)])))"

definition pack_images :: "'a::zero nd list \<Rightarrow> nat \<Rightarrow> nat \<Rightarrow> ('a nd \<times> nat list) res" where
  "pack_images images max_image_tiles max_num_images =
     rbind (vget images 0) (\<lambda>first.
     case nd_shape first of
       [_, ch, tile_h, tile_w] \<Rightarrow>
         rfold pack_image (List.enumerate 0 images) (zeros [max_num_images, max_image_tiles, ch, tile_h, tile_w], [])
     | _ \<Rightarrow> Err (Bail ''unexpected rank''))"

definition aspect_ratio_id :: "nat \<Rightarrow> nat \<times> (nat \<times> nat) \<Rightarrow> nat list \<Rightarrow> nat list res" where
  "aspect_ratio_id max_image_tiles = (\<lambda>(i, ratio) ids.
     let supported = get_all_supported_aspect_ratios max_image_tiles
     in rbind (context_of ''Could not find aspect ratio''
          (if ratio \<in> set supported then Some (length (takeWhile (\<lambda>r. r \<noteq> ratio) supported)) else None)) (\<lambda>pos.
        vset ids i (pos + 1)))"

definition convert_aspect_ratios_to_ids :: "(nat \<times> nat) list \<Rightarrow> nat \<Rightarrow> nat \<Rightarrow> nat list res" where
  "convert_aspect_ratios_to_ids ratios max_image_tiles max_num_images =
     rfold (aspect_ratio_id max_image_tiles) (List.enumerate 0 ratios) (replicate max_num_images 0)"

definition build_aspect_ratio_mask :: "(nat \<times> nat) list \<Rightarrow> nat \<Rightarrow> nat \<Rightarrow> int nd res" where
  "build_aspect_ratio_mask ratios max_image_tiles max_num_images =
     rbind (slice_assign [] (ones [max_num_images, 1]) (zeros [max_num_images, max_image_tiles])) (\<lambda>m.
     rfold (\<lambda>(i, (h, w)) m. slice_assign [i] (ones [h * w]) m) (List.enumerate 0 ratios) m)"

section \<open>Preprocessing\<close>

text \<open>
  \<open>im_dims\<close> and \<open>im_tensor\<close> (\<^verbatim>\<open>resize_exact\<close> to a height and width and the conversion to channels of
  numbers) are the image library, \<open>im_transform\<close> rescales and normalizes.
\<close>

record ('i, 'a) image_ops =
  im_dims :: "'i \<Rightarrow> nat \<times> nat"
  im_tensor :: "'i \<Rightarrow> nat \<Rightarrow> nat \<Rightarrow> 'a nd"
  im_transform :: "'a nd \<Rightarrow> 'a nd"

record preprocessor_config =
  pp_max_image_tiles :: "nat option"
  pp_size :: "(nat \<times> nat) option"

record 'a preprocessed =
  pre_pixel_values :: "'a nd"
  pre_aspect_ratio_ids :: "nat list"
  pre_aspect_ratio_mask :: "int nd"
  pre_num_tiles :: "nat list"

definition preprocess_image :: "('i, 'a::zero) image_ops \<Rightarrow> (nat \<Rightarrow> nat \<Rightarrow> 'f::{linorder,one}) \<Rightarrow> (nat \<Rightarrow> 'f \<Rightarrow> nat) \<Rightarrow> nat
    \<Rightarrow> (nat \<times> nat) option \<Rightarrow> 'i \<Rightarrow> ('a nd \<times> (nat \<times> nat)) res" where
  "preprocess_image ops fdiv floor_mul max_image_tiles sz img =
     rbind (context_of ''need `size`!'' sz) (\<lambda>(size_height, size_width).
     rbind (resize_image fdiv floor_mul size_height max_image_tiles (im_dims ops img)) (\<lambda>((h, w), (tiles_h, tiles_w)).
     rbind (pad_to (im_tensor ops img h w) (tiles_h * size_height) (tiles_w * size_width)) (\<lambda>padded.
     rbind (split_to_tiles (im_transform ops padded) tiles_h tiles_w) (\<lambda>tiles.
     Ok (tiles, (tiles_h, tiles_w))))))"

definition preprocess :: "('i, 'a::zero) image_ops \<Rightarrow> (nat \<Rightarrow> nat \<Rightarrow> 'f::{linorder,one}) \<Rightarrow> (nat \<Rightarrow> 'f \<Rightarrow> nat) \<Rightarrow> preprocessor_config
    \<Rightarrow> nat \<Rightarrow> 'i list \<Rightarrow> 'a preprocessed res" where
  "preprocess ops fdiv floor_mul config max_num_images images =
     rbind (context_of ''need `max_image_tiles`!'' (pp_max_image_tiles config)) (\<lambda>max_image_tiles.
     rbind (rmap (preprocess_image ops fdiv floor_mul max_image_tiles (pp_size config)) images) (\<lambda>samples.
     rbind (pack_images (map fst samples) max_image_tiles max_num_images) (\<lambda>(pixel_values, num_tiles).
     rbind (convert_aspect_ratios_to_ids (map snd samples) max_image_tiles max_num_images) (\<lambda>ids.
     rbind (build_aspect_ratio_mask (map snd samples) max_image_tiles max_num_images) (\<lambda>ratio_mask.
     Ok \<lparr>pre_pixel_values = pixel_values, pre_aspect_ratio_ids = ids, pre_aspect_ratio_mask = ratio_mask,
         pre_num_tiles = num_tiles\<rparr>)))))"

section \<open>Which tokens attend\<close>

text \<open>
  The reference: a token attends to an image from the position of the image on, up to the next
  image that follows a text. Images in a row are attended by the same text.
\<close>

definition attends :: "nat list \<Rightarrow> nat \<Rightarrow> nat \<Rightarrow> nat \<Rightarrow> bool" where
  "attends toks img l p \<longleftrightarrow> l \<le> p \<and> (\<forall>q. l < q \<and> q \<le> p \<and> toks ! q = img \<longrightarrow> toks ! (q - 1) = img)"

text \<open>The ends of the masks, forward.\<close>

fun ends_of :: "nat \<Rightarrow> nat list \<Rightarrow> nat list" where
  "ends_of len [] = []"
| "ends_of len [l] = [len]"
| "ends_of len (l # l' # ls) =
     (let es = ends_of len (l' # ls) in (if l' = l + 1 then hd es else l') # es)"

lemma length_ends_of [simp]: "length (ends_of len ls) = length ls"
  by (induction len ls rule: ends_of.induct) (simp_all add: Let_def)

lemma attends_next:
  assumes "l' = l + 1" and "toks ! l = img"
  shows "attends toks img l p \<longleftrightarrow> p = l \<or> attends toks img l' p"
proof
  assume "attends toks img l p"
  then show "p = l \<or> attends toks img l' p" using assms by (auto simp: attends_def)
next
  assume "p = l \<or> attends toks img l' p"
  then show "attends toks img l p"
  proof
    assume a: "attends toks img l' p"
    have "toks ! (q - 1) = img" if "l < q" "q \<le> p" "toks ! q = img" for q
    proof (cases "q = l'")
      case True
      then show ?thesis using assms by simp
    next
      case False
      then have "l' < q" using that assms by simp
      then show ?thesis using a that by (simp add: attends_def)
    qed
    then show ?thesis using a assms(1) by (simp add: attends_def)
  qed (simp add: attends_def)
qed

lemma ends_of_attends:
  assumes "sorted_wrt (<) ls" and "set ls = {i. s \<le> i \<and> i < length toks \<and> toks ! i = img}"
    and "k < length ls" and "p < length toks"
  shows "ls ! k \<le> p \<and> p < ends_of (length toks) ls ! k \<longleftrightarrow> attends toks img (ls ! k) p"
  using assms
proof (induction "length toks" ls arbitrary: s k p rule: ends_of.induct)
  case (2 l)
  have "\<not> (\<exists>q. l < q \<and> q \<le> p \<and> toks ! q = img)"
  proof
    assume "\<exists>q. l < q \<and> q \<le> p \<and> toks ! q = img"
    then obtain q where q: "l < q" "q \<le> p" "toks ! q = img" by blast
    have "s \<le> l" using 2(2) by auto
    then have "q \<in> set [l]" unfolding 2(2) using q 2(4) by simp
    then show False using q(1) by simp
  qed
  then show ?case using 2 by (auto simp: attends_def)
next
  case (3 l l' ls)
  have l: "s \<le> l" "l < length toks" "toks ! l = img" and l': "l < l'" "l' < length toks" "toks ! l' = img"
  proof -
    have "l \<in> set (l # l' # ls)" "l' \<in> set (l # l' # ls)" by simp_all
    then show "s \<le> l" "l < length toks" "toks ! l = img" "l' < length toks" "toks ! l' = img"
      unfolding 3(3) by simp_all
    show "l < l'" using 3(2) by simp
  qed
  have rest: "set (l' # ls) = {i. l + 1 \<le> i \<and> i < length toks \<and> toks ! i = img}"
  proof -
    have above: "l < i" if "i \<in> set (l' # ls)" for i using 3(2) that by auto
    then have "set (l' # ls) = set (l # l' # ls) - {l}" by fastforce
    also have "\<dots> = {i. l + 1 \<le> i \<and> i < length toks \<and> toks ! i = img}"
    proof (intro set_eqI iffI)
      fix i assume i: "i \<in> set (l # l' # ls) - {l}"
      then have "l < i" using above by simp
      moreover have "i \<in> set (l # l' # ls)" using i by blast
      ultimately show "i \<in> {i. l + 1 \<le> i \<and> i < length toks \<and> toks ! i = img}" unfolding 3(3) by simp
    next
      fix i assume "i \<in> {i. l + 1 \<le> i \<and> i < length toks \<and> toks ! i = img}"
      then have "s \<le> i \<and> i < length toks \<and> toks ! i = img" "i \<noteq> l" using l(1) by simp_all
      then show "i \<in> set (l # l' # ls) - {l}" unfolding 3(3) by simp
    qed
    finally show ?thesis .
  qed
  have sorted: "sorted_wrt (<) (l' # ls)" using 3(2) by simp
  note IH = 3(1) [OF sorted rest _ 3(5)]
  have between: "\<not> (l < q \<and> q < l' \<and> toks ! q = img)" for q
  proof
    assume q: "l < q \<and> q < l' \<and> toks ! q = img"
    then have "q \<in> set (l' # ls)" unfolding rest using l'(2) by simp
    then show False using q 3(2) by auto
  qed
  show ?case
  proof (cases k)
    case (Suc j)
    then show ?thesis using IH [of j] 3(4) by (simp add: Let_def)
  next
    case 0
    show ?thesis
    proof (cases "l' = l + 1")
      case True
      have "attends toks img l p \<longleftrightarrow> p = l \<or> attends toks img l' p"
        by (rule attends_next [OF True l(3)])
      moreover have hd0: "hd (ends_of (length toks) (l' # ls)) = ends_of (length toks) (l' # ls) ! 0"
        by (rule hd_conv_nth) (metis length_ends_of length_0_conv list.distinct(1))
      moreover have "l' < ends_of (length toks) (l' # ls) ! 0"
        using 3(1) [OF sorted rest, of 0 l'] l'(2) by (simp add: attends_def)
      moreover have "l' \<le> p \<and> p < ends_of (length toks) (l' # ls) ! 0 \<longleftrightarrow> attends toks img l' p"
        using IH [of 0] by simp
      ultimately show ?thesis using 0 True by (auto simp: Let_def attends_def)
    next
      case False
      have "attends toks img l p \<longleftrightarrow> l \<le> p \<and> p < l'"
      proof (cases "p < l'")
        case True
        then have "\<not> (l < q \<and> q \<le> p \<and> toks ! q = img)" for q using between [of q] by simp
        then show ?thesis using True unfolding attends_def by blast
      next
        case ge: False
        have "toks ! (l' - 1) \<noteq> img" using between [of "l' - 1"] l'(1) False by auto
        then have "\<not> attends toks img l p" using ge l' by (auto simp: attends_def)
        then show ?thesis using ge by simp
      qed
      then show ?thesis using 0 False by (simp add: Let_def)
    qed
  qed
qed simp

lemma extend_eq_Nil [simp]: "extend_masks e ms = [] \<longleftrightarrow> ms = []"
  by (cases "(e, ms)" rule: extend_masks.cases) (simp_all add: Let_def)

lemma extend_append:
  "extend_masks e (ms @ [(a, b)]) = extend_masks e ms @
     [(a, if a = b - 1 then (if ms = [] then e else snd (last (extend_masks e ms))) else b)]"
  by (induction e ms rule: extend_masks.induct) (auto simp: Let_def)

lemma extend_cons:
  "xs \<noteq> [] \<Longrightarrow> rev (extend_masks e (rev ((a, b) # xs)))
    = (a, if a = b - 1 then snd (hd (rev (extend_masks e (rev xs)))) else b) # rev (extend_masks e (rev xs))"
  by (simp add: extend_append hd_rev)

lemma extend_masks_ends:
  assumes "ls \<noteq> []"
  shows "rev (extend_masks (int len) (rev (zip (map int (butlast ls)) (map int (tl ls)) @ [(int (last ls), int len)])))
    = zip (map int ls) (map int (ends_of len ls))"
  using assms
proof (induction len ls rule: ends_of.induct)
  case (3 len l l' ls)
  let ?ms = "zip (map int (butlast (l' # ls))) (map int (tl (l' # ls))) @ [(int (last (l' # ls)), int len)]"
  have IH: "rev (extend_masks (int len) (rev ?ms)) = zip (map int (l' # ls)) (map int (ends_of len (l' # ls)))"
    using 3 by simp
  obtain x xs where ends: "ends_of len (l' # ls) = x # xs"
    by (metis length_ends_of length_0_conv list.distinct(1) list.exhaust)
  have "zip (map int (butlast (l # l' # ls))) (map int (tl (l # l' # ls))) @ [(int (last (l # l' # ls)), int len)]
    = (int l, int l') # ?ms" by simp
  moreover have ne: "?ms \<noteq> []" by simp
  ultimately have "rev (extend_masks (int len) (rev (zip (map int (butlast (l # l' # ls))) (map int (tl (l # l' # ls)))
      @ [(int (last (l # l' # ls)), int len)])))
    = (int l, if int l = int l' - 1 then snd (hd (rev (extend_masks (int len) (rev ?ms)))) else int l')
      # rev (extend_masks (int len) (rev ?ms))"
    by (simp only: extend_cons [OF ne])
  then show ?case unfolding IH ends by (auto simp: ends)
qed (simp_all add: Let_def)

lemma positions_of_props:
  "sorted_wrt (<) (positions_of t toks)" "set (positions_of t toks) = {i. 0 \<le> i \<and> i < length toks \<and> toks ! i = t}"
  by (auto simp: positions_of_def intro: sorted_wrt_filter)

text \<open>\<open>interval len m\<close>: the range of positions that a sparse mask stands for.\<close>

definition interval :: "nat \<Rightarrow> int \<times> int \<Rightarrow> nat \<Rightarrow> bool" where
  "interval len = (\<lambda>(a, b) p. a \<le> int p \<and> int p < (if b = - 1 then int len else b))"

lemma sparse_mask_eq:
  "get_cross_attention_token_mask toks img =
     (let locs = positions_of img toks
      in if length locs = 1 then [(int (locs ! 0), - 1)]
         else zip (map int locs) (map int (ends_of (length toks) locs)))"
proof (cases "length (positions_of img toks) = 1 \<or> positions_of img toks = []")
  case True
  then show ?thesis by (auto simp: get_cross_attention_token_mask_def Let_def)
next
  case False
  then show ?thesis using extend_masks_ends [of "positions_of img toks" "length toks"]
    by (simp add: get_cross_attention_token_mask_def Let_def)
qed

lemma ends_of_le: "\<forall>l \<in> set ls. l < len \<Longrightarrow> \<forall>x \<in> set (ends_of len ls). x \<le> len"
proof (induction len ls rule: ends_of.induct)
  case (3 len l l' ls)
  then have "\<forall>x \<in> set (ends_of len (l' # ls)). x \<le> len" by simp
  moreover obtain x xs where "ends_of len (l' # ls) = x # xs"
    by (metis length_ends_of length_0_conv list.distinct(1) list.exhaust)
  ultimately show ?case using 3(2) by (auto simp: Let_def)
qed simp_all

lemma sparse_mask:
  fixes toks :: "nat list" and img :: nat
  defines "locs \<equiv> positions_of img toks" and "ms \<equiv> get_cross_attention_token_mask toks img"
  shows "length ms = length locs"
    and "k < length locs \<Longrightarrow> p < length toks \<Longrightarrow> interval (length toks) (ms ! k) p \<longleftrightarrow> attends toks img (locs ! k) p"
    and "k < length locs \<Longrightarrow> 0 \<le> fst (ms ! k) \<and> fst (ms ! k) \<le> int (length toks)
      \<and> (snd (ms ! k) = - 1 \<or> fst (ms ! k) \<le> snd (ms ! k) \<and> snd (ms ! k) \<le> int (length toks))"
proof -
  show len: "length ms = length locs"
    by (simp add: ms_def sparse_mask_eq locs_def [symmetric] Let_def)
  have ends: "locs ! k \<le> p \<and> p < ends_of (length toks) locs ! k \<longleftrightarrow> attends toks img (locs ! k) p"
    if "k < length locs" "p < length toks" for k p
    using ends_of_attends [OF positions_of_props] that unfolding locs_def by blast
  have nth: "ms ! k = (if length locs = 1 then (int (locs ! k), - 1) else (int (locs ! k), int (ends_of (length toks) locs ! k)))"
    if "k < length locs" for k
    using that by (cases "length locs = 1") (simp_all add: ms_def sparse_mask_eq locs_def [symmetric] Let_def)
  have one: "ends_of (length toks) locs ! k = length toks" if "length locs = 1" "k < length locs" for k
    using that by (cases locs) auto
  show "interval (length toks) (ms ! k) p \<longleftrightarrow> attends toks img (locs ! k) p" if "k < length locs" "p < length toks"
    using ends [OF that] nth [OF that(1)] one [OF _ that(1)] by (auto simp: interval_def)
  show "0 \<le> fst (ms ! k) \<and> fst (ms ! k) \<le> int (length toks)
      \<and> (snd (ms ! k) = - 1 \<or> fst (ms ! k) \<le> snd (ms ! k) \<and> snd (ms ! k) \<le> int (length toks))"
    if k: "k < length locs"
  proof -
    have below: "\<forall>l \<in> set locs. l < length toks" by (auto simp: locs_def positions_of_def)
    then have l: "locs ! k < length toks" using k by simp
    then have "locs ! k < ends_of (length toks) locs ! k" using ends [OF k l] by (simp add: attends_def)
    moreover have "ends_of (length toks) locs ! k \<le> length toks" using ends_of_le [OF below] k by simp
    ultimately show ?thesis using nth [OF k] l by simp
  qed
qed

section \<open>The dense mask\<close>

lemma as_usize_int: "n < 2 ^ 64 \<Longrightarrow> as_usize (int n) = n"
  by (simp add: as_usize_def)

definition valid_interval :: "nat \<Rightarrow> int \<times> int \<Rightarrow> bool" where
  "valid_interval len m \<longleftrightarrow> 0 \<le> fst m \<and> fst m \<le> int len \<and> (snd m = - 1 \<or> fst m \<le> snd m \<and> snd m \<le> int len)"

lemma mask_image_run:
  assumes "valid_interval len ab" and "len < 2 ^ 64" and "k0 < max_images" and "tiles \<le> max_tiles"
  shows "mask_image max_images max_tiles len sample (k0, ab, tiles) m
    = Ok (\<lambda>s p k t. if s = sample \<and> interval len ab p \<and> k = k0 \<and> t < tiles then 1 else m s p k t)"
proof -
  obtain a b where ab: "ab = (a, b)" by (cases ab)
  define b' where "b' = (if min b (int len) = - 1 then int len else min b (int len))"
  have b': "0 \<le> a" "a \<le> b'" "b' \<le> int len" "b' = (if b = - 1 then int len else b)"
    using assms(1) ab by (auto simp: valid_interval_def b'_def)
  have nat: "as_usize a = nat a" "as_usize b' = nat b'" using b' assms(2)
    by (auto simp: as_usize_def)
  have "interval len ab p \<longleftrightarrow> nat a \<le> p \<and> p < nat b'" for p using b' ab by (auto simp: interval_def)
  moreover have "\<not> len < nat b'" "nat a \<le> nat b'" using b' by auto
  ultimately show ?thesis using assms(3,4) nat ab
    by (simp add: mask_image_def b'_def [symmetric] not_less not_le conj_assoc)
qed

lemma mask_images_run:
  assumes "\<forall>(ab, tiles) \<in> set xs. valid_interval len ab \<and> tiles \<le> max_tiles" and "len < 2 ^ 64"
    and "k0 + length xs \<le> max_images"
  shows "\<exists>m'. rfold (mask_image max_images max_tiles len sample) (List.enumerate k0 xs) m = Ok m'
    \<and> (\<forall>s p k t. m' s p k t = (if s = sample \<and> k0 \<le> k \<and> k < k0 + length xs \<and> interval len (fst (xs ! (k - k0))) p
        \<and> t < snd (xs ! (k - k0)) then 1 else m s p k t))"
  using assms
proof (induction xs arbitrary: k0 m)
  case (Cons x xs)
  obtain ab tiles where x: "x = (ab, tiles)" by (cases x)
  let ?m = "\<lambda>s p k t. if s = sample \<and> interval len ab p \<and> k = k0 \<and> t < tiles then 1 else m s p k t"
  have step: "mask_image max_images max_tiles len sample (k0, ab, tiles) m = Ok ?m"
    using Cons.prems x by (intro mask_image_run) auto
  obtain m' where m': "rfold (mask_image max_images max_tiles len sample) (List.enumerate (Suc k0) xs) ?m = Ok m'"
    "\<forall>s p k t. m' s p k t = (if s = sample \<and> Suc k0 \<le> k \<and> k < Suc k0 + length xs
        \<and> interval len (fst (xs ! (k - Suc k0))) p \<and> t < snd (xs ! (k - Suc k0)) then 1 else ?m s p k t)"
    using Cons.IH [of "Suc k0" ?m] Cons.prems by auto
  have "m' s p k t = (if s = sample \<and> k0 \<le> k \<and> k < k0 + length (x # xs) \<and> interval len (fst ((x # xs) ! (k - k0))) p
        \<and> t < snd ((x # xs) ! (k - k0)) then 1 else m s p k t)" for s p k t
  proof (cases "k = k0")
    case True
    then show ?thesis using m'(2) x by auto
  next
    case False
    then have "k0 \<le> k \<longleftrightarrow> Suc k0 \<le> k" by auto
    moreover have "(x # xs) ! (k - k0) = xs ! (k - Suc k0)" if "Suc k0 \<le> k"
      using that by (simp add: nth_Cons' Suc_diff_le)
    ultimately show ?thesis using False m'(2) by auto
  qed
  then show ?case using step m'(1) x by auto
qed simp

lemma mask_samples_run:
  assumes "\<forall>(masks, tiles) \<in> set xs. length masks \<le> max_images \<and> length tiles = length masks
      \<and> (\<forall>ab \<in> set masks. valid_interval len ab) \<and> (\<forall>n \<in> set tiles. n \<le> max_tiles)"
    and "len < 2 ^ 64"
  shows "\<exists>m'. rfold (mask_sample max_images max_tiles len) (List.enumerate s0 xs) m = Ok m'
    \<and> (\<forall>s p k t. m' s p k t = (if s0 \<le> s \<and> s < s0 + length xs \<and> k < length (fst (xs ! (s - s0)))
        \<and> interval len (fst (xs ! (s - s0)) ! k) p \<and> t < snd (xs ! (s - s0)) ! k then 1 else m s p k t))"
  using assms(1)
proof (induction xs arbitrary: s0 m)
  case (Cons x xs)
  obtain masks tiles where x: "x = (masks, tiles)" by (cases x)
  have valid: "\<forall>(ab, n) \<in> set (zip masks tiles). valid_interval len ab \<and> n \<le> max_tiles"
    using Cons.prems x by (auto dest: set_zip_leftD set_zip_rightD)
  have lens: "length tiles = length masks" "0 + length (zip masks tiles) \<le> max_images" using Cons.prems x by auto
  obtain m1 where m1: "rfold (mask_image max_images max_tiles len s0) (List.enumerate 0 (zip masks tiles)) m = Ok m1"
    "\<forall>s p k t. m1 s p k t = (if s = s0 \<and> 0 \<le> k \<and> k < 0 + length (zip masks tiles) \<and> interval len (fst (zip masks tiles ! (k - 0))) p
        \<and> t < snd (zip masks tiles ! (k - 0)) then 1 else m s p k t)"
    using mask_images_run [OF valid assms(2) lens(2), of s0 m] by blast
  have m1': "m1 s p k t = (if s = s0 \<and> k < length masks \<and> interval len (masks ! k) p \<and> t < tiles ! k then 1 else m s p k t)"
    for s p k t using m1(2) lens(1) by auto
  obtain m' where m': "rfold (mask_sample max_images max_tiles len) (List.enumerate (Suc s0) xs) m1 = Ok m'"
    "\<forall>s p k t. m' s p k t = (if Suc s0 \<le> s \<and> s < Suc s0 + length xs \<and> k < length (fst (xs ! (s - Suc s0)))
        \<and> interval len (fst (xs ! (s - Suc s0)) ! k) p \<and> t < snd (xs ! (s - Suc s0)) ! k then 1 else m1 s p k t)"
    using Cons.IH [of "Suc s0" m1] Cons.prems by auto
  have "m' s p k t = (if s0 \<le> s \<and> s < s0 + length (x # xs) \<and> k < length (fst ((x # xs) ! (s - s0)))
        \<and> interval len (fst ((x # xs) ! (s - s0)) ! k) p \<and> t < snd ((x # xs) ! (s - s0)) ! k then 1 else m s p k t)" for s p k t
  proof (cases "s = s0")
    case True
    then show ?thesis using m'(2) m1' x by simp
  next
    case False
    then have "s0 \<le> s \<longleftrightarrow> Suc s0 \<le> s" by auto
    moreover have "(x # xs) ! (s - s0) = xs ! (s - Suc s0)" if "Suc s0 \<le> s"
      using that by (simp add: nth_Cons' Suc_diff_le)
    ultimately show ?thesis using False m'(2) m1' by auto
  qed
  moreover have "mask_sample max_images max_tiles len (s0, x) m = Ok m1" using m1(1) x by (simp add: mask_sample_def)
  ultimately show ?case using m'(1) by auto
qed simp

text \<open>
  C29. The cross attention mask. For a batch of rows of one length, with as many tile counts as image
  tokens in every row, the mask is made without an error, and an entry is set exactly when the
  tile is one of the image and the token attends to the image: it stands at or after it and no
  other image that follows a text comes in between.
\<close>

theorem cross_attention_mask_is_the_reference:
  assumes "rows \<noteq> []" and "length num_tiles = length rows" and "0 < len" and "len < 2 ^ 64"
    and "\<forall>toks \<in> set rows. length toks = len"
    and "\<forall>i < length rows. length (num_tiles ! i) = length (positions_of img (rows ! i))"
    and "\<forall>tiles \<in> set num_tiles. \<forall>n \<in> set tiles. n \<le> max_tiles"
  shows "\<exists>m. convert_sparse_cross_attention_mask_to_dense (map (\<lambda>toks. get_cross_attention_token_mask toks img) rows)
      num_tiles max_tiles len = Ok m
    \<and> (\<forall>s p k t. s < length rows \<longrightarrow> p < len \<longrightarrow> m s p k t =
        (if k < length (positions_of img (rows ! s)) \<and> t < num_tiles ! s ! k \<and> attends (rows ! s) img (positions_of img (rows ! s) ! k) p
         then 1 else 0))"
proof -
  let ?mask = "\<lambda>toks. get_cross_attention_token_mask toks img"
  let ?masks = "map ?mask rows"
  let ?max = "Max (length ` set ?masks)"
  have each: "length masks \<le> ?max \<and> length tiles = length masks \<and> (\<forall>ab \<in> set masks. valid_interval len ab)
      \<and> (\<forall>n \<in> set tiles. n \<le> max_tiles)" if in_zip: "(masks, tiles) \<in> set (zip ?masks num_tiles)" for masks tiles
  proof -
    obtain i where i: "i < length rows" "masks = ?mask (rows ! i)" "tiles = num_tiles ! i"
      using in_zip assms(2) by (auto simp: set_zip)
    have len_i: "length (rows ! i) = len" using i(1) assms(5) by simp
    note sp = sparse_mask [where toks = "rows ! i" and img = img, unfolded len_i]
    have "valid_interval len ab" if "ab \<in> set masks" for ab
      using that sp(1,3) i(2) unfolding valid_interval_def by (metis in_set_conv_nth)
    moreover have "length masks \<le> ?max" using i(1,2) by (intro Max_ge) auto
    moreover have "\<forall>n \<in> set (num_tiles ! i). n \<le> max_tiles"
      by (rule bspec [OF assms(7)]) (use i(1) assms(2) in simp)
    ultimately show ?thesis using i assms(2,6,7) sp(1) by simp
  qed
  obtain m where m: "rfold (mask_sample ?max max_tiles len) (List.enumerate 0 (zip ?masks num_tiles)) (\<lambda>_ _ _ _. 0) = Ok m"
    "\<forall>s p k t. m s p k t = (if 0 \<le> s \<and> s < 0 + length (zip ?masks num_tiles) \<and> k < length (fst (zip ?masks num_tiles ! (s - 0)))
        \<and> interval len (fst (zip ?masks num_tiles ! (s - 0)) ! k) p \<and> t < snd (zip ?masks num_tiles ! (s - 0)) ! k then 1 else 0)"
    using mask_samples_run [of "zip ?masks num_tiles" ?max len max_tiles 0 "\<lambda>_ _ _ _. 0"] each assms(4) by blast
  have "m s p k t = (if k < length (positions_of img (rows ! s)) \<and> t < num_tiles ! s ! k
      \<and> attends (rows ! s) img (positions_of img (rows ! s) ! k) p then 1 else 0)" if "s < length rows" "p < len" for s p k t
  proof -
    have len_s: "length (rows ! s) = len" using that(1) assms(5) by simp
    note sp = sparse_mask [where toks = "rows ! s" and img = img, unfolded len_s]
    show ?thesis using m(2) that sp(1) sp(2) [where k = k and p = p] assms(2) by auto
  qed
  then show ?thesis using m(1) assms(1) by (intro exI [of _ m]) (simp add: convert_sparse_cross_attention_mask_to_dense_def)
qed

section \<open>The canvas is the best one\<close>

lemma in_map_filter: "y \<in> set (List.map_filter f xs) \<longleftrightarrow> (\<exists>x \<in> set xs. f x = Some y)"
  by (force simp: map_filter_def)

lemma set_supported: "(h, w) \<in> set (get_all_supported_aspect_ratios n) \<longleftrightarrow> 0 < h \<and> 0 < w \<and> h * w \<le> n"
proof -
  have "h \<le> n \<and> w \<le> n" if "0 < h" "0 < w" "h * w \<le> n"
  proof -
    have "h \<le> h * w" "w \<le> h * w" using that(1,2) by (cases w; cases h; simp)+
    then show ?thesis using that(3) by (intro conjI) (erule (1) le_trans)+
  qed
  moreover have "(h, w) \<in> set (get_all_supported_aspect_ratios n) \<longleftrightarrow> 0 < h \<and> h \<le> n \<and> 0 < w \<and> w \<le> n \<and> h * w \<le> n"
  proof -
    have "(h, w) \<in> set (get_all_supported_aspect_ratios n) \<longleftrightarrow>
        (\<exists>a \<in> {1..<n + 1}. \<exists>b \<in> {1..<n + 1}. (if a * b \<le> n then Some (a, b) else None) = Some (h, w))"
      by (simp only: get_all_supported_aspect_ratios_def set_concat set_map in_map_filter UN_iff bex_simps image_image set_upt)
    also have "\<dots> \<longleftrightarrow> h \<in> {1..<n + 1} \<and> w \<in> {1..<n + 1} \<and> h * w \<le> n"
      by (simp only: split: if_split) blast
    finally show ?thesis by auto
  qed
  ultimately show ?thesis by blast
qed

lemma argmin_loop_least:
  "argmin_loop i xs (Some (j, y)) = Some (k, z) \<Longrightarrow>
     z \<le> y \<and> (\<forall>x \<in> set xs. z \<le> x) \<and> ((k, z) = (j, y) \<or> i \<le> k \<and> k < i + length xs \<and> xs ! (k - i) = z)"
proof (induction xs arbitrary: i j y)
  case (Cons x xs)
  let ?jy = "if x < y then (i, x) else (j, y)"
  have run: "argmin_loop (i + 1) xs (Some (fst ?jy, snd ?jy)) = Some (k, z)" using Cons.prems by (auto split: if_splits)
  have "xs ! (k - Suc i) = (x # xs) ! (k - i)" if "Suc i \<le> k" using that by (simp add: nth_Cons' Suc_diff_le)
  with Cons.IH [OF run] show ?case by (auto split: if_splits)
qed simp

lemma argmin_loop_Some: "\<exists>r. argmin_loop i xs (Some a) = Some r"
  by (induction xs arbitrary: i a) (auto split: prod.splits)

lemma argmin_least:
  assumes "xs \<noteq> []"
  obtains k where "argmin xs = Some k" and "k < length xs" and "\<forall>x \<in> set xs. xs ! k \<le> x"
proof -
  obtain x ys where xs: "xs = x # ys" using assms by (cases xs) auto
  obtain k z where k: "argmin_loop 1 ys (Some (0, x)) = Some (k, z)" using argmin_loop_Some [of 1 ys "(0, x)"] by auto
  note least = argmin_loop_least [OF k]
  have "z = xs ! k" "k < length xs" using least xs by (auto simp: nth_Cons')
  then show thesis using that [of k] k least xs by (simp add: argmin_def)
qed

lemma select_scale_best:
  assumes "scales \<noteq> []"
  obtains s where "select_scale scales = Ok s" and "s \<in> set scales"
    and "\<forall>s' \<in> set scales. (1 \<le> s' \<longrightarrow> 1 \<le> s \<and> s \<le> s') \<and> (s < 1 \<longrightarrow> s' \<le> s)"
proof (cases "filter (\<lambda>s. 1 \<le> s) scales = []")
  case True
  then have all: "\<forall>s \<in> set scales. s < 1" by (auto simp: filter_empty_conv)
  then have "filter (\<lambda>s. s < 1) scales = scales" by simp
  then have "select_scale scales = Ok (Max (set scales))"
    using True assms by (simp add: select_scale_def max_of_def context_of_def)
  then show thesis using assms all by (intro that [of "Max (set scales)"]) (auto simp: leD)
next
  case False
  let ?ups = "filter (\<lambda>s. 1 \<le> s) scales"
  have in_ups: "Min (set ?ups) \<in> set ?ups" using False by (intro Min_in) (simp_all del: set_filter)
  moreover have "select_scale scales = Ok (Min (set ?ups))"
    using False by (simp add: select_scale_def min_of_def context_of_def)
  ultimately show thesis by (intro that [of "Min (set ?ups)"]) auto
qed

definition canvases :: "nat \<Rightarrow> nat \<Rightarrow> (nat \<times> nat) set" where
  "canvases max_image_tiles tile_size = {(h * tile_size, w * tile_size) | h w. 0 < h \<and> 0 < w \<and> h * w \<le> max_image_tiles}"

lemma best_canvas:
  assumes "0 < max_image_tiles"
  shows "\<exists>c. get_optimal_tiled_canvas fdiv image_height image_width max_image_tiles tile_size = Ok c
     \<and> c \<in> canvases max_image_tiles tile_size
     \<and> (\<forall>c' \<in> canvases max_image_tiles tile_size.
         let s = canvas_scale fdiv image_height image_width c; s' = canvas_scale fdiv image_height image_width c'
         in (1 \<le> s' \<longrightarrow> 1 \<le> s \<and> s \<le> s') \<and> (s < 1 \<longrightarrow> s' \<le> s) \<and> (s' = s \<longrightarrow> fst c * snd c \<le> fst c' * snd c'))"
proof -
  let ?sizes = "map (\<lambda>(h, w). (h * tile_size, w * tile_size)) (get_all_supported_aspect_ratios max_image_tiles)"
  let ?scale = "canvas_scale fdiv image_height image_width"
  let ?scales = "map ?scale ?sizes"
  have sizes: "set ?sizes = canvases max_image_tiles tile_size"
  proof (intro set_eqI iffI)
    fix c assume "c \<in> set ?sizes"
    then obtain h w where "(h, w) \<in> set (get_all_supported_aspect_ratios max_image_tiles)" "c = (h * tile_size, w * tile_size)"
      by auto
    then show "c \<in> canvases max_image_tiles tile_size" unfolding set_supported canvases_def by blast
  next
    fix c assume "c \<in> canvases max_image_tiles tile_size"
    then obtain h w where c: "c = (h * tile_size, w * tile_size)" "0 < h \<and> 0 < w \<and> h * w \<le> max_image_tiles"
      unfolding canvases_def by blast
    then have "(h, w) \<in> set (get_all_supported_aspect_ratios max_image_tiles)" by (simp only: set_supported)
    then show "c \<in> set ?sizes" using c(1) by force
  qed
  have "(1, 1) \<in> set (get_all_supported_aspect_ratios max_image_tiles)" using assms by (simp add: set_supported)
  then have "?scales \<noteq> []" by (cases "get_all_supported_aspect_ratios max_image_tiles") auto
  then obtain s where s: "select_scale ?scales = Ok s" "s \<in> set ?scales"
    "\<forall>s' \<in> set ?scales. (1 \<le> s' \<longrightarrow> 1 \<le> s \<and> s \<le> s') \<and> (s < 1 \<longrightarrow> s' \<le> s)"
    by (rule select_scale_best)
  define chosen where "chosen = filter (\<lambda>c. ?scale c = s) ?sizes"
  have "map snd (filter (\<lambda>(s', _). s' = s) (zip (map ?scale cs) cs)) = filter (\<lambda>c. ?scale c = s) cs" for cs
    by (induction cs) auto
  then have run: "get_optimal_tiled_canvas fdiv image_height image_width max_image_tiles tile_size =
      (if 1 < length chosen then
         rbind (context_of ''No argmin'' (argmin (map (\<lambda>(h, w). h * w) chosen))) (vget chosen)
       else vget chosen 0)"
    by (simp only: get_optimal_tiled_canvas_def Let_def s(1) rbind_Inr chosen_def)
  obtain c0 where "c0 \<in> set ?sizes" "?scale c0 = s" using s(2) unfolding set_map [of ?scale] by blast
  then have "c0 \<in> set chosen" by (simp add: chosen_def)
  then have "chosen \<noteq> []" by auto
  then have areas: "map (\<lambda>(h, w). h * w) chosen \<noteq> []" by simp
  have "\<exists>c. (if 1 < length chosen then rbind (context_of ''No argmin'' (argmin (map (\<lambda>(h, w). h * w) chosen))) (vget chosen)
      else vget chosen 0) = Ok c \<and> c \<in> set chosen \<and> (\<forall>c' \<in> set chosen. fst c * snd c \<le> fst c' * snd c')"
  proof (cases "1 < length chosen")
    case True
    obtain k where k: "argmin (map (\<lambda>(h, w). h * w) chosen) = Some k" "k < length chosen"
      "\<forall>x \<in> set (map (\<lambda>(h, w). h * w) chosen). map (\<lambda>(h, w). h * w) chosen ! k \<le> x"
      using argmin_least [OF areas] by (metis length_map)
    then show ?thesis using True by (auto simp: context_of_def split_def)
  next
    case False
    then obtain c where "chosen = [c]" using \<open>chosen \<noteq> []\<close> by (cases chosen) auto
    then show ?thesis by simp
  qed
  then obtain c where c: "get_optimal_tiled_canvas fdiv image_height image_width max_image_tiles tile_size = Ok c"
    "c \<in> set chosen" "\<forall>c' \<in> set chosen. fst c * snd c \<le> fst c' * snd c'"
    unfolding run by blast
  have "?scale c = s" "c \<in> set ?sizes" using c(2) unfolding chosen_def by auto
  moreover have "c' \<in> set chosen" if "c' \<in> set ?sizes" "?scale c' = s" for c' using that by (auto simp: chosen_def)
  ultimately show ?thesis using c(1,3) s(3) unfolding sizes [symmetric] by (intro exI [of _ c]) (auto simp: Let_def)
qed

text \<open>
  The canvas. For any image there is a canvas of at most the allowed number of tiles; its scale is
  the least that does not shrink the image, or the largest when all shrink it, and no canvas
  with this scale has a smaller area.
\<close>

theorem the_best_canvas_is_chosen:
  assumes "0 < max_image_tiles"
  shows "\<exists>c. get_optimal_tiled_canvas fdiv image_height image_width max_image_tiles tile_size = Ok c
     \<and> c \<in> canvases max_image_tiles tile_size
     \<and> (\<forall>c' \<in> canvases max_image_tiles tile_size.
         let s = canvas_scale fdiv image_height image_width c; s' = canvas_scale fdiv image_height image_width c'
         in (1 \<le> s' \<longrightarrow> 1 \<le> s \<and> s \<le> s') \<and> (s < 1 \<longrightarrow> s' \<le> s) \<and> (s' = s \<longrightarrow> fst c * snd c \<le> fst c' * snd c'))"
  by (rule best_canvas [OF assms])

section \<open>The tiles are the image\<close>

lemma split_tiles:
  assumes "nd_shape img = [ch, tiles_h * tile_h, tiles_w * tile_w]" and "0 < tiles_h" and "0 < tiles_w"
  shows "\<exists>ts. split_to_tiles img tiles_h tiles_w = Ok ts \<and> nd_shape ts = [tiles_w * tiles_h, ch, tile_h, tile_w]
    \<and> (\<forall>t < tiles_w * tiles_h. \<forall>c < ch. \<forall>y < tile_h. \<forall>x < tile_w.
        nd_at ts [t, c, y, x] = nd_at img [c, t div tiles_w * tile_h + y, t mod tiles_w * tile_w + x])"
proof -
  let ?sh5 = "[ch, tiles_h, tile_h, tiles_w, tile_w]"
  let ?grid = "\<lparr>nd_shape = ?sh5, nd_at = (\<lambda>ix. nd_at img (unravel (nd_shape img) (ravel ?sh5 ix)))\<rparr>"
  have 1: "reshape ?sh5 img = Ok ?grid" using assms(1) by (simp add: reshape_def)
  let ?perm = "permute [1, 3, 0, 2, 4] ?grid"
  have sh: "nd_shape ?perm = [tiles_h, tiles_w, ch, tile_h, tile_w]" by (simp add: permute_def)
  let ?sh4 = "[tiles_w * tiles_h, ch, tile_h, tile_w]"
  let ?ts = "\<lparr>nd_shape = ?sh4, nd_at = (\<lambda>ix. nd_at ?perm (unravel (nd_shape ?perm) (ravel ?sh4 ix)))\<rparr>"
  have 2: "reshape ?sh4 ?perm = Ok ?ts" unfolding reshape_def sh by simp
  have "nd_at ?ts [t, c, y, x] = nd_at img [c, t div tiles_w * tile_h + y, t mod tiles_w * tile_w + x]"
    if t: "t < tiles_w * tiles_h" and c: "c < ch" and y: "y < tile_h" and x: "x < tile_w" for t c y x
  proof -
    let ?i = "t div tiles_w" and ?j = "t mod tiles_w"
    have ij: "?i < tiles_h" "?j < tiles_w" "?i * tiles_w + ?j = t"
      using split_nat_index [of t tiles_h tiles_w] t by (simp_all add: mult.commute)
    have "ravel ?sh4 [t, c, y, x] = ravel (nd_shape ?perm) [?i, ?j, c, y, x]"
    proof -
      have "ravel [tiles_h, tiles_w, ch, tile_h, tile_w] [i, j, c, y, x] = ravel ?sh4 [i * tiles_w + j, c, y, x]" for i j
        by (simp add: algebra_simps)
      from this [of ?i ?j] show ?thesis unfolding sh ij(3) by simp
    qed
    moreover have "inside [?i, ?j, c, y, x] (nd_shape ?perm)" unfolding sh using ij c y x by simp
    ultimately have "nd_at ?ts [t, c, y, x] = nd_at ?perm [?i, ?j, c, y, x]" by (simp only: unravel_ravel nd.simps)
    also have "\<dots> = nd_at ?grid [c, ?i, y, ?j, x]" by (simp add: permute_def upt_rec numeral_eq_Suc)
    also have "\<dots> = nd_at img [c, ?i * tile_h + y, ?j * tile_w + x]"
    proof -
      have "ravel ?sh5 [c, ?i, y, ?j, x] = ravel (nd_shape img) [c, ?i * tile_h + y, ?j * tile_w + x]"
        unfolding assms(1) by (simp add: algebra_simps)
      moreover have "inside [c, ?i * tile_h + y, ?j * tile_w + x] (nd_shape img)"
        unfolding assms(1) using c join_index [OF ij(1) y] join_index [OF ij(2) x] by simp
      ultimately show ?thesis by (simp only: unravel_ravel nd.simps)
    qed
    finally show ?thesis .
  qed
  moreover have "split_to_tiles img tiles_h tiles_w = Ok ?ts"
    using assms 1 2 by (simp add: split_to_tiles_def dims3_def udiv_def)
  ultimately show ?thesis by (intro exI [of _ ?ts]) simp
qed

text \<open>
  The tiles are the image. An image of rows and columns of tiles is cut without an error into
  these tiles, row by row, and the pixel \<open>(y, x)\<close> of tile \<open>t\<close> is the pixel of the image at this
  place of the tile.
\<close>

theorem tiles_are_the_image:
  assumes "nd_shape img = [ch, tiles_h * tile_h, tiles_w * tile_w]" and "0 < tiles_h" and "0 < tiles_w"
  shows "\<exists>ts. split_to_tiles img tiles_h tiles_w = Ok ts \<and> nd_shape ts = [tiles_w * tiles_h, ch, tile_h, tile_w]
    \<and> (\<forall>t < tiles_w * tiles_h. \<forall>c < ch. \<forall>y < tile_h. \<forall>x < tile_w.
        nd_at ts [t, c, y, x] = nd_at img [c, t div tiles_w * tile_h + y, t mod tiles_w * tile_w + x])"
  by (rule split_tiles [OF assms])

section \<open>Preprocessing never fails\<close>

lemma size_fits:
  assumes "tile_size \<le> canvas_h" and "tile_size \<le> canvas_w"
  shows "\<exists>h w. get_image_size_fit_to_canvas fdiv floor_mul image_h image_w canvas_h canvas_w tile_size = Ok (h, w)
    \<and> h \<le> canvas_h \<and> w \<le> canvas_w"
proof -
  let ?w = "max tile_size (min image_w canvas_w)" and ?h = "max tile_size (min image_h canvas_h)"
  have c: "clamp image_w tile_size canvas_w = Ok ?w" "clamp image_h tile_size canvas_h = Ok ?h"
    using assms by (simp_all add: clamp_def)
  have run: "get_image_size_fit_to_canvas fdiv floor_mul image_h image_w canvas_h canvas_w tile_size
    = Ok (if fdiv ?w image_w < fdiv ?h image_h then (min ?h (floor_mul image_h (fdiv ?w image_w)), ?w)
          else (?h, min ?w (floor_mul image_w (fdiv ?h image_h))))"
    by (simp only: get_image_size_fit_to_canvas_def c rbind_Inr Let_def)
  have "?w \<le> canvas_w" "?h \<le> canvas_h" using assms by simp_all
  then have "min ?h k \<le> canvas_h" "min ?w k \<le> canvas_w" for k by (meson le_trans min.cobounded1)+
  with \<open>?w \<le> canvas_w\<close> \<open>?h \<le> canvas_h\<close> show ?thesis unfolding run
    by (cases "fdiv ?w image_w < fdiv ?h image_h") (simp_all del: max.bounded_iff)
qed

lemma resize_fits:
  assumes "0 < n" and "0 < max_tiles"
  shows "\<exists>h w th tw. resize_image fdiv floor_mul n max_tiles (image_h, image_w) = Ok ((h, w), (th, tw))
    \<and> 0 < th \<and> 0 < tw \<and> th * tw \<le> max_tiles \<and> h \<le> th * n \<and> w \<le> tw * n"
proof -
  obtain c where c: "get_optimal_tiled_canvas fdiv image_h image_w max_tiles n = Ok c" "c \<in> canvases max_tiles n"
    using best_canvas [OF assms(2), of fdiv image_h image_w n] by blast
  then obtain th tw where t: "c = (th * n, tw * n)" "0 < th" "0 < tw" "th * tw \<le> max_tiles"
    by (auto simp: canvases_def)
  have "n \<le> th * n" "n \<le> tw * n" using t(2,3) by simp_all
  then obtain h w where "get_image_size_fit_to_canvas fdiv floor_mul image_h image_w (th * n) (tw * n) n = Ok (h, w)"
    "h \<le> th * n" "w \<le> tw * n"
    using size_fits by blast
  then show ?thesis using c(1) t assms(1) by (simp add: resize_image_def udiv_def)
qed

lemma preprocess_image_run:
  assumes "0 < n" and "0 < max_tiles" and "\<And>i h w. nd_shape (im_tensor ops i h w) = [ch, h, w]"
    and "\<And>t. nd_shape (im_transform ops t) = nd_shape t"
  shows "\<exists>tiles th tw. preprocess_image ops fdiv floor_mul max_tiles (Some (n, n)) img = Ok (tiles, (th, tw))
    \<and> nd_shape tiles = [tw * th, ch, n, n] \<and> 0 < th \<and> 0 < tw \<and> th * tw \<le> max_tiles"
proof -
  obtain ih iw where dims: "im_dims ops img = (ih, iw)" by (cases "im_dims ops img")
  obtain h w th tw where r: "resize_image fdiv floor_mul n max_tiles (ih, iw) = Ok ((h, w), (th, tw))"
    "0 < th" "0 < tw" "th * tw \<le> max_tiles" "h \<le> th * n" "w \<le> tw * n"
    using resize_fits [OF assms(1,2)] by blast
  obtain padded where p: "slice_assign [] (im_tensor ops img h w) (zeros [ch, th * n, tw * n]) = Ok padded"
    "nd_shape padded = [ch, th * n, tw * n]"
    by (rule slice_assign_ok [of "zeros [ch, th * n, tw * n]" "[]" "im_tensor ops img h w"])
      (use assms(3) r(5,6) in \<open>simp_all add: zeros_def\<close>)
  have sh: "nd_shape (im_transform ops padded) = [ch, th * n, tw * n]" using assms(4) p(2) by simp
  obtain tiles where "split_to_tiles (im_transform ops padded) th tw = Ok tiles" "nd_shape tiles = [tw * th, ch, n, n]"
    using split_tiles [OF sh r(2,3)] by blast
  then show ?thesis using dims r(1-4) p(1) assms(3)
    by (simp add: preprocess_image_def context_of_def pad_to_def dims3_def)
qed

lemma pack_run:
  assumes "\<forall>img \<in> set imgs. \<exists>k \<le> max_tiles. nd_shape img = [k, ch, n, n]" and "i0 + length imgs \<le> max_images"
    and "nd_shape st = [max_images, max_tiles, ch, n, n]"
  shows "\<exists>st'. rfold pack_image (List.enumerate i0 imgs) (st, nt) = Ok (st', nt @ map (\<lambda>img. hd (nd_shape img)) imgs)
    \<and> nd_shape st' = nd_shape st
    \<and> (\<forall>i ix. nd_at st' (i # ix) = (if i0 \<le> i \<and> i < i0 + length imgs \<and> inside ix (nd_shape (imgs ! (i - i0)))
        then nd_at (imgs ! (i - i0)) ix else nd_at st (i # ix)))"
  using assms
proof (induction imgs arbitrary: i0 st nt)
  case (Cons img imgs)
  obtain k where k: "k \<le> max_tiles" "nd_shape img = [k, ch, n, n]" using Cons.prems(1) by auto
  obtain st1 where st1: "slice_assign [i0] img st = Ok st1" "nd_shape st1 = nd_shape st"
    "\<And>ix. nd_at st1 ix = (if take (length [i0]) ix = [i0] \<and> inside (drop (length [i0]) ix) (nd_shape img)
      then nd_at img (drop (length [i0]) ix) else nd_at st ix)"
    by (rule slice_assign_ok [of st "[i0]" img]) (use Cons.prems k in auto)
  obtain st' where st': "rfold pack_image (List.enumerate (Suc i0) imgs) (st1, nt @ [k])
      = Ok (st', (nt @ [k]) @ map (\<lambda>img. hd (nd_shape img)) imgs)" "nd_shape st' = nd_shape st1"
    "\<forall>i ix. nd_at st' (i # ix) = (if Suc i0 \<le> i \<and> i < Suc i0 + length imgs \<and> inside ix (nd_shape (imgs ! (i - Suc i0)))
        then nd_at (imgs ! (i - Suc i0)) ix else nd_at st1 (i # ix))"
    using Cons.IH [of "Suc i0" st1 "nt @ [k]"] Cons.prems st1(2) by auto
  have "nd_at st' (i # ix) = (if i0 \<le> i \<and> i < i0 + length (img # imgs) \<and> inside ix (nd_shape ((img # imgs) ! (i - i0)))
        then nd_at ((img # imgs) ! (i - i0)) ix else nd_at st (i # ix))" for i ix
  proof (cases "i = i0")
    case True
    then show ?thesis using st'(3) st1(3) by auto
  next
    case False
    then have "i0 \<le> i \<longleftrightarrow> Suc i0 \<le> i" by auto
    moreover have "(img # imgs) ! (i - i0) = imgs ! (i - Suc i0)" if "Suc i0 \<le> i"
      using that by (simp add: nth_Cons' Suc_diff_le)
    ultimately show ?thesis using False st'(3) st1(3) by auto
  qed
  moreover have "pack_image (i0, img) (st, nt) = Ok (st1, nt @ [k])" using st1(1) k(2) by (simp add: pack_image_def)
  ultimately show ?case using st' st1(2) k(2) by auto
qed auto

lemma first_index: "r \<in> set xs \<Longrightarrow> length (takeWhile (\<lambda>r'. r' \<noteq> r) xs) < length xs"
  by (induction xs) auto

lemma ids_run:
  assumes "\<forall>r \<in> set ratios. r \<in> set (get_all_supported_aspect_ratios max_tiles)" and "i0 + length ratios \<le> length ids"
  shows "\<exists>ids'. rfold (aspect_ratio_id max_tiles) (List.enumerate i0 ratios) ids = Ok ids' \<and> length ids' = length ids
    \<and> (\<forall>i < length ids. if i0 \<le> i \<and> i < i0 + length ratios
        then 0 < ids' ! i \<and> ids' ! i \<le> length (get_all_supported_aspect_ratios max_tiles)
          \<and> get_all_supported_aspect_ratios max_tiles ! (ids' ! i - 1) = ratios ! (i - i0)
        else ids' ! i = ids ! i)"
  using assms
proof (induction ratios arbitrary: i0 ids)
  case (Cons r ratios)
  let ?sup = "get_all_supported_aspect_ratios max_tiles"
  let ?pos = "length (takeWhile (\<lambda>r'. r' \<noteq> r) ?sup)"
  have r: "r \<in> set ?sup" using Cons.prems(1) by simp
  have pos: "?pos < length ?sup" by (rule first_index [OF r])
  then have at: "?sup ! ?pos = r" using nth_length_takeWhile [of "\<lambda>r'. r' \<noteq> r" ?sup] by simp
  have step: "aspect_ratio_id max_tiles (i0, r) ids = Ok (ids[i0 := ?pos + 1])"
    using r Cons.prems(2) by (simp add: aspect_ratio_id_def Let_def context_of_def vset_def)
  obtain ids' where ids': "rfold (aspect_ratio_id max_tiles) (List.enumerate (Suc i0) ratios) (ids[i0 := ?pos + 1]) = Ok ids'"
    "length ids' = length ids"
    "\<forall>i < length ids. if Suc i0 \<le> i \<and> i < Suc i0 + length ratios
        then 0 < ids' ! i \<and> ids' ! i \<le> length ?sup \<and> ?sup ! (ids' ! i - 1) = ratios ! (i - Suc i0)
        else ids' ! i = ids[i0 := ?pos + 1] ! i"
    using Cons.IH [of "Suc i0" "ids[i0 := ?pos + 1]"] Cons.prems by auto
  have "if i0 \<le> i \<and> i < i0 + length (r # ratios)
        then 0 < ids' ! i \<and> ids' ! i \<le> length ?sup \<and> ?sup ! (ids' ! i - 1) = (r # ratios) ! (i - i0)
        else ids' ! i = ids ! i" if i: "i < length ids" for i
  proof (cases "i = i0")
    case True
    then have "ids' ! i = ?pos + 1" using ids'(3) i by auto
    then show ?thesis using True pos at by simp
  next
    case False
    then have "i0 \<le> i \<longleftrightarrow> Suc i0 \<le> i" by auto
    moreover have "(r # ratios) ! (i - i0) = ratios ! (i - Suc i0)" if "Suc i0 \<le> i"
      using that by (simp add: nth_Cons' Suc_diff_le)
    ultimately show ?thesis using False ids'(3) i by (auto split: if_splits)
  qed
  then have "\<forall>i < length ids. if i0 \<le> i \<and> i < i0 + length (r # ratios)
        then 0 < ids' ! i \<and> ids' ! i \<le> length ?sup \<and> ?sup ! (ids' ! i - 1) = (r # ratios) ! (i - i0)
        else ids' ! i = ids ! i" by blast
  moreover have "rfold (aspect_ratio_id max_tiles) (List.enumerate i0 (r # ratios)) ids = Ok ids'"
    using step ids'(1) by simp
  ultimately show ?case using ids'(2) by blast
qed auto

lemma ratio_rows_run:
  assumes "\<forall>(h, w) \<in> set ratios. h * w \<le> max_tiles" and "i0 + length ratios \<le> max_images"
    and "nd_shape m = [max_images, max_tiles]"
  shows "\<exists>m'. rfold (\<lambda>(i, (h, w)) m. slice_assign [i] (ones [h * w]) m) (List.enumerate i0 ratios) m = Ok m'
    \<and> (\<forall>i t. nd_at m' [i, t] = (if i0 \<le> i \<and> i < i0 + length ratios \<and> t < fst (ratios ! (i - i0)) * snd (ratios ! (i - i0))
        then 1 else nd_at m [i, t]))"
  using assms
proof (induction ratios arbitrary: i0 m)
  case (Cons r ratios)
  obtain h w where r: "r = (h, w)" by (cases r)
  obtain m1 where m1: "slice_assign [i0] (ones [h * w]) m = Ok m1" "nd_shape m1 = nd_shape m"
    "\<And>ix. nd_at m1 ix = (if take (length [i0]) ix = [i0] \<and> inside (drop (length [i0]) ix) (nd_shape (ones [h * w]))
      then nd_at (ones [h * w]) (drop (length [i0]) ix) else nd_at m ix)"
    by (rule slice_assign_ok [of m "[i0]" "ones [h * w]"]) (use Cons.prems r in auto)
  obtain m' where m': "rfold (\<lambda>(i, (h, w)) m. slice_assign [i] (ones [h * w]) m) (List.enumerate (Suc i0) ratios) m1 = Ok m'"
    "\<forall>i t. nd_at m' [i, t] = (if Suc i0 \<le> i \<and> i < Suc i0 + length ratios
        \<and> t < fst (ratios ! (i - Suc i0)) * snd (ratios ! (i - Suc i0)) then 1 else nd_at m1 [i, t])"
    using Cons.IH [of "Suc i0" m1] Cons.prems m1(2) by auto
  have "nd_at m' [i, t] = (if i0 \<le> i \<and> i < i0 + length (r # ratios)
        \<and> t < fst ((r # ratios) ! (i - i0)) * snd ((r # ratios) ! (i - i0)) then 1 else nd_at m [i, t])" for i t
  proof (cases "i = i0")
    case True
    then show ?thesis using m'(2) m1(3) [of "[i, t]"] r by (simp add: ones_def)
  next
    case False
    then have "i0 \<le> i \<longleftrightarrow> Suc i0 \<le> i" by auto
    moreover have "(r # ratios) ! (i - i0) = ratios ! (i - Suc i0)" if "Suc i0 \<le> i"
      using that by (simp add: nth_Cons' Suc_diff_le)
    ultimately show ?thesis using False m'(2) m1(3) [of "[i, t]"] by auto
  qed
  then show ?case using m1(1) m'(1) r by auto
qed auto

lemma ratio_mask_run:
  assumes "\<forall>(h, w) \<in> set ratios. h * w \<le> max_tiles" and "length ratios \<le> max_images" and "0 < max_tiles"
  shows "\<exists>m. build_aspect_ratio_mask ratios max_tiles max_images = Ok m
    \<and> (\<forall>i < length ratios. \<forall>t. nd_at m [i, t] = (if t = 0 \<or> t < fst (ratios ! i) * snd (ratios ! i) then 1 else 0))"
proof -
  obtain m1 :: "int nd" where m1: "slice_assign [] (ones [max_images, 1]) (zeros [max_images, max_tiles]) = Ok m1"
    "nd_shape m1 = [max_images, max_tiles]" and row: "\<And>i t. nd_at m1 [i, t] = (if i < max_images \<and> t = 0 then 1 else 0)"
    using assms(3) by (simp add: slice_assign_def)
  obtain m where m: "rfold (\<lambda>(i, (h, w)) m. slice_assign [i] (ones [h * w]) m) (List.enumerate 0 ratios) m1 = Ok m"
    "\<forall>i t. nd_at m [i, t] = (if 0 \<le> i \<and> i < 0 + length ratios \<and> t < fst (ratios ! (i - 0)) * snd (ratios ! (i - 0))
        then 1 else nd_at m1 [i, t])"
    using ratio_rows_run [OF assms(1), of 0 max_images m1] assms(2) m1(2) by auto
  have "nd_at m [i, t] = (if t = 0 \<or> t < fst (ratios ! i) * snd (ratios ! i) then 1 else 0)" if "i < length ratios" for i t
    using m(2) row that assms(2) by auto
  moreover have "build_aspect_ratio_mask ratios max_tiles max_images = Ok m"
    using m1(1) m(1) by (simp add: build_aspect_ratio_mask_def)
  ultimately show ?thesis by blast
qed


section \<open>Witnesses\<close>

text \<open>An image, a text, two images and a text.\<close>

theorem cross_attention_mask_is_the_reference_witness:
  "\<exists>m. convert_sparse_cross_attention_mask_to_dense [get_cross_attention_token_mask [9, 7, 9, 9, 2] 9] [[1, 2, 1]] 4 5 = Ok m
     \<and> m 0 4 1 1 = 1 \<and> m 0 4 0 0 = 0 \<and> m 0 1 1 0 = 0"
proof -
  have pos: "positions_of 9 [9, 7, 9, 9, 2] = [0, 2, 3]"
    by (simp add: positions_of_def upt_rec numeral_eq_Suc)
  obtain m where m: "convert_sparse_cross_attention_mask_to_dense (map (\<lambda>toks. get_cross_attention_token_mask toks 9) [[9, 7, 9, 9, 2]])
      [[1, 2, 1]] 4 5 = Ok m"
    "\<forall>s p k t. s < length [[9, 7, 9, 9, 2::nat]] \<longrightarrow> p < 5 \<longrightarrow> m s p k t =
        (if k < length (positions_of 9 ([[9, 7, 9, 9, 2]] ! s)) \<and> t < [[1, 2, 1]] ! s ! k
           \<and> attends ([[9, 7, 9, 9, 2]] ! s) 9 (positions_of 9 ([[9, 7, 9, 9, 2]] ! s) ! k) p then 1 else 0)"
    using cross_attention_mask_is_the_reference [of "[[9, 7, 9, 9, 2]]" "[[1, 2, 1]]" 5 9 4] by (auto simp: pos)
  have "attends [9, 7, 9, 9, 2] 9 2 4"
  proof -
    have "[9, 7, 9, 9, 2::nat] ! (q - 1) = 9" if "2 < q" "q \<le> 4" "[9, 7, 9, 9, 2::nat] ! q = 9" for q
    proof -
      have "q = 3 \<or> q = 4" using that(1,2) by auto
      then show ?thesis using that(3) by auto
    qed
    then show ?thesis by (auto simp: attends_def)
  qed
  moreover have "\<not> attends [9, 7, 9, 9, 2] 9 0 4" by (auto simp: attends_def intro!: exI [of _ 2])
  moreover have "\<not> attends [9, 7, 9, 9, 2] 9 2 1" by (simp add: attends_def)
  ultimately show ?thesis using m by (intro exI [of _ m]) (simp add: pos)
qed

definition rat_div :: "nat \<Rightarrow> nat \<Rightarrow> rat" where
  "rat_div a b = of_nat a / of_nat b"

theorem the_best_canvas_is_chosen_witness:
  "\<exists>c. get_optimal_tiled_canvas rat_div 100 300 4 560 = Ok c \<and> c \<in> canvases 4 560"
  using the_best_canvas_is_chosen [of 4 rat_div 100 300 560] by auto

theorem tiles_are_the_image_witness:
  "\<exists>ts. split_to_tiles \<lparr>nd_shape = [1, 2, 4], nd_at = (\<lambda>ix. ix ! 1 * 10 + ix ! 2)\<rparr> 2 2 = Ok ts \<and> nd_at ts [3, 0, 0, 1] = 13"
proof -
  let ?img = "\<lparr>nd_shape = [1, 2, 4], nd_at = (\<lambda>ix. ix ! 1 * 10 + ix ! 2)\<rparr>"
  obtain ts where ts: "split_to_tiles ?img 2 2 = Ok ts"
    "\<forall>t < 2 * 2. \<forall>c < 1. \<forall>y < 1. \<forall>x < 2. nd_at ts [t, c, y, x] = nd_at ?img [c, t div 2 * 1 + y, t mod 2 * 2 + x]"
    using tiles_are_the_image [of ?img 1 2 1 2 2] by auto
  from ts(2) [rule_format, of 3 0 0 1] ts(1) show ?thesis by (intro exI [of _ ts]) simp
qed

definition plain_images :: "(nat \<times> nat, nat) image_ops" where
  "plain_images = \<lparr>im_dims = (\<lambda>i. i), im_tensor = (\<lambda>i h w. \<lparr>nd_shape = [3, h, w], nd_at = (\<lambda>_. 1)\<rparr>), im_transform = (\<lambda>t. t)\<rparr>"


end
