(* ===== verification/Qwen2vl_Inputs.thy ===== *)
theory Qwen2vl_Inputs
  imports Complex_Main Nd_Tensor Substrings Seq
begin

text \<open>
  The inputs of Qwen2-VL (\<^verbatim>\<open>mistralrs-core/src/vision_models/qwen2vl/inputs_processor.rs\<close>, with
  \<^verbatim>\<open>mistralrs-vision/src/pad.rs\<close>): images are padded, resized and cut into patches, the image token
  of a prompt is expanded to one token per merged patch, and the tokens of the sequence are replaced.

  A text is its bytes, a grid the three numbers of patches in time, height and width; all numbers are
  natural numbers and the product of a grid, a \<^verbatim>\<open>u32\<close>, panics on overflow. The image library, the 32 and 64
  bit floating point operations and the tokenizer are parameters.
\<close>

section \<open>Texts\<close>

definition vision_start :: "byte list" where
  "vision_start = bytes_of ''<|vision_start|>''"

definition image_pad :: "byte list" where
  "image_pad = bytes_of ''<|image_pad|>''"

definition video_pad :: "byte list" where
  "video_pad = bytes_of ''<|video_pad|>''"

definition placeholder :: "byte list" where
  "placeholder = bytes_of ''<|placeholder|>''"

definition replace_first_occurrence :: "byte list \<Rightarrow> byte list \<Rightarrow> byte list \<Rightarrow> byte list" where
  "replace_first_occurrence s to_replace replacement =
     (case find_str to_replace s of
        Some pos \<Rightarrow> take pos s @ replacement @ drop (pos + length to_replace) s
      | None \<Rightarrow> s)"

text \<open>The maximal runs of \<open>needle\<close>; \<open>start\<close> is where the current one began.\<close>

fun runs_loop :: "nat \<Rightarrow> nat option \<Rightarrow> nat \<Rightarrow> nat list \<Rightarrow> (nat \<times> nat) list" where
  "runs_loop needle start i [] = (case start of Some s \<Rightarrow> [(s, i)] | None \<Rightarrow> [])"
| "runs_loop needle start i (num # nums) =
     (if num = needle then runs_loop needle (case start of None \<Rightarrow> Some i | Some s \<Rightarrow> Some s) (i + 1) nums
      else (case start of Some s \<Rightarrow> (s, i) # runs_loop needle None (i + 1) nums
            | None \<Rightarrow> runs_loop needle None (i + 1) nums))"

definition find_sequences :: "nat list \<Rightarrow> nat \<Rightarrow> (nat \<times> nat) list" where
  "find_sequences nums needle = runs_loop needle None 0 nums"

text \<open>The ends of the occurrences; \<open>s\<close> is the haystack from \<open>start\<close> on. The needle is not empty.\<close>

function ends_loop :: "byte list \<Rightarrow> nat \<Rightarrow> byte list \<Rightarrow> nat list" where
  "ends_loop needle start s =
     (case find_str needle s of None \<Rightarrow> []
      | Some pos \<Rightarrow> if needle = [] then []
          else (start + pos + length needle) # ends_loop needle (start + pos + length needle) (drop (pos + length needle) s))"
  by pat_completeness auto
termination
  by (relation "measure (\<lambda>(n, i, s). length s)") (auto dest: find_str_shrinks)

declare ends_loop.simps [simp del]

definition find_substring_indices :: "byte list \<Rightarrow> byte list \<Rightarrow> nat list" where
  "find_substring_indices haystack needle = ends_loop needle 0 haystack"

text \<open>How many of the indices are followed by the token.\<close>

definition count_followed :: "byte list \<Rightarrow> byte list \<Rightarrow> nat list \<Rightarrow> nat res" where
  "count_followed prompt_text token idxs =
     rbind (rmap (\<lambda>i. str_slice prompt_text i (i + length token)) idxs) (\<lambda>slices.
     Ok (length (filter (\<lambda>s. s = token) slices)))"

section \<open>Expanding the image tokens\<close>

type_synonym grid = "nat \<times> nat \<times> nat"

text \<open>\<^verbatim>\<open>iter().product::<u32>() as usize / merge_length\<close>.\<close>

definition pad_count :: "nat \<Rightarrow> grid \<Rightarrow> nat res" where
  "pad_count merge_length = (\<lambda>(t, h, w).
     if t * h * w < 2 ^ 32 then udiv (t * h * w) merge_length
     else Err (Panic ''attempt to multiply with overflow''))"

text \<open>The \<^verbatim>\<open>while\<close> loop over a text; \<open>index\<close> is the next image.\<close>

function expand_pads :: "nat \<Rightarrow> byte list \<Rightarrow> grid list \<Rightarrow> nat \<Rightarrow> byte list \<Rightarrow> (nat \<times> byte list) res" where
  "expand_pads merge_length pad grids index s =
     (if find_str pad s = None then Ok (index, s)
      else if index < length grids then
        rbind (pad_count merge_length (grids ! index)) (\<lambda>n.
        expand_pads merge_length pad grids (index + 1) (replace_first_occurrence s pad (str_repeat n placeholder)))
      else Err (Panic ''unwrap on an Err value''))"
  by pat_completeness auto
termination
  by (relation "measure (\<lambda>(m, p, grids, index, s). length grids - index)") auto

declare expand_pads.simps [simp del]

definition expand_one :: "nat \<Rightarrow> byte list \<Rightarrow> grid list list \<Rightarrow> nat \<times> byte list \<Rightarrow> nat \<times> byte list list
    \<Rightarrow> (nat \<times> byte list list) res" where
  "expand_one merge_length pad grids = (\<lambda>(batch, s) (index, texts).
     rbind (vget grids batch) (\<lambda>gs.
     rbind (expand_pads merge_length pad gs index s) (\<lambda>(index, s).
     Ok (index, texts @ [replace_all placeholder pad s]))))"

definition expand_batch :: "nat \<Rightarrow> byte list \<Rightarrow> grid list list \<Rightarrow> byte list list \<Rightarrow> byte list list res" where
  "expand_batch merge_length pad grids texts =
     rbind (rfold (expand_one merge_length pad grids) (List.enumerate 0 texts) (0, [])) (\<lambda>(index, texts).
     Ok texts)"

section \<open>Images\<close>

datatype filter_type = Nearest | Triangle | CatmullRom | Lanczos3

fun to_filter :: "nat option \<Rightarrow> filter_type res" where
  "to_filter None = Ok Triangle"
| "to_filter (Some x) =
     (if x = 0 then Ok Nearest else if x = 1 then Ok Lanczos3 else if x = 2 then Ok Triangle
      else if x = 3 then Ok CatmullRom else if x = 4 then Ok Nearest
      else Err (Bail ''Filter number not supported''))"

record preprocessor_config =
  resampling :: "nat option"
  do_resize :: "bool option"
  patch_size :: "nat option"
  merge_size :: "nat option"
  temporal_patch_size :: "nat option"
  min_pixels :: "nat option"
  max_pixels :: "nat option"

text \<open>
  The image library: \<^verbatim>\<open>dimensions\<close> (width and height), \<^verbatim>\<open>resize_exact\<close> to a width and a height, \<^verbatim>\<open>to_rgb8\<close>,
  the color type, a black image of a color type, \<^verbatim>\<open>copy_from\<close> at the origin; and \<^verbatim>\<open>ToTensor\<close> with \<^verbatim>\<open>Normalize\<close>.
\<close>

datatype color = Rgb8 | Rgba8 | OtherColor

record ('i, 'a) image_ops =
  im_dims :: "'i \<Rightarrow> nat \<times> nat"
  im_resize_exact :: "nat \<Rightarrow> nat \<Rightarrow> filter_type \<Rightarrow> 'i \<Rightarrow> 'i"
  im_to_rgb8 :: "'i \<Rightarrow> 'i"
  im_color :: "'i \<Rightarrow> color"
  im_black :: "color \<Rightarrow> nat \<Rightarrow> nat \<Rightarrow> 'i"
  im_copy_from :: "'i \<Rightarrow> 'i \<Rightarrow> 'i option"
  im_tensor :: "'i \<Rightarrow> 'a nd res"

record ('f, 'g) float_ops =
  f_of :: "nat \<Rightarrow> 'f"
  f_div :: "'f \<Rightarrow> 'f \<Rightarrow> 'f"
  f_mul :: "'f \<Rightarrow> 'f \<Rightarrow> 'f"
  f_sqrt :: "'f \<Rightarrow> 'f"
  f_round :: "'f \<Rightarrow> nat"
  f_floor :: "'f \<Rightarrow> nat"
  f_ceil :: "'f \<Rightarrow> nat"
  f32_quotient :: "nat \<Rightarrow> nat \<Rightarrow> 'g"
  f32_scaled :: "nat \<Rightarrow> 'g \<Rightarrow> nat"

definition resize_image_to_max_edge :: "('f, 'g) float_ops \<Rightarrow> ('i, 'a) image_ops \<Rightarrow> nat \<Rightarrow> 'i \<Rightarrow> 'i" where
  "resize_image_to_max_edge fo ops max_edge img =
     (let (width, height) = im_dims ops img;
          scale = (if height < width then f32_quotient fo max_edge width else f32_quotient fo max_edge height)
      in im_resize_exact ops (f32_scaled fo width scale) (f32_scaled fo height scale) Lanczos3 img)"

text \<open>The loop that finds the largest width and the largest height: height and width.\<close>

definition largest_dims :: "('i, 'a) image_ops \<Rightarrow> 'i list \<Rightarrow> nat \<times> nat" where
  "largest_dims ops imgs = fold (\<lambda>img (height, width).
     let (w, h) = im_dims ops img in (if height < h then h else height, if width < w then w else width)) imgs (0, 0)"

definition pad_image :: "('i, 'a) image_ops \<Rightarrow> nat \<Rightarrow> nat \<Rightarrow> 'i \<Rightarrow> 'i res" where
  "pad_image ops max_width max_height img =
     (if im_color ops img = OtherColor then Err (Panic ''rgb8 or rgba8 are the only supported image types'')
      else unwrap (im_copy_from ops (im_black ops (im_color ops img) max_width max_height) img))"

definition pad_to_max_edge :: "('f, 'g) float_ops \<Rightarrow> ('i, 'a) image_ops \<Rightarrow> 'i list \<Rightarrow> nat \<Rightarrow> 'i list res" where
  "pad_to_max_edge fo ops imgs max_edge =
     (let new_imgs = map (resize_image_to_max_edge fo ops max_edge) imgs;
          (max_height, max_width) = largest_dims ops new_imgs
      in rmap (pad_image ops max_width max_height) new_imgs)"

section \<open>Patches\<close>

definition smart_resize :: "('f::linorder, 'g) float_ops \<Rightarrow> nat \<Rightarrow> nat \<Rightarrow> nat \<Rightarrow> nat \<Rightarrow> nat \<Rightarrow> (nat \<times> nat) res" where
  "smart_resize fo height width factor min_px max_px =
     (let f = f_of fo; fdiv = f_div fo; fmul = f_mul fo in
      if height < factor \<or> width < factor then Err (Bail ''height or width must be larger than factor'')
      else if f 200 < fdiv (f (max height width)) (f (min height width))
        then Err (Bail ''absolute aspect ratio must be smaller than 200'')
      else
        let h_bar = f_round fo (fdiv (f height) (f factor)) * factor;
            w_bar = f_round fo (fdiv (f width) (f factor)) * factor
        in if max_px < h_bar * w_bar then
             let beta = f_sqrt fo (fdiv (f (height * width)) (f max_px))
             in Ok (f_floor fo (fdiv (fdiv (f height) beta) (f factor)) * factor,
                    f_floor fo (fdiv (fdiv (f width) beta) (f factor)) * factor)
           else if h_bar * w_bar < min_px then
             let beta = f_sqrt fo (fdiv (f min_px) (f (height * width)))
             in Ok (f_ceil fo (fdiv (fmul (f height) beta) (f factor)) * factor,
                    f_ceil fo (fdiv (fmul (f width) beta) (f factor)) * factor)
           else Ok (h_bar, w_bar))"

definition filter_of :: "preprocessor_config \<Rightarrow> filter_type res" where
  "filter_of config = (case resampling config of Some r \<Rightarrow> to_filter (Some r) | None \<Rightarrow> Ok CatmullRom)"

text \<open>The body of the loop of \<^verbatim>\<open>preprocess_inner\<close>, on height, width and the processed images.\<close>

definition process_image :: "('f::linorder, 'g) float_ops \<Rightarrow> ('i, 'a) image_ops \<Rightarrow> preprocessor_config \<Rightarrow> 'i
    \<Rightarrow> nat \<times> nat \<times> 'a nd list \<Rightarrow> (nat \<times> nat \<times> 'a nd list) res" where
  "process_image fo ops config img = (\<lambda>(height, width, processed).
     rbind (filter_of config) (\<lambda>filt.
     let img = im_to_rgb8 ops (im_resize_exact ops height width filt img) in
     rbind (if do_resize config = None \<or> do_resize config = Some True then
              rbind (context_of ''Require `patch_size`.'' (patch_size config)) (\<lambda>p.
              rbind (context_of ''Require `merge_size`'' (merge_size config)) (\<lambda>m.
              rbind (context_of ''Require `min_pixels`'' (min_pixels config)) (\<lambda>min_px.
              rbind (context_of ''Require `max_pixels`'' (max_pixels config)) (\<lambda>max_px.
              rbind (smart_resize fo height width (p * m) min_px max_px) (\<lambda>(h, w).
              Ok (h, w, im_resize_exact ops w h filt img))))))
            else Ok (height, width, img)) (\<lambda>(height, width, img).
     rbind (im_tensor ops img) (\<lambda>x.
     Ok (height, width, processed @ [x])))))"

text \<open>
  Cutting the images of a grid into patches: time, height and width outside, and within them the patches
  of a window that is merged to one token, then channel, time and the pixels of the patch.
\<close>

definition cut_grid :: "nat \<Rightarrow> nat \<Rightarrow> nat \<Rightarrow> nat \<Rightarrow> nat \<Rightarrow> 'a nd \<Rightarrow> ('a nd \<times> grid) res" where
  "cut_grid temporal patch merge height width patches =
     (case nd_shape patches of
        [n, channel, _, _] \<Rightarrow>
          rbind (udiv n temporal) (\<lambda>grid_t.
          rbind (udiv height patch) (\<lambda>grid_h.
          rbind (udiv width patch) (\<lambda>grid_w.
          rbind (udiv grid_h merge) (\<lambda>mh.
          rbind (udiv grid_w merge) (\<lambda>mw.
          rbind (reshape [grid_t, temporal, channel, mh, merge, patch, mw, merge, patch] patches) (\<lambda>patches.
          rbind (reshape [grid_t * grid_h * grid_w, channel * temporal * patch * patch]
                   (permute [0, 3, 6, 4, 7, 2, 1, 5, 8] patches)) (\<lambda>flattened.
          Ok (flattened, (grid_t, grid_h, grid_w)))))))))
      | _ \<Rightarrow> Err (Bail ''unexpected rank''))"

text \<open>A single image is repeated in time.\<close>

definition cut_patches :: "nat \<Rightarrow> nat \<Rightarrow> nat \<Rightarrow> nat \<Rightarrow> nat \<Rightarrow> 'a nd \<Rightarrow> ('a nd \<times> grid) res" where
  "cut_patches temporal patch merge height width patches =
     cut_grid temporal patch merge height width
       (if hd (nd_shape patches) = 1 then repeat_first temporal patches else patches)"

text \<open>The last part of the result is what is written to the field \<^verbatim>\<open>merge_size\<close> of the processor.\<close>

definition preprocess_inner :: "('f::linorder, 'g) float_ops \<Rightarrow> ('i, 'a) image_ops \<Rightarrow> preprocessor_config \<Rightarrow> nat \<times> nat \<Rightarrow> 'i list
    \<Rightarrow> ('a nd \<times> grid \<times> nat) res" where
  "preprocess_inner fo ops config dims imgs =
     rbind (rfold (process_image fo ops config) imgs (fst dims, snd dims, [])) (\<lambda>(height, width, processed).
     rbind (stack processed) (\<lambda>patches.
     rbind (context_of ''Require `temporal_patch_size'' (temporal_patch_size config)) (\<lambda>temporal.
     rbind (context_of ''Require `patch_size'' (patch_size config)) (\<lambda>patch.
     rbind (context_of ''Require `merge_size'' (merge_size config)) (\<lambda>merge.
     rbind (cut_patches temporal patch merge height width patches) (\<lambda>(flattened, grid).
     Ok (flattened, grid, merge)))))))"

text \<open>What \<^verbatim>\<open>preprocess\<close> answers, and the merge size it leaves in the processor.\<close>

record 'a preprocessed =
  pixel_values :: "'a nd"
  image_grid_thw :: "grid list option"
  video_grid_thw :: "grid list option"

definition preprocess :: "('f::linorder, 'g) float_ops \<Rightarrow> ('i, 'a) image_ops \<Rightarrow> preprocessor_config \<Rightarrow> nat option
    \<Rightarrow> 'i list \<Rightarrow> 'i list list \<Rightarrow> ('a preprocessed \<times> nat) res" where
  "preprocess fo ops config max_edge imgs videos =
     (if imgs \<noteq> [] then
        rbind (case max_edge of Some e \<Rightarrow> pad_to_max_edge fo ops imgs e | None \<Rightarrow> Ok imgs) (\<lambda>imgs.
        rbind (rmap (\<lambda>img. preprocess_inner fo ops config (largest_dims ops imgs) [img]) imgs) (\<lambda>results.
        rbind (stack (map fst results)) (\<lambda>values.
        Ok (\<lparr>pixel_values = values, image_grid_thw = Some (map (fst \<circ> snd) results), video_grid_thw = None\<rparr>,
            snd (snd (last results))))))
      else if videos \<noteq> [] then
        rbind (rmap (\<lambda>frames. vget frames 0) videos) (\<lambda>firsts.
        rbind (rmap (preprocess_inner fo ops config (largest_dims ops firsts)) videos) (\<lambda>results.
        rbind (stack (map fst results)) (\<lambda>values.
        Ok (\<lparr>pixel_values = values, image_grid_thw = None, video_grid_thw = Some (map (fst \<circ> snd) results)\<rparr>,
            snd (snd (last results))))))
      else Err (Panic ''internal error: entered unreachable code''))"

section \<open>The inputs of a step\<close>

text \<open>
  What the processor reads and writes of a sequence: its images, the cached results of preprocessing and
  the text of the prompt, besides its tokens.
\<close>

record ('s, 'i, 'a) vision_sequence =
  vs_seq :: "'s sequence"
  vs_images :: "'i list option"
  vs_cached :: "'a preprocessed option"
  vs_initial_prompt :: "byte list"

record 'a vision_args =
  va_new_input :: "nat list list"
  va_pixel_values :: "'a nd list"
  va_image_grid :: "grid list list option"
  va_video_grid :: "grid list list option"
  va_img_pads :: "(nat \<times> nat) list list"
  va_vid_pads :: "(nat \<times> nat) list list"
  va_ids_searching :: "nat list list"
  va_image_nums :: "nat list"
  va_video_nums :: "nat list"

text \<open>The tokenizer: decoding of tokens with the special ones, encoding with or without special tokens around.\<close>

record tokenizer =
  tk_decode :: "nat list \<Rightarrow> byte list option"
  tk_encode :: "byte list \<Rightarrow> bool \<Rightarrow> nat list option"

definition has_images :: "('s, 'i, 'a) vision_sequence list \<Rightarrow> bool" where
  "has_images seqs \<longleftrightarrow> (\<forall>s \<in> set seqs. case vs_images s of Some imgs \<Rightarrow> imgs \<noteq> [] | None \<Rightarrow> False)"

text \<open>The loop that preprocesses the images; the number is the merge size of the processor.\<close>

definition preprocess_seq :: "('f::linorder, 'g) float_ops \<Rightarrow> ('i, 'a) image_ops \<Rightarrow> preprocessor_config \<Rightarrow> nat option
    \<Rightarrow> ('s, 'i, 'a) vision_sequence \<Rightarrow> nat option \<times> ('s, 'i, 'a) vision_sequence list \<times> 'a preprocessed list
    \<Rightarrow> (nat option \<times> ('s, 'i, 'a) vision_sequence list \<times> 'a preprocessed list) res" where
  "preprocess_seq fo ops config max_edge s = (\<lambda>(merge, seqs, pres).
     case vs_cached s of
       Some pre \<Rightarrow> Ok (merge, seqs @ [s], pres @ [pre])
     | None \<Rightarrow>
         rbind (unwrap (vs_images s)) (\<lambda>imgs.
         case preprocess fo ops config max_edge imgs [] of
           Inl e \<Rightarrow> Err (Panic ''Preprocessing failed'')
         | Inr (pre, m) \<Rightarrow> Ok (Some m, seqs @ [s\<lparr>vs_cached := Some pre\<rparr>], pres @ [pre])))"

definition all_grids :: "grid list option list \<Rightarrow> grid list list option" where
  "all_grids gs = (if None \<in> set gs then None else Some (map the gs))"

text \<open>\<^verbatim>\<open>self.merge_size.read().unwrap().unwrap().pow(2)\<close> and the expansion of one kind of token.\<close>

definition expand_kind :: "nat option \<Rightarrow> byte list \<Rightarrow> grid list list option \<Rightarrow> byte list list \<Rightarrow> byte list list res" where
  "expand_kind merge pad grids texts =
     (case grids of None \<Rightarrow> Ok texts
      | Some gs \<Rightarrow> rbind (unwrap merge) (\<lambda>m. expand_batch (m ^ 2) pad gs texts))"

definition retokenize :: "tokenizer \<Rightarrow> byte list \<Rightarrow> ('s, 'i, 'a) vision_sequence
    \<Rightarrow> (('s, 'i, 'a) vision_sequence \<times> nat list \<times> (nat \<times> nat) list \<times> (nat \<times> nat) list) res" where
  "retokenize tk s vs =
     rbind (unwrap (tk_encode tk s True)) (\<lambda>ids.
     rbind (unwrap (tk_encode tk image_pad False)) (\<lambda>img.
     rbind (vget img 0) (\<lambda>img.
     rbind (unwrap (tk_encode tk video_pad False)) (\<lambda>vid.
     rbind (vget vid 0) (\<lambda>vid.
     rbind (set_toks ids (vs_seq vs)) (\<lambda>q.
     Ok (vs\<lparr>vs_seq := q, vs_initial_prompt := s\<rparr>, ids, find_sequences ids img, find_sequences ids vid)))))))"

definition search_ids :: "tokenizer \<Rightarrow> ('s, 'i, 'a) vision_sequence \<Rightarrow> (nat list \<times> nat \<times> nat) res" where
  "search_ids tk vs =
     (let p = vs_initial_prompt vs; idxs = find_substring_indices p vision_start in
      rbind (count_followed p image_pad idxs) (\<lambda>imgs.
      rbind (count_followed p video_pad idxs) (\<lambda>vids.
      rbind (unwrap (tk_encode tk p True)) (\<lambda>ids. Ok (ids, imgs, vids)))))"

definition pad_ids :: "nat list list \<Rightarrow> nat list list res" where
  "pad_ids idss =
     (if idss = [] then Err (Panic ''unwrap on None'')
      else let max_len = Max (length ` set idss)
           in Ok (map (\<lambda>ids. ids @ replicate (max_len - length ids) 0) idss))"

text \<open>The second half of the work on images: tokens, runs and counts of the texts.\<close>

definition vision_results :: "tokenizer \<Rightarrow> byte list list \<Rightarrow> ('s, 'i, 'a) vision_sequence list \<Rightarrow> 'a preprocessed list
    \<Rightarrow> (('s, 'i, 'a) vision_sequence list \<times> 'a vision_args) res" where
  "vision_results tk texts seqs pres =
     rbind (rmap (\<lambda>(s, vs). retokenize tk s vs) (zip texts seqs)) (\<lambda>rs.
     rbind (rmap (search_ids tk) (map fst rs)) (\<lambda>found.
     rbind (pad_ids (map (fst \<circ> snd) rs)) (\<lambda>new_input.
     Ok (map fst rs, \<lparr>va_new_input = new_input, va_pixel_values = map pixel_values pres,
       va_image_grid = all_grids (map image_grid_thw pres), va_video_grid = all_grids (map video_grid_thw pres),
       va_img_pads = map (fst \<circ> snd \<circ> snd) rs, va_vid_pads = map (snd \<circ> snd \<circ> snd) rs,
       va_ids_searching = map fst found, va_image_nums = map (fst \<circ> snd) found,
       va_video_nums = map (snd \<circ> snd) found\<rparr>))))"

definition expand_texts :: "nat option \<Rightarrow> 'a preprocessed list \<Rightarrow> byte list list \<Rightarrow> byte list list res" where
  "expand_texts merge pres texts =
     rbind (expand_kind merge image_pad (all_grids (map image_grid_thw pres)) texts)
       (expand_kind merge video_pad (all_grids (map video_grid_thw pres)))"

text \<open>
  The processor is made anew for every step, with an unset merge size. The result is the
  sequences and what goes to the model, \<open>None\<close> when not all sequences have images.
\<close>

definition process_vision :: "('f::linorder, 'g) float_ops \<Rightarrow> ('i, 'a) image_ops \<Rightarrow> tokenizer \<Rightarrow> preprocessor_config \<Rightarrow> nat option
    \<Rightarrow> bool \<Rightarrow> ('s, 'i, 'a) vision_sequence list
    \<Rightarrow> (('s, 'i, 'a) vision_sequence list \<times> 'a vision_args option) res" where
  "process_vision fo ops tk config max_edge prompting seqs =
     (if \<not> has_images seqs then Ok (seqs, None)
      else
        rbind (rmap (\<lambda>s. unwrap (tk_decode tk (get_toks (vs_seq s)))) seqs) (\<lambda>texts.
        rbind (rfold (preprocess_seq fo ops config max_edge) seqs (None, [], [])) (\<lambda>(merge, seqs, pres).
        rbind (if prompting then expand_texts merge pres texts else Ok texts) (\<lambda>texts.
        rbind (vision_results tk texts seqs pres) (\<lambda>(seqs, args).
        Ok (seqs, Some args))))))"

text \<open>The guards of \<^verbatim>\<open>process_inputs\<close>, before the inputs of the text are made.\<close>

definition process_inputs :: "('f::linorder, 'g) float_ops \<Rightarrow> ('i, 'a) image_ops \<Rightarrow> tokenizer option \<Rightarrow> preprocessor_config \<Rightarrow> nat option
    \<Rightarrow> bool \<Rightarrow> bool \<Rightarrow> bool \<Rightarrow> ('s, 'i, 'a) vision_sequence list
    \<Rightarrow> (('s, 'i, 'a) vision_sequence list \<times> 'a vision_args option) res" where
  "process_inputs fo ops tk config max_edge is_xlora no_kv_cache prompting seqs =
     (if is_xlora then Err (Bail ''Cannot make inputs for X-LoRA vision model.'')
      else if no_kv_cache then Err (Bail ''Vision model must have kv cache.'')
      else if length seqs \<noteq> 1 then Err (Bail ''Qwen2-VL only supports batch size = 1'')
      else rbind (context_of ''MLlamaInputProcessor requires a specified tokenizer.'' tk) (\<lambda>tk.
        process_vision fo ops tk config max_edge prompting seqs))"

section \<open>The runs of image tokens\<close>

lemma runs_loop_text: "needle \<notin> set p \<Longrightarrow> runs_loop needle None i (p @ nums) = runs_loop needle None (i + length p) nums"
  by (induction p arbitrary: i) simp_all

lemma runs_loop_run:
  "rest = [] \<or> hd rest \<noteq> needle \<Longrightarrow>
   runs_loop needle (Some s) i (replicate k needle @ rest) = (s, i + k) # runs_loop needle None (i + k) rest"
proof (induction k arbitrary: i)
  case 0
  then show ?case by (cases rest) simp_all
qed simp

text \<open>The tokens of a prompt: texts around runs of the image token.\<close>

definition token_runs :: "nat \<Rightarrow> nat list \<Rightarrow> (nat \<times> nat list) list \<Rightarrow> nat list" where
  "token_runs needle p kps = weave p (map (\<lambda>(k, p). (replicate k needle, p)) kps)"

text \<open>Where they are.\<close>

fun run_places :: "nat \<Rightarrow> nat list \<Rightarrow> (nat \<times> nat list) list \<Rightarrow> (nat \<times> nat) list" where
  "run_places i p [] = []"
| "run_places i p ((k, q) # kps) = (i + length p, i + length p + k) # run_places (i + length p + k) q kps"

lemma token_runs_simps [simp]:
  "token_runs needle p [] = p"
  "token_runs needle p ((k, q) # kps) = p @ replicate k needle @ token_runs needle q kps"
  by (simp_all add: token_runs_def)

lemma find_runs:
  assumes "needle \<notin> set p" and "\<forall>(k, q) \<in> set kps. 0 < k \<and> needle \<notin> set q"
    and "\<forall>(k, q) \<in> set (butlast kps). q \<noteq> []"
  shows "runs_loop needle None i (token_runs needle p kps) = run_places i p kps"
  using assms
proof (induction kps arbitrary: i p)
  case Nil
  then show ?case using runs_loop_text [of needle p i "[]"] by simp
next
  case (Cons kq kps)
  obtain k q where kq: "kq = (k, q)" by (cases kq)
  have k: "0 < k" "needle \<notin> set q" "kps \<noteq> [] \<Longrightarrow> q \<noteq> []" using Cons.prems by (auto simp: kq)
  have rest: "token_runs needle q kps = [] \<or> hd (token_runs needle q kps) \<noteq> needle"
  proof (cases kps)
    case Nil
    then show ?thesis using k(2) by (cases q) auto
  next
    case (Cons x xs)
    then have "q \<noteq> []" using k(3) by simp
    then show ?thesis using k(2) Cons by (cases x; cases q) auto
  qed
  have "\<forall>(k, q) \<in> set (butlast kps). q \<noteq> []" using Cons.prems(3) by (cases kps) auto
  then have IH: "runs_loop needle None j (token_runs needle q kps) = run_places j q kps" for j
    using Cons.IH [OF k(2)] Cons.prems(2) by auto
  obtain k' where "k = Suc k'" using k(1) by (cases k) auto
  then show ?case
    using runs_loop_run [OF rest, of "i + length p" "i + length p + 1" k'] runs_loop_text [OF Cons.prems(1)] IH
    by (simp add: kq)
qed

section \<open>Expansion\<close>

lemma special_tokens [simp]:
  "special image_pad" "special video_pad" "special placeholder" "special vision_start"
  by (simp_all add: special_def image_pad_def video_pad_def placeholder_def vision_start_def bytes_of_def of_char_def)

lemma occurs_Cons: "occurs a (c # s) \<longleftrightarrow> take (length a) (c # s) = a \<or> occurs a s"
  by (simp add: occurs_def)

lemma occurs_skip: "a \<noteq> [] \<Longrightarrow> hd a \<notin> set x \<Longrightarrow> occurs a (x @ s) \<longleftrightarrow> occurs a s"
proof (induction x)
  case (Cons c x)
  then have "take (length a) (c # x @ s) \<noteq> a" by (cases a) auto
  then show ?case using Cons by (simp add: occurs_Cons)
qed simp

text \<open>A placeholder neither is a token to expand nor makes one with what follows.\<close>

definition expandable :: "byte list \<Rightarrow> bool" where
  "expandable pad \<longleftrightarrow> pad = image_pad \<or> pad = video_pad"

lemma occurs_placeholder: "expandable pad \<Longrightarrow> occurs pad (placeholder @ s) \<longleftrightarrow> occurs pad s"
proof -
  assume pad: "expandable pad"
  obtain c p where p: "placeholder = c # p" by (simp add: placeholder_def bytes_of_def)
  have skip: "pad \<noteq> []" "hd pad \<notin> set p" "take (length pad) (placeholder @ s) \<noteq> pad"
    using pad p by (auto simp: expandable_def image_pad_def video_pad_def placeholder_def bytes_of_def of_char_def)
  then have "occurs pad (placeholder @ s) \<longleftrightarrow> occurs pad (p @ s)" unfolding p by (simp add: occurs_Cons)
  also have "\<dots> \<longleftrightarrow> occurs pad s" by (rule occurs_skip [OF skip(1,2)])
  finally show ?thesis .
qed

lemma occurs_placeholders: "expandable pad \<Longrightarrow> occurs pad (str_repeat k placeholder @ s) \<longleftrightarrow> occurs pad s"
  by (induction k) (simp_all add: occurs_placeholder)

lemma expandable_props: "expandable pad \<Longrightarrow> special pad \<and> hd placeholder = hd pad \<and> placeholder \<noteq> []"
  by (auto simp: expandable_def image_pad_def video_pad_def placeholder_def bytes_of_def of_char_def
      special_def)

lemma opens_placeholders: "expandable pad \<Longrightarrow> 0 < k \<Longrightarrow> opens pad (str_repeat k placeholder @ s)"
  using expandable_props [of pad] by (cases k; cases placeholder) (auto simp: opens_def)

text \<open>The numbers of tokens of the images, when the products do not overflow and nothing is divided by 0.\<close>

definition tokens_of :: "nat \<Rightarrow> grid \<Rightarrow> nat" where
  "tokens_of merge_length = (\<lambda>(t, h, w). t * h * w div merge_length)"

definition good_grid :: "nat \<Rightarrow> grid \<Rightarrow> bool" where
  "good_grid merge_length = (\<lambda>(t, h, w). t * h * w < 2 ^ 32 \<and> 0 < t * h * w div merge_length)"

lemma pad_count_good: "good_grid m g \<Longrightarrow> pad_count m g = Ok (tokens_of m g)"
  by (cases g; cases "m = 0") (auto simp: good_grid_def pad_count_def tokens_of_def udiv_def)

lemma tokens_pos: "good_grid m g \<Longrightarrow> 0 < tokens_of m g"
  by (cases g) (auto simp: good_grid_def tokens_of_def)

definition around :: "(grid \<Rightarrow> byte list) \<Rightarrow> byte list \<Rightarrow> (grid \<times> byte list) list \<Rightarrow> byte list" where
  "around f p gps = weave p (map (\<lambda>(g, p). (f g, p)) gps)"

lemma around_simps [simp]: "around f p [] = p" "around f p ((g, q) # gps) = p @ f g @ around f q gps"
  by (simp_all add: around_def)

lemma expand_pads_run:
  assumes "expandable pad" and "\<not> occurs pad p" and "\<forall>(g, q) \<in> set gps. good_grid m g \<and> \<not> occurs pad q"
    and "drop index grids = map fst gps @ more_grids"
  shows "expand_pads m pad grids index (around (\<lambda>_. pad) p gps)
    = Ok (index + length gps, around (\<lambda>g. str_repeat (tokens_of m g) placeholder) p gps)"
  using assms(2-)
proof (induction gps arbitrary: p index)
  case Nil
  then show ?case by (simp add: expand_pads.simps occurs_def)
next
  case (Cons gq gps)
  obtain g q where gq: "gq = (g, q)" by (cases gq)
  let ?n = "tokens_of m g" and ?rest = "around (\<lambda>_. pad) q gps"
  have g: "good_grid m g" "\<not> occurs pad q" using Cons.prems(2) by (auto simp: gq)
  have index: "index < length grids" "grids ! index = g" "drop (index + 1) grids = map fst gps @ more_grids"
  proof -
    have d: "drop index grids = g # map fst gps @ more_grids" using Cons.prems(3) by (simp add: gq)
    then show "index < length grids" by (metis drop_all leI list.distinct(1))
    then have "drop index grids = grids ! index # drop (index + 1) grids" by (simp add: Cons_nth_drop_Suc)
    then show "grids ! index = g" "drop (index + 1) grids = map fst gps @ more_grids" using d by simp_all
  qed
  have sp: "special pad" using expandable_props [OF assms(1)] by simp
  have f: "find_str pad (p @ pad @ ?rest) = Some (length p)" by (rule find_str_special [OF sp Cons.prems(1)])
  let ?p = "p @ str_repeat ?n placeholder @ q"
  have "\<not> occurs pad ?p"
    using occurs_append [OF sp opens_placeholders [OF assms(1) tokens_pos [OF g(1)], of q] Cons.prems(1)]
      occurs_placeholders [OF assms(1)] g(2) by simp
  moreover have "around (\<lambda>_. pad) ?p gps = p @ str_repeat ?n placeholder @ ?rest"
    by (simp add: around_def weave_def)
  ultimately have IH: "expand_pads m pad grids (index + 1) (p @ str_repeat ?n placeholder @ ?rest)
      = Ok (index + 1 + length gps, around (\<lambda>g. str_repeat (tokens_of m g) placeholder) ?p gps)"
    using Cons.IH [of ?p "index + 1"] Cons.prems(2) index(3) by simp
  have "expand_pads m pad grids index (p @ pad @ ?rest)
      = expand_pads m pad grids (index + 1) (replace_first_occurrence (p @ pad @ ?rest) pad (str_repeat ?n placeholder))"
    using f index pad_count_good [OF g(1)] by (subst expand_pads.simps) simp
  also have "replace_first_occurrence (p @ pad @ ?rest) pad (str_repeat ?n placeholder) = p @ str_repeat ?n placeholder @ ?rest"
    using f by (simp add: replace_first_occurrence_def)
  finally show ?case using IH by (simp add: gq around_def weave_def)
qed

lemma replace_placeholders:
  assumes "\<not> occurs placeholder p" and "\<forall>(g, q) \<in> set gps. 0 < k g \<and> \<not> occurs placeholder q"
  shows "replace_all placeholder pad (around (\<lambda>g. str_repeat (k g) placeholder) p gps)
    = around (\<lambda>g. str_repeat (k g) pad) p gps"
  using assms
proof (induction gps arbitrary: p)
  case Nil
  then show ?case by (simp add: replace_all_none)
next
  case (Cons gq gps)
  obtain g q where gq: "gq = (g, q)" by (cases gq)
  have k: "0 < k g" using Cons.prems(2) by (simp add: gq)
  let ?s = "str_repeat (k g) placeholder @ around (\<lambda>g. str_repeat (k g) placeholder) q gps"
  have "opens placeholder ?s" using k special_tokens(3) by (cases "k g") (auto simp: special_def)
  from replace_all_text [OF special_tokens(3) Cons.prems(1) this] Cons.IH [of q] Cons.prems(2)
  show ?case by (simp add: gq replace_all_repeat)
qed

lemma expansion:
  assumes "expandable pad" and "\<not> occurs pad p" and "\<not> occurs placeholder p"
    and "\<forall>(g, q) \<in> set gps. good_grid m g \<and> \<not> occurs pad q \<and> \<not> occurs placeholder q"
  shows "expand_batch m pad [map fst gps] [around (\<lambda>_. pad) p gps]
    = Ok [around (\<lambda>g. str_repeat (tokens_of m g) pad) p gps]"
proof -
  have "expand_pads m pad (map fst gps) 0 (around (\<lambda>_. pad) p gps)
      = Ok (0 + length gps, around (\<lambda>g. str_repeat (tokens_of m g) placeholder) p gps)"
    by (rule expand_pads_run [where more_grids = "[]"]) (use assms in auto)
  moreover have "replace_all placeholder pad (around (\<lambda>g. str_repeat (tokens_of m g) placeholder) p gps)
      = around (\<lambda>g. str_repeat (tokens_of m g) pad) p gps"
    by (rule replace_placeholders) (use assms tokens_pos in auto)
  ultimately show ?thesis by (simp add: expand_batch_def expand_one_def)
qed

lemma expand_pads_too_many:
  assumes "special pad" and "occurs pad s" and "length grids \<le> index"
  shows "expand_pads m pad grids index s = Err (Panic ''unwrap on an Err value'')"
  using assms by (subst expand_pads.simps) (simp add: occurs_def)

section \<open>The size of a resized image\<close>

text \<open>The 64 bit operations without rounding errors.\<close>

definition exact_ops :: "(real, 'g) float_ops \<Rightarrow> bool" where
  "exact_ops fo \<longleftrightarrow> f_of fo = real \<and> f_div fo = (/) \<and> f_mul fo = (*) \<and> f_sqrt fo = sqrt
     \<and> f_round fo = (\<lambda>x. nat \<lfloor>x + 1 / 2\<rfloor>) \<and> f_floor fo = (\<lambda>x. nat \<lfloor>x\<rfloor>) \<and> f_ceil fo = (\<lambda>x. nat \<lceil>x\<rceil>)"

lemma floor_multiple: "0 < factor \<Longrightarrow> 0 \<le> x \<Longrightarrow> real (nat \<lfloor>x / real factor\<rfloor> * factor) \<le> x"
proof -
  assume f: "0 < factor" and x: "0 \<le> x"
  have "real (nat \<lfloor>x / real factor\<rfloor>) \<le> x / real factor" using x by simp
  then show ?thesis using f by (simp add: pos_le_divide_eq)
qed

lemma ceiling_multiple: "0 < factor \<Longrightarrow> x \<le> real (nat \<lceil>x / real factor\<rceil> * factor)"
proof -
  assume f: "0 < factor"
  have "x / real factor \<le> real (nat \<lceil>x / real factor\<rceil>)" by (rule of_nat_ceiling)
  then show ?thesis using f by (simp add: pos_divide_le_eq)
qed

lemma floor_multiple_pos: "0 < factor \<Longrightarrow> real factor \<le> x \<Longrightarrow> 0 < nat \<lfloor>x / real factor\<rfloor> * factor"
  by (simp add: le_divide_eq)

text \<open>Both sides divided by the root of the ratio of the areas.\<close>

lemma shrunk_area:
  assumes "0 < h" and "0 < w" and "0 < (m::real)"
  shows "(h / sqrt (h * w / m)) * (w / sqrt (h * w / m)) = m"
proof -
  have "sqrt (h * w / m) * sqrt (h * w / m) = h * w / m" using assms by simp
  then have "(h / sqrt (h * w / m)) * (w / sqrt (h * w / m)) = h * w / (h * w / m)" by simp
  also have "\<dots> = m" using assms by simp
  finally show ?thesis .
qed

lemma grown_area:
  assumes "0 < h" and "0 < w" and "0 \<le> (m::real)"
  shows "(h * sqrt (m / (h * w))) * (w * sqrt (m / (h * w))) = m"
proof -
  have "sqrt (m / (h * w)) * sqrt (m / (h * w)) = m / (h * w)" using assms by simp
  then have "(h * sqrt (m / (h * w))) * (w * sqrt (m / (h * w))) = h * w * (m / (h * w))"
    by (metis mult.assoc mult.left_commute)
  also have "\<dots> = m" using assms by simp
  finally show ?thesis .
qed

lemma shrunk_side:
  assumes "0 < h" and "0 < w" and "w \<le> 200 * h" and "0 \<le> f" and "200 * (f * f) \<le> (m::real)" and "0 < m"
  shows "f \<le> h / sqrt (h * w / m)"
proof -
  have "f * f * (h * w / m) \<le> h * h"
  proof -
    have "f * f * (h * w) \<le> f * f * (h * (200 * h))" using assms by (intro mult_left_mono) simp_all
    also have "\<dots> = 200 * (f * f) * (h * h)" by simp
    also have "\<dots> \<le> m * (h * h)" using assms by (intro mult_right_mono) simp_all
    finally show ?thesis using assms(6) by (simp add: pos_divide_le_eq mult.commute)
  qed
  moreover have "sqrt (h * w / m) * sqrt (h * w / m) = h * w / m" using assms by simp
  moreover have "(f * s) * (f * s) = f * f * (s * s)" for s by (simp add: ac_simps)
  ultimately have "(f * sqrt (h * w / m)) * (f * sqrt (h * w / m)) \<le> h * h" by (simp only:)
  then have "(f * sqrt (h * w / m))\<^sup>2 \<le> h\<^sup>2" by (simp only: power2_eq_square)
  then have "f * sqrt (h * w / m) \<le> h" by (rule power2_le_imp_le) (use assms(1) in simp)
  moreover have "0 < sqrt (h * w / m)" using assms by simp
  ultimately show ?thesis by (simp add: pos_le_divide_eq)
qed

lemma round_near: "0 \<le> x \<Longrightarrow> \<bar>real (nat \<lfloor>x + 1 / 2\<rfloor>) - x\<bar> \<le> 1 / (2::real)"
  by linarith

lemma round_multiple:
  assumes "0 < factor" and "factor \<le> h"
  shows "0 < nat \<lfloor>real h / real factor + 1 / 2\<rfloor> * factor"
    and "\<bar>real (nat \<lfloor>real h / real factor + 1 / 2\<rfloor> * factor) - real h\<bar> \<le> real factor / 2"
proof -
  let ?x = "real h / real factor"
  have "1 \<le> ?x" using assms by simp
  then have "1 \<le> ?x + 1 / 2" by linarith
  then have "1 \<le> \<lfloor>?x + 1 / 2\<rfloor>" by (simp only: le_floor_iff of_int_1)
  then show "0 < nat \<lfloor>?x + 1 / 2\<rfloor> * factor" using assms by simp
  have "\<bar>real (nat \<lfloor>?x + 1 / 2\<rfloor>) - ?x\<bar> \<le> 1 / 2" by (rule round_near) simp
  then have "\<bar>real (nat \<lfloor>?x + 1 / 2\<rfloor>) - ?x\<bar> * real factor \<le> 1 / 2 * real factor" by (rule mult_right_mono) simp
  moreover have "\<bar>real (nat \<lfloor>?x + 1 / 2\<rfloor>) - ?x\<bar> * real factor = \<bar>(real (nat \<lfloor>?x + 1 / 2\<rfloor>) - ?x) * real factor\<bar>"
    by (simp add: abs_mult)
  moreover have "(real (nat \<lfloor>?x + 1 / 2\<rfloor>) - ?x) * real factor = real (nat \<lfloor>?x + 1 / 2\<rfloor> * factor) - real h"
    using assms by (simp add: left_diff_distrib)
  ultimately show "\<bar>real (nat \<lfloor>?x + 1 / 2\<rfloor> * factor) - real h\<bar> \<le> real factor / 2" by simp
qed

lemma smart_resize_cases:
  assumes "exact_ops fo" and "0 < factor" and "factor \<le> h" and "factor \<le> w" and "h \<le> 200 * w" and "w \<le> 200 * h"
    and "200 * (factor * factor) \<le> max_px"
  defines "hb \<equiv> nat \<lfloor>real h / real factor + 1 / 2\<rfloor> * factor" and "wb \<equiv> nat \<lfloor>real w / real factor + 1 / 2\<rfloor> * factor"
  shows "\<exists>h' w'. smart_resize fo h w factor min_px max_px = Ok (h', w')
    \<and> factor dvd h' \<and> factor dvd w' \<and> 0 < h' \<and> 0 < w'
    \<and> (max_px < hb * wb \<longrightarrow> h' * w' \<le> max_px)
    \<and> (hb * wb \<le> max_px \<and> hb * wb < min_px \<longrightarrow> min_px \<le> h' * w')
    \<and> (hb * wb \<le> max_px \<and> min_px \<le> hb * wb \<longrightarrow> h' = hb \<and> w' = wb)"
proof -
  have "0 < 200 * (factor * factor)" using assms(2) by simp
  then have hw: "0 < h" "0 < w" "0 < max_px" using assms(2-4,7) by linarith+
  have aspect: "\<not> 200 < real (max h w) / real (min h w)"
  proof -
    have "real (max h w) \<le> 200 * real (min h w)" using assms(5,6) by (auto simp: max_def min_def)
    then show ?thesis using hw by (simp add: pos_divide_le_eq not_less min_def)
  qed
  note ops = assms(1) [unfolded exact_ops_def]
  have run: "smart_resize fo h w factor min_px max_px =
     (if max_px < hb * wb then
        Ok (nat \<lfloor>real h / sqrt (real (h * w) / real max_px) / real factor\<rfloor> * factor,
            nat \<lfloor>real w / sqrt (real (h * w) / real max_px) / real factor\<rfloor> * factor)
      else if hb * wb < min_px then
        Ok (nat \<lceil>real h * sqrt (real min_px / real (h * w)) / real factor\<rceil> * factor,
            nat \<lceil>real w * sqrt (real min_px / real (h * w)) / real factor\<rceil> * factor)
      else Ok (hb, wb))"
    using ops aspect assms(3,4) by (simp add: smart_resize_def Let_def hb_def wb_def)
  show ?thesis
  proof (cases "max_px < hb * wb")
    case True
    let ?b = "sqrt (real h * real w / real max_px)"
    let ?h = "nat \<lfloor>real h / ?b / real factor\<rfloor> * factor" and ?w = "nat \<lfloor>real w / ?b / real factor\<rfloor> * factor"
    have f: "200 * (real factor * real factor) \<le> real max_px"
      using assms(7) by (metis of_nat_le_iff of_nat_mult of_nat_numeral)
    have sides: "real factor \<le> real h / ?b" "real factor \<le> real w / ?b"
      using shrunk_side [of "real h" "real w" "real factor" "real max_px"]
        shrunk_side [of "real w" "real h" "real factor" "real max_px"] f hw assms(5,6)
      by (simp_all add: mult.commute)
    have "real ?h \<le> real h / ?b" "real ?w \<le> real w / ?b" using assms(2) by (intro floor_multiple; simp)+
    then have "real ?h * real ?w \<le> (real h / ?b) * (real w / ?b)" by (intro mult_mono) simp_all
    also have "\<dots> = real max_px" by (rule shrunk_area) (use hw in simp_all)
    finally have "?h * ?w \<le> max_px" by (metis of_nat_le_iff of_nat_mult)
    moreover have "0 < ?h" "0 < ?w" using floor_multiple_pos [OF assms(2)] sides by blast+
    ultimately show ?thesis unfolding run using True by simp
  next
    case le: False
    show ?thesis
    proof (cases "hb * wb < min_px")
      case True
      let ?b = "sqrt (real min_px / (real h * real w))"
      let ?h = "nat \<lceil>real h * ?b / real factor\<rceil> * factor" and ?w = "nat \<lceil>real w * ?b / real factor\<rceil> * factor"
      have sides: "real h * ?b \<le> real ?h" "real w * ?b \<le> real ?w" using ceiling_multiple [OF assms(2)] by blast+
      have "(real h * ?b) * (real w * ?b) \<le> real ?h * real ?w"
        by (rule mult_mono [OF sides of_nat_0_le_iff]) simp
      moreover have "(real h * ?b) * (real w * ?b) = real min_px" by (rule grown_area) (use hw in simp_all)
      ultimately have m: "min_px \<le> ?h * ?w" by (metis of_nat_le_iff of_nat_mult)
      have "0 < min_px" using True by simp
      then have "0 < ?h * ?w" using m by linarith
      then have "0 < ?h" "0 < ?w" by simp_all
      then show ?thesis unfolding run using True le m by simp
    next
      case False
      then show ?thesis unfolding run using le round_multiple(1) [OF assms(2,3)] round_multiple(1) [OF assms(2,4)]
        by (simp add: hb_def wb_def)
    qed
  qed
qed

section \<open>The patches of an image\<close>

text \<open>The number of a patch, and of an element in its row.\<close>

definition patch_number :: "nat \<Rightarrow> nat \<Rightarrow> nat \<Rightarrow> nat \<Rightarrow> nat \<Rightarrow> nat \<Rightarrow> nat \<Rightarrow> nat \<Rightarrow> nat" where
  "patch_number mh mw m t a b i j = (((t * mh + a) * mw + b) * m + i) * m + j"

definition element_number :: "nat \<Rightarrow> nat \<Rightarrow> nat \<Rightarrow> nat \<Rightarrow> nat \<Rightarrow> nat \<Rightarrow> nat" where
  "element_number temporal p c f y x = ((c * temporal + f) * p + y) * p + x"

lemma reshape_ok: "prod_list sh = prod_list (nd_shape t) \<Longrightarrow>
    reshape sh t = Ok \<lparr>nd_shape = sh, nd_at = (\<lambda>ix. nd_at t (unravel (nd_shape t) (ravel sh ix)))\<rparr>"
  by (simp add: reshape_def)

lemma cut_frames:
  assumes "nd_shape frames = [gt * temporal, ch, mh * m * p, mw * m * p]"
    and "0 < temporal" and "0 < m" and "0 < p"
  shows "\<exists>rows. cut_grid temporal p m (mh * m * p) (mw * m * p) frames = Ok (rows, (gt, mh * m, mw * m))
    \<and> nd_shape rows = [gt * (mh * m) * (mw * m), ch * temporal * p * p]
    \<and> (\<forall>t < gt. \<forall>a < mh. \<forall>b < mw. \<forall>i < m. \<forall>j < m. \<forall>c < ch. \<forall>f < temporal. \<forall>y < p. \<forall>x < p.
        nd_at rows [patch_number mh mw m t a b i j, element_number temporal p c f y x]
          = nd_at frames [t * temporal + f, c, (a * m + i) * p + y, (b * m + j) * p + x])"
proof -
  let ?sh = "[gt, temporal, ch, mh, m, p, mw, m, p]"
  let ?g = "\<lparr>nd_shape = ?sh, nd_at = (\<lambda>ix. nd_at frames (unravel (nd_shape frames) (ravel ?sh ix)))\<rparr>"
  have 1: "reshape ?sh frames = Ok ?g" by (rule reshape_ok) (simp add: assms(1))
  let ?p = "permute [0, 3, 6, 4, 7, 2, 1, 5, 8] ?g"
  have psh: "nd_shape ?p = [gt, mh, mw, m, m, ch, temporal, p, p]" by (simp add: permute_def)
  let ?sh2 = "[gt * (mh * m) * (mw * m), ch * temporal * p * p]"
  let ?rows = "\<lparr>nd_shape = ?sh2, nd_at = (\<lambda>ix. nd_at ?p (unravel (nd_shape ?p) (ravel ?sh2 ix)))\<rparr>"
  have 2: "reshape ?sh2 ?p = Ok ?rows" by (rule reshape_ok) (unfold psh, simp)
  have "nd_at ?rows [patch_number mh mw m t a b i j, element_number temporal p c f y x]
      = nd_at frames [t * temporal + f, c, (a * m + i) * p + y, (b * m + j) * p + x]"
    if ix: "t < gt" "a < mh" "b < mw" "i < m" "j < m" "c < ch" "f < temporal" "y < p" "x < p" for t a b i j c f y x
  proof -
    have "ravel ?sh2 [patch_number mh mw m t a b i j, element_number temporal p c f y x]
        = ravel (nd_shape ?p) [t, a, b, i, j, c, f, y, x]"
      unfolding psh by (simp add: patch_number_def element_number_def algebra_simps)
    moreover have "inside [t, a, b, i, j, c, f, y, x] (nd_shape ?p)" unfolding psh using ix by simp
    ultimately have "nd_at ?rows [patch_number mh mw m t a b i j, element_number temporal p c f y x]
        = nd_at ?p [t, a, b, i, j, c, f, y, x]" by (simp only: unravel_ravel nd.simps)
    also have "\<dots> = nd_at ?g [t, f, c, a, i, y, b, j, x]" by (simp add: permute_def upt_rec numeral_eq_Suc)
    also have "\<dots> = nd_at frames [t * temporal + f, c, (a * m + i) * p + y, (b * m + j) * p + x]"
    proof -
      have "ravel ?sh [t, f, c, a, i, y, b, j, x]
          = ravel (nd_shape frames) [t * temporal + f, c, (a * m + i) * p + y, (b * m + j) * p + x]"
        unfolding assms(1) by (simp add: algebra_simps)
      moreover have "inside [t * temporal + f, c, (a * m + i) * p + y, (b * m + j) * p + x] (nd_shape frames)"
        unfolding assms(1) using ix by (simp add: join_index)
      ultimately show ?thesis by (simp only: unravel_ravel nd.simps)
    qed
    finally show ?thesis .
  qed
  moreover have "cut_grid temporal p m (mh * m * p) (mw * m * p) frames = Ok (?rows, (gt, mh * m, mw * m))"
    using assms 1 2 by (simp add: cut_grid_def udiv_def)
  ultimately show ?thesis by (intro exI [of _ ?rows]) simp
qed


lemma cut_image:
  assumes "nd_shape img = [1, ch, mh * m * p, mw * m * p]" and "0 < temporal" and "0 < m" and "0 < p"
  shows "\<exists>rows. cut_patches temporal p m (mh * m * p) (mw * m * p) img = Ok (rows, (1, mh * m, mw * m))
    \<and> nd_shape rows = [mh * m * (mw * m), ch * temporal * p * p]
    \<and> (\<forall>a < mh. \<forall>b < mw. \<forall>i < m. \<forall>j < m. \<forall>c < ch. \<forall>f < temporal. \<forall>y < p. \<forall>x < p.
        nd_at rows [patch_number mh mw m 0 a b i j, element_number temporal p c f y x]
          = nd_at img [0, c, (a * m + i) * p + y, (b * m + j) * p + x])"
proof -
  have "nd_shape (repeat_first temporal img) = [1 * temporal, ch, mh * m * p, mw * m * p]"
    by (simp add: repeat_first_def assms(1))
  from cut_frames [OF this assms(2-4)] show ?thesis
    using assms(1) by (simp add: cut_patches_def repeat_first_def)
qed

section \<open>Steps of a sequence with images\<close>

lemma in_rmap: "rmap f xs = Ok ys \<Longrightarrow> y \<in> set ys \<Longrightarrow> \<exists>x \<in> set xs. f x = Ok y"
  by (induction xs arbitrary: ys) (auto simp: res_simps)

lemma rmap_panics:
  assumes "x \<in> set xs" and "panics (f x)" and "\<And>y. is_ok (f y) \<or> panics (f y)"
  shows "panics (rmap f xs)"
  using assms(1,2)
proof (induction xs)
  case (Cons z zs)
  show ?case
  proof (cases "panics (f z)")
    case True
    then show ?thesis by (simp add: panics_rbind)
  next
    case False
    then obtain v where "f z = Ok v" using assms(3) [of z] by (auto simp: is_ok_iff)
    moreover have "x \<in> set zs" using Cons.prems False by auto
    ultimately show ?thesis using Cons by (simp add: panics_rbind)
  qed
qed simp

lemma retokenize_prompt_len:
  assumes "retokenize tk s vs = Ok (vs', r)"
  shows "prompt_len (vs_seq vs') = length (tokens (vs_seq vs'))" "max_len (vs_seq vs') = max_len (vs_seq vs)"
    "vs_cached vs' = vs_cached vs" "vs_images vs' = vs_images vs"
  using assms by (auto simp: retokenize_def set_toks_def res_simps)

lemma preprocess_grids: "preprocess fo ops config max_edge imgs [] = Ok (pre, m) \<Longrightarrow> image_grid_thw pre \<noteq> None"
  by (auto simp: preprocess_def res_simps split: if_splits)

text \<open>The loop over the sequences keeps all but the caches, which it fills.\<close>

lemma preprocess_seq_cases:
  assumes "preprocess_seq fo ops config max_edge s (m, ss, ps) = Ok (m', ss', ps')"
  obtains pre where "ss' = ss @ [s\<lparr>vs_cached := Some pre\<rparr>]" and "ps' = ps @ [pre]"
    and "vs_cached s = None \<longrightarrow> image_grid_thw pre \<noteq> None"
    and "vs_cached s \<noteq> None \<longrightarrow> vs_cached s = Some pre \<and> m' = m"
proof (cases "vs_cached s")
  case None
  then obtain imgs where imgs: "vs_images s = Some imgs"
    using assms by (cases "vs_images s") (auto simp: preprocess_seq_def)
  show ?thesis
  proof (cases "preprocess fo ops config max_edge imgs []")
    case (Inr r)
    obtain pre k where "r = (pre, k)" by (cases r)
    with Inr have run: "preprocess fo ops config max_edge imgs [] = Ok (pre, k)" by simp
    have "ss' = ss @ [s\<lparr>vs_cached := Some pre\<rparr>]" "ps' = ps @ [pre]"
      using assms by (simp_all add: preprocess_seq_def None imgs run)
    then show ?thesis by (rule that) (use preprocess_grids [OF run] None in simp_all)
  qed (use assms None imgs in \<open>simp add: preprocess_seq_def\<close>)
next
  case (Some pre)
  have "s\<lparr>vs_cached := Some pre\<rparr> = s" using Some by (cases s) simp
  moreover have "ss' = ss @ [s]" "ps' = ps @ [pre]" "m' = m" using assms by (simp_all add: preprocess_seq_def Some)
  ultimately show ?thesis by (intro that [of pre]) (use Some in simp_all)
qed

lemma preprocess_one:
  assumes "rfold (preprocess_seq fo ops config max_edge) [s] (None, [], []) = Ok (m, ss, ps)"
  obtains pre where "ss = [s\<lparr>vs_cached := Some pre\<rparr>]" and "ps = [pre]"
    and "vs_cached s = None \<longrightarrow> image_grid_thw pre \<noteq> None"
    and "vs_cached s \<noteq> None \<longrightarrow> vs_cached s = Some pre \<and> m = None"
proof -
  have "preprocess_seq fo ops config max_edge s (None, [], []) = Ok (m, ss, ps)"
    using assms by (cases "preprocess_seq fo ops config max_edge s (None, [], [])") simp_all
  then show thesis by (rule preprocess_seq_cases) (rule that, simp, simp, assumption+)
qed

lemma expand_one_length:
  "expand_one m pad gs bt (i, texts) = Ok (i', texts') \<Longrightarrow> length texts' = Suc (length texts)"
  by (cases bt) (auto simp: expand_one_def res_simps)

lemma expand_fold_length:
  "rfold (expand_one m pad gs) bts (i, texts) = Ok (i', texts') \<Longrightarrow> length texts' = length texts + length bts"
proof (induction bts arbitrary: i texts)
  case (Cons bt bts)
  then obtain j us where "expand_one m pad gs bt (i, texts) = Ok (j, us)" "rfold (expand_one m pad gs) bts (j, us) = Ok (i', texts')"
    by (auto simp: res_simps)
  then show ?case using Cons.IH [of j us] expand_one_length [of m pad gs bt i texts j us] by simp
qed simp

lemma expand_kind_length: "expand_kind m pad gs texts = Ok texts' \<Longrightarrow> length texts' = length texts"
  by (auto simp: expand_kind_def expand_batch_def res_simps dest!: expand_fold_length split: option.splits)

lemma expand_texts_length: "expand_texts m pres texts = Ok texts' \<Longrightarrow> length texts' = length texts"
  by (auto simp: expand_texts_def res_simps dest!: expand_kind_length)

text \<open>A successful step of one sequence with images.\<close>

lemma process_one:
  assumes "process_inputs fo ops tk config max_edge False False prompting [s] = Ok (ss, args)" and "has_images [s]"
  obtains s' pre where "ss = [s']" and "prompt_len (vs_seq s') = length (tokens (vs_seq s'))"
    and "max_len (vs_seq s') = max_len (vs_seq s)" and "vs_images s' = vs_images s" and "vs_cached s' = Some pre"
    and "vs_cached s = None \<longrightarrow> image_grid_thw pre \<noteq> None"
proof -
  obtain tk' where "tk = Some tk'" using assms(1) by (cases tk) (auto simp: process_inputs_def context_of_def)
  with assms have run: "process_vision fo ops tk' config max_edge prompting [s] = Ok (ss, args)"
    by (simp add: process_inputs_def context_of_def)
  then obtain texts where texts: "rmap (\<lambda>s. unwrap (tk_decode tk' (get_toks (vs_seq s)))) [s] = Ok texts"
    and run: "rbind (rfold (preprocess_seq fo ops config max_edge) [s] (None, [], [])) (\<lambda>(merge, seqs, pres).
        rbind (if prompting then expand_texts merge pres texts else Ok texts) (\<lambda>texts.
        rbind (vision_results tk' texts seqs pres) (\<lambda>(seqs, args). Ok (seqs, Some args)))) = Ok (ss, args)"
    unfolding process_vision_def using assms(2) by (simp only: not_True_eq_False if_False) (erule rbindE)
  from run obtain m seqs pres where pre: "rfold (preprocess_seq fo ops config max_edge) [s] (None, [], []) = Ok (m, seqs, pres)"
    and run: "rbind (if prompting then expand_texts m pres texts else Ok texts) (\<lambda>texts.
        rbind (vision_results tk' texts seqs pres) (\<lambda>(seqs, args). Ok (seqs, Some args))) = Ok (ss, args)"
    by (rule rbindE) (simp only: split_paired_all prod.case)
  obtain pre where p: "seqs = [s\<lparr>vs_cached := Some pre\<rparr>]" "vs_cached s = None \<longrightarrow> image_grid_thw pre \<noteq> None"
    "vs_cached s \<noteq> None \<longrightarrow> vs_cached s = Some pre \<and> m = None"
    by (rule preprocess_one [OF pre])
  have "length texts = 1" using length_rmap [OF texts] by simp
  moreover obtain texts' where e: "(if prompting then expand_texts m pres texts else Ok texts) = Ok texts'"
    and run: "rbind (vision_results tk' texts' seqs pres) (\<lambda>(seqs, args). Ok (seqs, Some args)) = Ok (ss, args)"
    using run by (rule rbindE)
  ultimately have texts': "length texts' = 1" using expand_texts_length [of m pres texts texts'] by (simp split: if_splits)
  from run obtain rs where rs: "rmap (\<lambda>(t, vs). retokenize tk' t vs) (zip texts' seqs) = Ok rs" and ss: "ss = map fst rs"
    by (auto simp: vision_results_def res_simps)
  obtain t where t: "texts' = [t]" using texts' by (cases texts') auto
  then obtain s' r where s': "retokenize tk' t (s\<lparr>vs_cached := Some pre\<rparr>) = Ok (s', r)" "ss = [s']"
    using rs ss p(1) by (auto simp: res_simps)
  note r = retokenize_prompt_len [OF s'(1)]
  show thesis by (rule that [of s' pre]) (use s'(2) r p(2,3) in simp_all)
qed


text \<open>Preprocessed images are kept, and a prompt with kept images asks for the merge size of a new processor.\<close>

lemma expand_without_merge:
  assumes "None \<notin> set (map image_grid_thw pres)"
  shows "panics (expand_texts None pres texts)"
proof -
  obtain gs where "all_grids (map image_grid_thw pres) = Some gs" using assms by (simp add: all_grids_def)
  then show ?thesis by (simp add: expand_texts_def expand_kind_def)
qed

lemma cached_prompt_panics:
  assumes "has_images [s]" and "vs_cached s = Some pre" and "image_grid_thw pre \<noteq> None"
  shows "panics (process_inputs fo ops (Some tk) config max_edge False False True [s])"
proof -
  have pre: "rfold (preprocess_seq fo ops config max_edge) [s] (None, [], []) = Ok (None, [s], [pre])"
    by (simp add: preprocess_seq_def assms(2))
  have "panics (process_vision fo ops tk config max_edge True [s])"
  proof (cases "tk_decode tk (get_toks (vs_seq s))")
    case None
    then show ?thesis using assms(1) by (simp add: process_vision_def)
  next
    case (Some t)
    have "panics (expand_texts None [pre] [t])" by (rule expand_without_merge) (use assms(3) in auto)
    then show ?thesis using assms(1) pre Some by (simp add: process_vision_def panics_rbind)
  qed
  then show ?thesis by (simp add: process_inputs_def context_of_def)
qed

text \<open>A text that ends with the start of an image.\<close>

lemma find_str_prefix: "find_str n x = Some p \<Longrightarrow> find_str n (x @ y) = Some p"
proof (induction x arbitrary: p)
  case Nil
  then show ?case by (cases y) (auto split: if_splits)
next
  case (Cons c x)
  show ?case
  proof (cases "take (length n) (c # x) = n")
    case True
    then have "length n \<le> length (c # x)" by (metis length_take min.cobounded1)
    then have "take (length n) ((c # x) @ y) = n" using True by (simp only: take_append) simp
    then show ?thesis using Cons.prems True by simp
  next
    case False
    then obtain q where q: "find_str n x = Some q" "p = Suc q" using Cons.prems by auto
    have "take (length n) ((c # x) @ y) \<noteq> n"
    proof (cases "length n \<le> length (c # x)")
      case True
      then have "take (length n) ((c # x) @ y) = take (length n) (c # x)" by (simp only: take_append) simp
      then show ?thesis using False by metis
    next
      case False
      then have "length x < q + length n" by simp
      then show ?thesis using find_str_bound [OF q(1)] by simp
    qed
    then show ?thesis using Cons.IH [OF q(1)] q(2) by simp
  qed
qed

lemma last_end:
  assumes "special n"
  shows "start + length x + length n \<in> set (ends_loop n start (x @ n))"
proof (induction "length x" arbitrary: x start rule: less_induct)
  case less
  have n: "n \<noteq> []" using assms by auto
  show ?case
  proof (cases "find_str n x")
    case None
    then have "find_str n (x @ n) = Some (length x)"
      using find_str_special [OF assms, of x "[]"] by (simp add: occurs_def)
    then show ?thesis using n by (subst ends_loop.simps) simp
  next
    case (Some p)
    have b: "p + length n \<le> length x" by (rule find_str_bound [OF Some])
    let ?x = "drop (p + length n) x"
    have "length ?x < length x" using find_str_shrinks [OF Some n] by simp
    then have "start + p + length n + length ?x + length n \<in> set (ends_loop n (start + p + length n) (?x @ n))"
      by (rule less.hyps)
    moreover have "ends_loop n start (x @ n) = (start + p + length n) # ends_loop n (start + p + length n) (?x @ n)"
      using n b find_str_prefix [OF Some, of n] by (subst ends_loop.simps) simp
    ultimately show ?thesis using b by simp
  qed
qed

lemma search_panics:
  assumes "vs_initial_prompt vs = x @ vision_start"
  shows "panics (search_ids tk vs)"
proof -
  let ?s = "x @ vision_start"
  have "length ?s \<in> set (find_substring_indices ?s vision_start)"
    using last_end [OF special_tokens(4), of 0 x] by (simp add: find_substring_indices_def)
  moreover have "panics (str_slice ?s (length ?s) (length ?s + length image_pad))"
    by (simp add: str_slice_def is_char_boundary_def image_pad_def bytes_of_def)
  moreover have "is_ok (str_slice ?s i j) \<or> panics (str_slice ?s i j)" for i j by (simp add: str_slice_def)
  ultimately have "panics (rmap (\<lambda>i. str_slice ?s i (i + length image_pad)) (find_substring_indices ?s vision_start))"
    by (intro rmap_panics) auto
  then show ?thesis by (simp add: search_ids_def count_followed_def assms Let_def panics_rbind)
qed

text \<open>What the two properties of a step below come from.\<close>

lemma length_stops_are_lost:
  assumes "process_inputs fo ops tk config max_edge False False prompting [s] = Ok ([s'], args)" and "has_images [s]"
    and "max_len (vs_seq s) = Some n" and "0 < n" and "0 < max_model_len"
  shows "is_done gs_find tok eos max_model_len (vs_seq s') \<noteq> Some (StopLength k)
    \<and> is_done gs_find tok eos max_model_len (vs_seq s') \<noteq> Some (ModelLength k)"
proof -
  have "find_stop_string gs_find b i ss \<noteq> Some (StopLength k) \<and> find_stop_string gs_find b i ss \<noteq> Some (ModelLength k)" for b i ss
    by (induction gs_find b i ss rule: find_stop_string.induct) (simp_all split: option.splits)
  moreover obtain s1 where "[s'] = [s1]" "prompt_len (vs_seq s1) = length (tokens (vs_seq s1))" "max_len (vs_seq s1) = max_len (vs_seq s)"
    by (rule process_one [OF assms(1,2)])
  ultimately show ?thesis using assms(3-5) by (auto simp: is_done_def split: if_splits)
qed

lemma second_prompt_panics:
  assumes "process_inputs fo ops (Some tk) config max_edge False False prompting [s] = Ok ([s'], args)" and "has_images [s]"
    and "vs_cached s = None" and "vs_images s2 = vs_images s'" and "vs_cached s2 = vs_cached s'"
  shows "panics (process_inputs fo ops (Some tk) config max_edge False False True [s2])"
proof -
  obtain s1 pre where s1: "[s'] = [s1]" "vs_images s1 = vs_images s" "vs_cached s1 = Some pre"
    "vs_cached s = None \<longrightarrow> image_grid_thw pre \<noteq> None"
    by (rule process_one [OF assms(1,2)])
  have "has_images [s2]" using assms(2,4) s1(1,2) by (simp add: has_images_def)
  moreover have "vs_cached s2 = Some pre" using assms(5) s1(1,3) by simp
  ultimately show ?thesis by (rule cached_prompt_panics) (use s1(4) assms(3) in simp)
qed

section \<open>Properties\<close>

text \<open>
  C26. The expansion of a prompt. A text in which the image token stands between texts without it (and without
  the placeholder) becomes the same texts with as many image tokens in a row as the grid of each
  image has patches, divided by the square of the merge size; the same for videos.
\<close>

theorem every_image_gets_its_tokens:
  assumes "pad = image_pad \<or> pad = video_pad" and "\<not> occurs pad p" and "\<not> occurs placeholder p"
    and "\<forall>(g, q) \<in> set gps. good_grid m g \<and> \<not> occurs pad q \<and> \<not> occurs placeholder q"
  shows "expand_batch m pad [map fst gps] [around (\<lambda>_. pad) p gps]
    = Ok [around (\<lambda>g. str_repeat (tokens_of m g) pad) p gps]"
  by (rule expansion) (use assms in \<open>simp_all add: expandable_def\<close>)


text \<open>
  C20. The limit on the tokens of an answer is lost. After the inputs of any step of a sequence with images were made,
  the tokens of the sequence, the generated ones among them, count as its prompt: whatever token is sampled
  in this step, the sequence is neither stopped by its maximal number of tokens nor by that of the model.
\<close>

theorem max_tokens_is_never_reached:
  assumes "process_inputs fo ops tk config max_edge False False prompting [s] = Ok ([s'], args)" and "has_images [s]"
    and "max_len (vs_seq s) = Some n" and "0 < n" and "0 < max_model_len"
  shows "is_done gs_find tok eos max_model_len (vs_seq s') \<noteq> Some (StopLength k)
    \<and> is_done gs_find tok eos max_model_len (vs_seq s') \<noteq> Some (ModelLength k)"
  by (rule length_stops_are_lost [OF assms])

text \<open>
  C27. A second prompt step panics. After a step that preprocessed its images, the images and the results are kept; when
  the sequence is run as a prompt again, whatever became of its tokens, as a sequence is that the default scheduler put
  back on its waiting list, the processor, made anew, has no merge size and making the inputs panics.
\<close>

theorem a_second_prompt_step_panics:
  assumes "process_inputs fo ops (Some tk) config max_edge False False prompting [s] = Ok ([s'], args)" and "has_images [s]"
    and "vs_cached s = None" and "vs_images s2 = vs_images s'" and "vs_cached s2 = vs_cached s'"
  shows "panics (process_inputs fo ops (Some tk) config max_edge False False True [s2])"
  by (rule second_prompt_panics [OF assms])

section \<open>Witnesses\<close>

definition exact_floats :: "(real, real) float_ops" where
  "exact_floats = \<lparr>f_of = real, f_div = (/), f_mul = (*), f_sqrt = sqrt, f_round = (\<lambda>x. nat \<lfloor>x + 1 / 2\<rfloor>),
     f_floor = (\<lambda>x. nat \<lfloor>x\<rfloor>), f_ceil = (\<lambda>x. nat \<lceil>x\<rceil>), f32_quotient = (\<lambda>a b. real a / real b),
     f32_scaled = (\<lambda>n s. nat \<lfloor>real n * s\<rfloor>)\<rparr>"

text \<open>Black images, which are their width and height, and a tokenizer with the bytes as tokens.\<close>

definition black_images :: "(nat \<times> nat, nat) image_ops" where
  "black_images = \<lparr>im_dims = (\<lambda>i. i), im_resize_exact = (\<lambda>w h f i. (w, h)), im_to_rgb8 = (\<lambda>i. i), im_color = (\<lambda>i. Rgb8),
     im_black = (\<lambda>c w h. (w, h)), im_copy_from = (\<lambda>a b. Some a),
     im_tensor = (\<lambda>(w, h). Ok \<lparr>nd_shape = [3, h, w], nd_at = (\<lambda>_. 0)\<rparr>)\<rparr>"

definition byte_tokens :: tokenizer where
  "byte_tokens = \<lparr>tk_decode = Some, tk_encode = (\<lambda>s _. Some s)\<rparr>"

definition small_patches :: preprocessor_config where
  "small_patches = \<lparr>resampling = None, do_resize = Some True, patch_size = Some 2, merge_size = Some 2,
     temporal_patch_size = Some 2, min_pixels = Some 4, max_pixels = Some 3200\<rparr>"

definition a_vision_sequence :: "(nat, nat \<times> nat, nat) vision_sequence" where
  "a_vision_sequence = \<lparr>vs_seq = plain_sequence\<lparr>max_len := Some 2\<rparr>, vs_images = Some [(8, 4)], vs_cached = None, vs_initial_prompt = []\<rparr>"

text \<open>A step: the image is 8 by 4, so that it has two windows of four patches.\<close>

lemma a_resized_image: "smart_resize exact_floats 4 8 4 4 3200 = Ok (4, 8)"
  by (simp add: smart_resize_def exact_floats_def Let_def)

lemma exact_floats_exact [simp]: "exact_ops exact_floats"
  by (simp add: exact_ops_def exact_floats_def)

lemma a_preprocessed_image:
  "\<exists>pre. preprocess exact_floats black_images small_patches None [(8, 4)] [] = Ok (pre, 2) \<and> image_grid_thw pre = Some [(1, 2, 4)]
     \<and> video_grid_thw pre = None"
proof -
  let ?img = "\<lparr>nd_shape = [3, 4, 8], nd_at = \<lambda>_. 0 :: nat\<rparr>"
  let ?x = "\<lparr>nd_shape = [1, 3, 4, 8], nd_at = \<lambda>ix. nd_at ([?img] ! hd ix) (tl ix)\<rparr>"
  have img: "process_image exact_floats black_images small_patches (8, 4) (4, 8, []) = Ok (4, 8, [?img])"
    using a_resized_image by (simp add: process_image_def small_patches_def black_images_def filter_of_def context_of_def)
  have st: "stack [?img] = Ok ?x" by (simp add: stack_def)
  obtain rows where "cut_patches 2 2 2 (1 * 2 * 2) (2 * 2 * 2) ?x = Ok (rows, (1, 1 * 2, 2 * 2))"
    using cut_image [of ?x 3 1 2 2 2 2] by auto
  then have cut: "cut_patches 2 2 2 4 8 ?x = Ok (rows, (1, 2, 4))" by simp
  have inner: "preprocess_inner exact_floats black_images small_patches (4, 8) [(8, 4)] = Ok (rows, (1, 2, 4), 2)"
    using img cut by (simp add: preprocess_inner_def st [simplified] small_patches_def context_of_def)
  have "largest_dims black_images [(8, 4)] = (4, 8)" by (simp add: largest_dims_def black_images_def)
  then show ?thesis using inner by (simp add: preprocess_def stack_def)
qed

lemma a_vision_step:
  "\<exists>s' args. process_inputs exact_floats black_images (Some byte_tokens) small_patches None False False True [a_vision_sequence]
     = Ok ([s'], Some args) \<and> va_image_grid args = Some [[(1, 2, 4)]]"
proof -
  obtain pre where pre: "preprocess exact_floats black_images small_patches None [(8, 4)] [] = Ok (pre, 2)"
    "image_grid_thw pre = Some [(1, 2, 4)]" "video_grid_thw pre = None"
    using a_preprocessed_image by blast
  have run: "rfold (preprocess_seq exact_floats black_images small_patches None) [a_vision_sequence] (None, [], [])
      = Ok (Some 2, [a_vision_sequence\<lparr>vs_cached := Some pre\<rparr>], [pre])"
    using pre(1) by (simp add: preprocess_seq_def a_vision_sequence_def)
  have none: "find_str image_pad [5, 6, 7] = None" "find_str vision_start [5, 6, 7] = None" "find_str placeholder [5, 6, 7] = None"
    by (simp_all add: image_pad_def vision_start_def placeholder_def bytes_of_def of_char_def)
  have toks: "get_toks (vs_seq a_vision_sequence) = [5, 6, 7]"
    by (simp add: get_toks_def a_vision_sequence_def plain_sequence_def new_waiting_def a_request_def)
  have expand: "expand_texts (Some 2) [pre] [[5, 6, 7]] = Ok [[5, 6, 7]]"
    using pre(2,3) none by (simp add: expand_texts_def expand_kind_def all_grids_def expand_batch_def expand_one_def
      expand_pads.simps replace_all_none occurs_def)
  have results: "\<exists>s' args. vision_results byte_tokens [[5, 6, 7]] [a_vision_sequence\<lparr>vs_cached := Some pre\<rparr>] [pre] = Ok ([s'], args)
      \<and> va_image_grid args = Some [[(1, 2, 4)]]"
    using pre(2) none
    by (simp add: vision_results_def retokenize_def byte_tokens_def image_pad_def video_pad_def bytes_of_def set_toks_def
      a_vision_sequence_def clear_blocks_def append_tokens_NoMetadata search_ids_def Let_def find_substring_indices_def
      ends_loop.simps count_followed_def pad_ids_def all_grids_def)
  have "has_images [a_vision_sequence]" by (simp add: has_images_def a_vision_sequence_def)
  moreover have "rmap (\<lambda>s. unwrap (tk_decode byte_tokens (get_toks (vs_seq s)))) [a_vision_sequence] = Ok [[5, 6, 7]]"
    using toks by (simp add: byte_tokens_def)
  ultimately show ?thesis using run expand results
    by (auto simp: process_inputs_def process_vision_def context_of_def simp del: rfold.simps rmap.simps)
qed

theorem every_image_gets_its_tokens_witness:
  "expand_batch 4 image_pad [[(1, 4, 4), (1, 2, 4)]] [around (\<lambda>_. image_pad) [10] [((1, 4, 4), [33]), ((1, 2, 4), [])]]
     = Ok [around (\<lambda>g. str_repeat (tokens_of 4 g) image_pad) [10] [((1, 4, 4), [33]), ((1, 2, 4), [])]]"
  using every_image_gets_its_tokens [of image_pad "[10]" "[((1, 4, 4), [33]), ((1, 2, 4), [])]" 4]
  by (simp add: occurs_def image_pad_def placeholder_def bytes_of_def of_char_def good_grid_def)


theorem max_tokens_is_never_reached_witness:
  "\<exists>s' args. process_inputs exact_floats black_images (Some byte_tokens) small_patches None False False True [a_vision_sequence]
       = Ok ([s'], args)
     \<and> is_done (\<lambda>_ _. None) 9 None 100 (vs_seq s') \<noteq> Some (StopLength 2)
     \<and> is_done (\<lambda>_ _. None) 9 None 100 (vs_seq s') \<noteq> Some (ModelLength 100)"
proof -
  obtain s' args where run: "process_inputs exact_floats black_images (Some byte_tokens) small_patches None False False True [a_vision_sequence]
     = Ok ([s'], Some args)" using a_vision_step by blast
  have "has_images [a_vision_sequence]" "max_len (vs_seq a_vision_sequence) = Some 2"
    by (simp_all add: has_images_def a_vision_sequence_def)
  from max_tokens_is_never_reached [OF run this, of 100 "\<lambda>_ _. None" 9 None] run show ?thesis by fastforce
qed

theorem a_second_prompt_step_panics_witness:
  "\<exists>s' args. process_inputs exact_floats black_images (Some byte_tokens) small_patches None False False True [a_vision_sequence]
       = Ok ([s'], args)
     \<and> panics (process_inputs exact_floats black_images (Some byte_tokens) small_patches None False False True [s'])"
proof -
  obtain s' args where run: "process_inputs exact_floats black_images (Some byte_tokens) small_patches None False False True [a_vision_sequence]
     = Ok ([s'], Some args)" using a_vision_step by blast
  have "has_images [a_vision_sequence]" "vs_cached a_vision_sequence = None"
    by (simp_all add: has_images_def a_vision_sequence_def)
  from a_second_prompt_step_panics [OF run this refl refl] run show ?thesis by blast
qed

end
