(* ===== verification/Qwen2vl.thy ===== *)
theory Qwen2vl
  imports Qwen2vl_Inputs
begin

text \<open>
  What the model Qwen2-VL does with the inputs of \<open>Qwen2vl_Inputs\<close> before its layers run
  (\<^verbatim>\<open>mistralrs-core/src/vision_models/qwen2vl/mod.rs\<close> and \<^verbatim>\<open>vision.rs\<close>): the three positions of every token
  (time, height, width), the embeddings of images at the places of the image tokens, and the rotary
  positions and the attention blocks of patches.

  Matrices are lists of rows. Numbers are exact: the conversions of token ids and of sums of ones to 32
  bit floating point and back are left out, the sum of an index and an offset in 32 bits is the parameter
  \<open>f32_sum\<close>. The texts, images and videos of a prompt give the reference for its positions.
\<close>

section \<open>Positions\<close>

type_synonym pos = "int \<times> int \<times> int"

record model =
  spatial_merge_size :: nat
  image_token_id :: nat
  video_token_id :: nat

text \<open>\<^verbatim>\<open>v[st..].iter().position(|&t| t == tok).unwrap() + st\<close>.\<close>

definition position_from :: "nat list \<Rightarrow> nat \<Rightarrow> nat \<Rightarrow> nat res" where
  "position_from toks st tok =
     rbind (slice_from toks st) (\<lambda>s.
     if tok \<in> set s then Ok (length (takeWhile (\<lambda>t. t \<noteq> tok) s) + st)
     else Err (Panic ''unwrap on None''))"

record rope_state =
  rs_image_index :: nat
  rs_video_index :: nat
  rs_remain_images :: nat
  rs_remain_videos :: nat
  rs_st :: nat
  rs_last :: "int option"
  rs_max :: int
  rs_positions :: "pos list"

text \<open>The next grid of the tensor: \<^verbatim>\<open>as_ref().unwrap().i((index, _))?\<close>.\<close>

definition grid_at :: "grid list option \<Rightarrow> nat \<Rightarrow> grid res" where
  "grid_at grids index =
     rbind (unwrap grids) (\<lambda>gs. if index < length gs then Ok (gs ! index) else Err (Bail ''index out of range''))"

definition text_positions :: "int \<Rightarrow> nat \<Rightarrow> pos list" where
  "text_positions st_idx text_len = map (\<lambda>k. let p = st_idx + int k in (p, p, p)) [0..<text_len]"

definition grid_positions :: "(nat \<Rightarrow> nat \<Rightarrow> int) \<Rightarrow> nat \<Rightarrow> grid \<Rightarrow> pos list" where
  "grid_positions f32_sum offset = (\<lambda>(t, h, w).
     concat (map (\<lambda>a. concat (map (\<lambda>b. map (\<lambda>c.
       (f32_sum a offset, f32_sum b offset, f32_sum c offset)) [0..<w]) [0..<h])) [0..<t]))"

definition max3 :: "grid \<Rightarrow> nat" where
  "max3 = (\<lambda>(t, h, w). max t (max h w))"

text \<open>One image or video; \<open>n\<close> is the length of the tokens.\<close>

definition rope_media :: "(nat \<Rightarrow> nat \<Rightarrow> int) \<Rightarrow> model \<Rightarrow> grid list option \<Rightarrow> grid list option \<Rightarrow> nat list \<Rightarrow> nat
    \<Rightarrow> rope_state \<Rightarrow> rope_state res" where
  "rope_media f32_sum md image_grid video_grid searching n s =
     rbind (if image_token_id md \<in> set searching \<and> 0 < rs_remain_images s
            then position_from searching (rs_st s) (image_token_id md) else Ok (n + 1)) (\<lambda>ed_image.
     rbind (if video_token_id md \<in> set searching \<and> 0 < rs_remain_videos s
            then position_from searching (rs_st s) (video_token_id md) else Ok (n + 1)) (\<lambda>ed_video.
     rbind (if ed_image < ed_video then
              rbind (grid_at image_grid (rs_image_index s)) (\<lambda>g.
              rbind (usub (rs_remain_images s) 1) (\<lambda>r.
              Ok (ed_image, g, s\<lparr>rs_image_index := rs_image_index s + 1, rs_remain_images := r\<rparr>)))
            else
              rbind (grid_at video_grid (rs_video_index s)) (\<lambda>g.
              rbind (usub (rs_remain_videos s) 1) (\<lambda>r.
              Ok (ed_video, g, s\<lparr>rs_video_index := rs_video_index s + 1, rs_remain_videos := r\<rparr>)))) (\<lambda>(ed, (t, h, w), s).
     rbind (udiv h (spatial_merge_size md)) (\<lambda>h.
     rbind (udiv w (spatial_merge_size md)) (\<lambda>w.
     rbind (usub ed (rs_st s)) (\<lambda>text_len.
     let st_idx = (case rs_last s of Some x \<Rightarrow> x | None \<Rightarrow> 0);
         last = int (max3 (t, h, w)) + (int text_len + st_idx)
     in if 2 ^ 32 \<le> t * h * w then Err (Panic ''attempt to multiply with overflow'')
        else Ok (s\<lparr>rs_st := ed + t * h * w, rs_last := Some last,
               rs_max := max (max (rs_max s) (int text_len + st_idx)) last,
               rs_positions := rs_positions s @ text_positions st_idx text_len
                 @ grid_positions f32_sum (text_len + nat st_idx) (t, h, w)\<rparr>)))))))"

fun rope_loop :: "(rope_state \<Rightarrow> rope_state res) \<Rightarrow> nat \<Rightarrow> rope_state \<Rightarrow> rope_state res" where
  "rope_loop f 0 s = Ok s"
| "rope_loop f (Suc k) s = rbind (f s) (rope_loop f k)"

text \<open>The text after the last image.\<close>

definition rope_tail :: "nat \<Rightarrow> rope_state \<Rightarrow> rope_state" where
  "rope_tail n s =
     (if rs_st s < n then
        let st_idx = (case rs_last s of Some x \<Rightarrow> x | None \<Rightarrow> 0); text_len = n - rs_st s
        in s\<lparr>rs_max := max (rs_max s) (int text_len + st_idx),
             rs_positions := rs_positions s @ text_positions st_idx text_len\<rparr>
      else s)"

text \<open>
  The length of \<^verbatim>\<open>input_ids\<close> after the selection of the tokens that are not padding: the tensor of row \<open>i\<close>
  has one row, which is row 0.
\<close>

definition selected_length :: "nat list list option \<Rightarrow> nat \<Rightarrow> nat list \<Rightarrow> nat res" where
  "selected_length indices i row =
     (case indices of None \<Rightarrow> Ok 1
      | Some idx \<Rightarrow>
          if i \<noteq> 0 then Err (Bail ''index out of range'')
          else (case idx of
                  [sel] \<Rightarrow> if \<forall>k \<in> set sel. k < length row then Ok (length sel) else Err (Bail ''invalid index'')
                | _ \<Rightarrow> Err (Bail ''unexpected rank'')))"

text \<open>One row: \<open>pos\<close> is its part of \<^verbatim>\<open>position_ids\<close>, zeros, and the second part of the result its delta.\<close>

definition rope_row :: "(nat \<Rightarrow> nat \<Rightarrow> int) \<Rightarrow> model \<Rightarrow> grid list option \<Rightarrow> grid list option \<Rightarrow> nat list list option
    \<Rightarrow> nat list list option \<Rightarrow> nat list list \<Rightarrow> nat list \<Rightarrow> nat list \<Rightarrow> nat \<times> nat list
    \<Rightarrow> nat \<times> nat \<times> pos list list \<times> int list \<Rightarrow> (nat \<times> nat \<times> pos list list \<times> int list) res" where
  "rope_row f32_sum md image_grid video_grid attn indices searching image_nums video_nums = (\<lambda>(i, row) (ii, vi, poss, deltas).
     rbind (selected_length indices i row) (\<lambda>n.
     rbind (vget image_nums i) (\<lambda>imgs.
     rbind (vget video_nums i) (\<lambda>vids.
     rbind (if imgs + vids = 0 then Ok [] else vget searching i) (\<lambda>srch.
     rbind (rope_loop (rope_media f32_sum md image_grid video_grid srch n) (imgs + vids)
              \<lparr>rs_image_index = ii, rs_video_index = vi, rs_remain_images = imgs, rs_remain_videos = vids,
               rs_st = 0, rs_last = None, rs_max = 0, rs_positions = []\<rparr>) (\<lambda>s.
     let s = rope_tail n s in
     rbind (unwrap attn) (\<lambda>attn.
     rbind (vget attn i) (\<lambda>m.
     if length (rs_positions s) \<noteq> length row \<or> length m \<noteq> length row then Err (Bail ''shape mismatch in where_cond'')
     else Ok (rs_image_index s, rs_video_index s,
              poss @ [map (\<lambda>(k, p). if k = 1 then p else (0, 0, 0)) (zip m (rs_positions s))],
              deltas @ [rs_max s + 1 - int (length row)])))))))))"

text \<open>Without images: the number of ones before a token, and 1 for padding.\<close>

definition mask_positions :: "nat list \<Rightarrow> int list" where
  "mask_positions m = map (\<lambda>k. if m ! k = 0 then 1 else int (sum_list (take (k + 1) m)) - 1) [0..<length m]"

definition get_rope_index :: "(nat \<Rightarrow> nat \<Rightarrow> int) \<Rightarrow> model \<Rightarrow> nat list list \<Rightarrow> grid list option \<Rightarrow> grid list option
    \<Rightarrow> nat list list option \<Rightarrow> nat list list option \<Rightarrow> nat list list \<Rightarrow> nat list \<Rightarrow> nat list
    \<Rightarrow> (pos list list \<times> int list) res" where
  "get_rope_index f32_sum md input_ids image_grid video_grid attn indices searching image_nums video_nums =
     (if image_grid \<noteq> None \<or> video_grid \<noteq> None then
        rbind (rfold (rope_row f32_sum md image_grid video_grid attn indices searching image_nums video_nums)
                 (List.enumerate 0 input_ids) (0, 0, [], [])) (\<lambda>(ii, vi, poss, deltas).
        Ok (poss, deltas))
      else (case attn of
        Some m \<Rightarrow>
          if [] \<in> set m then Err (Bail ''empty tensor for reduce'')
          else Ok (map (\<lambda>r. map (\<lambda>p. (p, p, p)) (mask_positions r)) m,
                   map (\<lambda>r. Max (set (mask_positions r)) + 1 - int (length r)) m)
      | None \<Rightarrow>
          Ok (map (\<lambda>row. text_positions 0 (length row)) input_ids, replicate (length input_ids) 0)))"

text \<open>
  The positions that \<^verbatim>\<open>forward\<close> gives to the layers: all of them for a prompt, where there is an attention mask,
  and one for the token of a completion step.
\<close>

definition forward_positions :: "(nat \<Rightarrow> nat \<Rightarrow> int) \<Rightarrow> model \<Rightarrow> bool \<Rightarrow> nat list list \<Rightarrow> nat list list \<Rightarrow> grid list option
    \<Rightarrow> grid list option \<Rightarrow> nat list \<Rightarrow> nat list list \<Rightarrow> nat list \<Rightarrow> nat list \<Rightarrow> nat list \<Rightarrow> pos list list res" where
  "forward_positions f32_sum md has_mask input_ids input_ids_full image_grid video_grid seqlens searching image_nums video_nums
     seqlen_offsets =
     (if seqlens = [] then Err (Panic ''unwrap on None'')
      else let max_seqlens = Max (set seqlens);
               attn = map (\<lambda>n. replicate n 1 @ replicate (max_seqlens - n) 0) seqlens
      in if \<exists>n \<in> set seqlens. n \<noteq> hd seqlens then Err (Bail ''shape mismatch in cat'')
      else rbind (get_rope_index f32_sum md (if has_mask then input_ids else input_ids_full) image_grid video_grid
                    (Some attn) (Some (map (\<lambda>n. [0..<n]) seqlens)) searching image_nums video_nums) (\<lambda>(poss, deltas).
      if has_mask then Ok poss
      else if length seqlen_offsets \<noteq> length deltas then Err (Bail ''shape mismatch in broadcast_add'')
      else Ok (map (\<lambda>(off, d). let p = int off + d in [(p, p, p)]) (zip seqlen_offsets deltas))))"

section \<open>Embeddings of images\<close>

definition place_run :: "'r list \<Rightarrow> nat \<Rightarrow> nat \<times> nat \<Rightarrow> nat \<times> 'r list list \<Rightarrow> (nat \<times> 'r list list) res" where
  "place_run embeds batch = (\<lambda>(a, b) (last_end, xs).
     rbind (usub b a) (\<lambda>n.
     if length embeds < last_end + n \<or> length xs \<le> batch \<or> length (xs ! batch) < b then Err (Bail ''out of range'')
     else Ok (n, xs[batch := take a (xs ! batch) @ take n (drop last_end embeds) @ drop b (xs ! batch)])))"

definition place_embeds :: "'r list \<Rightarrow> (nat \<times> nat) list list \<Rightarrow> 'r list list \<Rightarrow> 'r list list res" where
  "place_embeds embeds pads xs =
     rfold (\<lambda>(batch, runs) xs. rbind (rfold (place_run embeds batch) runs (0, xs)) (\<lambda>(last_end, xs). Ok xs))
       (List.enumerate 0 pads) xs"

text \<open>\<^verbatim>\<open>VisionModel::forward\<close>: which of the two the pixel values are.\<close>

definition split_pixels :: "grid list option \<Rightarrow> grid list option \<Rightarrow> 'p option \<Rightarrow> ('p option \<times> 'p option) res" where
  "split_pixels image_grid video_grid pixels =
     (case (image_grid, video_grid) of
        (Some _, None) \<Rightarrow> Ok (pixels, None)
      | (None, Some _) \<Rightarrow> Ok (None, pixels)
      | (None, None) \<Rightarrow> Ok (None, None)
      | (Some _, Some _) \<Rightarrow> Err (Bail ''Images and videos cannot be provided together.''))"

text \<open>The embeddings that go into the layers; \<open>vision\<close> is the vision model.\<close>

definition input_embeds :: "('p \<Rightarrow> grid list \<Rightarrow> 'r list res) \<Rightarrow> 'r list list \<Rightarrow> 'p option \<Rightarrow> 'p option \<Rightarrow> grid list option
    \<Rightarrow> grid list option \<Rightarrow> (nat \<times> nat) list list \<Rightarrow> (nat \<times> nat) list list \<Rightarrow> 'r list list res" where
  "input_embeds vision xs pixels pixels_videos image_grid video_grid img_pads vid_pads =
     rbind (case pixels of None \<Rightarrow> Ok xs
            | Some p \<Rightarrow> rbind (context_of ''pixel_values require image_grid_thw'' image_grid) (\<lambda>g.
                rbind (vision p g) (\<lambda>e. place_embeds e img_pads xs))) (\<lambda>xs.
     case pixels_videos of None \<Rightarrow> Ok xs
     | Some p \<Rightarrow> rbind (context_of ''pixel_values_videos require video_grid_thw'' video_grid) (\<lambda>g.
         rbind (vision p g) (\<lambda>e. place_embeds e vid_pads xs)))"

section \<open>The vision model\<close>

text \<open>The rows and columns of the patches: counted, cut into windows, and repeated in time.\<close>

definition windows :: "nat \<Rightarrow> nat \<Rightarrow> nat \<Rightarrow> nat nd \<Rightarrow> nat nd res" where
  "windows merge h w ids =
     rbind (udiv h merge) (\<lambda>mh.
     rbind (udiv w merge) (\<lambda>mw.
     rbind (reshape [mh, merge, mw, merge] ids) (\<lambda>ids.
     reshape [h * w] (permute [0, 2, 1, 3] ids))))"

definition patch_rows :: "nat \<Rightarrow> nat \<Rightarrow> nat nd" where
  "patch_rows h w = \<lparr>nd_shape = [h, w], nd_at = (\<lambda>ix. ix ! 0)\<rparr>"

definition patch_columns :: "nat \<Rightarrow> nat \<Rightarrow> nat nd" where
  "patch_columns h w = \<lparr>nd_shape = [h, w], nd_at = (\<lambda>ix. ix ! 1)\<rparr>"

definition rot_pos_ids :: "nat \<Rightarrow> grid \<Rightarrow> (nat \<times> nat) list res" where
  "rot_pos_ids merge = (\<lambda>(t, h, w).
     rbind (windows merge h w (patch_rows h w)) (\<lambda>hpos.
     rbind (windows merge h w (patch_columns h w)) (\<lambda>wpos.
     Ok (concat (replicate t (map (\<lambda>p. (nd_at hpos [p], nd_at wpos [p])) [0..<h * w]))))))"

definition rot_positions :: "nat \<Rightarrow> grid list \<Rightarrow> (nat \<times> nat) list res" where
  "rot_positions merge grids =
     (if grids = [] then Err (Bail ''cat requires at least one tensor'')
      else rbind (rmap (rot_pos_ids merge) grids) (\<lambda>ps. Ok (concat ps)))"

text \<open>The ends of the frames, and whether a patch may attend to another.\<close>

definition cu_seqlens :: "grid list \<Rightarrow> nat list" where
  "cu_seqlens grids = (let frames = concat (map (\<lambda>(t, h, w). replicate t (h * w)) grids)
     in map (\<lambda>k. sum_list (take k frames)) [0..<length frames + 1])"

definition may_attend :: "grid list \<Rightarrow> nat \<Rightarrow> (nat \<Rightarrow> nat \<Rightarrow> bool) res" where
  "may_attend grids num_patches =
     (let cu = cu_seqlens grids in
      if cu = [0, num_patches] then Ok (\<lambda>_ _. True)
      else rfold (\<lambda>k m. if num_patches < cu ! k then Err (Bail ''slice-assign: out of range'')
                        else Ok (\<lambda>p q. (cu ! (k - 1) \<le> p \<and> p < cu ! k \<and> cu ! (k - 1) \<le> q \<and> q < cu ! k) \<or> m p q))
             [1..<length cu] (\<lambda>_ _. False))"

section \<open>The reference of the positions\<close>

text \<open>
  A prompt is pieces, each a text and then an image or a video with its grid of patches, and a last text. A token
  of a text is one further than what comes before it in all three positions, the tokens of a grid
  have the place in their grid on top, and what comes after a grid is one further than its largest position.
\<close>

datatype media = Image grid | Video grid

type_synonym piece = "nat list \<times> media"

definition llm_grid :: "model \<Rightarrow> grid \<Rightarrow> grid" where
  "llm_grid md = (\<lambda>(t, h, w). (t, h div spatial_merge_size md, w div spatial_merge_size md))"

fun volume :: "grid \<Rightarrow> nat" where
  "volume (t, h, w) = t * h * w"

fun media_grid :: "media \<Rightarrow> grid" where
  "media_grid (Image g) = g"
| "media_grid (Video g) = g"

fun media_token :: "model \<Rightarrow> media \<Rightarrow> nat" where
  "media_token md (Image g) = image_token_id md"
| "media_token md (Video g) = video_token_id md"

fun render :: "model \<Rightarrow> piece list \<Rightarrow> nat list \<Rightarrow> nat list" where
  "render md [] tail = tail"
| "render md ((ws, m) # ps) tail =
     ws @ replicate (volume (llm_grid md (media_grid m))) (media_token md m) @ render md ps tail"

fun piece_end :: "model \<Rightarrow> int \<Rightarrow> piece list \<Rightarrow> int" where
  "piece_end md x [] = x"
| "piece_end md x ((ws, m) # ps) = piece_end md (x + int (length ws) + int (max3 (llm_grid md (media_grid m)))) ps"

definition ref_grid :: "int \<Rightarrow> grid \<Rightarrow> pos list" where
  "ref_grid x = (\<lambda>(t, h, w). [(x + int a, x + int b, x + int c). a \<leftarrow> [0..<t], b \<leftarrow> [0..<h], c \<leftarrow> [0..<w]])"

fun piece_positions :: "model \<Rightarrow> int \<Rightarrow> piece list \<Rightarrow> pos list" where
  "piece_positions md x [] = []"
| "piece_positions md x ((ws, m) # ps) =
     text_positions x (length ws) @ ref_grid (x + int (length ws)) (llm_grid md (media_grid m))
     @ piece_positions md (x + int (length ws) + int (max3 (llm_grid md (media_grid m)))) ps"

definition ref_positions :: "model \<Rightarrow> piece list \<Rightarrow> nat list \<Rightarrow> pos list" where
  "ref_positions md ps tail = piece_positions md 0 ps @ text_positions (piece_end md 0 ps) (length tail)"

text \<open>The position after the last token.\<close>

definition ref_end :: "model \<Rightarrow> piece list \<Rightarrow> nat list \<Rightarrow> int" where
  "ref_end md ps tail = piece_end md 0 ps + int (length tail)"

definition images_of :: "piece list \<Rightarrow> grid list" where
  "images_of ps = List.map_filter (\<lambda>(ws, m). case m of Image g \<Rightarrow> Some g | Video g \<Rightarrow> None) ps"

definition videos_of :: "piece list \<Rightarrow> grid list" where
  "videos_of ps = List.map_filter (\<lambda>(ws, m). case m of Image g \<Rightarrow> None | Video g \<Rightarrow> Some g) ps"

lemma images_of_simps [simp]: "images_of [] = []" "images_of ((ws, Image g) # ps) = g # images_of ps"
  "images_of ((ws, Video g) # ps) = images_of ps"
  by (simp_all add: images_of_def map_filter_simps)

lemma videos_of_simps [simp]: "videos_of [] = []" "videos_of ((ws, Image g) # ps) = videos_of ps"
  "videos_of ((ws, Video g) # ps) = g # videos_of ps"
  by (simp_all add: videos_of_def map_filter_simps)

definition plain :: "model \<Rightarrow> nat list \<Rightarrow> bool" where
  "plain md ws \<longleftrightarrow> image_token_id md \<notin> set ws \<and> video_token_id md \<notin> set ws"

definition good_piece :: "model \<Rightarrow> piece \<Rightarrow> bool" where
  "good_piece md = (\<lambda>(ws, m). plain md ws \<and> 0 < volume (llm_grid md (media_grid m)))"

definition exact_sum :: "(nat \<Rightarrow> nat \<Rightarrow> int) \<Rightarrow> bool" where
  "exact_sum f \<longleftrightarrow> (\<forall>a b. a + b < 2 ^ 24 \<longrightarrow> f a b = int (a + b))"

lemma piece_cases:
  obtains (Nil) "ps = []" | (Image) ws g qs where "ps = (ws, Image g) # qs" | (Video) ws g qs where "ps = (ws, Video g) # qs"
  by (metis list.exhaust media.exhaust prod.exhaust)

lemma image_in_render:
  "\<forall>p \<in> set ps. good_piece md p \<Longrightarrow> images_of ps \<noteq> [] \<Longrightarrow> image_token_id md \<in> set (render md ps tail)"
proof (induction ps)
  case (Cons p ps)
  obtain ws m where p: "p = (ws, m)" by (cases p)
  show ?case using Cons by (cases m) (auto simp: p good_piece_def)
qed simp

lemma video_in_render:
  "\<forall>p \<in> set ps. good_piece md p \<Longrightarrow> videos_of ps \<noteq> [] \<Longrightarrow> video_token_id md \<in> set (render md ps tail)"
proof (induction ps)
  case (Cons p ps)
  obtain ws m where p: "p = (ws, m)" by (cases p)
  show ?case using Cons by (cases m) (auto simp: p good_piece_def)
qed simp

text \<open>Where the code finds the tokens.\<close>

lemma takeWhile_text: "tok \<notin> set ws \<Longrightarrow> takeWhile (\<lambda>t. t \<noteq> tok) (ws @ zs) = ws @ takeWhile (\<lambda>t. t \<noteq> tok) zs"
  by (subst takeWhile_append2) auto

lemma position_here:
  assumes "tok \<notin> set ws" and "0 < k"
  shows "position_from (pre @ ws @ replicate k tok @ rest) (length pre) tok = Ok (length pre + length ws)"
  using assms by (cases k) (simp_all add: position_from_def takeWhile_text)

lemma position_later:
  assumes "tok \<notin> set ws" and "tok' \<noteq> tok" and "tok \<in> set rest" and "0 < k"
  shows "\<exists>e. position_from (pre @ ws @ replicate k tok' @ rest) (length pre) tok = Ok e \<and> length pre + length ws < e"
proof -
  have "takeWhile (\<lambda>t. t \<noteq> tok) (replicate k tok' @ rest) = replicate k tok' @ takeWhile (\<lambda>t. t \<noteq> tok) rest"
    using assms(2) by (intro takeWhile_text) simp
  then show ?thesis using assms by (simp add: position_from_def takeWhile_text)
qed

lemma grid_positions_ref:
  assumes "exact_sum f" and "offset + max3 g \<le> 2 ^ 24"
  shows "grid_positions f offset g = ref_grid (int offset) g"
proof -
  obtain t h w where g: "g = (t, h, w)" by (cases g)
  have "f a offset = int offset + int a" if "a < max3 g" for a
    using assms that by (simp add: exact_sum_def)
  then have "f a offset = int offset + int a" if "a < t \<or> a < h \<or> a < w" for a
    using that by (auto simp: g max3_def)
  then show ?thesis by (auto simp: g grid_positions_def ref_grid_def intro!: arg_cong [of _ _ concat] map_cong)
qed

lemma max3_volume: "0 < volume g \<Longrightarrow> max3 g \<le> volume g"
proof -
  assume "0 < volume g"
  moreover obtain t h w where g: "g = (t, h, w)" by (cases g)
  ultimately have p: "0 < t" "0 < h" "0 < w" by simp_all
  have "t * 1 \<le> t * (h * w)" "h * 1 \<le> h * (t * w)" "w * 1 \<le> w * (t * h)"
    by (intro mult_le_mono2; use p in simp)+
  then show ?thesis by (simp add: g max3_def ac_simps)
qed

lemma length_ref_grid: "length (ref_grid x g) = volume g"
  by (cases g) (simp add: ref_grid_def length_concat comp_def sum_list_triv)

lemma length_text_positions [simp]: "length (text_positions x n) = n"
  by (simp add: text_positions_def)

lemma length_piece_positions: "length (piece_positions md x ps) + length tail = length (render md ps tail)"
  by (induction md x ps rule: piece_positions.induct) (simp_all add: length_ref_grid)

text \<open>The grids that are left are those of the images that are left.\<close>

definition available :: "grid list option \<Rightarrow> nat \<Rightarrow> grid list \<Rightarrow> bool" where
  "available gr i gs \<longleftrightarrow> gs = [] \<or> (\<exists>all more. gr = Some all \<and> drop i all = gs @ more)"

lemma available_next:
  assumes "available gr i (g # gs)"
  shows "grid_at gr i = Ok g" "available gr (i + 1) gs"
proof -
  obtain as more where a: "gr = Some as" "drop i as = g # gs @ more" using assms by (auto simp: available_def)
  then have "i < length as" by (metis drop_all leI list.distinct(1))
  moreover from this have "drop i as = as ! i # drop (i + 1) as" by (simp add: Cons_nth_drop_Suc)
  ultimately have "as ! i = g" "drop (i + 1) as = gs @ more" using a(2) by simp_all
  then show "grid_at gr i = Ok g" "available gr (i + 1) gs"
    using a(1) \<open>i < length as\<close> by (auto simp: grid_at_def available_def)
qed

text \<open>What holds before an image, with the pieces \<open>ps\<close> to come after the tokens \<open>pre\<close>; \<open>x\<close> is the next position.\<close>

definition rope_at :: "model \<Rightarrow> grid list option \<Rightarrow> grid list option \<Rightarrow> nat list \<Rightarrow> int \<Rightarrow> piece list \<Rightarrow> rope_state \<Rightarrow> bool" where
  "rope_at md image_grid video_grid pre x ps s \<longleftrightarrow>
     rs_st s = length pre \<and> (case rs_last s of Some y \<Rightarrow> y | None \<Rightarrow> 0) = x \<and> 0 \<le> x \<and> x \<le> int (length pre) \<and> rs_max s = x
     \<and> rs_remain_images s = length (images_of ps) \<and> rs_remain_videos s = length (videos_of ps)
     \<and> available image_grid (rs_image_index s) (images_of ps) \<and> available video_grid (rs_video_index s) (videos_of ps)"

lemma rope_media_step:
  assumes "rope_at md image_grid video_grid pre x ((ws, m) # ps) s" and "\<forall>p \<in> set ((ws, m) # ps). good_piece md p"
    and "image_token_id md \<noteq> video_token_id md" and "exact_sum f"
    and "searching = pre @ render md ((ws, m) # ps) tail" and "length searching \<le> 2 ^ 24" and "n = length searching"
  defines "G \<equiv> llm_grid md (media_grid m)"
  shows "\<exists>s'. rope_media f md image_grid video_grid searching n s = Ok s'
    \<and> rope_at md image_grid video_grid (pre @ ws @ replicate (volume G) (media_token md m)) (x + int (length ws) + int (max3 G)) ps s'
    \<and> rs_positions s' = rs_positions s @ text_positions x (length ws) @ ref_grid (x + int (length ws)) G"
proof -
  note at = assms(1) [unfolded rope_at_def]
  obtain t h w where g: "media_grid m = (t, h, w)" by (cases "media_grid m")
  have good: "plain md ws" "0 < volume G" using assms(2) by (auto simp: good_piece_def G_def)
  have G: "G = (t, h div spatial_merge_size md, w div spatial_merge_size md)" by (simp add: G_def llm_grid_def g)
  have merge: "udiv h (spatial_merge_size md) = Ok (h div spatial_merge_size md)"
    "udiv w (spatial_merge_size md) = Ok (w div spatial_merge_size md)"
    using good(2) by (cases "spatial_merge_size md = 0"; simp add: udiv_def G)+
  let ?k = "volume G" and ?rest = "render md ps tail"
  have srch: "searching = pre @ ws @ replicate ?k (media_token md m) @ ?rest" using assms(5) by (simp add: G_def)
  have len: "length pre + length ws + ?k \<le> 2 ^ 24" using assms(6) by (simp add: srch)
  have "0 \<le> x" "x \<le> int (length pre)" using at by blast+
  then have x: "nat x \<le> length pre" "int (nat x) = x" by simp_all
  have off: "length ws + nat x + max3 G \<le> 2 ^ 24"
    using max3_volume [OF good(2)] len x(1) by linarith
  have pos: "grid_positions f (length ws + nat x) G = ref_grid (x + int (length ws)) G"
    using grid_positions_ref [OF assms(4) off] x(2) by (simp add: add.commute)
  have big: "\<not> 2 ^ 32 \<le> t * (h div spatial_merge_size md) * (w div spatial_merge_size md)"
    using len by (simp add: G)
  have vol: "volume G = t * (h div spatial_merge_size md) * (w div spatial_merge_size md)" by (simp add: G)
  have max: "max (max x (int (length ws) + x)) (int (max3 G) + (int (length ws) + x)) = x + int (length ws) + int (max3 G)"
    by simp
  have rest: "\<forall>p \<in> set ps. good_piece md p" using assms(2) by simp
  show ?thesis
  proof (cases m)
    case (Image g')
    let ?e = "length pre + length ws"
    have im: "position_from searching (length pre) (image_token_id md) = Ok ?e" "image_token_id md \<in> set searching"
      using position_here [of "image_token_id md" ws ?k pre ?rest] good by (simp_all add: srch Image plain_def)
    have vid: "\<exists>e. (if video_token_id md \<in> set searching \<and> 0 < length (videos_of ps)
        then position_from searching (length pre) (video_token_id md) else Ok (n + 1)) = Ok e \<and> ?e < e"
    proof (cases "videos_of ps = []")
      case True
      have "?e < n + 1" using assms(7) by (simp add: srch)
      then show ?thesis using True by simp
    next
      case False
      then have v: "video_token_id md \<in> set ?rest" by (rule video_in_render [OF rest])
      have "image_token_id md \<noteq> video_token_id md" by (rule assms(3))
      from position_later [OF _ this v good(2), of ws pre] show ?thesis
        using good(1) v False by (simp add: srch Image plain_def)
    qed
    then obtain e where e: "(if video_token_id md \<in> set searching \<and> 0 < length (videos_of ps)
        then position_from searching (length pre) (video_token_id md) else Ok (n + 1)) = Ok e" "?e < e" by blast
    have av: "grid_at image_grid (rs_image_index s) = Ok (t, h, w)" "available image_grid (rs_image_index s + 1) (images_of ps)"
      using available_next [of image_grid "rs_image_index s" g' "images_of ps"] at g by (simp_all add: Image)
    let ?s = "s\<lparr>rs_image_index := rs_image_index s + 1, rs_remain_images := length (images_of ps),
      rs_st := ?e + ?k, rs_last := Some (int (max3 G) + (int (length ws) + x)), rs_max := x + int (length ws) + int (max3 G),
      rs_positions := rs_positions s @ text_positions x (length ws) @ ref_grid (x + int (length ws)) G\<rparr>"
    have ed: "(if image_token_id md \<in> set searching \<and> 0 < rs_remain_images s
        then position_from searching (rs_st s) (image_token_id md) else Ok (n + 1)) = Ok ?e"
      "(if video_token_id md \<in> set searching \<and> 0 < rs_remain_videos s
        then position_from searching (rs_st s) (video_token_id md) else Ok (n + 1)) = Ok e"
    proof -
      have r: "rs_remain_videos s = length (videos_of ps)" "rs_st s = length pre" "0 < rs_remain_images s" using at by (simp_all add: Image)
      show "(if image_token_id md \<in> set searching \<and> 0 < rs_remain_images s
        then position_from searching (rs_st s) (image_token_id md) else Ok (n + 1)) = Ok ?e" using im r(2,3) by simp
      show "(if video_token_id md \<in> set searching \<and> 0 < rs_remain_videos s
        then position_from searching (rs_st s) (video_token_id md) else Ok (n + 1)) = Ok e" by (simp only: r(1,2) e(1))
    qed
    have "rope_media f md image_grid video_grid searching n s = Ok ?s"
      unfolding rope_media_def ed rbind_Inr
      using at e(2) av merge pos big max by (simp add: Image Let_def G [symmetric] vol [symmetric])
    moreover have "rope_at md image_grid video_grid (pre @ ws @ replicate ?k (media_token md m)) (x + int (length ws) + int (max3 G)) ps ?s"
      using at av max3_volume [OF good(2)] by (simp add: rope_at_def Image)
    ultimately show ?thesis by (intro exI [of _ ?s]) simp
  next
    case (Video g')
    let ?e = "length pre + length ws"
    have vi: "position_from searching (length pre) (video_token_id md) = Ok ?e" "video_token_id md \<in> set searching"
      using position_here [of "video_token_id md" ws ?k pre ?rest] good by (simp_all add: srch Video plain_def)
    have img: "\<exists>e. (if image_token_id md \<in> set searching \<and> 0 < length (images_of ps)
        then position_from searching (length pre) (image_token_id md) else Ok (n + 1)) = Ok e \<and> ?e < e"
    proof (cases "images_of ps = []")
      case True
      have "?e < n + 1" using assms(7) by (simp add: srch)
      then show ?thesis using True by simp
    next
      case False
      then have v: "image_token_id md \<in> set ?rest" by (rule image_in_render [OF rest])
      have "video_token_id md \<noteq> image_token_id md" using assms(3) by simp
      from position_later [OF _ this v good(2), of ws pre] show ?thesis
        using good(1) v False by (simp add: srch Video plain_def)
    qed
    then obtain e where e: "(if image_token_id md \<in> set searching \<and> 0 < length (images_of ps)
        then position_from searching (length pre) (image_token_id md) else Ok (n + 1)) = Ok e" "?e < e" by blast
    have av: "grid_at video_grid (rs_video_index s) = Ok (t, h, w)" "available video_grid (rs_video_index s + 1) (videos_of ps)"
      using available_next [of video_grid "rs_video_index s" g' "videos_of ps"] at g by (simp_all add: Video)
    let ?s = "s\<lparr>rs_video_index := rs_video_index s + 1, rs_remain_videos := length (videos_of ps),
      rs_st := ?e + ?k, rs_last := Some (int (max3 G) + (int (length ws) + x)), rs_max := x + int (length ws) + int (max3 G),
      rs_positions := rs_positions s @ text_positions x (length ws) @ ref_grid (x + int (length ws)) G\<rparr>"
    have ed: "(if video_token_id md \<in> set searching \<and> 0 < rs_remain_videos s
        then position_from searching (rs_st s) (video_token_id md) else Ok (n + 1)) = Ok ?e"
      "(if image_token_id md \<in> set searching \<and> 0 < rs_remain_images s
        then position_from searching (rs_st s) (image_token_id md) else Ok (n + 1)) = Ok e"
    proof -
      have r: "rs_remain_images s = length (images_of ps)" "rs_st s = length pre" "0 < rs_remain_videos s" using at by (simp_all add: Video)
      show "(if video_token_id md \<in> set searching \<and> 0 < rs_remain_videos s
        then position_from searching (rs_st s) (video_token_id md) else Ok (n + 1)) = Ok ?e" using vi r(2,3) by simp
      show "(if image_token_id md \<in> set searching \<and> 0 < rs_remain_images s
        then position_from searching (rs_st s) (image_token_id md) else Ok (n + 1)) = Ok e" by (simp only: r(1,2) e(1))
    qed
    have "rope_media f md image_grid video_grid searching n s = Ok ?s"
      unfolding rope_media_def ed rbind_Inr
      using at e(2) av merge pos big max by (simp add: Video Let_def G [symmetric] vol [symmetric])
    moreover have "rope_at md image_grid video_grid (pre @ ws @ replicate ?k (media_token md m)) (x + int (length ws) + int (max3 G)) ps ?s"
      using at av max3_volume [OF good(2)] by (simp add: rope_at_def Video)
    ultimately show ?thesis by (intro exI [of _ ?s]) simp
  qed
qed


lemma rope_loop_run:
  assumes "rope_at md image_grid video_grid pre x ps s" and "\<forall>p \<in> set ps. good_piece md p"
    and "image_token_id md \<noteq> video_token_id md" and "exact_sum f"
    and "searching = pre @ render md ps tail" and "length searching \<le> 2 ^ 24" and "n = length searching"
  shows "\<exists>s'. rope_loop (rope_media f md image_grid video_grid searching n) (length ps) s = Ok s'
    \<and> rs_st s' = length searching - length tail \<and> (case rs_last s' of Some y \<Rightarrow> y | None \<Rightarrow> 0) = piece_end md x ps
    \<and> rs_max s' = piece_end md x ps \<and> rs_positions s' = rs_positions s @ piece_positions md x ps"
  using assms(1,2,5)
proof (induction ps arbitrary: pre x s)
  case Nil
  then show ?case by (simp add: rope_at_def)
next
  case (Cons p ps)
  obtain ws m where p: "p = (ws, m)" by (cases p)
  let ?G = "llm_grid md (media_grid m)"
  obtain s1 where s1: "rope_media f md image_grid video_grid searching n s = Ok s1"
    "rope_at md image_grid video_grid (pre @ ws @ replicate (volume ?G) (media_token md m)) (x + int (length ws) + int (max3 ?G)) ps s1"
    "rs_positions s1 = rs_positions s @ text_positions x (length ws) @ ref_grid (x + int (length ws)) ?G"
    using rope_media_step [of md image_grid video_grid pre x ws m ps s f searching tail n] Cons.prems assms(3,4,6,7)
    unfolding p by blast
  have "searching = (pre @ ws @ replicate (volume ?G) (media_token md m)) @ render md ps tail"
    using Cons.prems(3) by (simp add: p)
  from Cons.IH [OF s1(2) _ this] Cons.prems(2) obtain s' where
    "rope_loop (rope_media f md image_grid video_grid searching n) (length ps) s1 = Ok s'"
    "rs_st s' = length searching - length tail" "(case rs_last s' of Some y \<Rightarrow> y | None \<Rightarrow> 0) = piece_end md (x + int (length ws) + int (max3 ?G)) ps"
    "rs_max s' = piece_end md (x + int (length ws) + int (max3 ?G)) ps"
    "rs_positions s' = rs_positions s1 @ piece_positions md (x + int (length ws) + int (max3 ?G)) ps" by auto
  then show ?case using s1(1,3) by (simp add: p)
qed

lemma piece_end_pos: "0 \<le> x \<Longrightarrow> 0 \<le> piece_end md x ps"
  by (induction md x ps rule: piece_end.induct) simp_all

lemma length_pieces: "length (images_of ps) + length (videos_of ps) = length ps"
proof (induction ps)
  case (Cons p ps)
  then show ?case by (cases p; cases "snd p") auto
qed simp

text \<open>One row without padding.\<close>

lemma rope_row_run:
  assumes "\<forall>p \<in> set ps. good_piece md p" and "image_token_id md \<noteq> video_token_id md" and "exact_sum f"
    and "toks = render md ps tail" and "length toks \<le> 2 ^ 24"
    and "image_grid = Some (images_of ps) \<or> images_of ps = []" and "video_grid = Some (videos_of ps) \<or> videos_of ps = []"
    and "length row = length toks"
  shows "\<exists>ii vi. rope_row f md image_grid video_grid (Some [replicate (length toks) 1]) (Some [[0..<length toks]]) [toks]
      [length (images_of ps)] [length (videos_of ps)] (0, row) (0, 0, [], [])
    = Ok (ii, vi, [ref_positions md ps tail], [ref_end md ps tail + 1 - int (length toks)])"
proof -
  let ?s = "\<lparr>rs_image_index = 0, rs_video_index = 0, rs_remain_images = length (images_of ps),
    rs_remain_videos = length (videos_of ps), rs_st = 0, rs_last = None, rs_max = 0, rs_positions = []\<rparr>"
  have at: "rope_at md image_grid video_grid [] 0 ps ?s"
    using assms(6,7) by (auto simp: rope_at_def available_def)
  obtain s' where s': "rope_loop (rope_media f md image_grid video_grid toks (length toks)) (length ps) ?s = Ok s'"
    "rs_st s' = length toks - length tail" "(case rs_last s' of Some y \<Rightarrow> y | None \<Rightarrow> 0) = piece_end md 0 ps"
    "rs_max s' = piece_end md 0 ps" "rs_positions s' = piece_positions md 0 ps"
    using rope_loop_run [OF at assms(1-3) _ assms(5) refl, of tail] assms(4) by auto
  have len: "length tail \<le> length toks" "length (piece_positions md 0 ps) = length toks - length tail"
    using length_piece_positions [of md 0 ps tail] by (simp_all add: assms(4))
  have st: "rs_st s' < length toks \<longleftrightarrow> tail \<noteq> []" using s'(2) len(1) by (cases tail) auto
  have text_len: "length toks - rs_st s' = length tail" using s'(2) len(1) by simp
  have pos: "0 \<le> piece_end md 0 ps" by (rule piece_end_pos) simp
  let ?t = "rope_tail (length toks) s'"
  have t: "rs_positions ?t = ref_positions md ps tail" "rs_max ?t = ref_end md ps tail"
    unfolding rope_tail_def st ref_positions_def ref_end_def
    using s'(3-5) text_len pos by (cases "tail = []"; simp add: Let_def text_positions_def)+
  have ref_len: "length (ref_positions md ps tail) = length toks"
    using len by (simp add: ref_positions_def)
  have ones: "map (\<lambda>(k, p). if k = 1 then p else (0, 0, 0)) (zip (replicate (length ps) (1::nat)) ps) = ps" for ps :: "pos list"
    by (induction ps) simp_all
  have sel: "selected_length (Some [[0..<length toks]]) 0 row = Ok (length toks)"
    using assms(8) by (simp add: selected_length_def)
  have nums: "vget [length (images_of ps)] 0 = Ok (length (images_of ps))" "vget [length (videos_of ps)] 0 = Ok (length (videos_of ps))"
    by simp_all
  have srch: "(if length ps = 0 then Ok [] else vget [toks] 0) = Ok (if ps = [] then [] else toks)" by simp
  have loop: "rope_loop (rope_media f md image_grid video_grid (if ps = [] then [] else toks) (length toks)) (length ps) ?s = Ok s'"
    using s'(1) by (cases "ps = []") simp_all
  have "rope_row f md image_grid video_grid (Some [replicate (length toks) 1]) (Some [[0..<length toks]]) [toks]
      [length (images_of ps)] [length (videos_of ps)] (0, row) (0, 0, [], [])
    = Ok (rs_image_index ?t, rs_video_index ?t, [ref_positions md ps tail], [ref_end md ps tail + 1 - int (length toks)])"
    unfolding rope_row_def prod.case sel rbind_Inr nums length_pieces srch loop Let_def
    using t ref_len ones [of "ref_positions md ps tail"] assms(8) by simp
  then show ?thesis by blast
qed

section \<open>The positions of the layers\<close>

lemma forward_run:
  assumes "\<forall>p \<in> set ps. good_piece md p" and "image_token_id md \<noteq> video_token_id md" and "exact_sum f"
    and "toks = render md ps tail" and "length toks \<le> 2 ^ 24"
    and "image_grid = Some (images_of ps) \<or> images_of ps = []" and "video_grid = Some (videos_of ps) \<or> videos_of ps = []"
    and "image_grid \<noteq> None \<or> video_grid \<noteq> None"
  shows "get_rope_index f md [toks] image_grid video_grid (Some [replicate (length toks) 1]) (Some [[0..<length toks]]) [toks]
      [length (images_of ps)] [length (videos_of ps)]
    = Ok ([ref_positions md ps tail], [ref_end md ps tail + 1 - int (length toks)])"
proof -
  obtain ii vi where row: "rope_row f md image_grid video_grid (Some [replicate (length toks) 1]) (Some [[0..<length toks]]) [toks]
      [length (images_of ps)] [length (videos_of ps)] (0, toks) (0, 0, [], [])
    = Ok (ii, vi, [ref_positions md ps tail], [ref_end md ps tail + 1 - int (length toks)])"
    using rope_row_run [OF assms(1-7) refl] by blast
  show ?thesis
    using assms(8) row by (simp add: get_rope_index_def)
qed

lemma prompt_positions:
  assumes "\<forall>p \<in> set ps. good_piece md p" and "image_token_id md \<noteq> video_token_id md" and "exact_sum f"
    and "toks = render md ps tail" and "length toks \<le> 2 ^ 24"
    and "image_grid = Some (images_of ps) \<or> images_of ps = []" and "video_grid = Some (videos_of ps) \<or> videos_of ps = []"
    and "image_grid \<noteq> None \<or> video_grid \<noteq> None"
  shows "forward_positions f md True [toks] full image_grid video_grid [length toks] [toks]
      [length (images_of ps)] [length (videos_of ps)] offs = Ok [ref_positions md ps tail]"
  using forward_run [OF assms] by (simp add: forward_positions_def)

lemma last_ref_position:
  "tail \<noteq> [] \<Longrightarrow> last (ref_positions md ps tail) = (let p = ref_end md ps tail - 1 in (p, p, p))"
  by (simp add: ref_positions_def ref_end_def text_positions_def last_map Let_def Suc_leI of_nat_diff)

lemma completion_position:
  assumes "\<forall>p \<in> set ps. good_piece md p" and "image_token_id md \<noteq> video_token_id md" and "exact_sum f"
    and "toks = render md ps tail" and "length toks \<le> 2 ^ 24"
    and "image_grid = Some (images_of ps) \<or> images_of ps = []" and "video_grid = Some (videos_of ps) \<or> videos_of ps = []"
    and "image_grid \<noteq> None \<or> video_grid \<noteq> None" and "tail \<noteq> []"
  shows "forward_positions f md False ids [toks] image_grid video_grid [length toks] [toks]
      [length (images_of ps)] [length (videos_of ps)] [length toks - 1]
    = Ok [[(ref_end md ps tail, ref_end md ps tail, ref_end md ps tail)]]"
proof -
  have "length tail \<le> length toks" using length_piece_positions [of md 0 ps tail] by (simp add: assms(4))
  then have "1 \<le> length toks" using assms(9) by (cases tail) auto
  then have "int (length toks - 1) + (ref_end md ps tail + 1 - int (length toks)) = ref_end md ps tail" by simp
  then show ?thesis using forward_run [OF assms(1-8)] by (simp add: forward_positions_def Let_def)
qed

text \<open>Without images.\<close>

lemma mask_positions_ones: "mask_positions (replicate n 1) = map int [0..<n]"
  by (simp add: mask_positions_def sum_list_replicate min_def)

lemma text_position:
  assumes "0 < n"
  shows "forward_positions f md False ids full None None [n] srch imgs vids [n - 1] = Ok [[(int n - 1, int n - 1, int n - 1)]]"
proof -
  have "Max (int ` {0..<n}) = int n - 1"
    using assms by (intro Max_eqI) (auto intro!: image_eqI [of _ _ "n - 1"])
  then show ?thesis using assms
    by (simp add: forward_positions_def get_rope_index_def mask_positions_ones [simplified] Let_def of_nat_diff)
qed

section \<open>Embeddings\<close>

definition runs_apart :: "(nat \<times> nat) list \<Rightarrow> bool" where
  "runs_apart runs \<longleftrightarrow> sorted_wrt (\<lambda>(a, b) (c, d). b \<le> c) runs"

lemma place_runs:
  assumes "runs_apart runs" and "\<forall>(a, b) \<in> set runs. b = a + n \<and> b \<le> length row" and "le \<le> n" and "2 * n \<le> length embeds"
  shows "\<exists>le' row'. rfold (place_run embeds 0) runs (le, [row]) = Ok (le', [row']) \<and> length row' = length row
    \<and> (\<forall>j. (\<forall>(a, b) \<in> set runs. j < a \<or> b \<le> j) \<longrightarrow> row' ! j = row ! j)
    \<and> (\<forall>i < length runs. \<forall>k < n. row' ! (fst (runs ! i) + k) = embeds ! ((if i = 0 then le else n) + k))"
  using assms(1-3)
proof (induction runs arbitrary: row le)
  case Nil
  then show ?case by simp
next
  case (Cons r runs)
  obtain a b where r: "r = (a, b)" by (cases r)
  have ab: "b = a + n" "b \<le> length row" using Cons.prems(2) by (auto simp: r)
  let ?row = "take a row @ take n (drop le embeds) @ drop b row"
  have fits: "le + n \<le> length embeds" using Cons.prems(3) assms(4) by simp
  then have step: "place_run embeds 0 r (le, [row]) = Ok (n, [?row])" using ab by (simp add: place_run_def r)
  have len: "length ?row = length row" using ab fits by simp
  have inside: "?row ! (a + k) = embeds ! (le + k)" if "k < n" for k
    using ab fits that by (simp add: nth_append)
  have outside: "?row ! j = row ! j" if "j < a \<or> b \<le> j" for j
    using ab fits that by (auto simp: nth_append not_less)
  have later: "b \<le> c" if "(c, d) \<in> set runs" for c d using Cons.prems(1) that by (auto simp: runs_apart_def r)
  have apart: "runs_apart runs" using Cons.prems(1) by (simp add: runs_apart_def)
  have "\<forall>(a, b) \<in> set runs. b = a + n \<and> b \<le> length ?row" using Cons.prems(2) unfolding len by simp
  from Cons.IH [OF apart this le_refl] obtain le' row' where row': "rfold (place_run embeds 0) runs (n, [?row]) = Ok (le', [row'])" "length row' = length ?row"
    "\<forall>j. (\<forall>(a, b) \<in> set runs. j < a \<or> b \<le> j) \<longrightarrow> row' ! j = ?row ! j"
    "\<forall>i < length runs. \<forall>k < n. row' ! (fst (runs ! i) + k) = embeds ! ((if i = 0 then n else n) + k)"
    by blast
  have "row' ! (fst ((r # runs) ! i) + k) = embeds ! ((if i = 0 then le else n) + k)"
    if "i < length (r # runs)" "k < n" for i k
  proof (cases i)
    case 0
    have "\<forall>(c, d) \<in> set runs. a + k < c \<or> d \<le> a + k" using later that(2) ab(1) by fastforce
    then have "row' ! (a + k) = ?row ! (a + k)" using row'(3) by blast
    then show ?thesis using inside [OF that(2)] 0 by (simp add: r)
  next
    case (Suc i')
    then show ?thesis using row'(4) that by simp
  qed
  moreover have "row' ! j = row ! j" if "\<forall>(a, b) \<in> set (r # runs). j < a \<or> b \<le> j" for j
  proof -
    have "row' ! j = ?row ! j" using row'(3) that by auto
    also have "\<dots> = row ! j" by (rule outside) (use that in \<open>simp add: r\<close>)
    finally show ?thesis .
  qed
  ultimately show ?case using step row'(1,2) len by (intro exI [of _ le'] exI [of _ row']) simp
qed

lemma run_places_start: "(a, b) \<in> set (run_places i p kps) \<Longrightarrow> i + length p \<le> a"
  by (induction i p kps rule: run_places.induct) (auto dest: add_leD1)

lemma run_places_apart: "runs_apart (run_places i p kps)"
proof (induction i p kps rule: run_places.induct)
  case (2 i p k q kps)
  have "i + length p + k \<le> c" if "(c, d) \<in> set (run_places (i + length p + k) q kps)" for c d
    using run_places_start [OF that] by simp
  then show ?case using 2 by (auto simp: runs_apart_def)
qed (simp add: runs_apart_def)

lemma run_places_end:
  "(a, b) \<in> set (run_places i p kps) \<Longrightarrow> \<forall>(k, q) \<in> set kps. k = n \<Longrightarrow> b = a + n \<and> b \<le> i + length (token_runs needle p kps)"
  by (induction i p kps rule: run_places.induct) auto

lemma embeddings:
  assumes "needle \<notin> set p" and "\<forall>(k, q) \<in> set kps. k = n \<and> needle \<notin> set q" and "0 < n"
    and "\<forall>(k, q) \<in> set (butlast kps). q \<noteq> []" and "toks = token_runs needle p kps" and "length row = length toks"
    and "2 * n \<le> length embeds"
  shows "\<exists>row'. place_embeds embeds [find_sequences toks needle] [row] = Ok [row'] \<and> length (find_sequences toks needle) = length kps
    \<and> (\<forall>i < length kps. \<forall>k < n. row' ! (fst (find_sequences toks needle ! i) + k) = embeds ! ((if i = 0 then 0 else n) + k))"
proof -
  let ?runs = "run_places 0 p kps"
  have runs: "find_sequences toks needle = ?runs"
    unfolding find_sequences_def assms(5) by (rule find_runs) (use assms(1-4) in auto)
  have "length (run_places i p kps) = length kps" for i p kps by (induction i p kps rule: run_places.induct) simp_all
  moreover have "\<forall>(a, b) \<in> set ?runs. b = a + n \<and> b \<le> length row"
    using run_places_end [of _ _ 0 p kps n needle] assms(2,5,6) by fastforce
  ultimately show ?thesis
    using place_runs [OF run_places_apart [of 0 p kps], of n row 0 embeds] assms(7)
    by (auto simp: place_embeds_def runs)
qed

section \<open>Patches, rotary positions and tokens agree\<close>

lemma nth_concat_equal:
  assumes "\<And>i. i < n \<Longrightarrow> length (f i) = m" and "i < n" and "j < m"
  shows "concat (map f [0..<n]) ! (i * m + j) = f i ! j"
  using assms
proof (induction n)
  case (Suc n)
  have "map (length \<circ> f) [0..<n] = replicate n m"
    using Suc.prems(1) by (intro nth_equalityI) simp_all
  then have len: "length (concat (map f [0..<n])) = n * m"
    by (simp add: length_concat sum_list_replicate)
  show ?case
  proof (cases "i < n")
    case True
    then have "i * m + j < n * m" using Suc.prems(3) by (intro join_index)
    then show ?thesis using Suc.IH [OF _ True Suc.prems(3)] Suc.prems(1) len by (simp add: nth_append)
  next
    case False
    then have "i = n" using Suc.prems(2) by simp
    then show ?thesis using len by (simp add: nth_append)
  qed
qed simp

lemma replicate_as_map: "replicate n x = map (\<lambda>_. x) [0..<n]"
  by (simp add: map_replicate_const)

lemma nth_ref_grid:
  assumes "a < t" and "b < h" and "c < w"
  shows "ref_grid x (t, h, w) ! ((a * h + b) * w + c) = (x + int a, x + int b, x + int c)"
proof -
  let ?row = "\<lambda>a b. map (\<lambda>c. (x + int a, x + int b, x + int c)) [0..<w]"
  let ?frame = "\<lambda>a. concat (map (?row a) [0..<h])"
  have frame: "length (?frame a) = h * w" for a by (simp add: length_concat comp_def sum_list_triv)
  have r: "ref_grid x (t, h, w) = concat (map ?frame [0..<t])"
    by (simp add: ref_grid_def concat_map_singleton)
  have "b * w + c < h * w" by (rule join_index [OF assms(2,3)])
  then have "concat (map ?frame [0..<t]) ! (a * (h * w) + (b * w + c)) = ?frame a ! (b * w + c)"
    using nth_concat_equal [of t ?frame "h * w" a "b * w + c", OF frame assms(1)] by blast
  also have "\<dots> = ?row a b ! c" by (rule nth_concat_equal) (use assms in simp_all)
  finally show ?thesis using assms(3) by (simp add: r algebra_simps)
qed

lemma windows_run:
  assumes "nd_shape ids = [mh * m, mw * m]" and "0 < m"
  shows "\<exists>r. windows m (mh * m) (mw * m) ids = Ok r \<and>
    (\<forall>a < mh. \<forall>b < mw. \<forall>i < m. \<forall>j < m. nd_at r [patch_number mh mw m 0 a b i j] = nd_at ids [a * m + i, b * m + j])"
proof -
  let ?sh = "[mh, m, mw, m]"
  let ?g = "\<lparr>nd_shape = ?sh, nd_at = (\<lambda>ix. nd_at ids (unravel (nd_shape ids) (ravel ?sh ix)))\<rparr>"
  have 1: "reshape ?sh ids = Ok ?g" by (rule reshape_ok) (simp add: assms(1))
  let ?p = "permute [0, 2, 1, 3] ?g"
  have psh: "nd_shape ?p = [mh, mw, m, m]" by (simp add: permute_def)
  let ?r = "\<lparr>nd_shape = [mh * m * (mw * m)], nd_at = (\<lambda>ix. nd_at ?p (unravel (nd_shape ?p) (ravel [mh * m * (mw * m)] ix)))\<rparr>"
  have 2: "reshape [mh * m * (mw * m)] ?p = Ok ?r" by (rule reshape_ok) (unfold psh, simp)
  have "nd_at ?r [patch_number mh mw m 0 a b i j] = nd_at ids [a * m + i, b * m + j]"
    if ix: "a < mh" "b < mw" "i < m" "j < m" for a b i j
  proof -
    have "ravel [mh * m * (mw * m)] [patch_number mh mw m 0 a b i j] = ravel (nd_shape ?p) [a, b, i, j]"
      unfolding psh by (simp add: patch_number_def algebra_simps)
    moreover have "inside [a, b, i, j] (nd_shape ?p)" unfolding psh using ix by simp
    ultimately have "nd_at ?r [patch_number mh mw m 0 a b i j] = nd_at ?p [a, b, i, j]" by (simp only: unravel_ravel nd.simps)
    also have "\<dots> = nd_at ?g [a, i, b, j]" by (simp add: permute_def upt_rec numeral_eq_Suc)
    also have "\<dots> = nd_at ids [a * m + i, b * m + j]"
    proof -
      have "ravel ?sh [a, i, b, j] = ravel (nd_shape ids) [a * m + i, b * m + j]"
        unfolding assms(1) by (simp add: algebra_simps)
      moreover have "inside [a * m + i, b * m + j] (nd_shape ids)"
        unfolding assms(1) using ix by (simp add: join_index)
      ultimately show ?thesis by (simp only: unravel_ravel nd.simps)
    qed
    finally show ?thesis .
  qed
  moreover have "windows m (mh * m) (mw * m) ids = Ok ?r" using assms(2) 1 2 by (simp add: windows_def udiv_def)
  ultimately show ?thesis by (intro exI [of _ ?r]) simp
qed

lemma patch_number_less:
  assumes "a < mh" and "b < mw" and "i < m" and "j < m"
  shows "patch_number mh mw m 0 a b i j < mh * m * (mw * m)"
proof -
  have "((a * mw + b) * m + i) * m + j < mh * mw * m * m" using assms by (intro join_index)
  then show ?thesis by (simp add: patch_number_def algebra_simps)
qed

lemma patch_number_time: "patch_number mh mw m t a b i j = t * (mh * m * (mw * m)) + patch_number mh mw m 0 a b i j"
  by (simp add: patch_number_def algebra_simps)

lemma rot_pos_ids_run:
  assumes "0 < m"
  shows "\<exists>ps. rot_pos_ids m (gt, mh * m, mw * m) = Ok ps \<and> length ps = gt * (mh * m) * (mw * m) \<and>
    (\<forall>t < gt. \<forall>a < mh. \<forall>b < mw. \<forall>i < m. \<forall>j < m.
      ps ! patch_number mh mw m t a b i j = (a * m + i, b * m + j))"
proof -
  let ?h = "mh * m" and ?w = "mw * m"
  obtain r where r: "windows m ?h ?w (patch_rows ?h ?w) = Ok r"
    "\<forall>a < mh. \<forall>b < mw. \<forall>i < m. \<forall>j < m. nd_at r [patch_number mh mw m 0 a b i j] = nd_at (patch_rows ?h ?w) [a * m + i, b * m + j]"
    using windows_run [of "patch_rows ?h ?w" mh m mw] assms by (auto simp: patch_rows_def)
  obtain c where c: "windows m ?h ?w (patch_columns ?h ?w) = Ok c"
    "\<forall>a < mh. \<forall>b < mw. \<forall>i < m. \<forall>j < m. nd_at c [patch_number mh mw m 0 a b i j] = nd_at (patch_columns ?h ?w) [a * m + i, b * m + j]"
    using windows_run [of "patch_columns ?h ?w" mh m mw] assms by (auto simp: patch_columns_def)
  let ?frame = "map (\<lambda>p. (nd_at r [p], nd_at c [p])) [0..<?h * ?w]"
  have "concat (replicate gt ?frame) ! patch_number mh mw m t a b i j = (a * m + i, b * m + j)"
    if "t < gt" "a < mh" "b < mw" "i < m" "j < m" for t a b i j
  proof -
    let ?n = "patch_number mh mw m 0 a b i j"
    have n: "?n < ?h * ?w" by (rule patch_number_less [OF that(2-5)])
    have "concat (replicate gt ?frame) ! (t * (?h * ?w) + ?n) = ?frame ! ?n"
      unfolding replicate_as_map by (rule nth_concat_equal) (use that n in simp_all)
    also have "\<dots> = (a * m + i, b * m + j)"
      using n r(2) c(2) that by (simp add: patch_rows_def patch_columns_def)
    finally show ?thesis by (simp add: patch_number_time [of _ _ _ t])
  qed
  moreover have "length (concat (replicate gt ?frame)) = gt * ?h * ?w"
    by (simp add: length_concat sum_list_replicate)
  ultimately show ?thesis using r(1) c(1) by (simp add: rot_pos_ids_def)
qed

text \<open>The patches of a window are consecutive, and the number of the window is that of a token.\<close>

lemma patch_token: "0 < m \<Longrightarrow> i < m \<Longrightarrow> j < m \<Longrightarrow> patch_number mh mw m t a b i j div (m * m) = (t * mh + a) * mw + b"
proof -
  assume m: "0 < m" "i < m" "j < m"
  have "patch_number mh mw m t a b i j = ((t * mh + a) * mw + b) * (m * m) + (i * m + j)"
    by (simp add: patch_number_def algebra_simps)
  moreover have "i * m + j < m * m" by (rule join_index [OF m(2,3)])
  ultimately show ?thesis using m(1) by simp
qed

lemma image_agrees:
  assumes "nd_shape img = [1, ch, mh * m * p, mw * m * p]" and "0 < temporal" and "0 < m" and "0 < p"
    and "spatial_merge_size md = m"
  shows "\<exists>rows g ps. cut_patches temporal p m (mh * m * p) (mw * m * p) img = Ok (rows, g) \<and> rot_pos_ids m g = Ok ps
    \<and> nd_shape rows = [length ps, ch * temporal * p * p]
    \<and> (\<forall>a < mh. \<forall>b < mw. \<forall>i < m. \<forall>j < m.
        let q = patch_number mh mw m 0 a b i j; r = a * m + i; s = b * m + j in
        ps ! q = (r, s)
        \<and> (\<forall>c < ch. \<forall>f < temporal. \<forall>y < p. \<forall>x < p.
            nd_at rows [q, element_number temporal p c f y x] = nd_at img [0, c, r * p + y, s * p + x])
        \<and> ref_grid 0 (llm_grid md g) ! (q div (m * m)) = (0, int (r div m), int (s div m)))"
proof -
  obtain rows where rows: "cut_patches temporal p m (mh * m * p) (mw * m * p) img = Ok (rows, (1, mh * m, mw * m))"
    "nd_shape rows = [mh * m * (mw * m), ch * temporal * p * p]"
    "\<forall>a < mh. \<forall>b < mw. \<forall>i < m. \<forall>j < m. \<forall>c < ch. \<forall>f < temporal. \<forall>y < p. \<forall>x < p.
        nd_at rows [patch_number mh mw m 0 a b i j, element_number temporal p c f y x]
          = nd_at img [0, c, (a * m + i) * p + y, (b * m + j) * p + x]"
    using cut_image [OF assms(1-4)] by blast
  obtain ps where ps: "rot_pos_ids m (1, mh * m, mw * m) = Ok ps" "length ps = 1 * (mh * m) * (mw * m)"
    "\<forall>t < 1. \<forall>a < mh. \<forall>b < mw. \<forall>i < m. \<forall>j < m. ps ! patch_number mh mw m t a b i j = (a * m + i, b * m + j)"
    using rot_pos_ids_run [OF assms(3), of 1 mh mw] by blast
  have token: "ref_grid 0 (llm_grid md (1, mh * m, mw * m)) ! (patch_number mh mw m 0 a b i j div (m * m))
      = (0, int ((a * m + i) div m), int ((b * m + j) div m))"
    if "a < mh" "b < mw" "i < m" "j < m" for a b i j
  proof -
    have "llm_grid md (1, mh * m, mw * m) = (1, mh, mw)" using assms(3,5) by (simp add: llm_grid_def)
    moreover have "patch_number mh mw m 0 a b i j div (m * m) = (0 * mh + a) * mw + b"
      by (rule patch_token [OF assms(3) that(3,4)])
    moreover have "(a * m + i) div m = a" "(b * m + j) div m = b" using that by simp_all
    ultimately show ?thesis using nth_ref_grid [of 0 1 a mh b mw 0] that by simp
  qed
  show ?thesis
    by (intro exI [of _ rows] exI [of _ "(1, mh * m, mw * m)"] exI [of _ ps])
      (use rows ps token in \<open>simp add: Let_def\<close>)
qed

section \<open>Properties\<close>

text \<open>
  C19. The positions of a prompt. For a prompt of texts, images and videos whose grids are given, with at most
  \<open>2 ^ 24\<close> tokens, the layers get the reference positions: the loop over the images finds every image and
  video at its place in the order of the prompt, none is left over and nothing fails.
\<close>

theorem prompt_positions_are_the_reference:
  assumes "\<forall>p \<in> set ps. good_piece md p" and "image_token_id md \<noteq> video_token_id md" and "exact_sum f"
    and "toks = render md ps tail" and "length toks \<le> 2 ^ 24"
    and "image_grid = Some (images_of ps) \<or> images_of ps = []" and "video_grid = Some (videos_of ps) \<or> videos_of ps = []"
    and "image_grid \<noteq> None \<or> video_grid \<noteq> None"
  shows "forward_positions f md True [toks] full image_grid video_grid [length toks] [toks]
      [length (images_of ps)] [length (videos_of ps)] offs = Ok [ref_positions md ps tail]"
  by (rule prompt_positions [OF assms])

text \<open>
  C25. Completions after images skip a position. In a completion step of a sequence with images or videos the token gets
  a position that is one further than the reference gives the last token of the same text, so that one position
  is left out between prompt and completion; without images it gets the position of the last token.
\<close>

theorem completions_skip_a_position:
  assumes "\<forall>p \<in> set ps. good_piece md p" and "image_token_id md \<noteq> video_token_id md" and "exact_sum f"
    and "toks = render md ps tail" and "length toks \<le> 2 ^ 24"
    and "image_grid = Some (images_of ps) \<or> images_of ps = []" and "video_grid = Some (videos_of ps) \<or> videos_of ps = []"
    and "image_grid \<noteq> None \<or> video_grid \<noteq> None" and "tail \<noteq> []"
  shows "\<exists>p. last (ref_positions md ps tail) = (p, p, p)
    \<and> forward_positions f md False ids [toks] image_grid video_grid [length toks] [toks]
        [length (images_of ps)] [length (videos_of ps)] [length toks - 1] = Ok [[(p + 1, p + 1, p + 1)]]
    \<and> last (ref_positions md [] tail) = (int (length tail) - 1, int (length tail) - 1, int (length tail) - 1)
    \<and> forward_positions f md False ids [tail] None None [length tail] [tail] [0] [0] [length tail - 1]
        = Ok [[(int (length tail) - 1, int (length tail) - 1, int (length tail) - 1)]]"
proof -
  have tail: "0 < length tail" using assms(9) by simp
  show ?thesis
    using completion_position [OF assms] last_ref_position [OF assms(9), of md ps] last_ref_position [OF assms(9), of md "[]"]
      text_position [OF tail, of f md ids "[tail]" "[tail]" "[0]" "[0]"]
    by (intro exI [of _ "ref_end md ps tail - 1"]) (simp add: Let_def ref_end_def)
qed

text \<open>
  C24. Every image after the second shows the second. When the images of a prompt have the same number of tokens, the
  runs that the processor finds are one per image, and the embeddings put at them are those of the first image for
  the first, and those of the second image for all the others.
\<close>

theorem later_images_show_the_second:
  assumes "img_tok \<notin> set p" and "\<forall>(k, q) \<in> set kps. k = n \<and> img_tok \<notin> set q" and "0 < n"
    and "\<forall>(k, q) \<in> set (butlast kps). q \<noteq> []" and "toks = token_runs img_tok p kps" and "length row = length toks"
    and "2 * n \<le> length embeds"
  shows "\<exists>row'. place_embeds embeds [find_sequences toks img_tok] [row] = Ok [row'] \<and> length (find_sequences toks img_tok) = length kps
    \<and> (\<forall>i < length kps. \<forall>k < n. row' ! (fst (find_sequences toks img_tok ! i) + k) = embeds ! ((if i = 0 then 0 else n) + k))"
  by (rule embeddings [OF assms])

text \<open>
  C21. Patches, rotary positions and tokens agree. An image of windows of \<open>m\<close> by \<open>m\<close> patches is cut without an error;
  row \<open>q\<close> of the result holds the pixels of the patch in row \<open>r\<close> and column \<open>s\<close> of the grid, these are the positions
  the vision model gives to row \<open>q\<close>, and the token that the rows \<open>q div (m * m)\<close> are merged to has, within the
  image, the position of the window of the patch.
\<close>

theorem patches_and_tokens_agree:
  assumes "nd_shape img = [1, ch, mh * m * p, mw * m * p]" and "0 < temporal" and "0 < m" and "0 < p"
    and "spatial_merge_size md = m"
  shows "\<exists>rows g ps. cut_patches temporal p m (mh * m * p) (mw * m * p) img = Ok (rows, g) \<and> rot_pos_ids m g = Ok ps
    \<and> nd_shape rows = [length ps, ch * temporal * p * p]
    \<and> (\<forall>a < mh. \<forall>b < mw. \<forall>i < m. \<forall>j < m.
        let q = patch_number mh mw m 0 a b i j; r = a * m + i; s = b * m + j in
        ps ! q = (r, s)
        \<and> (\<forall>c < ch. \<forall>f < temporal. \<forall>y < p. \<forall>x < p.
            nd_at rows [q, element_number temporal p c f y x] = nd_at img [0, c, r * p + y, s * p + x])
        \<and> ref_grid 0 (llm_grid md g) ! (q div (m * m)) = (0, int (r div m), int (s div m)))"
  by (rule image_agrees [OF assms])

section \<open>Witnesses\<close>

definition small_model :: model where
  "small_model = \<lparr>spatial_merge_size = 2, image_token_id = 100, video_token_id = 101\<rparr>"

definition exact_add :: "nat \<Rightarrow> nat \<Rightarrow> int" where
  "exact_add a b = int (a + b)"

definition two_pieces :: "piece list" where
  "two_pieces = [([7, 8], Image (1, 4, 6)), ([9], Image (1, 2, 2))]"

lemma two_pieces_good:
  "\<forall>p \<in> set two_pieces. good_piece small_model p" "image_token_id small_model \<noteq> video_token_id small_model" "exact_sum exact_add"
  "images_of two_pieces = [(1, 4, 6), (1, 2, 2)]" "videos_of two_pieces = []"
  by (simp_all add: two_pieces_def small_model_def good_piece_def plain_def llm_grid_def exact_sum_def exact_add_def)

lemma two_pieces_length: "length (render small_model two_pieces [5, 6]) = 12"
  by (simp add: two_pieces_def small_model_def llm_grid_def)

theorem prompt_positions_are_the_reference_witness:
  "forward_positions exact_add small_model True [render small_model two_pieces [5, 6]] [] (Some [(1, 4, 6), (1, 2, 2)]) None
     [12] [render small_model two_pieces [5, 6]] [2] [0] [0] = Ok [ref_positions small_model two_pieces [5, 6]]"
  using prompt_positions_are_the_reference [OF two_pieces_good(1-3) refl, of "[5, 6]" "Some [(1, 4, 6), (1, 2, 2)]" None "[]" "[0]"]
  by (simp add: two_pieces_good(4,5) two_pieces_length flip: numeral_2_eq_2)

theorem completions_skip_a_position_witness:
  "\<exists>p. last (ref_positions small_model two_pieces [5, 6]) = (p, p, p)
     \<and> forward_positions exact_add small_model False [[6]] [render small_model two_pieces [5, 6]] (Some [(1, 4, 6), (1, 2, 2)]) None
         [12] [render small_model two_pieces [5, 6]] [2] [0] [11] = Ok [[(p + 1, p + 1, p + 1)]]"
  using completions_skip_a_position [OF two_pieces_good(1-3) refl, of "[5, 6]" "Some [(1, 4, 6), (1, 2, 2)]" None "[[6]]"]
  by (auto simp: two_pieces_good(4,5) two_pieces_length simp flip: numeral_2_eq_2)

theorem later_images_show_the_second_witness:
  "\<exists>row. place_embeds [10, 11, 20, 21, 30, 31 :: nat] [find_sequences (token_runs 100 [7] [(2, [8]), (2, [8]), (2, [9])]) 100]
       [replicate 10 0] = Ok [row]
     \<and> row ! (fst (find_sequences (token_runs 100 [7] [(2, [8]), (2, [8]), (2, [9])]) 100 ! 2) + 0) = 20"
proof -
  obtain row where row: "place_embeds [10, 11, 20, 21, 30, 31 :: nat]
      [find_sequences (token_runs 100 [7] [(2, [8]), (2, [8]), (2, [9])]) 100] [replicate 10 0] = Ok [row]"
    "\<forall>i < 3. \<forall>k < 2. row ! (fst (find_sequences (token_runs 100 [7] [(2, [8]), (2, [8]), (2, [9])]) 100 ! i) + k)
      = [10, 11, 20, 21, 30, 31] ! ((if i = 0 then 0 else 2) + k)"
    using later_images_show_the_second [of 100 "[7]" "[(2, [8]), (2, [8]), (2, [9])]" 2 _ "replicate 10 (0::nat)" "[10, 11, 20, 21, 30, 31]",
        OF _ _ _ _ refl] by auto
  have "row ! (fst (find_sequences (token_runs 100 [7] [(2, [8]), (2, [8]), (2, [9])]) 100 ! 2) + 0)
      = [10, 11, 20, 21, 30, 31] ! ((if (2::nat) = 0 then 0 else 2) + 0)" by (rule row(2) [rule_format]) simp_all
  then show ?thesis using row(1) by (intro exI [of _ row]) simp
qed

theorem patches_and_tokens_agree_witness:
  "\<exists>rows g ps. cut_patches 2 2 2 (2 * 2 * 2) (3 * 2 * 2) \<lparr>nd_shape = [1, 3, 8, 12], nd_at = sum_list\<rparr> = Ok (rows, g)
     \<and> rot_pos_ids 2 g = Ok ps \<and> nd_shape rows = [length ps, 24]"
  using patches_and_tokens_agree [of "\<lparr>nd_shape = [1, 3, 8, 12], nd_at = sum_list\<rparr>" 3 2 2 2 3 2 small_model]
  by (fastforce simp: small_model_def)

end
