(* ===== verification/Idefics3.thy ===== *)
theory Idefics3
  imports Qwen2vl_Inputs
begin

text \<open>
  The inputs of Idefics 3 (\<^verbatim>\<open>mistralrs-core/src/vision_models/idefics3/inputs_processor.rs\<close>): an image is
  resized to multiples of a size, split into frames of this size and a last one of the whole image, and
  the image token of a prompt is replaced by the tokens of the frames.

  The conventions are those of \<open>Qwen2vl_Inputs\<close>. The rounded values of the code are integers, so that
  \<^verbatim>\<open>ceil\<close> and \<^verbatim>\<open>round\<close> answer natural numbers; the operations with 32 bits are the parameter \<open>g\<close>, those with
  64 bits \<open>fo\<close>. A map of sizes is a function.
\<close>

section \<open>The prompt\<close>

definition fake_image_token :: "byte list" where
  "fake_image_token = bytes_of ''<fake_token_around_image>''"

definition image_token :: "byte list" where
  "image_token = bytes_of ''<image>''"

definition global_image_token :: "byte list" where
  "global_image_token = bytes_of ''<global-img>''"

definition frame_string :: "nat \<Rightarrow> nat \<Rightarrow> nat \<Rightarrow> byte list" where
  "frame_string image_seq_len n_h n_w =
     fake_image_token @ bytes_of ''<row_'' @ decimal (n_h + 1) @ bytes_of ''_col_'' @ decimal (n_w + 1) @ bytes_of ''>''
     @ str_repeat image_seq_len image_token"

definition global_string :: "nat \<Rightarrow> byte list" where
  "global_string image_seq_len =
     fake_image_token @ global_image_token @ str_repeat image_seq_len image_token @ fake_image_token"

definition get_image_prompt_string :: "nat \<Rightarrow> nat \<Rightarrow> nat \<Rightarrow> byte list" where
  "get_image_prompt_string n_rows n_cols image_seq_len =
     (if n_rows = 0 \<and> n_cols = 0 then global_string image_seq_len
      else concat (map (\<lambda>n_h. concat (map (frame_string image_seq_len n_h) [0..<n_cols]) @ [10]) [0..<n_rows])
           @ [10] @ global_string image_seq_len)"

text \<open>The text of a prompt with the strings of its images.\<close>

definition insert_images :: "byte list \<Rightarrow> byte list list \<Rightarrow> byte list res" where
  "insert_images detok image_prompt_strings =
     (let split_sample = split_str image_token detok in
      rbind (vget split_sample 0) (\<lambda>first.
      rfold (\<lambda>(i, s) sample. rbind (vget split_sample i) (\<lambda>t. Ok (sample @ s @ t)))
        (List.enumerate 0 image_prompt_strings) first))"

section \<open>Sizes\<close>

definition resize_output_size_rescale_to_max_len :: "('f, 'g) float_ops \<Rightarrow> nat \<Rightarrow> nat \<Rightarrow> nat option \<Rightarrow> nat option \<Rightarrow> nat \<times> nat" where
  "resize_output_size_rescale_to_max_len g height width min_l max_l =
     (let min_l = (case min_l of Some n \<Rightarrow> n | None \<Rightarrow> 1);
          max_l = (case max_l of Some n \<Rightarrow> n | None \<Rightarrow> max height width);
          aspect_ratio = f_div g (f_of g width) (f_of g height);
          (height, width) =
            (if height \<le> width then
               let h = f_round g (f_div g (f_of g max_l) aspect_ratio) in (if h mod 2 \<noteq> 0 then h + 1 else h, max_l)
             else
               let w = f_round g (f_mul g (f_of g max_l) aspect_ratio) in (max_l, if w mod 2 \<noteq> 0 then w + 1 else w))
      in (max height min_l, max width min_l))"

definition resize_output_size_scale_below_upper_bound :: "('f, 'g) float_ops \<Rightarrow> nat \<Rightarrow> nat \<Rightarrow> nat option \<Rightarrow> nat \<times> nat" where
  "resize_output_size_scale_below_upper_bound g height width max_l =
     (let max_l = (case max_l of Some n \<Rightarrow> n | None \<Rightarrow> max height width);
          aspect_ratio = f_div g (f_of g width) (f_of g height);
          (height, width) =
            (if height \<le> width \<and> max_l < width then (f_round g (f_div g (f_of g max_l) aspect_ratio), max_l)
             else if width < height \<and> max_l < height then (max_l, f_round g (f_mul g (f_of g max_l) aspect_ratio))
             else (height, width))
      in (max height 1, max width 1))"

definition get_resize_output_image_size :: "('f, 'g) float_ops \<Rightarrow> nat \<times> nat \<Rightarrow> nat \<Rightarrow> nat \<times> nat" where
  "get_resize_output_image_size g = (\<lambda>(h, w) resolution_max_side.
     let (h, w) = resize_output_size_rescale_to_max_len g h w None (Some resolution_max_side)
     in resize_output_size_scale_below_upper_bound g h w (Some 4096))"

text \<open>The next multiple of \<open>m\<close>, and the sides that the vision encoder takes.\<close>

definition up_to_multiple :: "('f, 'g) float_ops \<Rightarrow> nat \<Rightarrow> nat \<Rightarrow> nat" where
  "up_to_multiple g m n = f_floor g (f_mul g (f_of g (f_ceil g (f_div g (f_of g n) (f_of g m)))) (f_of g m))"

definition resize_for_vision_encoder :: "('f, 'g) float_ops \<Rightarrow> nat \<times> nat \<Rightarrow> nat \<Rightarrow> nat \<times> nat" where
  "resize_for_vision_encoder g = (\<lambda>(h, w) m.
     let aspect_ratio = f_div g (f_of g w) (f_of g h) in
     if h \<le> w then
       let new_w = up_to_multiple g m w
       in (up_to_multiple g m (f_floor g (f_div g (f_of g new_w) aspect_ratio)), new_w)
     else
       let new_h = up_to_multiple g m h
       in (new_h, up_to_multiple g m (f_floor g (f_mul g (f_of g new_h) aspect_ratio))))"

section \<open>Images\<close>

text \<open>Besides the image library of Qwen2-VL: cropping, and the transforms with rescaling and normalizing or without.\<close>

record ('i, 'a) frame_ops = "('i, 'a) image_ops" +
  im_crop :: "'i \<Rightarrow> nat \<Rightarrow> nat \<Rightarrow> nat \<Rightarrow> nat \<Rightarrow> 'i"
  im_apply :: "bool \<Rightarrow> bool \<Rightarrow> 'i \<Rightarrow> 'a nd res"

type_synonym sizes = "string \<Rightarrow> nat option"

definition dims_of :: "('i, 'a) frame_ops \<Rightarrow> 'i \<Rightarrow> nat \<times> nat" where
  "dims_of ops img = im_dims (image_ops.truncate ops) img"

definition resize_to :: "('i, 'a) frame_ops \<Rightarrow> nat \<Rightarrow> nat \<Rightarrow> filter_type \<Rightarrow> 'i \<Rightarrow> 'i" where
  "resize_to ops w h f img = im_resize_exact (image_ops.truncate ops) w h f img"

definition resize_image :: "('f, 'g) float_ops \<Rightarrow> ('i, 'a) frame_ops \<Rightarrow> 'i \<Rightarrow> sizes \<Rightarrow> filter_type \<Rightarrow> 'i res" where
  "resize_image g ops img sz filt =
     rbind (case sz ''longest_edge'' of
              Some e \<Rightarrow> (let (w, h) = dims_of ops img in Ok (get_resize_output_image_size g (h, w) e))
            | None \<Rightarrow>
                (case (sz ''height'', sz ''width'') of
                   (Some h, Some w) \<Rightarrow> Ok (h, w)
                 | _ \<Rightarrow> Err (Bail ''Size must be a map of longest_edge or height and width''))) (\<lambda>(h, w).
     Ok (resize_to ops w h filt img))"

definition square :: "nat \<Rightarrow> sizes" where
  "square n = [''height'' \<mapsto> n, ''width'' \<mapsto> n]"

text \<open>A frame: where it starts and its size; the subtractions are of \<^verbatim>\<open>u32\<close>.\<close>

definition frame_at :: "nat \<Rightarrow> nat \<Rightarrow> nat \<Rightarrow> nat \<Rightarrow> nat \<Rightarrow> nat \<Rightarrow> (nat \<times> nat \<times> nat \<times> nat) res" where
  "frame_at width height optimal_width optimal_height r c =
     (let start_x = c * optimal_width; start_y = r * optimal_height;
          end_x = min (start_x + optimal_width) width; end_y = min (start_y + optimal_height) height
      in rbind (usub end_x start_x) (\<lambda>w. rbind (usub end_y start_y) (\<lambda>h. Ok (start_x, start_y, w, h))))"

definition frames_of :: "('f, 'g) float_ops \<Rightarrow> nat \<Rightarrow> nat \<Rightarrow> nat \<Rightarrow> ((nat \<times> nat \<times> nat \<times> nat) list \<times> nat \<times> nat) res" where
  "frames_of fo width height longest_edge =
     (let f = f_of fo;
          num_splits_h = f_ceil fo (f_div fo (f height) (f longest_edge));
          num_splits_w = f_ceil fo (f_div fo (f width) (f longest_edge));
          optimal_height = f_ceil fo (f_div fo (f height) (f num_splits_h));
          optimal_width = f_ceil fo (f_div fo (f width) (f num_splits_w))
      in rbind (rmap (\<lambda>(r, c). frame_at width height optimal_width optimal_height r c)
                 (List.product [0..<num_splits_h] [0..<num_splits_w])) (\<lambda>frames.
         Ok (frames, num_splits_h, num_splits_w)))"

definition split_image :: "('f, 'g) float_ops \<Rightarrow> ('h, 'k) float_ops \<Rightarrow> ('i, 'a) frame_ops \<Rightarrow> 'i \<Rightarrow> nat \<Rightarrow> ('i list \<times> nat \<times> nat) res" where
  "split_image fo g ops img longest_edge =
     (let (width, height) = dims_of ops img in
      if longest_edge < width \<or> longest_edge < height then
        rbind (frames_of fo width height longest_edge) (\<lambda>(frames, rows, cols).
        rbind (resize_image g ops img (square longest_edge) Lanczos3) (\<lambda>whole.
        Ok (map (\<lambda>(x, y, w, h). im_crop ops img x y w h) frames @ [whole], rows, cols)))
      else Ok ([img], 0, 0))"

section \<open>Preprocessing\<close>

record idefics_config =
  ic_do_convert_rgb :: "bool option"
  ic_do_image_splitting :: "bool option"
  ic_do_normalize :: "bool option"
  ic_do_pad :: "bool option"
  ic_do_rescale :: "bool option"
  ic_do_resize :: "bool option"
  ic_resampling :: "nat option"
  ic_max_image_size :: "sizes option"
  ic_size :: "sizes option"

definition convert_and_resize :: "('h, 'k) float_ops \<Rightarrow> ('i, 'a) frame_ops \<Rightarrow> idefics_config \<Rightarrow> 'i \<Rightarrow> 'i res" where
  "convert_and_resize g ops config img =
     (let img = (if ic_do_convert_rgb config = Some True then im_to_rgb8 (image_ops.truncate ops) img else img) in
      if ic_do_resize config = Some True then
        rbind (unwrap (ic_size config)) (\<lambda>sz.
        rbind (to_filter (ic_resampling config)) (\<lambda>filt. resize_image g ops img sz filt))
      else Ok img)"

definition longest_edge_of :: "idefics_config \<Rightarrow> nat res" where
  "longest_edge_of config =
     (case ic_max_image_size config of
        None \<Rightarrow> Ok 364
      | Some m \<Rightarrow> (case m ''longest_edge'' of Some n \<Rightarrow> Ok n | None \<Rightarrow> Err (Panic ''no entry found for key'')))"

text \<open>The frames of one image, with its rows and columns.\<close>

definition make_frames :: "('f, 'g) float_ops \<Rightarrow> ('h, 'k) float_ops \<Rightarrow> ('i, 'a) frame_ops \<Rightarrow> idefics_config \<Rightarrow> 'i \<Rightarrow> ('i list \<times> nat \<times> nat) res" where
  "make_frames fo g ops config img =
     rbind (longest_edge_of config) (\<lambda>e.
     if ic_do_image_splitting config \<noteq> Some False then
       let (w, h) = dims_of ops img; (new_h, new_w) = resize_for_vision_encoder g (h, w) e in
       rbind (to_filter (ic_resampling config)) (\<lambda>filt.
       split_image fo g ops (resize_to ops new_w new_h filt img) e)
     else rbind (resize_image g ops img (square e) Lanczos3) (\<lambda>img. Ok ([img], 0, 0)))"

definition make_pixel_mask :: "'b nd \<Rightarrow> nat \<Rightarrow> nat \<Rightarrow> 'a::{zero,one} nd res" where
  "make_pixel_mask img h w =
     rbind (dims3 img) (\<lambda>(c, max_h, max_w). slice_assign [] (ones [h, w]) (zeros [max_h, max_w]))"

definition frame_tensor :: "('i, 'a::{zero,one}) frame_ops \<Rightarrow> idefics_config \<Rightarrow> nat \<Rightarrow> nat \<Rightarrow> 'i \<Rightarrow> ('a nd \<times> 'a nd list) res" where
  "frame_tensor ops config max_h max_w img =
     rbind (im_apply ops (ic_do_rescale config = Some True) (ic_do_normalize config = Some True) img) (\<lambda>x.
     if ic_do_pad config = Some True then
       rbind (dims3 x) (\<lambda>(c, h, w).
       rbind (pad_to x max_h max_w) (\<lambda>padded.
       rbind (make_pixel_mask padded h w) (\<lambda>m. Ok (padded, [m]))))
     else Ok (x, []))"

record 'a idefics_images =
  ii_pixel_values :: "'a nd"
  ii_pixel_attention_mask :: "'a nd"
  ii_rows_cols :: "(nat \<times> nat) list"

definition preprocess_idefics :: "('f, 'g) float_ops \<Rightarrow> ('h, 'k) float_ops \<Rightarrow> ('i, 'a::{zero,one}) frame_ops \<Rightarrow> idefics_config
    \<Rightarrow> nat option \<Rightarrow> 'i list \<Rightarrow> 'a idefics_images res" where
  "preprocess_idefics fo g ops config max_edge imgs =
     rbind (case max_edge of Some e \<Rightarrow> pad_to_max_edge g (image_ops.truncate ops) imgs e | None \<Rightarrow> Ok imgs) (\<lambda>imgs.
     rbind (rmap (convert_and_resize g ops config) imgs) (\<lambda>imgs.
     rbind (rmap (make_frames fo g ops config) imgs) (\<lambda>made.
     let frames = concat (map fst made); (max_h, max_w) = largest_dims (image_ops.truncate ops) frames in
     rbind (rmap (frame_tensor ops config max_h max_w) frames) (\<lambda>tensors.
     rbind (stack (map fst tensors)) (\<lambda>values.
     rbind (stack (concat (map snd tensors))) (\<lambda>masks.
     Ok \<lparr>ii_pixel_values = values, ii_pixel_attention_mask = masks, ii_rows_cols = map snd made\<rparr>))))))"

section \<open>The inputs of a step\<close>

definition process_idefics_seq :: "('f, 'g) float_ops \<Rightarrow> ('h, 'k) float_ops \<Rightarrow> ('i, 'a::{zero,one}) frame_ops \<Rightarrow> tokenizer \<Rightarrow> idefics_config
    \<Rightarrow> nat option \<Rightarrow> nat \<Rightarrow> ('s, 'i, 'a) vision_sequence
    \<Rightarrow> (('s, 'i, 'a) vision_sequence \<times> 'a idefics_images \<times> nat list) res" where
  "process_idefics_seq fo g ops tk config max_edge image_seq_len s =
     rbind (unwrap (vs_images s)) (\<lambda>imgs.
     case preprocess_idefics fo g ops config max_edge imgs of
       Inl e \<Rightarrow> Err (Panic ''Preprocessing failed'')
     | Inr pre \<Rightarrow>
         rbind (unwrap (tk_decode tk (get_toks (vs_seq s)))) (\<lambda>detok.
         rbind (insert_images detok (map (\<lambda>(r, c). get_image_prompt_string r c image_seq_len) (ii_rows_cols pre))) (\<lambda>sample.
         rbind (unwrap (tk_encode tk sample True)) (\<lambda>ids.
         rbind (set_toks ids (vs_seq s)) (\<lambda>q.
         Ok (s\<lparr>vs_seq := q, vs_images := None, vs_initial_prompt := sample\<rparr>, pre, ids))))))"

definition process_idefics :: "('f, 'g) float_ops \<Rightarrow> ('h, 'k) float_ops \<Rightarrow> ('i, 'a::{zero,one}) frame_ops \<Rightarrow> tokenizer option \<Rightarrow> idefics_config
    \<Rightarrow> nat option \<Rightarrow> nat \<Rightarrow> bool \<Rightarrow> bool \<Rightarrow> ('s, 'i, 'a) vision_sequence list
    \<Rightarrow> (('s, 'i, 'a) vision_sequence list \<times> ('a idefics_images list \<times> nat list list) option) res" where
  "process_idefics fo g ops tk config max_edge image_seq_len is_xlora no_kv_cache seqs =
     (if is_xlora then Err (Bail ''Cannot make inputs for X-LoRA vision model.'')
      else if no_kv_cache then Err (Bail ''Vision model must have kv cache.'')
      else rbind (context_of ''Idefics3ImageProcessor requires a specified tokenizer.'' tk) (\<lambda>tk.
        if \<not> has_images seqs then Ok (seqs, None)
        else rbind (rmap (process_idefics_seq fo g ops tk config max_edge image_seq_len) seqs) (\<lambda>rs.
          rbind (pad_ids (map (snd \<circ> snd) rs)) (\<lambda>ids.
          Ok (map fst rs, Some (map (fst \<circ> snd) rs, ids))))))"

section \<open>The texts around the images\<close>

lemma special_image_token [simp]: "special image_token"
  by (simp add: special_def image_token_def bytes_of_def of_char_def)

lemma insert_fold:
  "k + length strs \<le> length ts \<Longrightarrow>
   rfold (\<lambda>(i, s) sample. rbind (vget ts i) (\<lambda>t. Ok (sample @ s @ t))) (List.enumerate k strs) acc
     = Ok (acc @ concat (map2 (@) strs (drop k ts)))"
proof (induction strs arbitrary: k acc)
  case (Cons s strs)
  then have "drop k ts = ts ! k # drop (Suc k) ts" by (intro Cons_nth_drop_Suc [symmetric]) simp
  then show ?case using Cons by simp
qed simp

lemma zip_take_right: "zip xs ys = zip xs (take (length xs) ys)"
proof (induction xs arbitrary: ys)
  case (Cons x xs)
  then show ?case by (cases ys) auto
qed simp

lemma inserted:
  assumes "\<not> occurs image_token p" and "\<forall>q \<in> set qs. \<not> occurs image_token q" and "length strs = length qs"
  shows "insert_images (weave p (map (\<lambda>q. (image_token, q)) qs)) strs = Ok (p @ concat (map2 (@) strs (butlast (p # qs))))"
proof -
  have s: "split_str image_token (weave p (map (\<lambda>q. (image_token, q)) qs)) = p # qs"
    by (rule split_weave [OF special_image_token assms(1,2)])
  have "butlast (p # qs) = take (length strs) (p # qs)" by (simp add: butlast_conv_take assms(3))
  then have "zip strs (p # qs) = zip strs (butlast (p # qs))" using zip_take_right [of strs "p # qs"] by simp
  then show ?thesis using insert_fold [of 0 strs "p # qs" p] assms(3) by (simp add: insert_images_def s)
qed

section \<open>The tokens of an image\<close>

text \<open>One more than the occurrences of a token.\<close>

definition pieces :: "'a list \<Rightarrow> 'a list \<Rightarrow> nat" where
  "pieces a s = length (split_str a s)"

lemma pieces_token: "special a \<Longrightarrow> pieces a (a @ y) = Suc (pieces a y)"
  using split_str_token [of a "[]" y] by (cases a) (simp_all add: pieces_def occurs_def)

lemma pieces_repeat: "special a \<Longrightarrow> pieces a (str_repeat k a @ y) = k + pieces a y"
  by (induction k) (simp_all add: pieces_token)

lemma pieces_Cons: "a \<noteq> [] \<Longrightarrow> take (length a) (c # s) \<noteq> a \<Longrightarrow> pieces a (c # s) = pieces a s"
  by (simp add: pieces_def split_str.simps [of a "c # s"] split_str.simps [of a s] split: option.splits)

lemma pieces_skip: "a \<noteq> [] \<Longrightarrow> hd a \<notin> set x \<Longrightarrow> pieces a (x @ y) = pieces a y"
proof (induction x)
  case (Cons c x)
  then have "take (length a) (c # x @ y) \<noteq> a" by (cases a) auto
  then show ?case using Cons by (simp add: pieces_Cons)
qed simp

text \<open>A tag of another name.\<close>

lemma pieces_tag:
  assumes "60 \<notin> set t" and "d \<noteq> 105" and "d \<noteq> 60"
  shows "pieces image_token (60 # d # t @ y) = pieces image_token y"
proof -
  have a: "image_token = [60, 105, 109, 97, 103, 101, 62]" by (simp add: image_token_def bytes_of_def of_char_def)
  have "pieces image_token (60 # d # t @ y) = pieces image_token (d # t @ y)"
    by (rule pieces_Cons) (use assms(2) in \<open>simp_all add: a\<close>)
  also have "\<dots> = pieces image_token y"
    using pieces_skip [of image_token "d # t" y] assms(1,3) by (simp add: a)
  finally show ?thesis .
qed

lemma decimal_no_tag: "60 \<notin> set (decimal n)"
proof (induction n rule: decimal.induct)
  case (1 n)
  have "n mod 10 < 10" by simp
  then have "48 + n mod 10 \<noteq> 60" by linarith
  then show ?case using 1 by (subst decimal.simps) simp
qed

lemma pieces_fake: "pieces image_token (fake_image_token @ y) = pieces image_token y"
  using pieces_tag [of "tl (tl fake_image_token)" 102 y] by (simp add: fake_image_token_def bytes_of_def of_char_def)

lemma pieces_global_tag: "pieces image_token (global_image_token @ y) = pieces image_token y"
  using pieces_tag [of "tl (tl global_image_token)" 103 y] by (simp add: global_image_token_def bytes_of_def of_char_def)

lemma pieces_frame: "pieces image_token (frame_string n r c @ y) = n + pieces image_token y"
proof -
  have row: "bytes_of ''<row_'' = 60 # 114 # [111, 119, 95]" "bytes_of ''_col_'' = [95, 99, 111, 108, 95]" "bytes_of ''>'' = [62]"
    by (simp_all add: bytes_of_def of_char_def)
  show ?thesis
    using pieces_tag [of "[111, 119, 95] @ decimal (r + 1) @ [95, 99, 111, 108, 95] @ decimal (c + 1) @ [62]" 114
        "str_repeat n image_token @ y"] decimal_no_tag
    by (simp add: frame_string_def row pieces_fake pieces_repeat)
qed

lemma pieces_frames: "pieces image_token (concat (map (frame_string n r) cs) @ y) = length cs * n + pieces image_token y"
  by (induction cs) (simp_all add: pieces_frame)

lemma pieces_newline: "pieces image_token ([10] @ y) = pieces image_token y"
  by (rule pieces_skip) (simp_all add: image_token_def bytes_of_def of_char_def)

lemma pieces_rows:
  "pieces image_token (concat (map (\<lambda>r. concat (map (frame_string n r) [0..<cols]) @ [10]) rs) @ y)
    = length rs * cols * n + pieces image_token y"
proof (induction rs)
  case (Cons r rs)
  then show ?case
    using pieces_frames [of n r "[0..<cols]"] pieces_newline by (simp add: algebra_simps)
qed simp

lemma pieces_global: "pieces image_token (global_string n) = n + 1"
proof -
  have "pieces image_token [] = 1"
    by (simp add: pieces_def split_str.simps image_token_def bytes_of_def)
  then show ?thesis
    using pieces_fake [of "[]"] by (simp add: global_string_def pieces_fake pieces_global_tag pieces_repeat)
qed

lemma tokens_of_image: "pieces image_token (get_image_prompt_string rows cols n) = (rows * cols + 1) * n + 1"
  using pieces_rows [of n cols "[0..<rows]" "[10] @ global_string n"] pieces_newline [of "global_string n"]
  by (simp add: get_image_prompt_string_def pieces_global algebra_simps)

section \<open>Frames\<close>

lemma ceil_exact: "0 < L \<Longrightarrow> nat \<lceil>real (k * L) / real L\<rceil> = k"
  by simp

lemma multiple_up:
  assumes "exact_ops g" and "0 < m"
  shows "up_to_multiple g m n = nat \<lceil>real n / real m\<rceil> * m"
proof -
  have "nat \<lfloor>real (nat \<lceil>real n / real m\<rceil>) * real m\<rfloor> = nat \<lceil>real n / real m\<rceil> * m"
    by (simp only: of_nat_mult [symmetric] floor_of_nat nat_int)
  then show ?thesis using assms(1) by (simp only: up_to_multiple_def exact_ops_def)
qed

lemma up_pos: "0 < n \<Longrightarrow> 0 < m \<Longrightarrow> 0 < nat \<lceil>real n / real m\<rceil>"
  by simp

lemma encoder_sides:
  assumes "exact_ops g" and "0 < m" and "0 < h" and "0 < w"
  obtains kh kw where "resize_for_vision_encoder g (h, w) m = (kh * m, kw * m)" and "0 < kh" and "0 < kw"
proof (cases "h \<le> w")
  case True
  let ?w = "nat \<lceil>real w / real m\<rceil> * m"
  let ?h = "nat \<lfloor>real ?w / (real w / real h)\<rfloor>"
  have "real w \<le> real ?w" by (rule ceiling_multiple [OF assms(2)])
  then have "1 \<le> real ?w / (real w / real h)"
  proof -
    have "real w / real h \<le> real w" using assms(3,4) by (simp add: divide_le_eq)
    also have "\<dots> \<le> real ?w" by fact
    finally have "1 * (real w / real h) \<le> real ?w" by simp
    moreover have "0 < real w / real h" using assms(3,4) by simp
    ultimately show ?thesis by (simp only: pos_le_divide_eq)
  qed
  then have "0 < ?h" by simp
  moreover have "resize_for_vision_encoder g (h, w) m = (up_to_multiple g m ?h, up_to_multiple g m w)"
    using True assms(1) multiple_up [OF assms(1,2), of w] by (simp add: resize_for_vision_encoder_def exact_ops_def Let_def)
  ultimately show ?thesis
    using that [of "nat \<lceil>real ?h / real m\<rceil>" "nat \<lceil>real w / real m\<rceil>"] up_pos assms multiple_up [OF assms(1,2)] by metis
next
  case False
  let ?h = "nat \<lceil>real h / real m\<rceil> * m"
  let ?w = "nat \<lfloor>real ?h * (real w / real h)\<rfloor>"
  have "real h \<le> real ?h" by (rule ceiling_multiple [OF assms(2)])
  then have "1 \<le> real ?h * (real w / real h)"
  proof -
    have "1 \<le> real w" using assms(4) by simp
    also have "\<dots> = real h * (real w / real h)" using assms(3) by simp
    also have "\<dots> \<le> real ?h * (real w / real h)" by (rule mult_right_mono) (use \<open>real h \<le> real ?h\<close> in simp_all)
    finally show ?thesis .
  qed
  then have "0 < ?w" by simp
  moreover have "resize_for_vision_encoder g (h, w) m = (up_to_multiple g m h, up_to_multiple g m ?w)"
    using False assms(1) multiple_up [OF assms(1,2), of h] by (simp add: resize_for_vision_encoder_def exact_ops_def Let_def)
  ultimately show ?thesis
    using that [of "nat \<lceil>real h / real m\<rceil>" "nat \<lceil>real ?w / real m\<rceil>"] up_pos assms multiple_up [OF assms(1,2)] by metis
qed

lemma frame_inside: "c < kw \<Longrightarrow> r < kh \<Longrightarrow> frame_at (kw * L) (kh * L) L L r c = Ok (c * L, r * L, L, L)"
proof -
  assume "c < kw" "r < kh"
  then have "Suc c * L \<le> kw * L" "Suc r * L \<le> kh * L" by (intro mult_le_mono1; simp)+
  then have "min (c * L + L) (kw * L) = c * L + L" "min (r * L + L) (kh * L) = r * L + L" by simp_all
  then show ?thesis by (simp add: frame_at_def Let_def)
qed

lemma frames_exact:
  assumes "exact_ops fo" and "0 < L" and "0 < kw" and "0 < kh"
  shows "frames_of fo (kw * L) (kh * L) L
    = Ok (map (\<lambda>(r, c). (c * L, r * L, L, L)) (List.product [0..<kh] [0..<kw]), kh, kw)"
proof -
  have n: "nat \<lceil>real (k * L) / real L\<rceil> = k" "0 < k \<Longrightarrow> nat \<lceil>real (k * L) / real k\<rceil> = L" for k
    using assms(2) by simp_all
  have "rmap (\<lambda>(r, c). frame_at (kw * L) (kh * L) L L r c) (List.product [0..<kh] [0..<kw])
      = Ok (map (\<lambda>(r, c). (c * L, r * L, L, L)) (List.product [0..<kh] [0..<kw]))"
    by (rule rmap_Inr) (auto simp: frame_inside)
  then show ?thesis using assms(1,3,4) n by (simp only: frames_of_def exact_ops_def Let_def rbind_Inr)
qed


lemma split_exact:
  assumes "exact_ops fo" and "0 < L" and "0 < kw" and "0 < kh" and "dims_of ops img = (kw * L, kh * L)"
  shows "split_image fo g ops img L =
    (if kw = 1 \<and> kh = 1 then Ok ([img], 0, 0)
     else Ok (map (\<lambda>(r, c). im_crop ops img (c * L) (r * L) L L) (List.product [0..<kh] [0..<kw]) @ [resize_to ops L L Lanczos3 img], kh, kw))"
proof -
  have size: "L < kw * L \<or> L < kh * L \<longleftrightarrow> \<not> (kw = 1 \<and> kh = 1)" using assms(2-4) by auto
  have whole: "resize_image g ops img (square L) Lanczos3 = Ok (resize_to ops L L Lanczos3 img)"
    by (simp add: resize_image_def square_def)
  show ?thesis
    unfolding split_image_def assms(5) prod.case Let_def size frames_exact [OF assms(1-4)] whole rbind_Inr
    by (auto simp: comp_def case_prod_unfold)
qed

lemma made_frames:
  assumes "exact_ops fo" and "exact_ops g" and "longest_edge_of config = Ok L" and "0 < L"
    and "ic_do_image_splitting config \<noteq> Some False" and "to_filter (ic_resampling config) = Ok filt"
    and "dims_of ops img = (w, h)" and "0 < w" and "0 < h" and "\<And>w h f i. dims_of ops (resize_to ops w h f i) = (w, h)"
  shows "\<exists>kh kw frames rows cols. 0 < kh \<and> 0 < kw \<and> make_frames fo g ops config img = Ok (frames, rows, cols)
    \<and> (let img' = resize_to ops (kw * L) (kh * L) filt img in
        if kw = 1 \<and> kh = 1 then frames = [img'] \<and> rows = 0 \<and> cols = 0
        else frames = map (\<lambda>(r, c). im_crop ops img' (c * L) (r * L) L L) (List.product [0..<kh] [0..<kw]) @ [resize_to ops L L Lanczos3 img']
             \<and> rows = kh \<and> cols = kw)
    \<and> length (split_str image_token (get_image_prompt_string rows cols n)) = length frames * n + 1"
proof -
  obtain kh kw where k: "resize_for_vision_encoder g (h, w) L = (kh * L, kw * L)" "0 < kh" "0 < kw"
    by (rule encoder_sides [OF assms(2,4,9,8)])
  let ?img = "resize_to ops (kw * L) (kh * L) filt img"
  have run: "make_frames fo g ops config img = split_image fo g ops ?img L"
    using assms(3,5-7) k(1) by (simp add: make_frames_def)
  note split = split_exact [OF assms(1,4) k(3,2) assms(10) [of "kw * L" "kh * L" filt img], of g]
  have tokens: "length (split_str image_token (get_image_prompt_string r c n)) = (r * c + 1) * n + 1" for r c
    using tokens_of_image [of r c n] by (simp add: pieces_def)
  show ?thesis
  proof (cases "kw = 1 \<and> kh = 1")
    case True
    then show ?thesis using k(2,3) run split tokens [of 0 0]
      by (intro exI [of _ kh] exI [of _ kw] exI [of _ "[?img]"] exI [of _ 0]) (simp add: Let_def)
  next
    case False
    then show ?thesis using k(2,3) run split tokens [of kh kw]
      by (intro exI [of _ kh] exI [of _ kw] exI) (auto simp: Let_def length_product)
  qed
qed

section \<open>Properties\<close>

text \<open>
  C22. The question is lost. The text of a prompt with \<open>n\<close> image tokens, between \<open>n + 1\<close> texts, becomes the first text and then,
  for every image, the tokens of the image and the text before it: the first text stands there twice,
  and the text after the last image, where a question usually is, not at all.
\<close>

theorem the_last_text_is_lost:
  assumes "\<not> occurs image_token p" and "\<forall>q \<in> set qs. \<not> occurs image_token q" and "length strs = length qs"
  shows "insert_images (weave p (map (\<lambda>q. (image_token, q)) qs)) strs = Ok (p @ concat (map2 (@) strs (butlast (p # qs))))"
  by (rule inserted [OF assms])

text \<open>
  C23. Frames and tokens agree. An image, whatever its size, is resized to a multiple of the longest edge and split into
  the squares of this multiple row by row, with the whole image as the last frame (one square is not split); the text
  for its rows and columns has as many image tokens as the frames have together. Without rounding errors.
\<close>

theorem frames_match_the_prompt:
  assumes "exact_ops fo" and "exact_ops g" and "longest_edge_of config = Ok L" and "0 < L"
    and "ic_do_image_splitting config \<noteq> Some False" and "to_filter (ic_resampling config) = Ok filt"
    and "dims_of ops img = (w, h)" and "0 < w" and "0 < h" and "\<And>w h f i. dims_of ops (resize_to ops w h f i) = (w, h)"
  shows "\<exists>kh kw frames rows cols. 0 < kh \<and> 0 < kw \<and> make_frames fo g ops config img = Ok (frames, rows, cols)
    \<and> (let img' = resize_to ops (kw * L) (kh * L) filt img in
        if kw = 1 \<and> kh = 1 then frames = [img'] \<and> rows = 0 \<and> cols = 0
        else frames = map (\<lambda>(r, c). im_crop ops img' (c * L) (r * L) L L) (List.product [0..<kh] [0..<kw]) @ [resize_to ops L L Lanczos3 img']
             \<and> rows = kh \<and> cols = kw)
    \<and> length (split_str image_token (get_image_prompt_string rows cols n)) = length frames * n + 1"
  by (rule made_frames [OF assms])

section \<open>Witnesses\<close>

theorem the_last_text_is_lost_witness:
  "insert_images (weave (bytes_of ''User: '') [(image_token, bytes_of ''What is this?'')]) [[42]] = Ok (bytes_of ''User: *User: '')"
  using the_last_text_is_lost [of "bytes_of ''User: ''" "[bytes_of ''What is this?'']" "[[42]]"]
  by (simp add: occurs_def image_token_def bytes_of_def of_char_def)

definition black_frames :: "(nat \<times> nat, nat) frame_ops" where
  "black_frames = \<lparr>im_dims = (\<lambda>i. i), im_resize_exact = (\<lambda>w h f i. (w, h)), im_to_rgb8 = (\<lambda>i. i), im_color = (\<lambda>i. Rgb8),
     im_black = (\<lambda>c w h. (w, h)), im_copy_from = (\<lambda>a b. Some a),
     im_tensor = (\<lambda>(w, h). Ok \<lparr>nd_shape = [3, h, w], nd_at = (\<lambda>_. 0)\<rparr>),
     im_crop = (\<lambda>i x y w h. (w, h)), im_apply = (\<lambda>_ _ (w, h). Ok \<lparr>nd_shape = [3, h, w], nd_at = (\<lambda>_. 0)\<rparr>)\<rparr>"

definition default_config :: idefics_config where
  "default_config = \<lparr>ic_do_convert_rgb = None, ic_do_image_splitting = None, ic_do_normalize = None, ic_do_pad = None,
     ic_do_rescale = None, ic_do_resize = None, ic_resampling = None, ic_max_image_size = None, ic_size = None\<rparr>"

theorem frames_match_the_prompt_witness:
  "\<exists>frames rows cols. make_frames exact_floats exact_floats black_frames default_config (800, 300) = Ok (frames, rows, cols)
     \<and> length (split_str image_token (get_image_prompt_string rows cols 169)) = length frames * 169 + 1"
proof -
  have "longest_edge_of default_config = Ok 364" "ic_do_image_splitting default_config \<noteq> Some False"
    "to_filter (ic_resampling default_config) = Ok Triangle"
    by (simp_all add: longest_edge_of_def default_config_def)
  moreover have "dims_of black_frames (800, 300) = (800, 300)" "dims_of black_frames (resize_to black_frames w h f i) = (w, h)" for w h f i
    by (simp_all add: dims_of_def resize_to_def black_frames_def image_ops.truncate_def)
  ultimately show ?thesis
    using frames_match_the_prompt [of exact_floats exact_floats default_config 364 Triangle black_frames "(800, 300)" 800 300 169]
    by (auto simp del: mult_Suc_right)
qed

end
