(* ===== verification/Spec2Isabelle.thy ===== *)
theory Spec2Isabelle
  imports Block_Pool Inputs Auto_Map Masks Instances Hqq Topology Attention Speculative Server Options Mllama Qwen2vl Idefics3
begin

text \<open>
  A verification development for the inference engine of this repository (mistral.rs and its
  quantization crate). Paths below are under \<^verbatim>\<open>src/\<close>; \<^verbatim>\<open>core\<close> stands for
  \<^verbatim>\<open>mistralrs-core/src\<close>, \<^verbatim>\<open>quant\<close> for \<^verbatim>\<open>mistralrs-quant/src\<close>.

  \<^bold>\<open>The program.\<close> An instance (\<^verbatim>\<open>core/lib.rs\<close>) starts an engine on a thread. The engine
  (\<^verbatim>\<open>core/engine/mod.rs\<close>) receives requests, turns each into sequences and queues them with a
  scheduler. In every turn the scheduler picks a batch; the inputs processor makes its tensors;
  the pipeline runs the model with the caches of the batch and samples a token for each
  sequence; finished text goes to the client through the group of the sequence. The model was
  loaded before: its layers were placed on devices, cut for a group of devices or quantized, and
  quantized layers are stored in files.

  \<^bold>\<open>The theories and what they model.\<close>

  \<^item> Prelude: results (\<open>Panic\<close> and \<open>Bail\<close>), loops, checked operations; Utf8: lossy decoding of
    bytes; State_Error: functions on a state that may fail and keep what was changed before.
  \<^item> Logical_Blocks (\<^verbatim>\<open>core/paged_attention/block_engine.rs\<close>, \<^verbatim>\<open>core/sequence.rs\<close>), Block_Engine
    (\<^verbatim>\<open>block_engine.rs\<close>): the blocks of a sequence and their allocation, with allocators, tables
    and swapping as a state and one function per method. Block_Pool: a pool that only counts,
    and the refinement of it by the block engine.
  \<^item> Seq (\<^verbatim>\<open>core/sequence.rs\<close>, \<^verbatim>\<open>core/response.rs\<close>): sequences, groups, stop criteria, streaming.
  \<^item> Scheduler_Trait (\<^verbatim>\<open>core/scheduler/mod.rs\<close>): the contract as a locale; Paged_Scheduler
    (\<^verbatim>\<open>core/paged_attention/scheduler.rs\<close>) and Default_Scheduler
    (\<^verbatim>\<open>core/scheduler/default_scheduler.rs\<close>) interpret it.
  \<^item> Tools (\<^verbatim>\<open>core/tools\<close>), Sampler (\<^verbatim>\<open>core/sampler.rs\<close>), Sampling
    (\<^verbatim>\<open>core/pipeline/sampling.rs\<close>): recognizing tool calls, the chain of filters of the sampler, and
    what a sequence does with a token.
  \<^item> Kv_Cache (\<^verbatim>\<open>core/pipeline/cache_manager.rs\<close>), Prefix_Cache (\<^verbatim>\<open>core/prefix_cacher_v2.rs\<close>):
    key-value caches over a heap of tensors, batching them, and finding a cached prefix.
  \<^item> Inputs (\<^verbatim>\<open>core/pipeline/inputs_processor.rs\<close>), Masks (\<^verbatim>\<open>core/layers_masker.rs\<close>), Attention
    (\<^verbatim>\<open>core/attention.rs\<close>): the inputs of a step, the masks, and the attention of one head.
    Speculative (\<^verbatim>\<open>core/pipeline/speculative.rs\<close>): a step with a draft model and a target.
  \<^item> Engine and Requests (\<^verbatim>\<open>core/engine/mod.rs\<close>, \<^verbatim>\<open>core/utils/mod.rs\<close>): a turn of the loop with either
    scheduler, the handling of a failed model, and \<^verbatim>\<open>add_request\<close>. Instances (\<^verbatim>\<open>core/lib.rs\<close>,
    \<^verbatim>\<open>core/engine/mod.rs\<close>): threads, restarts and drops as a step relation.
  \<^item> Mllama (\<^verbatim>\<open>core/vision_models/mllama/inputs_processor.rs\<close>): images of Llama 3.2 Vision, their tiles and
    the mask of the text that attends to them. Qwen2vl_Inputs, Qwen2vl (\<^verbatim>\<open>core/vision_models/qwen2vl\<close>):
    images as patches, the expansion of the prompt, the positions of tokens and patches. Idefics3
    (\<^verbatim>\<open>core/vision_models/idefics3/inputs_processor.rs\<close>): frames and their text. Nd_Tensor and
    Substrings: what these use of tensors and strings.
  \<^item> Server (\<^verbatim>\<open>server/chat_completion.rs\<close>, \<^verbatim>\<open>completions.rs\<close>, \<^verbatim>\<open>image_generation.rs\<close>,
    \<^verbatim>\<open>openai.rs\<close>), Options (\<^verbatim>\<open>server/main.rs\<close>): the HTTP interface over the engine.
  \<^item> Device_Map (\<^verbatim>\<open>core/device_map.rs\<close>), Auto_Map (\<^verbatim>\<open>core/pipeline/loaders/mod.rs\<close>,
    \<^verbatim>\<open>core/paged_attention/mod.rs\<close>), Topology (\<^verbatim>\<open>core/topology/mod.rs\<close>, \<^verbatim>\<open>core/pipeline/isq.rs\<close>): which
    device and which quantization a layer gets, and how large the cache may be.
  \<^item> Tensor_Parallel (\<^verbatim>\<open>quant/safetensors.rs\<close>, \<^verbatim>\<open>quant/distributed/layers.rs\<close>,
    \<^verbatim>\<open>core/layers.rs\<close>, \<^verbatim>\<open>core/models/llama.rs\<close>): cutting tensors for a group of devices and
    running the feed-forward block and the attention on it.
  \<^item> Uqff (\<^verbatim>\<open>quant/utils/uqff.rs\<close>), Uqff_Layers (\<^verbatim>\<open>quant/gguf\<close>, \<^verbatim>\<open>unquantized\<close>, \<^verbatim>\<open>hqq\<close>, \<^verbatim>\<open>fp8\<close>,
    \<^verbatim>\<open>core/pipeline/isq.rs\<close>), Hqq (\<^verbatim>\<open>quant/hqq\<close>, \<^verbatim>\<open>quant/utils/ops.rs\<close>): the file format of
    quantized layers, and packing weights of few bits into words.

  \<^bold>\<open>What is shown.\<close>

  \<^item> Memory of PagedAttention: a block has one owner in every reachable state, the guarded calls never
    panic, scheduled sequences are covered by blocks, every token is written to a slot of its own.
  \<^item> Schedulers: neither loses or duplicates a sequence; the loop over the paged one never panics.
  \<^item> Text: streamed deltas decode to the bytes, the last completion answers the client, stop criteria.
  \<^item> Caches: a cache returns what was appended, caches come back from a batch as they went in, the
    longest cached prefix is found.
  \<^item> Speculative decoding gives the tokens that the target model decodes alone.
  \<^item> Server: when a stream ends, and that it never does for a refused request.
  \<^item> Images: every image is cut into tiles, and the mask of Llama 3.2 Vision is its reference; the
    patches, positions and tokens of Qwen2-VL agree, its positions are their reference, and where it
    goes wrong with several images, with completions and with the limit of tokens. The frames of
    Idefics 3 match its prompt, whose last text is lost.
  \<^item> Requests: one queues its choices or is answered with one error.
  \<^item> Placement: every layer gets a device, a cache fits memory and context, a topology is expanded as
    documented; a group of devices computes what one device computes.
  \<^item> Files: stored layers are loaded back; packed weights are unpacked.
  \<^item> Where the code departs from what it means to do, a theorem states what it does instead; these
    are listed as findings in the manifest.

  \<^bold>\<open>Conventions.\<close> Rust functions that fail are functions into \<open>'a res\<close>; a panic is a value
  \<open>Panic\<close>, an \<^verbatim>\<open>Err\<close> is \<open>Bail\<close>. Values of \<^verbatim>\<open>usize\<close> are \<open>nat\<close> with the checks that panic written out;
  the integers of file formats and packed weights are words. Vectors are lists, hash maps are
  association lists or functions with their order as a parameter, tensors are lists or objects in a
  heap where the code shares them. Loops are structural recursion or have a measure, so that no fuel
  is needed; the one loop that may not end, \<^verbatim>\<open>similar_loop\<close> of the device map, is a partial function
  with a lemma on when it ends. Constants of the code are kept: 512 positions by which a cache
  grows, 50 tokens of look-back of the DRY sampler, a cache of 90 percent of the memory.

  \<^bold>\<open>Parameters and their laws.\<close> What the code takes from libraries is an argument, with the
  documented behaviour it relies on as a named hypothesis that an example satisfies: the tensor
  library (\<open>tensor_laws\<close>, \<open>cat_law\<close>, \<open>chunk_law\<close>, \<open>to_device_law\<close>), conversions of numbers
  (\<open>conversion_laws\<close>), sorting and choosing of the sampler (\<open>sorts\<close>, \<open>picks_positive\<close>), the order of
  hash maps (\<open>hash_ok\<close>), ggml tensors (\<open>ggml_laws\<close> within \<open>storable\<close>), the sum over a group
  (\<open>sums_up\<close>), the fused softmax (\<open>fused_law\<close>), floating point without rounding errors (\<open>exact_ops\<close>,
  \<open>exact_sum\<close> below \<open>2 ^ 24\<close>); without a law: JSON, YAML, regular expressions on
  devices, tokenizers, chat templates, the grammar library, opening devices, the sizes a loader
  knows, and the model itself, which is any computation on the batch.

  \<^bold>\<open>Not modelled.\<close> Floating point: where numbers of a model matter, elements are of an ordered type,
  a semiring or a field. The architectures (\<^verbatim>\<open>core/models\<close>, \<^verbatim>\<open>vision_models\<close>, \<^verbatim>\<open>xlora_models\<close>,
  \<^verbatim>\<open>diffusion_models\<close>) beyond the blocks named above, and the kernels: numerical programs without a
  discrete contract of their own. Loaders and GGUF files: input and output around libraries. The
  bindings, the benchmark and the interactive mode: conversions between types of requests. The locks: the
  engine runs on one thread, and the threads of several engines interleave by passes of their loops.
\<close>

end
